(* ===== verification/Prelude.thy ===== *)
theory Prelude
  imports Main "HOL-Library.Word" "HOL-Library.Monad_Syntax"
begin

text \<open>
  Shared vocabulary of the development.

  \<^item> Machine types: \<open>size_t\<close> and \<open>uint64_t\<close> are 64-bit words; exit codes are integers.
  \<^item> Pointers: a pointer is an option, \<open>NULL\<close> is its \<open>None\<close>.  An out-parameter
    \<open>T* out\<close> is a value of type \<open>'a out\<close>: \<open>None\<close> when the caller passes \<open>NULL\<close>,
    \<open>Some v\<close> when it points to a variable that holds \<open>v\<close>.
  \<^item> Programs: a C function becomes a function that takes the heap last and returns
    \<open>Some (result, heap')\<close>.  \<open>None\<close> means that the call has no defined result: it
    dereferences a null or dangling pointer, frees a block twice, unlocks a free mutex, or
    never returns (a loop that does not end, a lock that is never released).  A theorem
    whose conclusion is \<open>f x h = Some (r, h')\<close> is thus a statement of memory safety and
    of termination as well.
  \<^item> The system: \<open>malloc\<close>, the \<open>pthread_*_init\<close> calls and every other request to the
    operating system may fail.  An \<open>allocator\<close> counts the requests and holds an arbitrary
    schedule of outcomes; block identities are never reused.
\<close>

section \<open>Types\<close>

type_synonym size_t = "64 word"
type_synonym uint64_t = "64 word"
type_synonym exit_code = int
type_synonym addr = nat
type_synonym 'a ptr = "'a option"
type_synonym 'a out = "'a option"
type_synonym ('a, 'h) res = "('a \<times> 'h) option"

abbreviation (input) NULL :: "'a ptr" where
  "NULL \<equiv> None"

text \<open>Callbacks of the C interfaces act on the state \<open>'w\<close> of their owner only.\<close>

type_synonym ('d, 'w) free_fn = "'d ptr \<Rightarrow> 'w \<Rightarrow> 'w option"
type_synonym ('d, 'w) copy_fn = "'d ptr \<Rightarrow> 'w \<Rightarrow> (exit_code \<times> 'd ptr \<times> 'w) option"
type_synonym 'd compare_fn = "'d ptr \<Rightarrow> 'd ptr \<Rightarrow> int"

named_theorems heap_simps \<open>unfolding rules for the primitive heap accesses\<close>
named_theorems spec_intros \<open>specifications of the operations of a component\<close>

section \<open>Requests to the system\<close>

record allocator =
  ticks :: nat
  outcome :: "nat \<Rightarrow> int"

text \<open>
  \<open>outcome A n\<close> is the result of the \<open>n\<close>-th request: 0 for success, an error code otherwise.
  A 64-bit address space has at most \<open>2 ^ 64 - 1\<close> non-null blocks, so a \<open>malloc\<close> beyond
  that fails in any case.
\<close>

definition block_limit :: nat where
  "block_limit = 2 ^ 64 - 1"

definition tick :: "allocator \<Rightarrow> allocator" where
  "tick A = A\<lparr>ticks := Suc (ticks A)\<rparr>"

definition refused :: "allocator \<Rightarrow> bool" where
  "refused A \<longleftrightarrow> outcome A (ticks A) \<noteq> 0 \<or> block_limit \<le> ticks A"

definition malloc :: "allocator \<Rightarrow> addr ptr \<times> allocator" where
  "malloc A = (if refused A then NULL else Some (Suc (ticks A)), tick A)"

text \<open>
  \<open>pthread_mutex_init\<close> and \<open>pthread_cond_init\<close> return the outcome as their exit code; they fail with
  \<open>EAGAIN\<close>, too, once the system has nothing left.
\<close>

definition sys_init :: "allocator \<Rightarrow> exit_code \<times> allocator" where
  "sys_init A = (if outcome A (ticks A) = 0 \<and> block_limit \<le> ticks A then 11 else outcome A (ticks A), tick A)"

text \<open>The next \<open>n\<close> requests are granted.\<close>

definition grants :: "nat \<Rightarrow> allocator \<Rightarrow> bool" where
  "grants n A \<longleftrightarrow> (\<forall>i < n. outcome A (ticks A + i) = 0) \<and> ticks A + n \<le> block_limit"

lemma ticks_tick [simp]: "ticks (tick A) = Suc (ticks A)"
  by (simp add: tick_def)

lemma outcome_tick [simp]: "outcome (tick A) = outcome A"
  by (simp add: tick_def)

lemma grants_Suc: "grants (Suc n) A \<longleftrightarrow> \<not> refused A \<and> grants n (tick A)"
  by (auto simp: grants_def refused_def less_Suc_eq_0_disj)

lemma grants_mono: "grants n A \<Longrightarrow> m \<le> n \<Longrightarrow> grants m A"
  by (simp add: grants_def)

lemma grants_not_refused [simp, dest]: "grants (Suc n) A \<Longrightarrow> \<not> refused A"
  by (simp add: grants_Suc)

lemma grants_1 [simp]: "grants (Suc 0) A \<longleftrightarrow> \<not> refused A"
  by (auto simp: grants_def refused_def)

lemma malloc_refused [simp]: "refused A \<Longrightarrow> malloc A = (NULL, tick A)"
  by (simp add: malloc_def)

lemma malloc_granted [simp]: "\<not> refused A \<Longrightarrow> malloc A = (Some (Suc (ticks A)), tick A)"
  by (simp add: malloc_def)

lemma sys_init_simps [simp]:
  "\<not> refused A \<Longrightarrow> sys_init A = (0, tick A)"
  "snd (sys_init A) = tick A" "fst (sys_init A) = 0 \<longleftrightarrow> \<not> refused A"
  by (auto simp: sys_init_def refused_def)

lemma ticks_funpow [simp]: "ticks ((tick ^^ n) A) = ticks A + n" "outcome ((tick ^^ n) A) = outcome A"
  by (induction n) simp_all

lemma grants_add: "grants (m + n) A \<longleftrightarrow> grants m A \<and> grants n ((tick ^^ m) A)"
proof -
  have "(\<forall>i < m + n. P i) \<longleftrightarrow> (\<forall>i < m. P i) \<and> (\<forall>i < n. P (m + i))" for P :: "nat \<Rightarrow> bool"
    by (metis add_less_cancel_left le_add_diff_inverse not_le trans_less_add1)
  then show ?thesis by (auto simp: grants_def add.assoc)
qed

lemma grants_nth: "grants n A \<Longrightarrow> k < n \<Longrightarrow> \<not> refused ((tick ^^ k) A)"
  by (simp add: grants_def refused_def)

lemma not_grants_3:
  "\<not> grants 3 A \<longleftrightarrow> refused A \<or> refused (tick A) \<or> refused (tick (tick A))"
  by (auto simp: numeral_3_eq_3 grants_Suc) (auto simp: grants_def refused_def)

section \<open>Mutexes\<close>

text \<open>
  A mutex is unlocked or locked.  Locking a locked mutex waits for a release that, within
  one sequential call, never comes; unlocking an unlocked one and destroying a locked one
  are undefined.
\<close>

datatype pthread_mutex_t = Unlocked | Locked

fun pthread_mutex_lock :: "pthread_mutex_t \<Rightarrow> pthread_mutex_t option" where
  "pthread_mutex_lock Unlocked = Some Locked"
| "pthread_mutex_lock Locked = None"

fun pthread_mutex_unlock :: "pthread_mutex_t \<Rightarrow> pthread_mutex_t option" where
  "pthread_mutex_unlock Locked = Some Unlocked"
| "pthread_mutex_unlock Unlocked = None"

fun pthread_mutex_destroy :: "pthread_mutex_t \<Rightarrow> unit option" where
  "pthread_mutex_destroy Unlocked = Some ()"
| "pthread_mutex_destroy Locked = None"

section \<open>Lists, maps and words\<close>

lemma unat_of_nat_size_t: "n \<le> block_limit \<Longrightarrow> unat (of_nat n :: size_t) = n"
  by (simp add: block_limit_def unat_of_nat)

lemma unat_plus_1_size_t:
  assumes "j < (n :: size_t)"
  shows "unat (j + 1) = Suc (unat j)"
proof -
  have "unat n < 2 ^ LENGTH(64)" by (rule unsigned_less)
  with assms have "unat j < unat n" and "unat n < 2 ^ 64" by (simp_all add: word_less_nat_alt)
  then show ?thesis by (simp add: unat_word_ariths)
qed

lemma of_nat_eq_0_size_t:
  "n \<le> block_limit \<Longrightarrow> (of_nat n :: size_t) = 0 \<longleftrightarrow> n = 0"
  using unat_eq_zero [of "of_nat n :: size_t"] by (simp add: unat_of_nat_size_t)

lemma distinct_bounded_length:
  "distinct xs \<Longrightarrow> set xs \<subseteq> {1..n} \<Longrightarrow> length xs \<le> n"
  by (metis card_atLeastAtMost card_mono diff_Suc_1 distinct_card finite_atLeastAtMost)

section \<open>Ownership\<close>

text \<open>
  A layer whose structures each own one object of the layer below.  \<open>F\<close> gives the owned pointer
  of each structure, \<open>M\<close> the content of the objects below, \<open>Q\<close> the content of the structures:
  every structure owns an object, no object has two owners, and every object has one.
\<close>

definition owns :: "(addr \<rightharpoonup> addr ptr) \<Rightarrow> (addr \<rightharpoonup> 'x) \<Rightarrow> (addr \<rightharpoonup> 'x) \<Rightarrow> bool" where
  "owns F M Q \<longleftrightarrow>
     (\<forall>q p. F q = Some p \<longrightarrow> (\<exists>l x. p = Some l \<and> M l = Some x \<and> Q q = Some x))
     \<and> (\<forall>q. F q = None \<longrightarrow> Q q = None)
     \<and> (\<forall>q q' p. F q = Some p \<longrightarrow> F q' = Some p \<longrightarrow> q = q')
     \<and> (\<forall>l. M l \<noteq> None \<longrightarrow> (\<exists>q. F q = Some (Some l)))"

lemma ownsD:
  assumes "owns F M Q"
  shows owns_inj: "F q = Some p \<Longrightarrow> F q' = Some p \<Longrightarrow> q = q'"
    and owns_none: "F q = None \<Longrightarrow> Q q = None"
    and owns_onto: "M l \<noteq> None \<Longrightarrow> \<exists>q. F q = Some (Some l)"
  using assms unfolding owns_def by metis+

lemma ownsE:
  assumes "owns F M Q" and "F q = Some p"
  obtains l x where "p = Some l" and "M l = Some x" and "Q q = Some x"
proof -
  have "\<forall>q p. F q = Some p \<longrightarrow> (\<exists>l x. p = Some l \<and> M l = Some x \<and> Q q = Some x)"
    using assms(1) by (simp add: owns_def)
  with assms(2) that show thesis by blast
qed

lemma ownsE':
  assumes "owns F M Q" and "Q q = Some x"
  obtains l where "F q = Some (Some l)" and "M l = Some x"
  using assms owns_none [OF assms(1), of q] by (cases "F q") (auto elim: ownsE)

lemma ownsI:
  assumes "\<And>q p. F q = Some p \<Longrightarrow> \<exists>l x. p = Some l \<and> M l = Some x \<and> Q q = Some x"
    and "\<And>q. F q = None \<Longrightarrow> Q q = None"
    and "\<And>q q' p. F q = Some p \<Longrightarrow> F q' = Some p \<Longrightarrow> q = q'"
    and "\<And>l. M l \<noteq> None \<Longrightarrow> \<exists>q. F q = Some (Some l)"
  shows "owns F M Q"
  unfolding owns_def using assms by (intro conjI allI impI) blast+

lemma owns_update:
  assumes "owns F M Q" and "F q = Some (Some l)"
  shows "owns F (M(l \<mapsto> x)) (Q(q \<mapsto> x))"
proof (rule ownsI)
  fix q' p
  assume q': "F q' = Some p"
  obtain l' x' where p: "p = Some l'" "M l' = Some x'" "Q q' = Some x'" by (rule ownsE [OF assms(1) q'])
  with q' assms(2) owns_inj [OF assms(1), of q' p q]
  show "\<exists>l' x'. p = Some l' \<and> (M(l \<mapsto> x)) l' = Some x' \<and> (Q(q \<mapsto> x)) q' = Some x'"
    by (cases "l' = l") auto
qed (use assms owns_none [OF assms(1)] owns_inj [OF assms(1)] owns_onto [OF assms(1)] in
  \<open>auto split: if_splits\<close>)

lemma owns_add:
  assumes "owns F M Q" and "F q = None" and "M l = None"
  shows "owns (F(q \<mapsto> Some l)) (M(l \<mapsto> x)) (Q(q \<mapsto> x))"
proof -
  have own: "\<exists>l' x'. p = Some l' \<and> M l' = Some x' \<and> Q q' = Some x' \<and> l' \<noteq> l \<and> q' \<noteq> q"
    if "F q' = Some p" for q' p
    by (rule ownsE [OF assms(1) that]) (use that assms in auto)
  show ?thesis
  proof (rule ownsI)
    fix q' p
    assume "(F(q \<mapsto> Some l)) q' = Some p"
    then show "\<exists>l' x'. p = Some l' \<and> (M(l \<mapsto> x)) l' = Some x' \<and> (Q(q \<mapsto> x)) q' = Some x'"
      using own [of q' p] by (cases "q' = q") auto
  next
    fix q' q'' p
    assume "(F(q \<mapsto> Some l)) q' = Some p" "(F(q \<mapsto> Some l)) q'' = Some p"
    then show "q' = q''"
      using own [of q' p] own [of q'' p] owns_inj [OF assms(1), of q' p q''] by (auto split: if_splits)
  next
    fix l' assume l': "(M(l \<mapsto> x)) l' \<noteq> None"
    show "\<exists>q'. (F(q \<mapsto> Some l)) q' = Some (Some l')"
    proof (cases "l' = l")
      case False
      with l' obtain q' where "F q' = Some (Some l')" using owns_onto [OF assms(1), of l'] by auto
      with assms(2) show ?thesis by (intro exI [of _ q']) auto
    qed auto
  qed (use owns_none [OF assms(1)] in \<open>auto split: if_splits\<close>)
qed

lemma owns_remove:
  assumes "owns F M Q" and "F q = Some (Some l)"
  shows "owns (F(q := None)) (M(l := None)) (Q(q := None))"
proof (rule ownsI)
  fix q' p
  assume "(F(q := None)) q' = Some p"
  then have q': "F q' = Some p" "q' \<noteq> q" by (auto split: if_splits)
  obtain l' x' where "p = Some l'" "M l' = Some x'" "Q q' = Some x'" by (rule ownsE [OF assms(1) q'(1)])
  with q' assms(2) owns_inj [OF assms(1), of q' p q]
  show "\<exists>l' x'. p = Some l' \<and> (M(l := None)) l' = Some x' \<and> (Q(q := None)) q' = Some x'" by auto
next
  fix l' assume "(M(l := None)) l' \<noteq> None"
  then have l': "l' \<noteq> l" "M l' \<noteq> None" by (auto split: if_splits)
  then obtain q' where "F q' = Some (Some l')" using owns_onto [OF assms(1)] by blast
  with l' assms(2) show "\<exists>q'. (F(q := None)) q' = Some (Some l')" by (intro exI [of _ q']) auto
qed (use owns_none [OF assms(1)] owns_inj [OF assms(1)] in \<open>auto split: if_splits\<close>)

lemma map_option_comp_upd [simp]:
  "map_option f \<circ> F(a \<mapsto> r) = (map_option f \<circ> F)(a \<mapsto> f r)"
  "map_option f \<circ> F(a := None) = (map_option f \<circ> F)(a := None)"
  by (simp_all add: fun_eq_iff)

lemma fun_upd_None_dom: "dom m \<subseteq> {a, b} \<Longrightarrow> m(a := None, b := None) = Map.empty"
  by (rule ext) (auto simp: domIff)

lemma fun_upd_None_single: "dom m = {a} \<Longrightarrow> m(a := None) = Map.empty"
  by (auto simp: fun_eq_iff domIff)

end
