(* ===== verification/Transitions.thy ===== *)
theory Transitions
  imports Main
begin

text \<open>
  What the step relations of the development have in common, as two interfaces: a property that every step keeps holds throughout a run, and a run that can
  always come closer to its goal can reach it.
\<close>

locale runs =
  fixes step :: "'s \<Rightarrow> 's \<Rightarrow> bool" and inv :: "'s \<Rightarrow> bool"
  assumes keeps: "inv s \<Longrightarrow> step s s' \<Longrightarrow> inv s'"
begin

lemma run_keeps:
  assumes "step\<^sup>*\<^sup>* s s'" and "inv s"
  shows "inv s'"
  using assms by (induction rule: rtranclp_induct) (auto intro: keeps)

end

locale progress =
  fixes step :: "'s \<Rightarrow> 's \<Rightarrow> bool" and alive :: "'s \<Rightarrow> bool" and goal :: "'s \<Rightarrow> bool" and variant :: "'s \<Rightarrow> nat"
  assumes advances: "alive s \<Longrightarrow> \<not> goal s \<Longrightarrow> \<exists>s'. step s s' \<and> alive s' \<and> variant s' < variant s"
begin

lemma reaches_goal:
  assumes "alive s"
  shows "\<exists>s'. step\<^sup>*\<^sup>* s s' \<and> alive s' \<and> goal s'"
  using assms
proof (induction "variant s" arbitrary: s rule: less_induct)
  case less
  show ?case
  proof (cases "goal s")
    case False
    then obtain s1 where "step s s1" "alive s1" "variant s1 < variant s" using advances less.prems by blast
    with less.hyps [of s1] show ?thesis by (meson converse_rtranclp_into_rtranclp)
  qed (use less.prems in blast)
qed

end

end
