(* ===== verification/Thread_Pool.thy ===== *)
theory Thread_Pool
  imports Prelude Transitions "HOL-Library.Multiset"
begin

text \<open>
  \<^verbatim>\<open>src/thread_pool.c\<close>: the dispatcher threads and the calls \<open>thread_pool_submit\<close>, \<open>thread_pool_wait\<close> and
  \<open>thread_pool_shutdown\<close> of any number of client threads, interleaved.

  A thread is a program counter.  One step of a thread is one access to shared state: an atomic
  load or store, one call of the synchronised queue (which is atomic, as all of it happens
  under the mutex of that queue), a lock, an unlock, a wait, a signal.  Waiting on a condition
  releases the mutex and parks the thread in one step; a signal moves one parked thread, a
  broadcast all of them, to the point where they take the mutex again; a parked thread may
  also wake up for no reason.  Which thread moves, whom a signal wakes and whether an allocation fails is
  arbitrary.  The tasks themselves are opaque; they do not call the pool.  Joining a thread is possible
  once it has left its loop, and only once: a thread that has been joined is marked, and joining it again, which is undefined, is not a step.
\<close>

section \<open>State\<close>

type_synonym tid = nat

record ('f, 'a) task_t =
  task_function :: 'f
  task_arg :: "'a ptr"

text \<open>The points of \<open>_dispatcher_function\<close>.\<close>

datatype 't dispatcher_pc =
    D_Lock | D_IsEmpty | D_LoadOn | D_Wait | D_Relock | D_LoadOff | D_LoadOn2 | D_IsEmpty2
  | D_UnlockExit | D_Exit | D_Joined
  | D_UnlockGo | D_Dequeue | D_Count 't | D_Run 't | D_Uncount | D_LockDone | D_Broadcast | D_UnlockDone

datatype 't submit_pc = S_LoadOff 't | S_Malloc 't | S_Enqueue 't | S_Lock | S_Signal | S_Unlock

datatype wait_pc = W_Lock | W_IsEmpty | W_InFlight | W_Wait | W_Relock | W_Unlock

datatype shutdown_pc = X_On | X_Off | X_Lock | X_Broadcast | X_Unlock | X_Join nat

datatype 't pc =
    Dispatcher "'t dispatcher_pc"
  | Submit "'t submit_pc"
  | Wait wait_pc
  | Shutdown shutdown_pc
  | Returned exit_code

text \<open>
  The fields of the pool, the threads (dispatchers are numbered below \<open>tp_n_threads\<close>), and three records of
  the past: the tasks in the order in which they were enqueued, were dequeued, and were run.
\<close>

record 't thread_pool_t =
  tp_queue_syn :: "'t list"
  tp_mutex :: "tid option"
  tp_on :: bool
  tp_off :: bool
  tp_in_flight :: size_t
  tp_n_threads :: nat
  tp_threads :: "tid \<Rightarrow> 't pc"
  tp_accepted :: "'t list"
  tp_taken :: "'t list"
  tp_done :: "'t list"

text \<open>What the schedule decides in a step.\<close>

datatype choice = Proceed | Fail exit_code | Wake tid | Spurious

section \<open>Steps\<close>

definition goto :: "tid \<Rightarrow> 't pc \<Rightarrow> 't thread_pool_t \<Rightarrow> 't thread_pool_t" where
  "goto i p s = s\<lparr>tp_threads := (tp_threads s)(i := p)\<rparr>"

definition acquire :: "tid \<Rightarrow> 't pc \<Rightarrow> 't thread_pool_t \<Rightarrow> 't thread_pool_t option" where
  "acquire i p s = (if tp_mutex s = None then Some (goto i p (s\<lparr>tp_mutex := Some i\<rparr>)) else None)"

definition release :: "tid \<Rightarrow> 't pc \<Rightarrow> 't thread_pool_t \<Rightarrow> 't thread_pool_t option" where
  "release i p s = (if tp_mutex s = Some i then Some (goto i p (s\<lparr>tp_mutex := None\<rparr>)) else None)"

definition wake_dispatchers :: "'t thread_pool_t \<Rightarrow> 't thread_pool_t" where
  "wake_dispatchers s = s\<lparr>tp_threads := (\<lambda>j. if tp_threads s j = Dispatcher D_Wait then Dispatcher D_Relock else tp_threads s j)\<rparr>"

definition wake_waiters :: "'t thread_pool_t \<Rightarrow> 't thread_pool_t" where
  "wake_waiters s = s\<lparr>tp_threads := (\<lambda>j. if tp_threads s j = Wait W_Wait then Wait W_Relock else tp_threads s j)\<rparr>"

text \<open>\<open>pthread_cond_signal\<close> wakes one of the parked threads, if there are any.\<close>

definition signal_one :: "choice \<Rightarrow> 't thread_pool_t \<Rightarrow> 't thread_pool_t option" where
  "signal_one c s = (case c of
     Wake j \<Rightarrow> if tp_threads s j = Dispatcher D_Wait then Some (goto j (Dispatcher D_Relock) s) else None
   | Proceed \<Rightarrow> if \<exists>j < tp_n_threads s. tp_threads s j = Dispatcher D_Wait then None else Some s
   | _ \<Rightarrow> None)"

definition dispatcher_step :: "tid \<Rightarrow> 't dispatcher_pc \<Rightarrow> choice \<Rightarrow> 't thread_pool_t \<Rightarrow> 't thread_pool_t option" where
  "dispatcher_step i p c s = (case p of
     D_Lock \<Rightarrow> acquire i (Dispatcher D_IsEmpty) s
   | D_IsEmpty \<Rightarrow> Some (goto i (Dispatcher (if tp_queue_syn s = [] then D_LoadOn else D_LoadOff)) s)
   | D_LoadOn \<Rightarrow> if tp_on s then release i (Dispatcher D_Wait) s else Some (goto i (Dispatcher D_LoadOff) s)
   | D_Wait \<Rightarrow> if c = Spurious then Some (goto i (Dispatcher D_Relock) s) else None
   | D_Relock \<Rightarrow> acquire i (Dispatcher D_IsEmpty) s
   | D_LoadOff \<Rightarrow> Some (goto i (Dispatcher (if tp_off s then D_UnlockExit else D_LoadOn2)) s)
   | D_LoadOn2 \<Rightarrow> Some (goto i (Dispatcher (if tp_on s then D_UnlockGo else D_IsEmpty2)) s)
   | D_IsEmpty2 \<Rightarrow> Some (goto i (Dispatcher (if tp_queue_syn s = [] then D_UnlockExit else D_UnlockGo)) s)
   | D_UnlockExit \<Rightarrow> release i (Dispatcher D_Exit) s
   | D_Exit \<Rightarrow> None
   | D_Joined \<Rightarrow> None
   | D_UnlockGo \<Rightarrow> release i (Dispatcher D_Dequeue) s
   | D_Dequeue \<Rightarrow> (case tp_queue_syn s of
        [] \<Rightarrow> Some (goto i (Dispatcher D_Lock) s)
      | t # ts \<Rightarrow> Some (goto i (Dispatcher (D_Count t)) (s\<lparr>tp_queue_syn := ts, tp_taken := tp_taken s @ [t]\<rparr>)))
   | D_Count t \<Rightarrow> Some (goto i (Dispatcher (D_Run t)) (s\<lparr>tp_in_flight := tp_in_flight s + 1\<rparr>))
   | D_Run t \<Rightarrow> Some (goto i (Dispatcher D_Uncount) (s\<lparr>tp_done := tp_done s @ [t]\<rparr>))
   | D_Uncount \<Rightarrow> Some (goto i (Dispatcher D_LockDone) (s\<lparr>tp_in_flight := tp_in_flight s - 1\<rparr>))
   | D_LockDone \<Rightarrow> acquire i (Dispatcher D_Broadcast) s
   | D_Broadcast \<Rightarrow> Some (goto i (Dispatcher D_UnlockDone) (wake_waiters s))
   | D_UnlockDone \<Rightarrow> release i (Dispatcher D_Lock) s)"

definition submit_step :: "tid \<Rightarrow> 't submit_pc \<Rightarrow> choice \<Rightarrow> 't thread_pool_t \<Rightarrow> 't thread_pool_t option" where
  "submit_step i p c s = (case p of
     S_LoadOff t \<Rightarrow> Some (goto i (if tp_off s then Returned 1 else Submit (S_Malloc t)) s)
   | S_Malloc t \<Rightarrow> Some (goto i (case c of Fail _ \<Rightarrow> Returned (-1) | _ \<Rightarrow> Submit (S_Enqueue t)) s)
   | S_Enqueue t \<Rightarrow> (case c of
        Fail r \<Rightarrow> if r = 0 then None else Some (goto i (Returned r) s)
      | _ \<Rightarrow> Some (goto i (Submit S_Lock)
              (s\<lparr>tp_queue_syn := tp_queue_syn s @ [t], tp_accepted := tp_accepted s @ [t]\<rparr>)))
   | S_Lock \<Rightarrow> acquire i (Submit S_Signal) s
   | S_Signal \<Rightarrow> map_option (goto i (Submit S_Unlock)) (signal_one c s)
   | S_Unlock \<Rightarrow> release i (Returned 0) s)"

definition wait_step :: "tid \<Rightarrow> wait_pc \<Rightarrow> choice \<Rightarrow> 't thread_pool_t \<Rightarrow> 't thread_pool_t option" where
  "wait_step i p c s = (case p of
     W_Lock \<Rightarrow> acquire i (Wait W_IsEmpty) s
   | W_IsEmpty \<Rightarrow> if tp_queue_syn s \<noteq> [] then release i (Wait W_Wait) s else Some (goto i (Wait W_InFlight) s)
   | W_InFlight \<Rightarrow> if tp_in_flight s > 0 then release i (Wait W_Wait) s else Some (goto i (Wait W_Unlock) s)
   | W_Wait \<Rightarrow> if c = Spurious then Some (goto i (Wait W_Relock) s) else None
   | W_Relock \<Rightarrow> acquire i (Wait W_IsEmpty) s
   | W_Unlock \<Rightarrow> release i (Returned 0) s)"

definition shutdown_step :: "tid \<Rightarrow> shutdown_pc \<Rightarrow> choice \<Rightarrow> 't thread_pool_t \<Rightarrow> 't thread_pool_t option" where
  "shutdown_step i p c s = (case p of
     X_On \<Rightarrow> Some (goto i (Shutdown X_Off) (s\<lparr>tp_on := False\<rparr>))
   | X_Off \<Rightarrow> Some (goto i (Shutdown X_Lock) (s\<lparr>tp_off := True\<rparr>))
   | X_Lock \<Rightarrow> acquire i (Shutdown X_Broadcast) s
   | X_Broadcast \<Rightarrow> Some (goto i (Shutdown X_Unlock) (wake_dispatchers s))
   | X_Unlock \<Rightarrow> release i (Shutdown (X_Join 0)) s
   | X_Join k \<Rightarrow> if k < tp_n_threads s
       then if tp_threads s k = Dispatcher D_Exit then Some (goto i (Shutdown (X_Join (Suc k))) (goto k (Dispatcher D_Joined) s)) else None
       else Some (goto i (Returned 0) s))"

definition thread_step :: "tid \<Rightarrow> choice \<Rightarrow> 't thread_pool_t \<Rightarrow> 't thread_pool_t option" where
  "thread_step i c s = (case tp_threads s i of
     Dispatcher p \<Rightarrow> dispatcher_step i p c s
   | Submit p \<Rightarrow> submit_step i p c s
   | Wait p \<Rightarrow> wait_step i p c s
   | Shutdown p \<Rightarrow> shutdown_step i p c s
   | Returned _ \<Rightarrow> None)"

text \<open>The first instructions of the calls: the checks of the arguments.\<close>

definition thread_pool_submit :: "bool \<Rightarrow> 'f ptr \<Rightarrow> 'a ptr \<Rightarrow> ('f, 'a) task_t pc" where
  "thread_pool_submit self function arg =
     (if \<not> self then Returned 1
      else case function of NULL \<Rightarrow> Returned 1
        | Some f \<Rightarrow> Submit (S_LoadOff \<lparr>task_function = f, task_arg = arg\<rparr>))"

definition thread_pool_wait :: "bool \<Rightarrow> 't pc" where
  "thread_pool_wait self = (if \<not> self then Returned 1 else Wait W_Lock)"

definition thread_pool_shutdown :: "bool \<Rightarrow> 't pc" where
  "thread_pool_shutdown self = (if \<not> self then Returned 1 else Shutdown X_On)"

text \<open>The pool as \<open>thread_pool_new\<close> leaves it.\<close>

definition new_pool :: "nat \<Rightarrow> 't thread_pool_t" where
  "new_pool n = \<lparr>tp_queue_syn = [], tp_mutex = None, tp_on = True, tp_off = False, tp_in_flight = 0, tp_n_threads = n,
     tp_threads = (\<lambda>i. if i < n then Dispatcher D_Lock else Returned 0),
     tp_accepted = [], tp_taken = [], tp_done = []\<rparr>"

inductive pool_step :: "('f, 'a) task_t thread_pool_t \<Rightarrow> ('f, 'a) task_t thread_pool_t \<Rightarrow> bool" where
  step: "thread_step i c s = Some s' \<Longrightarrow> pool_step s s'"
| call: "tp_threads s i = Returned r \<Longrightarrow> p = thread_pool_submit self f a \<or> p = thread_pool_wait self \<or> p = thread_pool_shutdown self \<Longrightarrow>
    tp_n_threads s \<le> i \<Longrightarrow> pool_step s (goto i p s)"

inductive pool_reachable :: "nat \<Rightarrow> ('f, 'a) task_t thread_pool_t \<Rightarrow> bool" for n where
  init: "pool_reachable n (new_pool n)"
| more: "pool_reachable n s \<Longrightarrow> pool_step s s' \<Longrightarrow> pool_reachable n s'"

inductive_cases pool_stepE: "pool_step s s'"

lemmas step_defs = thread_step_def dispatcher_step_def submit_step_def wait_step_def shutdown_step_def
  signal_one_def acquire_def release_def wake_dispatchers_def wake_waiters_def goto_def
lemmas entry_defs = thread_pool_submit_def thread_pool_wait_def thread_pool_shutdown_def

section \<open>Mutual exclusion\<close>

text \<open>The points between taking and giving back the mutex of the pool.\<close>

fun critical :: "'t pc \<Rightarrow> bool" where
  "critical (Dispatcher p) \<longleftrightarrow> p \<in> {D_IsEmpty, D_LoadOn, D_LoadOff, D_LoadOn2, D_IsEmpty2, D_UnlockExit, D_UnlockGo, D_Broadcast, D_UnlockDone}"
| "critical (Submit p) \<longleftrightarrow> p \<in> {S_Signal, S_Unlock}"
| "critical (Wait p) \<longleftrightarrow> p \<in> {W_IsEmpty, W_InFlight, W_Unlock}"
| "critical (Shutdown p) \<longleftrightarrow> p \<in> {X_Broadcast, X_Unlock}"
| "critical (Returned r) \<longleftrightarrow> False"

definition mutex_ok :: "(tid \<Rightarrow> 't pc) \<Rightarrow> tid option \<Rightarrow> bool" where
  "mutex_ok T m \<longleftrightarrow> (\<forall>i. critical (T i) \<longleftrightarrow> m = Some i)"

text \<open>The threads after a broadcast.\<close>

abbreviation woken :: "'t pc \<Rightarrow> 't pc \<Rightarrow> (tid \<Rightarrow> 't pc) \<Rightarrow> tid \<Rightarrow> 't pc" where
  "woken p q T \<equiv> (\<lambda>j. if T j = p then q else T j)"

lemma mutex_ok_rules:
  "mutex_ok T m \<Longrightarrow> critical p = critical (T i) \<Longrightarrow> mutex_ok (T(i := p)) m"
  "mutex_ok T None \<Longrightarrow> critical p \<Longrightarrow> mutex_ok (T(i := p)) (Some i)"
  "mutex_ok T (Some i) \<Longrightarrow> \<not> critical p \<Longrightarrow> mutex_ok (T(i := p)) None"
  "mutex_ok T m \<Longrightarrow> critical p = critical q \<Longrightarrow> mutex_ok (woken p q T) m"
  unfolding mutex_ok_def by auto

lemma mutex_ok_wake:
  assumes "mutex_ok T m" and "T j = Dispatcher D_Wait" and "T i \<noteq> Dispatcher D_Wait" and "critical p = critical (T i)"
  shows "mutex_ok (T(j := Dispatcher D_Relock, i := p)) m"
proof -
  from assms(2,3) have "i \<noteq> j" by auto
  with assms show ?thesis by (intro mutex_ok_rules(1)) simp_all
qed

lemma mutex_ok_join:
  assumes "mutex_ok T m" and "T j = Dispatcher D_Exit" and "T i = Shutdown (X_Join k)"
  shows "mutex_ok (T(j := Dispatcher D_Joined, i := Shutdown (X_Join k'))) m"
proof -
  from assms(2,3) have "i \<noteq> j" by auto
  with assms show ?thesis by (intro mutex_ok_rules(1)) simp_all
qed

lemma mutex_ok_step:
  assumes "thread_step i c s = Some s'" and "mutex_ok (tp_threads s) (tp_mutex s)"
  shows "mutex_ok (tp_threads s') (tp_mutex s')"
proof (cases "tp_threads s i")
  case (Dispatcher p)
  with assms show ?thesis
    by (cases p) (auto simp: step_defs mutex_ok_rules mutex_ok_wake split: if_splits list.splits)
next
  case (Submit p)
  with assms show ?thesis
    by (cases p) (auto simp: step_defs mutex_ok_rules mutex_ok_wake split: if_splits choice.splits)
next
  case (Wait p)
  with assms show ?thesis
    by (cases p) (auto simp: step_defs mutex_ok_rules mutex_ok_wake split: if_splits)
next
  case (Shutdown p)
  with assms show ?thesis
    by (cases p) (auto simp: step_defs mutex_ok_rules mutex_ok_join split: if_splits)
qed (use assms in \<open>simp add: thread_step_def\<close>)

section \<open>Tasks are neither lost nor run twice\<close>

text \<open>What a dispatcher has taken from the queue but not run yet, and whether it counts as in flight.\<close>

fun tp_held :: "'t pc \<Rightarrow> 't multiset" where
  "tp_held (Dispatcher (D_Count t)) = {#t#}"
| "tp_held (Dispatcher (D_Run t)) = {#t#}"
| "tp_held _ = {#}"

fun tp_counted :: "'t pc \<Rightarrow> nat" where
  "tp_counted (Dispatcher (D_Run t)) = 1"
| "tp_counted (Dispatcher D_Uncount) = 1"
| "tp_counted _ = 0"

fun is_dispatcher :: "'t pc \<Rightarrow> bool" where
  "is_dispatcher (Dispatcher p) \<longleftrightarrow> True"
| "is_dispatcher _ \<longleftrightarrow> False"

definition tp_total :: "('t pc \<Rightarrow> 'm) \<Rightarrow> (tid \<Rightarrow> 't pc) \<Rightarrow> nat \<Rightarrow> 'm :: comm_monoid_add" where
  "tp_total f T n = (\<Sum>i < n. f (T i))"

definition roles :: "(tid \<Rightarrow> 't pc) \<Rightarrow> nat \<Rightarrow> bool" where
  "roles T n \<longleftrightarrow> (\<forall>i. is_dispatcher (T i) \<longleftrightarrow> i < n)"

definition tasks_ok :: "'t thread_pool_t \<Rightarrow> bool" where
  "tasks_ok s \<longleftrightarrow> tp_accepted s = tp_taken s @ tp_queue_syn s
     \<and> mset (tp_taken s) = mset (tp_done s) + tp_total tp_held (tp_threads s) (tp_n_threads s)
     \<and> tp_in_flight s = of_nat (tp_total tp_counted (tp_threads s) (tp_n_threads s))"

lemma total_upd:
  assumes "i < n"
  shows "tp_total f (T(i := p)) n + f (T i) = tp_total f T n + f p"
proof -
  have "tp_total f (T(i := p)) n = f p + (\<Sum>j \<in> {..<n} - {i}. f (T j))"
    unfolding tp_total_def using assms by (subst sum.remove [of _ i]) simp_all
  moreover have "tp_total f T n = f (T i) + (\<Sum>j \<in> {..<n} - {i}. f (T j))"
    unfolding tp_total_def using assms by (subst sum.remove [of _ i]) simp_all
  ultimately show ?thesis by (simp add: ac_simps)
qed

lemma total_same: "f p = f (T i) \<Longrightarrow> tp_total f (T(i := p)) n = tp_total f T n"
  unfolding tp_total_def by (rule sum.cong) auto

lemma total_add: "i < n \<Longrightarrow> f (T i) = 0 \<Longrightarrow> tp_total f (T(i := p)) n = tp_total f T n + f p"
  using total_upd [of i n f T p] by simp

lemma total_woken: "f p = f q \<Longrightarrow> tp_total f (woken p q T) n = tp_total f T n"
  unfolding tp_total_def by (rule sum.cong) auto

lemma total_wake:
  assumes "T j = Dispatcher D_Wait" and "f (Dispatcher D_Relock) = f (Dispatcher D_Wait)" and "f p = f (T i)" and "T i \<noteq> Dispatcher D_Wait"
  shows "tp_total f (T(j := Dispatcher D_Relock, i := p)) n = tp_total f T n"
proof -
  from assms(1,4) have "i \<noteq> j" by auto
  with assms have "tp_total f (T(j := Dispatcher D_Relock, i := p)) n = tp_total f (T(j := Dispatcher D_Relock)) n"
    by (intro total_same) simp
  also have "\<dots> = tp_total f T n" using assms by (intro total_same) simp
  finally show ?thesis .
qed

lemma total_join:
  assumes "T j = Dispatcher D_Exit" and "f (Dispatcher D_Joined) = f (Dispatcher D_Exit)" and "T i = Shutdown (X_Join k)" and "f (Shutdown (X_Join k')) = f (T i)"
  shows "tp_total f (T(j := Dispatcher D_Joined, i := Shutdown (X_Join k'))) n = tp_total f T n"
proof -
  from assms(1,3) have "i \<noteq> j" by auto
  with assms have "tp_total f (T(j := Dispatcher D_Joined, i := Shutdown (X_Join k'))) n = tp_total f (T(j := Dispatcher D_Joined)) n"
    by (intro total_same) simp
  also have "\<dots> = tp_total f T n" using assms by (intro total_same) simp
  finally show ?thesis .
qed

lemmas total_rules = total_same total_woken total_wake

lemma roles_rules:
  "roles T n \<Longrightarrow> is_dispatcher p = is_dispatcher (T i) \<Longrightarrow> roles (T(i := p)) n"
  "roles T n \<Longrightarrow> is_dispatcher p = is_dispatcher q \<Longrightarrow> roles (woken p q T) n"
  unfolding roles_def by auto

lemma roles_wake:
  assumes "roles T n" and "T j = Dispatcher D_Wait" and "T i \<noteq> Dispatcher D_Wait" and "is_dispatcher p = is_dispatcher (T i)"
  shows "roles (T(j := Dispatcher D_Relock, i := p)) n"
proof -
  from assms(2,3) have "i \<noteq> j" by auto
  with assms show ?thesis by (intro roles_rules(1)) simp_all
qed

lemma roles_join:
  assumes "roles T n" and "T j = Dispatcher D_Exit" and "T i = Shutdown (X_Join k)"
  shows "roles (T(j := Dispatcher D_Joined, i := Shutdown (X_Join k'))) n"
proof -
  from assms(2,3) have "i \<noteq> j" by auto
  with assms show ?thesis by (intro roles_rules(1)) simp_all
qed

lemma roles_step:
  assumes "thread_step i c s = Some s'" and "roles (tp_threads s) (tp_n_threads s)"
  shows "roles (tp_threads s') (tp_n_threads s')"
proof (cases "tp_threads s i")
  case (Dispatcher p)
  with assms show ?thesis
    by (cases p) (auto simp: step_defs roles_rules split: if_splits list.splits)
next
  case (Submit p)
  with assms show ?thesis
    by (cases p) (auto simp: step_defs roles_rules roles_wake split: if_splits choice.splits)
next
  case (Wait p)
  with assms show ?thesis
    by (cases p) (auto simp: step_defs roles_rules split: if_splits)
next
  case (Shutdown p)
  with assms show ?thesis
    by (cases p) (auto simp: step_defs roles_rules roles_join split: if_splits)
qed (use assms in \<open>simp add: thread_step_def\<close>)

lemma tasks_ok_step:
  assumes "thread_step i c s = Some s'" and "tasks_ok s" and "roles (tp_threads s) (tp_n_threads s)"
  shows "tasks_ok s'"
proof (cases "tp_threads s i")
  case (Dispatcher p)
  with assms(3) have i: "i < tp_n_threads s" by (metis is_dispatcher.simps(1) roles_def)
  show ?thesis
  proof (cases "\<exists>t. p = D_Run t \<or> p = D_Uncount")
    case False
    with assms(1,2) Dispatcher i show ?thesis
      by (cases p) (auto simp: step_defs tasks_ok_def total_rules total_add split: if_splits list.splits)
  next
    case True
    with assms(1,2) Dispatcher show ?thesis
      using total_upd [OF i, of tp_held "tp_threads s" "Dispatcher D_Uncount"]
        total_upd [OF i, of tp_counted "tp_threads s" "Dispatcher D_LockDone", symmetric]
      by (auto simp: step_defs tasks_ok_def total_rules)
  qed
next
  case (Submit p)
  with assms(1,2) show ?thesis
    by (cases p) (auto simp: step_defs tasks_ok_def total_rules split: if_splits choice.splits)
next
  case (Wait p)
  with assms(1,2) show ?thesis
    by (cases p) (auto simp: step_defs tasks_ok_def total_rules split: if_splits)
next
  case (Shutdown p)
  with assms(1,2) show ?thesis
    by (cases p) (auto simp: step_defs tasks_ok_def total_rules total_join split: if_splits)
qed (use assms in \<open>simp add: thread_step_def\<close>)

section \<open>No wake-up is lost\<close>

text \<open>
  A dispatcher that is going to look at the queue again: neither parked, nor about to park after it has
  found the queue empty, nor leaving.
\<close>

fun awake :: "'t pc \<Rightarrow> bool" where
  "awake (Dispatcher p) \<longleftrightarrow> p \<notin> {D_LoadOn, D_Wait, D_UnlockExit, D_Exit, D_Joined}"
| "awake _ \<longleftrightarrow> False"

text \<open>The points that are only reached once the pool has been switched off.\<close>

fun leaving :: "'t pc \<Rightarrow> bool" where
  "leaving (Dispatcher p) \<longleftrightarrow> p \<in> {D_IsEmpty2, D_UnlockExit, D_Exit, D_Joined}"
| "leaving (Shutdown p) \<longleftrightarrow> p = X_Off"
| "leaving _ \<longleftrightarrow> False"

definition nobody :: "('t pc \<Rightarrow> bool) \<Rightarrow> (tid \<Rightarrow> 't pc) \<Rightarrow> bool" where
  "nobody P T \<longleftrightarrow> (\<forall>i. \<not> P (T i))"

definition flags_ok :: "'t thread_pool_t \<Rightarrow> bool" where
  "flags_ok s \<longleftrightarrow> (tp_off s \<longrightarrow> \<not> tp_on s) \<and> (tp_on s \<longrightarrow> nobody leaving (tp_threads s))"

definition signal_pending :: "(tid \<Rightarrow> 't pc) \<Rightarrow> bool" where
  "signal_pending T \<longleftrightarrow> (\<exists>i. T i = Submit S_Lock \<or> T i = Submit S_Signal)"

definition wakeup_ok :: "'t thread_pool_t \<Rightarrow> bool" where
  "wakeup_ok s \<longleftrightarrow> (tp_on s \<and> tp_queue_syn s \<noteq> [] \<longrightarrow> \<not> nobody awake (tp_threads s) \<or> signal_pending (tp_threads s))"

lemma nobody_rules:
  "nobody P T \<Longrightarrow> \<not> P p \<Longrightarrow> nobody P (T(i := p))"
  "nobody P T \<Longrightarrow> \<not> P q \<Longrightarrow> nobody P (woken p q T)"
  unfolding nobody_def by auto

lemma nobodyD: "nobody P T \<Longrightarrow> T i = p \<Longrightarrow> \<not> P p"
  by (auto simp: nobody_def)

lemma flags_ok_step:
  assumes "thread_step i c s = Some s'" and "flags_ok s"
  shows "flags_ok s'"
proof (cases "tp_threads s i")
  case (Dispatcher p)
  with assms show ?thesis
    using nobodyD [of leaving "tp_threads s" i]
    by (cases p) (auto simp: step_defs flags_ok_def nobody_rules split: if_splits list.splits)
next
  case (Submit p)
  with assms show ?thesis
    by (cases p) (auto simp: step_defs flags_ok_def nobody_rules split: if_splits choice.splits)
next
  case (Wait p)
  with assms show ?thesis
    by (cases p) (auto simp: step_defs flags_ok_def nobody_rules split: if_splits)
next
  case (Shutdown p)
  with assms show ?thesis
    using nobodyD [of leaving "tp_threads s" i]
    by (cases p) (auto dest: nobodyD [where p = "Dispatcher D_Exit"] simp: step_defs flags_ok_def nobody_rules split: if_splits)
qed (use assms in \<open>simp add: thread_step_def\<close>)

text \<open>A step of one thread moves another one only by waking it up or by joining it.\<close>

lemma others_step:
  assumes "thread_step i c s = Some s'" and "j \<noteq> i"
  shows "tp_threads s' j = tp_threads s j \<or> tp_threads s j = Dispatcher D_Wait \<and> tp_threads s' j = Dispatcher D_Relock
    \<or> tp_threads s j = Wait W_Wait \<and> tp_threads s' j = Wait W_Relock
    \<or> tp_threads s i = Shutdown (X_Join j) \<and> tp_threads s j = Dispatcher D_Exit \<and> tp_threads s' j = Dispatcher D_Joined"
proof (cases "tp_threads s i")
  case (Dispatcher p)
  with assms show ?thesis by (cases p) (auto simp: step_defs split: if_splits list.splits)
next
  case (Submit p)
  with assms show ?thesis by (cases p) (auto simp: step_defs split: if_splits choice.splits)
next
  case (Wait p)
  with assms show ?thesis by (cases p) (auto simp: step_defs split: if_splits)
next
  case (Shutdown p)
  with assms show ?thesis by (cases p) (auto simp: step_defs split: if_splits)
qed (use assms in \<open>simp add: thread_step_def\<close>)

lemma awake_own:
  assumes "thread_step i c s = Some s'" and "awake (tp_threads s i)" and "flags_ok s" and "tp_on s" and "tp_queue_syn s \<noteq> []"
  shows "awake (tp_threads s' i)"
proof -
  obtain p where p: "tp_threads s i = Dispatcher p" using assms(2) by (cases "tp_threads s i") auto
  have "\<not> leaving (tp_threads s i)" "\<not> tp_off s" using assms(3,4) by (auto simp: flags_ok_def nobody_def)
  with assms p show ?thesis by (cases p) (auto simp: step_defs split: if_splits list.splits)
qed

lemma pending_own:
  assumes "thread_step i c s = Some s'" and "tp_threads s i = Submit S_Lock"
  shows "tp_threads s' i = Submit S_Signal"
  using assms by (auto simp: step_defs split: if_splits)

lemma signal_own:
  assumes "thread_step i c s = Some s'" and "tp_threads s i = Submit S_Signal"
    and inv: "mutex_ok (tp_threads s) (tp_mutex s)" "roles (tp_threads s) (tp_n_threads s)" "flags_ok s"
    and "tp_on s" and "0 < tp_n_threads s"
  shows "\<not> nobody awake (tp_threads s')"
proof (cases c)
  case Proceed
  with assms(1,2) have T: "tp_threads s' = (tp_threads s)(i := Submit S_Unlock)"
    and "tp_threads s 0 \<noteq> Dispatcher D_Wait"
    using assms(7) by (auto simp: step_defs split: if_splits)
  have "is_dispatcher (tp_threads s 0)" using inv(2) assms(7) by (simp add: roles_def)
  then obtain p where p: "tp_threads s 0 = Dispatcher p" by (cases "tp_threads s 0") simp_all
  have "tp_mutex s = Some i" using inv(1) assms(2) by (metis critical.simps(2) insertI1 mutex_ok_def)
  moreover have "0 \<noteq> i" using p assms(2) by (metis pc.distinct(1))
  ultimately have "\<not> critical (tp_threads s 0)" using inv(1) by (simp add: mutex_ok_def)
  moreover have "\<not> leaving (tp_threads s 0)" using inv(3) assms(6) by (auto simp: flags_ok_def nobody_def)
  ultimately have "awake (tp_threads s 0)" using p \<open>tp_threads s 0 \<noteq> Dispatcher D_Wait\<close> by auto
  with T \<open>0 \<noteq> i\<close> show ?thesis unfolding nobody_def by (metis fun_upd_other)
next
  case (Wake j)
  with assms(1,2) have "tp_threads s' = (tp_threads s)(j := Dispatcher D_Relock, i := Submit S_Unlock)" "j \<noteq> i"
    by (auto simp: step_defs split: if_splits)
  then have "tp_threads s' j = Dispatcher D_Relock" by simp
  then show ?thesis unfolding nobody_def by (metis awake.simps(1) dispatcher_pc.distinct insert_iff singletonD)
qed (use assms in \<open>auto simp: step_defs\<close>)

lemma queue_grows:
  assumes "thread_step i c s = Some s'" and "tp_queue_syn s = []" and "tp_queue_syn s' \<noteq> []"
  shows "tp_threads s' i = Submit S_Lock"
proof (cases "tp_threads s i")
  case (Dispatcher p)
  with assms show ?thesis by (cases p) (auto simp: step_defs split: if_splits)
next
  case (Submit p)
  with assms show ?thesis by (cases p) (auto simp: step_defs split: if_splits choice.splits)
next
  case (Wait p)
  with assms show ?thesis by (cases p) (auto simp: step_defs split: if_splits)
next
  case (Shutdown p)
  with assms show ?thesis by (cases p) (auto simp: step_defs split: if_splits)
qed (use assms in \<open>simp add: thread_step_def\<close>)

lemma flags_fall:
  assumes "thread_step i c s = Some s'"
  shows "tp_on s' \<Longrightarrow> tp_on s" and "tp_off s \<Longrightarrow> tp_off s'" and "tp_n_threads s' = tp_n_threads s"
proof -
  have "(tp_on s' \<longrightarrow> tp_on s) \<and> (tp_off s \<longrightarrow> tp_off s') \<and> tp_n_threads s' = tp_n_threads s"
  proof (cases "tp_threads s i")
    case (Dispatcher p)
    with assms show ?thesis by (cases p) (auto simp: step_defs split: if_splits list.splits)
  next
    case (Submit p)
    with assms show ?thesis by (cases p) (auto simp: step_defs split: if_splits choice.splits)
  next
    case (Wait p)
    with assms show ?thesis by (cases p) (auto simp: step_defs split: if_splits)
  next
    case (Shutdown p)
    with assms show ?thesis by (cases p) (auto simp: step_defs split: if_splits)
  qed (use assms in \<open>simp add: thread_step_def\<close>)
  then show "tp_on s' \<Longrightarrow> tp_on s" and "tp_off s \<Longrightarrow> tp_off s'" and "tp_n_threads s' = tp_n_threads s" by simp_all
qed

lemma wakeup_ok_step:
  assumes st: "thread_step i c s = Some s'" and w: "wakeup_ok s"
    and inv: "mutex_ok (tp_threads s) (tp_mutex s)" "roles (tp_threads s) (tp_n_threads s)" "flags_ok s" and n: "0 < tp_n_threads s"
  shows "wakeup_ok s'"
  unfolding wakeup_ok_def
proof
  assume s': "tp_on s' \<and> tp_queue_syn s' \<noteq> []"
  then have on: "tp_on s" using flags_fall(1) [OF st] by simp
  note others = others_step [OF st]
  show "\<not> nobody awake (tp_threads s') \<or> signal_pending (tp_threads s')"
  proof (cases "tp_queue_syn s = []")
    case True
    with queue_grows [OF st] s' show ?thesis unfolding signal_pending_def by auto
  next
    case False
    with w on consider j where "awake (tp_threads s j)" | j where "tp_threads s j = Submit S_Lock \<or> tp_threads s j = Submit S_Signal"
      by (auto simp: wakeup_ok_def nobody_def signal_pending_def)
    then show ?thesis
    proof cases
      case 1
      then have "awake (tp_threads s' j)"
        using awake_own [OF st _ inv(3) on False] others [of j] by (cases "j = i") auto
      then show ?thesis by (auto simp: nobody_def)
    next
      case 2
      then show ?thesis
        using others [of j] pending_own [OF st] signal_own [OF st _ inv on n]
        by (cases "j = i") (auto simp: signal_pending_def)
    qed
  qed
qed

section \<open>Reachable states\<close>

definition pool_inv :: "'t thread_pool_t \<Rightarrow> bool" where
  "pool_inv s \<longleftrightarrow> mutex_ok (tp_threads s) (tp_mutex s) \<and> roles (tp_threads s) (tp_n_threads s)
     \<and> tasks_ok s \<and> flags_ok s \<and> wakeup_ok s"

lemma pool_invD:
  assumes "pool_inv s"
  shows "mutex_ok (tp_threads s) (tp_mutex s)" and "roles (tp_threads s) (tp_n_threads s)" and "tasks_ok s"
    and "flags_ok s" and "wakeup_ok s"
  using assms by (simp_all add: pool_inv_def)

lemma pool_inv_new: "pool_inv (new_pool n)"
  by (auto simp: pool_inv_def new_pool_def mutex_ok_def roles_def tasks_ok_def flags_ok_def wakeup_ok_def nobody_def tp_total_def)

lemma pool_inv_thread_step:
  assumes "thread_step i c s = Some s'" and "pool_inv s" and "0 < tp_n_threads s"
  shows "pool_inv s'"
  using assms mutex_ok_step [OF assms(1)] roles_step [OF assms(1)] tasks_ok_step [OF assms(1)] flags_ok_step [OF assms(1)]
    wakeup_ok_step [OF assms(1)]
  by (simp add: pool_inv_def)

lemma wakeup_ok_call:
  assumes "wakeup_ok s" and "tp_threads s i = Returned r"
  shows "wakeup_ok (goto i p s)"
proof -
  have "awake (((tp_threads s)(i := p)) j)" if "awake (tp_threads s j)" for j using that assms(2) by (cases "j = i") auto
  moreover have "((tp_threads s)(i := p)) j = tp_threads s j" if "tp_threads s j = Submit S_Lock \<or> tp_threads s j = Submit S_Signal" for j
    using that assms(2) by (cases "j = i") auto
  ultimately show ?thesis using assms(1) unfolding wakeup_ok_def goto_def nobody_def signal_pending_def
    by (simp del: fun_upd_apply) metis
qed

lemma pool_inv_call:
  assumes "tp_threads s i = Returned r" and "p = thread_pool_submit self f a \<or> p = thread_pool_wait self \<or> p = thread_pool_shutdown self"
    and "pool_inv s"
  shows "pool_inv (goto i p s)"
proof -
  have p: "\<not> critical p" "\<not> is_dispatcher p" "tp_held p = {#}" "tp_counted p = 0" "\<not> leaving p"
    using assms(2) by (auto simp: entry_defs split: option.splits if_splits)
  note D = pool_invD [OF assms(3)]
  have "mutex_ok ((tp_threads s)(i := p)) (tp_mutex s)" by (rule mutex_ok_rules(1) [OF D(1)]) (simp add: p assms(1))
  moreover have "roles ((tp_threads s)(i := p)) (tp_n_threads s)" by (rule roles_rules(1) [OF D(2)]) (simp add: p assms(1))
  moreover have "tp_total tp_held ((tp_threads s)(i := p)) n = tp_total tp_held (tp_threads s) n"
    "tp_total tp_counted ((tp_threads s)(i := p)) n = tp_total tp_counted (tp_threads s) n" for n
    by (rule total_same; simp add: p assms(1))+
  ultimately show ?thesis
    using D(3,4) wakeup_ok_call [OF D(5) assms(1)] nobody_rules(1) [of leaving "tp_threads s" p i, OF _ p(5)]
    by (simp add: pool_inv_def goto_def tasks_ok_def flags_ok_def)
qed

text \<open>The invariant of a pool of \<open>n\<close> dispatchers.\<close>

abbreviation pool_of :: "nat \<Rightarrow> ('f, 'a) task_t thread_pool_t \<Rightarrow> bool" where
  "pool_of n s \<equiv> 0 < n \<and> tp_n_threads s = n \<and> pool_inv s"

lemma pool_of_step:
  assumes "pool_of n s" and "pool_step s s'"
  shows "pool_of n s'"
  using assms(2)
proof cases
  case (step i c)
  with assms(1) show ?thesis using pool_inv_thread_step [OF step] flags_fall(3) [OF step] by simp
next
  case (call i r p self f a)
  with assms(1) show ?thesis using pool_inv_call [OF call(2,3)] by (simp add: goto_def)
qed

interpretation pool: runs pool_step "pool_of n" for n
  by unfold_locales (rule pool_of_step)

lemma pool_reachable_run: "pool_reachable n s \<Longrightarrow> pool_step\<^sup>*\<^sup>* (new_pool n) s"
  by (induction rule: pool_reachable.induct) auto

lemma pool_reachable_inv:
  assumes "pool_reachable n s" and "0 < n"
  shows "pool_inv s \<and> tp_n_threads s = n"
proof -
  have "pool_of n (new_pool n)" using assms(2) pool_inv_new [of n] by (simp add: new_pool_def)
  with pool.run_keeps [OF pool_reachable_run [OF assms(1)]] show ?thesis by blast
qed

section \<open>Shutdown\<close>

text \<open>An upper bound on the steps a dispatcher still takes once the pool is switched off.\<close>

fun rank :: "'t pc \<Rightarrow> nat" where
  "rank (Dispatcher p) = (case p of D_Joined \<Rightarrow> 0 | D_Exit \<Rightarrow> 0 | D_UnlockExit \<Rightarrow> 1 | D_LoadOff \<Rightarrow> 2 | D_LoadOn \<Rightarrow> 3 | D_IsEmpty \<Rightarrow> 4
     | D_Lock \<Rightarrow> 5 | D_Relock \<Rightarrow> 5 | D_Wait \<Rightarrow> 6 | D_UnlockDone \<Rightarrow> 6 | D_Broadcast \<Rightarrow> 7 | D_LockDone \<Rightarrow> 8 | D_Uncount \<Rightarrow> 9
     | D_Run _ \<Rightarrow> 10 | D_Count _ \<Rightarrow> 11 | D_Dequeue \<Rightarrow> 12 | D_UnlockGo \<Rightarrow> 13 | D_IsEmpty2 \<Rightarrow> 14 | D_LoadOn2 \<Rightarrow> 15)"
| "rank _ = 0"

lemma rank_step:
  assumes "thread_step i c s = Some s'" and "tp_threads s i = Dispatcher p" and "\<not> tp_on s" and "tp_off s"
  shows "rank (tp_threads s' i) < rank (tp_threads s i)"
  using assms by (cases p) (auto simp: step_defs split: if_splits list.splits)

text \<open>A shutdown that has woken the dispatchers up; parked dispatchers.\<close>

fun joining :: "'t pc \<Rightarrow> bool" where
  "joining (Shutdown p) \<longleftrightarrow> (case p of X_Unlock \<Rightarrow> True | X_Join k \<Rightarrow> True | _ \<Rightarrow> False)"
| "joining _ \<longleftrightarrow> False"

fun off_stored :: "'t pc \<Rightarrow> bool" where
  "off_stored (Shutdown p) \<longleftrightarrow> p \<notin> {X_On, X_Off}"
| "off_stored _ \<longleftrightarrow> False"

definition shutdown_ok :: "'t thread_pool_t \<Rightarrow> bool" where
  "shutdown_ok s \<longleftrightarrow> (\<forall>i. off_stored (tp_threads s i) \<longrightarrow> tp_off s)
     \<and> (\<forall>i j. joining (tp_threads s i) \<longrightarrow> tp_threads s j \<noteq> Dispatcher D_Wait)
     \<and> (\<forall>i k j. tp_threads s i = Shutdown (X_Join k) \<longrightarrow> j < k \<longrightarrow> j < tp_n_threads s \<longrightarrow> tp_threads s j = Dispatcher D_Joined)"

lemma joined_stays:
  assumes "thread_step i c s = Some s'" and "tp_threads s j = Dispatcher D_Joined"
  shows "tp_threads s' j = Dispatcher D_Joined"
  using assms others_step [OF assms(1), of j] by (cases "j = i") (auto simp: thread_step_def dispatcher_step_def)

lemma shutdown_own:
  assumes "thread_step i c s = Some s'"
  shows "off_stored (tp_threads s' i) \<Longrightarrow> tp_off s' \<or> off_stored (tp_threads s i)"
    and "joining (tp_threads s' i) \<Longrightarrow> joining (tp_threads s i) \<or> (\<forall>j. tp_threads s' j \<noteq> Dispatcher D_Wait)"
    and "tp_threads s' i = Shutdown (X_Join k) \<Longrightarrow> k = 0 \<or> (\<exists>k'. k = Suc k' \<and> tp_threads s i = Shutdown (X_Join k') \<and> tp_threads s' k' = Dispatcher D_Joined)"
    and "tp_threads s' i = Dispatcher D_Wait \<Longrightarrow> tp_on s"
proof -
  have "(off_stored (tp_threads s' i) \<longrightarrow> tp_off s' \<or> off_stored (tp_threads s i))
    \<and> (joining (tp_threads s' i) \<longrightarrow> joining (tp_threads s i) \<or> (\<forall>j. tp_threads s' j \<noteq> Dispatcher D_Wait))
    \<and> (tp_threads s' i = Shutdown (X_Join k) \<longrightarrow> k = 0 \<or> (\<exists>k'. k = Suc k' \<and> tp_threads s i = Shutdown (X_Join k') \<and> tp_threads s' k' = Dispatcher D_Joined))
    \<and> (tp_threads s' i = Dispatcher D_Wait \<longrightarrow> tp_on s)"
  proof (cases "tp_threads s i")
    case (Dispatcher p)
    with assms show ?thesis by (cases p) (auto simp: step_defs split: if_splits list.splits)
  next
    case (Submit p)
    with assms show ?thesis by (cases p) (auto simp: step_defs split: if_splits choice.splits)
  next
    case (Wait p)
    with assms show ?thesis by (cases p) (auto simp: step_defs split: if_splits)
  next
    case (Shutdown p)
    with assms show ?thesis by (cases p) (auto simp: step_defs split: if_splits)
  qed (use assms in \<open>simp add: thread_step_def\<close>)
  then show "off_stored (tp_threads s' i) \<Longrightarrow> tp_off s' \<or> off_stored (tp_threads s i)"
    and "joining (tp_threads s' i) \<Longrightarrow> joining (tp_threads s i) \<or> (\<forall>j. tp_threads s' j \<noteq> Dispatcher D_Wait)"
    and "tp_threads s' i = Shutdown (X_Join k) \<Longrightarrow> k = 0 \<or> (\<exists>k'. k = Suc k' \<and> tp_threads s i = Shutdown (X_Join k') \<and> tp_threads s' k' = Dispatcher D_Joined)"
    and "tp_threads s' i = Dispatcher D_Wait \<Longrightarrow> tp_on s" by blast+
qed

lemma joining_off_stored: "joining p \<Longrightarrow> off_stored p"
  by (cases p) (auto split: shutdown_pc.splits)

lemma shutdown_ok_step:
  assumes st: "thread_step i c s = Some s'" and "shutdown_ok s" and "flags_ok s"
  shows "shutdown_ok s'"
proof -
  note others = others_step [OF st]
  have off: "tp_off s" if "off_stored (tp_threads s j)" for j using assms(2) that by (auto simp: shutdown_ok_def)
  have parked: "tp_threads s l \<noteq> Dispatcher D_Wait" if "joining (tp_threads s j)" for j l using assms(2) that by (auto simp: shutdown_ok_def)
  have joined: "tp_threads s j = Dispatcher D_Joined" if "tp_threads s l = Shutdown (X_Join k)" "j < k" "j < tp_n_threads s" for j l k
    using assms(2) that unfolding shutdown_ok_def by blast
  have kept: "tp_threads s j = Shutdown p" if "tp_threads s' j = Shutdown p" "j \<noteq> i" for j p using others [OF that(2)] that(1) by auto
  have A: "tp_off s'" if "off_stored (tp_threads s' j)" for j
  proof (cases "j = i")
    case True
    with shutdown_own(1) [OF st] that off [of i] flags_fall(2) [OF st] show ?thesis by blast
  next
    case False
    with others [of j] that off [of j] flags_fall(2) [OF st] show ?thesis by auto
  qed
  have B: "tp_threads s' l \<noteq> Dispatcher D_Wait" if j: "joining (tp_threads s' j)" for j l
  proof
    assume l: "tp_threads s' l = Dispatcher D_Wait"
    have "joining (tp_threads s j)"
      using shutdown_own(2) [OF st] others [of j] j l by (cases "j = i") auto
    then have "tp_threads s l \<noteq> Dispatcher D_Wait" "\<not> tp_on s"
      using parked off [of j] assms(3) joining_off_stored by (auto simp: flags_ok_def)
    with shutdown_own(4) [OF st] others [of l] l show False by (cases "l = i") auto
  qed
  have C: "tp_threads s' j = Dispatcher D_Joined" if "tp_threads s' l = Shutdown (X_Join k)" "j < k" "j < tp_n_threads s'" for l k j
  proof -
    have n: "j < tp_n_threads s" using that(3) flags_fall(3) [OF st] by simp
    show ?thesis
    proof (cases "l = i")
      case True
      with shutdown_own(3) [OF st, of k] that obtain k' where "k = Suc k'" "tp_threads s i = Shutdown (X_Join k')" "tp_threads s' k' = Dispatcher D_Joined" by auto
      with joined [of i k' j] joined_stays [OF st, of j] that(2) n show ?thesis by (cases "j = k'") auto
    qed (use kept [OF that(1)] joined joined_stays [OF st] that(2) n in blast)
  qed
  from A B C show ?thesis unfolding shutdown_ok_def by blast
qed

lemma shutdown_ok_pool_step:
  assumes "pool_of n s \<and> shutdown_ok s" and "pool_step s s'"
  shows "pool_of n s' \<and> shutdown_ok s'"
proof
  show "pool_of n s'" by (rule pool_of_step [OF _ assms(2)]) (use assms(1) in blast)
  from assms(2) show "shutdown_ok s'"
  proof cases
    case (step i c)
    with shutdown_ok_step [OF step] assms(1) show ?thesis by (simp add: pool_inv_def)
  next
    case (call i r p self f a)
    have "\<not> off_stored p" "\<not> joining p" "p \<noteq> Dispatcher q" "p \<noteq> Shutdown (X_Join k)" for q k
      using call(3) by (auto simp: entry_defs split: option.splits if_splits)
    with assms(1) call(1,2) show ?thesis by (auto simp: shutdown_ok_def goto_def)
  qed
qed

interpretation stopping: runs pool_step "\<lambda>s. pool_of n s \<and> shutdown_ok s" for n
  by unfold_locales (rule shutdown_ok_pool_step)

lemma shutdown_ok_reachable:
  assumes "pool_reachable n s" and "0 < n"
  shows "shutdown_ok s"
proof -
  have "pool_of n (new_pool n) \<and> shutdown_ok (new_pool n)" using assms(2) pool_inv_new [of n] by (simp add: new_pool_def shutdown_ok_def)
  with stopping.run_keeps [OF pool_reachable_run [OF assms(1)]] show ?thesis by blast
qed

text \<open>The steps the client that holds the mutex takes until it gives it back.\<close>

fun client_rank :: "'t pc \<Rightarrow> nat" where
  "client_rank (Submit p) = (case p of S_Signal \<Rightarrow> 2 | S_Unlock \<Rightarrow> 1 | _ \<Rightarrow> 0)"
| "client_rank (Wait p) = (case p of W_IsEmpty \<Rightarrow> 3 | W_InFlight \<Rightarrow> 2 | W_Unlock \<Rightarrow> 1 | _ \<Rightarrow> 0)"
| "client_rank (Shutdown p) = (case p of X_Broadcast \<Rightarrow> 2 | X_Unlock \<Rightarrow> 1 | _ \<Rightarrow> 0)"
| "client_rank _ = 0"

definition remaining :: "'t thread_pool_t \<Rightarrow> nat" where
  "remaining s = 4 * tp_total rank (tp_threads s) (tp_n_threads s)
     + (case tp_mutex s of None \<Rightarrow> 0 | Some l \<Rightarrow> client_rank (tp_threads s l))"

lemma rank_others:
  assumes "thread_step i c s = Some s'" and "j \<noteq> i"
  shows "rank (tp_threads s' j) \<le> rank (tp_threads s j)"
  using others_step [OF assms] by auto

lemma step_mutex:
  assumes "thread_step i c s = Some s'"
  shows "tp_mutex s' \<in> {tp_mutex s, None, Some i}"
proof (cases "tp_threads s i")
  case (Dispatcher p)
  with assms show ?thesis by (cases p) (auto simp: step_defs split: if_splits list.splits)
next
  case (Submit p)
  with assms show ?thesis by (cases p) (auto simp: step_defs split: if_splits choice.splits)
next
  case (Wait p)
  with assms show ?thesis by (cases p) (auto simp: step_defs split: if_splits)
next
  case (Shutdown p)
  with assms show ?thesis by (cases p) (auto simp: step_defs split: if_splits)
qed (use assms in \<open>simp add: thread_step_def\<close>)

lemma dispatcher_moves:
  assumes "tp_threads s j = Dispatcher p" and "p \<noteq> D_Exit" and "p \<noteq> D_Joined" and "p \<noteq> D_Wait" and "mutex_ok (tp_threads s) (tp_mutex s)"
    and "tp_mutex s \<in> {None, Some j}"
  shows "\<exists>s'. thread_step j Proceed s = Some s'"
proof -
  have "critical (tp_threads s j) \<longleftrightarrow> tp_mutex s = Some j" using assms(5) by (simp add: mutex_ok_def)
  with assms(1-4,6) show ?thesis by (cases p) (auto simp: step_defs split: list.splits)
qed

lemma client_moves:
  assumes "tp_mutex s = Some l" and "critical (tp_threads s l)" and "\<not> is_dispatcher (tp_threads s l)"
    and "\<forall>j. tp_threads s j \<noteq> Dispatcher D_Wait"
  shows "\<exists>s'. thread_step l Proceed s = Some s' \<and> (tp_mutex s' = None \<or> tp_mutex s' = Some l)
    \<and> client_rank (tp_threads s' l) < client_rank (tp_threads s l)"
proof (cases "tp_threads s l")
  case (Submit p)
  with assms show ?thesis by (cases p) (auto simp: step_defs)
next
  case (Wait p)
  with assms show ?thesis by (cases p) (auto simp: step_defs)
next
  case (Shutdown p)
  with assms show ?thesis by (cases p) (auto simp: step_defs)
qed (use assms in auto)

lemma total_mono:
  assumes "\<forall>j < n. f (T' j) \<le> f (T j)"
  shows "tp_total f T' n \<le> (tp_total f T n :: nat)"
  using assms unfolding tp_total_def by (intro sum_mono) auto

lemma total_less:
  assumes "\<forall>j < n. f (T' j) \<le> f (T j)" and "i < n" and "f (T' i) < f (T i)"
  shows "tp_total f T' n < (tp_total f T n :: nat)"
  using assms unfolding tp_total_def by (intro sum_strict_mono_ex1) auto

lemma dispatcher_progress:
  assumes st: "thread_step j c s = Some s'" and T: "tp_threads s j = Dispatcher p" and n: "j < tp_n_threads s"
    and off: "\<not> tp_on s" "tp_off s" and inv: "mutex_ok (tp_threads s) (tp_mutex s)" "roles (tp_threads s) (tp_n_threads s)"
    and m: "tp_mutex s \<in> {None, Some j}"
  shows "remaining s' < remaining s"
proof -
  have "tp_total rank (tp_threads s') (tp_n_threads s) < tp_total rank (tp_threads s) (tp_n_threads s)"
  proof (rule total_less [OF _ n])
    show "rank (tp_threads s' j) < rank (tp_threads s j)" by (rule rank_step [OF st T off])
    then show "\<forall>k < tp_n_threads s. rank (tp_threads s' k) \<le> rank (tp_threads s k)"
      using rank_others [OF st] by (metis less_imp_le)
  qed
  moreover have "tp_mutex s' \<in> {None, Some j}" using step_mutex [OF st] m by auto
  moreover have "is_dispatcher (tp_threads s' j)" using roles_step [OF st inv(2)] n flags_fall(3) [OF st] by (simp add: roles_def)
  then have "client_rank (tp_threads s' j) = 0" by (cases "tp_threads s' j") auto
  ultimately show ?thesis using flags_fall(3) [OF st] by (auto simp: remaining_def)
qed

lemma joining_step:
  assumes "thread_step i Proceed s = Some s'" and "joining (tp_threads s i)"
    and "\<And>k. tp_threads s i = Shutdown (X_Join k) \<Longrightarrow> k < tp_n_threads s"
  shows "joining (tp_threads s' i)"
proof -
  obtain x where x: "tp_threads s i = Shutdown x" using assms(2) by (cases "tp_threads s i") auto
  show ?thesis
  proof (cases x)
    case (X_Join k)
    with assms(1) assms(3) [of k] x show ?thesis by (simp add: step_defs split: if_splits) auto
  qed (use assms(1,2) x in \<open>auto simp: step_defs split: if_splits\<close>)
qed

text \<open>Dispatchers are joined only by a shutdown that has reached its loop.\<close>

lemma joined_by:
  assumes "thread_step l c s = Some s'" and "tp_threads s' j = Dispatcher D_Joined" and "tp_threads s l \<noteq> Shutdown (X_Join j)"
  shows "tp_threads s j = Dispatcher D_Joined"
proof (cases "j = l")
  case False
  with others_step [OF assms(1) False] assms(2,3) show ?thesis by auto
next
  case True
  show ?thesis
  proof (cases "tp_threads s l")
    case (Dispatcher p)
    with assms(1,2) True show ?thesis by (cases p) (auto simp: step_defs split: if_splits list.splits)
  next
    case (Submit p)
    with assms(1,2) True show ?thesis by (cases p) (auto simp: step_defs split: if_splits choice.splits)
  next
    case (Wait p)
    with assms(1,2) True show ?thesis by (cases p) (auto simp: step_defs split: if_splits)
  next
    case (Shutdown p)
    with assms(1,2) True show ?thesis by (cases p) (auto simp: step_defs split: if_splits)
  qed (use assms(1) in \<open>simp add: thread_step_def\<close>)
qed

text \<open>The shutdown of thread \<open>i\<close> is the only one that has joined dispatchers.\<close>

definition sole_joiner :: "tid \<Rightarrow> 't thread_pool_t \<Rightarrow> bool" where
  "sole_joiner i s \<longleftrightarrow> (\<forall>j. tp_threads s j = Dispatcher D_Joined \<longrightarrow> (\<exists>k. tp_threads s i = Shutdown (X_Join k) \<and> j < k))"

lemma sole_joiner_step:
  assumes st: "thread_step l c s = Some s'" and l: "critical (tp_threads s l) \<or> is_dispatcher (tp_threads s l)" and sole: "sole_joiner i s"
  shows "sole_joiner i s'"
  unfolding sole_joiner_def
proof (intro allI impI)
  fix j assume "tp_threads s' j = Dispatcher D_Joined"
  moreover have own: "tp_threads s l \<noteq> Shutdown (X_Join k)" for k using l by auto
  ultimately have "tp_threads s j = Dispatcher D_Joined" using joined_by [OF st] by blast
  with sole obtain k where k: "tp_threads s i = Shutdown (X_Join k)" "j < k" unfolding sole_joiner_def by blast
  with own have "i \<noteq> l" by auto
  with others_step [OF st this] k show "\<exists>k. tp_threads s' i = Shutdown (X_Join k) \<and> j < k" by auto
qed

abbreviation gone :: "'t pc \<Rightarrow> bool" where
  "gone p \<equiv> p \<in> {Dispatcher D_Exit, Dispatcher D_Joined}"

lemma shutdown_progress:
  assumes reach: "pool_reachable n s" "0 < n" and join: "joining (tp_threads s i)" and left: "j < n" "\<not> gone (tp_threads s j)"
  shows "\<exists>l s'. thread_step l Proceed s = Some s' \<and> remaining s' < remaining s \<and> joining (tp_threads s' i)
    \<and> (critical (tp_threads s l) \<or> is_dispatcher (tp_threads s l))"
proof -
  note inv = pool_reachable_inv [OF reach] and sd = shutdown_ok_reachable [OF reach]
  have D: "mutex_ok (tp_threads s) (tp_mutex s)" "roles (tp_threads s) n" "flags_ok s" and n: "tp_n_threads s = n"
    using inv by (auto simp: pool_inv_def)
  have stored: "off_stored (tp_threads s i)" by (rule joining_off_stored [OF join])
  then have "tp_off s" using sd unfolding shutdown_ok_def by blast
  moreover from this have "\<not> tp_on s" using D(3) unfolding flags_ok_def by blast
  ultimately have off: "tp_off s" "\<not> tp_on s" by auto
  have parked: "\<forall>l. tp_threads s l \<noteq> Dispatcher D_Wait" using sd join by (auto simp: shutdown_ok_def)
  have keep: "joining (tp_threads s' i)" if "thread_step l Proceed s = Some s'" for l s'
  proof (cases "l = i")
    case True
    have bound: "k < tp_n_threads s" if "tp_threads s i = Shutdown (X_Join k)" for k
    proof (rule ccontr)
      assume "\<not> k < tp_n_threads s"
      then have "tp_threads s j = Dispatcher D_Joined" using sd that left(1) n unfolding shutdown_ok_def by (meson leI order_less_le_trans)
      with left(2) show False by simp
    qed
    show ?thesis using joining_step [OF _ join bound] that True by blast
  next
    case False
    with others_step [OF that, of i] join show ?thesis by auto
  qed
  have disp: "is_dispatcher (tp_threads s l)" if "l < n" for l using D(2) that unfolding roles_def by blast
  have go: ?thesis if l: "l < n" "\<not> gone (tp_threads s l)" "tp_mutex s \<in> {None, Some l}" for l
  proof -
    obtain p where p: "tp_threads s l = Dispatcher p" using disp [OF l(1)] by (cases "tp_threads s l") auto
    have "p \<noteq> D_Exit" "p \<noteq> D_Joined" "p \<noteq> D_Wait" using p l(2) parked by auto
    with dispatcher_moves [OF p _ _ _ D(1) l(3)] obtain s' where s': "thread_step l Proceed s = Some s'" by blast
    with dispatcher_progress [OF s' p _ off(2,1) D(1) _ l(3)] D(2) n l(1) keep disp show ?thesis by blast
  qed
  show ?thesis
  proof (cases "tp_mutex s")
    case None
    with go left show ?thesis by blast
  next
    case (Some l)
    then have crit: "critical (tp_threads s l)" using D(1) by (simp add: mutex_ok_def)
    show ?thesis
    proof (cases "l < n")
      case True
      from crit have "\<not> gone (tp_threads s l)" by auto
      with go True Some show ?thesis by blast
    next
      case False
      then have "\<not> is_dispatcher (tp_threads s l)" using D(2) by (simp add: roles_def)
      with client_moves [OF Some crit _ parked] obtain s' where s': "thread_step l Proceed s = Some s'"
        "tp_mutex s' = None \<or> tp_mutex s' = Some l" "client_rank (tp_threads s' l) < client_rank (tp_threads s l)" by blast
      have "tp_total rank (tp_threads s') n \<le> tp_total rank (tp_threads s) n"
        using rank_others [OF s'(1)] False by (intro total_mono) auto
      with s' Some n flags_fall(3) [OF s'(1)] have "remaining s' < remaining s" by (auto simp: remaining_def)
      with s'(1) keep crit show ?thesis by blast
    qed
  qed
qed

lemma joining_returns:
  assumes "tp_threads s i = Shutdown (X_Join k)" and "\<forall>j < tp_n_threads s. tp_threads s j = Dispatcher (if j < k then D_Joined else D_Exit)"
  shows "\<exists>s'. pool_step\<^sup>*\<^sup>* s s' \<and> tp_threads s' i = Returned 0 \<and> (\<forall>j < tp_n_threads s. tp_threads s' j = Dispatcher D_Joined)"
  using assms
proof (induction "tp_n_threads s - k" arbitrary: s k)
  case 0
  have i: "\<not> i < tp_n_threads s" using 0(2,3) by auto
  have "thread_step i Proceed s = Some (goto i (Returned 0) s)" using 0(1,2) by (simp add: step_defs)
  then have "pool_step s (goto i (Returned 0) s)" by (rule pool_step.step)
  moreover have "\<forall>j < tp_n_threads s. tp_threads (goto i (Returned 0) s) j = Dispatcher D_Joined"
    using 0 i by (auto simp: goto_def)
  moreover have "tp_threads (goto i (Returned 0) s) i = Returned 0" by (simp add: goto_def)
  ultimately show ?case by blast
next
  case (Suc d)
  define s1 where "s1 = goto i (Shutdown (X_Join (Suc k))) (goto k (Dispatcher D_Joined) s)"
  have i: "\<not> i < tp_n_threads s" and k: "k < tp_n_threads s" using Suc.hyps(2) Suc.prems by auto
  then have "thread_step i Proceed s = Some s1" using Suc.prems by (simp add: step_defs s1_def)
  then have st: "pool_step s s1" by (rule pool_step.step)
  have n: "tp_n_threads s1 = tp_n_threads s" by (simp add: s1_def goto_def)
  have "\<exists>s'. pool_step\<^sup>*\<^sup>* s1 s' \<and> tp_threads s' i = Returned 0 \<and> (\<forall>j < tp_n_threads s1. tp_threads s' j = Dispatcher D_Joined)"
    by (rule Suc.hyps(1) [of _ "Suc k"]) (use Suc.hyps(2) Suc.prems i in \<open>auto simp: s1_def goto_def\<close>)
  with st n show ?case by (metis converse_rtranclp_into_rtranclp)
qed

lemma unlock_joins:
  assumes "mutex_ok (tp_threads s) (tp_mutex s)" and "tp_threads s i = Shutdown X_Unlock"
  shows "\<exists>s'. pool_step s s' \<and> tp_threads s' i = Shutdown (X_Join 0) \<and> tp_n_threads s' = tp_n_threads s
    \<and> (\<forall>j. j \<noteq> i \<longrightarrow> tp_threads s' j = tp_threads s j)"
proof -
  have "critical (tp_threads s i)" using assms(2) by simp
  then have "tp_mutex s = Some i" using assms(1) unfolding mutex_ok_def by blast
  then obtain s' where s': "thread_step i Proceed s = Some s'" "tp_threads s' = (tp_threads s)(i := Shutdown (X_Join 0))"
    "tp_n_threads s' = tp_n_threads s" using assms(2) by (simp add: step_defs)
  from pool_step.step [OF s'(1)] s'(2,3) show ?thesis by auto
qed

lemma joining_completes:
  assumes reach: "pool_reachable n s" "0 < n" and join: "joining (tp_threads s i)" and sole: "sole_joiner i s"
    and gone: "\<forall>j < n. gone (tp_threads s j)"
  shows "\<exists>s'. pool_step\<^sup>*\<^sup>* s s' \<and> tp_threads s' i = Returned 0 \<and> (\<forall>j < n. tp_threads s' j = Dispatcher D_Joined)"
proof -
  have inv: "mutex_ok (tp_threads s) (tp_mutex s)" and n: "tp_n_threads s = n"
    using pool_reachable_inv [OF reach] by (auto simp: pool_inv_def)
  note sd = shutdown_ok_reachable [OF reach]
  consider k where "tp_threads s i = Shutdown (X_Join k)" | "tp_threads s i = Shutdown X_Unlock"
    using join by (cases "tp_threads s i") (auto split: shutdown_pc.splits)
  then show ?thesis
  proof cases
    case (1 k)
    have "tp_threads s j = Dispatcher (if j < k then D_Joined else D_Exit)" if j: "j < tp_n_threads s" for j
    proof (cases "j < k")
      case True
      with sd 1 j show ?thesis unfolding shutdown_ok_def by auto
    next
      case False
      with sole 1 have "tp_threads s j \<noteq> Dispatcher D_Joined" by (auto simp: sole_joiner_def)
      with gone j n False show ?thesis by auto
    qed
    with joining_returns [OF 1] n show ?thesis by blast
  next
    case 2
    obtain s1 where s1: "pool_step s s1" "tp_threads s1 i = Shutdown (X_Join 0)" "tp_n_threads s1 = tp_n_threads s"
      "\<forall>j. j \<noteq> i \<longrightarrow> tp_threads s1 j = tp_threads s j" using unlock_joins [OF inv 2] by blast
    have "tp_threads s1 j = Dispatcher (if j < 0 then D_Joined else D_Exit)" if "j < tp_n_threads s1" for j
    proof -
      have "tp_threads s j \<noteq> Dispatcher D_Joined" using sole 2 by (auto simp: sole_joiner_def)
      moreover have "gone (tp_threads s j)" "j \<noteq> i" using gone that s1(3) n 2 by auto
      ultimately show ?thesis using s1(4) by auto
    qed
    with joining_returns [OF s1(2)] s1(1,3) n show ?thesis by (metis converse_rtranclp_into_rtranclp)
  qed
qed

lemma shutdown_advances:
  assumes "0 < n \<and> pool_reachable n s \<and> joining (tp_threads s i) \<and> sole_joiner i s" and "\<not> (\<forall>j < n. gone (tp_threads s j))"
  shows "\<exists>s'. pool_step s s' \<and> (0 < n \<and> pool_reachable n s' \<and> joining (tp_threads s' i) \<and> sole_joiner i s') \<and> remaining s' < remaining s"
proof -
  obtain l s' where s': "thread_step l Proceed s = Some s'" "remaining s' < remaining s" "joining (tp_threads s' i)"
    "critical (tp_threads s l) \<or> is_dispatcher (tp_threads s l)"
    using shutdown_progress [of n s i] assms by blast
  have "pool_step s s'" by (rule pool_step.step [OF s'(1)])
  moreover have "sole_joiner i s'" by (rule sole_joiner_step [OF s'(1,4)]) (use assms(1) in blast)
  ultimately show ?thesis using s' assms(1) by (blast intro: pool_reachable.more)
qed

interpretation shutdown: progress pool_step "\<lambda>s. 0 < n \<and> pool_reachable n s \<and> joining (tp_threads s i) \<and> sole_joiner i s"
    "\<lambda>s. \<forall>j < n. gone (tp_threads s j)" remaining for n i
  by unfold_locales (rule shutdown_advances)

lemma shutdown_finishes:
  assumes "pool_reachable n s" and "0 < n" and "joining (tp_threads s i)" and "sole_joiner i s"
  shows "\<exists>s'. pool_step\<^sup>*\<^sup>* s s' \<and> tp_threads s' i = Returned 0 \<and> (\<forall>j < n. tp_threads s' j = Dispatcher D_Joined)"
proof -
  obtain s1 where s1: "pool_step\<^sup>*\<^sup>* s s1" "pool_reachable n s1" "joining (tp_threads s1 i)" "sole_joiner i s1" "\<forall>j < n. gone (tp_threads s1 j)"
    using shutdown.reaches_goal [of n s i] assms by blast
  with joining_completes [OF s1(2) assms(2) s1(3-5)] show ?thesis by (meson rtranclp_trans)
qed

text \<open>A second shutdown, in turn or at the same time, joins a dispatcher twice: it has no step.\<close>

lemma joined_blocks:
  assumes "tp_threads s i = Shutdown (X_Join k)" and "k < tp_n_threads s" and "tp_threads s k = Dispatcher D_Joined"
  shows "thread_step i c s = None"
  using assms by (simp add: step_defs)

section \<open>Schedules\<close>

text \<open>Running a given schedule.\<close>

fun run_schedule :: "(tid \<times> choice) list \<Rightarrow> 't thread_pool_t \<Rightarrow> 't thread_pool_t option" where
  "run_schedule [] s = Some s"
| "run_schedule ((i, c) # cs) s = Option.bind (thread_step i c s) (run_schedule cs)"

lemma run_schedule_steps:
  assumes "run_schedule cs s = Some s'"
  shows "pool_step\<^sup>*\<^sup>* s s'"
  using assms
proof (induction cs arbitrary: s)
  case (Cons ic cs)
  obtain i c where ic: "ic = (i, c)" by fastforce
  with Cons.prems obtain s1 where "thread_step i c s = Some s1" "run_schedule cs s1 = Some s'"
    by (auto simp: bind_eq_Some_conv)
  with Cons.IH show ?case by (meson converse_rtranclp_into_rtranclp pool_step.step)
qed simp

lemma run_schedule_reachable:
  assumes "pool_reachable n s" and "run_schedule cs s = Some s'"
  shows "pool_reachable n s'"
  using run_schedule_steps [OF assms(2)] assms(1) by induction (auto intro: pool_reachable.more)

text \<open>
  The window between \<open>generic_queue_syn_dequeue\<close> and the increment of \<open>_in_flight\<close>: the client of thread 1
  submits a task, the dispatcher takes it, and a call of \<open>thread_pool_wait\<close> returns before it has run.
\<close>

definition submit_schedule :: "(tid \<times> choice) list" where
  "submit_schedule = [(1, Proceed), (1, Proceed), (1, Proceed), (1, Proceed), (1, Proceed), (1, Proceed)]"

definition take_schedule :: "(tid \<times> choice) list" where
  "take_schedule = [(0, Proceed), (0, Proceed), (0, Proceed), (0, Proceed), (0, Proceed), (0, Proceed)]"

definition wait_schedule :: "(tid \<times> choice) list" where
  "wait_schedule = [(1, Proceed), (1, Proceed), (1, Proceed), (1, Proceed)]"

text \<open>A pool of one dispatcher in which a task has been submitted.\<close>

lemma sample_submitted:
  obtains s where "pool_reachable 1 s" and "tp_accepted s = [\<lparr>task_function = f, task_arg = a\<rparr>]"
    and "tp_on s" and "tp_queue_syn s \<noteq> []"
proof -
  let ?s = "goto 1 (thread_pool_submit True (Some f) a) (new_pool 1)"
  have "pool_step (new_pool 1) ?s" by (rule pool_step.call [where r = 0]) (auto simp: new_pool_def)
  then have r: "pool_reachable 1 ?s" by (rule pool_reachable.more [OF pool_reachable.init])
  obtain s where s: "run_schedule submit_schedule ?s = Some s" "tp_accepted s = [\<lparr>task_function = f, task_arg = a\<rparr>]"
    "tp_on s" "tp_queue_syn s \<noteq> []"
    by (simp add: submit_schedule_def step_defs entry_defs new_pool_def)
  show thesis by (rule that [OF run_schedule_reachable [OF r s(1)] s(2-4)])
qed

lemma wait_race:
  fixes f :: 'f and a :: "'a ptr"
  defines "t \<equiv> \<lparr>task_function = f, task_arg = a\<rparr>"
  shows "\<exists>s0 s1 s2. run_schedule submit_schedule (goto 1 (thread_pool_submit True (Some f) a) (new_pool 1)) = Some s0
    \<and> tp_threads s0 1 = Returned 0 \<and> tp_accepted s0 = [t]
    \<and> run_schedule take_schedule s0 = Some s1
    \<and> run_schedule wait_schedule (goto 1 (thread_pool_wait True) s1) = Some s2
    \<and> tp_threads s2 1 = Returned 0 \<and> tp_accepted s2 = [t] \<and> tp_done s2 = []"
  by (simp add: submit_schedule_def take_schedule_def wait_schedule_def step_defs entry_defs new_pool_def t_def)

end
