(* ===== verification/Linked_List.thy ===== *)
theory Linked_List
  imports Prelude
begin

text \<open>
  The doubly linked list of \<^verbatim>\<open>src/generic_linked_list.c\<close> at the level of its pointers.

  \<^item> A heap record holds the nodes, the list headers and the iterators by address, the
    allocator, and the state \<open>'w\<close> on which the free, copy and apply callbacks act.  The
    record is extensible: the queue, the synchronised queue and the hash table extend it by
    their own structures, so that the list operations apply to their heaps as they are.
  \<^item> Every function of the C file that works on the list itself is a definition of the same
    name; the iterator functions are in the theory of iterators.
  \<^item> \<open>ll_rep h M I\<close> relates a heap to its abstract content: \<open>M\<close> gives, for every
    list address, the sequence of stored pointers and the two callbacks, \<open>I\<close> the positions
    of the iterators in use.  The lemmas named \<open>*_spec\<close> describe each operation by its
    effect on \<open>M\<close> and \<open>I\<close>.
\<close>

unbundle bit_operations_syntax

section \<open>Structures\<close>

record 'd node_t =
  node_data :: "'d ptr"
  node_next :: "addr ptr"
  node_prev :: "addr ptr"

record ('d, 'w) generic_linked_list_t =
  ll_size :: size_t
  ll_head_guard :: "addr ptr"
  ll_tail_guard :: "addr ptr"
  ll_free_function :: "('d, 'w) free_fn ptr"
  ll_copy_function :: "('d, 'w) copy_fn ptr"

record generic_linked_list_iterator_t =
  it_list :: "addr ptr"
  it_current_node :: "addr ptr"

record ('d, 'w) ll_heap =
  nodes :: "addr \<rightharpoonup> 'd node_t"
  lists :: "addr \<rightharpoonup> ('d, 'w) generic_linked_list_t"
  iters :: "addr \<rightharpoonup> generic_linked_list_iterator_t"
  arena :: allocator
  world :: 'w

type_synonym ('d, 'w, 'z) llh = "('d, 'w, 'z) ll_heap_scheme"

section \<open>Heap accesses\<close>

text \<open>
  A block that \<open>malloc\<close> returns has indeterminate content; the code writes every field
  before it reads it, and the model starts from null fields.
\<close>

definition malloc_node :: "('d, 'w, 'z) llh \<Rightarrow> addr ptr \<times> ('d, 'w, 'z) llh" where
  "malloc_node h = (case malloc (arena h) of
     (NULL, A) \<Rightarrow> (NULL, h\<lparr>arena := A\<rparr>)
   | (Some a, A) \<Rightarrow> (Some a, h\<lparr>arena := A, nodes := (nodes h)(a \<mapsto>
       \<lparr>node_data = NULL, node_next = NULL, node_prev = NULL\<rparr>)\<rparr>))"

definition malloc_list :: "('d, 'w, 'z) llh \<Rightarrow> addr ptr \<times> ('d, 'w, 'z) llh" where
  "malloc_list h = (case malloc (arena h) of
     (NULL, A) \<Rightarrow> (NULL, h\<lparr>arena := A\<rparr>)
   | (Some a, A) \<Rightarrow> (Some a, h\<lparr>arena := A, lists := (lists h)(a \<mapsto>
       \<lparr>ll_size = 0, ll_head_guard = NULL, ll_tail_guard = NULL,
        ll_free_function = NULL, ll_copy_function = NULL\<rparr>)\<rparr>))"

definition malloc_iter :: "('d, 'w, 'z) llh \<Rightarrow> addr ptr \<times> ('d, 'w, 'z) llh" where
  "malloc_iter h = (case malloc (arena h) of
     (NULL, A) \<Rightarrow> (NULL, h\<lparr>arena := A\<rparr>)
   | (Some a, A) \<Rightarrow> (Some a, h\<lparr>arena := A, iters := (iters h)(a \<mapsto>
       \<lparr>it_list = NULL, it_current_node = NULL\<rparr>)\<rparr>))"

definition node_at :: "('d, 'w, 'z) llh \<Rightarrow> addr ptr \<Rightarrow> 'd node_t option" where
  "node_at h p = Option.bind p (nodes h)"

definition list_at :: "('d, 'w, 'z) llh \<Rightarrow> addr ptr \<Rightarrow> ('d, 'w) generic_linked_list_t option" where
  "list_at h p = Option.bind p (lists h)"

definition iter_at :: "('d, 'w, 'z) llh \<Rightarrow> addr ptr \<Rightarrow> generic_linked_list_iterator_t option" where
  "iter_at h p = Option.bind p (iters h)"

definition modify_node ::
  "addr ptr \<Rightarrow> ('d node_t \<Rightarrow> 'd node_t) \<Rightarrow> ('d, 'w, 'z) llh \<Rightarrow> ('d, 'w, 'z) llh option" where
  "modify_node p f h = do {
     a \<leftarrow> p;
     n \<leftarrow> nodes h a;
     Some (h\<lparr>nodes := (nodes h)(a \<mapsto> f n)\<rparr>) }"

definition modify_list ::
  "addr ptr \<Rightarrow> (('d, 'w) generic_linked_list_t \<Rightarrow> ('d, 'w) generic_linked_list_t)
     \<Rightarrow> ('d, 'w, 'z) llh \<Rightarrow> ('d, 'w, 'z) llh option" where
  "modify_list p f h = do {
     a \<leftarrow> p;
     l \<leftarrow> lists h a;
     Some (h\<lparr>lists := (lists h)(a \<mapsto> f l)\<rparr>) }"

definition modify_iter ::
  "addr ptr \<Rightarrow> (generic_linked_list_iterator_t \<Rightarrow> generic_linked_list_iterator_t)
     \<Rightarrow> ('d, 'w, 'z) llh \<Rightarrow> ('d, 'w, 'z) llh option" where
  "modify_iter p f h = do {
     a \<leftarrow> p;
     i \<leftarrow> iters h a;
     Some (h\<lparr>iters := (iters h)(a \<mapsto> f i)\<rparr>) }"

text \<open>\<open>free (NULL)\<close> does nothing; freeing a block that is not allocated is undefined.\<close>

definition free_node :: "addr ptr \<Rightarrow> ('d, 'w, 'z) llh \<Rightarrow> ('d, 'w, 'z) llh option" where
  "free_node p h = (case p of NULL \<Rightarrow> Some h
     | Some a \<Rightarrow> if nodes h a = None then None else Some (h\<lparr>nodes := (nodes h)(a := None)\<rparr>))"

definition free_list :: "addr ptr \<Rightarrow> ('d, 'w, 'z) llh \<Rightarrow> ('d, 'w, 'z) llh option" where
  "free_list p h = (case p of NULL \<Rightarrow> Some h
     | Some a \<Rightarrow> if lists h a = None then None else Some (h\<lparr>lists := (lists h)(a := None)\<rparr>))"

definition free_iter :: "addr ptr \<Rightarrow> ('d, 'w, 'z) llh \<Rightarrow> ('d, 'w, 'z) llh option" where
  "free_iter p h = (case p of NULL \<Rightarrow> Some h
     | Some a \<Rightarrow> if iters h a = None then None else Some (h\<lparr>iters := (iters h)(a := None)\<rparr>))"

text \<open>A call of the free callback on a stored pointer.\<close>

definition call_free :: "('d, 'w) free_fn \<Rightarrow> 'd ptr \<Rightarrow> ('d, 'w, 'z) llh \<Rightarrow> ('d, 'w, 'z) llh option" where
  "call_free f d h = do { w \<leftarrow> f d (world h); Some (h\<lparr>world := w\<rparr>) }"

lemmas [heap_simps] =
  node_at_def list_at_def iter_at_def modify_node_def modify_list_def modify_iter_def
  free_node_def free_list_def free_iter_def call_free_def

lemma malloc_node_refused [simp]:
  "refused (arena h) \<Longrightarrow> malloc_node h = (NULL, h\<lparr>arena := tick (arena h)\<rparr>)"
  by (simp add: malloc_node_def)

lemma malloc_node_granted [simp]:
  "\<not> refused (arena h) \<Longrightarrow> malloc_node h = (Some (Suc (ticks (arena h))),
     h\<lparr>arena := tick (arena h), nodes := (nodes h)(Suc (ticks (arena h)) \<mapsto>
       \<lparr>node_data = NULL, node_next = NULL, node_prev = NULL\<rparr>)\<rparr>)"
  by (simp add: malloc_node_def)

section \<open>The list functions\<close>

definition generic_linked_list_new ::
  "addr ptr out \<Rightarrow> ('d, 'w, 'z) llh \<Rightarrow> (exit_code \<times> addr ptr out \<times> ('d, 'w, 'z) llh) option" where
  "generic_linked_list_new out_self h = (case out_self of NULL \<Rightarrow> Some (1, out_self, h)
   | Some _ \<Rightarrow> do {
       let (self, h) = malloc_list h;
       if self = NULL then Some (-1, Some NULL, h)
       else do {
         h \<leftarrow> modify_list self (\<lambda>l. l\<lparr>ll_size := 0, ll_free_function := NULL,
                ll_copy_function := NULL\<rparr>) h;
         let (head, h) = malloc_node h;
         h \<leftarrow> modify_list self (\<lambda>l. l\<lparr>ll_head_guard := head\<rparr>) h;
         let (tail, h) = malloc_node h;
         h \<leftarrow> modify_list self (\<lambda>l. l\<lparr>ll_tail_guard := tail\<rparr>) h;
         if head = NULL \<or> tail = NULL then do {
           h \<leftarrow> free_node head h;
           h \<leftarrow> free_node tail h;
           h \<leftarrow> free_list self h;
           Some (-1, Some NULL, h) }
         else do {
           h \<leftarrow> modify_node head (\<lambda>n. n\<lparr>node_data := NULL, node_next := tail, node_prev := NULL\<rparr>) h;
           h \<leftarrow> modify_node tail (\<lambda>n. n\<lparr>node_data := NULL, node_prev := head, node_next := NULL\<rparr>) h;
           Some (0, Some self, h) } } })"

definition generic_linked_list_set_free_function ::
  "addr ptr \<Rightarrow> ('d, 'w) free_fn ptr \<Rightarrow> ('d, 'w, 'z) llh \<Rightarrow> (exit_code, ('d, 'w, 'z) llh) res" where
  "generic_linked_list_set_free_function self free_function h =
     (if self = NULL then Some (1, h)
      else do {
        h \<leftarrow> modify_list self (\<lambda>l. l\<lparr>ll_free_function := free_function\<rparr>) h;
        Some (0, h) })"

definition generic_linked_list_get_free_function ::
  "addr ptr \<Rightarrow> ('d, 'w) free_fn ptr out \<Rightarrow> ('d, 'w, 'z) llh
     \<Rightarrow> (exit_code \<times> ('d, 'w) free_fn ptr out) option" where
  "generic_linked_list_get_free_function self out_free_function h =
     (if self = NULL then Some (1, out_free_function)
      else if out_free_function = NULL then Some (1, out_free_function)
      else do {
        l \<leftarrow> list_at h self;
        Some (0, Some (ll_free_function l)) })"

definition generic_linked_list_set_copy_function ::
  "addr ptr \<Rightarrow> ('d, 'w) copy_fn ptr \<Rightarrow> ('d, 'w, 'z) llh \<Rightarrow> (exit_code, ('d, 'w, 'z) llh) res" where
  "generic_linked_list_set_copy_function self copy_function h =
     (if self = NULL then Some (1, h)
      else do {
        h \<leftarrow> modify_list self (\<lambda>l. l\<lparr>ll_copy_function := copy_function\<rparr>) h;
        Some (0, h) })"

definition generic_linked_list_get_copy_function ::
  "addr ptr \<Rightarrow> ('d, 'w) copy_fn ptr out \<Rightarrow> ('d, 'w, 'z) llh
     \<Rightarrow> (exit_code \<times> ('d, 'w) copy_fn ptr out) option" where
  "generic_linked_list_get_copy_function self out_copy_function h =
     (if self = NULL then Some (1, out_copy_function)
      else if out_copy_function = NULL then Some (1, out_copy_function)
      else do {
        l \<leftarrow> list_at h self;
        Some (0, Some (ll_copy_function l)) })"

text \<open>The loop of \<open>generic_linked_list_free\<close>: \<open>while (current != self->_tail_guard)\<close>.\<close>

partial_function (option) ll_free_loop ::
  "('d, 'w) free_fn ptr \<Rightarrow> addr ptr \<Rightarrow> addr ptr \<Rightarrow> ('d, 'w, 'z) llh \<Rightarrow> ('d, 'w, 'z) llh option" where
  "ll_free_loop free_function tail current h =
     (if current = tail then Some h
      else do {
        n \<leftarrow> node_at h current;
        h \<leftarrow> (case free_function of NULL \<Rightarrow> Some h
             | Some f \<Rightarrow> if node_data n = NULL then Some h else call_free f (node_data n) h);
        h \<leftarrow> free_node current h;
        ll_free_loop free_function tail (node_next n) h })"

definition generic_linked_list_free ::
  "addr ptr \<Rightarrow> ('d, 'w, 'z) llh \<Rightarrow> (exit_code, ('d, 'w, 'z) llh) res" where
  "generic_linked_list_free self h =
     (if self = NULL then Some (1, h)
      else do {
        l \<leftarrow> list_at h self;
        h \<leftarrow> (if ll_head_guard l \<noteq> NULL \<and> ll_tail_guard l \<noteq> NULL
             then do {
               g \<leftarrow> node_at h (ll_head_guard l);
               ll_free_loop (ll_free_function l) (ll_tail_guard l) (node_next g) h }
             else Some h);
        h \<leftarrow> free_node (ll_head_guard l) h;
        h \<leftarrow> free_node (ll_tail_guard l) h;
        h \<leftarrow> free_list self h;
        Some (0, h) })"

definition generic_linked_list_size ::
  "addr ptr \<Rightarrow> size_t out \<Rightarrow> ('d, 'w, 'z) llh \<Rightarrow> (exit_code \<times> size_t out) option" where
  "generic_linked_list_size self out_size h =
     (if self = NULL then Some (1, out_size)
      else if out_size = NULL then Some (1, out_size)
      else do {
        l \<leftarrow> list_at h self;
        Some (0, Some (ll_size l)) })"

definition generic_linked_list_is_empty ::
  "addr ptr \<Rightarrow> ('d, 'w, 'z) llh \<Rightarrow> exit_code option" where
  "generic_linked_list_is_empty self h =
     (if self = NULL then Some (-1)
      else do {
        l \<leftarrow> list_at h self;
        Some (if ll_size l = 0 then 1 else 0) })"

text \<open>
  The part shared by both insertions: the copy callback, or the pointer itself, fills the new
  node; a copy that fails releases the node.
\<close>

definition ll_fill_node ::
  "('d, 'w) copy_fn ptr \<Rightarrow> addr ptr \<Rightarrow> 'd ptr \<Rightarrow> ('d, 'w, 'z) llh
     \<Rightarrow> (exit_code, ('d, 'w, 'z) llh) res" where
  "ll_fill_node copy_function new_node data h = (case copy_function of
     Some copy \<Rightarrow> do {
       (copy_result, copied_data, w) \<leftarrow> copy data (world h);
       let h = h\<lparr>world := w\<rparr>;
       if copy_result \<noteq> 0 then do {
         h \<leftarrow> free_node new_node h;
         Some (copy_result, h) }
       else do {
         h \<leftarrow> modify_node new_node (\<lambda>n. n\<lparr>node_data := copied_data\<rparr>) h;
         Some (0, h) } }
   | NULL \<Rightarrow> do {
       h \<leftarrow> modify_node new_node (\<lambda>n. n\<lparr>node_data := data\<rparr>) h;
       Some (0, h) })"

definition generic_linked_list_insert_first ::
  "addr ptr \<Rightarrow> 'd ptr \<Rightarrow> ('d, 'w, 'z) llh \<Rightarrow> (exit_code, ('d, 'w, 'z) llh) res" where
  "generic_linked_list_insert_first self data h =
     (if self = NULL then Some (1, h)
      else do {
        let (new_node, h) = malloc_node h;
        if new_node = NULL then Some (-1, h)
        else do {
          l \<leftarrow> list_at h self;
          (copy_result, h) \<leftarrow> ll_fill_node (ll_copy_function l) new_node data h;
          if copy_result \<noteq> 0 then Some (copy_result, h)
          else do {
            g \<leftarrow> node_at h (ll_head_guard l);
            h \<leftarrow> modify_node new_node (\<lambda>n. n\<lparr>node_next := node_next g\<rparr>) h;
            h \<leftarrow> modify_node (node_next g) (\<lambda>n. n\<lparr>node_prev := new_node\<rparr>) h;
            h \<leftarrow> modify_node new_node (\<lambda>n. n\<lparr>node_prev := ll_head_guard l\<rparr>) h;
            h \<leftarrow> modify_node (ll_head_guard l) (\<lambda>n. n\<lparr>node_next := new_node\<rparr>) h;
            h \<leftarrow> modify_list self (\<lambda>l. l\<lparr>ll_size := ll_size l + 1\<rparr>) h;
            Some (0, h) } } })"

definition generic_linked_list_insert_last ::
  "addr ptr \<Rightarrow> 'd ptr \<Rightarrow> ('d, 'w, 'z) llh \<Rightarrow> (exit_code, ('d, 'w, 'z) llh) res" where
  "generic_linked_list_insert_last self data h =
     (if self = NULL then Some (1, h)
      else do {
        let (new_node, h) = malloc_node h;
        if new_node = NULL then Some (-1, h)
        else do {
          l \<leftarrow> list_at h self;
          (copy_result, h) \<leftarrow> ll_fill_node (ll_copy_function l) new_node data h;
          if copy_result \<noteq> 0 then Some (copy_result, h)
          else do {
            t \<leftarrow> node_at h (ll_tail_guard l);
            h \<leftarrow> modify_node new_node (\<lambda>n. n\<lparr>node_prev := node_prev t\<rparr>) h;
            h \<leftarrow> modify_node (node_prev t) (\<lambda>n. n\<lparr>node_next := new_node\<rparr>) h;
            h \<leftarrow> modify_node new_node (\<lambda>n. n\<lparr>node_next := ll_tail_guard l\<rparr>) h;
            h \<leftarrow> modify_node (ll_tail_guard l) (\<lambda>n. n\<lparr>node_prev := new_node\<rparr>) h;
            h \<leftarrow> modify_list self (\<lambda>l. l\<lparr>ll_size := ll_size l + 1\<rparr>) h;
            Some (0, h) } } })"

text \<open>
  The hand-over of the stored pointer on removal: to the caller's variable if there is one,
  otherwise to the free callback (which the caller has checked to be set).
\<close>

definition ll_hand_over ::
  "('d, 'w) free_fn ptr \<Rightarrow> 'd ptr \<Rightarrow> 'd ptr out \<Rightarrow> ('d, 'w, 'z) llh
     \<Rightarrow> ('d ptr out \<times> ('d, 'w, 'z) llh) option" where
  "ll_hand_over free_function data out_data h = (case out_data of
     NULL \<Rightarrow> (case free_function of
        Some f \<Rightarrow> if data \<noteq> NULL then do { h \<leftarrow> call_free f data h; Some (NULL, h) } else Some (NULL, h)
      | NULL \<Rightarrow> Some (NULL, h))
   | Some _ \<Rightarrow> Some (Some data, h))"

definition generic_linked_list_remove_first ::
  "addr ptr \<Rightarrow> 'd ptr out \<Rightarrow> ('d, 'w, 'z) llh
     \<Rightarrow> (exit_code \<times> 'd ptr out \<times> ('d, 'w, 'z) llh) option" where
  "generic_linked_list_remove_first self out_data h =
     (if self = NULL then Some (1, out_data, h)
      else do {
        l \<leftarrow> list_at h self;
        if ll_size l = 0 then Some (0, map_option (\<lambda>_. NULL) out_data, h)
        else if out_data = NULL \<and> ll_free_function l = NULL then Some (1, out_data, h)
        else do {
          g \<leftarrow> node_at h (ll_head_guard l);
          let to_remove = node_next g;
          n \<leftarrow> node_at h to_remove;
          (out_data, h) \<leftarrow> ll_hand_over (ll_free_function l) (node_data n) out_data h;
          h \<leftarrow> modify_node (ll_head_guard l) (\<lambda>g. g\<lparr>node_next := node_next n\<rparr>) h;
          n \<leftarrow> node_at h to_remove;
          h \<leftarrow> modify_node (node_next n) (\<lambda>m. m\<lparr>node_prev := ll_head_guard l\<rparr>) h;
          h \<leftarrow> modify_list self (\<lambda>l. l\<lparr>ll_size := ll_size l - 1\<rparr>) h;
          h \<leftarrow> free_node to_remove h;
          Some (0, out_data, h) } })"

definition generic_linked_list_remove_last ::
  "addr ptr \<Rightarrow> 'd ptr out \<Rightarrow> ('d, 'w, 'z) llh
     \<Rightarrow> (exit_code \<times> 'd ptr out \<times> ('d, 'w, 'z) llh) option" where
  "generic_linked_list_remove_last self out_data h =
     (if self = NULL then Some (1, out_data, h)
      else do {
        l \<leftarrow> list_at h self;
        if ll_size l = 0 then Some (0, map_option (\<lambda>_. NULL) out_data, h)
        else if out_data = NULL \<and> ll_free_function l = NULL then Some (1, out_data, h)
        else do {
          t \<leftarrow> node_at h (ll_tail_guard l);
          let to_remove = node_prev t;
          n \<leftarrow> node_at h to_remove;
          (out_data, h) \<leftarrow> ll_hand_over (ll_free_function l) (node_data n) out_data h;
          h \<leftarrow> modify_node (ll_tail_guard l) (\<lambda>t. t\<lparr>node_prev := node_prev n\<rparr>) h;
          n \<leftarrow> node_at h to_remove;
          h \<leftarrow> modify_node (node_prev n) (\<lambda>m. m\<lparr>node_next := ll_tail_guard l\<rparr>) h;
          h \<leftarrow> modify_list self (\<lambda>l. l\<lparr>ll_size := ll_size l - 1\<rparr>) h;
          h \<leftarrow> free_node to_remove h;
          Some (0, out_data, h) } })"

section \<open>Representation\<close>

subsection \<open>Doubly linked segments\<close>

primrec first_addr :: "(addr \<times> 'd ptr) list \<Rightarrow> addr ptr \<Rightarrow> addr ptr" where
  "first_addr [] q = q"
| "first_addr (x # xs) q = Some (fst x)"

primrec last_addr :: "addr ptr \<Rightarrow> (addr \<times> 'd ptr) list \<Rightarrow> addr ptr" where
  "last_addr p [] = p"
| "last_addr p (x # xs) = last_addr (Some (fst x)) xs"

text \<open>
  \<open>dl N p xs q\<close>: the nodes \<open>xs\<close> (address and stored pointer) are linked both ways in the
  node map \<open>N\<close>, the first one back to \<open>p\<close>, the last one on to \<open>q\<close>.
\<close>

primrec dl :: "(addr \<rightharpoonup> 'd node_t) \<Rightarrow> addr ptr \<Rightarrow> (addr \<times> 'd ptr) list \<Rightarrow> addr ptr \<Rightarrow> bool" where
  "dl N p [] q = True"
| "dl N p (x # xs) q =
     (N (fst x) = Some \<lparr>node_data = snd x, node_next = first_addr xs q, node_prev = p\<rparr>
      \<and> dl N (Some (fst x)) xs q)"

lemma first_addr_append [simp]: "first_addr (xs @ ys) q = first_addr xs (first_addr ys q)"
  by (cases xs) simp_all

lemma last_addr_append [simp]: "last_addr p (xs @ ys) = last_addr (last_addr p xs) ys"
  by (induction xs arbitrary: p) simp_all

lemma dl_append [simp]:
  "dl N p (xs @ ys) q \<longleftrightarrow> dl N p xs (first_addr ys q) \<and> dl N (last_addr p xs) ys q"
  by (induction xs arbitrary: p) auto

lemma dl_cong:
  "(\<And>a. a \<in> fst ` set xs \<Longrightarrow> N' a = N a) \<Longrightarrow> dl N' p xs q \<longleftrightarrow> dl N p xs q"
  by (induction xs arbitrary: p) auto

lemma dl_in_dom: "dl N p xs q \<Longrightarrow> fst ` set xs \<subseteq> dom N"
  by (induction xs arbitrary: p) auto

lemma dl_data: "dl N p xs q \<Longrightarrow> (a, d) \<in> set xs \<Longrightarrow> \<exists>n. N a = Some n \<and> node_data n = d"
  by (induction xs arbitrary: p) auto

text \<open>Linking a node in between two neighbours, and unlinking one.\<close>

lemma dl_link:
  assumes "dl N p (us @ u # v # vs) q" and "distinct (map fst (us @ u # v # vs))"
    and "a \<notin> fst ` set (us @ u # v # vs)"
    and "N' a = Some \<lparr>node_data = d, node_next = Some (fst v), node_prev = Some (fst u)\<rparr>"
    and "N' (fst u) = map_option (\<lambda>n. n\<lparr>node_next := Some a\<rparr>) (N (fst u))"
    and "N' (fst v) = map_option (\<lambda>n. n\<lparr>node_prev := Some a\<rparr>) (N (fst v))"
    and other: "\<And>b. b \<notin> {a, fst u, fst v} \<Longrightarrow> N' b = N b"
  shows "dl N' p (us @ u # (a, d) # v # vs) q"
proof -
  have "dl N' p us r \<longleftrightarrow> dl N p us r" for r
    using assms(2,3) by (intro dl_cong other) (auto simp: image_Un del: imageE)
  moreover have "dl N' r vs q \<longleftrightarrow> dl N r vs q" for r
    using assms(2,3) by (intro dl_cong other) (auto simp: image_Un del: imageE)
  ultimately show ?thesis
    using assms(1,4-6) by auto
qed

lemma dl_unlink:
  assumes "dl N p (us @ u # x # v # vs) q" and "distinct (map fst (us @ u # x # v # vs))"
    and "N' (fst u) = map_option (\<lambda>n. n\<lparr>node_next := Some (fst v)\<rparr>) (N (fst u))"
    and "N' (fst v) = map_option (\<lambda>n. n\<lparr>node_prev := Some (fst u)\<rparr>) (N (fst v))"
    and other: "\<And>b. b \<notin> {fst x, fst u, fst v} \<Longrightarrow> N' b = N b"
  shows "dl N' p (us @ u # v # vs) q"
proof -
  have "dl N' p us r \<longleftrightarrow> dl N p us r" for r
    using assms(2) by (intro dl_cong other) (auto simp: image_Un del: imageE)
  moreover have "dl N' r vs q \<longleftrightarrow> dl N r vs q" for r
    using assms(2) by (intro dl_cong other) (auto simp: image_Un del: imageE)
  ultimately show ?thesis
    using assms(1,3,4) by auto
qed

subsection \<open>The invariant of the heap\<close>

text \<open>A shape is the address of the head guard, the proper nodes, and the tail guard's address.\<close>

datatype 'd shape = Shape addr "(addr \<times> 'd ptr) list" addr

fun full :: "'d shape \<Rightarrow> (addr \<times> 'd ptr) list" where
  "full (Shape g xs t) = (g, NULL) # xs @ [(t, NULL)]"

definition addrs :: "'d shape \<Rightarrow> addr set" where
  "addrs s = fst ` set (full s)"

definition list_ok :: "(addr \<rightharpoonup> 'd node_t) \<Rightarrow> ('d, 'w) generic_linked_list_t \<Rightarrow> 'd shape \<Rightarrow> bool" where
  "list_ok N r s \<longleftrightarrow> (case s of Shape g xs t \<Rightarrow>
     ll_head_guard r = Some g \<and> ll_tail_guard r = Some t \<and> ll_size r = of_nat (length xs)
     \<and> dl N NULL (full s) NULL \<and> distinct (map fst (full s)))"

text \<open>
  Every list header has a shape that its nodes realise; shapes of different lists share no
  node; every allocated node belongs to a list (none is leaked); all addresses come from the
  allocator.
\<close>

definition ll_inv ::
  "(addr \<rightharpoonup> 'd node_t) \<Rightarrow> (addr \<rightharpoonup> ('d, 'w) generic_linked_list_t)
     \<Rightarrow> (addr \<rightharpoonup> generic_linked_list_iterator_t) \<Rightarrow> nat \<Rightarrow> (addr \<rightharpoonup> 'd shape) \<Rightarrow> bool" where
  "ll_inv N L J n P \<longleftrightarrow>
     dom P = dom L
     \<and> (\<forall>l r s. L l = Some r \<longrightarrow> P l = Some s \<longrightarrow> list_ok N r s)
     \<and> (\<forall>l l' s s'. P l = Some s \<longrightarrow> P l' = Some s' \<longrightarrow> l \<noteq> l' \<longrightarrow> addrs s \<inter> addrs s' = {})
     \<and> (\<forall>a. a \<in> dom N \<longleftrightarrow> (\<exists>l s. P l = Some s \<and> a \<in> addrs s))
     \<and> dom N \<union> dom L \<union> dom J \<subseteq> {1..min n block_limit}"

subsection \<open>Abstract content\<close>

record ('d, 'w) alist =
  al_items :: "'d ptr list"
  al_free :: "('d, 'w) free_fn ptr"
  al_copy :: "('d, 'w) copy_fn ptr"

definition ll_abs ::
  "(addr \<rightharpoonup> ('d, 'w) generic_linked_list_t) \<Rightarrow> (addr \<rightharpoonup> 'd shape) \<Rightarrow> addr \<rightharpoonup> ('d, 'w) alist" where
  "ll_abs L P l = (case L l of None \<Rightarrow> None | Some r \<Rightarrow> map_option (\<lambda>s. case s of Shape g xs t \<Rightarrow>
     \<lparr>al_items = map snd xs, al_free = ll_free_function r, al_copy = ll_copy_function r\<rparr>) (P l))"

text \<open>
  An iterator at position \<open>k\<close> of a list: 0 is the head guard, \<open>k\<close> the \<open>k\<close>-th stored
  pointer counted from 1, one more than the length is the tail guard.
\<close>

definition iters_ok ::
  "(addr \<rightharpoonup> generic_linked_list_iterator_t) \<Rightarrow> (addr \<rightharpoonup> 'd shape) \<Rightarrow> (addr \<rightharpoonup> addr \<times> nat) \<Rightarrow> bool" where
  "iters_ok J P I \<longleftrightarrow> (\<forall>i l k. I i = Some (l, k) \<longrightarrow> (\<exists>s. P l = Some s \<and> k < length (full s)
     \<and> J i = Some \<lparr>it_list = Some l, it_current_node = Some (fst (full s ! k))\<rparr>))"

definition ll_rep ::
  "('d, 'w, 'z) llh \<Rightarrow> (addr \<rightharpoonup> ('d, 'w) alist) \<Rightarrow> (addr \<rightharpoonup> addr \<times> nat) \<Rightarrow> bool" where
  "ll_rep h M I \<longleftrightarrow> (\<exists>P. ll_inv (nodes h) (lists h) (iters h) (ticks (arena h)) P
     \<and> iters_ok (iters h) P I \<and> M = ll_abs (lists h) P)"

text \<open>What a list stores for a pointer: a copy if it has a copy callback, else the pointer.\<close>

definition al_store :: "('d, 'w) alist \<Rightarrow> 'd ptr \<Rightarrow> 'w \<Rightarrow> (exit_code \<times> 'd ptr \<times> 'w) option" where
  "al_store L d w = (case al_copy L of NULL \<Rightarrow> Some (0, d, w) | Some copy \<Rightarrow> copy d w)"

text \<open>To whom a removed pointer goes, and the callback run over a whole list.\<close>

definition al_give :: "('d, 'w) alist \<Rightarrow> 'd ptr \<Rightarrow> 'd ptr out \<Rightarrow> 'w \<Rightarrow> ('d ptr out \<times> 'w) option" where
  "al_give L d out w = (case out of Some _ \<Rightarrow> Some (Some d, w)
     | NULL \<Rightarrow> (case al_free L of NULL \<Rightarrow> Some (NULL, w)
        | Some f \<Rightarrow> if d = NULL then Some (NULL, w) else map_option (Pair NULL) (f d w)))"

fun free_all :: "('d, 'w) free_fn ptr \<Rightarrow> 'd ptr list \<Rightarrow> 'w \<Rightarrow> 'w option" where
  "free_all fr [] w = Some w"
| "free_all fr (d # ds) w = do {
     w \<leftarrow> (case fr of NULL \<Rightarrow> Some w | Some f \<Rightarrow> if d = NULL then Some w else f d w);
     free_all fr ds w }"

text \<open>Operations on one list leave the positions on the other lists alone.\<close>

definition drop_iters :: "addr \<Rightarrow> (addr \<rightharpoonup> addr \<times> nat) \<Rightarrow> addr \<rightharpoonup> addr \<times> nat" where
  "drop_iters l I = (\<lambda>i. case I i of None \<Rightarrow> None | Some (l', k) \<Rightarrow> if l' = l then None else Some (l', k))"

text \<open>What every list operation leaves untouched: the structures of the components above.\<close>

abbreviation same_frame :: "('d, 'w, 'z) llh \<Rightarrow> ('d, 'w, 'z) llh \<Rightarrow> bool" where
  "same_frame h h' \<equiv> ll_heap.more h' = ll_heap.more h"

lemma drop_iters_empty [simp]: "drop_iters l Map.empty = Map.empty"
  by (simp add: drop_iters_def)

lemma ll_invD:
  assumes "ll_inv N L J n P"
  shows ll_inv_dom: "dom P = dom L"
    and ll_inv_ok: "L l = Some r \<Longrightarrow> P l = Some s \<Longrightarrow> list_ok N r s"
    and ll_inv_disj: "P l = Some s \<Longrightarrow> P l' = Some s' \<Longrightarrow> l \<noteq> l' \<Longrightarrow> addrs s \<inter> addrs s' = {}"
    and ll_inv_nodes: "a \<in> dom N \<longleftrightarrow> (\<exists>l s. P l = Some s \<and> a \<in> addrs s)"
    and ll_inv_bound: "dom N \<union> dom L \<union> dom J \<subseteq> {1..min n block_limit}"
proof -
  have ok: "\<forall>l r s. L l = Some r \<longrightarrow> P l = Some s \<longrightarrow> list_ok N r s"
    and disj: "\<forall>l l' s s'. P l = Some s \<longrightarrow> P l' = Some s' \<longrightarrow> l \<noteq> l' \<longrightarrow> addrs s \<inter> addrs s' = {}"
    and nodes: "\<forall>a. a \<in> dom N \<longleftrightarrow> (\<exists>l s. P l = Some s \<and> a \<in> addrs s)"
    and rest: "dom P = dom L" "dom N \<union> dom L \<union> dom J \<subseteq> {1..min n block_limit}"
    using assms unfolding ll_inv_def by satx+
  show "L l = Some r \<Longrightarrow> P l = Some s \<Longrightarrow> list_ok N r s" using ok by blast
  show "P l = Some s \<Longrightarrow> P l' = Some s' \<Longrightarrow> l \<noteq> l' \<Longrightarrow> addrs s \<inter> addrs s' = {}"
    using disj by blast
  show "a \<in> dom N \<longleftrightarrow> (\<exists>l s. P l = Some s \<and> a \<in> addrs s)" using nodes by blast
qed (use assms in \<open>simp_all add: ll_inv_def\<close>)

lemma addrs_simps [simp]: "addrs (Shape g xs t) = insert g (insert t (fst ` set xs))"
  by (auto simp: addrs_def)

lemma ll_repE:
  assumes "ll_rep h M I" and "M l = Some L"
  obtains P r g xs t where "ll_inv (nodes h) (lists h) (iters h) (ticks (arena h)) P"
    and "iters_ok (iters h) P I" and "M = ll_abs (lists h) P"
    and "lists h l = Some r" and "P l = Some (Shape g xs t)"
    and "L = \<lparr>al_items = map snd xs, al_free = ll_free_function r, al_copy = ll_copy_function r\<rparr>"
    and "list_ok (nodes h) r (Shape g xs t)"
proof -
  from assms(1) obtain P where P: "ll_inv (nodes h) (lists h) (iters h) (ticks (arena h)) P"
      "iters_ok (iters h) P I" "M = ll_abs (lists h) P"
    by (auto simp: ll_rep_def)
  with assms(2) obtain r s where r: "lists h l = Some r" "P l = Some s"
    by (auto simp: ll_abs_def split: option.splits)
  obtain g xs t where "s = Shape g xs t" by (cases s)
  with r P(3) assms(2) have "lists h l = Some r" "P l = Some (Shape g xs t)"
    "L = \<lparr>al_items = map snd xs, al_free = ll_free_function r, al_copy = ll_copy_function r\<rparr>"
    by (simp_all add: ll_abs_def)
  moreover from P(1) this(1,2) have "list_ok (nodes h) r (Shape g xs t)"
    by (rule ll_inv_ok)
  ultimately show thesis using P that by blast
qed

lemma ll_inv_fresh:
  assumes "ll_inv N L J n P" and "n < a"
  shows "N a = None" and "L a = None" and "J a = None"
proof -
  have "a \<notin> dom N \<union> dom L \<union> dom J"
    using ll_inv_bound [OF assms(1)] assms(2) by auto
  then show "N a = None" and "L a = None" and "J a = None" by auto
qed

text \<open>One list of the heap changes its nodes and its header.\<close>

lemma ll_inv_update:
  assumes inv: "ll_inv N L J n P" and l: "L l = Some r" "P l = Some s"
    and ok: "list_ok N' r' s'"
    and outside: "\<And>a. a \<notin> addrs s \<Longrightarrow> a \<notin> addrs s' \<Longrightarrow> N' a = N a"
    and gone: "\<And>a. a \<in> addrs s \<Longrightarrow> a \<notin> addrs s' \<Longrightarrow> N' a = None"
    and fresh: "\<And>a. a \<in> addrs s' \<Longrightarrow> a \<notin> addrs s \<Longrightarrow> N a = None \<and> a \<in> {1..min n' block_limit}"
    and "n \<le> n'"
  shows "ll_inv N' (L(l \<mapsto> r')) J n' (P(l \<mapsto> s'))"
proof -
  let ?P = "P(l \<mapsto> s')"
  have others: "addrs u \<inter> addrs s = {}" "addrs u \<inter> addrs s' = {}" "addrs u \<subseteq> dom N"
    if "P k = Some u" "k \<noteq> l" for k u
  proof -
    show A: "addrs u \<inter> addrs s = {}" using ll_inv_disj [OF inv that(1) l(2)] that(2) .
    show "addrs u \<subseteq> dom N" using ll_inv_nodes [OF inv] that(1) by blast
    then show "addrs u \<inter> addrs s' = {}" using A fresh by blast
  qed
  have ok': "list_ok N' r1 s1" if "(L(l \<mapsto> r')) k = Some r1" "?P k = Some s1" for k r1 s1
  proof (cases "k = l")
    case True
    with that ok show ?thesis by simp
  next
    case False
    with that have "list_ok N r1 s1" and "P k = Some s1" using ll_inv_ok [OF inv] by auto
    moreover from others[OF this(2) False] have "dl N' p (full s1) q = dl N p (full s1) q" for p q
      by (intro dl_cong outside) (auto simp: addrs_def del: imageE)
    ultimately show ?thesis by (simp add: list_ok_def split: shape.splits)
  qed
  have disj: "addrs s1 \<inter> addrs s2 = {}"
    if "?P k = Some s1" "?P k' = Some s2" "k \<noteq> k'" for k k' s1 s2
    using that others [of k s1] others [of k' s2] ll_inv_disj [OF inv, of k s1 k' s2]
    by (cases "k = l"; cases "k' = l") auto
  have s': "addrs s' \<subseteq> dom N'"
    using ok dl_in_dom [of N' NULL "full s'" NULL]
    by (auto simp: list_ok_def addrs_def simp del: full.simps split: shape.splits)
  have "a \<in> dom N' \<longleftrightarrow> (\<exists>k u. ?P k = Some u \<and> a \<in> addrs u)" for a
  proof (cases "a \<in> addrs s'")
    case True
    with s' show ?thesis by auto
  next
    case False
    then have "a \<in> dom N' \<longleftrightarrow> a \<in> dom N \<and> a \<notin> addrs s"
      using outside [of a] gone [of a] by (cases "a \<in> addrs s") (simp_all add: dom_def)
    also have "\<dots> \<longleftrightarrow> (\<exists>k u. k \<noteq> l \<and> P k = Some u \<and> a \<in> addrs u)"
    proof -
      have "a \<notin> addrs s" if "k \<noteq> l" "P k = Some u" "a \<in> addrs u" for k u
        using others(1) [OF that(2,1)] that(3) by blast
      then show ?thesis
        unfolding ll_inv_nodes [OF inv, of a] using l(2) by (metis option.inject)
    qed
    also have "\<dots> \<longleftrightarrow> (\<exists>k u. ?P k = Some u \<and> a \<in> addrs u)"
      using False by auto
    finally show ?thesis .
  qed
  moreover have "dom N' \<subseteq> {1..min n' block_limit}"
  proof
    fix a assume a: "a \<in> dom N'"
    show "a \<in> {1..min n' block_limit}"
    proof (cases "a \<in> dom N")
      case True
      with ll_inv_bound [OF inv] \<open>n \<le> n'\<close> show ?thesis by auto
    next
      case False
      then have "a \<notin> addrs s" using ll_inv_nodes [OF inv, of a] l(2) by blast
      moreover from this False a outside [of a] have "a \<in> addrs s'" by (metis domIff)
      ultimately have "a \<in> addrs s' \<and> a \<notin> addrs s" by simp
      then show ?thesis using fresh by blast
    qed
  qed
  moreover have "dom (L(l \<mapsto> r')) \<union> dom J \<subseteq> {1..min n' block_limit}"
    "dom ?P = dom (L(l \<mapsto> r'))"
    using ll_inv_bound [OF inv] ll_inv_dom [OF inv] l \<open>n \<le> n'\<close> by (auto 0 3)
  ultimately show ?thesis
    unfolding ll_inv_def using ok' disj by (intro conjI allI impI) (blast | simp)+
qed

section \<open>Specifications\<close>

lemma iters_ok_update:
  "iters_ok J P I \<Longrightarrow> iters_ok J (P(l \<mapsto> s)) (drop_iters l I)"
  by (fastforce simp: iters_ok_def drop_iters_def split: option.splits if_splits)

lemma ll_rep_changed:
  assumes "ll_inv (nodes h') (lists h') (iters h') (ticks (arena h')) (P(l \<mapsto> Shape g xs t))"
    and "iters_ok (iters h) P I" and h': "lists h' = (lists h)(l \<mapsto> r')" "iters h' = iters h"
  shows "ll_rep h' ((ll_abs (lists h) P)(l \<mapsto> \<lparr>al_items = map snd xs, al_free = ll_free_function r',
           al_copy = ll_copy_function r'\<rparr>)) (drop_iters l I)"
proof -
  have "iters_ok (iters h') (P(l \<mapsto> Shape g xs t)) (drop_iters l I)"
    unfolding h' by (rule iters_ok_update) fact
  moreover have "(ll_abs (lists h) P)(l \<mapsto> \<lparr>al_items = map snd xs, al_free = ll_free_function r',
           al_copy = ll_copy_function r'\<rparr>) = ll_abs (lists h') (P(l \<mapsto> Shape g xs t))"
    unfolding h' by (auto simp: ll_abs_def fun_eq_iff split: option.split)
  ultimately show ?thesis using assms(1) unfolding ll_rep_def by blast
qed

lemma list_ok_split:
  assumes "list_ok N r (Shape g xs t)" and "full (Shape g xs t) = us @ u # v # vs"
  shows "N (fst u) = Some \<lparr>node_data = snd u, node_next = Some (fst v), node_prev = last_addr NULL us\<rparr>"
    and "N (fst v) = Some \<lparr>node_data = snd v, node_next = first_addr vs NULL, node_prev = Some (fst u)\<rparr>"
    and "fst u \<noteq> fst v"
  using assms by (auto simp: list_ok_def simp del: full.simps)

text \<open>A granted node linked into the list, anywhere between two neighbours.\<close>

lemma ll_rep_link:
  assumes inv: "ll_inv (nodes h) (lists h) (iters h) (ticks (arena h)) P" and "iters_ok (iters h) P I"
    and l: "lists h l = Some r" "P l = Some (Shape g xs t)"
    and us: "full (Shape g xs t) = us @ u # v # vs" and xs': "full (Shape g xs' t) = us @ u # (a, d) # v # vs"
    and a: "a = Suc (ticks (arena h))" "\<not> refused (arena h)"
    and h': "lists h' = (lists h)(l \<mapsto> r\<lparr>ll_size := ll_size r + 1\<rparr>)" "iters h' = iters h"
      "arena h' = tick (arena h)"
    and "nodes h' a = Some \<lparr>node_data = d, node_next = Some (fst v), node_prev = Some (fst u)\<rparr>"
    and "nodes h' (fst u) = map_option (\<lambda>n. n\<lparr>node_next := Some a\<rparr>) (nodes h (fst u))"
    and "nodes h' (fst v) = map_option (\<lambda>n. n\<lparr>node_prev := Some a\<rparr>) (nodes h (fst v))"
    and other: "\<And>b. b \<notin> {a, fst u, fst v} \<Longrightarrow> nodes h' b = nodes h b"
  shows "ll_rep h' ((ll_abs (lists h) P)(l \<mapsto> \<lparr>al_items = map snd xs', al_free = ll_free_function r,
           al_copy = ll_copy_function r\<rparr>)) (drop_iters l I)"
proof -
  have ok: "list_ok (nodes h) r (Shape g xs t)" by (rule ll_inv_ok [OF inv l])
  have Na: "nodes h a = None" using ll_inv_fresh(1) [OF inv] a by simp
  have "dl (nodes h) NULL (us @ u # v # vs) NULL" and dist: "distinct (map fst (us @ u # v # vs))"
    using ok us by (simp_all add: list_ok_def del: full.simps)
  moreover have a': "a \<notin> fst ` set (us @ u # v # vs)"
    using dl_in_dom [OF calculation(1)] Na by auto
  ultimately have "dl (nodes h') NULL (full (Shape g xs' t)) NULL"
    unfolding xs' by (rule dl_link) (use assms in auto)
  moreover have "distinct (map fst (full (Shape g xs' t)))"
    unfolding xs' using dist a' by (auto simp: image_Un del: imageE)
  moreover have "length (full (Shape g xs' t)) = Suc (length (full (Shape g xs t)))"
    unfolding us xs' by simp
  ultimately have ok': "list_ok (nodes h') (r\<lparr>ll_size := ll_size r + 1\<rparr>) (Shape g xs' t)"
    using ok by (simp add: list_ok_def)
  have addrs': "addrs (Shape g xs' t) = insert a (addrs (Shape g xs t))"
    and uv: "fst u \<in> addrs (Shape g xs t)" "fst v \<in> addrs (Shape g xs t)"
    unfolding addrs_def us xs' by auto
  have bound: "a \<in> {1..min (ticks (arena h')) block_limit}"
    using a h'(3) by (simp add: refused_def)
  have "ll_inv (nodes h') (lists h') (iters h') (ticks (arena h')) (P(l \<mapsto> Shape g xs' t))"
    unfolding h'(1,2) using h'(3) Na other uv bound
    by (intro ll_inv_update [OF inv l ok']) (auto simp: addrs' simp del: addrs_simps)
  from ll_rep_changed [OF this assms(2) h'(1,2)] show ?thesis by simp
qed

text \<open>The same for a node that is unlinked and freed.\<close>

lemma ll_unlink:
  assumes inv: "ll_inv (nodes h) (lists h) (iters h) (ticks (arena h)) P" and "iters_ok (iters h) P I"
    and l: "lists h l = Some r" "P l = Some (Shape g xs t)"
    and us: "full (Shape g xs t) = us @ u # x # v # vs" and xs': "full (Shape g xs' t) = us @ u # v # vs"
    and h': "lists h' = (lists h)(l \<mapsto> r\<lparr>ll_size := ll_size r - 1\<rparr>)" "iters h' = iters h"
      "arena h' = arena h"
    and "nodes h' (fst x) = None"
    and "nodes h' (fst u) = map_option (\<lambda>n. n\<lparr>node_next := Some (fst v)\<rparr>) (nodes h (fst u))"
    and "nodes h' (fst v) = map_option (\<lambda>n. n\<lparr>node_prev := Some (fst u)\<rparr>) (nodes h (fst v))"
    and other: "\<And>b. b \<notin> {fst x, fst u, fst v} \<Longrightarrow> nodes h' b = nodes h b"
  shows ll_inv_unlink: "ll_inv (nodes h') (lists h') (iters h') (ticks (arena h')) (P(l \<mapsto> Shape g xs' t))"
    and ll_rep_unlink: "ll_rep h' ((ll_abs (lists h) P)(l \<mapsto> \<lparr>al_items = map snd xs', al_free = ll_free_function r,
           al_copy = ll_copy_function r\<rparr>)) (drop_iters l I)"
proof -
  have ok: "list_ok (nodes h) r (Shape g xs t)" by (rule ll_inv_ok [OF inv l])
  then have "dl (nodes h) NULL (us @ u # x # v # vs) NULL"
    and dist: "distinct (map fst (us @ u # x # v # vs))"
    using us by (simp_all add: list_ok_def del: full.simps)
  then have "dl (nodes h') NULL (full (Shape g xs' t)) NULL"
    unfolding xs' by (rule dl_unlink) (use assms in auto)
  moreover have "distinct (map fst (full (Shape g xs' t)))"
    unfolding xs' using dist by (auto simp: image_Un del: imageE)
  moreover have "length (full (Shape g xs t)) = Suc (length (full (Shape g xs' t)))"
    unfolding us xs' by simp
  ultimately have ok': "list_ok (nodes h') (r\<lparr>ll_size := ll_size r - 1\<rparr>) (Shape g xs' t)"
    using ok by (simp add: list_ok_def)
  have addrs': "addrs (Shape g xs t) = insert (fst x) (addrs (Shape g xs' t))"
    and x: "fst x \<notin> addrs (Shape g xs' t)"
    and uv: "fst u \<in> addrs (Shape g xs' t)" "fst v \<in> addrs (Shape g xs' t)"
    unfolding addrs_def us xs' using dist by (auto simp: image_Un del: imageE)
  show inv': "ll_inv (nodes h') (lists h') (iters h') (ticks (arena h')) (P(l \<mapsto> Shape g xs' t))"
    unfolding h' using other uv x assms(10)
    by (intro ll_inv_update [OF inv l ok']) (auto simp: addrs' simp del: addrs_simps)
  show "ll_rep h' ((ll_abs (lists h) P)(l \<mapsto> \<lparr>al_items = map snd xs', al_free = ll_free_function r,
           al_copy = ll_copy_function r\<rparr>)) (drop_iters l I)"
    using ll_rep_changed [OF inv' assms(2) h'(1,2)] by simp
qed

lemma insert_first_spec:
  assumes rep: "ll_rep h M I" "M l = Some L" and granted: "\<not> refused (arena h)"
    and store: "al_store L d (world h) = Some (0, d', w)"
  shows "\<exists>h'. generic_linked_list_insert_first (Some l) d h = Some (0, h')
    \<and> ll_rep h' (M(l \<mapsto> L\<lparr>al_items := d' # al_items L\<rparr>)) (drop_iters l I)
    \<and> world h' = w \<and> arena h' = tick (arena h) \<and> iters h' = iters h \<and> same_frame h h'"
proof -
  obtain P r g xs t where P: "ll_inv (nodes h) (lists h) (iters h) (ticks (arena h)) P"
    "iters_ok (iters h) P I" and M: "M = ll_abs (lists h) P"
    and l: "lists h l = Some r" "P l = Some (Shape g xs t)"
    and L: "L = \<lparr>al_items = map snd xs, al_free = ll_free_function r, al_copy = ll_copy_function r\<rparr>"
    and ok: "list_ok (nodes h) r (Shape g xs t)"
    by (rule ll_repE [OF rep])
  obtain v vs where v: "xs @ [(t, NULL)] = v # vs" by (cases "xs @ [(t, NULL)]") auto
  then have us: "full (Shape g xs t) = [] @ (g, NULL) # v # vs" by simp
  define a where "a = Suc (ticks (arena h))"
  have a: "nodes h a = None" using ll_inv_fresh(1) [OF P(1)] by (simp add: a_def)
  note nb = list_ok_split [OF ok us]
  have ne: "a \<noteq> g" "a \<noteq> fst v" "g \<noteq> fst v" using nb a by auto
  have g: "ll_head_guard r = Some g" using ok by (simp add: list_ok_def)
  obtain h' where h': "generic_linked_list_insert_first (Some l) d h = Some (0, h')"
    "nodes h' = (nodes h)(a \<mapsto> \<lparr>node_data = d', node_next = Some (fst v), node_prev = Some g\<rparr>,
        fst v \<mapsto> \<lparr>node_data = snd v, node_next = first_addr vs NULL, node_prev = Some a\<rparr>,
        g \<mapsto> \<lparr>node_data = NULL, node_next = Some a, node_prev = NULL\<rparr>)"
    "lists h' = (lists h)(l \<mapsto> r\<lparr>ll_size := ll_size r + 1\<rparr>)" "iters h' = iters h"
    "arena h' = tick (arena h)" "world h' = w" "same_frame h h'"
    using store l nb ne g granted
    by (auto simp: generic_linked_list_insert_first_def ll_fill_node_def heap_simps al_store_def L
      simp flip: a_def split: option.splits intro!: that)
  have "ll_rep h' ((ll_abs (lists h) P)(l \<mapsto> \<lparr>al_items = map snd ((a, d') # xs),
     al_free = ll_free_function r, al_copy = ll_copy_function r\<rparr>)) (drop_iters l I)"
    by (rule ll_rep_link [OF P l us, where a = a and d = d'])
      (use h' nb ne v granted in \<open>auto simp: a_def\<close>)
  then show ?thesis using h' by (auto simp: M L)
qed

lemma list_ok_length:
  assumes inv: "ll_inv N L J n P" and "list_ok N r (Shape g xs t)"
  shows "length xs \<le> block_limit"
proof -
  have "dl N NULL (full (Shape g xs t)) NULL" and "distinct (map fst (full (Shape g xs t)))"
    using assms(2) by (simp_all add: list_ok_def)
  moreover have "dom N \<subseteq> {1..block_limit}" using ll_inv_bound [OF inv] by auto
  with dl_in_dom [OF calculation(1)] have "set (map fst (full (Shape g xs t))) \<subseteq> {1..block_limit}"
    unfolding set_map by (rule subset_trans)
  ultimately have "length (map fst (full (Shape g xs t))) \<le> block_limit"
    by (intro distinct_bounded_length)
  then show ?thesis by simp
qed

text \<open>Iterators and the allocator may move on.\<close>

lemma ll_inv_iters:
  assumes "ll_inv N L J n P" and "dom J' \<subseteq> {1..min n' block_limit}" and "n \<le> n'"
  shows "ll_inv N L J' n' P"
proof -
  have "dom N \<union> dom L \<union> dom J' \<subseteq> {1..min n' block_limit}"
    using ll_inv_bound [OF assms(1)] assms(2,3) by auto
  then show ?thesis using assms(1) unfolding ll_inv_def by satx
qed

lemma ll_rep_cong:
  assumes "ll_rep h M I" and "nodes h' = nodes h" and "lists h' = lists h" and "iters h' = iters h"
    and "ticks (arena h) \<le> ticks (arena h')"
  shows "ll_rep h' M I"
proof -
  obtain P where P: "ll_inv (nodes h) (lists h) (iters h) (ticks (arena h)) P"
    and "iters_ok (iters h) P I" "M = ll_abs (lists h) P"
    using assms(1) by (auto simp: ll_rep_def)
  moreover have "ll_inv (nodes h') (lists h') (iters h') (ticks (arena h')) P"
    unfolding assms(2-4) by (rule ll_inv_iters [OF P]) (use ll_inv_bound [OF P] assms(5) in auto)
  ultimately show ?thesis using assms by (auto simp: ll_rep_def)
qed

lemma insert_last_spec:
  assumes rep: "ll_rep h M I" "M l = Some L" and granted: "\<not> refused (arena h)"
    and store: "al_store L d (world h) = Some (0, d', w)"
  shows "\<exists>h'. generic_linked_list_insert_last (Some l) d h = Some (0, h')
    \<and> ll_rep h' (M(l \<mapsto> L\<lparr>al_items := al_items L @ [d']\<rparr>)) (drop_iters l I)
    \<and> world h' = w \<and> arena h' = tick (arena h) \<and> iters h' = iters h \<and> same_frame h h'"
proof -
  obtain P r g xs t where P: "ll_inv (nodes h) (lists h) (iters h) (ticks (arena h)) P"
    "iters_ok (iters h) P I" and M: "M = ll_abs (lists h) P"
    and l: "lists h l = Some r" "P l = Some (Shape g xs t)"
    and L: "L = \<lparr>al_items = map snd xs, al_free = ll_free_function r, al_copy = ll_copy_function r\<rparr>"
    and ok: "list_ok (nodes h) r (Shape g xs t)"
    by (rule ll_repE [OF rep])
  obtain us u where u: "(g, NULL) # xs = us @ [u]" by (cases "(g, NULL) # xs" rule: rev_cases) auto
  then have us: "full (Shape g xs t) = us @ u # (t, NULL) # []" by simp
  define a where "a = Suc (ticks (arena h))"
  have a: "nodes h a = None" using ll_inv_fresh(1) [OF P(1)] by (simp add: a_def)
  note nb = list_ok_split [OF ok us]
  have ne: "a \<noteq> t" "a \<noteq> fst u" "fst u \<noteq> t" using nb a by auto
  have t: "ll_tail_guard r = Some t" using ok by (simp add: list_ok_def)
  obtain h' where h': "generic_linked_list_insert_last (Some l) d h = Some (0, h')"
    "nodes h' = (nodes h)(a \<mapsto> \<lparr>node_data = d', node_next = Some t, node_prev = Some (fst u)\<rparr>,
        fst u \<mapsto> \<lparr>node_data = snd u, node_next = Some a, node_prev = last_addr NULL us\<rparr>,
        t \<mapsto> \<lparr>node_data = NULL, node_next = NULL, node_prev = Some a\<rparr>)"
    "lists h' = (lists h)(l \<mapsto> r\<lparr>ll_size := ll_size r + 1\<rparr>)" "iters h' = iters h"
    "arena h' = tick (arena h)" "world h' = w" "same_frame h h'"
    using store l nb ne t granted
    by (auto simp: generic_linked_list_insert_last_def ll_fill_node_def heap_simps al_store_def L
      simp flip: a_def split: option.splits intro!: that)
  have "ll_rep h' ((ll_abs (lists h) P)(l \<mapsto> \<lparr>al_items = map snd (xs @ [(a, d')]),
     al_free = ll_free_function r, al_copy = ll_copy_function r\<rparr>)) (drop_iters l I)"
    by (rule ll_rep_link [OF P l us, where a = a and d = d'])
      (use h' nb ne u granted in \<open>auto simp: a_def\<close>)
  then show ?thesis using h' by (auto simp: M L)
qed

text \<open>Both insertions fail without a trace when the node or the copy is refused.\<close>

lemma insert_refused:
  assumes rep: "ll_rep h M I" and "refused (arena h)"
  shows "\<exists>h'. generic_linked_list_insert_first (Some l) d h = Some (-1, h')
      \<and> generic_linked_list_insert_last (Some l) d h = Some (-1, h')
      \<and> ll_rep h' M I \<and> world h' = world h \<and> arena h' = tick (arena h) \<and> iters h' = iters h
      \<and> same_frame h h'"
  using assms ll_rep_cong [OF rep, of "h\<lparr>arena := tick (arena h)\<rparr>"]
  by (auto simp: generic_linked_list_insert_first_def generic_linked_list_insert_last_def)

lemma insert_copy_fails:
  assumes rep: "ll_rep h M I" "M l = Some L" and "\<not> refused (arena h)"
    and store: "al_store L d (world h) = Some (r, d', w)" "r \<noteq> 0"
  shows "\<exists>h'. generic_linked_list_insert_first (Some l) d h = Some (r, h')
      \<and> generic_linked_list_insert_last (Some l) d h = Some (r, h')
      \<and> ll_rep h' M I \<and> world h' = w \<and> arena h' = tick (arena h) \<and> iters h' = iters h
      \<and> same_frame h h'"
proof -
  obtain P rc g xs t where P: "ll_inv (nodes h) (lists h) (iters h) (ticks (arena h)) P"
    and "iters_ok (iters h) P I" "M = ll_abs (lists h) P" "P l = Some (Shape g xs t)"
    and "list_ok (nodes h) rc (Shape g xs t)" and l: "lists h l = Some rc"
    and L: "L = \<lparr>al_items = map snd xs, al_free = ll_free_function rc, al_copy = ll_copy_function rc\<rparr>"
    using ll_repE [OF rep] by metis
  let ?h = "h\<lparr>arena := tick (arena h), world := w\<rparr>"
  have "nodes h (Suc (ticks (arena h))) = None" using ll_inv_fresh(1) [OF P(1)] by simp
  then have "(nodes h)(Suc (ticks (arena h)) := None) = nodes h" by auto
  moreover have "ll_rep ?h M I" by (rule ll_rep_cong [OF rep(1)]) simp_all
  ultimately show ?thesis using assms(3) store l L
    by (auto simp: generic_linked_list_insert_first_def generic_linked_list_insert_last_def
        ll_fill_node_def heap_simps al_store_def split: option.splits)
qed

lemma remove_first_spec:
  assumes rep: "ll_rep h M I" "M l = Some L" and items: "al_items L = d # ds"
    and out: "out \<noteq> NULL \<or> al_free L \<noteq> NULL" and give: "al_give L d out (world h) = Some (out', w)"
  shows "\<exists>h'. generic_linked_list_remove_first (Some l) out h = Some (0, out', h')
    \<and> ll_rep h' (M(l \<mapsto> L\<lparr>al_items := ds\<rparr>)) (drop_iters l I)
    \<and> world h' = w \<and> arena h' = arena h \<and> iters h' = iters h \<and> same_frame h h'"
proof -
  obtain P r g xs t where P: "ll_inv (nodes h) (lists h) (iters h) (ticks (arena h)) P"
    "iters_ok (iters h) P I" and M: "M = ll_abs (lists h) P"
    and l: "lists h l = Some r" "P l = Some (Shape g xs t)"
    and L: "L = \<lparr>al_items = map snd xs, al_free = ll_free_function r, al_copy = ll_copy_function r\<rparr>"
    and ok: "list_ok (nodes h) r (Shape g xs t)"
    by (rule ll_repE [OF rep])
  obtain x xs' where xs: "xs = x # xs'" "snd x = d" "map snd xs' = ds"
    using items by (cases xs) (auto simp: L)
  obtain v vs where v: "xs' @ [(t, NULL)] = v # vs" by (cases "xs' @ [(t, NULL)]") auto
  then have us: "full (Shape g xs t) = [] @ (g, NULL) # x # v # vs"
    and us': "full (Shape g xs t) = [(g, NULL)] @ x # v # vs" by (simp_all add: xs)
  note nb = list_ok_split [OF ok us] list_ok_split [OF ok us']
  have ne: "g \<noteq> fst x" "fst x \<noteq> fst v" "g \<noteq> fst v"
    using ok us nb by (auto simp: list_ok_def simp del: full.simps)
  have g: "ll_head_guard r = Some g" and size: "ll_size r \<noteq> 0"
    using ok list_ok_length [OF P(1) ok] of_nat_eq_0_size_t [of "length xs"] xs
    by (auto simp: list_ok_def simp del: of_nat_Suc)
  obtain h' where h': "generic_linked_list_remove_first (Some l) out h = Some (0, out', h')"
    "nodes h' = (nodes h)(g \<mapsto> \<lparr>node_data = NULL, node_next = Some (fst v), node_prev = NULL\<rparr>,
        fst v \<mapsto> \<lparr>node_data = snd v, node_next = first_addr vs NULL, node_prev = Some g\<rparr>, fst x := None)"
    "lists h' = (lists h)(l \<mapsto> r\<lparr>ll_size := ll_size r - 1\<rparr>)" "iters h' = iters h"
    "arena h' = arena h" "world h' = w" "same_frame h h'"
    using give l nb ne g size out xs
    by (auto simp: generic_linked_list_remove_first_def ll_hand_over_def heap_simps al_give_def L
      split: option.splits if_splits intro!: that)
  have "ll_rep h' ((ll_abs (lists h) P)(l \<mapsto> \<lparr>al_items = map snd xs',
     al_free = ll_free_function r, al_copy = ll_copy_function r\<rparr>)) (drop_iters l I)"
    by (rule ll_rep_unlink [OF P l us]) (use h' nb ne v in auto)
  then show ?thesis using h' by (auto simp: M L xs)
qed

lemma remove_last_spec:
  assumes rep: "ll_rep h M I" "M l = Some L" and items: "al_items L = ds @ [d]"
    and out: "out \<noteq> NULL \<or> al_free L \<noteq> NULL" and give: "al_give L d out (world h) = Some (out', w)"
  shows "\<exists>h'. generic_linked_list_remove_last (Some l) out h = Some (0, out', h')
    \<and> ll_rep h' (M(l \<mapsto> L\<lparr>al_items := ds\<rparr>)) (drop_iters l I)
    \<and> world h' = w \<and> arena h' = arena h \<and> iters h' = iters h \<and> same_frame h h'"
proof -
  obtain P r g xs t where P: "ll_inv (nodes h) (lists h) (iters h) (ticks (arena h)) P"
    "iters_ok (iters h) P I" and M: "M = ll_abs (lists h) P"
    and l: "lists h l = Some r" "P l = Some (Shape g xs t)"
    and L: "L = \<lparr>al_items = map snd xs, al_free = ll_free_function r, al_copy = ll_copy_function r\<rparr>"
    and ok: "list_ok (nodes h) r (Shape g xs t)"
    by (rule ll_repE [OF rep])
  obtain x xs' where xs: "xs = xs' @ [x]" "snd x = d" "map snd xs' = ds"
    using items by (cases xs rule: rev_cases) (auto simp: L)
  obtain us u where u: "(g, NULL) # xs' = us @ [u]" by (cases "(g, NULL) # xs'" rule: rev_cases) auto
  then have us: "full (Shape g xs t) = us @ u # x # (t, NULL) # []"
    and us': "full (Shape g xs t) = (us @ [u]) @ x # (t, NULL) # []" by (simp_all add: xs)
  note nb = list_ok_split [OF ok us] list_ok_split [OF ok us']
  have ne: "t \<noteq> fst x" "fst x \<noteq> fst u" "t \<noteq> fst u"
    using ok us nb by (auto simp: list_ok_def simp del: full.simps)
  have t: "ll_tail_guard r = Some t" and size: "ll_size r \<noteq> 0"
    using ok list_ok_length [OF P(1) ok] of_nat_eq_0_size_t [of "length xs"] xs
    by (auto simp: list_ok_def simp del: of_nat_Suc)
  obtain h' where h': "generic_linked_list_remove_last (Some l) out h = Some (0, out', h')"
    "nodes h' = (nodes h)(t \<mapsto> \<lparr>node_data = NULL, node_next = NULL, node_prev = Some (fst u)\<rparr>,
        fst u \<mapsto> \<lparr>node_data = snd u, node_next = Some t, node_prev = last_addr NULL us\<rparr>, fst x := None)"
    "lists h' = (lists h)(l \<mapsto> r\<lparr>ll_size := ll_size r - 1\<rparr>)" "iters h' = iters h"
    "arena h' = arena h" "world h' = w" "same_frame h h'"
    using give l nb ne t size out xs
    by (auto simp: generic_linked_list_remove_last_def ll_hand_over_def heap_simps al_give_def L
      split: option.splits if_splits intro!: that)
  have "ll_rep h' ((ll_abs (lists h) P)(l \<mapsto> \<lparr>al_items = map snd xs',
     al_free = ll_free_function r, al_copy = ll_copy_function r\<rparr>)) (drop_iters l I)"
    by (rule ll_rep_unlink [OF P l us]) (use h' nb ne u in auto)
  then show ?thesis using h' by (auto simp: M L xs)
qed

text \<open>Removal from an empty list, and removal that has nobody to hand the pointer to.\<close>

lemma list_at_rep:
  assumes "ll_rep h M I" and "M l = Some L"
  obtains r where "lists h l = Some r" and "ll_size r = of_nat (length (al_items L))"
    and "length (al_items L) \<le> block_limit" and "ll_free_function r = al_free L"
    and "ll_copy_function r = al_copy L" and "ll_head_guard r \<noteq> NULL" and "ll_tail_guard r \<noteq> NULL"
proof -
  obtain P r g xs t where P: "ll_inv (nodes h) (lists h) (iters h) (ticks (arena h)) P"
    and "iters_ok (iters h) P I" "M = ll_abs (lists h) P"
    and l: "lists h l = Some r" "P l = Some (Shape g xs t)"
    and L: "L = \<lparr>al_items = map snd xs, al_free = ll_free_function r, al_copy = ll_copy_function r\<rparr>"
    and ok: "list_ok (nodes h) r (Shape g xs t)"
    by (rule ll_repE [OF assms])
  show thesis
    by (rule that [OF l(1)]) (use ok list_ok_length [OF P ok] in \<open>auto simp: L list_ok_def\<close>)
qed

lemma is_empty_spec:
  assumes "ll_rep h M I" and "M l = Some L"
  shows "generic_linked_list_is_empty (Some l) h = Some (if al_items L = [] then 1 else 0)"
proof -
  obtain r where "lists h l = Some r" "ll_size r = of_nat (length (al_items L))"
    "length (al_items L) \<le> block_limit"
    by (rule list_at_rep [OF assms])
  then show ?thesis
    using of_nat_eq_0_size_t by (simp add: generic_linked_list_is_empty_def heap_simps)
qed

lemma size_spec:
  assumes "ll_rep h M I" and "M l = Some L"
  shows "generic_linked_list_size (Some l) (Some v) h = Some (0, Some (of_nat (length (al_items L))))"
    and "length (al_items L) \<le> block_limit"
proof -
  obtain r where "lists h l = Some r" "ll_size r = of_nat (length (al_items L))"
    and "length (al_items L) \<le> block_limit"
    by (rule list_at_rep [OF assms])
  then show "generic_linked_list_size (Some l) (Some v) h = Some (0, Some (of_nat (length (al_items L))))"
    and "length (al_items L) \<le> block_limit"
    by (simp_all add: generic_linked_list_size_def heap_simps)
qed

lemma remove_empty:
  assumes "ll_rep h M I" and "M l = Some L" and "al_items L = []"
  shows "generic_linked_list_remove_first (Some l) out h = Some (0, map_option (\<lambda>_. NULL) out, h)"
    and "generic_linked_list_remove_last (Some l) out h = Some (0, map_option (\<lambda>_. NULL) out, h)"
proof -
  obtain r where "lists h l = Some r" "ll_size r = of_nat (length (al_items L))"
    by (rule list_at_rep [OF assms(1,2)])
  then show "generic_linked_list_remove_first (Some l) out h = Some (0, map_option (\<lambda>_. NULL) out, h)"
    and "generic_linked_list_remove_last (Some l) out h = Some (0, map_option (\<lambda>_. NULL) out, h)"
    using assms(3)
    by (simp_all add: generic_linked_list_remove_first_def generic_linked_list_remove_last_def heap_simps)
qed

lemma remove_nobody:
  assumes "ll_rep h M I" and "M l = Some L" and "al_items L \<noteq> []" and "al_free L = NULL"
  shows "generic_linked_list_remove_first (Some l) NULL h = Some (1, NULL, h)"
    and "generic_linked_list_remove_last (Some l) NULL h = Some (1, NULL, h)"
proof -
  obtain r where r: "lists h l = Some r" "ll_size r = of_nat (length (al_items L))"
    "length (al_items L) \<le> block_limit" "ll_free_function r = al_free L"
    by (rule list_at_rep [OF assms(1,2)])
  moreover from r(2,3) assms(3) have "ll_size r \<noteq> 0" using of_nat_eq_0_size_t by simp
  ultimately show "generic_linked_list_remove_first (Some l) NULL h = Some (1, NULL, h)"
    and "generic_linked_list_remove_last (Some l) NULL h = Some (1, NULL, h)"
    using assms(4)
    by (simp_all add: generic_linked_list_remove_first_def generic_linked_list_remove_last_def heap_simps)
qed

text \<open>The setters and getters of the callbacks.\<close>

lemma iters_ok_same:
  "iters_ok J P I \<Longrightarrow> P l = Some s \<Longrightarrow> iters_ok J (P(l \<mapsto> s)) I"
  by (metis fun_upd_triv)

lemma set_function_rep:
  assumes rep: "ll_rep h M I" "M l = Some L" and "lists h l = Some r"
    and r': "ll_size r' = ll_size r" "ll_head_guard r' = ll_head_guard r" "ll_tail_guard r' = ll_tail_guard r"
  shows "ll_rep (h\<lparr>lists := (lists h)(l \<mapsto> r')\<rparr>) (M(l \<mapsto> \<lparr>al_items = al_items L,
           al_free = ll_free_function r', al_copy = ll_copy_function r'\<rparr>)) I"
proof -
  obtain P q g xs t where P: "ll_inv (nodes h) (lists h) (iters h) (ticks (arena h)) P"
    "iters_ok (iters h) P I" and M: "M = ll_abs (lists h) P"
    and l: "lists h l = Some q" "P l = Some (Shape g xs t)"
    and L: "L = \<lparr>al_items = map snd xs, al_free = ll_free_function q, al_copy = ll_copy_function q\<rparr>"
    and ok: "list_ok (nodes h) q (Shape g xs t)"
    by (rule ll_repE [OF rep])
  let ?h = "h\<lparr>lists := (lists h)(l \<mapsto> r')\<rparr>"
  have "list_ok (nodes h) r' (Shape g xs t)"
    using ok l assms(3) r' by (simp add: list_ok_def)
  then have "ll_inv (nodes h) ((lists h)(l \<mapsto> r')) (iters h) (ticks (arena h)) (P(l \<mapsto> Shape g xs t))"
    by (rule ll_inv_update [OF P(1) l]) (use l(2) P(1) in \<open>auto dest: ll_inv_nodes\<close>)
  moreover have "iters_ok (iters h) (P(l \<mapsto> Shape g xs t)) I"
    using P(2) l(2) by (rule iters_ok_same)
  moreover have "ll_abs (lists ?h) (P(l \<mapsto> Shape g xs t)) = M(l \<mapsto> \<lparr>al_items = al_items L,
           al_free = ll_free_function r', al_copy = ll_copy_function r'\<rparr>)"
    by (auto simp: M L ll_abs_def fun_eq_iff split: option.split)
  ultimately show ?thesis
    unfolding ll_rep_def by (intro exI [of _ "P(l \<mapsto> Shape g xs t)"]) simp
qed

lemma set_free_function_spec:
  assumes rep: "ll_rep h M I" "M l = Some L"
  shows "\<exists>h'. generic_linked_list_set_free_function (Some l) f h = Some (0, h')
    \<and> ll_rep h' (M(l \<mapsto> L\<lparr>al_free := f\<rparr>)) I
    \<and> world h' = world h \<and> arena h' = arena h \<and> iters h' = iters h \<and> same_frame h h'"
proof -
  obtain r where r: "lists h l = Some r" "ll_copy_function r = al_copy L"
    by (rule list_at_rep [OF rep])
  from set_function_rep [OF rep r(1), of "r\<lparr>ll_free_function := f\<rparr>"] r show ?thesis
    by (cases L) (simp add: generic_linked_list_set_free_function_def heap_simps)
qed

lemma set_copy_function_spec:
  assumes rep: "ll_rep h M I" "M l = Some L"
  shows "\<exists>h'. generic_linked_list_set_copy_function (Some l) f h = Some (0, h')
    \<and> ll_rep h' (M(l \<mapsto> L\<lparr>al_copy := f\<rparr>)) I
    \<and> world h' = world h \<and> arena h' = arena h \<and> iters h' = iters h \<and> same_frame h h'"
proof -
  obtain r where r: "lists h l = Some r" "ll_free_function r = al_free L"
    by (rule list_at_rep [OF rep])
  from set_function_rep [OF rep r(1), of "r\<lparr>ll_copy_function := f\<rparr>"] r show ?thesis
    by (cases L) (simp add: generic_linked_list_set_copy_function_def heap_simps)
qed

lemma get_function_spec:
  assumes rep: "ll_rep h M I" "M l = Some L"
  shows "generic_linked_list_get_free_function (Some l) (Some v) h = Some (0, Some (al_free L))"
    and "generic_linked_list_get_copy_function (Some l) (Some c) h = Some (0, Some (al_copy L))"
proof -
  obtain r where r: "lists h l = Some r" "ll_free_function r = al_free L" "ll_copy_function r = al_copy L"
    by (rule list_at_rep [OF rep])
  then show "generic_linked_list_get_free_function (Some l) (Some v) h = Some (0, Some (al_free L))"
    and "generic_linked_list_get_copy_function (Some l) (Some c) h = Some (0, Some (al_copy L))"
    by (simp_all add: generic_linked_list_get_free_function_def
        generic_linked_list_get_copy_function_def heap_simps)
qed

subsection \<open>Creating and destroying lists\<close>

lemma list_ok_cong:
  "(\<And>a. a \<in> addrs s \<Longrightarrow> N' a = N a) \<Longrightarrow> list_ok N' r s \<longleftrightarrow> list_ok N r s"
  using dl_cong [of "full s" N' N] by (auto simp: list_ok_def addrs_def simp del: full.simps split: shape.splits)

lemma ll_inv_add:
  assumes inv: "ll_inv N L J n P" and l: "L l = None" "l \<in> {1..min n' block_limit}"
    and ok: "list_ok N' r s" and outside: "\<And>a. a \<notin> addrs s \<Longrightarrow> N' a = N a"
    and fresh: "addrs s \<inter> dom N = {}" "addrs s \<subseteq> {1..min n' block_limit}" and "n \<le> n'"
  shows "ll_inv N' (L(l \<mapsto> r)) J n' (P(l \<mapsto> s))"
proof -
  let ?P = "P(l \<mapsto> s)"
  have Pl: "P l = None" using ll_inv_dom [OF inv] l(1) by auto
  have others: "addrs u \<inter> addrs s = {}" if "P k = Some u" for k u
    using ll_inv_nodes [OF inv] that fresh(1) by blast
  have ok': "list_ok N' r1 s1" if "(L(l \<mapsto> r)) k = Some r1" "?P k = Some s1" for k r1 s1
  proof (cases "k = l")
    case False
    with that have k: "P k = Some s1" "L k = Some r1" by auto
    have "list_ok N' r1 s1 \<longleftrightarrow> list_ok N r1 s1"
      using others [OF k(1)] by (intro list_ok_cong outside) blast
    then show ?thesis using ll_inv_ok [OF inv k(2,1)] by simp
  qed (use that ok in simp)
  have disj: "addrs s1 \<inter> addrs s2 = {}" if "?P k = Some s1" "?P k' = Some s2" "k \<noteq> k'" for k k' s1 s2
    using that others [of k s1] others [of k' s2] ll_inv_disj [OF inv, of k s1 k' s2]
    by (cases "k = l"; cases "k' = l") auto
  have s: "addrs s \<subseteq> dom N'"
    using ok dl_in_dom [of N' NULL "full s" NULL]
    by (auto simp: list_ok_def addrs_def simp del: full.simps split: shape.splits)
  have nodes': "a \<in> dom N' \<longleftrightarrow> (\<exists>k u. ?P k = Some u \<and> a \<in> addrs u)" for a
  proof (cases "a \<in> addrs s")
    case True
    with s show ?thesis by auto
  next
    case False
    with outside [of a] have "a \<in> dom N' \<longleftrightarrow> a \<in> dom N" by (simp add: dom_def)
    also have "\<dots> \<longleftrightarrow> (\<exists>k u. ?P k = Some u \<and> a \<in> addrs u)"
      unfolding ll_inv_nodes [OF inv, of a] using False Pl
      by (metis fun_upd_apply option.distinct(1) option.inject)
    finally show ?thesis .
  qed
  have "dom N' \<subseteq> dom N \<union> addrs s" using outside by (metis UnI1 UnI2 domIff subsetI)
  then have "dom N' \<union> dom (L(l \<mapsto> r)) \<union> dom J \<subseteq> {1..min n' block_limit}"
    using ll_inv_bound [OF inv] l(2) fresh(2) \<open>n \<le> n'\<close> by (auto 0 3)
  moreover have "dom ?P = dom (L(l \<mapsto> r))" using ll_inv_dom [OF inv] by simp
  ultimately show ?thesis
    unfolding ll_inv_def using ok' disj nodes' by (intro conjI allI impI) (blast | simp)+
qed

lemma ll_inv_remove:
  assumes inv: "ll_inv N L J n P" and l: "P l = Some s"
  shows "ll_inv (N |` (- addrs s)) (L(l := None)) J n (P(l := None))"
proof -
  let ?P = "P(l := None)" and ?N = "N |` (- addrs s)"
  have others: "addrs u \<inter> addrs s = {}" if "P k = Some u" "k \<noteq> l" for k u
    using ll_inv_disj [OF inv that(1) l that(2)] .
  have ok': "list_ok ?N r1 s1" if "(L(l := None)) k = Some r1" "?P k = Some s1" for k r1 s1
  proof -
    from that have k: "P k = Some s1" "L k = Some r1" "k \<noteq> l" by (auto split: if_splits)
    have "list_ok ?N r1 s1 \<longleftrightarrow> list_ok N r1 s1"
      using others [OF k(1,3)] by (intro list_ok_cong) (auto simp: restrict_map_def)
    then show ?thesis using ll_inv_ok [OF inv k(2,1)] by simp
  qed
  have disj: "addrs s1 \<inter> addrs s2 = {}" if "?P k = Some s1" "?P k' = Some s2" "k \<noteq> k'" for k k' s1 s2
    using that ll_inv_disj [OF inv, of k s1 k' s2] by (auto split: if_splits)
  have nodes': "a \<in> dom ?N \<longleftrightarrow> (\<exists>k u. ?P k = Some u \<and> a \<in> addrs u)" for a
  proof -
    have "a \<in> dom ?N \<longleftrightarrow> a \<in> dom N \<and> a \<notin> addrs s" by auto
    also have "\<dots> \<longleftrightarrow> (\<exists>k u. k \<noteq> l \<and> P k = Some u \<and> a \<in> addrs u)"
    proof -
      have "a \<notin> addrs s" if "k \<noteq> l" "P k = Some u" "a \<in> addrs u" for k u
        using others [OF that(2,1)] that(3) by blast
      then show ?thesis
        unfolding ll_inv_nodes [OF inv, of a] using l by (metis option.inject)
    qed
    finally show ?thesis by auto
  qed
  have "dom ?N \<union> dom (L(l := None)) \<union> dom J \<subseteq> {1..min n block_limit}"
    using ll_inv_bound [OF inv] by auto
  moreover have "dom ?P = dom (L(l := None))" using ll_inv_dom [OF inv] by simp
  ultimately show ?thesis
    unfolding ll_inv_def using ok' disj nodes' by (intro conjI allI impI) (blast | simp)+
qed

lemma iters_ok_add: "iters_ok J P I \<Longrightarrow> P l = None \<Longrightarrow> iters_ok J (P(l \<mapsto> s)) I"
  by (fastforce simp: iters_ok_def)

lemma iters_ok_remove: "iters_ok J P I \<Longrightarrow> iters_ok J (P(l := None)) (drop_iters l I)"
  by (fastforce simp: iters_ok_def drop_iters_def split: option.splits if_splits)

lemma new_spec:
  fixes h :: "('d, 'w, 'z) llh"
  assumes rep: "ll_rep h M I" and granted: "grants 3 (arena h)"
  shows "\<exists>h' l. generic_linked_list_new (Some v) h = Some (0, Some (Some l), h')
    \<and> M l = None \<and> ll_rep h' (M(l \<mapsto> \<lparr>al_items = [], al_free = NULL, al_copy = NULL\<rparr>)) I
    \<and> world h' = world h \<and> arena h' = (tick ^^ 3) (arena h) \<and> iters h' = iters h \<and> same_frame h h'"
proof -
  obtain P where P: "ll_inv (nodes h) (lists h) (iters h) (ticks (arena h)) P"
    "iters_ok (iters h) P I" and M: "M = ll_abs (lists h) P"
    using rep by (auto simp: ll_rep_def)
  define l where "l = Suc (ticks (arena h))"
  note fresh = ll_inv_fresh [OF P(1)]
  have granted': "\<not> refused (arena h)" "\<not> refused (tick (arena h))" "\<not> refused (tick (tick (arena h)))"
    using granted by (simp_all add: numeral_3_eq_3 grants_Suc)
  define r :: "('d, 'w) generic_linked_list_t" where "r = \<lparr>ll_size = 0, ll_head_guard = Some (Suc l), ll_tail_guard = Some (Suc (Suc l)),
    ll_free_function = NULL, ll_copy_function = NULL\<rparr>"
  obtain h' where h': "generic_linked_list_new (Some v) h = Some (0, Some (Some l), h')"
    "nodes h' = (nodes h)(Suc l \<mapsto> \<lparr>node_data = NULL, node_next = Some (Suc (Suc l)), node_prev = NULL\<rparr>,
        Suc (Suc l) \<mapsto> \<lparr>node_data = NULL, node_next = NULL, node_prev = Some (Suc l)\<rparr>)"
    "lists h' = (lists h)(l \<mapsto> r)" "iters h' = iters h"
    "arena h' = (tick ^^ 3) (arena h)" "world h' = world h" "same_frame h h'"
    using granted'
    by (auto simp: generic_linked_list_new_def malloc_list_def heap_simps l_def r_def
      eval_nat_numeral fun_upd_twist intro!: that)
  have "list_ok (nodes h') r (Shape (Suc l) [] (Suc (Suc l)))"
    by (simp add: list_ok_def h' r_def)
  moreover have "ticks (arena h') = Suc (Suc (Suc (ticks (arena h))))"
    by (simp add: h' eval_nat_numeral)
  moreover have "Suc (Suc l) \<le> block_limit"
    using granted' by (simp add: refused_def l_def)
  ultimately have "ll_inv (nodes h') (lists h') (iters h') (ticks (arena h'))
      (P(l \<mapsto> Shape (Suc l) [] (Suc (Suc l))))"
    unfolding h'(3,4)
    by (intro ll_inv_add [OF P(1)]) (auto simp: h' l_def fresh)
  moreover have Pl: "P l = None" using ll_inv_dom [OF P(1)] fresh(2) [of l] by (auto simp: l_def)
  moreover have "iters_ok (iters h') (P(l \<mapsto> Shape (Suc l) [] (Suc (Suc l)))) I"
    unfolding h'(4) using P(2) Pl by (rule iters_ok_add)
  moreover have "ll_abs (lists h') (P(l \<mapsto> Shape (Suc l) [] (Suc (Suc l))))
      = M(l \<mapsto> \<lparr>al_items = [], al_free = NULL, al_copy = NULL\<rparr>)"
    by (auto simp: M h' r_def ll_abs_def fun_eq_iff split: option.split)
  ultimately have "ll_rep h' (M(l \<mapsto> \<lparr>al_items = [], al_free = NULL, al_copy = NULL\<rparr>)) I"
    unfolding ll_rep_def by (intro exI [of _ "P(l \<mapsto> Shape (Suc l) [] (Suc (Suc l)))"]) simp
  moreover have "M l = None" using Pl by (simp add: M ll_abs_def split: option.split)
  ultimately show ?thesis using h' by (intro exI [of _ h'] exI [of _ l]) simp
qed

text \<open>A refused request leaves no block behind.\<close>

lemma new_refused:
  assumes rep: "ll_rep h M I"
    and "refused (arena h) \<or> refused (tick (arena h)) \<or> refused (tick (tick (arena h)))"
  shows "\<exists>h'. generic_linked_list_new (Some v) h = Some (-1, Some NULL, h')
    \<and> ll_rep h' M I \<and> nodes h' = nodes h \<and> lists h' = lists h \<and> world h' = world h
    \<and> iters h' = iters h \<and> ticks (arena h) \<le> ticks (arena h') \<and> same_frame h h'"
proof -
  obtain P where P: "ll_inv (nodes h) (lists h) (iters h) (ticks (arena h)) P"
    using rep by (auto simp: ll_rep_def)
  note fresh = ll_inv_fresh [OF P]
  obtain h' where h': "generic_linked_list_new (Some v) h = Some (-1, Some NULL, h')"
    "nodes h' = nodes h" "lists h' = lists h" "iters h' = iters h"
    "ticks (arena h) \<le> ticks (arena h')" "world h' = world h" "same_frame h h'"
    using assms(2) fresh
    by (cases "refused (arena h)"; cases "refused (tick (arena h))"; cases "refused (tick (tick (arena h)))")
      (auto simp: generic_linked_list_new_def malloc_list_def heap_simps fun_upd_idem_iff intro!: that)
  with ll_rep_cong [OF rep, of h'] show ?thesis by auto
qed

lemma world_update_idem [simp]: "h\<lparr>world := world h\<rparr> = (h :: ('d, 'w, 'z) llh)"
  by (cases h) simp

text \<open>The loop of the destructor frees every node and runs the callback in list order.\<close>

lemma ll_free_loop_eq:
  assumes "dl (nodes h) p xs (Some t)" and "distinct (map fst xs)" and "t \<notin> fst ` set xs"
    and "free_all fr (map snd xs) (world h) = Some w"
  shows "ll_free_loop fr (Some t) (first_addr xs (Some t)) h
    = Some (h\<lparr>world := w, nodes := nodes h |` (- fst ` set xs)\<rparr>)"
  using assms
proof (induction xs arbitrary: h p)
  case Nil
  then show ?case by (simp add: ll_free_loop.simps)
next
  case (Cons x xs)
  obtain w1 where w1: "(case fr of NULL \<Rightarrow> Some (world h)
      | Some f \<Rightarrow> if snd x = NULL then Some (world h) else f (snd x) (world h)) = Some w1"
    "free_all fr (map snd xs) w1 = Some w"
    using Cons.prems(4) by (auto simp: bind_eq_Some_conv)
  let ?h = "h\<lparr>world := w1, nodes := (nodes h)(fst x := None)\<rparr>"
  have "dl (nodes ?h) (Some (fst x)) xs (Some t) \<longleftrightarrow> dl (nodes h) (Some (fst x)) xs (Some t)"
    by (rule dl_cong) (use Cons.prems(2) in \<open>auto del: imageE\<close>)
  with Cons.prems(1) have "dl (nodes ?h) (Some (fst x)) xs (Some t)" by simp
  then have "ll_free_loop fr (Some t) (first_addr xs (Some t)) ?h
    = Some (?h\<lparr>world := w, nodes := nodes ?h |` (- fst ` set xs)\<rparr>)"
    by (rule Cons.IH) (use Cons.prems w1 in auto)
  moreover have "nodes ?h |` (- fst ` set xs) = nodes h |` (- fst ` set (x # xs))"
    by (auto simp: restrict_map_def)
  ultimately show ?case
    using Cons.prems(1,3) w1(1)
    by (subst ll_free_loop.simps) (auto simp: heap_simps split: option.splits if_splits)
qed

lemma free_spec:
  assumes rep: "ll_rep h M I" "M l = Some L" and w: "free_all (al_free L) (al_items L) (world h) = Some w"
  shows "\<exists>h'. generic_linked_list_free (Some l) h = Some (0, h')
    \<and> ll_rep h' (M(l := None)) (drop_iters l I)
    \<and> world h' = w \<and> arena h' = arena h \<and> iters h' = iters h \<and> same_frame h h'"
proof -
  obtain P r g xs t where P: "ll_inv (nodes h) (lists h) (iters h) (ticks (arena h)) P"
    "iters_ok (iters h) P I" and M: "M = ll_abs (lists h) P"
    and l: "lists h l = Some r" "P l = Some (Shape g xs t)"
    and L: "L = \<lparr>al_items = map snd xs, al_free = ll_free_function r, al_copy = ll_copy_function r\<rparr>"
    and ok: "list_ok (nodes h) r (Shape g xs t)"
    by (rule ll_repE [OF rep])
  have r: "ll_head_guard r = Some g" "ll_tail_guard r = Some t"
    and g: "nodes h g = Some \<lparr>node_data = NULL, node_next = first_addr xs (Some t), node_prev = NULL\<rparr>"
    and t: "nodes h t \<noteq> None" and d: "dl (nodes h) (Some g) xs (Some t)"
    and dist: "distinct (map fst xs)" "t \<notin> fst ` set xs" "g \<notin> fst ` set xs" "g \<noteq> t"
    using ok by (auto simp: list_ok_def)
  have loop: "ll_free_loop (ll_free_function r) (Some t) (first_addr xs (Some t)) h
    = Some (h\<lparr>world := w, nodes := nodes h |` (- fst ` set xs)\<rparr>)"
    by (rule ll_free_loop_eq [OF d dist(1,2)]) (use w in \<open>simp add: L\<close>)
  obtain h' where h': "generic_linked_list_free (Some l) h = Some (0, h')"
    "nodes h' = nodes h |` (- addrs (Shape g xs t))"
    "lists h' = (lists h)(l := None)" "iters h' = iters h"
    "arena h' = arena h" "world h' = w" "same_frame h h'"
    using l(1) r g t dist
    by (auto simp: generic_linked_list_free_def heap_simps loop restrict_map_def fun_eq_iff intro!: that)
  have "ll_inv (nodes h') (lists h') (iters h') (ticks (arena h')) (P(l := None))"
    unfolding h'(2-5) by (rule ll_inv_remove [OF P(1) l(2)])
  moreover have "iters_ok (iters h') (P(l := None)) (drop_iters l I)"
    unfolding h'(4) by (rule iters_ok_remove [OF P(2)])
  moreover have "M(l := None) = ll_abs (lists h') (P(l := None))"
    by (auto simp: M h' ll_abs_def fun_eq_iff split: option.split)
  ultimately show ?thesis using h' unfolding ll_rep_def by blast
qed

lemma ll_rep_empty:
  assumes "ll_rep h Map.empty I"
  shows "nodes h = Map.empty" and "lists h = Map.empty"
proof -
  obtain P where P: "ll_inv (nodes h) (lists h) (iters h) (ticks (arena h)) P" and abs: "ll_abs (lists h) P = Map.empty"
    using assms by (auto simp: ll_rep_def)
  have "lists h l = None" for l
    using fun_cong [OF abs, of l] ll_inv_dom [OF P] by (auto simp: ll_abs_def split: option.splits)
  then show lists: "lists h = Map.empty" by blast
  have "P = Map.empty" using ll_inv_dom [OF P] lists by simp
  then show "nodes h = Map.empty" using ll_inv_nodes [OF P] by (auto simp: fun_eq_iff dom_def)
qed

end
