(* ===== verification/List_Iterator.thy ===== *)
theory List_Iterator
  imports Linked_List
begin

text \<open>
  The iterators of \<^verbatim>\<open>src/generic_linked_list.c\<close>: one definition per function, and
  specifications in terms of positions.  Position 0 is the head guard, positions 1 to \<open>n\<close>
  are the stored pointers of a list of length \<open>n\<close>, position \<open>n + 1\<close> is the tail guard.
\<close>

section \<open>The iterator functions\<close>

definition generic_linked_list_iterator_begin ::
  "addr ptr \<Rightarrow> addr ptr out \<Rightarrow> ('d, 'w, 'z) llh
     \<Rightarrow> (exit_code \<times> addr ptr out \<times> ('d, 'w, 'z) llh) option" where
  "generic_linked_list_iterator_begin ll out_self h =
     (if ll = NULL then Some (1, out_self, h)
      else if out_self = NULL then Some (1, out_self, h)
      else do {
        let (self, h) = malloc_iter h;
        if self = NULL then Some (-1, out_self, h)
        else do {
          l \<leftarrow> list_at h ll;
          g \<leftarrow> node_at h (ll_head_guard l);
          h \<leftarrow> modify_iter self (\<lambda>i. i\<lparr>it_list := ll, it_current_node := node_next g\<rparr>) h;
          Some (0, Some self, h) } })"

definition generic_linked_list_iterator_end ::
  "addr ptr \<Rightarrow> addr ptr out \<Rightarrow> ('d, 'w, 'z) llh
     \<Rightarrow> (exit_code \<times> addr ptr out \<times> ('d, 'w, 'z) llh) option" where
  "generic_linked_list_iterator_end ll out_self h =
     (if ll = NULL then Some (1, out_self, h)
      else if out_self = NULL then Some (1, out_self, h)
      else do {
        let (self, h) = malloc_iter h;
        if self = NULL then Some (-1, out_self, h)
        else do {
          l \<leftarrow> list_at h ll;
          h \<leftarrow> modify_iter self (\<lambda>i. i\<lparr>it_list := ll, it_current_node := ll_tail_guard l\<rparr>) h;
          Some (0, Some self, h) } })"

definition generic_linked_list_iterator_reverse_begin ::
  "addr ptr \<Rightarrow> addr ptr out \<Rightarrow> ('d, 'w, 'z) llh
     \<Rightarrow> (exit_code \<times> addr ptr out \<times> ('d, 'w, 'z) llh) option" where
  "generic_linked_list_iterator_reverse_begin ll out_self h =
     (if out_self = NULL then Some (1, out_self, h)
      else if ll = NULL then Some (1, out_self, h)
      else do {
        let (self, h) = malloc_iter h;
        if self = NULL then Some (-1, out_self, h)
        else do {
          l \<leftarrow> list_at h ll;
          t \<leftarrow> node_at h (ll_tail_guard l);
          h \<leftarrow> modify_iter self (\<lambda>i. i\<lparr>it_list := ll, it_current_node := node_prev t\<rparr>) h;
          Some (0, Some self, h) } })"

definition generic_linked_list_iterator_reverse_end ::
  "addr ptr \<Rightarrow> addr ptr out \<Rightarrow> ('d, 'w, 'z) llh
     \<Rightarrow> (exit_code \<times> addr ptr out \<times> ('d, 'w, 'z) llh) option" where
  "generic_linked_list_iterator_reverse_end ll out_self h =
     (if out_self = NULL then Some (1, out_self, h)
      else if ll = NULL then Some (1, out_self, h)
      else do {
        let (self, h) = malloc_iter h;
        if self = NULL then Some (-1, out_self, h)
        else do {
          l \<leftarrow> list_at h ll;
          h \<leftarrow> modify_iter self (\<lambda>i. i\<lparr>it_list := ll, it_current_node := ll_head_guard l\<rparr>) h;
          Some (0, Some self, h) } })"

definition generic_linked_list_iterator_free ::
  "addr ptr \<Rightarrow> ('d, 'w, 'z) llh \<Rightarrow> (exit_code, ('d, 'w, 'z) llh) res" where
  "generic_linked_list_iterator_free self h =
     (if self = NULL then Some (1, h)
      else do {
        h \<leftarrow> free_iter self h;
        Some (0, h) })"

definition generic_linked_list_iterator_get ::
  "addr ptr \<Rightarrow> 'd ptr out \<Rightarrow> ('d, 'w, 'z) llh \<Rightarrow> (exit_code \<times> 'd ptr out) option" where
  "generic_linked_list_iterator_get self out_data h =
     (if self = NULL then Some (1, out_data)
      else if out_data = NULL then Some (1, out_data)
      else do {
        i \<leftarrow> iter_at h self;
        l \<leftarrow> list_at h (it_list i);
        if it_current_node i = ll_head_guard l \<or> it_current_node i = ll_tail_guard l
        then Some (1, Some NULL)
        else do {
          n \<leftarrow> node_at h (it_current_node i);
          Some (0, Some (node_data n)) } })"

definition generic_linked_list_iterator_next ::
  "addr ptr \<Rightarrow> ('d, 'w, 'z) llh \<Rightarrow> (exit_code, ('d, 'w, 'z) llh) res" where
  "generic_linked_list_iterator_next self h =
     (if self = NULL then Some (1, h)
      else do {
        i \<leftarrow> iter_at h self;
        l \<leftarrow> list_at h (it_list i);
        if it_current_node i = ll_tail_guard l then Some (1, h)
        else do {
          n \<leftarrow> node_at h (it_current_node i);
          h \<leftarrow> modify_iter self (\<lambda>i. i\<lparr>it_current_node := node_next n\<rparr>) h;
          Some (0, h) } })"

definition generic_linked_list_iterator_prev ::
  "addr ptr \<Rightarrow> ('d, 'w, 'z) llh \<Rightarrow> (exit_code, ('d, 'w, 'z) llh) res" where
  "generic_linked_list_iterator_prev self h =
     (if self = NULL then Some (1, h)
      else do {
        i \<leftarrow> iter_at h self;
        l \<leftarrow> list_at h (it_list i);
        if it_current_node i = ll_head_guard l then Some (1, h)
        else do {
          n \<leftarrow> node_at h (it_current_node i);
          h \<leftarrow> modify_iter self (\<lambda>i. i\<lparr>it_current_node := node_prev n\<rparr>) h;
          Some (0, h) } })"

definition generic_linked_list_iterator_is_end ::
  "addr ptr \<Rightarrow> ('d, 'w, 'z) llh \<Rightarrow> exit_code option" where
  "generic_linked_list_iterator_is_end self h =
     (if self = NULL then Some 1
      else do {
        i \<leftarrow> iter_at h self;
        l \<leftarrow> list_at h (it_list i);
        Some (if it_current_node i = ll_tail_guard l then 0 else 1) })"

definition generic_linked_list_iterator_is_begin ::
  "addr ptr \<Rightarrow> ('d, 'w, 'z) llh \<Rightarrow> exit_code option" where
  "generic_linked_list_iterator_is_begin self h =
     (if self = NULL then Some 1
      else do {
        i \<leftarrow> iter_at h self;
        l \<leftarrow> list_at h (it_list i);
        Some (if it_current_node i = ll_head_guard l then 0 else 1) })"

definition generic_linked_list_iterator_is_valid ::
  "addr ptr \<Rightarrow> ('d, 'w, 'z) llh \<Rightarrow> exit_code option" where
  "generic_linked_list_iterator_is_valid self h =
     (if self = NULL then Some 1
      else do {
        i \<leftarrow> iter_at h self;
        l \<leftarrow> list_at h (it_list i);
        Some (if it_current_node i = ll_head_guard l \<or> it_current_node i = ll_tail_guard l
              then 1 else 0) })"

text \<open>The loops \<open>while (i < n && self->_current_node != guard)\<close> of the two advances.\<close>

partial_function (option) advance_loop ::
  "addr ptr \<Rightarrow> size_t \<Rightarrow> size_t \<Rightarrow> ('d, 'w, 'z) llh \<Rightarrow> ('d, 'w, 'z) llh option" where
  "advance_loop self i n h = do {
     it \<leftarrow> iter_at h self;
     l \<leftarrow> list_at h (it_list it);
     if i < n \<and> it_current_node it \<noteq> ll_tail_guard l
     then do {
       nd \<leftarrow> node_at h (it_current_node it);
       h \<leftarrow> modify_iter self (\<lambda>it. it\<lparr>it_current_node := node_next nd\<rparr>) h;
       advance_loop self (i + 1) n h }
     else Some h }"

definition generic_linked_list_iterator_advance ::
  "addr ptr \<Rightarrow> size_t \<Rightarrow> ('d, 'w, 'z) llh \<Rightarrow> (exit_code, ('d, 'w, 'z) llh) res" where
  "generic_linked_list_iterator_advance self n h =
     (if self = NULL then Some (1, h)
      else do {
        h \<leftarrow> advance_loop self 0 n h;
        Some (0, h) })"

partial_function (option) reverse_advance_loop ::
  "addr ptr \<Rightarrow> size_t \<Rightarrow> size_t \<Rightarrow> ('d, 'w, 'z) llh \<Rightarrow> ('d, 'w, 'z) llh option" where
  "reverse_advance_loop self i n h = do {
     it \<leftarrow> iter_at h self;
     l \<leftarrow> list_at h (it_list it);
     if i < n \<and> it_current_node it \<noteq> ll_head_guard l
     then do {
       nd \<leftarrow> node_at h (it_current_node it);
       h \<leftarrow> modify_iter self (\<lambda>it. it\<lparr>it_current_node := node_prev nd\<rparr>) h;
       reverse_advance_loop self (i + 1) n h }
     else Some h }"

definition generic_linked_list_iterator_reverse_advance ::
  "addr ptr \<Rightarrow> size_t \<Rightarrow> ('d, 'w, 'z) llh \<Rightarrow> (exit_code, ('d, 'w, 'z) llh) res" where
  "generic_linked_list_iterator_reverse_advance self n h =
     (if self = NULL then Some (1, h)
      else do {
        h \<leftarrow> reverse_advance_loop self 0 n h;
        Some (0, h) })"

definition generic_linked_list_iterator_remove ::
  "addr ptr \<Rightarrow> 'd ptr out \<Rightarrow> ('d, 'w, 'z) llh
     \<Rightarrow> (exit_code \<times> 'd ptr out \<times> ('d, 'w, 'z) llh) option" where
  "generic_linked_list_iterator_remove self out_data h =
     (if self = NULL then Some (1, out_data, h)
      else do {
        i \<leftarrow> iter_at h self;
        l \<leftarrow> list_at h (it_list i);
        if it_current_node i = ll_head_guard l \<or> it_current_node i = ll_tail_guard l
        then Some (1, out_data, h)
        else if out_data = NULL \<and> ll_free_function l = NULL then Some (1, out_data, h)
        else do {
          let to_remove = it_current_node i;
          n \<leftarrow> node_at h to_remove;
          let next_node = node_next n;
          (out_data, h) \<leftarrow> ll_hand_over (ll_free_function l) (node_data n) out_data h;
          h \<leftarrow> modify_node (node_prev n) (\<lambda>m. m\<lparr>node_next := node_next n\<rparr>) h;
          n \<leftarrow> node_at h to_remove;
          h \<leftarrow> modify_node (node_next n) (\<lambda>m. m\<lparr>node_prev := node_prev n\<rparr>) h;
          h \<leftarrow> free_node to_remove h;
          h \<leftarrow> modify_list (it_list i) (\<lambda>l. l\<lparr>ll_size := ll_size l - 1\<rparr>) h;
          h \<leftarrow> modify_iter self (\<lambda>i. i\<lparr>it_current_node := next_node\<rparr>) h;
          Some (0, out_data, h) } })"

text \<open>
  The loop of the distance: \<open>None\<close> in the inner option is the return with code 1 when the
  tail guard is met first.
\<close>

partial_function (option) distance_loop ::
  "('d, 'w, 'z) llh \<Rightarrow> ('d, 'w) generic_linked_list_t \<Rightarrow> addr ptr \<Rightarrow> size_t \<Rightarrow> addr ptr
     \<Rightarrow> size_t option option" where
  "distance_loop h l stop distance current =
     (if current \<noteq> NULL \<and> current \<noteq> stop
      then (if current = ll_tail_guard l then Some None
            else do {
              n \<leftarrow> node_at h current;
              distance_loop h l stop
                (if current \<noteq> ll_head_guard l then distance + 1 else distance) (node_next n) })
      else Some (Some distance))"

definition generic_linked_list_iterator_distance ::
  "addr ptr \<Rightarrow> addr ptr \<Rightarrow> size_t out \<Rightarrow> ('d, 'w, 'z) llh \<Rightarrow> (exit_code \<times> size_t out) option" where
  "generic_linked_list_iterator_distance it_begin it_end out_distance h =
     (if it_begin = NULL then Some (1, out_distance)
      else if it_end = NULL then Some (1, out_distance)
      else if out_distance = NULL then Some (1, out_distance)
      else do {
        b \<leftarrow> iter_at h it_begin;
        e \<leftarrow> iter_at h it_end;
        if it_list b \<noteq> it_list e then Some (1, out_distance)
        else do {
          l \<leftarrow> list_at h (it_list b);
          r \<leftarrow> distance_loop h l (it_current_node e) 0 (it_current_node b);
          (case r of None \<Rightarrow> Some (1, out_distance) | Some distance \<Rightarrow> Some (0, Some distance)) } })"

text \<open>The loop of the search returns the node found, or \<open>NULL\<close> when it runs to its end.\<close>

partial_function (option) find_loop ::
  "('d, 'w, 'z) llh \<Rightarrow> ('d, 'w) generic_linked_list_t \<Rightarrow> addr ptr \<Rightarrow> 'd ptr \<Rightarrow> 'd compare_fn
     \<Rightarrow> addr ptr \<Rightarrow> addr ptr option" where
  "find_loop h l stop target compare current =
     (if current \<noteq> NULL \<and> current \<noteq> stop
      then do {
        n \<leftarrow> node_at h current;
        if current = ll_head_guard l \<or> current = ll_tail_guard l
        then find_loop h l stop target compare (node_next n)
        else if compare (node_data n) target = 0 then Some current
        else find_loop h l stop target compare (node_next n) }
      else Some NULL)"

definition generic_linked_list_iterator_find ::
  "addr ptr \<Rightarrow> addr ptr \<Rightarrow> 'd ptr \<Rightarrow> 'd compare_fn ptr \<Rightarrow> addr ptr out \<Rightarrow> ('d, 'w, 'z) llh
     \<Rightarrow> (exit_code \<times> addr ptr out \<times> ('d, 'w, 'z) llh) option" where
  "generic_linked_list_iterator_find it_begin it_end target compare out_found h =
     (if it_begin = NULL then Some (1, out_found, h)
      else if it_end = NULL then Some (1, out_found, h)
      else case compare of NULL \<Rightarrow> Some (1, out_found, h)
      | Some cmp \<Rightarrow>
        if out_found = NULL then Some (1, out_found, h)
        else do {
          b \<leftarrow> iter_at h it_begin;
          e \<leftarrow> iter_at h it_end;
          if it_list b \<noteq> it_list e then Some (1, out_found, h)
          else do {
            l \<leftarrow> list_at h (it_list b);
            current \<leftarrow> find_loop h l (it_current_node e) target cmp (it_current_node b);
            let (found, h) = malloc_iter h;
            if found = NULL then Some (-1, out_found, h)
            else do {
              h \<leftarrow> modify_iter found (\<lambda>i. if current \<noteq> NULL
                     then i\<lparr>it_list := it_list b, it_current_node := current\<rparr>
                     else i\<lparr>it_list := it_list e, it_current_node := it_current_node e\<rparr>) h;
              Some (0, Some found, h) } } })"

partial_function (option) for_each_loop ::
  "('d, 'w, 'z) llh \<Rightarrow> addr ptr \<Rightarrow> addr ptr \<Rightarrow> ('d, 'w) free_fn \<Rightarrow> addr ptr \<Rightarrow> 'w \<Rightarrow> 'w option" where
  "for_each_loop h stop tail apply_fn current w =
     (if current \<noteq> NULL \<and> current \<noteq> stop \<and> current \<noteq> tail
      then do {
        n \<leftarrow> node_at h current;
        w \<leftarrow> apply_fn (node_data n) w;
        for_each_loop h stop tail apply_fn (node_next n) w }
      else Some w)"

definition generic_linked_list_iterator_for_each ::
  "addr ptr \<Rightarrow> addr ptr \<Rightarrow> ('d, 'w) free_fn ptr \<Rightarrow> ('d, 'w, 'z) llh
     \<Rightarrow> (exit_code, ('d, 'w, 'z) llh) res" where
  "generic_linked_list_iterator_for_each it_begin it_end apply_fn h =
     (if it_begin = NULL then Some (1, h)
      else if it_end = NULL then Some (1, h)
      else case apply_fn of NULL \<Rightarrow> Some (1, h)
      | Some f \<Rightarrow> do {
          b \<leftarrow> iter_at h it_begin;
          e \<leftarrow> iter_at h it_end;
          if it_list b \<noteq> it_list e then Some (1, h)
          else do {
            l \<leftarrow> list_at h (it_list e);
            w \<leftarrow> for_each_loop h (it_current_node e) (ll_tail_guard l) f (it_current_node b) (world h);
            Some (0, h\<lparr>world := w\<rparr>) } })"

section \<open>Ranges of positions\<close>

text \<open>
  The search visits the stored pointers from the first position of the range on; a range
  whose end lies before its begin is searched to the end of the list.
\<close>

definition first_match :: "'d compare_fn \<Rightarrow> 'd ptr \<Rightarrow> 'd ptr list \<Rightarrow> nat \<Rightarrow> nat \<Rightarrow> nat option" where
  "first_match cmp target items k m = List.find (\<lambda>j. cmp (items ! (j - 1)) target = 0)
     [max 1 k..<if k \<le> m then m else Suc (length items)]"

text \<open>
  A traversal applies the callback to the data of every position from the first one up to
  the second one or the tail guard; the head guard counts as a position that stores \<open>NULL\<close>.
\<close>

fun visit_all :: "('d, 'w) free_fn \<Rightarrow> 'd ptr list \<Rightarrow> 'w \<Rightarrow> 'w option" where
  "visit_all f [] w = Some w"
| "visit_all f (d # ds) w = do { w \<leftarrow> f d w; visit_all f ds w }"

definition range_items :: "'d ptr list \<Rightarrow> nat \<Rightarrow> nat \<Rightarrow> 'd ptr list" where
  "range_items items k m = map (\<lambda>j. (NULL # items) ! j) [k..<if k \<le> m then m else Suc (length items)]"

section \<open>Positions\<close>

lemma dl_nth:
  assumes "dl N p xs q" and "k < length xs"
  shows "N (fst (xs ! k)) = Some \<lparr>node_data = snd (xs ! k),
     node_next = (if Suc k < length xs then Some (fst (xs ! Suc k)) else q),
     node_prev = (if k = 0 then p else Some (fst (xs ! (k - 1))))\<rparr>"
  using assms
proof (induction xs arbitrary: p k)
  case Nil
  then show ?case by simp
next
  case (Cons x xs)
  show ?case
  proof (cases k)
    case 0
    with Cons.prems show ?thesis by (cases xs) auto
  next
    case (Suc j)
    with Cons.prems Cons.IH [of "Some (fst x)" j] show ?thesis by (cases j) auto
  qed
qed

lemma length_full [simp]: "length (full (Shape g xs t)) = Suc (Suc (length xs))"
  by simp

lemma full_nth:
  "full (Shape g xs t) ! 0 = (g, NULL)"
  "j < length xs \<Longrightarrow> full (Shape g xs t) ! Suc j = xs ! j"
  "full (Shape g xs t) ! Suc (length xs) = (t, NULL)"
  by (simp_all add: nth_append)

lemma full_nth_eq_guard:
  assumes "list_ok N r (Shape g xs t)" and "k < length (full (Shape g xs t))"
  shows "Some (fst (full (Shape g xs t) ! k)) = ll_head_guard r \<longleftrightarrow> k = 0"
    and "Some (fst (full (Shape g xs t) ! k)) = ll_tail_guard r \<longleftrightarrow> k = Suc (length xs)"
proof -
  let ?f = "map fst (full (Shape g xs t))"
  have d: "distinct ?f" and g: "ll_head_guard r = Some (?f ! 0)"
    and t: "ll_tail_guard r = Some (?f ! Suc (length xs))"
    using assms(1) full_nth(3) [of g xs t] by (auto simp: list_ok_def nth_append)
  have "?f ! k = fst (full (Shape g xs t) ! k)" using assms(2) by (rule nth_map)
  moreover have "?f ! k = ?f ! 0 \<longleftrightarrow> k = 0" "?f ! k = ?f ! Suc (length xs) \<longleftrightarrow> k = Suc (length xs)"
    using nth_eq_iff_index_eq [OF d] assms(2) by (simp_all del: full.simps nth_map)
  ultimately show "Some (fst (full (Shape g xs t) ! k)) = ll_head_guard r \<longleftrightarrow> k = 0"
    and "Some (fst (full (Shape g xs t) ! k)) = ll_tail_guard r \<longleftrightarrow> k = Suc (length xs)"
    unfolding g t by simp_all
qed

lemma iter_repE:
  assumes "ll_rep h M I" and "I i = Some (l, k)"
  obtains P r g xs t where "ll_inv (nodes h) (lists h) (iters h) (ticks (arena h)) P"
    and "iters_ok (iters h) P I" and "M = ll_abs (lists h) P"
    and "lists h l = Some r" and "P l = Some (Shape g xs t)"
    and "M l = Some \<lparr>al_items = map snd xs, al_free = ll_free_function r, al_copy = ll_copy_function r\<rparr>"
    and "list_ok (nodes h) r (Shape g xs t)" and "k < length (full (Shape g xs t))"
    and "iters h i = Some \<lparr>it_list = Some l, it_current_node = Some (fst (full (Shape g xs t) ! k))\<rparr>"
proof -
  from assms(1) obtain P where P: "ll_inv (nodes h) (lists h) (iters h) (ticks (arena h)) P"
      "iters_ok (iters h) P I" "M = ll_abs (lists h) P"
    by (auto simp: ll_rep_def)
  from P(2) assms(2) obtain s where s: "P l = Some s" "k < length (full s)"
    "iters h i = Some \<lparr>it_list = Some l, it_current_node = Some (fst (full s ! k))\<rparr>"
    unfolding iters_ok_def by blast
  obtain r where r: "lists h l = Some r" using ll_inv_dom [OF P(1)] s(1) by blast
  obtain g xs t where "s = Shape g xs t" by (cases s)
  with s P r ll_inv_ok [OF P(1) r s(1)] show thesis
    by (intro that [OF P r, of g xs t]) (auto simp: ll_abs_def)
qed

lemma ll_rep_iter:
  assumes P: "ll_inv (nodes h) (lists h) (iters h) (ticks (arena h)) P" "iters_ok (iters h) P I"
    and "P l = Some s" and "k < length (full s)"
    and h': "nodes h' = nodes h" "lists h' = lists h"
      "iters h' = (iters h)(i \<mapsto> \<lparr>it_list = Some l, it_current_node = Some (fst (full s ! k))\<rparr>)"
    and t: "ticks (arena h) \<le> ticks (arena h')" and i: "i \<in> {1..min (ticks (arena h')) block_limit}"
  shows "ll_rep h' (ll_abs (lists h) P) (I(i \<mapsto> (l, k)))"
proof -
  have "dom (iters h') \<subseteq> {1..min (ticks (arena h')) block_limit}"
    using ll_inv_bound [OF P(1)] t i unfolding h' by (auto 0 3)
  with P(1) have "ll_inv (nodes h') (lists h') (iters h') (ticks (arena h')) P"
    unfolding h'(1,2) using t by (rule ll_inv_iters)
  moreover have "iters_ok (iters h') P (I(i \<mapsto> (l, k)))"
    using P(2) assms(3,4) unfolding h' iters_ok_def by auto
  ultimately show ?thesis unfolding ll_rep_def h' by blast
qed

lemma iter_bound:
  "ll_inv N L J n P \<Longrightarrow> J i = Some x \<Longrightarrow> i \<in> {1..min n block_limit}"
  using ll_inv_bound by blast

section \<open>Specifications\<close>

text \<open>
  \<open>kept h h'\<close>: the client's state and the components above are as before; \<open>iter_only i h h'\<close>:
  the other iterators are.
\<close>

abbreviation kept :: "('d, 'w, 'z) llh \<Rightarrow> ('d, 'w, 'z) llh \<Rightarrow> bool" where
  "kept h h' \<equiv> world h' = world h \<and> same_frame h h'"

abbreviation iter_only :: "addr \<Rightarrow> ('d, 'w, 'z) llh \<Rightarrow> ('d, 'w, 'z) llh \<Rightarrow> bool" where
  "iter_only i h h' \<equiv> (iters h')(i := None) = (iters h)(i := None)"

lemma malloc_iter_granted [simp]:
  "\<not> refused (arena h) \<Longrightarrow> malloc_iter h = (Some (Suc (ticks (arena h))),
     h\<lparr>arena := tick (arena h), iters := (iters h)(Suc (ticks (arena h)) \<mapsto>
       \<lparr>it_list = NULL, it_current_node = NULL\<rparr>)\<rparr>)"
  by (simp add: malloc_iter_def)

lemma malloc_iter_refused [simp]:
  "refused (arena h) \<Longrightarrow> malloc_iter h = (NULL, h\<lparr>arena := tick (arena h)\<rparr>)"
  by (simp add: malloc_iter_def)

lemma fresh_iter:
  fixes h :: "('d, 'w, 'z) llh"
  assumes P: "ll_inv (nodes h) (lists h) (iters h) (ticks (arena h)) P" "iters_ok (iters h) P I"
    and "P l = Some s" and "pos < length (full s)" and granted: "\<not> refused (arena h)"
    and i: "i = Suc (ticks (arena h))"
    and h': "h' = h\<lparr>arena := tick (arena h), iters := (iters h)(i \<mapsto>
      \<lparr>it_list = Some l, it_current_node = Some (fst (full s ! pos))\<rparr>)\<rparr>"
  shows "iters h i = None \<and> I i = None \<and> ll_rep h' (ll_abs (lists h) P) (I(i \<mapsto> (l, pos)))
    \<and> iter_only i h h' \<and> arena h' = tick (arena h) \<and> kept h h'"
proof -
  have none: "iters h i = None" using ll_inv_fresh(3) [OF P(1)] i by simp
  moreover have "I i = None"
    using P(2) none unfolding iters_ok_def by (metis option.distinct(1) not_None_eq surj_pair)
  moreover have "ll_rep h' (ll_abs (lists h) P) (I(i \<mapsto> (l, pos)))"
    using granted i by (intro ll_rep_iter [OF P assms(3,4)]) (auto simp: refused_def h')
  ultimately show ?thesis by (simp add: h')
qed

lemma open_iter:
  assumes rep: "ll_rep h M I" "M l = Some L" and granted: "\<not> refused (arena h)"
    and exec: "\<And>r g xs t. lists h l = Some r \<Longrightarrow> list_ok (nodes h) r (Shape g xs t) \<Longrightarrow>
      length (al_items L) = length xs \<Longrightarrow> pos < length (full (Shape g xs t))
        \<and> f (Some l) (Some v) h = Some (0, Some (Some (Suc (ticks (arena h)))),
            h\<lparr>arena := tick (arena h), iters := (iters h)(Suc (ticks (arena h)) \<mapsto>
              \<lparr>it_list = Some l, it_current_node = Some (fst (full (Shape g xs t) ! pos))\<rparr>)\<rparr>)"
  shows "\<exists>h' i. f (Some l) (Some v) h = Some (0, Some (Some i), h') \<and> iters h i = None \<and> I i = None
       \<and> ll_rep h' M (I(i \<mapsto> (l, pos))) \<and> iter_only i h h' \<and> arena h' = tick (arena h) \<and> kept h h'"
proof -
  obtain P r g xs t where P: "ll_inv (nodes h) (lists h) (iters h) (ticks (arena h)) P"
    "iters_ok (iters h) P I" and M: "M = ll_abs (lists h) P"
    and l: "lists h l = Some r" "P l = Some (Shape g xs t)"
    and L: "L = \<lparr>al_items = map snd xs, al_free = ll_free_function r, al_copy = ll_copy_function r\<rparr>"
    and ok: "list_ok (nodes h) r (Shape g xs t)"
    by (rule ll_repE [OF rep])
  let ?i = "Suc (ticks (arena h))"
  let ?h = "h\<lparr>arena := tick (arena h), iters := (iters h)(?i \<mapsto>
     \<lparr>it_list = Some l, it_current_node = Some (fst (full (Shape g xs t) ! pos))\<rparr>)\<rparr>"
  from exec [OF l(1) ok] L have h': "f (Some l) (Some v) h = Some (0, Some (Some ?i), ?h)"
    and pos: "pos < length (full (Shape g xs t))" by auto
  from fresh_iter [OF P l(2) pos granted refl refl] h' show ?thesis
    unfolding M by (intro exI [of _ ?h] exI [of _ ?i]) simp
qed

lemma begin_spec:
  assumes "ll_rep h M I" and "M l = Some L" and "\<not> refused (arena h)"
  shows "\<exists>h' i. generic_linked_list_iterator_begin (Some l) (Some v) h = Some (0, Some (Some i), h')
    \<and> iters h i = None \<and> I i = None \<and> ll_rep h' M (I(i \<mapsto> (l, 1)))
    \<and> iter_only i h h' \<and> arena h' = tick (arena h) \<and> kept h h'"
proof (rule open_iter [OF assms])
  fix r g xs t
  assume "lists h l = Some r" and ok: "list_ok (nodes h) r (Shape g xs t)"
  with dl_nth [of "nodes h" NULL "full (Shape g xs t)" NULL 0] assms(3)
  show "1 < length (full (Shape g xs t)) \<and> generic_linked_list_iterator_begin (Some l) (Some v) h
     = Some (0, Some (Some (Suc (ticks (arena h)))),
          h\<lparr>arena := tick (arena h), iters := (iters h)(Suc (ticks (arena h)) \<mapsto>
            \<lparr>it_list = Some l, it_current_node = Some (fst (full (Shape g xs t) ! 1))\<rparr>)\<rparr>)"
    by (simp add: generic_linked_list_iterator_begin_def heap_simps list_ok_def)
qed

lemma end_spec:
  assumes "ll_rep h M I" and "M l = Some L" and "\<not> refused (arena h)"
  shows "\<exists>h' i. generic_linked_list_iterator_end (Some l) (Some v) h = Some (0, Some (Some i), h')
    \<and> iters h i = None \<and> I i = None \<and> ll_rep h' M (I(i \<mapsto> (l, Suc (length (al_items L)))))
    \<and> iter_only i h h' \<and> arena h' = tick (arena h) \<and> kept h h'"
  by (rule open_iter [OF assms])
    (use assms(3) in \<open>auto simp: generic_linked_list_iterator_end_def heap_simps list_ok_def nth_append\<close>)

lemma reverse_begin_spec:
  assumes "ll_rep h M I" and "M l = Some L" and "\<not> refused (arena h)"
  shows "\<exists>h' i. generic_linked_list_iterator_reverse_begin (Some l) (Some v) h = Some (0, Some (Some i), h')
    \<and> iters h i = None \<and> I i = None \<and> ll_rep h' M (I(i \<mapsto> (l, length (al_items L))))
    \<and> iter_only i h h' \<and> arena h' = tick (arena h) \<and> kept h h'"
proof (rule open_iter [OF assms])
  fix r g xs t
  assume "lists h l = Some r" and ok: "list_ok (nodes h) r (Shape g xs t)"
    and len: "length (al_items L) = length xs"
  with dl_nth [of "nodes h" NULL "full (Shape g xs t)" NULL "Suc (length xs)"] assms(3)
    full_nth(3) [of g xs t]
  show "length (al_items L) < length (full (Shape g xs t))
     \<and> generic_linked_list_iterator_reverse_begin (Some l) (Some v) h
     = Some (0, Some (Some (Suc (ticks (arena h)))),
          h\<lparr>arena := tick (arena h), iters := (iters h)(Suc (ticks (arena h)) \<mapsto>
            \<lparr>it_list = Some l, it_current_node = Some (fst (full (Shape g xs t) ! length (al_items L)))\<rparr>)\<rparr>)"
    by (simp add: generic_linked_list_iterator_reverse_begin_def heap_simps list_ok_def)
qed

lemma reverse_end_spec:
  assumes "ll_rep h M I" and "M l = Some L" and "\<not> refused (arena h)"
  shows "\<exists>h' i. generic_linked_list_iterator_reverse_end (Some l) (Some v) h = Some (0, Some (Some i), h')
    \<and> iters h i = None \<and> I i = None \<and> ll_rep h' M (I(i \<mapsto> (l, 0)))
    \<and> iter_only i h h' \<and> arena h' = tick (arena h) \<and> kept h h'"
  by (rule open_iter [OF assms])
    (use assms(3) in \<open>auto simp: generic_linked_list_iterator_reverse_end_def heap_simps list_ok_def\<close>)

lemma open_refused:
  assumes rep: "ll_rep h M I" and "refused (arena h)"
  shows "\<exists>h'. generic_linked_list_iterator_begin (Some l) (Some v) h = Some (-1, Some v, h')
    \<and> generic_linked_list_iterator_end (Some l) (Some v) h = Some (-1, Some v, h')
    \<and> generic_linked_list_iterator_reverse_begin (Some l) (Some v) h = Some (-1, Some v, h')
    \<and> generic_linked_list_iterator_reverse_end (Some l) (Some v) h = Some (-1, Some v, h')
    \<and> ll_rep h' M I \<and> iters h' = iters h \<and> arena h' = tick (arena h) \<and> kept h h'"
  using assms ll_rep_cong [OF rep, of "h\<lparr>arena := tick (arena h)\<rparr>"]
  by (auto simp: generic_linked_list_iterator_begin_def generic_linked_list_iterator_end_def
      generic_linked_list_iterator_reverse_begin_def generic_linked_list_iterator_reverse_end_def)

subsection \<open>Reading and moving\<close>

text \<open>
  All that an iterator at a known position sees, and the two moves it can make.
\<close>

lemma iter_view:
  assumes "ll_rep h M I" and "I i = Some (l, k)" and "M l = Some L"
  obtains it r nd where "iters h i = Some it" and "it_list it = Some l" and "lists h l = Some r"
    and "it_current_node it = ll_head_guard r \<longleftrightarrow> k = 0"
    and "it_current_node it = ll_tail_guard r \<longleftrightarrow> k = Suc (length (al_items L))"
    and "k \<le> Suc (length (al_items L))" and "node_at h (it_current_node it) = Some nd"
    and "k \<noteq> 0 \<and> k \<le> length (al_items L) \<longrightarrow> node_data nd = al_items L ! (k - 1)"
    and "k \<le> length (al_items L) \<longrightarrow>
      ll_rep (h\<lparr>iters := (iters h)(i \<mapsto> it\<lparr>it_current_node := node_next nd\<rparr>)\<rparr>) M (I(i \<mapsto> (l, Suc k)))"
    and "k \<noteq> 0 \<longrightarrow>
      ll_rep (h\<lparr>iters := (iters h)(i \<mapsto> it\<lparr>it_current_node := node_prev nd\<rparr>)\<rparr>) M (I(i \<mapsto> (l, k - 1)))"
proof -
  obtain P r g xs t where P: "ll_inv (nodes h) (lists h) (iters h) (ticks (arena h)) P"
    "iters_ok (iters h) P I" and M: "M = ll_abs (lists h) P"
    and l: "lists h l = Some r" "P l = Some (Shape g xs t)"
    and L: "M l = Some \<lparr>al_items = map snd xs, al_free = ll_free_function r, al_copy = ll_copy_function r\<rparr>"
    and ok: "list_ok (nodes h) r (Shape g xs t)" and k: "k < length (full (Shape g xs t))"
    and i: "iters h i = Some \<lparr>it_list = Some l, it_current_node = Some (fst (full (Shape g xs t) ! k))\<rparr>"
    by (rule iter_repE [OF assms(1,2)])
  let ?f = "full (Shape g xs t)"
  have items: "al_items L = map snd xs" using L assms(3) by auto
  define nd where "nd = \<lparr>node_data = snd (?f ! k),
     node_next = (if Suc k < length ?f then Some (fst (?f ! Suc k)) else NULL),
     node_prev = (if k = 0 then NULL else Some (fst (?f ! (k - 1))))\<rparr>"
  have nd: "nodes h (fst (?f ! k)) = Some nd"
    using dl_nth [of "nodes h" NULL ?f NULL k] ok k unfolding nd_def list_ok_def shape.case by blast
  have data: "k \<noteq> 0 \<and> k \<le> length (al_items L) \<longrightarrow> node_data nd = al_items L ! (k - 1)"
  proof
    assume "k \<noteq> 0 \<and> k \<le> length (al_items L)"
    then have j: "k = Suc (k - 1)" "k - 1 < length xs" by (auto simp: items)
    with full_nth(2) [OF j(2), of g t] show "node_data nd = al_items L ! (k - 1)"
      by (metis items nth_map nd_def node_t.select_convs(1))
  qed
  have move: "ll_rep (h\<lparr>iters := (iters h)(i \<mapsto> \<lparr>it_list = Some l, it_current_node = Some (fst (?f ! j))\<rparr>)\<rparr>)
      M (I(i \<mapsto> (l, j)))" if "j < length ?f" for j
    unfolding M by (rule ll_rep_iter [OF P l(2) that]) (use iter_bound [OF P(1) i] in simp_all)
  have fwd: "Suc k < length ?f" if "k \<le> length (al_items L)" using that items by simp
  have bwd: "k - 1 < length ?f" using k by simp
  show thesis
    by (rule that [OF i _ l(1), of nd])
      (use full_nth_eq_guard [OF ok k] k items data nd move [OF fwd] fwd move [OF bwd] in
        \<open>simp_all add: node_at_def nd_def del: full.simps nth_map\<close>)
qed

lemma is_end_spec:
  assumes "ll_rep h M I" and "I i = Some (l, k)" and "M l = Some L"
  shows "generic_linked_list_iterator_is_end (Some i) h
      = Some (if k = Suc (length (al_items L)) then 0 else 1)"
    and "generic_linked_list_iterator_is_begin (Some i) h = Some (if k = 0 then 0 else 1)"
    and "generic_linked_list_iterator_is_valid (Some i) h
      = Some (if k = 0 \<or> k = Suc (length (al_items L)) then 1 else 0)"
    and "k \<le> Suc (length (al_items L))"
  by (rule iter_view [OF assms], simp add: generic_linked_list_iterator_is_end_def
      generic_linked_list_iterator_is_begin_def generic_linked_list_iterator_is_valid_def heap_simps)+

lemma get_spec:
  assumes "ll_rep h M I" and "I i = Some (l, k)" and "M l = Some L"
  shows "generic_linked_list_iterator_get (Some i) (Some v) h
      = Some (if k = 0 \<or> k = Suc (length (al_items L)) then (1, Some NULL)
              else (0, Some (al_items L ! (k - 1))))"
  by (rule iter_view [OF assms])
    (auto simp: generic_linked_list_iterator_get_def iter_at_def list_at_def)

lemma next_spec:
  assumes "ll_rep h M I" and "I i = Some (l, k)" and "M l = Some L" and "k \<le> length (al_items L)"
  shows "\<exists>h'. generic_linked_list_iterator_next (Some i) h = Some (0, h')
    \<and> ll_rep h' M (I(i \<mapsto> (l, Suc k))) \<and> iter_only i h h' \<and> arena h' = arena h \<and> kept h h'"
  by (rule iter_view [OF assms(1-3)])
    (use assms(4) in \<open>auto simp: generic_linked_list_iterator_next_def iter_at_def list_at_def modify_iter_def\<close>)

lemma next_at_end:
  assumes "ll_rep h M I" and "I i = Some (l, Suc (length (al_items L)))" and "M l = Some L"
  shows "generic_linked_list_iterator_next (Some i) h = Some (1, h)"
  by (rule iter_view [OF assms])
    (auto simp: generic_linked_list_iterator_next_def iter_at_def list_at_def)

lemma prev_spec:
  assumes "ll_rep h M I" and "I i = Some (l, k)" and "M l = Some L" and "k \<noteq> 0"
  shows "\<exists>h'. generic_linked_list_iterator_prev (Some i) h = Some (0, h')
    \<and> ll_rep h' M (I(i \<mapsto> (l, k - 1))) \<and> iter_only i h h' \<and> arena h' = arena h \<and> kept h h'"
  by (rule iter_view [OF assms(1-3)])
    (use assms(4) in \<open>auto simp: generic_linked_list_iterator_prev_def iter_at_def list_at_def modify_iter_def\<close>)

lemma prev_at_rend:
  assumes "ll_rep h M I" and "I i = Some (l, 0)" and "M l = Some L"
  shows "generic_linked_list_iterator_prev (Some i) h = Some (1, h)"
  by (rule iter_view [OF assms])
    (auto simp: generic_linked_list_iterator_prev_def iter_at_def list_at_def)

lemma iterator_free_spec:
  assumes "ll_rep h M I" and "I i = Some (l, k)"
  shows "\<exists>h'. generic_linked_list_iterator_free (Some i) h = Some (0, h')
    \<and> ll_rep h' M (I(i := None)) \<and> iters h' = (iters h)(i := None) \<and> arena h' = arena h \<and> kept h h'"
proof -
  obtain P where P: "ll_inv (nodes h) (lists h) (iters h) (ticks (arena h)) P"
    "iters_ok (iters h) P I" and M: "M = ll_abs (lists h) P"
    using assms(1) by (auto simp: ll_rep_def)
  let ?h = "h\<lparr>iters := (iters h)(i := None)\<rparr>"
  have "iters h i \<noteq> None" using P(2) assms(2) unfolding iters_ok_def by (metis option.distinct(1))
  then have "generic_linked_list_iterator_free (Some i) h = Some (0, ?h)"
    by (simp add: generic_linked_list_iterator_free_def heap_simps)
  moreover have "ll_inv (nodes h) (lists h) ((iters h)(i := None)) (ticks (arena h)) P"
    by (rule ll_inv_iters [OF P(1)]) (use ll_inv_bound [OF P(1)] in auto)
  moreover have "iters_ok ((iters h)(i := None)) P (I(i := None))"
    using P(2) by (auto simp: iters_ok_def)
  ultimately show ?thesis unfolding ll_rep_def M by (intro exI [of _ ?h]) auto
qed

subsection \<open>The advances\<close>

lemma advance_loop_spec:
  assumes "ll_rep h M I" and "I i = Some (l, k)" and "M l = Some L" and "unat j \<le> unat n"
  shows "\<exists>h'. advance_loop (Some i) j n h = Some h'
    \<and> ll_rep h' M (I(i \<mapsto> (l, min (k + (unat n - unat j)) (Suc (length (al_items L))))))
    \<and> iter_only i h h' \<and> arena h' = arena h \<and> kept h h'"
  using assms
proof (induction "unat n - unat j" arbitrary: h I k j)
  case 0
  then have "\<not> j < n" by (simp add: word_less_nat_alt)
  obtain it r where it: "iters h i = Some it" "it_list it = Some l" "lists h l = Some r"
    "k \<le> Suc (length (al_items L))"
    by (rule iter_view [OF 0(2-4)])
  have "advance_loop (Some i) j n h = Some h"
    using it \<open>\<not> j < n\<close> by (subst advance_loop.simps) (simp add: heap_simps)
  moreover have "I(i \<mapsto> (l, min (k + (unat n - unat j)) (Suc (length (al_items L))))) = I"
    using 0(1,3) it(4) by (auto simp: fun_upd_idem_iff)
  ultimately show ?case using 0(2) by simp
next
  case (Suc d)
  have less: "j < n" and j1: "unat (j + 1) = Suc (unat j)"
  proof -
    show "j < n" using Suc.hyps(2) by (simp add: word_less_nat_alt)
    then show "unat (j + 1) = Suc (unat j)" by (rule unat_plus_1_size_t)
  qed
  obtain it r nd where it: "iters h i = Some it" "it_list it = Some l" "lists h l = Some r"
    "it_current_node it = ll_tail_guard r \<longleftrightarrow> k = Suc (length (al_items L))"
    "k \<le> Suc (length (al_items L))" "node_at h (it_current_node it) = Some nd"
    "k \<le> length (al_items L) \<longrightarrow>
      ll_rep (h\<lparr>iters := (iters h)(i \<mapsto> it\<lparr>it_current_node := node_next nd\<rparr>)\<rparr>) M (I(i \<mapsto> (l, Suc k)))"
    by (rule iter_view [OF Suc.prems(1-3)])
  show ?case
  proof (cases "k = Suc (length (al_items L))")
    case True
    have "advance_loop (Some i) j n h = Some h"
      using it True by (subst advance_loop.simps) (simp add: heap_simps)
    moreover have "I(i \<mapsto> (l, min (k + (unat n - unat j)) (Suc (length (al_items L))))) = I"
      using Suc.prems(2) True by (auto simp: fun_upd_idem_iff)
    ultimately show ?thesis using Suc.prems(1) by simp
  next
    case False
    let ?h = "h\<lparr>iters := (iters h)(i \<mapsto> it\<lparr>it_current_node := node_next nd\<rparr>)\<rparr>"
    have "advance_loop (Some i) j n h = advance_loop (Some i) (j + 1) n ?h"
      using it False less by (subst advance_loop.simps) (simp add: iter_at_def list_at_def modify_iter_def)
    moreover have "\<exists>h'. advance_loop (Some i) (j + 1) n ?h = Some h'
      \<and> ll_rep h' M ((I(i \<mapsto> (l, Suc k)))(i \<mapsto> (l, min (Suc k + (unat n - unat (j + 1))) (Suc (length (al_items L))))))
      \<and> iter_only i ?h h' \<and> arena h' = arena ?h \<and> kept ?h h'"
      by (rule Suc.hyps(1)) (use it False Suc.prems j1 Suc.hyps(2) in auto)
    moreover have eq: "Suc k + (unat n - unat (j + 1)) = k + (unat n - unat j)"
      using j1 Suc.hyps(2) by simp
    ultimately show ?thesis unfolding eq fun_upd_upd by simp
  qed
qed

lemma advance_spec:
  assumes "ll_rep h M I" and "I i = Some (l, k)" and "M l = Some L"
  shows "\<exists>h'. generic_linked_list_iterator_advance (Some i) n h = Some (0, h')
    \<and> ll_rep h' M (I(i \<mapsto> (l, min (k + unat n) (Suc (length (al_items L))))))
    \<and> iter_only i h h' \<and> arena h' = arena h \<and> kept h h'"
  using advance_loop_spec [OF assms, of 0 n] by (auto simp: generic_linked_list_iterator_advance_def)

lemma reverse_advance_loop_spec:
  assumes "ll_rep h M I" and "I i = Some (l, k)" and "M l = Some L" and "unat j \<le> unat n"
  shows "\<exists>h'. reverse_advance_loop (Some i) j n h = Some h'
    \<and> ll_rep h' M (I(i \<mapsto> (l, k - (unat n - unat j))))
    \<and> iter_only i h h' \<and> arena h' = arena h \<and> kept h h'"
  using assms
proof (induction "unat n - unat j" arbitrary: h I k j)
  case 0
  then have "\<not> j < n" by (simp add: word_less_nat_alt)
  obtain it r where it: "iters h i = Some it" "it_list it = Some l" "lists h l = Some r"
    by (rule iter_view [OF 0(2-4)])
  have "reverse_advance_loop (Some i) j n h = Some h"
    using it \<open>\<not> j < n\<close> by (subst reverse_advance_loop.simps) (simp add: heap_simps)
  moreover have "I(i \<mapsto> (l, k - (unat n - unat j))) = I"
    using 0(1,3) by (auto simp: fun_upd_idem_iff)
  ultimately show ?case using 0(2) by simp
next
  case (Suc d)
  have less: "j < n" and j1: "unat (j + 1) = Suc (unat j)"
  proof -
    show "j < n" using Suc.hyps(2) by (simp add: word_less_nat_alt)
    then show "unat (j + 1) = Suc (unat j)" by (rule unat_plus_1_size_t)
  qed
  obtain it r nd where it: "iters h i = Some it" "it_list it = Some l" "lists h l = Some r"
    "it_current_node it = ll_head_guard r \<longleftrightarrow> k = 0" "node_at h (it_current_node it) = Some nd"
    "k \<noteq> 0 \<longrightarrow>
      ll_rep (h\<lparr>iters := (iters h)(i \<mapsto> it\<lparr>it_current_node := node_prev nd\<rparr>)\<rparr>) M (I(i \<mapsto> (l, k - 1)))"
    by (rule iter_view [OF Suc.prems(1-3)])
  show ?case
  proof (cases "k = 0")
    case True
    have "reverse_advance_loop (Some i) j n h = Some h"
      using it True by (subst reverse_advance_loop.simps) (simp add: heap_simps)
    moreover have "I(i \<mapsto> (l, k - (unat n - unat j))) = I"
      using Suc.prems(2) True by (auto simp: fun_upd_idem_iff)
    ultimately show ?thesis using Suc.prems(1) by simp
  next
    case False
    let ?h = "h\<lparr>iters := (iters h)(i \<mapsto> it\<lparr>it_current_node := node_prev nd\<rparr>)\<rparr>"
    have "reverse_advance_loop (Some i) j n h = reverse_advance_loop (Some i) (j + 1) n ?h"
      using it False less
      by (subst reverse_advance_loop.simps) (simp add: iter_at_def list_at_def modify_iter_def)
    moreover have "\<exists>h'. reverse_advance_loop (Some i) (j + 1) n ?h = Some h'
      \<and> ll_rep h' M ((I(i \<mapsto> (l, k - 1)))(i \<mapsto> (l, (k - 1) - (unat n - unat (j + 1)))))
      \<and> iter_only i ?h h' \<and> arena h' = arena ?h \<and> kept ?h h'"
      by (rule Suc.hyps(1)) (use it False Suc.prems j1 Suc.hyps(2) in auto)
    moreover have eq: "(k - 1) - (unat n - unat (j + 1)) = k - (unat n - unat j)"
      using j1 Suc.hyps(2) by simp
    ultimately show ?thesis unfolding eq fun_upd_upd by simp
  qed
qed

lemma reverse_advance_spec:
  assumes "ll_rep h M I" and "I i = Some (l, k)" and "M l = Some L"
  shows "\<exists>h'. generic_linked_list_iterator_reverse_advance (Some i) n h = Some (0, h')
    \<and> ll_rep h' M (I(i \<mapsto> (l, k - unat n)))
    \<and> iter_only i h h' \<and> arena h' = arena h \<and> kept h h'"
  using reverse_advance_loop_spec [OF assms, of 0 n]
  by (auto simp: generic_linked_list_iterator_reverse_advance_def)

subsection \<open>Removal at an iterator\<close>

lemma full_split:
  assumes "0 < k" and "k \<le> length xs"
  obtains us u x v vs where "full (Shape g xs t) = us @ u # x # v # vs"
    and "full (Shape g (take (k - 1) xs @ drop k xs) t) = us @ u # v # vs"
    and "length us = k - 1" and "x = full (Shape g xs t) ! k" and "x = xs ! (k - 1)"
    and "v = full (Shape g (take (k - 1) xs @ drop k xs) t) ! k"
proof -
  let ?j = "k - 1"
  have j: "?j < length xs" "k = Suc ?j" using assms by auto
  obtain us u where u: "(g, NULL) # take ?j xs = us @ [u]"
    by (cases "(g, NULL) # take ?j xs" rule: rev_cases) auto
  obtain v vs where v: "drop k xs @ [(t, NULL)] = v # vs" by (cases "drop k xs @ [(t, NULL)]") auto
  have "xs = take ?j xs @ xs ! ?j # drop k xs"
    using id_take_nth_drop [OF j(1)] j(2) by simp
  then have "full (Shape g xs t) = ((g, NULL) # take ?j xs) @ xs ! ?j # drop k xs @ [(t, NULL)]"
    by (metis append.assoc append_Cons full.simps)
  then have 1: "full (Shape g xs t) = us @ u # (xs ! ?j) # v # vs"
    unfolding u v by simp
  have "full (Shape g (take ?j xs @ drop k xs) t) = ((g, NULL) # take ?j xs) @ drop k xs @ [(t, NULL)]"
    by simp
  then have 2: "full (Shape g (take ?j xs @ drop k xs) t) = us @ u # v # vs"
    unfolding u v by simp
  have 3: "length us = ?j" using u j by (metis add_right_cancel length_Cons length_append_singleton
    length_take min.absorb2 nat_less_le Suc_inject)
  show thesis
    by (rule that [OF 1 2 3]) (use 1 2 3 j in \<open>simp_all add: nth_append del: full.simps\<close>)
qed

lemma iterator_remove_spec:
  assumes rep: "ll_rep h M I" "I i = Some (l, k)" "M l = Some L"
    and k: "0 < k" "k \<le> length (al_items L)" and out: "out \<noteq> NULL \<or> al_free L \<noteq> NULL"
    and give: "al_give L (al_items L ! (k - 1)) out (world h) = Some (out', w)"
  shows "\<exists>h'. generic_linked_list_iterator_remove (Some i) out h = Some (0, out', h')
    \<and> ll_rep h' (M(l \<mapsto> L\<lparr>al_items := take (k - 1) (al_items L) @ drop k (al_items L)\<rparr>))
        ((drop_iters l I)(i \<mapsto> (l, k)))
    \<and> world h' = w \<and> iter_only i h h' \<and> arena h' = arena h \<and> same_frame h h'"
proof -
  obtain P r g xs t where P: "ll_inv (nodes h) (lists h) (iters h) (ticks (arena h)) P"
    "iters_ok (iters h) P I" and M: "M = ll_abs (lists h) P"
    and l: "lists h l = Some r" "P l = Some (Shape g xs t)"
    and L: "M l = Some \<lparr>al_items = map snd xs, al_free = ll_free_function r, al_copy = ll_copy_function r\<rparr>"
    and ok: "list_ok (nodes h) r (Shape g xs t)" and kf: "k < length (full (Shape g xs t))"
    and i: "iters h i = Some \<lparr>it_list = Some l, it_current_node = Some (fst (full (Shape g xs t) ! k))\<rparr>"
    by (rule iter_repE [OF rep(1,2)])
  have L: "L = \<lparr>al_items = map snd xs, al_free = ll_free_function r, al_copy = ll_copy_function r\<rparr>"
    using L rep(3) by simp
  have k': "0 < k" "k \<le> length xs" using k L by auto
  let ?xs = "take (k - 1) xs @ drop k xs"
  obtain us u x v vs where us: "full (Shape g xs t) = us @ u # x # v # vs"
    and xs': "full (Shape g ?xs t) = us @ u # v # vs"
    and "length us = k - 1" and x: "x = full (Shape g xs t) ! k" "x = xs ! (k - 1)"
    and v: "v = full (Shape g ?xs t) ! k"
    by (rule full_split [OF k', of g t])
  have us': "full (Shape g xs t) = (us @ [u]) @ x # v # vs" by (simp add: us del: full.simps)
  note nb = list_ok_split [OF ok us] list_ok_split [OF ok us']
  have ne: "fst u \<noteq> fst x" "fst x \<noteq> fst v" "fst u \<noteq> fst v"
    using ok us nb by (auto simp: list_ok_def simp del: full.simps)
  have guard: "Some (fst x) \<noteq> ll_head_guard r" "Some (fst x) \<noteq> ll_tail_guard r"
    using full_nth_eq_guard [OF ok kf] k' unfolding x(1) by auto
  have xi: "snd x = al_items L ! (k - 1)" using k' by (simp add: L x(2))
  obtain h' where h': "generic_linked_list_iterator_remove (Some i) out h = Some (0, out', h')"
    "nodes h' = (nodes h)(fst u \<mapsto> \<lparr>node_data = snd u, node_next = Some (fst v), node_prev = last_addr NULL us\<rparr>,
        fst v \<mapsto> \<lparr>node_data = snd v, node_next = first_addr vs NULL, node_prev = Some (fst u)\<rparr>, fst x := None)"
    "lists h' = (lists h)(l \<mapsto> r\<lparr>ll_size := ll_size r - 1\<rparr>)"
    "iters h' = (iters h)(i \<mapsto> \<lparr>it_list = Some l, it_current_node = Some (fst v)\<rparr>)"
    "arena h' = arena h" "world h' = w" "same_frame h h'"
    using give l(1) nb ne guard out i xi unfolding x(1) [symmetric]
    by (auto simp: generic_linked_list_iterator_remove_def ll_hand_over_def heap_simps al_give_def L
      split: option.splits if_splits intro!: that)
  let ?h = "h'\<lparr>iters := iters h\<rparr>"
  have inv': "ll_inv (nodes ?h) (lists ?h) (iters ?h) (ticks (arena ?h)) (P(l \<mapsto> Shape g ?xs t))"
    by (rule ll_inv_unlink [OF P l us xs']) (use h' nb ne in auto)
  have "ll_rep h' (ll_abs (lists ?h) (P(l \<mapsto> Shape g ?xs t))) ((drop_iters l I)(i \<mapsto> (l, k)))"
    by (rule ll_rep_iter [OF inv', where s = "Shape g ?xs t"])
      (use iters_ok_update [OF P(2)] h' v k' iter_bound [OF P(1) i] in \<open>simp_all del: full.simps\<close>)
  moreover have "ll_abs (lists ?h) (P(l \<mapsto> Shape g ?xs t))
      = M(l \<mapsto> L\<lparr>al_items := take (k - 1) (al_items L) @ drop k (al_items L)\<rparr>)"
    by (auto simp: M L h' ll_abs_def fun_eq_iff take_map drop_map split: option.split)
  ultimately show ?thesis using h' by simp
qed

lemma iterator_remove_fails:
  assumes rep: "ll_rep h M I" "I i = Some (l, k)" "M l = Some L"
    and "k = 0 \<or> k = Suc (length (al_items L)) \<or> out = NULL \<and> al_free L = NULL"
  shows "generic_linked_list_iterator_remove (Some i) out h = Some (1, out, h)"
proof -
  obtain it r where it: "iters h i = Some it" "it_list it = Some l" "lists h l = Some r"
    "it_current_node it = ll_head_guard r \<longleftrightarrow> k = 0"
    "it_current_node it = ll_tail_guard r \<longleftrightarrow> k = Suc (length (al_items L))"
    by (rule iter_view [OF rep])
  moreover obtain q where "lists h l = Some q" "ll_free_function q = al_free L"
    by (rule list_at_rep [OF rep(1,3)])
  ultimately show ?thesis
    using assms(4) by (auto simp: generic_linked_list_iterator_remove_def heap_simps)
qed

subsection \<open>Distance, search, traversal\<close>

text \<open>The two ends of a range on one list, as the loops see them.\<close>

lemma range_repE:
  assumes "ll_rep h M I" and "I b = Some (l, k)" and "I e = Some (l, m)" and "M l = Some L"
  obtains r g xs t where "lists h l = Some r" and "list_ok (nodes h) r (Shape g xs t)"
    and "al_items L = map snd xs" and "k \<le> Suc (length xs)" and "m \<le> Suc (length xs)"
    and "length xs \<le> block_limit"
    and "iters h b = Some \<lparr>it_list = Some l, it_current_node = Some (fst (full (Shape g xs t) ! k))\<rparr>"
    and "iters h e = Some \<lparr>it_list = Some l, it_current_node = Some (fst (full (Shape g xs t) ! m))\<rparr>"
proof -
  obtain P r g xs t where P: "ll_inv (nodes h) (lists h) (iters h) (ticks (arena h)) P"
    "iters_ok (iters h) P I" and M: "M = ll_abs (lists h) P"
    and l: "lists h l = Some r" "P l = Some (Shape g xs t)"
    and L: "M l = Some \<lparr>al_items = map snd xs, al_free = ll_free_function r, al_copy = ll_copy_function r\<rparr>"
    and ok: "list_ok (nodes h) r (Shape g xs t)" and k: "k < length (full (Shape g xs t))"
    and b: "iters h b = Some \<lparr>it_list = Some l, it_current_node = Some (fst (full (Shape g xs t) ! k))\<rparr>"
    by (rule iter_repE [OF assms(1,2)])
  have "m < length (full (Shape g xs t))
      \<and> iters h e = Some \<lparr>it_list = Some l, it_current_node = Some (fst (full (Shape g xs t) ! m))\<rparr>"
    using P(2) assms(3) l(2) unfolding iters_ok_def by fastforce
  with k b ok L l list_ok_length [OF P(1) ok] assms(4) show thesis by (intro that [of r g xs t]) auto
qed

text \<open>What a loop that stands on position \<open>j\<close> reads.\<close>

lemma pos_view:
  assumes "list_ok N r (Shape g xs t)" and "j \<le> length xs"
  shows "N (fst (full (Shape g xs t) ! j)) = Some \<lparr>node_data = snd (full (Shape g xs t) ! j),
      node_next = Some (fst (full (Shape g xs t) ! Suc j)),
      node_prev = (if j = 0 then NULL else Some (fst (full (Shape g xs t) ! (j - 1))))\<rparr>"
  using dl_nth [of N NULL "full (Shape g xs t)" NULL j] assms
  by (auto simp: list_ok_def simp del: full.simps split: if_splits)

lemma pos_eq:
  assumes "list_ok N r (Shape g xs t)" and "i \<le> Suc (length xs)" and "j \<le> Suc (length xs)"
  shows "fst (full (Shape g xs t) ! i) = fst (full (Shape g xs t) ! j) \<longleftrightarrow> i = j"
proof -
  have "distinct (map fst (full (Shape g xs t)))" using assms(1) by (simp add: list_ok_def del: full.simps)
  from nth_eq_iff_index_eq [OF this, of i j] assms(2,3) show ?thesis
    by (simp del: full.simps)
qed

lemma distance_loop_eq:
  assumes ok: "list_ok (nodes h) r (Shape g xs t)" and "k \<le> Suc (length xs)" and "m \<le> Suc (length xs)"
  shows "distance_loop h r (Some (fst (full (Shape g xs t) ! m))) c (Some (fst (full (Shape g xs t) ! k)))
    = Some (if k \<le> m then Some (c + of_nat (m - max 1 k)) else None)"
  using assms(2)
proof (induction "Suc (length xs) - k" arbitrary: k c)
  case 0
  then have k: "k = Suc (length xs)" by simp
  then have "ll_tail_guard r = Some (fst (full (Shape g xs t) ! k))"
    using full_nth_eq_guard(2) [OF ok, of k] by simp
  then show ?case
    using pos_eq [OF ok, of k m] k assms(3)
    by (subst distance_loop.simps) (auto simp del: full.simps)
next
  case (Suc d)
  then have k: "k \<le> length xs" by simp
  let ?f = "full (Shape g xs t)"
  have step: "distance_loop h r (Some (fst (?f ! m))) c (Some (fst (?f ! k))) =
     (if k = m then Some (Some c)
      else distance_loop h r (Some (fst (?f ! m))) (if k = 0 then c else c + 1) (Some (fst (?f ! Suc k))))"
    using k pos_view [OF ok k] pos_eq [OF ok Suc.prems assms(3)] full_nth_eq_guard [OF ok, of k]
    by (subst distance_loop.simps) (auto simp: node_at_def simp del: full.simps)
  have "distance_loop h r (Some (fst (?f ! m))) (if k = 0 then c else c + 1) (Some (fst (?f ! Suc k)))
      = Some (if Suc k \<le> m then Some ((if k = 0 then c else c + 1) + of_nat (m - max 1 (Suc k))) else None)"
    by (rule Suc.hyps(1)) (use Suc.hyps(2) k in auto)
  moreover have "(if k = 0 then c else c + 1) + of_nat (m - max 1 (Suc k)) = c + of_nat (m - max 1 k)"
    if "Suc k \<le> m"
  proof (cases k)
    case (Suc j)
    then have "m - max 1 k = Suc (m - max 1 (Suc k))" using that by simp
    then show ?thesis using Suc by simp
  qed simp
  ultimately show ?case unfolding step using k by auto
qed

lemma distance_spec:
  assumes "ll_rep h M I" and "I b = Some (l, k)" and "I e = Some (l, m)" and "M l = Some L"
  shows "generic_linked_list_iterator_distance (Some b) (Some e) (Some v) h
    = Some (if k \<le> m then (0, Some (of_nat (m - max 1 k))) else (1, Some v))"
    and "m - max 1 k \<le> block_limit"
  by (rule range_repE [OF assms], use distance_loop_eq [of h _ _ _ _ k m 0] in
    \<open>simp add: generic_linked_list_iterator_distance_def heap_simps del: full.simps\<close>)+


lemma first_match_bound:
  assumes "first_match cmp target items k m = Some j" and "m \<le> Suc (length items)"
  shows "j \<le> length items"
proof -
  have "j \<in> set [max 1 k..<if k \<le> m then m else Suc (length items)]"
    using assms(1) unfolding first_match_def by (metis find_Some_iff nth_mem)
  then show ?thesis using assms(2) by (auto split: if_splits)
qed

lemma first_match_range:
  assumes "1 \<le> k" and "k \<le> m"
  defines "j cmp target items \<equiv> (case first_match cmp target items k m of None \<Rightarrow> m | Some j \<Rightarrow> j)"
  shows "k \<le> j cmp target items \<and> j cmp target items \<le> m
    \<and> (\<forall>j'. k \<le> j' \<and> j' < j cmp target items \<longrightarrow> cmp (items ! (j' - 1)) target \<noteq> 0)
    \<and> (j cmp target items < m \<longrightarrow> cmp (items ! (j cmp target items - 1)) target = 0)"
proof (cases "first_match cmp target items k m")
  case None
  then have j: "j cmp target items = m" by (simp add: j_def)
  from None have "cmp (items ! (i - 1)) target \<noteq> 0" if "k \<le> i" "i < m" for i
    using that assms(1,2) by (auto simp: first_match_def find_None_iff)
  then show ?thesis unfolding j using assms(2) by simp
next
  case (Some i)
  then have j: "j cmp target items = i" by (simp add: j_def)
  from Some obtain n where n: "n < m - k" "cmp (items ! (k + n - 1)) target = 0" "i = k + n"
    "\<forall>n' < n. cmp (items ! (k + n' - 1)) target \<noteq> 0"
    using assms(1,2) by (auto simp: first_match_def find_Some_iff max_def)
  have "cmp (items ! (j' - 1)) target \<noteq> 0" if "k \<le> j'" "j' < i" for j'
    using n(3,4) that by (metis add_less_cancel_left le_add_diff_inverse)
  then show ?thesis unfolding j using n(1-3) by simp
qed

lemma first_match_step:
  assumes "k \<le> length items"
  shows "first_match cmp target items k m = (if k = m then None
    else if k \<noteq> 0 \<and> cmp (items ! (k - 1)) target = 0 then Some k
    else first_match cmp target items (Suc k) m)"
proof -
  have "[max 1 k..<if k \<le> m then m else Suc (length items)]
     = (if k = 0 then [] else [k]) @ [max 1 (Suc k)..<if Suc k \<le> m then m else Suc (length items)]"
    if "k \<noteq> m"
    using that assms by (cases k) (auto simp: upt_conv_Cons simp del: upt_Suc)
  then show ?thesis by (auto simp: first_match_def)
qed

lemma find_loop_eq:
  assumes ok: "list_ok (nodes h) r (Shape g xs t)" and "k \<le> Suc (length xs)" and "m \<le> Suc (length xs)"
  shows "find_loop h r (Some (fst (full (Shape g xs t) ! m))) target cmp (Some (fst (full (Shape g xs t) ! k)))
    = Some (map_option (\<lambda>j. fst (full (Shape g xs t) ! j)) (first_match cmp target (map snd xs) k m))"
  using assms(2)
proof (induction "Suc (length xs) - k" arbitrary: k)
  case 0
  then have k: "k = Suc (length xs)" by simp
  have "nodes h (fst (full (Shape g xs t) ! k)) = Some \<lparr>node_data = NULL, node_next = NULL,
      node_prev = Some (fst (full (Shape g xs t) ! (k - 1)))\<rparr>"
    using dl_nth [of "nodes h" NULL "full (Shape g xs t)" NULL k] ok k full_nth(3) [of g xs t]
    by (simp add: list_ok_def del: full.simps)
  moreover have "ll_tail_guard r = Some (fst (full (Shape g xs t) ! k))"
    using full_nth_eq_guard(2) [OF ok, of k] k by simp
  ultimately show ?case
    using pos_eq [OF ok, of k m] k assms(3)
    by (simp add: find_loop.simps first_match_def node_at_def del: full.simps)
next
  case (Suc d)
  then have k: "k \<le> length xs" by simp
  let ?f = "full (Shape g xs t)"
  let ?go = "find_loop h r (Some (fst (?f ! m))) target cmp (Some (fst (?f ! Suc k)))"
  have step: "find_loop h r (Some (fst (?f ! m))) target cmp (Some (fst (?f ! k))) =
     (if k = m then Some NULL else if k = 0 then ?go
      else if cmp (snd (?f ! k)) target = 0 then Some (Some (fst (?f ! k))) else ?go)"
    using k pos_view [OF ok k] pos_eq [OF ok Suc.prems assms(3)] full_nth_eq_guard [OF ok, of k]
    by (subst find_loop.simps) (auto simp: node_at_def simp del: full.simps)
  have IH: "?go = Some (map_option (\<lambda>j. fst (?f ! j)) (first_match cmp target (map snd xs) (Suc k) m))"
    by (rule Suc.hyps(1)) (use Suc.hyps(2) k in auto)
  have data: "snd (?f ! k) = map snd xs ! (k - 1)" if "k \<noteq> 0"
    using that k full_nth(2) [of "k - 1" xs g t] by (simp del: full.simps)
  show ?case
    unfolding step IH using first_match_step [of k "map snd xs" cmp target m] k data
    by (auto simp del: full.simps)
qed

lemma find_spec:
  assumes "ll_rep h M I" and "I b = Some (l, k)" and "I e = Some (l, m)" and "M l = Some L"
    and "\<not> refused (arena h)"
  shows "\<exists>h' i. generic_linked_list_iterator_find (Some b) (Some e) target (Some cmp) (Some v) h
      = Some (0, Some (Some i), h') \<and> iters h i = None \<and> I i = None
    \<and> ll_rep h' M (I(i \<mapsto> (l, case first_match cmp target (al_items L) k m of None \<Rightarrow> m | Some j \<Rightarrow> j)))
    \<and> iter_only i h h' \<and> arena h' = tick (arena h) \<and> kept h h'"
proof -
  obtain P r g xs t where P: "ll_inv (nodes h) (lists h) (iters h) (ticks (arena h)) P"
    "iters_ok (iters h) P I" and M: "M = ll_abs (lists h) P"
    and l: "lists h l = Some r" "P l = Some (Shape g xs t)"
    and L: "M l = Some \<lparr>al_items = map snd xs, al_free = ll_free_function r, al_copy = ll_copy_function r\<rparr>"
    and ok: "list_ok (nodes h) r (Shape g xs t)" and k: "k < length (full (Shape g xs t))"
    and b: "iters h b = Some \<lparr>it_list = Some l, it_current_node = Some (fst (full (Shape g xs t) ! k))\<rparr>"
    by (rule iter_repE [OF assms(1,2)])
  have e: "m < length (full (Shape g xs t))
      \<and> iters h e = Some \<lparr>it_list = Some l, it_current_node = Some (fst (full (Shape g xs t) ! m))\<rparr>"
    using P(2) assms(3) l(2) unfolding iters_ok_def by fastforce
  have items: "al_items L = map snd xs" using L assms(4) by simp
  define pos where "pos = (case first_match cmp target (al_items L) k m of None \<Rightarrow> m | Some j \<Rightarrow> j)"
  have pos: "pos < length (full (Shape g xs t))"
    using e first_match_bound [of cmp target "al_items L" k m] items
    by (auto simp: pos_def less_Suc_eq_le split: option.split)
  define i where "i = Suc (ticks (arena h))"
  define h' where "h' = h\<lparr>arena := tick (arena h), iters := (iters h)(i \<mapsto>
      \<lparr>it_list = Some l, it_current_node = Some (fst (full (Shape g xs t) ! pos))\<rparr>)\<rparr>"
  have "find_loop h r (Some (fst (full (Shape g xs t) ! m))) target cmp (Some (fst (full (Shape g xs t) ! k)))
    = Some (map_option (\<lambda>j. fst (full (Shape g xs t) ! j)) (first_match cmp target (al_items L) k m))"
    unfolding items by (rule find_loop_eq [OF ok]) (use k e in auto)
  then have "generic_linked_list_iterator_find (Some b) (Some e) target (Some cmp) (Some v) h
      = Some (0, Some (Some i), h')"
    using b e l(1) assms(5)
    by (auto simp: generic_linked_list_iterator_find_def heap_simps h'_def i_def pos_def
      simp del: full.simps split: option.split)
  with fresh_iter [OF P l(2) pos assms(5) i_def h'_def] show ?thesis
    unfolding M pos_def by blast
qed

lemma range_items_step:
  assumes "k \<le> length items"
  shows "range_items items k m = (if k = m then []
     else (NULL # items) ! k # range_items items (Suc k) m)"
  using assms by (auto simp: range_items_def upt_conv_Cons simp del: upt_Suc)

lemma for_each_loop_eq:
  assumes ok: "list_ok (nodes h) r (Shape g xs t)" and "k \<le> Suc (length xs)" and "m \<le> Suc (length xs)"
  shows "for_each_loop h (Some (fst (full (Shape g xs t) ! m))) (ll_tail_guard r) f
      (Some (fst (full (Shape g xs t) ! k))) w
    = visit_all f (range_items (map snd xs) k m) w"
  using assms(2)
proof (induction "Suc (length xs) - k" arbitrary: k w)
  case 0
  then have k: "k = Suc (length xs)" by simp
  then have "ll_tail_guard r = Some (fst (full (Shape g xs t) ! k))"
    using full_nth_eq_guard(2) [OF ok, of k] by simp
  with k assms(3) show ?case
    by (simp add: for_each_loop.simps range_items_def del: full.simps)
next
  case (Suc d)
  then have k: "k \<le> length xs" by simp
  let ?f = "full (Shape g xs t)"
  have step: "for_each_loop h (Some (fst (?f ! m))) (ll_tail_guard r) f (Some (fst (?f ! k))) w =
     (if k = m then Some w else do { w \<leftarrow> f (snd (?f ! k)) w;
        for_each_loop h (Some (fst (?f ! m))) (ll_tail_guard r) f (Some (fst (?f ! Suc k))) w })"
    using k pos_view [OF ok k] pos_eq [OF ok Suc.prems assms(3)] full_nth_eq_guard [OF ok, of k]
    by (subst for_each_loop.simps) (auto simp: node_at_def simp del: full.simps)
  have IH: "for_each_loop h (Some (fst (?f ! m))) (ll_tail_guard r) f (Some (fst (?f ! Suc k))) w
      = visit_all f (range_items (map snd xs) (Suc k) m) w" for w
    by (rule Suc.hyps(1)) (use Suc.hyps(2) k in auto)
  have "snd (?f ! k) = (NULL # map snd xs) ! k"
    using k by (cases k) (auto simp: nth_append)
  then show ?case
    unfolding step IH using range_items_step [of k "map snd xs" m] k by (simp del: full.simps)
qed

lemma for_each_spec:
  assumes "ll_rep h M I" and "I b = Some (l, k)" and "I e = Some (l, m)" and "M l = Some L"
  shows "generic_linked_list_iterator_for_each (Some b) (Some e) (Some f) h
    = map_option (\<lambda>w. (0, h\<lparr>world := w\<rparr>)) (visit_all f (range_items (al_items L) k m) (world h))"
    and "ll_rep (h\<lparr>world := w\<rparr>) M I"
proof -
  show "ll_rep (h\<lparr>world := w\<rparr>) M I" by (rule ll_rep_cong [OF assms(1)]) simp_all
  obtain r g xs t where "lists h l = Some r" and ok: "list_ok (nodes h) r (Shape g xs t)"
    and items: "al_items L = map snd xs" and km: "k \<le> Suc (length xs)" "m \<le> Suc (length xs)"
    and "iters h b = Some \<lparr>it_list = Some l, it_current_node = Some (fst (full (Shape g xs t) ! k))\<rparr>"
    and "iters h e = Some \<lparr>it_list = Some l, it_current_node = Some (fst (full (Shape g xs t) ! m))\<rparr>"
    by (rule range_repE [OF assms])
  then show "generic_linked_list_iterator_for_each (Some b) (Some e) (Some f) h
    = map_option (\<lambda>w. (0, h\<lparr>world := w\<rparr>)) (visit_all f (range_items (al_items L) k m) (world h))"
    using for_each_loop_eq [OF ok km, of f "world h"]
    by (cases "visit_all f (range_items (al_items L) k m) (world h)")
      (simp_all add: generic_linked_list_iterator_for_each_def heap_simps del: full.simps)
qed

end
