(* ===== verification/Fifo.thy ===== *)
theory Fifo
  imports Linked_List
begin

text \<open>
  The contract between a queue and its clients.  The locale \<open>fifo\<close> fixes an enqueue and a dequeue
  operation in the form the C interfaces have them, and assumes three laws: what an enqueue
  appends, what a dequeue takes, what a dequeue of an empty queue does.  From the laws alone
  follows the result of every sequence of operations (\<open>run_ops_refines\<close>).  The queue and the
  synchronised queue interpret the locale.
\<close>

section \<open>Sequences of operations\<close>

datatype 'd qop = Enq "'d ptr" | Deq

text \<open>The reference: an abstract queue, with the values that its dequeues return.\<close>

fun spec_ops :: "'d qop list \<Rightarrow> 'd ptr list \<Rightarrow> 'd ptr list \<times> 'd ptr list" where
  "spec_ops [] xs = ([], xs)"
| "spec_ops (Enq d # ops) xs = spec_ops ops (xs @ [d])"
| "spec_ops (Deq # ops) [] = (case spec_ops ops [] of (rs, ys) \<Rightarrow> (NULL # rs, ys))"
| "spec_ops (Deq # ops) (x # xs) = (case spec_ops ops xs of (rs, ys) \<Rightarrow> (x # rs, ys))"

fun enqueues :: "'d qop list \<Rightarrow> nat" where
  "enqueues [] = 0"
| "enqueues (Enq d # ops) = Suc (enqueues ops)"
| "enqueues (Deq # ops) = enqueues ops"

text \<open>A client that runs the operations one after the other and stops at an error.\<close>

fun run_ops ::
  "('q ptr \<Rightarrow> 'd ptr \<Rightarrow> 'h \<Rightarrow> (exit_code, 'h) res)
    \<Rightarrow> ('q ptr \<Rightarrow> 'd ptr out \<Rightarrow> 'h \<Rightarrow> (exit_code \<times> 'd ptr out \<times> 'h) option)
    \<Rightarrow> 'q ptr \<Rightarrow> 'd qop list \<Rightarrow> 'h \<Rightarrow> ('d ptr list \<times> 'h) option" where
  "run_ops enq deq q [] h = Some ([], h)"
| "run_ops enq deq q (Enq d # ops) h = do {
     (r, h) \<leftarrow> enq q d h;
     if r = 0 then run_ops enq deq q ops h else None }"
| "run_ops enq deq q (Deq # ops) h = do {
     (r, out, h) \<leftarrow> deq q (Some NULL) h;
     x \<leftarrow> out;
     if r = 0 then do {
       (xs, h) \<leftarrow> run_ops enq deq q ops h;
       Some (x # xs, h) }
     else None }"

lemma spec_ops_drain:
  "spec_ops (replicate (length xs) Deq) xs = (xs, [])"
  by (induction xs) simp_all

lemma spec_ops_fill:
  "spec_ops (map Enq ds @ ops) xs = spec_ops ops (xs @ ds)"
  by (induction ds arbitrary: xs) simp_all

lemma enqueues_append [simp]: "enqueues (xs @ ys) = enqueues xs + enqueues ys"
  by (induction xs rule: enqueues.induct) simp_all

lemma enqueues_map_Enq [simp]: "enqueues (map Enq ds) = length ds"
  by (induction ds) simp_all

lemma enqueues_replicate_Deq [simp]: "enqueues (replicate n Deq) = 0"
  by (induction n) simp_all

section \<open>The contract\<close>

locale fifo =
  fixes rep :: "'h \<Rightarrow> ('q \<rightharpoonup> ('d, 'w) alist) \<Rightarrow> bool"
    and enq :: "'q ptr \<Rightarrow> 'd ptr \<Rightarrow> 'h \<Rightarrow> (exit_code, 'h) res"
    and deq :: "'q ptr \<Rightarrow> 'd ptr out \<Rightarrow> 'h \<Rightarrow> (exit_code \<times> 'd ptr out \<times> 'h) option"
    and sys :: "'h \<Rightarrow> allocator"
    and st :: "'h \<Rightarrow> 'w"
  assumes enq_law: "rep h Q \<Longrightarrow> Q q = Some L \<Longrightarrow> \<not> refused (sys h) \<Longrightarrow>
      al_store L d (st h) = Some (0, d', w) \<Longrightarrow>
      \<exists>h'. enq (Some q) d h = Some (0, h') \<and> rep h' (Q(q \<mapsto> L\<lparr>al_items := al_items L @ [d']\<rparr>))
        \<and> st h' = w \<and> sys h' = tick (sys h)"
    and deq_law: "rep h Q \<Longrightarrow> Q q = Some L \<Longrightarrow> al_items L = x # xs \<Longrightarrow>
      \<exists>h'. deq (Some q) (Some v) h = Some (0, Some x, h') \<and> rep h' (Q(q \<mapsto> L\<lparr>al_items := xs\<rparr>))
        \<and> st h' = st h \<and> sys h' = sys h"
    and deq_empty_law: "rep h Q \<Longrightarrow> Q q = Some L \<Longrightarrow> al_items L = [] \<Longrightarrow>
      \<exists>h'. deq (Some q) (Some v) h = Some (0, Some NULL, h') \<and> rep h' Q \<and> st h' = st h \<and> sys h' = sys h"
begin

lemma run_ops_refines:
  assumes "rep h Q" and "Q q = Some L" and "al_copy L = NULL" and "grants (enqueues ops) (sys h)"
  shows "\<exists>h'. run_ops enq deq (Some q) ops h = Some (fst (spec_ops ops (al_items L)), h')
    \<and> rep h' (Q(q \<mapsto> L\<lparr>al_items := snd (spec_ops ops (al_items L))\<rparr>)) \<and> st h' = st h"
  using assms
proof (induction ops arbitrary: h Q L)
  case Nil
  then have "Q(q \<mapsto> L\<lparr>al_items := al_items L\<rparr>) = Q" by (simp add: fun_upd_idem_iff)
  with Nil show ?case by simp
next
  case (Cons op ops)
  note IH = Cons.IH and prems = Cons.prems
  show ?case
  proof (cases op)
    case (Enq d)
    let ?L = "L\<lparr>al_items := al_items L @ [d]\<rparr>"
    have "\<not> refused (sys h)" and g: "grants (enqueues ops) (tick (sys h))"
      using Cons.prems(4) Enq by (simp_all add: grants_Suc)
    then obtain h1 where h1: "enq (Some q) d h = Some (0, h1)" "rep h1 (Q(q \<mapsto> ?L))"
      "st h1 = st h" "sys h1 = tick (sys h)"
      using enq_law [OF Cons.prems(1,2), of d d "st h"] Cons.prems(3) by (auto simp: al_store_def)
    with IH [OF h1(2), of ?L, unfolded fun_upd_upd] g prems(3) Enq show ?thesis by simp
  next
    case Deq
    show ?thesis
    proof (cases "al_items L")
      case Nil
      with deq_empty_law [OF Cons.prems(1,2), of NULL] obtain h1 where
        h1: "deq (Some q) (Some NULL) h = Some (0, Some NULL, h1)" "rep h1 Q" "st h1 = st h" "sys h1 = sys h"
        by auto
      moreover obtain rs ys where "spec_ops ops [] = (rs, ys)" by (cases "spec_ops ops []")
      ultimately show ?thesis using IH [OF h1(2) prems(2)] prems Deq Nil by auto
    next
      case (Cons x xs)
      note items = Cons
      let ?L = "L\<lparr>al_items := xs\<rparr>"
      obtain h1 where h1: "deq (Some q) (Some NULL) h = Some (0, Some x, h1)" "rep h1 (Q(q \<mapsto> ?L))"
        "st h1 = st h" "sys h1 = sys h"
        using deq_law [OF prems(1,2) items, of NULL] by auto
      moreover obtain rs ys where "spec_ops ops xs = (rs, ys)" by (cases "spec_ops ops xs")
      ultimately show ?thesis using IH [OF h1(2), of ?L, unfolded fun_upd_upd] prems Deq items by auto
    qed
  qed
qed

text \<open>First in, first out.\<close>

lemma drain_in_order:
  assumes "rep h Q" and "Q q = Some L" and "al_copy L = NULL" and "al_items L = []"
    and "grants (length ds) (sys h)"
  shows "\<exists>h'. run_ops enq deq (Some q) (map Enq ds @ replicate (length ds) Deq) h = Some (ds, h')
    \<and> rep h' Q \<and> st h' = st h"
proof -
  have "Q(q \<mapsto> L\<lparr>al_items := []\<rparr>) = Q" using assms(2,4) by (cases L) (simp add: fun_upd_idem_iff)
  with run_ops_refines [OF assms(1-3), of "map Enq ds @ replicate (length ds) Deq"] assms(4,5)
  show ?thesis by (simp add: spec_ops_fill spec_ops_drain)
qed

end

end
