(* ===== verification/Queue.thy ===== *)
theory Queue
  imports List_Iterator Fifo
begin

text \<open>
  The queue of \<^verbatim>\<open>src/generic_queue.c\<close>: a structure that owns one linked list.

  \<^item> The heap of the list component is extended by the queue structures.
  \<^item> \<open>q_rep h Q\<close> relates a heap to its abstract queues: every queue owns exactly one list, every
    list belongs to a queue, and no iterator is left over from an earlier call.
  \<^item> The locale \<open>fifo\<close> states what a client may expect of a queue's enqueue and dequeue, and
    derives from that the result of arbitrary sequences of operations.
\<close>

section \<open>Structures\<close>

record generic_queue_t =
  q_list :: "addr ptr"

record ('d, 'w) q_heap = "('d, 'w) ll_heap" +
  queues :: "addr \<rightharpoonup> generic_queue_t"

type_synonym ('d, 'w, 'z) qh = "('d, 'w, 'z) q_heap_scheme"

definition malloc_queue :: "('d, 'w, 'z) qh \<Rightarrow> addr ptr \<times> ('d, 'w, 'z) qh" where
  "malloc_queue h = (case malloc (arena h) of
     (NULL, A) \<Rightarrow> (NULL, h\<lparr>arena := A\<rparr>)
   | (Some a, A) \<Rightarrow> (Some a, h\<lparr>arena := A, queues := (queues h)(a \<mapsto> \<lparr>q_list = NULL\<rparr>)\<rparr>))"

definition queue_at :: "('d, 'w, 'z) qh \<Rightarrow> addr ptr \<Rightarrow> generic_queue_t option" where
  "queue_at h p = Option.bind p (queues h)"

definition modify_queue ::
  "addr ptr \<Rightarrow> (generic_queue_t \<Rightarrow> generic_queue_t) \<Rightarrow> ('d, 'w, 'z) qh \<Rightarrow> ('d, 'w, 'z) qh option" where
  "modify_queue p f h = do {
     a \<leftarrow> p;
     q \<leftarrow> queues h a;
     Some (h\<lparr>queues := (queues h)(a \<mapsto> f q)\<rparr>) }"

definition free_queue :: "addr ptr \<Rightarrow> ('d, 'w, 'z) qh \<Rightarrow> ('d, 'w, 'z) qh option" where
  "free_queue p h = (case p of NULL \<Rightarrow> Some h
     | Some a \<Rightarrow> if queues h a = None then None else Some (h\<lparr>queues := (queues h)(a := None)\<rparr>))"

section \<open>The queue functions\<close>

definition generic_queue_new ::
  "addr ptr out \<Rightarrow> ('d, 'w, 'z) qh \<Rightarrow> (exit_code \<times> addr ptr out \<times> ('d, 'w, 'z) qh) option" where
  "generic_queue_new out_self h = (case out_self of NULL \<Rightarrow> Some (1, out_self, h)
   | Some _ \<Rightarrow> do {
       let (self, h) = malloc_queue h;
       if self = NULL then Some (-1, out_self, h)
       else do {
         (exit_code, field, h) \<leftarrow> generic_linked_list_new (Some NULL) h;
         ll \<leftarrow> field;
         h \<leftarrow> modify_queue self (\<lambda>q. q\<lparr>q_list := ll\<rparr>) h;
         if exit_code \<noteq> 0 then do {
           h \<leftarrow> free_queue self h;
           Some (exit_code, Some NULL, h) }
         else Some (0, Some self, h) } })"

definition generic_queue_free ::
  "addr ptr \<Rightarrow> ('d, 'w, 'z) qh \<Rightarrow> (exit_code, ('d, 'w, 'z) qh) res" where
  "generic_queue_free self h =
     (if self = NULL then Some (1, h)
      else do {
        q \<leftarrow> queue_at h self;
        (exit_code, h) \<leftarrow> generic_linked_list_free (q_list q) h;
        if exit_code \<noteq> 0 then Some (exit_code, h)
        else do {
          h \<leftarrow> free_queue self h;
          Some (0, h) } })"

definition generic_queue_set_free_function ::
  "addr ptr \<Rightarrow> ('d, 'w) free_fn ptr \<Rightarrow> ('d, 'w, 'z) qh \<Rightarrow> (exit_code, ('d, 'w, 'z) qh) res" where
  "generic_queue_set_free_function self free_function h =
     (if self = NULL then Some (1, h)
      else do {
        q \<leftarrow> queue_at h self;
        generic_linked_list_set_free_function (q_list q) free_function h })"

definition generic_queue_get_free_function ::
  "addr ptr \<Rightarrow> ('d, 'w) free_fn ptr out \<Rightarrow> ('d, 'w, 'z) qh \<Rightarrow> (exit_code \<times> ('d, 'w) free_fn ptr out) option" where
  "generic_queue_get_free_function self out_free_function h =
     (if self = NULL then Some (1, out_free_function)
      else if out_free_function = NULL then Some (1, out_free_function)
      else do {
        q \<leftarrow> queue_at h self;
        generic_linked_list_get_free_function (q_list q) out_free_function h })"

definition generic_queue_set_copy_function ::
  "addr ptr \<Rightarrow> ('d, 'w) copy_fn ptr \<Rightarrow> ('d, 'w, 'z) qh \<Rightarrow> (exit_code, ('d, 'w, 'z) qh) res" where
  "generic_queue_set_copy_function self copy_function h =
     (if self = NULL then Some (1, h)
      else do {
        q \<leftarrow> queue_at h self;
        generic_linked_list_set_copy_function (q_list q) copy_function h })"

definition generic_queue_get_copy_function ::
  "addr ptr \<Rightarrow> ('d, 'w) copy_fn ptr out \<Rightarrow> ('d, 'w, 'z) qh \<Rightarrow> (exit_code \<times> ('d, 'w) copy_fn ptr out) option" where
  "generic_queue_get_copy_function self out_copy_function h =
     (if self = NULL then Some (1, out_copy_function)
      else if out_copy_function = NULL then Some (1, out_copy_function)
      else do {
        q \<leftarrow> queue_at h self;
        generic_linked_list_get_copy_function (q_list q) out_copy_function h })"

definition generic_queue_size ::
  "addr ptr \<Rightarrow> size_t out \<Rightarrow> ('d, 'w, 'z) qh \<Rightarrow> (exit_code \<times> size_t out) option" where
  "generic_queue_size self out_size h =
     (if self = NULL then Some (1, out_size)
      else if out_size = NULL then Some (1, out_size)
      else do {
        q \<leftarrow> queue_at h self;
        generic_linked_list_size (q_list q) out_size h })"

definition generic_queue_is_empty :: "addr ptr \<Rightarrow> ('d, 'w, 'z) qh \<Rightarrow> exit_code option" where
  "generic_queue_is_empty self h =
     (if self = NULL then Some (-1)
      else do {
        q \<leftarrow> queue_at h self;
        generic_linked_list_is_empty (q_list q) h })"

definition generic_queue_enqueue ::
  "addr ptr \<Rightarrow> 'd ptr \<Rightarrow> ('d, 'w, 'z) qh \<Rightarrow> (exit_code, ('d, 'w, 'z) qh) res" where
  "generic_queue_enqueue self data h =
     (if self = NULL then Some (1, h)
      else do {
        q \<leftarrow> queue_at h self;
        generic_linked_list_insert_last (q_list q) data h })"

definition generic_queue_dequeue ::
  "addr ptr \<Rightarrow> 'd ptr out \<Rightarrow> ('d, 'w, 'z) qh \<Rightarrow> (exit_code \<times> 'd ptr out \<times> ('d, 'w, 'z) qh) option" where
  "generic_queue_dequeue self out_data h =
     (if self = NULL then Some (1, out_data, h)
      else do {
        q \<leftarrow> queue_at h self;
        generic_linked_list_remove_first (q_list q) out_data h })"

definition generic_queue_peek ::
  "addr ptr \<Rightarrow> 'd ptr out \<Rightarrow> ('d, 'w, 'z) qh \<Rightarrow> (exit_code \<times> 'd ptr out \<times> ('d, 'w, 'z) qh) option" where
  "generic_queue_peek self out_data h =
     (if self = NULL then Some (1, out_data, h)
      else if out_data = NULL then Some (1, out_data, h)
      else do {
        q \<leftarrow> queue_at h self;
        empty \<leftarrow> generic_linked_list_is_empty (q_list q) h;
        if empty \<noteq> 0 then Some (0, Some NULL, h)
        else do {
          (exit_code, out_iter, h) \<leftarrow> generic_linked_list_iterator_begin (q_list q) (Some NULL) h;
          iter \<leftarrow> out_iter;
          if exit_code \<noteq> 0 then Some (exit_code, out_data, h)
          else do {
            (exit_code, out_data) \<leftarrow> generic_linked_list_iterator_get iter out_data h;
            (_, h) \<leftarrow> generic_linked_list_iterator_free iter h;
            Some (exit_code, out_data, h) } } })"

definition generic_queue_peek_rear ::
  "addr ptr \<Rightarrow> 'd ptr out \<Rightarrow> ('d, 'w, 'z) qh \<Rightarrow> (exit_code \<times> 'd ptr out \<times> ('d, 'w, 'z) qh) option" where
  "generic_queue_peek_rear self out_data h =
     (if self = NULL then Some (1, out_data, h)
      else if out_data = NULL then Some (1, out_data, h)
      else do {
        q \<leftarrow> queue_at h self;
        empty \<leftarrow> generic_linked_list_is_empty (q_list q) h;
        if empty \<noteq> 0 then Some (0, Some NULL, h)
        else do {
          (exit_code, out_iter, h) \<leftarrow> generic_linked_list_iterator_reverse_begin (q_list q) (Some NULL) h;
          iter \<leftarrow> out_iter;
          if exit_code \<noteq> 0 then Some (exit_code, out_data, h)
          else do {
            (exit_code, out_data) \<leftarrow> generic_linked_list_iterator_get iter out_data h;
            (_, h) \<leftarrow> generic_linked_list_iterator_free iter h;
            Some (exit_code, out_data, h) } } })"

text \<open>The loop \<open>while (!generic_linked_list_is_empty (...))\<close> of \<open>generic_queue_clear\<close>.\<close>

partial_function (option) clear_loop ::
  "addr ptr \<Rightarrow> ('d, 'w, 'z) qh \<Rightarrow> (exit_code, ('d, 'w, 'z) qh) res" where
  "clear_loop ll h = do {
     empty \<leftarrow> generic_linked_list_is_empty ll h;
     if empty \<noteq> 0 then Some (0, h)
     else do {
       (exit_code, _, h) \<leftarrow> generic_linked_list_remove_first ll NULL h;
       if exit_code \<noteq> 0 then Some (exit_code, h)
       else clear_loop ll h } }"

definition generic_queue_clear ::
  "addr ptr \<Rightarrow> ('d, 'w, 'z) qh \<Rightarrow> (exit_code, ('d, 'w, 'z) qh) res" where
  "generic_queue_clear self h =
     (if self = NULL then Some (1, h)
      else do {
        q \<leftarrow> queue_at h self;
        clear_loop (q_list q) h })"

definition generic_queue_contains ::
  "addr ptr \<Rightarrow> 'd ptr \<Rightarrow> 'd compare_fn ptr \<Rightarrow> ('d, 'w, 'z) qh \<Rightarrow> (exit_code, ('d, 'w, 'z) qh) res" where
  "generic_queue_contains self target compare h =
     (if self = NULL then Some (-1, h)
      else if compare = NULL then Some (-1, h)
      else do {
        q \<leftarrow> queue_at h self;
        (exit_code, out_begin, h) \<leftarrow> generic_linked_list_iterator_begin (q_list q) (Some NULL) h;
        it_begin \<leftarrow> out_begin;
        if exit_code \<noteq> 0 then Some (-1, h)
        else do {
          (exit_code, out_end, h) \<leftarrow> generic_linked_list_iterator_end (q_list q) (Some NULL) h;
          it_end \<leftarrow> out_end;
          if exit_code \<noteq> 0 then do {
            (_, h) \<leftarrow> generic_linked_list_iterator_free it_begin h;
            Some (-1, h) }
          else do {
            (exit_code, out_found, h) \<leftarrow>
              generic_linked_list_iterator_find it_begin it_end target compare (Some NULL) h;
            found \<leftarrow> out_found;
            if exit_code \<noteq> 0 then do {
              (_, h) \<leftarrow> generic_linked_list_iterator_free it_begin h;
              (_, h) \<leftarrow> generic_linked_list_iterator_free it_end h;
              Some (-1, h) }
            else do {
              valid \<leftarrow> generic_linked_list_iterator_is_valid found h;
              (_, h) \<leftarrow> generic_linked_list_iterator_free it_begin h;
              (_, h) \<leftarrow> generic_linked_list_iterator_free it_end h;
              (_, h) \<leftarrow> generic_linked_list_iterator_free found h;
              Some (if valid = 0 then 1 else 0, h) } } } })"

definition generic_queue_for_each ::
  "addr ptr \<Rightarrow> ('d, 'w) free_fn ptr \<Rightarrow> ('d, 'w, 'z) qh \<Rightarrow> (exit_code, ('d, 'w, 'z) qh) res" where
  "generic_queue_for_each self apply_fn h =
     (if self = NULL then Some (1, h)
      else if apply_fn = NULL then Some (1, h)
      else do {
        q \<leftarrow> queue_at h self;
        (exit_code, out_begin, h) \<leftarrow> generic_linked_list_iterator_begin (q_list q) (Some NULL) h;
        it_begin \<leftarrow> out_begin;
        if exit_code \<noteq> 0 then Some (exit_code, h)
        else do {
          (exit_code, out_end, h) \<leftarrow> generic_linked_list_iterator_end (q_list q) (Some NULL) h;
          it_end \<leftarrow> out_end;
          if exit_code \<noteq> 0 then do {
            (_, h) \<leftarrow> generic_linked_list_iterator_free it_begin h;
            Some (exit_code, h) }
          else do {
            (exit_code, h) \<leftarrow> generic_linked_list_iterator_for_each it_begin it_end apply_fn h;
            (_, h) \<leftarrow> generic_linked_list_iterator_free it_begin h;
            (_, h) \<leftarrow> generic_linked_list_iterator_free it_end h;
            Some (exit_code, h) } } })"

section \<open>Representation\<close>

definition q_link ::
  "(addr \<rightharpoonup> generic_queue_t) \<Rightarrow> (addr \<rightharpoonup> ('d, 'w) alist) \<Rightarrow> (addr \<rightharpoonup> ('d, 'w) alist) \<Rightarrow> bool" where
  "q_link QS M Q \<longleftrightarrow> owns (map_option q_list \<circ> QS) M Q"

definition q_rep :: "('d, 'w, 'z) qh \<Rightarrow> (addr \<rightharpoonup> ('d, 'w) alist) \<Rightarrow> bool" where
  "q_rep h Q \<longleftrightarrow> (\<exists>M. ll_rep h M Map.empty \<and> q_link (queues h) M Q) \<and> iters h = Map.empty
     \<and> dom (queues h) \<subseteq> {1..min (ticks (arena h)) block_limit}"

text \<open>What the queue functions leave untouched: the structures of the components above.\<close>

abbreviation same_q_frame :: "('d, 'w, 'z) qh \<Rightarrow> ('d, 'w, 'z) qh \<Rightarrow> bool" where
  "same_q_frame h h' \<equiv> q_heap.more h' = q_heap.more h"

lemma same_frameD:
  fixes h h' :: "('d, 'w, 'z) qh"
  assumes "same_frame h h'"
  shows "queues h' = queues h" and "same_q_frame h h'"
  using assms by (cases h; cases h'; simp)+

lemma q_repE:
  assumes "q_rep h Q" and "Q q = Some L"
  obtains l M where "ll_rep h M Map.empty" and "q_link (queues h) M Q"
    and "queues h q = Some \<lparr>q_list = Some l\<rparr>" and "M l = Some L"
proof -
  from assms obtain M where M: "ll_rep h M Map.empty" "q_link (queues h) M Q"
    by (auto simp: q_rep_def)
  then obtain l where "(map_option q_list \<circ> queues h) q = Some (Some l)" "M l = Some L"
    by (elim ownsE' [OF M(2) [unfolded q_link_def] assms(2)])
  with M show thesis by (intro that [OF M, of l]) (auto intro: generic_queue_t.equality)
qed

lemma q_link_update:
  assumes "q_link QS M Q" and "QS q = Some \<lparr>q_list = Some l\<rparr>"
  shows "q_link QS (M(l \<mapsto> L)) (Q(q \<mapsto> L))"
  using assms unfolding q_link_def by (intro owns_update) auto

text \<open>An operation on a list of the queue component is an operation on the queue that owns it.\<close>

lemma q_rep_list:
  assumes "q_rep h Q" and "q_link (queues h) M Q" and "queues h q = Some \<lparr>q_list = Some l\<rparr>"
    and "ll_rep h' (M(l \<mapsto> L)) Map.empty" and "same_frame h h'" and "iters h' = iters h"
    and "ticks (arena h) \<le> ticks (arena h')"
  shows "q_rep h' (Q(q \<mapsto> L)) \<and> same_q_frame h h'"
proof -
  have "queues h' = queues h" "same_q_frame h h'" using same_frameD [OF assms(5)] by auto
  moreover have "dom (queues h) \<subseteq> {1..min (ticks (arena h')) block_limit}"
    using assms(1,7) unfolding q_rep_def by (auto 0 3)
  ultimately show ?thesis
    using assms q_link_update [OF assms(2,3), of L] unfolding q_rep_def by auto
qed

lemma q_rep_same:
  assumes "q_rep h Q" and "ll_rep h M Map.empty" and "q_link (queues h) M Q"
    and "ll_rep h' M Map.empty" and "same_frame h h'" and "iters h' = iters h"
    and "ticks (arena h) \<le> ticks (arena h')"
  shows "q_rep h' Q \<and> same_q_frame h h'"
proof -
  have "queues h' = queues h" "same_q_frame h h'" using same_frameD [OF assms(5)] by auto
  moreover have "dom (queues h) \<subseteq> {1..min (ticks (arena h')) block_limit}"
    using assms(1,7) unfolding q_rep_def by (auto 0 3)
  ultimately show ?thesis using assms unfolding q_rep_def by auto
qed

section \<open>Specifications\<close>

lemma queue_enqueue_spec:
  assumes rep: "q_rep h Q" "Q q = Some L" and "\<not> refused (arena h)"
    and "al_store L d (world h) = Some (0, d', w)"
  shows "\<exists>h'. generic_queue_enqueue (Some q) d h = Some (0, h')
    \<and> q_rep h' (Q(q \<mapsto> L\<lparr>al_items := al_items L @ [d']\<rparr>))
    \<and> world h' = w \<and> arena h' = tick (arena h) \<and> same_q_frame h h'"
proof -
  obtain l M where M: "ll_rep h M Map.empty" "q_link (queues h) M Q"
    and q: "queues h q = Some \<lparr>q_list = Some l\<rparr>" and l: "M l = Some L"
    by (rule q_repE [OF rep])
  obtain h' where "generic_linked_list_insert_last (Some l) d h = Some (0, h')"
    "ll_rep h' (M(l \<mapsto> L\<lparr>al_items := al_items L @ [d']\<rparr>)) Map.empty"
    "world h' = w" "arena h' = tick (arena h)" "iters h' = iters h" "same_frame h h'"
    using insert_last_spec [OF M(1) l assms(3,4)] by auto
  with q_rep_list [OF rep(1) M(2) q] q show ?thesis
    by (auto simp: generic_queue_enqueue_def queue_at_def)
qed

lemma queue_enqueue_refused:
  assumes rep: "q_rep h Q" "Q q = Some L" and "refused (arena h)"
  shows "\<exists>h'. generic_queue_enqueue (Some q) d h = Some (-1, h') \<and> q_rep h' Q
    \<and> world h' = world h \<and> arena h' = tick (arena h) \<and> same_q_frame h h'"
proof -
  obtain l M where M: "ll_rep h M Map.empty" "q_link (queues h) M Q"
    and q: "queues h q = Some \<lparr>q_list = Some l\<rparr>" and l: "M l = Some L"
    by (rule q_repE [OF rep])
  obtain h' where "generic_linked_list_insert_last (Some l) d h = Some (-1, h')"
    "ll_rep h' M Map.empty" "world h' = world h" "arena h' = tick (arena h)" "iters h' = iters h"
    "same_frame h h'"
    using insert_refused [OF M(1) assms(3), of l d] by auto
  with q_rep_same [OF rep(1) M] q show ?thesis
    by (auto simp: generic_queue_enqueue_def queue_at_def)
qed

lemma queue_enqueue_copy_fails:
  assumes rep: "q_rep h Q" "Q q = Some L" and "\<not> refused (arena h)"
    and "al_store L d (world h) = Some (r, d', w)" "r \<noteq> 0"
  shows "\<exists>h'. generic_queue_enqueue (Some q) d h = Some (r, h') \<and> q_rep h' Q
    \<and> world h' = w \<and> arena h' = tick (arena h) \<and> same_q_frame h h'"
proof -
  obtain l M where M: "ll_rep h M Map.empty" "q_link (queues h) M Q"
    and q: "queues h q = Some \<lparr>q_list = Some l\<rparr>" and l: "M l = Some L"
    by (rule q_repE [OF rep])
  obtain h' where "generic_linked_list_insert_last (Some l) d h = Some (r, h')"
    "ll_rep h' M Map.empty" "world h' = w" "arena h' = tick (arena h)" "iters h' = iters h"
    "same_frame h h'"
    using insert_copy_fails [OF M(1) l assms(3-5)] by auto
  with q_rep_same [OF rep(1) M] q show ?thesis
    by (auto simp: generic_queue_enqueue_def queue_at_def)
qed

lemma queue_dequeue_spec:
  assumes rep: "q_rep h Q" "Q q = Some L" and items: "al_items L = d # ds"
    and "out \<noteq> NULL \<or> al_free L \<noteq> NULL" and "al_give L d out (world h) = Some (out', w)"
  shows "\<exists>h'. generic_queue_dequeue (Some q) out h = Some (0, out', h')
    \<and> q_rep h' (Q(q \<mapsto> L\<lparr>al_items := ds\<rparr>))
    \<and> world h' = w \<and> arena h' = arena h \<and> same_q_frame h h'"
proof -
  obtain l M where M: "ll_rep h M Map.empty" "q_link (queues h) M Q"
    and q: "queues h q = Some \<lparr>q_list = Some l\<rparr>" and l: "M l = Some L"
    by (rule q_repE [OF rep])
  obtain h' where "generic_linked_list_remove_first (Some l) out h = Some (0, out', h')"
    "ll_rep h' (M(l \<mapsto> L\<lparr>al_items := ds\<rparr>)) Map.empty"
    "world h' = w" "arena h' = arena h" "iters h' = iters h" "same_frame h h'"
    using remove_first_spec [OF M(1) l items assms(4,5)] by auto
  with q_rep_list [OF rep(1) M(2) q] q show ?thesis
    by (auto simp: generic_queue_dequeue_def queue_at_def)
qed

lemma queue_readers:
  assumes rep: "q_rep h Q" "Q q = Some L"
  shows queue_dequeue_empty: "al_items L = [] \<Longrightarrow>
      generic_queue_dequeue (Some q) out h = Some (0, map_option (\<lambda>_. NULL) out, h)"
    and queue_dequeue_nobody: "al_items L \<noteq> [] \<Longrightarrow> al_free L = NULL \<Longrightarrow>
      generic_queue_dequeue (Some q) NULL h = Some (1, NULL, h)"
    and queue_size_spec: "generic_queue_size (Some q) (Some v) h
      = Some (0, Some (of_nat (length (al_items L))))"
    and queue_length_bound: "length (al_items L) \<le> block_limit"
    and queue_is_empty_spec: "generic_queue_is_empty (Some q) h
      = Some (if al_items L = [] then 1 else 0)"
    and queue_get_free_spec: "generic_queue_get_free_function (Some q) (Some f) h = Some (0, Some (al_free L))"
    and queue_get_copy_spec: "generic_queue_get_copy_function (Some q) (Some c) h = Some (0, Some (al_copy L))"
proof -
  obtain l M where M: "ll_rep h M Map.empty" "q_link (queues h) M Q"
    and q: "queues h q = Some \<lparr>q_list = Some l\<rparr>" and l: "M l = Some L"
    by (rule q_repE [OF rep])
  note defs = generic_queue_dequeue_def generic_queue_size_def generic_queue_is_empty_def
    generic_queue_get_free_function_def generic_queue_get_copy_function_def queue_at_def
  show "al_items L = [] \<Longrightarrow> generic_queue_dequeue (Some q) out h = Some (0, map_option (\<lambda>_. NULL) out, h)"
    using q remove_empty [OF M(1) l] by (simp add: defs)
  show "al_items L \<noteq> [] \<Longrightarrow> al_free L = NULL \<Longrightarrow> generic_queue_dequeue (Some q) NULL h = Some (1, NULL, h)"
    using q remove_nobody [OF M(1) l] by (simp add: defs)
  show "generic_queue_size (Some q) (Some v) h = Some (0, Some (of_nat (length (al_items L))))"
    using q size_spec [OF M(1) l] by (simp add: defs)
  show "length (al_items L) \<le> block_limit" using size_spec [OF M(1) l] by simp
  show "generic_queue_is_empty (Some q) h = Some (if al_items L = [] then 1 else 0)"
    using q is_empty_spec [OF M(1) l] by (simp add: defs)
  show "generic_queue_get_free_function (Some q) (Some f) h = Some (0, Some (al_free L))"
    and "generic_queue_get_copy_function (Some q) (Some c) h = Some (0, Some (al_copy L))"
    using q get_function_spec [OF M(1) l] by (simp_all add: defs)
qed

lemma queue_set_functions_spec:
  assumes rep: "q_rep h Q" "Q q = Some L"
  shows "\<exists>h'. generic_queue_set_free_function (Some q) f h = Some (0, h')
      \<and> q_rep h' (Q(q \<mapsto> L\<lparr>al_free := f\<rparr>))
      \<and> world h' = world h \<and> arena h' = arena h \<and> same_q_frame h h'"
    and "\<exists>h'. generic_queue_set_copy_function (Some q) c h = Some (0, h')
      \<and> q_rep h' (Q(q \<mapsto> L\<lparr>al_copy := c\<rparr>))
      \<and> world h' = world h \<and> arena h' = arena h \<and> same_q_frame h h'"
proof -
  obtain l M where M: "ll_rep h M Map.empty" "q_link (queues h) M Q"
    and q: "queues h q = Some \<lparr>q_list = Some l\<rparr>" and l: "M l = Some L"
    by (rule q_repE [OF rep])
  note q_rep_list [OF rep(1) M(2) q]
  with q set_free_function_spec [OF M(1) l, of f]
  show "\<exists>h'. generic_queue_set_free_function (Some q) f h = Some (0, h')
      \<and> q_rep h' (Q(q \<mapsto> L\<lparr>al_free := f\<rparr>))
      \<and> world h' = world h \<and> arena h' = arena h \<and> same_q_frame h h'"
    by (auto simp: generic_queue_set_free_function_def queue_at_def)
  from q set_copy_function_spec [OF M(1) l, of c] q_rep_list [OF rep(1) M(2) q]
  show "\<exists>h'. generic_queue_set_copy_function (Some q) c h = Some (0, h')
      \<and> q_rep h' (Q(q \<mapsto> L\<lparr>al_copy := c\<rparr>))
      \<and> world h' = world h \<and> arena h' = arena h \<and> same_q_frame h h'"
    by (auto simp: generic_queue_set_copy_function_def queue_at_def)
qed

text \<open>An iterator that is opened, used and freed leaves the heap as it was, but for the clock.\<close>

lemma close_iter:
  assumes "ll_rep h M (I(i \<mapsto> (l, k)))" and "I i = None" and "iter_only i h0 h" and "iters h0 i = None"
    and "kept h0 h"
  shows "\<exists>h'. generic_linked_list_iterator_free (Some i) h = Some (0, h') \<and> ll_rep h' M I
    \<and> iters h' = iters h0 \<and> arena h' = arena h \<and> kept h0 h'"
proof -
  obtain h' where h': "generic_linked_list_iterator_free (Some i) h = Some (0, h')"
    "ll_rep h' M (I(i := None))" "iters h' = (iters h)(i := None)" "arena h' = arena h" "kept h h'"
    using iterator_free_spec [OF assms(1), of i l k] by auto
  moreover have "I(i := None) = I" "(iters h0)(i := None) = iters h0"
    using assms(2,4) by (auto simp: fun_upd_idem_iff)
  ultimately show ?thesis using assms(3,5) by auto
qed

lemma queue_peek_spec:
  assumes rep: "q_rep h Q" "Q q = Some L" "al_items L \<noteq> []" and "\<not> refused (arena h)"
  shows "\<exists>h'. generic_queue_peek (Some q) (Some v) h = Some (0, Some (hd (al_items L)), h')
      \<and> q_rep h' Q \<and> world h' = world h \<and> arena h' = tick (arena h) \<and> same_q_frame h h'"
    and "\<exists>h'. generic_queue_peek_rear (Some q) (Some v) h = Some (0, Some (last (al_items L)), h')
      \<and> q_rep h' Q \<and> world h' = world h \<and> arena h' = tick (arena h) \<and> same_q_frame h h'"
proof -
  obtain l M where M: "ll_rep h M Map.empty" "q_link (queues h) M Q"
    and q: "queues h q = Some \<lparr>q_list = Some l\<rparr>" and l: "M l = Some L"
    by (rule q_repE [OF rep(1,2)])
  note e = is_empty_spec [OF M(1) l]
  obtain h1 i where h1: "generic_linked_list_iterator_begin (Some l) (Some NULL) h = Some (0, Some (Some i), h1)"
    "iters h i = None" "ll_rep h1 M [i \<mapsto> (l, 1)]" "iter_only i h h1" "arena h1 = tick (arena h)" "kept h h1"
    using begin_spec [OF M(1) l assms(4), of NULL] by auto
  obtain h2 where "generic_linked_list_iterator_free (Some i) h1 = Some (0, h2)" "ll_rep h2 M Map.empty"
    "iters h2 = iters h" "arena h2 = arena h1" "kept h h2"
    using close_iter [OF h1(3) _ h1(4,2,6)] by auto
  with h1 q e rep(3) get_spec [OF h1(3) _ l, of i 1 v] q_rep_same [OF rep(1) M, of h2]
  show "\<exists>h'. generic_queue_peek (Some q) (Some v) h = Some (0, Some (hd (al_items L)), h')
      \<and> q_rep h' Q \<and> world h' = world h \<and> arena h' = tick (arena h) \<and> same_q_frame h h'"
    by (auto simp: generic_queue_peek_def queue_at_def hd_conv_nth)
  obtain g1 j where g1: "generic_linked_list_iterator_reverse_begin (Some l) (Some NULL) h = Some (0, Some (Some j), g1)"
    "iters h j = None" "ll_rep g1 M [j \<mapsto> (l, length (al_items L))]" "iter_only j h g1"
    "arena g1 = tick (arena h)" "kept h g1"
    using reverse_begin_spec [OF M(1) l assms(4), of NULL] by auto
  obtain g2 where "generic_linked_list_iterator_free (Some j) g1 = Some (0, g2)" "ll_rep g2 M Map.empty"
    "iters g2 = iters h" "arena g2 = arena g1" "kept h g2"
    using close_iter [OF g1(3) _ g1(4,2,6)] by auto
  with g1 q e rep(3) get_spec [OF g1(3) _ l, of j "length (al_items L)" v] q_rep_same [OF rep(1) M, of g2]
  show "\<exists>h'. generic_queue_peek_rear (Some q) (Some v) h = Some (0, Some (last (al_items L)), h')
      \<and> q_rep h' Q \<and> world h' = world h \<and> arena h' = tick (arena h) \<and> same_q_frame h h'"
    by (auto simp: generic_queue_peek_rear_def queue_at_def last_conv_nth)
qed

lemma queue_peek_empty:
  assumes rep: "q_rep h Q" "Q q = Some L" "al_items L = []"
  shows "generic_queue_peek (Some q) (Some v) h = Some (0, Some NULL, h)"
    and "generic_queue_peek_rear (Some q) (Some v) h = Some (0, Some NULL, h)"
proof -
  obtain l M where "ll_rep h M Map.empty" "q_link (queues h) M Q"
    "queues h q = Some \<lparr>q_list = Some l\<rparr>" "M l = Some L"
    by (rule q_repE [OF rep(1,2)])
  with is_empty_spec [of h M Map.empty l L] rep(3)
  show "generic_queue_peek (Some q) (Some v) h = Some (0, Some NULL, h)"
    and "generic_queue_peek_rear (Some q) (Some v) h = Some (0, Some NULL, h)"
    by (simp_all add: generic_queue_peek_def generic_queue_peek_rear_def queue_at_def)
qed

lemma queue_peek_refused:
  assumes rep: "q_rep h Q" "Q q = Some L" "al_items L \<noteq> []" and "refused (arena h)"
  shows "\<exists>h'. generic_queue_peek (Some q) (Some v) h = Some (-1, Some v, h')
    \<and> generic_queue_peek_rear (Some q) (Some v) h = Some (-1, Some v, h')
    \<and> q_rep h' Q \<and> world h' = world h \<and> arena h' = tick (arena h) \<and> same_q_frame h h'"
proof -
  obtain l M where M: "ll_rep h M Map.empty" "q_link (queues h) M Q"
    and q: "queues h q = Some \<lparr>q_list = Some l\<rparr>" and l: "M l = Some L"
    by (rule q_repE [OF rep(1,2)])
  obtain h1 where "generic_linked_list_iterator_begin (Some l) (Some NULL) h = Some (-1, Some NULL, h1)"
    "generic_linked_list_iterator_reverse_begin (Some l) (Some NULL) h = Some (-1, Some NULL, h1)"
    "ll_rep h1 M Map.empty" "iters h1 = iters h" "arena h1 = tick (arena h)" "kept h h1"
    using open_refused [OF M(1) assms(4), of l NULL] by auto
  with q is_empty_spec [OF M(1) l] rep(3) q_rep_same [OF rep(1) M, of h1] show ?thesis
    by (auto simp: generic_queue_peek_def generic_queue_peek_rear_def queue_at_def)
qed

text \<open>
  Clearing a queue that has a free callback ends, empties the queue and passes every stored
  pointer to the callback in order; without one, a queue that is not empty stays as it is.
\<close>

lemma clear_loop_spec:
  assumes "ll_rep h M Map.empty" and "M l = Some L" and "al_free L \<noteq> NULL"
    and "free_all (al_free L) (al_items L) (world h) = Some w"
  shows "\<exists>h'. clear_loop (Some l) h = Some (0, h') \<and> ll_rep h' (M(l \<mapsto> L\<lparr>al_items := []\<rparr>)) Map.empty
    \<and> world h' = w \<and> arena h' = arena h \<and> iters h' = iters h \<and> same_frame h h'"
  using assms
proof (induction "al_items L" arbitrary: h M L)
  case Nil
  then have same: "M(l \<mapsto> L\<lparr>al_items := []\<rparr>) = M" by (cases L) (auto simp: fun_upd_idem_iff)
  from Nil is_empty_spec [OF Nil(2,3)] show ?case
    unfolding same by (auto simp: clear_loop.simps)
next
  case (Cons d ds)
  obtain w1 where w1: "al_give L d NULL (world h) = Some (NULL, w1)" "free_all (al_free L) ds w1 = Some w"
    using Cons.prems(3,4) Cons.hyps(2) [symmetric]
    by (auto simp: al_give_def bind_eq_Some_conv split: option.splits if_splits)
  let ?L = "L\<lparr>al_items := ds\<rparr>"
  obtain h1 where h1: "generic_linked_list_remove_first (Some l) NULL h = Some (0, NULL, h1)"
    "ll_rep h1 (M(l \<mapsto> ?L)) Map.empty" "world h1 = w1" "arena h1 = arena h" "iters h1 = iters h" "same_frame h h1"
    using remove_first_spec [OF Cons.prems(1,2) Cons.hyps(2) [symmetric] _ w1(1)] Cons.prems(3) by auto
  have "\<exists>h'. clear_loop (Some l) h1 = Some (0, h') \<and> ll_rep h' ((M(l \<mapsto> ?L))(l \<mapsto> ?L\<lparr>al_items := []\<rparr>)) Map.empty
    \<and> world h' = w \<and> arena h' = arena h1 \<and> iters h' = iters h1 \<and> same_frame h1 h'"
    using Cons.hyps(1) [of ?L h1 "M(l \<mapsto> ?L)"] h1 w1 Cons.prems by simp
  moreover have "generic_linked_list_is_empty (Some l) h = Some 0"
    using is_empty_spec [OF Cons.prems(1,2)] Cons.hyps(2) by (auto split: if_splits)
  ultimately show ?case using h1 by (auto simp: clear_loop.simps [of "Some l" h])
qed

lemma queue_clear_spec:
  assumes rep: "q_rep h Q" "Q q = Some L" and "al_free L \<noteq> NULL"
    and "free_all (al_free L) (al_items L) (world h) = Some w"
  shows "\<exists>h'. generic_queue_clear (Some q) h = Some (0, h') \<and> q_rep h' (Q(q \<mapsto> L\<lparr>al_items := []\<rparr>))
    \<and> world h' = w \<and> arena h' = arena h \<and> same_q_frame h h'"
proof -
  obtain l M where M: "ll_rep h M Map.empty" "q_link (queues h) M Q"
    and q: "queues h q = Some \<lparr>q_list = Some l\<rparr>" and l: "M l = Some L"
    by (rule q_repE [OF rep])
  from clear_loop_spec [OF M(1) l assms(3,4)] q_rep_list [OF rep(1) M(2) q] q show ?thesis
    by (auto simp: generic_queue_clear_def queue_at_def)
qed

lemma queue_clear_nobody:
  assumes rep: "q_rep h Q" "Q q = Some L" and "al_free L = NULL"
  shows "generic_queue_clear (Some q) h = Some (if al_items L = [] then 0 else 1, h)"
proof -
  obtain l M where M: "ll_rep h M Map.empty" "q_link (queues h) M Q"
    and q: "queues h q = Some \<lparr>q_list = Some l\<rparr>" and l: "M l = Some L"
    by (rule q_repE [OF rep])
  from q is_empty_spec [OF M(1) l] remove_nobody [OF M(1) l _ assms(3)] show ?thesis
    by (auto simp: generic_queue_clear_def queue_at_def clear_loop.simps [of "Some l" h])
qed

text \<open>Both iterators of a full traversal.\<close>

lemma open_range:
  assumes rep: "ll_rep h M Map.empty" "M l = Some L" and "grants 2 (arena h)" and iters: "iters h = Map.empty"
  obtains b e h1 h2 where "generic_linked_list_iterator_begin (Some l) (Some NULL) h = Some (0, Some (Some b), h1)"
    and "generic_linked_list_iterator_end (Some l) (Some NULL) h1 = Some (0, Some (Some e), h2)"
    and "ll_rep h2 M [b \<mapsto> (l, 1), e \<mapsto> (l, Suc (length (al_items L)))]" and "b \<noteq> e"
    and "dom (iters h2) = {b, e}" and "arena h2 = tick (tick (arena h))" and "kept h h2"
proof -
  have g: "\<not> refused (arena h)" "\<not> refused (tick (arena h))"
    using assms(3) by (simp_all add: numeral_2_eq_2 grants_Suc)
  obtain h1 b where h1: "generic_linked_list_iterator_begin (Some l) (Some NULL) h = Some (0, Some (Some b), h1)"
    "ll_rep h1 M [b \<mapsto> (l, 1)]" "iter_only b h h1" "arena h1 = tick (arena h)" "kept h h1"
    using begin_spec [OF rep g(1), of NULL] by auto
  obtain h2 e where h2: "generic_linked_list_iterator_end (Some l) (Some NULL) h1 = Some (0, Some (Some e), h2)"
    "iters h1 e = None" "b \<noteq> e" "ll_rep h2 M [b \<mapsto> (l, 1), e \<mapsto> (l, Suc (length (al_items L)))]"
    "iter_only e h1 h2" "arena h2 = tick (tick (arena h))" "kept h h2"
    using end_spec [OF h1(2) rep(2), of NULL] g(2) h1(4,5) by (auto split: if_splits)
  note ne = h2(3)
  have "iters h2 b \<noteq> None" "iters h2 e \<noteq> None"
    using iter_view [OF h2(4) _ rep(2)] ne by (metis fun_upd_same fun_upd_other option.distinct(1))+
  then have "{b, e} \<subseteq> dom (iters h2)" by auto
  moreover have "dom (iters h2) \<subseteq> {b, e}"
  proof
    fix x
    assume "x \<in> dom (iters h2)"
    then show "x \<in> {b, e}" using h1(3) h2(5) iters by (metis fun_upd_other domIff insertCI)
  qed
  ultimately have "dom (iters h2) = {b, e}" by (rule antisym [rotated])
  then show thesis by (intro that [OF h1(1) h2(1,4) ne _ h2(6,7)])
qed

lemma close_range:
  assumes rep: "ll_rep h M (I(b \<mapsto> x, e \<mapsto> y))" and "b \<noteq> e" and "I b = None" and "I e = None"
  obtains h1 h2 where "generic_linked_list_iterator_free (Some b) h = Some (0, h1)"
    and "generic_linked_list_iterator_free (Some e) h1 = Some (0, h2)"
    and "ll_rep h2 M I" and "iters h2 = (iters h)(b := None, e := None)" and "arena h2 = arena h" and "kept h h2"
proof -
  obtain h1 where h1: "generic_linked_list_iterator_free (Some b) h = Some (0, h1)"
    "ll_rep h1 M (I(b \<mapsto> x, e \<mapsto> y, b := None))" "iters h1 = (iters h)(b := None)" "arena h1 = arena h" "kept h h1"
    using iterator_free_spec [OF rep, of b "fst x" "snd x"] assms(2) by auto
  obtain h2 where "generic_linked_list_iterator_free (Some e) h1 = Some (0, h2)"
    "ll_rep h2 M (I(b \<mapsto> x, e \<mapsto> y, b := None, e := None))" "iters h2 = (iters h1)(e := None)"
    "arena h2 = arena h" "kept h h2"
    using iterator_free_spec [OF h1(2), of e "fst y" "snd y"] assms(2) h1(4,5) by auto
  moreover have "I(b \<mapsto> x, e \<mapsto> y, b := None, e := None) = I" using assms(2-4) by (auto simp: fun_eq_iff)
  ultimately show thesis using h1 by (intro that) auto
qed

lemma queue_for_each_spec:
  assumes rep: "q_rep h Q" "Q q = Some L" and "grants 2 (arena h)"
    and w: "visit_all f (al_items L) (world h) = Some w"
  shows "\<exists>h'. generic_queue_for_each (Some q) (Some f) h = Some (0, h') \<and> q_rep h' Q
    \<and> world h' = w \<and> arena h' = tick (tick (arena h)) \<and> same_q_frame h h'"
proof -
  have iters: "iters h = Map.empty" using rep(1) by (simp add: q_rep_def)
  obtain l M where M: "ll_rep h M Map.empty" "q_link (queues h) M Q"
    and q: "queues h q = Some \<lparr>q_list = Some l\<rparr>" and l: "M l = Some L"
    by (rule q_repE [OF rep])
  obtain b e h1 h2 where o: "generic_linked_list_iterator_begin (Some l) (Some NULL) h = Some (0, Some (Some b), h1)"
    "generic_linked_list_iterator_end (Some l) (Some NULL) h1 = Some (0, Some (Some e), h2)"
    and h2: "ll_rep h2 M [b \<mapsto> (l, 1), e \<mapsto> (l, Suc (length (al_items L)))]" "b \<noteq> e"
      "dom (iters h2) = {b, e}" "arena h2 = tick (tick (arena h))" "kept h h2"
    by (rule open_range [OF M(1) l assms(3) iters])
  have "range_items (al_items L) 1 (Suc (length (al_items L))) = al_items L"
    unfolding range_items_def by (rule nth_equalityI) (simp_all del: upt_Suc)
  then have fe: "generic_linked_list_iterator_for_each (Some b) (Some e) (Some f) h2 = Some (0, h2\<lparr>world := w\<rparr>)"
    using for_each_spec(1) [OF h2(1) _ _ l, of b 1 e "Suc (length (al_items L))" f] h2(2,5) w by simp
  have h3: "ll_rep (h2\<lparr>world := w\<rparr>) M [b \<mapsto> (l, 1), e \<mapsto> (l, Suc (length (al_items L)))]"
    by (rule ll_rep_cong [OF h2(1)]) simp_all
  obtain h4 h5 where c: "generic_linked_list_iterator_free (Some b) (h2\<lparr>world := w\<rparr>) = Some (0, h4)"
    "generic_linked_list_iterator_free (Some e) h4 = Some (0, h5)"
    and h5: "ll_rep h5 M Map.empty" "iters h5 = (iters (h2\<lparr>world := w\<rparr>))(b := None, e := None)"
      "arena h5 = arena (h2\<lparr>world := w\<rparr>)" "kept (h2\<lparr>world := w\<rparr>) h5"
    by (rule close_range [OF h3 h2(2)]) auto
  have "iters h5 = iters h"
    unfolding h5(2) iters by (rule fun_upd_None_dom) (use h2(3) in simp)
  with q_rep_same [OF rep(1) M, of h5] h5 h2 have "q_rep h5 Q \<and> same_q_frame h h5" by simp
  then show ?thesis using o fe c q h5 h2
    by (auto simp: generic_queue_for_each_def queue_at_def)
qed

lemma first_match_all:
  "first_match cmp target items 1 (Suc (length items)) = None \<longleftrightarrow> \<not> (\<exists>d \<in> set items. cmp d target = 0)"
  "first_match cmp target items 1 (Suc (length items)) = Some j \<Longrightarrow> 0 < j \<and> j \<le> length items"
proof -
  let ?js = "[1..<Suc (length items)]"
  have fm: "first_match cmp target items 1 (Suc (length items)) = List.find (\<lambda>j. cmp (items ! (j - 1)) target = 0) ?js"
    by (simp add: first_match_def)
  have "map (\<lambda>j. items ! (j - 1)) ?js = items" by (rule nth_equalityI) (simp_all del: upt_Suc)
  then have img: "(\<lambda>j. items ! (j - 1)) ` set ?js = set items" by (metis set_map)
  have "(\<exists>d \<in> set items. cmp d target = 0) \<longleftrightarrow> (\<exists>j \<in> set ?js. cmp (items ! (j - 1)) target = 0)"
    by (subst img [symmetric]) (rule bex_simps(7))
  then show "first_match cmp target items 1 (Suc (length items)) = None
      \<longleftrightarrow> \<not> (\<exists>d \<in> set items. cmp d target = 0)"
    unfolding fm find_None_iff by blast
  assume "first_match cmp target items 1 (Suc (length items)) = Some j"
  then have "j \<in> set ?js" unfolding fm by (metis find_Some_iff nth_mem)
  then show "0 < j \<and> j \<le> length items" by auto
qed

lemma queue_contains_spec:
  assumes rep: "q_rep h Q" "Q q = Some L" and "grants 3 (arena h)"
  shows "\<exists>h'. generic_queue_contains (Some q) target (Some cmp) h
      = Some (if \<exists>d \<in> set (al_items L). cmp d target = 0 then 1 else 0, h') \<and> q_rep h' Q
    \<and> world h' = world h \<and> arena h' = (tick ^^ 3) (arena h) \<and> same_q_frame h h'"
proof -
  have iters: "iters h = Map.empty" using rep(1) by (simp add: q_rep_def)
  have g: "grants 2 (arena h)" "\<not> refused (tick (tick (arena h)))"
    using assms(3) grants_mono [OF assms(3), of 2] by (simp_all add: numeral_3_eq_3 grants_Suc)
  let ?n = "Suc (length (al_items L))"
  obtain l M where M: "ll_rep h M Map.empty" "q_link (queues h) M Q"
    and q: "queues h q = Some \<lparr>q_list = Some l\<rparr>" and l: "M l = Some L"
    by (rule q_repE [OF rep])
  obtain b e h1 h2 where o: "generic_linked_list_iterator_begin (Some l) (Some NULL) h = Some (0, Some (Some b), h1)"
    "generic_linked_list_iterator_end (Some l) (Some NULL) h1 = Some (0, Some (Some e), h2)"
    and h2: "ll_rep h2 M [b \<mapsto> (l, 1), e \<mapsto> (l, ?n)]" "b \<noteq> e"
      "dom (iters h2) = {b, e}" "arena h2 = tick (tick (arena h))" "kept h h2"
    by (rule open_range [OF M(1) l g(1) iters])
  define pos where "pos = (case first_match cmp target (al_items L) 1 ?n of None \<Rightarrow> ?n | Some j \<Rightarrow> j)"
  obtain h3 f where f: "generic_linked_list_iterator_find (Some b) (Some e) target (Some cmp) (Some NULL) h2
      = Some (0, Some (Some f), h3)" "iters h2 f = None"
      "ll_rep h3 M [b \<mapsto> (l, 1), e \<mapsto> (l, ?n), f \<mapsto> (l, pos)]"
      "iter_only f h2 h3" "arena h3 = (tick ^^ 3) (arena h)" "kept h h3"
    using find_spec [OF h2(1) _ _ l, of b 1 e ?n target cmp NULL] h2 g(2)
    by (auto simp: pos_def numeral_3_eq_3)
  have ne: "f \<noteq> b" "f \<noteq> e" using f(2) h2(3) by auto
  have "[b \<mapsto> (l, 1), e \<mapsto> (l, ?n), f \<mapsto> (l, pos)] = [f \<mapsto> (l, pos), b \<mapsto> (l, 1), e \<mapsto> (l, ?n)]"
    using ne h2(2) by (auto simp: fun_eq_iff)
  with f(3) have h3: "ll_rep h3 M ([f \<mapsto> (l, pos)](b \<mapsto> (l, 1), e \<mapsto> (l, ?n)))" by simp
  obtain h4 h5 where c: "generic_linked_list_iterator_free (Some b) h3 = Some (0, h4)"
    "generic_linked_list_iterator_free (Some e) h4 = Some (0, h5)"
    and h5: "ll_rep h5 M [f \<mapsto> (l, pos)]" "iters h5 = (iters h3)(b := None, e := None)"
      "arena h5 = arena h3" "kept h3 h5"
    by (rule close_range [OF h3 h2(2)]) (use ne in auto)
  obtain h6 where h6: "generic_linked_list_iterator_free (Some f) h5 = Some (0, h6)" "ll_rep h6 M Map.empty"
    "iters h6 = (iters h5)(f := None)" "arena h6 = arena h5" "kept h5 h6"
    using iterator_free_spec [OF h5(1), of f l pos] by auto
  have "iters h6 = ((iters h3)(f := None))(b := None, e := None)"
    using h6(3) h5(2) ne by (simp add: fun_upd_twist)
  also have "\<dots> = iters h"
    unfolding f(4) iters by (rule fun_upd_None_dom) (use h2(3) in auto)
  finally have "iters h6 = iters h" .
  with q_rep_same [OF rep(1) M, of h6] h6 h5 f h2 have rep': "q_rep h6 Q \<and> same_q_frame h h6"
    by (simp add: numeral_3_eq_3)
  have "pos = ?n \<longleftrightarrow> \<not> (\<exists>d \<in> set (al_items L). cmp d target = 0)" and "pos \<noteq> 0"
    using first_match_all [of cmp target "al_items L"] unfolding pos_def
    by (cases "first_match cmp target (al_items L) 1 ?n"; force)+
  with is_end_spec(3) [OF f(3) _ l, of f pos]
  have "generic_linked_list_iterator_is_valid (Some f) h3
      = Some (if \<exists>d \<in> set (al_items L). cmp d target = 0 then 0 else 1)"
    by auto
  then show ?thesis using o f c q h6 h5 rep'
    by (auto simp: generic_queue_contains_def queue_at_def)
qed

lemma q_link_add:
  assumes "q_link QS M Q" and "QS q = None" and "M l = None"
  shows "q_link (QS(q \<mapsto> \<lparr>q_list = Some l\<rparr>)) (M(l \<mapsto> L)) (Q(q \<mapsto> L))"
  using assms owns_add [of _ M Q q l L] unfolding q_link_def by simp

lemma q_link_remove:
  assumes "q_link QS M Q" and "QS q = Some \<lparr>q_list = Some l\<rparr>"
  shows "q_link (QS(q := None)) (M(l := None)) (Q(q := None))"
  using assms owns_remove [of _ M Q q l] unfolding q_link_def by simp

lemma malloc_queue_simps [simp]:
  "refused (arena h) \<Longrightarrow> malloc_queue h = (NULL, h\<lparr>arena := tick (arena h)\<rparr>)"
  "\<not> refused (arena h) \<Longrightarrow> malloc_queue h = (Some (Suc (ticks (arena h))),
     h\<lparr>arena := tick (arena h), queues := (queues h)(Suc (ticks (arena h)) \<mapsto> \<lparr>q_list = NULL\<rparr>)\<rparr>)"
  by (simp_all add: malloc_queue_def)

lemma queue_new_spec:
  assumes rep: "q_rep h Q" and granted: "grants 4 (arena h)"
  shows "\<exists>h' q. generic_queue_new (Some v) h = Some (0, Some (Some q), h') \<and> Q q = None
    \<and> q_rep h' (Q(q \<mapsto> \<lparr>al_items = [], al_free = NULL, al_copy = NULL\<rparr>))
    \<and> world h' = world h \<and> arena h' = (tick ^^ 4) (arena h) \<and> same_q_frame h h'"
proof -
  have g: "\<not> refused (arena h)" "grants 3 (tick (arena h))"
    using granted grants_Suc [of 3 "arena h"] by simp_all
  obtain M where M: "ll_rep h M Map.empty" "q_link (queues h) M Q" and iters: "iters h = Map.empty"
    and dom: "dom (queues h) \<subseteq> {1..min (ticks (arena h)) block_limit}"
    using rep by (auto simp: q_rep_def)
  define q where "q = Suc (ticks (arena h))"
  have fresh: "queues h q = None" using dom by (auto simp: q_def)
  define h1 where "h1 = h\<lparr>arena := tick (arena h), queues := (queues h)(q \<mapsto> \<lparr>q_list = NULL\<rparr>)\<rparr>"
  have "ll_rep h1 M Map.empty" by (rule ll_rep_cong [OF M(1)]) (simp_all add: h1_def)
  from new_spec [OF this, of NULL] g(2) obtain h2 l where
    h2: "generic_linked_list_new (Some NULL) h1 = Some (0, Some (Some l), h2)" "M l = None"
      "ll_rep h2 (M(l \<mapsto> \<lparr>al_items = [], al_free = NULL, al_copy = NULL\<rparr>)) Map.empty"
      "world h2 = world h" "arena h2 = (tick ^^ 4) (arena h)" "iters h2 = iters h" "same_frame h1 h2"
    by (auto simp: h1_def eval_nat_numeral)
  have qs: "queues h2 = queues h1" "same_q_frame h1 h2" using same_frameD [OF h2(7)] by auto
  define h' where "h' = h2\<lparr>queues := (queues h)(q \<mapsto> \<lparr>q_list = Some l\<rparr>)\<rparr>"
  have "ll_rep h' (M(l \<mapsto> \<lparr>al_items = [], al_free = NULL, al_copy = NULL\<rparr>)) Map.empty"
    by (rule ll_rep_cong [OF h2(3)]) (simp_all add: h'_def)
  moreover have "q \<le> block_limit" using g(1) by (simp add: q_def refused_def)
  then have "dom (queues h') \<subseteq> {1..min (ticks (arena h')) block_limit}"
    using dom by (fastforce simp: h'_def h2(5) eval_nat_numeral q_def)
  ultimately have "q_rep h' (Q(q \<mapsto> \<lparr>al_items = [], al_free = NULL, al_copy = NULL\<rparr>))"
    using q_link_add [OF M(2) fresh h2(2)] iters h2(6) unfolding q_rep_def by (auto simp: h'_def)
  moreover have "generic_queue_new (Some v) h = Some (0, Some (Some q), h')"
    using g(1) h2(1) qs(1)
    by (simp add: generic_queue_new_def modify_queue_def q_def [symmetric] h1_def [symmetric] h'_def)
      (simp add: h1_def)
  moreover have "Q q = None" using owns_none [of "map_option q_list \<circ> queues h" M Q q] M(2) fresh
    by (simp add: q_link_def)
  ultimately show ?thesis using h2 qs by (intro exI [of _ h'] exI [of _ q]) (simp add: h'_def h1_def)
qed

lemma queue_new_refused:
  assumes rep: "q_rep h Q" and "\<not> grants 4 (arena h)"
  shows "\<exists>h' out. generic_queue_new (Some v) h = Some (-1, out, h') \<and> out \<in> {Some v, Some NULL}
    \<and> q_rep h' Q \<and> world h' = world h \<and> ticks (arena h) \<le> ticks (arena h') \<and> same_q_frame h h'"
proof (cases "refused (arena h)")
  case True
  obtain M where M: "ll_rep h M Map.empty" "q_link (queues h) M Q" using rep by (auto simp: q_rep_def)
  have "ll_rep (h\<lparr>arena := tick (arena h)\<rparr>) M Map.empty" by (rule ll_rep_cong [OF M(1)]) simp_all
  with True q_rep_same [OF rep M, of "h\<lparr>arena := tick (arena h)\<rparr>"] show ?thesis
    by (auto simp: generic_queue_new_def)
next
  case False
  then have g: "refused (tick (arena h)) \<or> refused (tick (tick (arena h))) \<or> refused (tick (tick (tick (arena h))))"
    using assms(2) by (auto simp: eval_nat_numeral grants_Suc) (auto simp: grants_def refused_def)
  obtain M where M: "ll_rep h M Map.empty" "q_link (queues h) M Q" and iters: "iters h = Map.empty"
    and dom: "dom (queues h) \<subseteq> {1..min (ticks (arena h)) block_limit}"
    using rep by (auto simp: q_rep_def)
  define q where "q = Suc (ticks (arena h))"
  have fresh: "queues h q = None" using dom by (auto simp: q_def)
  define h1 where "h1 = h\<lparr>arena := tick (arena h), queues := (queues h)(q \<mapsto> \<lparr>q_list = NULL\<rparr>)\<rparr>"
  have "ll_rep h1 M Map.empty" by (rule ll_rep_cong [OF M(1)]) (simp_all add: h1_def)
  from new_refused [OF this, of NULL] g obtain h2 where
    h2: "generic_linked_list_new (Some NULL) h1 = Some (-1, Some NULL, h2)" "ll_rep h2 M Map.empty"
      "ticks (arena h1) \<le> ticks (arena h2)"
      "world h2 = world h" "iters h2 = iters h" "same_frame h1 h2"
    by (auto simp: h1_def)
  have qs: "queues h2 = queues h1" "same_q_frame h1 h2" using same_frameD [OF h2(6)] by auto
  define h' where "h' = h2\<lparr>queues := queues h\<rparr>"
  have "ll_rep h' M Map.empty" by (rule ll_rep_cong [OF h2(2)]) (simp_all add: h'_def)
  moreover have le: "ticks (arena h) \<le> ticks (arena h')" using h2(3) by (simp add: h'_def h1_def)
  then have "dom (queues h') \<subseteq> {1..min (ticks (arena h')) block_limit}"
    using dom by (fastforce simp: h'_def)
  ultimately have "q_rep h' Q"
    using M(2) iters h2(5) unfolding q_rep_def by (auto simp: h'_def)
  moreover have "generic_queue_new (Some v) h = Some (-1, Some NULL, h')"
    using False h2(1) qs(1) fresh
    by (simp add: generic_queue_new_def modify_queue_def free_queue_def q_def [symmetric] h1_def [symmetric] h'_def)
      (simp add: h1_def fun_upd_idem)
  ultimately show ?thesis using h2 qs le by (intro exI [of _ h']) (simp add: h'_def h1_def)
qed

lemma queue_free_spec:
  assumes rep: "q_rep h Q" "Q q = Some L" and w: "free_all (al_free L) (al_items L) (world h) = Some w"
  shows "\<exists>h'. generic_queue_free (Some q) h = Some (0, h') \<and> q_rep h' (Q(q := None))
    \<and> world h' = w \<and> arena h' = arena h \<and> same_q_frame h h'"
proof -
  obtain l M where M: "ll_rep h M Map.empty" "q_link (queues h) M Q"
    and q: "queues h q = Some \<lparr>q_list = Some l\<rparr>" and l: "M l = Some L"
    by (rule q_repE [OF rep])
  obtain h1 where h1: "generic_linked_list_free (Some l) h = Some (0, h1)" "ll_rep h1 (M(l := None)) Map.empty"
    "world h1 = w" "arena h1 = arena h" "iters h1 = iters h" "same_frame h h1"
    using free_spec [OF M(1) l w] by auto
  have qs: "queues h1 = queues h" "same_q_frame h h1" using same_frameD [OF h1(6)] by auto
  define h' where "h' = h1\<lparr>queues := (queues h)(q := None)\<rparr>"
  have "ll_rep h' (M(l := None)) Map.empty" by (rule ll_rep_cong [OF h1(2)]) (simp_all add: h'_def)
  then have "q_rep h' (Q(q := None))"
    using q_link_remove [OF M(2) q] rep(1) h1 unfolding q_rep_def by (auto simp: h'_def)
  moreover have "generic_queue_free (Some q) h = Some (0, h')"
    using q h1(1) qs(1) by (simp add: generic_queue_free_def queue_at_def free_queue_def h'_def)
  ultimately show ?thesis using h1 qs by (simp add: h'_def)
qed

interpretation gq: fifo q_rep generic_queue_enqueue generic_queue_dequeue arena world
proof
  fix h :: "('d, 'w, 'z) qh" and Q q and L :: "('d, 'w) alist" and d d' w
  assume "q_rep h Q" "Q q = Some L" "\<not> refused (arena h)" "al_store L d (world h) = Some (0, d', w)"
  from queue_enqueue_spec [OF this]
  show "\<exists>h'. generic_queue_enqueue (Some q) d h = Some (0, h')
      \<and> q_rep h' (Q(q \<mapsto> L\<lparr>al_items := al_items L @ [d']\<rparr>)) \<and> world h' = w \<and> arena h' = tick (arena h)"
    by auto
next
  fix h :: "('d, 'w, 'z) qh" and Q q and L :: "('d, 'w) alist" and x xs v
  assume "q_rep h Q" "Q q = Some L" "al_items L = x # xs"
  from queue_dequeue_spec [OF this, of "Some v"]
  show "\<exists>h'. generic_queue_dequeue (Some q) (Some v) h = Some (0, Some x, h')
      \<and> q_rep h' (Q(q \<mapsto> L\<lparr>al_items := xs\<rparr>)) \<and> world h' = world h \<and> arena h' = arena h"
    by (auto simp: al_give_def)
next
  fix h :: "('d, 'w, 'z) qh" and Q q and L :: "('d, 'w) alist" and v
  assume "q_rep h Q" "Q q = Some L" "al_items L = []"
  with queue_dequeue_empty [OF this(1,2), of "Some v"]
  show "\<exists>h'. generic_queue_dequeue (Some q) (Some v) h = Some (0, Some NULL, h')
      \<and> q_rep h' Q \<and> world h' = world h \<and> arena h' = arena h"
    by auto
qed

lemma q_rep_cong:
  assumes "q_rep h Q" and "nodes h' = nodes h" and "lists h' = lists h" and "iters h' = iters h"
    and "queues h' = queues h" and "ticks (arena h) \<le> ticks (arena h')"
  shows "q_rep h' Q"
proof -
  obtain M where M: "ll_rep h M Map.empty" "q_link (queues h) M Q" using assms(1) by (auto simp: q_rep_def)
  have "ll_rep h' M Map.empty" by (rule ll_rep_cong [OF M(1)]) (use assms in simp_all)
  with M(2) assms show ?thesis by (fastforce simp: q_rep_def)
qed

lemma q_rep_empty:
  assumes "q_rep h Map.empty"
  shows "queues h = Map.empty" and "lists h = Map.empty" and "nodes h = Map.empty"
proof -
  obtain M where M: "ll_rep h M Map.empty" and link: "owns (map_option q_list \<circ> queues h) M Map.empty"
    using assms by (auto simp: q_rep_def q_link_def)
  have none: "queues h q = None" for q
    by (rule ccontr) (use ownsE [OF link, of q] in auto)
  then show "queues h = Map.empty" by (rule ext)
  have "M l = None" for l
    by (rule ccontr) (use owns_onto [OF link, of l] none in auto)
  then have "M = Map.empty" by (rule ext)
  with M show "lists h = Map.empty" "nodes h = Map.empty" using ll_rep_empty [of h Map.empty] by simp_all
qed

end
