(* ===== verification/Queue_Syn.thy ===== *)
theory Queue_Syn
  imports Queue
begin

text \<open>
  The synchronised queue of \<^verbatim>\<open>src/generic_queue_syn.c\<close>: a queue and the mutex that
  protects it.  Every function locks, runs the function of the plain queue and unlocks; the
  model returns \<open>None\<close> when the mutex is already locked, so that a theorem with a \<open>Some\<close> result
  says that the call does not block on its own mutex and gives it back.  \<open>qs_rep h S\<close> relates a heap
  to its abstract queues, with every mutex unlocked.
\<close>

section \<open>Structures\<close>

record generic_queue_syn_t =
  qs_queue :: "addr ptr"
  qs_mutex :: pthread_mutex_t

record ('d, 'w) qs_heap = "('d, 'w) q_heap" +
  syns :: "addr \<rightharpoonup> generic_queue_syn_t"

type_synonym ('d, 'w, 'z) qsh = "('d, 'w, 'z) qs_heap_scheme"

definition malloc_syn :: "('d, 'w, 'z) qsh \<Rightarrow> addr ptr \<times> ('d, 'w, 'z) qsh" where
  "malloc_syn h = (case malloc (arena h) of
     (NULL, A) \<Rightarrow> (NULL, h\<lparr>arena := A\<rparr>)
   | (Some a, A) \<Rightarrow> (Some a, h\<lparr>arena := A, syns := (syns h)(a \<mapsto> \<lparr>qs_queue = NULL, qs_mutex = Unlocked\<rparr>)\<rparr>))"

definition syn_at :: "('d, 'w, 'z) qsh \<Rightarrow> addr ptr \<Rightarrow> generic_queue_syn_t option" where
  "syn_at h p = Option.bind p (syns h)"

definition modify_syn ::
  "addr ptr \<Rightarrow> (generic_queue_syn_t \<Rightarrow> generic_queue_syn_t) \<Rightarrow> ('d, 'w, 'z) qsh \<Rightarrow> ('d, 'w, 'z) qsh option" where
  "modify_syn p f h = do {
     a \<leftarrow> p;
     s \<leftarrow> syns h a;
     Some (h\<lparr>syns := (syns h)(a \<mapsto> f s)\<rparr>) }"

definition free_syn :: "addr ptr \<Rightarrow> ('d, 'w, 'z) qsh \<Rightarrow> ('d, 'w, 'z) qsh option" where
  "free_syn p h = (case p of NULL \<Rightarrow> Some h
     | Some a \<Rightarrow> if syns h a = None then None else Some (h\<lparr>syns := (syns h)(a := None)\<rparr>))"

definition lock_syn :: "addr ptr \<Rightarrow> ('d, 'w, 'z) qsh \<Rightarrow> ('d, 'w, 'z) qsh option" where
  "lock_syn p h = do {
     s \<leftarrow> syn_at h p;
     m \<leftarrow> pthread_mutex_lock (qs_mutex s);
     modify_syn p (\<lambda>s. s\<lparr>qs_mutex := m\<rparr>) h }"

definition unlock_syn :: "addr ptr \<Rightarrow> ('d, 'w, 'z) qsh \<Rightarrow> ('d, 'w, 'z) qsh option" where
  "unlock_syn p h = do {
     s \<leftarrow> syn_at h p;
     m \<leftarrow> pthread_mutex_unlock (qs_mutex s);
     modify_syn p (\<lambda>s. s\<lparr>qs_mutex := m\<rparr>) h }"

definition destroy_syn_mutex :: "addr ptr \<Rightarrow> ('d, 'w, 'z) qsh \<Rightarrow> unit option" where
  "destroy_syn_mutex p h = do {
     s \<leftarrow> syn_at h p;
     pthread_mutex_destroy (qs_mutex s) }"

section \<open>The functions\<close>

definition generic_queue_syn_new ::
  "addr ptr out \<Rightarrow> ('d, 'w, 'z) qsh \<Rightarrow> (exit_code \<times> addr ptr out \<times> ('d, 'w, 'z) qsh) option" where
  "generic_queue_syn_new out_self h = (case out_self of NULL \<Rightarrow> Some (-1, out_self, h)
   | Some _ \<Rightarrow> do {
       let (self, h) = malloc_syn h;
       if self = NULL then Some (-1, out_self, h)
       else do {
         (exit_code, field, h) \<leftarrow> generic_queue_new (Some NULL) h;
         q \<leftarrow> field;
         h \<leftarrow> modify_syn self (\<lambda>s. s\<lparr>qs_queue := q\<rparr>) h;
         if exit_code \<noteq> 0 then do {
           h \<leftarrow> free_syn self h;
           Some (-1, out_self, h) }
         else do {
           let (exit_code, A) = sys_init (arena h);
           let h = h\<lparr>arena := A\<rparr>;
           if exit_code \<noteq> 0 then do {
             (_, h) \<leftarrow> generic_queue_free q h;
             h \<leftarrow> free_syn self h;
             Some (-1, out_self, h) }
           else do {
             h \<leftarrow> modify_syn self (\<lambda>s. s\<lparr>qs_mutex := Unlocked\<rparr>) h;
             Some (0, Some self, h) } } } })"

definition generic_queue_syn_free ::
  "addr ptr \<Rightarrow> ('d, 'w, 'z) qsh \<Rightarrow> (exit_code, ('d, 'w, 'z) qsh) res" where
  "generic_queue_syn_free self h =
     (if self = NULL then Some (-1, h)
      else do {
        h \<leftarrow> lock_syn self h;
        s \<leftarrow> syn_at h self;
        (result, h) \<leftarrow> generic_queue_free (qs_queue s) h;
        h \<leftarrow> unlock_syn self h;
        _ \<leftarrow> destroy_syn_mutex self h;
        h \<leftarrow> free_syn self h;
        Some (result, h) })"

definition generic_queue_syn_set_free_function ::
  "addr ptr \<Rightarrow> ('d, 'w) free_fn ptr \<Rightarrow> ('d, 'w, 'z) qsh \<Rightarrow> (exit_code, ('d, 'w, 'z) qsh) res" where
  "generic_queue_syn_set_free_function self free_function h =
     (if self = NULL then Some (-1, h)
      else do {
        h \<leftarrow> lock_syn self h;
        s \<leftarrow> syn_at h self;
        (result, h) \<leftarrow> generic_queue_set_free_function (qs_queue s) free_function h;
        h \<leftarrow> unlock_syn self h;
        Some (result, h) })"

definition generic_queue_syn_get_free_function ::
  "addr ptr \<Rightarrow> ('d, 'w) free_fn ptr out \<Rightarrow> ('d, 'w, 'z) qsh
     \<Rightarrow> (exit_code \<times> ('d, 'w) free_fn ptr out \<times> ('d, 'w, 'z) qsh) option" where
  "generic_queue_syn_get_free_function self out_free_function h =
     (if self = NULL then Some (-1, out_free_function, h)
      else do {
        h \<leftarrow> lock_syn self h;
        s \<leftarrow> syn_at h self;
        (result, out_free_function) \<leftarrow> generic_queue_get_free_function (qs_queue s) out_free_function h;
        h \<leftarrow> unlock_syn self h;
        Some (result, out_free_function, h) })"

definition generic_queue_syn_set_copy_function ::
  "addr ptr \<Rightarrow> ('d, 'w) copy_fn ptr \<Rightarrow> ('d, 'w, 'z) qsh \<Rightarrow> (exit_code, ('d, 'w, 'z) qsh) res" where
  "generic_queue_syn_set_copy_function self copy_function h =
     (if self = NULL then Some (-1, h)
      else do {
        h \<leftarrow> lock_syn self h;
        s \<leftarrow> syn_at h self;
        (result, h) \<leftarrow> generic_queue_set_copy_function (qs_queue s) copy_function h;
        h \<leftarrow> unlock_syn self h;
        Some (result, h) })"

definition generic_queue_syn_get_copy_function ::
  "addr ptr \<Rightarrow> ('d, 'w) copy_fn ptr out \<Rightarrow> ('d, 'w, 'z) qsh
     \<Rightarrow> (exit_code \<times> ('d, 'w) copy_fn ptr out \<times> ('d, 'w, 'z) qsh) option" where
  "generic_queue_syn_get_copy_function self out_copy_function h =
     (if self = NULL then Some (-1, out_copy_function, h)
      else do {
        h \<leftarrow> lock_syn self h;
        s \<leftarrow> syn_at h self;
        (result, out_copy_function) \<leftarrow> generic_queue_get_copy_function (qs_queue s) out_copy_function h;
        h \<leftarrow> unlock_syn self h;
        Some (result, out_copy_function, h) })"

definition generic_queue_syn_size ::
  "addr ptr \<Rightarrow> size_t out \<Rightarrow> ('d, 'w, 'z) qsh
     \<Rightarrow> (exit_code \<times> size_t out \<times> ('d, 'w, 'z) qsh) option" where
  "generic_queue_syn_size self out_size h =
     (if self = NULL then Some (-1, out_size, h)
      else do {
        h \<leftarrow> lock_syn self h;
        s \<leftarrow> syn_at h self;
        (result, out_size) \<leftarrow> generic_queue_size (qs_queue s) out_size h;
        h \<leftarrow> unlock_syn self h;
        Some (result, out_size, h) })"

definition generic_queue_syn_is_empty ::
  "addr ptr \<Rightarrow> ('d, 'w, 'z) qsh \<Rightarrow> (exit_code, ('d, 'w, 'z) qsh) res" where
  "generic_queue_syn_is_empty self h =
     (if self = NULL then Some (-1, h)
      else do {
        h \<leftarrow> lock_syn self h;
        s \<leftarrow> syn_at h self;
        result \<leftarrow> generic_queue_is_empty (qs_queue s) h;
        h \<leftarrow> unlock_syn self h;
        Some (result, h) })"

definition generic_queue_syn_enqueue ::
  "addr ptr \<Rightarrow> 'd ptr \<Rightarrow> ('d, 'w, 'z) qsh \<Rightarrow> (exit_code, ('d, 'w, 'z) qsh) res" where
  "generic_queue_syn_enqueue self data h =
     (if self = NULL then Some (-1, h)
      else do {
        h \<leftarrow> lock_syn self h;
        s \<leftarrow> syn_at h self;
        (result, h) \<leftarrow> generic_queue_enqueue (qs_queue s) data h;
        h \<leftarrow> unlock_syn self h;
        Some (result, h) })"

definition generic_queue_syn_dequeue ::
  "addr ptr \<Rightarrow> 'd ptr out \<Rightarrow> ('d, 'w, 'z) qsh
     \<Rightarrow> (exit_code \<times> 'd ptr out \<times> ('d, 'w, 'z) qsh) option" where
  "generic_queue_syn_dequeue self out_data h =
     (if self = NULL then Some (-1, out_data, h)
      else do {
        h \<leftarrow> lock_syn self h;
        s \<leftarrow> syn_at h self;
        (result, out_data, h) \<leftarrow> generic_queue_dequeue (qs_queue s) out_data h;
        h \<leftarrow> unlock_syn self h;
        Some (result, out_data, h) })"

definition generic_queue_syn_peek ::
  "addr ptr \<Rightarrow> 'd ptr out \<Rightarrow> ('d, 'w, 'z) qsh
     \<Rightarrow> (exit_code \<times> 'd ptr out \<times> ('d, 'w, 'z) qsh) option" where
  "generic_queue_syn_peek self out_data h =
     (if self = NULL then Some (-1, out_data, h)
      else do {
        h \<leftarrow> lock_syn self h;
        s \<leftarrow> syn_at h self;
        (result, out_data, h) \<leftarrow> generic_queue_peek (qs_queue s) out_data h;
        h \<leftarrow> unlock_syn self h;
        Some (result, out_data, h) })"

definition generic_queue_syn_peek_rear ::
  "addr ptr \<Rightarrow> 'd ptr out \<Rightarrow> ('d, 'w, 'z) qsh
     \<Rightarrow> (exit_code \<times> 'd ptr out \<times> ('d, 'w, 'z) qsh) option" where
  "generic_queue_syn_peek_rear self out_data h =
     (if self = NULL then Some (-1, out_data, h)
      else do {
        h \<leftarrow> lock_syn self h;
        s \<leftarrow> syn_at h self;
        (result, out_data, h) \<leftarrow> generic_queue_peek_rear (qs_queue s) out_data h;
        h \<leftarrow> unlock_syn self h;
        Some (result, out_data, h) })"

definition generic_queue_syn_clear ::
  "addr ptr \<Rightarrow> ('d, 'w, 'z) qsh \<Rightarrow> (exit_code, ('d, 'w, 'z) qsh) res" where
  "generic_queue_syn_clear self h =
     (if self = NULL then Some (-1, h)
      else do {
        h \<leftarrow> lock_syn self h;
        s \<leftarrow> syn_at h self;
        (result, h) \<leftarrow> generic_queue_clear (qs_queue s) h;
        h \<leftarrow> unlock_syn self h;
        Some (result, h) })"

definition generic_queue_syn_contains ::
  "addr ptr \<Rightarrow> 'd ptr \<Rightarrow> 'd compare_fn ptr \<Rightarrow> ('d, 'w, 'z) qsh \<Rightarrow> (exit_code, ('d, 'w, 'z) qsh) res" where
  "generic_queue_syn_contains self target compare h =
     (if self = NULL then Some (-1, h)
      else do {
        h \<leftarrow> lock_syn self h;
        s \<leftarrow> syn_at h self;
        (result, h) \<leftarrow> generic_queue_contains (qs_queue s) target compare h;
        h \<leftarrow> unlock_syn self h;
        Some (result, h) })"

definition generic_queue_syn_for_each ::
  "addr ptr \<Rightarrow> ('d, 'w) free_fn ptr \<Rightarrow> ('d, 'w, 'z) qsh \<Rightarrow> (exit_code, ('d, 'w, 'z) qsh) res" where
  "generic_queue_syn_for_each self apply_fn h =
     (if self = NULL then Some (-1, h)
      else do {
        h \<leftarrow> lock_syn self h;
        s \<leftarrow> syn_at h self;
        (result, h) \<leftarrow> generic_queue_for_each (qs_queue s) apply_fn h;
        h \<leftarrow> unlock_syn self h;
        Some (result, h) })"

section \<open>Representation\<close>

definition qs_rep :: "('d, 'w, 'z) qsh \<Rightarrow> (addr \<rightharpoonup> ('d, 'w) alist) \<Rightarrow> bool" where
  "qs_rep h S \<longleftrightarrow> (\<exists>Q. q_rep h Q \<and> owns (map_option qs_queue \<circ> syns h) Q S)
     \<and> (\<forall>s r. syns h s = Some r \<longrightarrow> qs_mutex r = Unlocked)
     \<and> dom (syns h) \<subseteq> {1..min (ticks (arena h)) block_limit}"

abbreviation same_qs_frame :: "('d, 'w, 'z) qsh \<Rightarrow> ('d, 'w, 'z) qsh \<Rightarrow> bool" where
  "same_qs_frame h h' \<equiv> qs_heap.more h' = qs_heap.more h"

lemma same_q_frameD:
  fixes h h' :: "('d, 'w, 'z) qsh"
  assumes "same_q_frame h h'"
  shows "syns h' = syns h" and "same_qs_frame h h'"
  using assms by (cases h; cases h'; simp)+

text \<open>
  What a function finds between lock and unlock: the plain queue with the content of the
  synchronised one; whatever it makes of that content is the content after the unlock.
\<close>

lemma locked_call:
  assumes rep: "qs_rep h S" "S s = Some L"
  obtains h1 Q q where "lock_syn (Some s) h = Some h1"
    and "syn_at h1 (Some s) = Some \<lparr>qs_queue = Some q, qs_mutex = Locked\<rparr>"
    and "q_rep h1 Q" and "Q q = Some L" and "world h1 = world h" and "arena h1 = arena h"
    and "same_qs_frame h h1"
    and "\<And>h2 L'. q_rep h2 (Q(q \<mapsto> L')) \<and> same_q_frame h1 h2 \<and> ticks (arena h1) \<le> ticks (arena h2) \<longrightarrow>
      (\<exists>h3. unlock_syn (Some s) h2 = Some h3 \<and> qs_rep h3 (S(s \<mapsto> L')) \<and> world h3 = world h2
        \<and> arena h3 = arena h2 \<and> same_qs_frame h h3)"
    and "\<And>h2. q_rep h2 Q \<and> same_q_frame h1 h2 \<and> ticks (arena h1) \<le> ticks (arena h2) \<longrightarrow>
      (\<exists>h3. unlock_syn (Some s) h2 = Some h3 \<and> qs_rep h3 S \<and> world h3 = world h2
        \<and> arena h3 = arena h2 \<and> same_qs_frame h h3)"
proof -
  obtain Q where Q: "q_rep h Q" "owns (map_option qs_queue \<circ> syns h) Q S"
    and free: "\<And>s r. syns h s = Some r \<Longrightarrow> qs_mutex r = Unlocked"
    and dom: "dom (syns h) \<subseteq> {1..min (ticks (arena h)) block_limit}"
    using rep(1) by (auto simp: qs_rep_def)
  obtain q where q: "(map_option qs_queue \<circ> syns h) s = Some (Some q)" "Q q = Some L"
    by (rule ownsE' [OF Q(2) rep(2)])
  then obtain r where r: "syns h s = Some r" "qs_queue r = Some q" by auto
  have r': "r = \<lparr>qs_queue = Some q, qs_mutex = Unlocked\<rparr>"
    using r(2) free [OF r(1)] by (auto intro: generic_queue_syn_t.equality)
  define h1 where "h1 = h\<lparr>syns := (syns h)(s \<mapsto> \<lparr>qs_queue = Some q, qs_mutex = Locked\<rparr>)\<rparr>"
  have "q_rep h1 Q" by (rule q_rep_cong [OF Q(1)]) (simp_all add: h1_def)
  moreover have unlock: "\<exists>h3. unlock_syn (Some s) h2 = Some h3 \<and> qs_rep h3 (S(s \<mapsto> L')) \<and> world h3 = world h2
      \<and> arena h3 = arena h2 \<and> same_qs_frame h h3"
    if h2: "q_rep h2 (Q(q \<mapsto> L'))" "same_q_frame h1 h2" "ticks (arena h1) \<le> ticks (arena h2)" for h2 L'
  proof -
    have s2: "syns h2 = syns h1" "same_qs_frame h1 h2" using same_q_frameD [OF h2(2)] by auto
    define h3 where "h3 = h2\<lparr>syns := syns h\<rparr>"
    have "q_rep h3 (Q(q \<mapsto> L'))" by (rule q_rep_cong [OF h2(1)]) (simp_all add: h3_def)
    moreover have "owns (map_option qs_queue \<circ> syns h3) (Q(q \<mapsto> L')) (S(s \<mapsto> L'))"
      using owns_update [OF Q(2) q(1), of L'] unfolding h3_def by (simp del: o_apply)
    moreover have "ticks (arena h) \<le> ticks (arena h3)" using h2(3) by (simp add: h1_def h3_def)
    then have "dom (syns h3) \<subseteq> {1..min (ticks (arena h3)) block_limit}" using dom by (fastforce simp: h3_def)
    ultimately have "qs_rep h3 (S(s \<mapsto> L'))" unfolding qs_rep_def using free by (auto simp: h3_def)
    moreover have "unlock_syn (Some s) h2 = Some h3"
      using r r' s2(1) by (auto simp: unlock_syn_def syn_at_def modify_syn_def h1_def h3_def fun_upd_idem)
    ultimately show ?thesis using s2(2) by (intro exI [of _ h3]) (simp add: h1_def h3_def)
  qed
  moreover have "Q(q \<mapsto> L) = Q" "S(s \<mapsto> L) = S" using q(2) rep(2) by (auto simp: fun_upd_idem_iff)
  then have "\<exists>h3. unlock_syn (Some s) h2 = Some h3 \<and> qs_rep h3 S \<and> world h3 = world h2
      \<and> arena h3 = arena h2 \<and> same_qs_frame h h3"
    if "q_rep h2 Q" "same_q_frame h1 h2" "ticks (arena h1) \<le> ticks (arena h2)" for h2
    using unlock [of h2 L] that by simp
  ultimately show thesis
    by (intro that [of h1 q Q])
      (use r r' q(2) in \<open>simp_all add: lock_syn_def syn_at_def modify_syn_def h1_def\<close>)
qed

text \<open>The two forms of a protected call: without and with an out-parameter.\<close>

lemma syn_call:
  assumes rep: "qs_rep h S" "S s = Some L" and le: "ticks (arena h) \<le> ticks A"
    and f: "\<And>h1 Q q. q_rep h1 Q \<Longrightarrow> Q q = Some L \<Longrightarrow> world h1 = world h \<Longrightarrow> arena h1 = arena h \<Longrightarrow>
      \<exists>h2. f (Some q) h1 = Some (r, h2) \<and> q_rep h2 (Q(q \<mapsto> L')) \<and> world h2 = w \<and> arena h2 = A \<and> same_q_frame h1 h2"
  shows "\<exists>h'. do { h \<leftarrow> lock_syn (Some s) h; s' \<leftarrow> syn_at h (Some s); (r, h) \<leftarrow> f (qs_queue s') h;
        h \<leftarrow> unlock_syn (Some s) h; Some (r, h) } = Some (r, h')
    \<and> qs_rep h' (S(s \<mapsto> L')) \<and> world h' = w \<and> arena h' = A \<and> same_qs_frame h h'"
proof (rule locked_call [OF rep])
  fix h1 Q q
  assume h1: "lock_syn (Some s) h = Some h1" "syn_at h1 (Some s) = Some \<lparr>qs_queue = Some q, qs_mutex = Locked\<rparr>"
      "q_rep h1 Q" "Q q = Some L" "world h1 = world h" "arena h1 = arena h"
    and unlock: "\<And>h2 L'. q_rep h2 (Q(q \<mapsto> L')) \<and> same_q_frame h1 h2 \<and> ticks (arena h1) \<le> ticks (arena h2) \<longrightarrow>
      (\<exists>h3. unlock_syn (Some s) h2 = Some h3 \<and> qs_rep h3 (S(s \<mapsto> L')) \<and> world h3 = world h2
        \<and> arena h3 = arena h2 \<and> same_qs_frame h h3)"
  from f [OF h1(3-6)] obtain h2 where h2: "f (Some q) h1 = Some (r, h2)" "q_rep h2 (Q(q \<mapsto> L'))"
    "world h2 = w" "arena h2 = A" "same_q_frame h1 h2" by auto
  with unlock [of h2 L'] le h1(6) obtain h3 where "unlock_syn (Some s) h2 = Some h3" "qs_rep h3 (S(s \<mapsto> L'))"
    "world h3 = w" "arena h3 = A" "same_qs_frame h h3" by auto
  with h1 h2 show ?thesis by simp
qed

lemma syn_call_out:
  assumes rep: "qs_rep h S" "S s = Some L" and le: "ticks (arena h) \<le> ticks A"
    and f: "\<And>h1 Q q. q_rep h1 Q \<Longrightarrow> Q q = Some L \<Longrightarrow> world h1 = world h \<Longrightarrow> arena h1 = arena h \<Longrightarrow>
      \<exists>h2. f (Some q) h1 = Some (r, out, h2) \<and> q_rep h2 (Q(q \<mapsto> L')) \<and> world h2 = w \<and> arena h2 = A \<and> same_q_frame h1 h2"
  shows "\<exists>h'. do { h \<leftarrow> lock_syn (Some s) h; s' \<leftarrow> syn_at h (Some s); (r, out, h) \<leftarrow> f (qs_queue s') h;
        h \<leftarrow> unlock_syn (Some s) h; Some (r, out, h) } = Some (r, out, h')
    \<and> qs_rep h' (S(s \<mapsto> L')) \<and> world h' = w \<and> arena h' = A \<and> same_qs_frame h h'"
proof -
  let ?g = "\<lambda>q h. map_option (\<lambda>(r, out, h). ((r, out), h)) (f q h)"
  have "\<exists>h'. do { h \<leftarrow> lock_syn (Some s) h; s' \<leftarrow> syn_at h (Some s); (r, h) \<leftarrow> ?g (qs_queue s') h;
        h \<leftarrow> unlock_syn (Some s) h; Some (r, h) } = Some ((r, out), h')
    \<and> qs_rep h' (S(s \<mapsto> L')) \<and> world h' = w \<and> arena h' = A \<and> same_qs_frame h h'"
    by (rule syn_call [OF rep le]) (use f in fastforce)
  then obtain h' where h': "do { h \<leftarrow> lock_syn (Some s) h; s' \<leftarrow> syn_at h (Some s); (r, h) \<leftarrow> ?g (qs_queue s') h;
        h \<leftarrow> unlock_syn (Some s) h; Some (r, h) } = Some ((r, out), h')"
    "qs_rep h' (S(s \<mapsto> L'))" "world h' = w" "arena h' = A" "same_qs_frame h h'" by blast
  from h'(1) have "do { h \<leftarrow> lock_syn (Some s) h; s' \<leftarrow> syn_at h (Some s); (r, out, h) \<leftarrow> f (qs_queue s') h;
        h \<leftarrow> unlock_syn (Some s) h; Some (r, out, h) } = Some (r, out, h')"
    by (auto simp: bind_eq_Some_conv split: prod.splits)
  with h' show ?thesis by blast
qed

text \<open>The same for calls that leave the queue as it is.\<close>

lemma syn_look:
  assumes rep: "qs_rep h S" "S s = Some L" and le: "ticks (arena h) \<le> ticks A"
    and f: "\<And>h1 Q q. q_rep h1 Q \<Longrightarrow> Q q = Some L \<Longrightarrow> world h1 = world h \<Longrightarrow> arena h1 = arena h \<Longrightarrow>
      \<exists>h2. f (Some q) h1 = Some (r, h2) \<and> q_rep h2 Q \<and> world h2 = w \<and> arena h2 = A \<and> same_q_frame h1 h2"
  shows "\<exists>h'. do { h \<leftarrow> lock_syn (Some s) h; s' \<leftarrow> syn_at h (Some s); (r, h) \<leftarrow> f (qs_queue s') h;
        h \<leftarrow> unlock_syn (Some s) h; Some (r, h) } = Some (r, h')
    \<and> qs_rep h' S \<and> world h' = w \<and> arena h' = A \<and> same_qs_frame h h'"
proof -
  have "\<exists>h'. do { h \<leftarrow> lock_syn (Some s) h; s' \<leftarrow> syn_at h (Some s); (r, h) \<leftarrow> f (qs_queue s') h;
        h \<leftarrow> unlock_syn (Some s) h; Some (r, h) } = Some (r, h')
    \<and> qs_rep h' (S(s \<mapsto> L)) \<and> world h' = w \<and> arena h' = A \<and> same_qs_frame h h'"
    by (rule syn_call [OF rep le]) (simp add: f fun_upd_idem)
  then show ?thesis using rep(2) by (simp add: fun_upd_idem)
qed

lemma syn_look_out:
  assumes rep: "qs_rep h S" "S s = Some L" and le: "ticks (arena h) \<le> ticks A"
    and f: "\<And>h1 Q q. q_rep h1 Q \<Longrightarrow> Q q = Some L \<Longrightarrow> world h1 = world h \<Longrightarrow> arena h1 = arena h \<Longrightarrow>
      \<exists>h2. f (Some q) h1 = Some (r, out, h2) \<and> q_rep h2 Q \<and> world h2 = w \<and> arena h2 = A \<and> same_q_frame h1 h2"
  shows "\<exists>h'. do { h \<leftarrow> lock_syn (Some s) h; s' \<leftarrow> syn_at h (Some s); (r, out, h) \<leftarrow> f (qs_queue s') h;
        h \<leftarrow> unlock_syn (Some s) h; Some (r, out, h) } = Some (r, out, h')
    \<and> qs_rep h' S \<and> world h' = w \<and> arena h' = A \<and> same_qs_frame h h'"
proof -
  have "\<exists>h'. do { h \<leftarrow> lock_syn (Some s) h; s' \<leftarrow> syn_at h (Some s); (r, out, h) \<leftarrow> f (qs_queue s') h;
        h \<leftarrow> unlock_syn (Some s) h; Some (r, out, h) } = Some (r, out, h')
    \<and> qs_rep h' (S(s \<mapsto> L)) \<and> world h' = w \<and> arena h' = A \<and> same_qs_frame h h'"
    by (rule syn_call_out [OF rep le]) (simp add: f fun_upd_idem)
  then show ?thesis using rep(2) by (simp add: fun_upd_idem)
qed

section \<open>Specifications\<close>

lemma syn_enqueue_spec:
  assumes rep: "qs_rep h S" "S s = Some L" and "\<not> refused (arena h)"
    and "al_store L d (world h) = Some (0, d', w)"
  shows "\<exists>h'. generic_queue_syn_enqueue (Some s) d h = Some (0, h')
    \<and> qs_rep h' (S(s \<mapsto> L\<lparr>al_items := al_items L @ [d']\<rparr>))
    \<and> world h' = w \<and> arena h' = tick (arena h) \<and> same_qs_frame h h'"
proof -
  note call = syn_call [where f = "\<lambda>q. generic_queue_enqueue q d", OF rep]
  show ?thesis
    by (simp add: generic_queue_syn_enqueue_def, rule call, simp,
        frule (1) queue_enqueue_spec [where d = d], use assms in simp_all)
qed

lemma syn_enqueue_refused:
  assumes rep: "qs_rep h S" "S s = Some L" and "refused (arena h)"
  shows "\<exists>h'. generic_queue_syn_enqueue (Some s) d h = Some (-1, h') \<and> qs_rep h' S
    \<and> world h' = world h \<and> arena h' = tick (arena h) \<and> same_qs_frame h h'"
proof -
  note call = syn_look [where f = "\<lambda>q. generic_queue_enqueue q d", OF rep]
  show ?thesis
    by (simp add: generic_queue_syn_enqueue_def, rule call, simp,
        frule (1) queue_enqueue_refused [where d = d], use assms in simp_all)
qed

lemma syn_dequeue_spec:
  assumes rep: "qs_rep h S" "S s = Some L" and items: "al_items L = d # ds"
    and "out \<noteq> NULL \<or> al_free L \<noteq> NULL" and "al_give L d out (world h) = Some (out', w)"
  shows "\<exists>h'. generic_queue_syn_dequeue (Some s) out h = Some (0, out', h')
    \<and> qs_rep h' (S(s \<mapsto> L\<lparr>al_items := ds\<rparr>))
    \<and> world h' = w \<and> arena h' = arena h \<and> same_qs_frame h h'"
proof -
  note call = syn_call_out [where f = "\<lambda>q. generic_queue_dequeue q out", OF rep]
  show ?thesis
    by (simp add: generic_queue_syn_dequeue_def, rule call, simp,
        frule (1) queue_dequeue_spec [where out = out], use assms in simp_all)
qed

lemma syn_dequeue_empty:
  assumes rep: "qs_rep h S" "S s = Some L" and "al_items L = []"
  shows "\<exists>h'. generic_queue_syn_dequeue (Some s) out h = Some (0, map_option (\<lambda>_. NULL) out, h')
    \<and> qs_rep h' S \<and> world h' = world h \<and> arena h' = arena h \<and> same_qs_frame h h'"
proof -
  note call = syn_look_out [where f = "\<lambda>q. generic_queue_dequeue q out", OF rep]
  show ?thesis
    by (simp add: generic_queue_syn_dequeue_def, rule call, simp,
        frule (1) queue_dequeue_empty [where out = out], use assms in simp_all)
qed

lemma syn_peek_spec:
  assumes rep: "qs_rep h S" "S s = Some L" "al_items L \<noteq> []" and "\<not> refused (arena h)"
  shows "\<exists>h'. generic_queue_syn_peek (Some s) (Some v) h = Some (0, Some (hd (al_items L)), h')
      \<and> qs_rep h' S \<and> world h' = world h \<and> arena h' = tick (arena h) \<and> same_qs_frame h h'"
    and "\<exists>h'. generic_queue_syn_peek_rear (Some s) (Some v) h = Some (0, Some (last (al_items L)), h')
      \<and> qs_rep h' S \<and> world h' = world h \<and> arena h' = tick (arena h) \<and> same_qs_frame h h'"
proof -
  note call = syn_look_out [OF rep(1,2)]
  show "\<exists>h'. generic_queue_syn_peek (Some s) (Some v) h = Some (0, Some (hd (al_items L)), h')
      \<and> qs_rep h' S \<and> world h' = world h \<and> arena h' = tick (arena h) \<and> same_qs_frame h h'"
    by (simp add: generic_queue_syn_peek_def, rule call [where f = "\<lambda>q. generic_queue_peek q (Some v)"], simp,
        frule (1) queue_peek_spec(1) [where v = v], use assms in simp_all)
  show "\<exists>h'. generic_queue_syn_peek_rear (Some s) (Some v) h = Some (0, Some (last (al_items L)), h')
      \<and> qs_rep h' S \<and> world h' = world h \<and> arena h' = tick (arena h) \<and> same_qs_frame h h'"
    by (simp add: generic_queue_syn_peek_rear_def, rule call [where f = "\<lambda>q. generic_queue_peek_rear q (Some v)"], simp,
        frule (1) queue_peek_spec(2) [where v = v], use assms in simp_all)
qed

lemma syn_clear_spec:
  assumes rep: "qs_rep h S" "S s = Some L" and "al_free L \<noteq> NULL"
    and "free_all (al_free L) (al_items L) (world h) = Some w"
  shows "\<exists>h'. generic_queue_syn_clear (Some s) h = Some (0, h') \<and> qs_rep h' (S(s \<mapsto> L\<lparr>al_items := []\<rparr>))
    \<and> world h' = w \<and> arena h' = arena h \<and> same_qs_frame h h'"
proof -
  note call = syn_call [where f = generic_queue_clear, OF rep]
  show ?thesis
    by (simp add: generic_queue_syn_clear_def, rule call, simp,
        frule (1) queue_clear_spec, use assms in simp_all)
qed

lemma syn_for_each_spec:
  assumes rep: "qs_rep h S" "S s = Some L" and "grants 2 (arena h)"
    and "visit_all f (al_items L) (world h) = Some w"
  shows "\<exists>h'. generic_queue_syn_for_each (Some s) (Some f) h = Some (0, h') \<and> qs_rep h' S
    \<and> world h' = w \<and> arena h' = tick (tick (arena h)) \<and> same_qs_frame h h'"
proof -
  note call = syn_look [where f = "\<lambda>q. generic_queue_for_each q (Some f)", OF rep]
  show ?thesis
    by (simp add: generic_queue_syn_for_each_def, rule call, simp,
        frule (1) queue_for_each_spec [where f = f], use assms in simp_all)
qed

lemma syn_contains_spec:
  assumes rep: "qs_rep h S" "S s = Some L" and "grants 3 (arena h)"
  shows "\<exists>h'. generic_queue_syn_contains (Some s) target (Some cmp) h
      = Some (if \<exists>d \<in> set (al_items L). cmp d target = 0 then 1 else 0, h') \<and> qs_rep h' S
    \<and> world h' = world h \<and> arena h' = (tick ^^ 3) (arena h) \<and> same_qs_frame h h'"
proof -
  note call = syn_look [where f = "\<lambda>q. generic_queue_contains q target (Some cmp)", OF rep]
  show ?thesis
    by (simp only: generic_queue_syn_contains_def option.distinct if_False, rule call, simp add: eval_nat_numeral,
        frule (1) queue_contains_spec [where target = target and cmp = cmp], use assms in simp_all)
qed

lemma syn_set_functions_spec:
  assumes rep: "qs_rep h S" "S s = Some L"
  shows "\<exists>h'. generic_queue_syn_set_free_function (Some s) f h = Some (0, h')
      \<and> qs_rep h' (S(s \<mapsto> L\<lparr>al_free := f\<rparr>))
      \<and> world h' = world h \<and> arena h' = arena h \<and> same_qs_frame h h'"
    and "\<exists>h'. generic_queue_syn_set_copy_function (Some s) c h = Some (0, h')
      \<and> qs_rep h' (S(s \<mapsto> L\<lparr>al_copy := c\<rparr>))
      \<and> world h' = world h \<and> arena h' = arena h \<and> same_qs_frame h h'"
proof -
  note call = syn_call [OF rep]
  show "\<exists>h'. generic_queue_syn_set_free_function (Some s) f h = Some (0, h')
      \<and> qs_rep h' (S(s \<mapsto> L\<lparr>al_free := f\<rparr>))
      \<and> world h' = world h \<and> arena h' = arena h \<and> same_qs_frame h h'"
    by (simp add: generic_queue_syn_set_free_function_def,
        rule call [where f = "\<lambda>q. generic_queue_set_free_function q f"], simp,
        frule (1) queue_set_functions_spec(1) [where f = f], simp)
  show "\<exists>h'. generic_queue_syn_set_copy_function (Some s) c h = Some (0, h')
      \<and> qs_rep h' (S(s \<mapsto> L\<lparr>al_copy := c\<rparr>))
      \<and> world h' = world h \<and> arena h' = arena h \<and> same_qs_frame h h'"
    by (simp add: generic_queue_syn_set_copy_function_def,
        rule call [where f = "\<lambda>q. generic_queue_set_copy_function q c"], simp,
        frule (1) queue_set_functions_spec(2) [where c = c], simp)
qed

lemma syn_size_spec:
  assumes rep: "qs_rep h S" "S s = Some L"
  shows "\<exists>h'. generic_queue_syn_size (Some s) (Some v) h = Some (0, Some (of_nat (length (al_items L))), h')
      \<and> qs_rep h' S \<and> world h' = world h \<and> arena h' = arena h \<and> same_qs_frame h h'"
    and "\<exists>h'. generic_queue_syn_is_empty (Some s) h = Some (if al_items L = [] then 1 else 0, h')
      \<and> qs_rep h' S \<and> world h' = world h \<and> arena h' = arena h \<and> same_qs_frame h h'"
    and "length (al_items L) \<le> block_limit"
proof (atomize (full), rule locked_call [OF rep])
  fix h1 Q q
  assume h1: "lock_syn (Some s) h = Some h1" "syn_at h1 (Some s) = Some \<lparr>qs_queue = Some q, qs_mutex = Locked\<rparr>"
      "q_rep h1 Q" "Q q = Some L" "world h1 = world h" "arena h1 = arena h"
    and unlock: "\<And>h2. q_rep h2 Q \<and> same_q_frame h1 h2 \<and> ticks (arena h1) \<le> ticks (arena h2) \<longrightarrow>
      (\<exists>h3. unlock_syn (Some s) h2 = Some h3 \<and> qs_rep h3 S \<and> world h3 = world h2
        \<and> arena h3 = arena h2 \<and> same_qs_frame h h3)"
  from unlock [of h1] h1 obtain h3 where "unlock_syn (Some s) h1 = Some h3" "qs_rep h3 S" "world h3 = world h"
    "arena h3 = arena h" "same_qs_frame h h3" by auto
  with h1 queue_size_spec [OF h1(3,4), of v] queue_is_empty_spec [OF h1(3,4)] queue_length_bound [OF h1(3,4)]
  show "(\<exists>h'. generic_queue_syn_size (Some s) (Some v) h = Some (0, Some (of_nat (length (al_items L))), h')
      \<and> qs_rep h' S \<and> world h' = world h \<and> arena h' = arena h \<and> same_qs_frame h h')
    \<and> (\<exists>h'. generic_queue_syn_is_empty (Some s) h = Some (if al_items L = [] then 1 else 0, h')
      \<and> qs_rep h' S \<and> world h' = world h \<and> arena h' = arena h \<and> same_qs_frame h h')
    \<and> length (al_items L) \<le> block_limit"
    by (simp add: generic_queue_syn_size_def generic_queue_syn_is_empty_def)
qed

lemma malloc_syn_simps [simp]:
  "refused (arena h) \<Longrightarrow> malloc_syn h = (NULL, h\<lparr>arena := tick (arena h)\<rparr>)"
  "\<not> refused (arena h) \<Longrightarrow> malloc_syn h = (Some (Suc (ticks (arena h))),
     h\<lparr>arena := tick (arena h), syns := (syns h)(Suc (ticks (arena h)) \<mapsto>
       \<lparr>qs_queue = NULL, qs_mutex = Unlocked\<rparr>)\<rparr>)"
  by (simp_all add: malloc_syn_def)

lemma syn_new_spec:
  assumes rep: "qs_rep h S" and granted: "grants 6 (arena h)"
  shows "\<exists>h' s. generic_queue_syn_new (Some v) h = Some (0, Some (Some s), h') \<and> S s = None
    \<and> qs_rep h' (S(s \<mapsto> \<lparr>al_items = [], al_free = NULL, al_copy = NULL\<rparr>))
    \<and> world h' = world h \<and> arena h' = (tick ^^ 6) (arena h) \<and> same_qs_frame h h'"
proof -
  have g: "\<not> refused (arena h)" "grants 4 (tick (arena h))" "\<not> refused (tick (tick (tick (tick (tick (arena h))))))"
    using granted grants_Suc [of 5 "arena h"] grants_mono [of 5 "tick (arena h)" 4] grants_nth [OF granted, of 5]
    by (auto simp: eval_nat_numeral)
  obtain Q where Q: "q_rep h Q" "owns (map_option qs_queue \<circ> syns h) Q S"
    and free: "\<And>s r. syns h s = Some r \<Longrightarrow> qs_mutex r = Unlocked"
    and dom: "dom (syns h) \<subseteq> {1..min (ticks (arena h)) block_limit}"
    using rep by (auto simp: qs_rep_def)
  define s where "s = Suc (ticks (arena h))"
  have fresh: "syns h s = None" using dom by (auto simp: s_def)
  define h1 where "h1 = h\<lparr>arena := tick (arena h), syns := (syns h)(s \<mapsto> \<lparr>qs_queue = NULL, qs_mutex = Unlocked\<rparr>)\<rparr>"
  have "q_rep h1 Q" by (rule q_rep_cong [OF Q(1)]) (simp_all add: h1_def)
  from queue_new_spec [OF this, of NULL] g(2) obtain h2 q where
    h2: "generic_queue_new (Some NULL) h1 = Some (0, Some (Some q), h2)" "Q q = None"
      "q_rep h2 (Q(q \<mapsto> \<lparr>al_items = [], al_free = NULL, al_copy = NULL\<rparr>))"
      "world h2 = world h" "arena h2 = (tick ^^ 5) (arena h)" "same_q_frame h1 h2"
    by (auto simp: h1_def eval_nat_numeral)
  have ss: "syns h2 = syns h1" "same_qs_frame h1 h2" using same_q_frameD [OF h2(6)] by auto
  define h' where "h' = h2\<lparr>syns := (syns h)(s \<mapsto> \<lparr>qs_queue = Some q, qs_mutex = Unlocked\<rparr>), arena := (tick ^^ 6) (arena h)\<rparr>"
  have "q_rep h' (Q(q \<mapsto> \<lparr>al_items = [], al_free = NULL, al_copy = NULL\<rparr>))"
    by (rule q_rep_cong [OF h2(3)]) (simp_all add: h'_def h2(5) eval_nat_numeral)
  moreover have "owns (map_option qs_queue \<circ> syns h') (Q(q \<mapsto> \<lparr>al_items = [], al_free = NULL, al_copy = NULL\<rparr>))
      (S(s \<mapsto> \<lparr>al_items = [], al_free = NULL, al_copy = NULL\<rparr>))"
    using owns_add [OF Q(2), of s q "\<lparr>al_items = [], al_free = NULL, al_copy = NULL\<rparr>"] fresh h2(2)
    by (simp add: h'_def)
  moreover have "s \<le> block_limit" using g(1) by (simp add: s_def refused_def)
  then have "dom (syns h') \<subseteq> {1..min (ticks (arena h')) block_limit}"
    using dom by (fastforce simp: h'_def eval_nat_numeral s_def)
  ultimately have "qs_rep h' (S(s \<mapsto> \<lparr>al_items = [], al_free = NULL, al_copy = NULL\<rparr>))"
    unfolding qs_rep_def using free by (auto simp: h'_def)
  moreover have "generic_queue_syn_new (Some v) h = Some (0, Some (Some s), h')"
    using g(1,3) h2(1,5) ss(1)
    by (simp add: generic_queue_syn_new_def modify_syn_def s_def [symmetric] h1_def [symmetric])
      (simp add: h1_def h'_def modify_syn_def eval_nat_numeral)
  moreover have "S s = None" using owns_none [OF Q(2), of s] fresh by simp
  ultimately show ?thesis using h2 ss by (intro exI [of _ h'] exI [of _ s]) (simp add: h'_def h1_def)
qed

lemma qs_rep_same:
  assumes "qs_rep h S" and "\<And>Q. q_rep h Q \<Longrightarrow> q_rep h' Q" and "syns h' = syns h" and "ticks (arena h) \<le> ticks (arena h')"
  shows "qs_rep h' S"
  using assms unfolding qs_rep_def by fastforce

lemma syn_new_refused:
  assumes rep: "qs_rep h S" and ref: "\<not> grants 6 (arena h)"
  shows "\<exists>h'. generic_queue_syn_new (Some v) h = Some (-1, Some v, h') \<and> qs_rep h' S
    \<and> world h' = world h \<and> ticks (arena h) \<le> ticks (arena h') \<and> same_qs_frame h h'"
proof (cases "refused (arena h)")
  case True
  have "qs_rep (h\<lparr>arena := tick (arena h)\<rparr>) S"
    by (rule qs_rep_same [OF rep]) (auto intro: q_rep_cong)
  with True show ?thesis by (simp add: generic_queue_syn_new_def)
next
  case False
  define s where "s = Suc (ticks (arena h))"
  define h1 where "h1 = h\<lparr>arena := tick (arena h), syns := (syns h)(s \<mapsto> \<lparr>qs_queue = NULL, qs_mutex = Unlocked\<rparr>)\<rparr>"
  obtain Q where Q: "q_rep h Q" "owns (map_option qs_queue \<circ> syns h) Q S"
    and free: "\<And>s r. syns h s = Some r \<Longrightarrow> qs_mutex r = Unlocked"
    and dom: "dom (syns h) \<subseteq> {1..min (ticks (arena h)) block_limit}"
    using rep by (auto simp: qs_rep_def)
  have fresh: "(syns h)(s := None) = syns h" using dom by (auto simp: s_def fun_upd_idem_iff)
  have q1: "q_rep h1 Q" by (rule q_rep_cong [OF Q(1)]) (simp_all add: h1_def)
  have undone: "qs_rep (h2\<lparr>syns := syns h\<rparr>) S" if "q_rep h2 Q" "ticks (arena h) \<le> ticks (arena h2)" for h2
  proof -
    have "q_rep (h2\<lparr>syns := syns h\<rparr>) Q" by (rule q_rep_cong [OF that(1)]) simp_all
    then show ?thesis using Q(2) free dom that(2) unfolding qs_rep_def by fastforce
  qed
  show ?thesis
  proof (cases "grants 4 (arena h1)")
    case new: False
    obtain h2 out where h2: "generic_queue_new (Some NULL) h1 = Some (-1, out, h2)" "out = Some NULL" "q_rep h2 Q" "world h2 = world h1"
      "ticks (arena h1) \<le> ticks (arena h2)" "same_q_frame h1 h2"
      using queue_new_refused [OF q1 new, of NULL] by auto
    have ss: "syns h2 = syns h1" "same_qs_frame h1 h2" using same_q_frameD [OF h2(6)] by auto
    have "generic_queue_syn_new (Some v) h = Some (-1, Some v, h2\<lparr>syns := syns h\<rparr>)"
      using False h2(1,2) ss(1)
      by (simp add: generic_queue_syn_new_def s_def [symmetric] h1_def [symmetric])
        (simp add: h1_def modify_syn_def free_syn_def fresh)
    with undone [OF h2(3)] h2 ss show ?thesis by (auto simp: h1_def)
  next
    case True
    obtain h2 q where h2: "generic_queue_new (Some NULL) h1 = Some (0, Some (Some q), h2)" "Q q = None"
      "q_rep h2 (Q(q \<mapsto> \<lparr>al_items = [], al_free = NULL, al_copy = NULL\<rparr>))" "world h2 = world h"
      "arena h2 = (tick ^^ 5) (arena h)" "same_q_frame h1 h2"
      using queue_new_spec [OF q1 True, of NULL] by (auto simp: h1_def eval_nat_numeral)
    have ss: "syns h2 = syns h1" "same_qs_frame h1 h2" using same_q_frameD [OF h2(6)] by auto
    have r: "refused (arena h2)"
      using ref False True grants_add [of 5 1 "arena h"] grants_add [of 1 4 "arena h"] h2(5) by (simp add: h1_def)
    define h3 where "h3 = h2\<lparr>syns := (syns h)(s \<mapsto> \<lparr>qs_queue = Some q, qs_mutex = Unlocked\<rparr>), arena := tick (arena h2)\<rparr>"
    have "q_rep h3 (Q(q \<mapsto> \<lparr>al_items = [], al_free = NULL, al_copy = NULL\<rparr>))"
      by (rule q_rep_cong [OF h2(3)]) (simp_all add: h3_def)
    from queue_free_spec [OF this, of q _ "world h"] h2(2,4) obtain h4 where h4: "generic_queue_free (Some q) h3 = Some (0, h4)"
      "q_rep h4 Q" "world h4 = world h" "arena h4 = tick (arena h2)" "same_q_frame h3 h4"
      by (auto simp: h3_def fun_upd_idem)
    have ss': "syns h4 = syns h3" "same_qs_frame h3 h4" using same_q_frameD [OF h4(5)] by auto
    have "generic_queue_syn_new (Some v) h = Some (-1, Some v, h4\<lparr>syns := syns h\<rparr>)"
      using False h2(1) ss(1) h4(1) r sys_init_simps(2,3) [of "arena h2"]
      by (simp add: generic_queue_syn_new_def s_def [symmetric] h1_def [symmetric] case_prod_beta)
        (simp add: h1_def modify_syn_def free_syn_def fresh h3_def [symmetric] ss'(1) Let_def, simp add: h3_def fresh)
    with undone [OF h4(2)] h4 h2(5) ss ss' show ?thesis by (auto simp: h3_def h1_def)
  qed
qed

lemma syn_free_spec:
  assumes rep: "qs_rep h S" "S s = Some L" and w: "free_all (al_free L) (al_items L) (world h) = Some w"
  shows "\<exists>h'. generic_queue_syn_free (Some s) h = Some (0, h') \<and> qs_rep h' (S(s := None))
    \<and> world h' = w \<and> arena h' = arena h \<and> same_qs_frame h h'"
proof -
  obtain Q where Q: "q_rep h Q" "owns (map_option qs_queue \<circ> syns h) Q S"
    and free: "\<And>s r. syns h s = Some r \<Longrightarrow> qs_mutex r = Unlocked"
    and dom: "dom (syns h) \<subseteq> {1..min (ticks (arena h)) block_limit}"
    using rep by (auto simp: qs_rep_def)
  obtain q where q: "(map_option qs_queue \<circ> syns h) s = Some (Some q)" "Q q = Some L"
    by (rule ownsE' [OF Q(2) rep(2)])
  then obtain r where r: "syns h s = Some r" "qs_queue r = Some q" by auto
  define h1 where "h1 = h\<lparr>syns := (syns h)(s \<mapsto> r\<lparr>qs_mutex := Locked\<rparr>)\<rparr>"
  have "q_rep h1 Q" by (rule q_rep_cong [OF Q(1)]) (simp_all add: h1_def)
  from queue_free_spec [OF this q(2), of w] w obtain h2 where
    h2: "generic_queue_free (Some q) h1 = Some (0, h2)" "q_rep h2 (Q(q := None))"
      "world h2 = w" "arena h2 = arena h" "same_q_frame h1 h2"
    by (auto simp: h1_def)
  have ss: "syns h2 = syns h1" "same_qs_frame h1 h2" using same_q_frameD [OF h2(5)] by auto
  define h' where "h' = h2\<lparr>syns := (syns h)(s := None)\<rparr>"
  have "q_rep h' (Q(q := None))" by (rule q_rep_cong [OF h2(2)]) (simp_all add: h'_def)
  moreover have "owns (map_option qs_queue \<circ> syns h') (Q(q := None)) (S(s := None))"
    using owns_remove [OF Q(2) q(1)] by (simp add: h'_def del: o_apply)
  ultimately have "qs_rep h' (S(s := None))"
    unfolding qs_rep_def using free dom h2(4) by (auto simp: h'_def)
  moreover have "generic_queue_syn_free (Some s) h = Some (0, h')"
    using r free [OF r(1)] h2(1) ss(1)
    by (simp add: generic_queue_syn_free_def lock_syn_def unlock_syn_def destroy_syn_mutex_def syn_at_def
        modify_syn_def free_syn_def h1_def [symmetric])
      (simp add: h1_def h'_def)
  ultimately show ?thesis using h2 ss by (intro exI [of _ h']) (simp add: h'_def h1_def)
qed

interpretation gqs: fifo qs_rep generic_queue_syn_enqueue generic_queue_syn_dequeue arena world
proof
  fix h :: "('d, 'w, 'z) qsh" and Q q and L :: "('d, 'w) alist" and d d' w
  assume "qs_rep h Q" "Q q = Some L" "\<not> refused (arena h)" "al_store L d (world h) = Some (0, d', w)"
  from syn_enqueue_spec [OF this]
  show "\<exists>h'. generic_queue_syn_enqueue (Some q) d h = Some (0, h')
      \<and> qs_rep h' (Q(q \<mapsto> L\<lparr>al_items := al_items L @ [d']\<rparr>)) \<and> world h' = w \<and> arena h' = tick (arena h)"
    by auto
next
  fix h :: "('d, 'w, 'z) qsh" and Q q and L :: "('d, 'w) alist" and x xs v
  assume "qs_rep h Q" "Q q = Some L" "al_items L = x # xs"
  from syn_dequeue_spec [OF this, of "Some v"]
  show "\<exists>h'. generic_queue_syn_dequeue (Some q) (Some v) h = Some (0, Some x, h')
      \<and> qs_rep h' (Q(q \<mapsto> L\<lparr>al_items := xs\<rparr>)) \<and> world h' = world h \<and> arena h' = arena h"
    by (auto simp: al_give_def)
next
  fix h :: "('d, 'w, 'z) qsh" and Q q and L :: "('d, 'w) alist" and v
  assume "qs_rep h Q" "Q q = Some L" "al_items L = []"
  from syn_dequeue_empty [OF this, of "Some v"]
  show "\<exists>h'. generic_queue_syn_dequeue (Some q) (Some v) h = Some (0, Some NULL, h')
      \<and> qs_rep h' Q \<and> world h' = world h \<and> arena h' = arena h"
    by auto
qed

section \<open>A held mutex\<close>

text \<open>While another thread holds the mutex, no operation gets past \<open>pthread_mutex_lock\<close>.\<close>

lemma lock_syn_held:
  assumes "syns h s = Some r" and "qs_mutex r = Locked"
  shows "lock_syn (Some s) h = None"
  using assms by (simp add: lock_syn_def syn_at_def)

lemmas syn_operations = generic_queue_syn_free_def generic_queue_syn_set_free_function_def
  generic_queue_syn_get_free_function_def generic_queue_syn_set_copy_function_def
  generic_queue_syn_get_copy_function_def generic_queue_syn_size_def generic_queue_syn_is_empty_def
  generic_queue_syn_enqueue_def generic_queue_syn_dequeue_def generic_queue_syn_peek_def
  generic_queue_syn_peek_rear_def generic_queue_syn_clear_def generic_queue_syn_contains_def
  generic_queue_syn_for_each_def

end
