(* ===== verification/Dictionary.thy ===== *)
theory Dictionary
  imports Prelude
begin

text \<open>
  Two contracts around the hash table.

  \<^item> \<open>key_laws\<close>: what the table relies on in the compare and hash callbacks of its client:
    comparing equal is an equivalence, and equal keys have equal hashes.
  \<^item> \<open>dictionary\<close>: what the table promises.  The content of a table is, for every key, the stack of
    the values bound to it; an insertion pushes, a deletion pops, a lookup reads the top.  Keys
    that compare different do not interfere.  The lemmas of the locale derive what a client sees
    of sequences of operations from these laws.
\<close>

section \<open>Key callbacks\<close>

locale key_laws =
  fixes hash :: "'k ptr \<Rightarrow> size_t" and compare :: "'k compare_fn"
  assumes compare_refl: "compare a a = 0"
    and compare_sym: "compare a b = 0 \<Longrightarrow> compare b a = 0"
    and compare_trans: "compare a b = 0 \<Longrightarrow> compare b c = 0 \<Longrightarrow> compare a c = 0"
    and hash_compat: "compare a b = 0 \<Longrightarrow> hash a = hash b"
begin

lemma compare_cong:
  assumes "compare a b = 0"
  shows "compare a c = 0 \<longleftrightarrow> compare b c = 0" and "compare c a = 0 \<longleftrightarrow> compare c b = 0"
  using assms compare_sym compare_trans by blast+

end

section \<open>Dictionaries\<close>

locale dictionary =
  fixes rep :: "'h \<Rightarrow> ('t \<rightharpoonup> 'a) \<Rightarrow> bool"
    and lawful :: "'a \<Rightarrow> bool"
    and same :: "'a \<Rightarrow> 'k ptr \<Rightarrow> 'k ptr \<Rightarrow> bool"
    and stack :: "'a \<Rightarrow> 'k ptr \<Rightarrow> 'v ptr list"
    and store :: "'a \<Rightarrow> 'k ptr \<Rightarrow> 'v ptr \<Rightarrow> 'w \<Rightarrow> ('v ptr \<times> 'w) option"
    and release :: "'a \<Rightarrow> 'k ptr \<Rightarrow> 'w \<Rightarrow> 'w option"
    and insert :: "'t ptr \<Rightarrow> 'k ptr \<Rightarrow> 'v ptr \<Rightarrow> 'h \<Rightarrow> (exit_code, 'h) res"
    and lookup :: "'t ptr \<Rightarrow> 'k ptr \<Rightarrow> 'v ptr out \<Rightarrow> 'h \<Rightarrow> (exit_code \<times> 'v ptr out \<times> 'h) option"
    and delete :: "'t ptr \<Rightarrow> 'k ptr \<Rightarrow> 'h \<Rightarrow> (exit_code, 'h) res"
    and sys :: "'h \<Rightarrow> allocator"
    and st :: "'h \<Rightarrow> 'w"
  assumes same_refl: "lawful A \<Longrightarrow> same A k k"
    and release_total: "lawful A \<Longrightarrow> \<exists>w'. release A k w = Some w'"
    and insert_law: "rep h T \<Longrightarrow> T t = Some A \<Longrightarrow> lawful A \<Longrightarrow> k \<noteq> NULL \<Longrightarrow> grants 2 (sys h) \<Longrightarrow>
      store A k v (st h) = Some (v', w) \<Longrightarrow>
      \<exists>h' A'. insert (Some t) k v h = Some (0, h') \<and> rep h' (T(t \<mapsto> A')) \<and> lawful A' \<and> same A' = same A
        \<and> (\<forall>k'. stack A' k' = (if same A k' k then v' # stack A k' else stack A k'))
        \<and> st h' = w \<and> sys h' = (tick ^^ 2) (sys h)"
    and lookup_law: "rep h T \<Longrightarrow> T t = Some A \<Longrightarrow> k \<noteq> NULL \<Longrightarrow> \<not> refused (sys h) \<Longrightarrow>
      \<exists>h'. lookup (Some t) k (Some x) h = Some (case stack A k of [] \<Rightarrow> (1, Some NULL, h') | u # _ \<Rightarrow> (0, Some u, h'))
        \<and> rep h' T \<and> st h' = st h \<and> sys h' = tick (sys h)"
    and delete_law: "rep h T \<Longrightarrow> T t = Some A \<Longrightarrow> lawful A \<Longrightarrow> k \<noteq> NULL \<Longrightarrow> \<not> refused (sys h) \<Longrightarrow>
      stack A k \<noteq> [] \<Longrightarrow> release A k (st h) = Some w \<Longrightarrow>
      \<exists>h' A'. delete (Some t) k h = Some (0, h') \<and> rep h' (T(t \<mapsto> A')) \<and> lawful A' \<and> same A' = same A
        \<and> (\<forall>k'. stack A' k' = (if same A k' k then tl (stack A k') else stack A k'))
        \<and> st h' = w \<and> sys h' = tick (sys h)"
begin

text \<open>What was inserted last is what a lookup of an equal key returns.\<close>

lemma lookup_insert:
  assumes rep: "rep h T" "T t = Some A" "lawful A" and k: "k \<noteq> NULL" "k' \<noteq> NULL" and granted: "grants 3 (sys h)"
    and store: "store A k v (st h) = Some (v', w)"
  shows "\<exists>h1 h2. insert (Some t) k v h = Some (0, h1)
    \<and> lookup (Some t) k' (Some x) h1
      = Some (if same A k' k then (0, Some v', h2)
              else case stack A k' of [] \<Rightarrow> (1, Some NULL, h2) | u # _ \<Rightarrow> (0, Some u, h2))"
proof -
  obtain h1 A' where h1: "insert (Some t) k v h = Some (0, h1)" "rep h1 (T(t \<mapsto> A'))"
    "\<forall>k'. stack A' k' = (if same A k' k then v' # stack A k' else stack A k')" "sys h1 = (tick ^^ 2) (sys h)"
    using insert_law [OF rep k(1) grants_mono [OF granted] store] by auto
  have "\<not> refused (sys h1)" using granted h1(4) by (simp add: eval_nat_numeral grants_Suc)
  from lookup_law [OF h1(2) _ k(2) this, of t A' x] h1(1,3) show ?thesis
    by (cases "same A k' k"; cases "stack A k'") auto
qed

text \<open>A deletion right after an insertion gives back what every lookup returned before.\<close>

lemma delete_insert:
  assumes rep: "rep h T" "T t = Some A" "lawful A" and k: "k \<noteq> NULL" "k' \<noteq> NULL" and granted: "grants 4 (sys h)"
    and store: "store A k v (st h) = Some (v', w)"
  shows "\<exists>h1 h2 h3. insert (Some t) k v h = Some (0, h1) \<and> delete (Some t) k h1 = Some (0, h2)
    \<and> lookup (Some t) k' (Some x) h2
      = Some (case stack A k' of [] \<Rightarrow> (1, Some NULL, h3) | u # _ \<Rightarrow> (0, Some u, h3))"
proof -
  obtain h1 A1 where h1: "insert (Some t) k v h = Some (0, h1)" "rep h1 (T(t \<mapsto> A1))" "lawful A1" "same A1 = same A"
    "\<forall>k'. stack A1 k' = (if same A k' k then v' # stack A k' else stack A k')"
    "st h1 = w" "sys h1 = (tick ^^ 2) (sys h)"
    using insert_law [OF rep k(1) grants_mono [OF granted] store] by auto
  have g: "\<not> refused (sys h1)" "\<not> refused (tick (sys h1))"
    using granted h1(7) by (simp_all add: eval_nat_numeral grants_Suc)
  have "stack A1 k \<noteq> []" using h1(5) same_refl [OF rep(3), of k] by simp
  moreover obtain w2 where "release A1 k (st h1) = Some w2" using release_total [OF h1(3)] by blast
  ultimately obtain h2 A2 where h2: "delete (Some t) k h1 = Some (0, h2)" "rep h2 (T(t \<mapsto> A1, t \<mapsto> A2))"
    "\<forall>k'. stack A2 k' = (if same A1 k' k then tl (stack A1 k') else stack A1 k')" "sys h2 = tick (sys h1)"
    using delete_law [OF h1(2) _ h1(3) k(1) g(1), of t w2] by auto
  have "stack A2 k' = stack A k'" using h2(3) h1(4,5) by simp
  with lookup_law [OF h2(2) _ k(2), of t A2 x] h1(1) h2(1,4) g(2) show ?thesis
    by (cases "stack A k'") auto
qed

end

end
