(* ===== verification/Hash_Table.thy ===== *)
theory Hash_Table
  imports List_Iterator Dictionary
begin

text \<open>
  The hash table of \<^verbatim>\<open>src/generic_hash_table.c\<close>: separate chaining over an array of linked
  lists, one mutex per bucket, user callbacks for hashing, comparing, copying and freeing.

  \<^item> The heap of the list component, with pointers to key-value pairs as its data, is extended by
    the pairs and the tables.  The two arrays a table allocates have no other owner and are
    fields of the table; the field is \<open>None\<close> while the pointer is \<open>NULL\<close>.  An array cell is
    \<open>None\<close> until it is initialised.
  \<^item> \<open>ht_rep h T\<close> relates a heap to its abstract tables: for every table the sequence of pairs of
    each bucket.  \<open>ht_stack\<close> gives the values bound to a key, the latest first: an insertion
    pushes, a deletion pops, a lookup reads the top.
\<close>

section \<open>Structures\<close>

record ('k, 'v) key_value_t =
  kv_key :: "'k ptr"
  kv_value :: "'v ptr"

type_synonym 'k hash_fn = "'k ptr \<Rightarrow> size_t"

record ('k, 'v, 'w) generic_hash_table_t =
  ht_capacity :: size_t
  ht_size :: size_t
  ht_buckets :: "addr ptr list ptr"
  ht_mutexes :: "pthread_mutex_t option list ptr"
  ht_hash_function :: "'k hash_fn ptr"
  ht_free_value_function :: "('v, 'w) free_fn ptr"
  ht_copy_value_function :: "('v, 'w) copy_fn ptr"
  ht_free_key_function :: "('k, 'w) free_fn ptr"
  ht_copy_key_function :: "('k, 'w) copy_fn ptr"
  ht_compare_key_function :: "'k compare_fn ptr"

record ('k, 'v, 'w) ht_heap = "(addr, 'w) ll_heap" +
  kvs :: "addr \<rightharpoonup> ('k, 'v) key_value_t"
  tables :: "addr \<rightharpoonup> ('k, 'v, 'w) generic_hash_table_t"

type_synonym ('k, 'v, 'w, 'z) hth = "('k, 'v, 'w, 'z) ht_heap_scheme"

section \<open>Heap accesses\<close>

definition malloc_table :: "('k, 'v, 'w, 'z) hth \<Rightarrow> addr ptr \<times> ('k, 'v, 'w, 'z) hth" where
  "malloc_table h = (case malloc (arena h) of
     (NULL, A) \<Rightarrow> (NULL, h\<lparr>arena := A\<rparr>)
   | (Some a, A) \<Rightarrow> (Some a, h\<lparr>arena := A, tables := (tables h)(a \<mapsto>
       \<lparr>ht_capacity = 0, ht_size = 0, ht_buckets = NULL, ht_mutexes = NULL, ht_hash_function = NULL,
        ht_free_value_function = NULL, ht_copy_value_function = NULL, ht_free_key_function = NULL,
        ht_copy_key_function = NULL, ht_compare_key_function = NULL\<rparr>)\<rparr>))"

definition malloc_pair :: "('k, 'v, 'w, 'z) hth \<Rightarrow> addr ptr \<times> ('k, 'v, 'w, 'z) hth" where
  "malloc_pair h = (case malloc (arena h) of
     (NULL, A) \<Rightarrow> (NULL, h\<lparr>arena := A\<rparr>)
   | (Some a, A) \<Rightarrow> (Some a, h\<lparr>arena := A, kvs := (kvs h)(a \<mapsto> \<lparr>kv_key = NULL, kv_value = NULL\<rparr>)\<rparr>))"

text \<open>
  \<open>malloc (sizeof (T) * capacity)\<close>: the product is taken modulo \<open>2 ^ 64\<close>, so the array that comes
  back may be shorter than \<open>capacity\<close>.  Sizes are those of the LP64 Linux platforms the program
  is built for.
\<close>

definition sizeof_ptr :: nat where "sizeof_ptr = 8"
definition sizeof_pthread_mutex_t :: nat where "sizeof_pthread_mutex_t = 40"

definition array_len :: "nat \<Rightarrow> size_t \<Rightarrow> nat" where
  "array_len sz n = unat (of_nat sz * n) div sz"

definition malloc_array :: "nat \<Rightarrow> size_t \<Rightarrow> ('k, 'v, 'w, 'z) hth \<Rightarrow> 'a option list ptr \<times> ('k, 'v, 'w, 'z) hth" where
  "malloc_array sz n h = (case malloc (arena h) of
     (NULL, A) \<Rightarrow> (NULL, h\<lparr>arena := A\<rparr>)
   | (Some _, A) \<Rightarrow> (Some (replicate (array_len sz n) None), h\<lparr>arena := A\<rparr>))"

definition table_at :: "('k, 'v, 'w, 'z) hth \<Rightarrow> addr ptr \<Rightarrow> ('k, 'v, 'w) generic_hash_table_t option" where
  "table_at h p = Option.bind p (tables h)"

definition pair_at :: "('k, 'v, 'w, 'z) hth \<Rightarrow> addr ptr \<Rightarrow> ('k, 'v) key_value_t option" where
  "pair_at h p = Option.bind p (kvs h)"

definition modify_table ::
  "addr ptr \<Rightarrow> (('k, 'v, 'w) generic_hash_table_t \<Rightarrow> ('k, 'v, 'w) generic_hash_table_t)
     \<Rightarrow> ('k, 'v, 'w, 'z) hth \<Rightarrow> ('k, 'v, 'w, 'z) hth option" where
  "modify_table p f h = do {
     a \<leftarrow> p;
     t \<leftarrow> tables h a;
     Some (h\<lparr>tables := (tables h)(a \<mapsto> f t)\<rparr>) }"

definition modify_pair ::
  "addr ptr \<Rightarrow> (('k, 'v) key_value_t \<Rightarrow> ('k, 'v) key_value_t)
     \<Rightarrow> ('k, 'v, 'w, 'z) hth \<Rightarrow> ('k, 'v, 'w, 'z) hth option" where
  "modify_pair p f h = do {
     a \<leftarrow> p;
     t \<leftarrow> kvs h a;
     Some (h\<lparr>kvs := (kvs h)(a \<mapsto> f t)\<rparr>) }"

definition free_pair :: "addr ptr \<Rightarrow> ('k, 'v, 'w, 'z) hth \<Rightarrow> ('k, 'v, 'w, 'z) hth option" where
  "free_pair p h = (case p of NULL \<Rightarrow> Some h
     | Some a \<Rightarrow> if kvs h a = None then None else Some (h\<lparr>kvs := (kvs h)(a := None)\<rparr>))"

definition free_table :: "addr ptr \<Rightarrow> ('k, 'v, 'w, 'z) hth \<Rightarrow> ('k, 'v, 'w, 'z) hth option" where
  "free_table p h = (case p of NULL \<Rightarrow> Some h
     | Some a \<Rightarrow> if tables h a = None then None else Some (h\<lparr>tables := (tables h)(a := None)\<rparr>))"

text \<open>\<open>free (self->_buckets)\<close> and \<open>free (self->_mutexes)\<close>: the field no longer points to an array.\<close>

definition free_buckets :: "addr ptr \<Rightarrow> ('k, 'v, 'w, 'z) hth \<Rightarrow> ('k, 'v, 'w, 'z) hth option" where
  "free_buckets p h = modify_table p (\<lambda>t. t\<lparr>ht_buckets := NULL\<rparr>) h"

definition free_mutexes :: "addr ptr \<Rightarrow> ('k, 'v, 'w, 'z) hth \<Rightarrow> ('k, 'v, 'w, 'z) hth option" where
  "free_mutexes p h = modify_table p (\<lambda>t. t\<lparr>ht_mutexes := NULL\<rparr>) h"

text \<open>Array cells: an index outside of the array is undefined behaviour.\<close>

definition get_bucket :: "addr ptr \<Rightarrow> size_t \<Rightarrow> ('k, 'v, 'w, 'z) hth \<Rightarrow> addr ptr option" where
  "get_bucket p i h = do {
     t \<leftarrow> table_at h p;
     bs \<leftarrow> ht_buckets t;
     if unat i < length bs then Some (bs ! unat i) else None }"

definition set_bucket ::
  "addr ptr \<Rightarrow> size_t \<Rightarrow> addr ptr \<Rightarrow> ('k, 'v, 'w, 'z) hth \<Rightarrow> ('k, 'v, 'w, 'z) hth option" where
  "set_bucket p i l h = do {
     t \<leftarrow> table_at h p;
     bs \<leftarrow> ht_buckets t;
     if unat i < length bs then modify_table p (\<lambda>t. t\<lparr>ht_buckets := Some (bs[unat i := l])\<rparr>) h else None }"

definition get_mutex :: "addr ptr \<Rightarrow> size_t \<Rightarrow> ('k, 'v, 'w, 'z) hth \<Rightarrow> pthread_mutex_t option" where
  "get_mutex p i h = do {
     t \<leftarrow> table_at h p;
     ms \<leftarrow> ht_mutexes t;
     if unat i < length ms then ms ! unat i else None }"

definition set_mutex ::
  "addr ptr \<Rightarrow> size_t \<Rightarrow> pthread_mutex_t option \<Rightarrow> ('k, 'v, 'w, 'z) hth \<Rightarrow> ('k, 'v, 'w, 'z) hth option" where
  "set_mutex p i m h = do {
     t \<leftarrow> table_at h p;
     ms \<leftarrow> ht_mutexes t;
     if unat i < length ms then modify_table p (\<lambda>t. t\<lparr>ht_mutexes := Some (ms[unat i := m])\<rparr>) h else None }"

definition lock_bucket :: "addr ptr \<Rightarrow> size_t \<Rightarrow> ('k, 'v, 'w, 'z) hth \<Rightarrow> ('k, 'v, 'w, 'z) hth option" where
  "lock_bucket p i h = do {
     m \<leftarrow> get_mutex p i h;
     m \<leftarrow> pthread_mutex_lock m;
     set_mutex p i (Some m) h }"

definition unlock_bucket :: "addr ptr \<Rightarrow> size_t \<Rightarrow> ('k, 'v, 'w, 'z) hth \<Rightarrow> ('k, 'v, 'w, 'z) hth option" where
  "unlock_bucket p i h = do {
     m \<leftarrow> get_mutex p i h;
     m \<leftarrow> pthread_mutex_unlock m;
     set_mutex p i (Some m) h }"

definition destroy_bucket_mutex :: "addr ptr \<Rightarrow> size_t \<Rightarrow> ('k, 'v, 'w, 'z) hth \<Rightarrow> ('k, 'v, 'w, 'z) hth option" where
  "destroy_bucket_mutex p i h = do {
     m \<leftarrow> get_mutex p i h;
     _ \<leftarrow> pthread_mutex_destroy m;
     set_mutex p i None h }"

text \<open>Calls of the table's callbacks.\<close>

definition call_free_key :: "('k, 'v, 'w) generic_hash_table_t \<Rightarrow> 'k ptr \<Rightarrow> ('k, 'v, 'w, 'z) hth \<Rightarrow> ('k, 'v, 'w, 'z) hth option" where
  "call_free_key t k h = do { f \<leftarrow> ht_free_key_function t; w \<leftarrow> f k (world h); Some (h\<lparr>world := w\<rparr>) }"

definition call_free_value :: "('k, 'v, 'w) generic_hash_table_t \<Rightarrow> 'v ptr \<Rightarrow> ('k, 'v, 'w, 'z) hth \<Rightarrow> ('k, 'v, 'w, 'z) hth option" where
  "call_free_value t v h = do { f \<leftarrow> ht_free_value_function t; w \<leftarrow> f v (world h); Some (h\<lparr>world := w\<rparr>) }"

definition call_copy_key ::
  "('k, 'v, 'w) generic_hash_table_t \<Rightarrow> 'k ptr \<Rightarrow> ('k, 'v, 'w, 'z) hth
     \<Rightarrow> (exit_code \<times> 'k ptr \<times> ('k, 'v, 'w, 'z) hth) option" where
  "call_copy_key t k h = do { f \<leftarrow> ht_copy_key_function t; (r, k, w) \<leftarrow> f k (world h); Some (r, k, h\<lparr>world := w\<rparr>) }"

definition call_copy_value ::
  "('k, 'v, 'w) generic_hash_table_t \<Rightarrow> 'v ptr \<Rightarrow> ('k, 'v, 'w, 'z) hth
     \<Rightarrow> (exit_code \<times> 'v ptr \<times> ('k, 'v, 'w, 'z) hth) option" where
  "call_copy_value t v h = do { f \<leftarrow> ht_copy_value_function t; (r, v, w) \<leftarrow> f v (world h); Some (r, v, h\<lparr>world := w\<rparr>) }"

section \<open>The functions\<close>

text \<open>The loop that releases the first \<open>i\<close> buckets when \<open>generic_hash_table_new\<close> gives up.\<close>

partial_function (option) new_undo_loop ::
  "addr ptr \<Rightarrow> size_t \<Rightarrow> size_t \<Rightarrow> ('k, 'v, 'w, 'z) hth \<Rightarrow> ('k, 'v, 'w, 'z) hth option" where
  "new_undo_loop self i j h =
     (if j < i then do {
        l \<leftarrow> get_bucket self j h;
        (_, h) \<leftarrow> generic_linked_list_free l h;
        h \<leftarrow> destroy_bucket_mutex self j h;
        new_undo_loop self i (j + 1) h }
      else Some h)"

definition new_undo :: "addr ptr \<Rightarrow> size_t \<Rightarrow> ('k, 'v, 'w, 'z) hth \<Rightarrow> ('k, 'v, 'w, 'z) hth option" where
  "new_undo self i h = do {
     h \<leftarrow> new_undo_loop self i 0 h;
     h \<leftarrow> free_mutexes self h;
     h \<leftarrow> free_buckets self h;
     free_table self h }"

partial_function (option) new_loop ::
  "addr ptr \<Rightarrow> size_t \<Rightarrow> size_t \<Rightarrow> ('k, 'v, 'w, 'z) hth \<Rightarrow> (exit_code, ('k, 'v, 'w, 'z) hth) res" where
  "new_loop self capacity i h =
     (if i < capacity then do {
        cell \<leftarrow> get_bucket self i h;
        (exit_code, out, h) \<leftarrow> generic_linked_list_new (Some cell) h;
        l \<leftarrow> out;
        h \<leftarrow> set_bucket self i l h;
        if exit_code \<noteq> 0 then do {
          h \<leftarrow> new_undo self i h;
          Some (-1, h) }
        else do {
          let (init_code, A) = sys_init (arena h);
          let h = h\<lparr>arena := A\<rparr>;
          if init_code \<noteq> 0 then do {
            (_, h) \<leftarrow> generic_linked_list_free l h;
            h \<leftarrow> new_undo self i h;
            Some (-1, h) }
          else do {
            h \<leftarrow> set_mutex self i (Some Unlocked) h;
            new_loop self capacity (i + 1) h } } }
      else Some (0, h))"

definition generic_hash_table_new ::
  "size_t \<Rightarrow> 'k hash_fn ptr \<Rightarrow> ('v, 'w) free_fn ptr \<Rightarrow> ('v, 'w) copy_fn ptr \<Rightarrow> ('k, 'w) free_fn ptr
     \<Rightarrow> ('k, 'w) copy_fn ptr \<Rightarrow> 'k compare_fn ptr \<Rightarrow> addr ptr out \<Rightarrow> ('k, 'v, 'w, 'z) hth
     \<Rightarrow> (exit_code \<times> addr ptr out \<times> ('k, 'v, 'w, 'z) hth) option" where
  "generic_hash_table_new capacity hash_function free_value_function copy_value_function
       free_key_function copy_key_function compare_key_function out_self h =
     (if out_self = NULL then Some (1, out_self, h)
      else if free_value_function = NULL then Some (1, out_self, h)
      else if copy_value_function = NULL then Some (1, out_self, h)
      else if free_key_function = NULL then Some (1, out_self, h)
      else if copy_key_function = NULL then Some (1, out_self, h)
      else if compare_key_function = NULL then Some (1, out_self, h)
      else if capacity = 0 then Some (1, out_self, h)
      else if hash_function = NULL then Some (1, out_self, h)
      else do {
        let (self, h) = malloc_table h;
        if self = NULL then Some (-1, out_self, h)
        else do {
          h \<leftarrow> modify_table self (\<lambda>t. t\<lparr>ht_hash_function := hash_function,
                 ht_compare_key_function := compare_key_function,
                 ht_free_value_function := free_value_function,
                 ht_copy_value_function := copy_value_function,
                 ht_free_key_function := free_key_function,
                 ht_copy_key_function := copy_key_function,
                 ht_capacity := capacity, ht_size := 0\<rparr>) h;
          let (buckets, h) = malloc_array sizeof_ptr capacity h;
          h \<leftarrow> modify_table self (\<lambda>t. t\<lparr>ht_buckets := buckets\<rparr>) h;
          if buckets = NULL then Some (-1, out_self, h)
          else do {
            let (mutexes, h) = malloc_array sizeof_pthread_mutex_t capacity h;
            h \<leftarrow> modify_table self (\<lambda>t. t\<lparr>ht_mutexes := mutexes\<rparr>) h;
            if mutexes = NULL then Some (-1, out_self, h)
            else do {
              (exit_code, h) \<leftarrow> new_loop self capacity 0 h;
              if exit_code \<noteq> 0 then Some (exit_code, out_self, h)
              else Some (0, Some self, h) } } } })"

text \<open>The loop over the pairs of one bucket in \<open>generic_hash_table_free\<close>.\<close>

partial_function (option) free_pairs_loop ::
  "('k, 'v, 'w) generic_hash_table_t \<Rightarrow> addr ptr \<Rightarrow> exit_code \<Rightarrow> ('k, 'v, 'w, 'z) hth
     \<Rightarrow> (exit_code, ('k, 'v, 'w, 'z) hth) res" where
  "free_pairs_loop t it first_error h = do {
     valid \<leftarrow> generic_linked_list_iterator_is_valid it h;
     if valid \<noteq> 0 then Some (first_error, h)
     else do {
       (exit_code, out) \<leftarrow> generic_linked_list_iterator_get it (Some NULL) h;
       pair \<leftarrow> out;
       if exit_code \<noteq> 0 then do {
         (_, h) \<leftarrow> generic_linked_list_iterator_next it h;
         free_pairs_loop t it (if first_error = 0 then exit_code else first_error) h }
       else do {
         kv \<leftarrow> pair_at h pair;
         h \<leftarrow> call_free_key t (kv_key kv) h;
         h \<leftarrow> call_free_value t (kv_value kv) h;
         h \<leftarrow> free_pair pair h;
         (_, h) \<leftarrow> generic_linked_list_iterator_next it h;
         free_pairs_loop t it first_error h } } }"

partial_function (option) free_buckets_loop ::
  "addr ptr \<Rightarrow> size_t \<Rightarrow> exit_code \<Rightarrow> ('k, 'v, 'w, 'z) hth \<Rightarrow> (exit_code, ('k, 'v, 'w, 'z) hth) res" where
  "free_buckets_loop self i first_error h = do {
     t \<leftarrow> table_at h self;
     if i < ht_capacity t then do {
       h \<leftarrow> lock_bucket self i h;
       l \<leftarrow> get_bucket self i h;
       (exit_code, out, h) \<leftarrow> generic_linked_list_iterator_begin l (Some NULL) h;
       it \<leftarrow> out;
       (first_error, h) \<leftarrow> (if exit_code \<noteq> 0
          then Some (if first_error = 0 then exit_code else first_error, h)
          else do {
            (first_error, h) \<leftarrow> free_pairs_loop t it first_error h;
            (_, h) \<leftarrow> generic_linked_list_iterator_free it h;
            Some (first_error, h) });
       l \<leftarrow> get_bucket self i h;
       (exit_code, h) \<leftarrow> generic_linked_list_free l h;
       let first_error = (if exit_code \<noteq> 0 \<and> first_error = 0 then exit_code else first_error);
       h \<leftarrow> unlock_bucket self i h;
       h \<leftarrow> destroy_bucket_mutex self i h;
       free_buckets_loop self (i + 1) first_error h }
     else Some (first_error, h) }"

definition generic_hash_table_free ::
  "addr ptr \<Rightarrow> ('k, 'v, 'w, 'z) hth \<Rightarrow> (exit_code, ('k, 'v, 'w, 'z) hth) res" where
  "generic_hash_table_free self h =
     (if self = NULL then Some (1, h)
      else do {
        (first_error, h) \<leftarrow> free_buckets_loop self 0 0 h;
        h \<leftarrow> free_buckets self h;
        h \<leftarrow> free_mutexes self h;
        h \<leftarrow> free_table self h;
        Some (first_error, h) })"

text \<open>The getters.\<close>

definition ht_getter ::
  "(('k, 'v, 'w) generic_hash_table_t \<Rightarrow> 'a) \<Rightarrow> addr ptr \<Rightarrow> 'a out \<Rightarrow> ('k, 'v, 'w, 'z) hth
     \<Rightarrow> (exit_code \<times> 'a out) option" where
  "ht_getter field self out h =
     (case self of NULL \<Rightarrow> Some (1, out)
      | Some _ \<Rightarrow> (case out of NULL \<Rightarrow> Some (1, out)
         | Some _ \<Rightarrow> do {
             t \<leftarrow> table_at h self;
             Some (0, Some (field t)) }))"

definition generic_hash_table_get_hash_function ::
  "addr ptr \<Rightarrow> 'k hash_fn ptr out \<Rightarrow> ('k, 'v, 'w, 'z) hth \<Rightarrow> (exit_code \<times> 'k hash_fn ptr out) option" where
  "generic_hash_table_get_hash_function = ht_getter ht_hash_function"

definition generic_hash_table_get_free_value_function ::
  "addr ptr \<Rightarrow> ('v, 'w) free_fn ptr out \<Rightarrow> ('k, 'v, 'w, 'z) hth \<Rightarrow> (exit_code \<times> ('v, 'w) free_fn ptr out) option" where
  "generic_hash_table_get_free_value_function = ht_getter ht_free_value_function"

definition generic_hash_table_get_copy_value_function ::
  "addr ptr \<Rightarrow> ('v, 'w) copy_fn ptr out \<Rightarrow> ('k, 'v, 'w, 'z) hth \<Rightarrow> (exit_code \<times> ('v, 'w) copy_fn ptr out) option" where
  "generic_hash_table_get_copy_value_function = ht_getter ht_copy_value_function"

definition generic_hash_table_get_free_key_function ::
  "addr ptr \<Rightarrow> ('k, 'w) free_fn ptr out \<Rightarrow> ('k, 'v, 'w, 'z) hth \<Rightarrow> (exit_code \<times> ('k, 'w) free_fn ptr out) option" where
  "generic_hash_table_get_free_key_function = ht_getter ht_free_key_function"

definition generic_hash_table_get_copy_key_function ::
  "addr ptr \<Rightarrow> ('k, 'w) copy_fn ptr out \<Rightarrow> ('k, 'v, 'w, 'z) hth \<Rightarrow> (exit_code \<times> ('k, 'w) copy_fn ptr out) option" where
  "generic_hash_table_get_copy_key_function = ht_getter ht_copy_key_function"

definition generic_hash_table_get_compare_key_function ::
  "addr ptr \<Rightarrow> 'k compare_fn ptr out \<Rightarrow> ('k, 'v, 'w, 'z) hth \<Rightarrow> (exit_code \<times> 'k compare_fn ptr out) option" where
  "generic_hash_table_get_compare_key_function = ht_getter ht_compare_key_function"

definition generic_hash_table_get_capacity ::
  "addr ptr \<Rightarrow> size_t out \<Rightarrow> ('k, 'v, 'w, 'z) hth \<Rightarrow> (exit_code \<times> size_t out) option" where
  "generic_hash_table_get_capacity = ht_getter ht_capacity"

definition generic_hash_table_get_size ::
  "addr ptr \<Rightarrow> size_t out \<Rightarrow> ('k, 'v, 'w, 'z) hth \<Rightarrow> (exit_code \<times> size_t out) option" where
  "generic_hash_table_get_size = ht_getter ht_size"

definition generic_hash_table_is_empty :: "addr ptr \<Rightarrow> ('k, 'v, 'w, 'z) hth \<Rightarrow> exit_code option" where
  "generic_hash_table_is_empty self h =
     (if self = NULL then Some (-1)
      else do {
        t \<leftarrow> table_at h self;
        Some (if ht_size t = 0 then 1 else 0) })"

definition generic_hash_table_insert ::
  "addr ptr \<Rightarrow> 'k ptr \<Rightarrow> 'v ptr \<Rightarrow> ('k, 'v, 'w, 'z) hth \<Rightarrow> (exit_code, ('k, 'v, 'w, 'z) hth) res" where
  "generic_hash_table_insert self key val h =
     (if self = NULL then Some (1, h)
      else if key = NULL then Some (1, h)
      else do {
        t \<leftarrow> table_at h self;
        hash \<leftarrow> ht_hash_function t;
        let bucket_index = hash key mod ht_capacity t;
        let (pair, h) = malloc_pair h;
        if pair = NULL then Some (-1, h)
        else do {
          (exit_code, k, h) \<leftarrow> call_copy_key t key h;
          if exit_code \<noteq> 0 then do {
            h \<leftarrow> free_pair pair h;
            Some (exit_code, h) }
          else do {
            h \<leftarrow> modify_pair pair (\<lambda>p. p\<lparr>kv_key := k\<rparr>) h;
            (exit_code, v, h) \<leftarrow> call_copy_value t val h;
            if exit_code \<noteq> 0 then do {
              h \<leftarrow> call_free_key t k h;
              h \<leftarrow> free_pair pair h;
              Some (exit_code, h) }
            else do {
              h \<leftarrow> modify_pair pair (\<lambda>p. p\<lparr>kv_value := v\<rparr>) h;
              h \<leftarrow> lock_bucket self bucket_index h;
              l \<leftarrow> get_bucket self bucket_index h;
              (exit_code, h) \<leftarrow> generic_linked_list_insert_first l pair h;
              if exit_code \<noteq> 0 then do {
                h \<leftarrow> call_free_value t v h;
                h \<leftarrow> call_free_key t k h;
                h \<leftarrow> free_pair pair h;
                Some (exit_code, h) }
              else do {
                h \<leftarrow> modify_table self (\<lambda>t. t\<lparr>ht_size := ht_size t + 1\<rparr>) h;
                h \<leftarrow> unlock_bucket self bucket_index h;
                Some (0, h) } } } } })"

text \<open>
  The loop \<open>while (generic_linked_list_iterator_is_valid (begin) == 0)\<close> that lookup, deletion and
  membership share: it stops at the pair whose key compares equal, at an error of the
  iterator, or at the end.
\<close>

datatype search = Missing | Failed exit_code | Found "addr ptr"

partial_function (option) search_loop ::
  "'k compare_fn \<Rightarrow> 'k ptr \<Rightarrow> addr ptr \<Rightarrow> ('k, 'v, 'w, 'z) hth \<Rightarrow> (search, ('k, 'v, 'w, 'z) hth) res" where
  "search_loop compare key it h = do {
     valid \<leftarrow> generic_linked_list_iterator_is_valid it h;
     if valid \<noteq> 0 then Some (Missing, h)
     else do {
       (exit_code, out) \<leftarrow> generic_linked_list_iterator_get it (Some NULL) h;
       pair \<leftarrow> out;
       if exit_code \<noteq> 0 then Some (Failed exit_code, h)
       else do {
         kv \<leftarrow> pair_at h pair;
         if compare key (kv_key kv) = 0 then Some (Found pair, h)
         else do {
           (_, h) \<leftarrow> generic_linked_list_iterator_next it h;
           search_loop compare key it h } } } }"

definition generic_hash_table_get ::
  "addr ptr \<Rightarrow> 'k ptr \<Rightarrow> 'v ptr out \<Rightarrow> ('k, 'v, 'w, 'z) hth
     \<Rightarrow> (exit_code \<times> 'v ptr out \<times> ('k, 'v, 'w, 'z) hth) option" where
  "generic_hash_table_get self key out_value h =
     (if self = NULL then Some (1, out_value, h)
      else if key = NULL then Some (1, out_value, h)
      else if out_value = NULL then Some (1, out_value, h)
      else do {
        t \<leftarrow> table_at h self;
        hash \<leftarrow> ht_hash_function t;
        compare \<leftarrow> ht_compare_key_function t;
        let bucket_index = hash key mod ht_capacity t;
        h \<leftarrow> lock_bucket self bucket_index h;
        l \<leftarrow> get_bucket self bucket_index h;
        (exit_code, out, h) \<leftarrow> generic_linked_list_iterator_begin l (Some NULL) h;
        it \<leftarrow> out;
        if exit_code \<noteq> 0 then do {
          h \<leftarrow> unlock_bucket self bucket_index h;
          Some (exit_code, out_value, h) }
        else do {
          (found, h) \<leftarrow> search_loop compare key it h;
          (case found of
            Failed exit_code \<Rightarrow> do {
              (_, h) \<leftarrow> generic_linked_list_iterator_free it h;
              h \<leftarrow> unlock_bucket self bucket_index h;
              Some (exit_code, out_value, h) }
          | Found pair \<Rightarrow> do {
              kv \<leftarrow> pair_at h pair;
              (_, h) \<leftarrow> generic_linked_list_iterator_free it h;
              h \<leftarrow> unlock_bucket self bucket_index h;
              Some (0, Some (kv_value kv), h) }
          | Missing \<Rightarrow> do {
              (_, h) \<leftarrow> generic_linked_list_iterator_free it h;
              h \<leftarrow> unlock_bucket self bucket_index h;
              Some (1, Some NULL, h) }) } })"

definition generic_hash_table_delete ::
  "addr ptr \<Rightarrow> 'k ptr \<Rightarrow> ('k, 'v, 'w, 'z) hth \<Rightarrow> (exit_code, ('k, 'v, 'w, 'z) hth) res" where
  "generic_hash_table_delete self key h =
     (if self = NULL then Some (1, h)
      else if key = NULL then Some (1, h)
      else do {
        t \<leftarrow> table_at h self;
        hash \<leftarrow> ht_hash_function t;
        compare \<leftarrow> ht_compare_key_function t;
        let bucket_index = hash key mod ht_capacity t;
        h \<leftarrow> lock_bucket self bucket_index h;
        l \<leftarrow> get_bucket self bucket_index h;
        (exit_code, out, h) \<leftarrow> generic_linked_list_iterator_begin l (Some NULL) h;
        it \<leftarrow> out;
        if exit_code \<noteq> 0 then do {
          h \<leftarrow> unlock_bucket self bucket_index h;
          Some (exit_code, h) }
        else do {
          (found, h) \<leftarrow> search_loop compare key it h;
          (case found of
            Failed exit_code \<Rightarrow> do {
              (_, h) \<leftarrow> generic_linked_list_iterator_free it h;
              h \<leftarrow> unlock_bucket self bucket_index h;
              Some (exit_code, h) }
          | Found pair \<Rightarrow> do {
              (exit_code, out, h) \<leftarrow> generic_linked_list_iterator_remove it (Some pair) h;
              pair \<leftarrow> out;
              if exit_code \<noteq> 0 then do {
                (_, h) \<leftarrow> generic_linked_list_iterator_free it h;
                h \<leftarrow> unlock_bucket self bucket_index h;
                Some (exit_code, h) }
              else do {
                kv \<leftarrow> pair_at h pair;
                h \<leftarrow> call_free_key t (kv_key kv) h;
                h \<leftarrow> call_free_value t (kv_value kv) h;
                h \<leftarrow> free_pair pair h;
                h \<leftarrow> modify_table self (\<lambda>t. t\<lparr>ht_size := ht_size t - 1\<rparr>) h;
                (_, h) \<leftarrow> generic_linked_list_iterator_free it h;
                h \<leftarrow> unlock_bucket self bucket_index h;
                Some (0, h) } }
          | Missing \<Rightarrow> do {
              (_, h) \<leftarrow> generic_linked_list_iterator_free it h;
              h \<leftarrow> unlock_bucket self bucket_index h;
              Some (1, h) }) } })"

definition generic_hash_table_contains ::
  "addr ptr \<Rightarrow> 'k ptr \<Rightarrow> ('k, 'v, 'w, 'z) hth \<Rightarrow> (exit_code, ('k, 'v, 'w, 'z) hth) res" where
  "generic_hash_table_contains self key h =
     (if self = NULL then Some (1, h)
      else if key = NULL then Some (1, h)
      else do {
        t \<leftarrow> table_at h self;
        hash \<leftarrow> ht_hash_function t;
        compare \<leftarrow> ht_compare_key_function t;
        let bucket_index = hash key mod ht_capacity t;
        h \<leftarrow> lock_bucket self bucket_index h;
        l \<leftarrow> get_bucket self bucket_index h;
        (exit_code, out, h) \<leftarrow> generic_linked_list_iterator_begin l (Some NULL) h;
        it \<leftarrow> out;
        if exit_code \<noteq> 0 then do {
          h \<leftarrow> unlock_bucket self bucket_index h;
          Some (exit_code, h) }
        else do {
          (found, h) \<leftarrow> search_loop compare key it h;
          (_, h) \<leftarrow> generic_linked_list_iterator_free it h;
          h \<leftarrow> unlock_bucket self bucket_index h;
          Some (case found of Failed exit_code \<Rightarrow> exit_code | Found _ \<Rightarrow> 0 | Missing \<Rightarrow> 1, h) } })"

section \<open>Representation\<close>

text \<open>An abstract table: its callbacks, and the key-value pairs of each bucket, latest first.\<close>

record ('k, 'v, 'w) atable =
  at_hash :: "'k hash_fn"
  at_compare :: "'k compare_fn"
  at_free_value :: "('v, 'w) free_fn"
  at_copy_value :: "('v, 'w) copy_fn"
  at_free_key :: "('k, 'w) free_fn"
  at_copy_key :: "('k, 'w) copy_fn"
  at_buckets :: "('k ptr \<times> 'v ptr) list list"

definition ht_index :: "('k, 'v, 'w) atable \<Rightarrow> 'k ptr \<Rightarrow> size_t" where
  "ht_index A k = at_hash A k mod of_nat (length (at_buckets A))"

definition ht_bucket :: "('k, 'v, 'w) atable \<Rightarrow> 'k ptr \<Rightarrow> ('k ptr \<times> 'v ptr) list" where
  "ht_bucket A k = at_buckets A ! unat (ht_index A k)"

text \<open>The values bound to a key, the latest first.\<close>

definition ht_stack :: "('k, 'v, 'w) atable \<Rightarrow> 'k ptr \<Rightarrow> 'v ptr list" where
  "ht_stack A k = map snd (filter (\<lambda>p. at_compare A k (fst p) = 0) (ht_bucket A k))"

text \<open>The position of the first pair of a bucket whose key compares equal.\<close>

definition ht_pos :: "'k compare_fn \<Rightarrow> 'k ptr \<Rightarrow> ('k ptr \<times> 'v ptr) list \<Rightarrow> nat" where
  "ht_pos compare k kv = length (takeWhile (\<lambda>p. compare k (fst p) \<noteq> 0) kv)"

definition ht_count :: "('k, 'v, 'w) atable \<Rightarrow> nat" where
  "ht_count A = sum_list (map length (at_buckets A))"

definition with_bucket :: "('k, 'v, 'w) atable \<Rightarrow> 'k ptr \<Rightarrow> ('k ptr \<times> 'v ptr) list \<Rightarrow> ('k, 'v, 'w) atable" where
  "with_bucket A k kv = A\<lparr>at_buckets := (at_buckets A)[unat (ht_index A k) := kv]\<rparr>"

text \<open>A layout: the addresses of the bucket lists of a table, and those of the pairs in each.\<close>

datatype layout = Layout (lay_lists: "addr list") (lay_pairs: "addr list list")

definition bucket_ok ::
  "(addr \<rightharpoonup> (addr, 'w) alist) \<Rightarrow> (addr \<rightharpoonup> ('k, 'v) key_value_t) \<Rightarrow> addr \<Rightarrow> addr list
     \<Rightarrow> ('k ptr \<times> 'v ptr) list \<Rightarrow> bool" where
  "bucket_ok M K l ps kv \<longleftrightarrow>
     M l = Some \<lparr>al_items = map Some ps, al_free = NULL, al_copy = NULL\<rparr>
     \<and> map K ps = map (\<lambda>p. Some \<lparr>kv_key = fst p, kv_value = snd p\<rparr>) kv"

definition table_ok ::
  "(addr \<rightharpoonup> (addr, 'w) alist) \<Rightarrow> (addr \<rightharpoonup> ('k, 'v) key_value_t) \<Rightarrow> ('k, 'v, 'w) generic_hash_table_t
     \<Rightarrow> layout \<Rightarrow> ('k, 'v, 'w) atable \<Rightarrow> bool" where
  "table_ok M K r G A \<longleftrightarrow> (let n = length (at_buckets A) in
     r = \<lparr>ht_capacity = of_nat n, ht_size = of_nat (ht_count A), ht_buckets = Some (map Some (lay_lists G)),
          ht_mutexes = Some (replicate n (Some Unlocked)), ht_hash_function = Some (at_hash A),
          ht_free_value_function = Some (at_free_value A), ht_copy_value_function = Some (at_copy_value A),
          ht_free_key_function = Some (at_free_key A), ht_copy_key_function = Some (at_copy_key A),
          ht_compare_key_function = Some (at_compare A)\<rparr>
     \<and> 0 < n \<and> n \<le> block_limit \<and> length (lay_lists G) = n \<and> length (lay_pairs G) = n
     \<and> distinct (lay_lists G) \<and> distinct (concat (lay_pairs G))
     \<and> (\<forall>i < n. bucket_ok M K (lay_lists G ! i) (lay_pairs G ! i) (at_buckets A ! i)))"

definition lay_disjoint :: "layout \<Rightarrow> layout \<Rightarrow> bool" where
  "lay_disjoint G G' \<longleftrightarrow> set (lay_lists G) \<inter> set (lay_lists G') = {}
     \<and> set (concat (lay_pairs G)) \<inter> set (concat (lay_pairs G')) = {}"

definition ht_inv ::
  "(addr \<rightharpoonup> (addr, 'w) alist) \<Rightarrow> (addr \<rightharpoonup> ('k, 'v) key_value_t)
     \<Rightarrow> (addr \<rightharpoonup> ('k, 'v, 'w) generic_hash_table_t) \<Rightarrow> nat \<Rightarrow> (addr \<rightharpoonup> layout)
     \<Rightarrow> (addr \<rightharpoonup> ('k, 'v, 'w) atable) \<Rightarrow> bool" where
  "ht_inv M K TB n G T \<longleftrightarrow>
     (\<forall>t. (TB t = None \<and> G t = None \<and> T t = None) \<or>
          (\<exists>r g A. TB t = Some r \<and> G t = Some g \<and> T t = Some A \<and> table_ok M K r g A))
     \<and> (\<forall>t t' g g'. G t = Some g \<longrightarrow> G t' = Some g' \<longrightarrow> t \<noteq> t' \<longrightarrow> lay_disjoint g g')
     \<and> (\<forall>l. M l \<noteq> None \<longrightarrow> (\<exists>t g. G t = Some g \<and> l \<in> set (lay_lists g)))
     \<and> (\<forall>a. K a \<noteq> None \<longrightarrow> (\<exists>t g. G t = Some g \<and> a \<in> set (concat (lay_pairs g))))
     \<and> dom TB \<union> dom K \<subseteq> {1..min n block_limit}"

definition ht_rep :: "('k, 'v, 'w, 'z) hth \<Rightarrow> (addr \<rightharpoonup> ('k, 'v, 'w) atable) \<Rightarrow> bool" where
  "ht_rep h T \<longleftrightarrow> (\<exists>M G. ll_rep h M Map.empty \<and> ht_inv M (kvs h) (tables h) (ticks (arena h)) G T)
     \<and> iters h = Map.empty"

abbreviation same_ht_frame :: "('k, 'v, 'w, 'z) hth \<Rightarrow> ('k, 'v, 'w, 'z) hth \<Rightarrow> bool" where
  "same_ht_frame h h' \<equiv> ht_heap.more h' = ht_heap.more h"

section \<open>Lemmas\<close>

lemma ht_frameD:
  fixes h h' :: "('k, 'v, 'w, 'z) hth"
  assumes "same_frame h h'"
  shows "kvs h' = kvs h" and "tables h' = tables h" and "same_ht_frame h h'"
  using assms by (cases h; cases h'; simp)+

lemma ht_invD:
  assumes "ht_inv M K TB n G T"
  shows ht_inv_table: "T t = Some A \<Longrightarrow> \<exists>r g. TB t = Some r \<and> G t = Some g \<and> table_ok M K r g A"
    and ht_inv_layout: "G t = Some g \<Longrightarrow> \<exists>r A. TB t = Some r \<and> T t = Some A \<and> table_ok M K r g A"
    and ht_inv_some: "TB t = Some r \<Longrightarrow> \<exists>g A. G t = Some g \<and> T t = Some A \<and> table_ok M K r g A"
    and ht_inv_none: "TB t = None \<Longrightarrow> G t = None \<and> T t = None"
    and ht_inv_disj: "G t = Some g \<Longrightarrow> G t' = Some g' \<Longrightarrow> t \<noteq> t' \<Longrightarrow> lay_disjoint g g'"
    and ht_inv_lists: "M l \<noteq> None \<Longrightarrow> \<exists>t g. G t = Some g \<and> l \<in> set (lay_lists g)"
    and ht_inv_pairs: "K a \<noteq> None \<Longrightarrow> \<exists>t g. G t = Some g \<and> a \<in> set (concat (lay_pairs g))"
    and ht_inv_bound: "dom TB \<union> dom K \<subseteq> {1..min n block_limit}"
proof -
  have all: "\<forall>t. (TB t = None \<and> G t = None \<and> T t = None) \<or>
          (\<exists>r g A. TB t = Some r \<and> G t = Some g \<and> T t = Some A \<and> table_ok M K r g A)"
    and disj: "\<forall>t t' g g'. G t = Some g \<longrightarrow> G t' = Some g' \<longrightarrow> t \<noteq> t' \<longrightarrow> lay_disjoint g g'"
    and lists: "\<forall>l. M l \<noteq> None \<longrightarrow> (\<exists>t g. G t = Some g \<and> l \<in> set (lay_lists g))"
    and pairs: "\<forall>a. K a \<noteq> None \<longrightarrow> (\<exists>t g. G t = Some g \<and> a \<in> set (concat (lay_pairs g)))"
    and bound: "dom TB \<union> dom K \<subseteq> {1..min n block_limit}"
    using assms unfolding ht_inv_def by satx+
  show "T t = Some A \<Longrightarrow> \<exists>r g. TB t = Some r \<and> G t = Some g \<and> table_ok M K r g A"
    using spec [OF all, of t] by (elim disjE) auto
  show "G t = Some g \<Longrightarrow> \<exists>r A. TB t = Some r \<and> T t = Some A \<and> table_ok M K r g A"
    using spec [OF all, of t] by (elim disjE) auto
  show "TB t = Some r \<Longrightarrow> \<exists>g A. G t = Some g \<and> T t = Some A \<and> table_ok M K r g A"
    using spec [OF all, of t] by (elim disjE) auto
  show "TB t = None \<Longrightarrow> G t = None \<and> T t = None" using spec [OF all, of t] by (elim disjE) auto
  show "G t = Some g \<Longrightarrow> G t' = Some g' \<Longrightarrow> t \<noteq> t' \<Longrightarrow> lay_disjoint g g'" using disj by blast
  show "M l \<noteq> None \<Longrightarrow> \<exists>t g. G t = Some g \<and> l \<in> set (lay_lists g)" using lists by blast
  show "K a \<noteq> None \<Longrightarrow> \<exists>t g. G t = Some g \<and> a \<in> set (concat (lay_pairs g))" using pairs by blast
  show "dom TB \<union> dom K \<subseteq> {1..min n block_limit}" by (rule bound)
qed

lemma table_okD:
  assumes "table_ok M K r g A" and "n = length (at_buckets A)"
  shows "r = \<lparr>ht_capacity = of_nat n, ht_size = of_nat (ht_count A), ht_buckets = Some (map Some (lay_lists g)),
          ht_mutexes = Some (replicate n (Some Unlocked)), ht_hash_function = Some (at_hash A),
          ht_free_value_function = Some (at_free_value A), ht_copy_value_function = Some (at_copy_value A),
          ht_free_key_function = Some (at_free_key A), ht_copy_key_function = Some (at_copy_key A),
          ht_compare_key_function = Some (at_compare A)\<rparr>"
    and "0 < n" and "n \<le> block_limit" and "length (lay_lists g) = n" and "length (lay_pairs g) = n"
    and "distinct (lay_lists g)" and "distinct (concat (lay_pairs g))"
    and "i < n \<Longrightarrow> bucket_ok M K (lay_lists g ! i) (lay_pairs g ! i) (at_buckets A ! i)"
  using assms by (auto simp: table_ok_def Let_def)

lemma table_ok_cong:
  assumes "table_ok M K r g A" and "\<And>l. l \<in> set (lay_lists g) \<Longrightarrow> M' l = M l"
    and "\<And>a. a \<in> set (concat (lay_pairs g)) \<Longrightarrow> K' a = K a"
  shows "table_ok M' K' r g A"
proof -
  note ok = table_okD [OF assms(1) refl]
  have "bucket_ok M' K' (lay_lists g ! i) (lay_pairs g ! i) (at_buckets A ! i)" if i: "i < length (at_buckets A)" for i
  proof -
    have "map K' (lay_pairs g ! i) = map K (lay_pairs g ! i)"
      using i ok(5) by (intro map_cong refl assms(3)) (auto intro!: bexI [of _ "lay_pairs g ! i"])
    moreover have "M' (lay_lists g ! i) = M (lay_lists g ! i)" using i ok(4) by (intro assms(2)) auto
    ultimately show ?thesis using ok(8) [OF i] by (simp only: bucket_ok_def)
  qed
  with ok show ?thesis unfolding table_ok_def Let_def by simp
qed

lemma ht_index_less:
  assumes "0 < length (at_buckets A)" and "length (at_buckets A) \<le> block_limit"
  shows "unat (ht_index A k) < length (at_buckets A)"
proof -
  let ?n = "of_nat (length (at_buckets A)) :: size_t"
  have n: "unat ?n = length (at_buckets A)" using assms(2) by (rule unat_of_nat_size_t)
  then have "?n \<noteq> 0" using assms(1) by auto
  then have "ht_index A k < ?n" by (simp add: ht_index_def word_mod_less_divisor word_gt_0)
  with n show ?thesis by (simp add: word_less_nat_alt)
qed


text \<open>Replacing the content of one bucket.\<close>

lemma distinct_concat_update:
  assumes "distinct (concat pss)" and "i < length pss" and "distinct ps"
    and "set ps \<inter> (set (concat pss) - set (pss ! i)) = {}"
  shows "distinct (concat (pss[i := ps]))"
    and "set (concat (pss[i := ps])) = (set (concat pss) - set (pss ! i)) \<union> set ps"
proof -
  let ?a = "concat (take i pss)" and ?b = "concat (drop (Suc i) pss)"
  have eq: "concat pss = ?a @ pss ! i @ ?b"
    using assms(2) by (metis concat.simps(2) concat_append id_take_nth_drop)
  have eq': "concat (pss[i := ps]) = ?a @ ps @ ?b" using assms(2) by (simp add: upd_conv_take_nth_drop)
  from assms(1) have d: "distinct ?a" "distinct ?b" "set ?a \<inter> set ?b = {}"
    "set (pss ! i) \<inter> (set ?a \<union> set ?b) = {}" unfolding eq by (simp_all only: distinct_append set_append) blast+
  then have out: "set (concat pss) - set (pss ! i) = set ?a \<union> set ?b" unfolding eq set_append by blast
  show "set (concat (pss[i := ps])) = (set (concat pss) - set (pss ! i)) \<union> set ps"
    unfolding out unfolding eq' set_append by blast
  show "distinct (concat (pss[i := ps]))"
    using d assms(3,4) unfolding eq' out by (simp only: distinct_append set_append) blast
qed

lemma ht_inv_update:
  assumes inv: "ht_inv M K TB n G T" and t: "TB t = Some r" "G t = Some g" "T t = Some A"
    and ok: "table_ok M' K' r' g' A'" and lists: "lay_lists g' = lay_lists g"
    and M': "\<And>l. l \<notin> set (lay_lists g) \<Longrightarrow> M' l = M l"
    and out: "\<And>a. a \<notin> set (concat (lay_pairs g)) \<Longrightarrow> a \<notin> set (concat (lay_pairs g')) \<Longrightarrow> K' a = K a"
    and gone: "\<And>a. a \<in> set (concat (lay_pairs g)) \<Longrightarrow> a \<notin> set (concat (lay_pairs g')) \<Longrightarrow> K' a = None"
    and fresh: "\<And>a. a \<in> set (concat (lay_pairs g')) \<Longrightarrow> a \<notin> set (concat (lay_pairs g)) \<Longrightarrow>
      K a = None \<and> a \<in> {1..min n' block_limit}"
    and "n \<le> n'"
  shows "ht_inv M' K' (TB(t \<mapsto> r')) n' (G(t \<mapsto> g')) (T(t \<mapsto> A'))"
proof -
  have dom: "a \<in> dom K" if u: "G u = Some gu" "a \<in> set (concat (lay_pairs gu))" for u gu a
  proof -
    obtain ru Au where "table_ok M K ru gu Au" using ht_inv_layout [OF inv u(1)] by blast
    note uok = table_okD [OF this refl]
    obtain ps where "ps \<in> set (lay_pairs gu)" "a \<in> set ps" using u(2) by auto
    then obtain i where i: "i < length (at_buckets Au)" "a \<in> set (lay_pairs gu ! i)"
      using uok(5) by (metis in_set_conv_nth)
    with uok(8) [OF i(1)] have "K a \<in> set (map (\<lambda>p. Some \<lparr>kv_key = fst p, kv_value = snd p\<rparr>) (at_buckets Au ! i))"
      unfolding bucket_ok_def by (metis image_eqI list.set_map)
    then show ?thesis by auto
  qed
  have other: "set (concat (lay_pairs gu)) \<inter> (set (concat (lay_pairs g)) \<union> set (concat (lay_pairs g'))) = {}"
    "set (lay_lists gu) \<inter> set (lay_lists g) = {}" if "G u = Some gu" "u \<noteq> t" for u gu
    using ht_inv_disj [OF inv that(1) t(2) that(2)] dom [OF that(1)] fresh unfolding lay_disjoint_def
    by blast+
  have ok_other: "table_ok M' K' ru gu Au" if "table_ok M K ru gu Au" "G u = Some gu" "u \<noteq> t" for ru gu Au u
    by (rule table_ok_cong [OF that(1)]) (use other [OF that(2,3)] in \<open>blast intro: M' out\<close>)+
  show ?thesis
    unfolding ht_inv_def
  proof (intro conjI allI impI)
    fix u
    show "((TB(t \<mapsto> r')) u = None \<and> (G(t \<mapsto> g')) u = None \<and> (T(t \<mapsto> A')) u = None) \<or>
      (\<exists>r g A. (TB(t \<mapsto> r')) u = Some r \<and> (G(t \<mapsto> g')) u = Some g \<and> (T(t \<mapsto> A')) u = Some A \<and> table_ok M' K' r g A)"
    proof (cases "u = t")
      case False
      show ?thesis
      proof (cases "TB u")
        case None
        with False ht_inv_none [OF inv None] show ?thesis by simp
      next
        case (Some ru)
        then obtain gu Au where "G u = Some gu" "T u = Some Au" "table_ok M K ru gu Au"
          using ht_inv_some [OF inv Some] by blast
        with Some False ok_other [of ru gu Au u] show ?thesis by simp
      qed
    qed (use ok in simp)
  next
    fix u u' gu gu'
    assume "(G(t \<mapsto> g')) u = Some gu" "(G(t \<mapsto> g')) u' = Some gu'" "u \<noteq> u'"
    then show "lay_disjoint gu gu'"
      using other [of u gu] other [of u' gu'] ht_inv_disj [OF inv, of u gu u' gu'] lists
      unfolding lay_disjoint_def by (cases "u = t"; cases "u' = t") auto
  next
    fix l assume "M' l \<noteq> None"
    then show "\<exists>u gu. (G(t \<mapsto> g')) u = Some gu \<and> l \<in> set (lay_lists gu)"
      using ht_inv_lists [OF inv, of l] M' [of l] lists t(2)
      by (metis fun_upd_other fun_upd_same option.inject)
  next
    fix a assume "K' a \<noteq> None"
    then show "\<exists>u gu. (G(t \<mapsto> g')) u = Some gu \<and> a \<in> set (concat (lay_pairs gu))"
      using ht_inv_pairs [OF inv, of a] out [of a] gone [of a] t(2)
      by (metis fun_upd_other fun_upd_same option.inject)
  next
    have "dom K' \<subseteq> dom K \<union> {1..min n' block_limit}"
    proof
      fix a assume "a \<in> dom K'"
      then show "a \<in> dom K \<union> {1..min n' block_limit}"
        using out [of a] gone [of a] fresh [of a] dom [OF t(2), of a] by (metis UnI1 UnI2 domIff)
    qed
    then show "dom (TB(t \<mapsto> r')) \<union> dom K' \<subseteq> {1..min n' block_limit}"
      using ht_inv_bound [OF inv] t(1) \<open>n \<le> n'\<close> by (auto 0 3)
  qed
qed

lemma ht_viewE:
  assumes "ht_rep h T" and "T t = Some A"
  obtains M G r g where "ll_rep h M Map.empty" and "ht_inv M (kvs h) (tables h) (ticks (arena h)) G T"
    and "iters h = Map.empty" and "tables h t = Some r" and "G t = Some g" and "table_ok M (kvs h) r g A"
proof -
  obtain M G where M: "ll_rep h M Map.empty" "ht_inv M (kvs h) (tables h) (ticks (arena h)) G T"
    "iters h = Map.empty"
    using assms(1) by (auto simp: ht_rep_def)
  with ht_inv_table [OF M(2) assms(2)] that show thesis by blast
qed

text \<open>The array cells and the mutex of the bucket of a key.\<close>

lemma bucket_cells:
  assumes "table_ok M K r g A" and "n = length (at_buckets A)" and "unat ix < n"
    and "tables h t = Some r'" and "ht_buckets r' = ht_buckets r"
  shows "get_bucket (Some t) ix h = Some (Some (lay_lists g ! unat ix))"
    and "ht_mutexes r' = ht_mutexes r \<Longrightarrow> lock_bucket (Some t) ix h = Some (h\<lparr>tables := (tables h)(t \<mapsto>
      r'\<lparr>ht_mutexes := Some ((replicate n (Some Unlocked))[unat ix := Some Locked])\<rparr>)\<rparr>)"
    and "ht_mutexes r' = Some ((replicate n (Some Unlocked))[unat ix := Some Locked]) \<Longrightarrow>
      unlock_bucket (Some t) ix h = Some (h\<lparr>tables := (tables h)(t \<mapsto>
        r'\<lparr>ht_mutexes := Some (replicate n (Some Unlocked))\<rparr>)\<rparr>)"
proof -
  note ok = table_okD [OF assms(1,2)]
  have "(replicate n (Some Unlocked))[unat ix := Some Unlocked] = replicate n (Some Unlocked)"
    using assms(3) by (metis list_update_id nth_replicate)
  then show "ht_mutexes r' = Some ((replicate n (Some Unlocked))[unat ix := Some Locked]) \<Longrightarrow>
      unlock_bucket (Some t) ix h = Some (h\<lparr>tables := (tables h)(t \<mapsto>
        r'\<lparr>ht_mutexes := Some (replicate n (Some Unlocked))\<rparr>)\<rparr>)"
    using assms(3,4) by (simp add: unlock_bucket_def get_mutex_def set_mutex_def table_at_def modify_table_def)
  show "get_bucket (Some t) ix h = Some (Some (lay_lists g ! unat ix))"
    using assms(3-5) ok by (simp add: get_bucket_def table_at_def)
  show "ht_mutexes r' = ht_mutexes r \<Longrightarrow> lock_bucket (Some t) ix h = Some (h\<lparr>tables := (tables h)(t \<mapsto>
      r'\<lparr>ht_mutexes := Some ((replicate n (Some Unlocked))[unat ix := Some Locked])\<rparr>)\<rparr>)"
    using assms(3,4) ok by (simp add: lock_bucket_def get_mutex_def set_mutex_def table_at_def modify_table_def)
qed

lemma distinct_concat_disjoint:
  assumes "distinct (concat pss)" and "i < length pss" and "j < length pss" and "i \<noteq> j"
  shows "set (pss ! i) \<inter> set (pss ! j) = {}"
  using assms
proof (induction pss arbitrary: i j)
  case (Cons p pss)
  have sub: "set (pss ! k) \<subseteq> set (concat pss)" if "k < length pss" for k
    using nth_mem [OF that] by auto
  from Cons.prems(1) have d: "distinct (concat pss)" "set p \<inter> set (concat pss) = {}" by auto
  show ?case
  proof (cases i)
    case 0
    with Cons.prems obtain k where "j = Suc k" "k < length pss" by (cases j) auto
    with 0 d(2) sub [of k] show ?thesis by auto
  next
    case (Suc k)
    show ?thesis
    proof (cases j)
      case 0
      with Suc Cons.prems(2) d(2) sub [of k] show ?thesis by auto
    next
      case (Suc k')
      with \<open>i = Suc k\<close> Cons.prems Cons.IH [OF d(1), of k k'] show ?thesis by simp
    qed
  qed
qed simp

lemma ht_count_update:
  assumes "i < length (at_buckets A)"
  shows "ht_count (A\<lparr>at_buckets := (at_buckets A)[i := kv]\<rparr>) + length (at_buckets A ! i) = ht_count A + length kv"
proof -
  let ?b = "map length (at_buckets A)"
  have "sum_list (?b[i := length kv]) = sum_list ?b + length kv - ?b ! i"
    using assms by (subst sum_list_update) simp_all
  moreover have "?b ! i \<le> sum_list ?b" using assms by (intro elem_le_sum_list) simp
  ultimately show ?thesis using assms by (simp add: ht_count_def map_update)
qed

text \<open>One bucket gets a new content; the size field follows.\<close>

lemma table_ok_bucket:
  assumes ok: "table_ok M K r g A" and i: "i < length (at_buckets A)" "l = lay_lists g ! i" "ps = lay_pairs g ! i"
    and dist: "distinct ps'" "set ps' \<inter> (set (concat (lay_pairs g)) - set ps) = {}"
    and M': "M' = M(l \<mapsto> \<lparr>al_items = map Some ps', al_free = NULL, al_copy = NULL\<rparr>)"
    and K': "map K' ps' = map (\<lambda>p. Some \<lparr>kv_key = fst p, kv_value = snd p\<rparr>) kv'"
      "\<And>a. a \<notin> set ps \<Longrightarrow> a \<notin> set ps' \<Longrightarrow> K' a = K a"
    and A': "A' = A\<lparr>at_buckets := (at_buckets A)[i := kv']\<rparr>"
    and r': "r' = r\<lparr>ht_size := of_nat (ht_count A')\<rparr>"
  shows "table_ok M' K' r' (Layout (lay_lists g) ((lay_pairs g)[i := ps'])) A'"
proof -
  note ok' = table_okD [OF ok refl]
  note dc = distinct_concat_update [OF ok'(7), of i ps'] ok'(5)
  have "bucket_ok M' K' (lay_lists g ! j) ((lay_pairs g)[i := ps'] ! j) (at_buckets A' ! j)"
    if j: "j < length (at_buckets A)" for j
  proof (cases "j = i")
    case True
    with i M' K'(1) ok'(5) show ?thesis by (simp add: bucket_ok_def A')
  next
    case False
    have "lay_lists g ! j \<noteq> l" using False i j ok'(4,6) by (simp add: nth_eq_iff_index_eq)
    moreover have "a \<notin> set ps \<and> a \<notin> set ps'" if a: "a \<in> set (lay_pairs g ! j)" for a
    proof -
      have "set (lay_pairs g ! j) \<inter> set ps = {}"
        using distinct_concat_disjoint [OF ok'(7), of j i] False i j ok'(5) by simp
      moreover have "a \<in> set (concat (lay_pairs g))" using a j ok'(5) by (auto intro!: bexI [of _ "lay_pairs g ! j"])
      ultimately show ?thesis using a dist(2) by blast
    qed
    then have "map K' (lay_pairs g ! j) = map K (lay_pairs g ! j)" using K'(2) by (intro map_cong refl) blast
    ultimately show ?thesis using ok'(8) [OF j] False i(1) M' ok'(5) by (simp add: bucket_ok_def A' del: map_eq_conv)
  qed
  with ok' dc dist i show ?thesis
    unfolding table_ok_def Let_def r' A' by simp
qed

lemma malloc_pair_simps [simp]:
  "refused (arena h) \<Longrightarrow> malloc_pair h = (NULL, h\<lparr>arena := tick (arena h)\<rparr>)"
  "\<not> refused (arena h) \<Longrightarrow> malloc_pair h = (Some (Suc (ticks (arena h))),
     h\<lparr>arena := tick (arena h), kvs := (kvs h)(Suc (ticks (arena h)) \<mapsto> \<lparr>kv_key = NULL, kv_value = NULL\<rparr>)\<rparr>)"
  by (simp_all add: malloc_pair_def)

lemmas ht_simps = table_at_def pair_at_def modify_table_def modify_pair_def free_pair_def free_table_def
  call_free_key_def call_free_value_def call_copy_key_def call_copy_value_def

text \<open>The structure of a table while the mutex of one bucket is held.\<close>

definition held :: "nat \<Rightarrow> ('k, 'v, 'w) generic_hash_table_t \<Rightarrow> ('k, 'v, 'w) generic_hash_table_t" where
  "held i r = r\<lparr>ht_mutexes := map_option (\<lambda>ms. ms[i := Some Locked]) (ht_mutexes r)\<rparr>"

text \<open>
  \<open>bucket_view h T t A key M G r g\<close>: what the code of an operation on \<open>key\<close> sees of a table.
\<close>

definition bucket_view where
  "bucket_view h T t A M G r g \<longleftrightarrow> ll_rep h M Map.empty
     \<and> ht_inv M (kvs h) (tables h) (ticks (arena h)) G T \<and> iters h = Map.empty
     \<and> T t = Some A \<and> tables h t = Some r \<and> G t = Some g \<and> table_ok M (kvs h) r g A"

lemma bucket_viewE:
  assumes "ht_rep h T" and "T t = Some A"
  obtains M G r g where "bucket_view h T t A M G r g"
  using ht_viewE [OF assms] assms(2) unfolding bucket_view_def by metis

lemma view_bucket:
  assumes "bucket_view h T t A M G r g" and i_def: "i = unat (ht_index A key)"
  shows "i < length (at_buckets A)"
    and "M (lay_lists g ! i) = Some \<lparr>al_items = map Some (lay_pairs g ! i), al_free = NULL, al_copy = NULL\<rparr>"
    and "map (kvs h) (lay_pairs g ! i) = map (\<lambda>p. Some \<lparr>kv_key = fst p, kv_value = snd p\<rparr>) (ht_bucket A key)"
    and "distinct (lay_pairs g ! i)"
    and "length (lay_pairs g ! i) = length (ht_bucket A key)"
    and "set (lay_pairs g ! i) \<subseteq> set (concat (lay_pairs g))"
proof -
  have ok: "table_ok M (kvs h) r g A" using assms(1) by (simp add: bucket_view_def)
  note ok' = table_okD [OF ok refl]
  show i: "i < length (at_buckets A)" using ht_index_less [OF ok'(2,3)] by (simp add: i_def)
  show "M (lay_lists g ! i) = Some \<lparr>al_items = map Some (lay_pairs g ! i), al_free = NULL, al_copy = NULL\<rparr>"
    and kv: "map (kvs h) (lay_pairs g ! i) = map (\<lambda>p. Some \<lparr>kv_key = fst p, kv_value = snd p\<rparr>) (ht_bucket A key)"
    using ok'(8) [OF i] unfolding bucket_ok_def ht_bucket_def i_def by auto
  show "length (lay_pairs g ! i) = length (ht_bucket A key)" using arg_cong [OF kv, of length] by simp
  have mem: "lay_pairs g ! i \<in> set (lay_pairs g)" using i ok'(5) by simp
  then show "set (lay_pairs g ! i) \<subseteq> set (concat (lay_pairs g))" by auto
  show "distinct (lay_pairs g ! i)" using ok'(7) mem by (simp add: distinct_concat_iff)
qed

lemma view_cells:
  assumes v: "bucket_view h T t A M G r g" and ix: "ix = ht_index A key"
    and h': "tables h' t = Some r'" "ht_buckets r' = ht_buckets r"
  shows "get_bucket (Some t) ix h' = Some (Some (lay_lists g ! unat ix))"
    and "ht_mutexes r' = ht_mutexes r \<Longrightarrow>
      lock_bucket (Some t) ix h' = Some (h'\<lparr>tables := (tables h')(t \<mapsto> held (unat ix) r')\<rparr>)"
    and "ht_mutexes r' = ht_mutexes (held (unat ix) r) \<Longrightarrow>
      unlock_bucket (Some t) ix h' = Some (h'\<lparr>tables := (tables h')(t \<mapsto> r'\<lparr>ht_mutexes := ht_mutexes r\<rparr>)\<rparr>)"
    and "at_hash A key mod ht_capacity r = ix"
proof -
  have ok: "table_ok M (kvs h) r g A" using v by (simp add: bucket_view_def)
  note ok' = table_okD [OF ok refl]
  note cells = bucket_cells [OF ok refl view_bucket(1) [OF v arg_cong [OF ix, of unat]] h']
  show "get_bucket (Some t) ix h' = Some (Some (lay_lists g ! unat ix))" by (rule cells(1))
  show "ht_mutexes r' = ht_mutexes r \<Longrightarrow>
      lock_bucket (Some t) ix h' = Some (h'\<lparr>tables := (tables h')(t \<mapsto> held (unat ix) r')\<rparr>)"
    using cells(2) ok'(1) by (simp add: held_def)
  show "ht_mutexes r' = ht_mutexes (held (unat ix) r) \<Longrightarrow>
      unlock_bucket (Some t) ix h' = Some (h'\<lparr>tables := (tables h')(t \<mapsto> r'\<lparr>ht_mutexes := ht_mutexes r\<rparr>)\<rparr>)"
    using cells(3) ok'(1) by (simp add: held_def)
  show "at_hash A key mod ht_capacity r = ix" using ok'(1) by (simp add: ix ht_index_def)
qed

lemma view_put:
  assumes v: "bucket_view h T t A M G r g" and i: "i = unat (ht_index A key)" "ps = lay_pairs g ! i"
    and A': "A' = with_bucket A key kv'"
    and dist: "distinct ps'" "set ps' \<inter> (set (concat (lay_pairs g)) - set ps) = {}"
    and h': "ll_rep h' (M(lay_lists g ! i \<mapsto> \<lparr>al_items = map Some ps', al_free = NULL, al_copy = NULL\<rparr>)) Map.empty"
      "iters h' = Map.empty" "tables h' = (tables h)(t \<mapsto> r\<lparr>ht_size := of_nat (ht_count A')\<rparr>)"
      "ticks (arena h) \<le> ticks (arena h')"
    and kv: "map (kvs h') ps' = map (\<lambda>p. Some \<lparr>kv_key = fst p, kv_value = snd p\<rparr>) kv'"
      "\<And>a. a \<notin> set ps \<Longrightarrow> a \<notin> set ps' \<Longrightarrow> kvs h' a = kvs h a"
      "\<And>a. a \<in> set ps \<Longrightarrow> a \<notin> set ps' \<Longrightarrow> kvs h' a = None"
    and fresh: "\<And>a. a \<in> set ps' \<Longrightarrow> a \<notin> set ps \<Longrightarrow> kvs h a = None \<and> a \<in> {1..min (ticks (arena h')) block_limit}"
  shows "ht_rep h' (T(t \<mapsto> A'))"
proof -
  have inv: "ht_inv M (kvs h) (tables h) (ticks (arena h)) G T" and t: "tables h t = Some r" "G t = Some g" "T t = Some A"
    and ok: "table_ok M (kvs h) r g A" using v by (auto simp: bucket_view_def)
  note ok' = table_okD [OF ok refl]
  have il: "i < length (at_buckets A)" using view_bucket(1) [OF v i(1)] .
  let ?g = "Layout (lay_lists g) ((lay_pairs g)[i := ps'])"
  have ok2: "table_ok (M(lay_lists g ! i \<mapsto> \<lparr>al_items = map Some ps', al_free = NULL, al_copy = NULL\<rparr>)) (kvs h')
      (r\<lparr>ht_size := of_nat (ht_count A')\<rparr>) ?g A'"
    by (rule table_ok_bucket [OF ok il refl i(2) dist refl kv(1,2) _ refl]) (simp_all add: A' with_bucket_def i(1))
  have sets: "set (concat (lay_pairs ?g)) = (set (concat (lay_pairs g)) - set ps) \<union> set ps'"
    using distinct_concat_update(2) [OF ok'(7), of i ps'] il ok'(5) dist i(2) by simp
  have sub: "set ps \<subseteq> set (concat (lay_pairs g))" using view_bucket(6) [OF v i(1)] i(2) by simp
  have "ht_inv (M(lay_lists g ! i \<mapsto> \<lparr>al_items = map Some ps', al_free = NULL, al_copy = NULL\<rparr>)) (kvs h')
      (tables h') (ticks (arena h')) (G(t \<mapsto> ?g)) (T(t \<mapsto> A'))"
    unfolding h'(3)
  proof (rule ht_inv_update [OF inv t ok2 _ _ _ _ _ h'(4)])
    show "(M(lay_lists g ! i \<mapsto> \<lparr>al_items = map Some ps', al_free = NULL, al_copy = NULL\<rparr>)) l = M l"
      if "l \<notin> set (lay_lists g)" for l using that il ok'(4) by auto
  next
    fix a assume "a \<notin> set (concat (lay_pairs g))" "a \<notin> set (concat (lay_pairs ?g))"
    then have "a \<notin> set ps" "a \<notin> set ps'" unfolding sets using sub by blast+
    then show "kvs h' a = kvs h a" by (rule kv(2))
  next
    fix a assume "a \<in> set (concat (lay_pairs g))" "a \<notin> set (concat (lay_pairs ?g))"
    then have "a \<in> set ps" "a \<notin> set ps'" unfolding sets by blast+
    then show "kvs h' a = None" by (rule kv(3))
  next
    fix a assume "a \<in> set (concat (lay_pairs ?g))" "a \<notin> set (concat (lay_pairs g))"
    then have "a \<in> set ps'" "a \<notin> set ps" unfolding sets using sub by blast+
    then show "kvs h a = None \<and> a \<in> {1..min (ticks (arena h')) block_limit}" by (rule fresh)
  qed simp
  with h'(1,2) show ?thesis unfolding ht_rep_def by blast
qed


lemma table_ok_dom:
  assumes "table_ok M K r g A"
  shows "set (concat (lay_pairs g)) \<subseteq> dom K"
proof
  fix a assume "a \<in> set (concat (lay_pairs g))"
  note ok = table_okD [OF assms refl]
  obtain ps where "ps \<in> set (lay_pairs g)" "a \<in> set ps" using \<open>a \<in> set (concat (lay_pairs g))\<close> by auto
  then obtain i where i: "i < length (at_buckets A)" "a \<in> set (lay_pairs g ! i)"
    using ok(5) by (metis in_set_conv_nth)
  with ok(8) [OF i(1)] have "K a \<in> set (map (\<lambda>p. Some \<lparr>kv_key = fst p, kv_value = snd p\<rparr>) (at_buckets A ! i))"
    unfolding bucket_ok_def by (metis image_eqI list.set_map)
  then show "a \<in> dom K" by auto
qed

lemma view_dom:
  assumes "bucket_view h T t A M G r g"
  shows "set (concat (lay_pairs g)) \<subseteq> dom (kvs h)" and "dom (kvs h) \<subseteq> {1..min (ticks (arena h)) block_limit}"
proof -
  have inv: "ht_inv M (kvs h) (tables h) (ticks (arena h)) G T" and ok: "table_ok M (kvs h) r g A"
    using assms by (auto simp: bucket_view_def)
  show "dom (kvs h) \<subseteq> {1..min (ticks (arena h)) block_limit}" using ht_inv_bound [OF inv] by simp
  show "set (concat (lay_pairs g)) \<subseteq> dom (kvs h)" by (rule table_ok_dom [OF ok])
qed

text \<open>The part of an insertion that follows the two copies.\<close>

definition insert_locked ::
  "('k, 'v, 'w) generic_hash_table_t \<Rightarrow> addr \<Rightarrow> size_t \<Rightarrow> addr \<Rightarrow> 'k ptr \<Rightarrow> 'v ptr
     \<Rightarrow> ('k, 'v, 'w, 'z) hth \<Rightarrow> (exit_code, ('k, 'v, 'w, 'z) hth) res" where
  "insert_locked r t ix a k v h = do {
     h \<leftarrow> lock_bucket (Some t) ix h;
     l \<leftarrow> get_bucket (Some t) ix h;
     (exit_code, h) \<leftarrow> generic_linked_list_insert_first l (Some a) h;
     if exit_code \<noteq> 0 then do {
       h \<leftarrow> call_free_value r v h;
       h \<leftarrow> call_free_key r k h;
       h \<leftarrow> free_pair (Some a) h;
       Some (exit_code, h) }
     else do {
       h \<leftarrow> modify_table (Some t) (\<lambda>t. t\<lparr>ht_size := ht_size t + 1\<rparr>) h;
       h \<leftarrow> unlock_bucket (Some t) ix h;
       Some (0, h) } }"

lemma insert_prefix:
  assumes v: "bucket_view h T t A M G r g" and key: "key \<noteq> NULL" and granted: "\<not> refused (arena h)"
    and copies: "at_copy_key A key (world h) = Some (0, k', w1)" "at_copy_value A val w1 = Some (0, v', w2)"
  shows "generic_hash_table_insert (Some t) key val h
    = insert_locked r t (ht_index A key) (Suc (ticks (arena h))) k' v'
        (h\<lparr>arena := tick (arena h), world := w2,
           kvs := (kvs h)(Suc (ticks (arena h)) \<mapsto> \<lparr>kv_key = k', kv_value = v'\<rparr>)\<rparr>)"
proof -
  have t: "tables h t = Some r" and ok: "table_ok M (kvs h) r g A" using v by (auto simp: bucket_view_def)
  have "ht_hash_function r = Some (at_hash A)" "ht_copy_key_function r = Some (at_copy_key A)"
    "ht_copy_value_function r = Some (at_copy_value A)"
    using table_okD(1) [OF ok refl] by simp_all
  with t key granted copies view_cells(4) [OF v refl t, of key] show ?thesis
    unfolding generic_hash_table_insert_def insert_locked_def by (simp add: ht_simps Let_def del: not_None_eq cong: if_cong)
qed

lemma ht_insert_spec:
  fixes h :: "('k, 'v, 'w, 'z) hth"
  assumes rep: "ht_rep h T" "T t = Some A" and granted: "grants 2 (arena h)" and key: "key \<noteq> NULL"
    and ck: "at_copy_key A key (world h) = Some (0, k', w1)" and cv: "at_copy_value A val w1 = Some (0, v', w2)"
  shows "\<exists>h'. generic_hash_table_insert (Some t) key val h = Some (0, h')
    \<and> ht_rep h' (T(t \<mapsto> with_bucket A key ((k', v') # ht_bucket A key)))
    \<and> world h' = w2 \<and> arena h' = tick (tick (arena h)) \<and> same_ht_frame h h'"
proof -
  obtain M G r g where v: "bucket_view h T t A M G r g" by (rule bucket_viewE [OF rep])
  then have M: "ll_rep h M Map.empty" and iters: "iters h = Map.empty" and t: "tables h t = Some r"
    and ok: "table_ok M (kvs h) r g A" by (auto simp: bucket_view_def)
  have rf: "ht_size r = of_nat (ht_count A)" using table_okD(1) [OF ok refl] by simp
  define ix where "ix = ht_index A key"
  define l where "l = lay_lists g ! unat ix"
  define ps where "ps = lay_pairs g ! unat ix"
  note b = view_bucket [OF v arg_cong [OF ix_def, of unat], folded l_def ps_def]
  note cells = view_cells [OF v ix_def, folded l_def]
  define a where "a = Suc (ticks (arena h))"
  have g2: "\<not> refused (arena h)" "\<not> refused (tick (arena h))"
    using granted by (simp_all add: numeral_2_eq_2 grants_Suc)
  have "a \<notin> dom (kvs h)" using view_dom(2) [OF v] by (auto simp: a_def)
  then have fresh: "kvs h a = None" "a \<notin> set (concat (lay_pairs g))" using view_dom(1) [OF v] by blast+
  define h1 where "h1 = h\<lparr>arena := tick (arena h), world := w2, kvs := (kvs h)(a \<mapsto> \<lparr>kv_key = k', kv_value = v'\<rparr>)\<rparr>"
  define h2 where "h2 = h1\<lparr>tables := (tables h)(t \<mapsto> held (unat ix) r)\<rparr>"
  have rep2: "ll_rep h2 M Map.empty" by (rule ll_rep_cong [OF M]) (simp_all add: h2_def h1_def)
  obtain h3 where h3: "generic_linked_list_insert_first (Some l) (Some a) h2 = Some (0, h3)"
    "ll_rep h3 (M(l \<mapsto> \<lparr>al_items = map Some (a # ps), al_free = NULL, al_copy = NULL\<rparr>)) Map.empty"
    "world h3 = w2" "arena h3 = tick (tick (arena h))" "iters h3 = iters h" "same_frame h2 h3"
    using insert_first_spec [OF rep2 b(2), of "Some a" "Some a" w2] g2(2)
    by (auto simp: h2_def h1_def al_store_def)
  have fr: "kvs h3 = kvs h2" "tables h3 = tables h2" "same_ht_frame h2 h3" using ht_frameD [OF h3(6)] by auto
  define A' where "A' = with_bucket A key ((k', v') # ht_bucket A key)"
  have "ht_count A' = Suc (ht_count A)"
    using ht_count_update [OF b(1), of "(k', v') # ht_bucket A key"]
    by (simp add: A'_def with_bucket_def ht_bucket_def ix_def)
  then have size: "ht_size r + 1 = of_nat (ht_count A')" using rf by simp
  define h' where "h' = h3\<lparr>tables := (tables h)(t \<mapsto> r\<lparr>ht_size := of_nat (ht_count A')\<rparr>)\<rparr>"
  have "generic_hash_table_insert (Some t) key val h = Some (0, h')"
  proof -
    let ?r = "(held (unat ix) r)\<lparr>ht_size := ht_size r + 1\<rparr>"
    let ?hs = "h3\<lparr>tables := (tables h)(t \<mapsto> ?r)\<rparr>"
    have lock: "lock_bucket (Some t) ix h1 = Some h2"
      using cells(2) [of h1 r] t by (simp add: h2_def h1_def)
    have cell: "get_bucket (Some t) ix h2 = Some (Some l)"
      using cells(1) [of h2 "held (unat ix) r"] by (simp add: h2_def held_def)
    have unlock: "unlock_bucket (Some t) ix ?hs = Some h'"
      using cells(3) [of ?hs ?r] size by (simp add: h'_def held_def)
    have "generic_hash_table_insert (Some t) key val h = insert_locked r t ix a k' v' h1"
      unfolding h1_def a_def using insert_prefix [OF v key g2(1) ck cv] by (simp add: ix_def)
    then show ?thesis
      using lock cell h3(1) fr(2) unlock by (simp add: insert_locked_def modify_table_def h2_def held_def)
  qed
  moreover have "ht_rep h' (T(t \<mapsto> A'))"
  proof (rule view_put [OF v arg_cong [OF ix_def, of unat] ps_def A'_def, of "a # ps"])
    show "distinct (a # ps)" using b(4,6) fresh(2) by auto
    show "set (a # ps) \<inter> (set (concat (lay_pairs g)) - set ps) = {}" using fresh(2) by auto
    show "ll_rep h' (M(lay_lists g ! unat ix \<mapsto> \<lparr>al_items = map Some (a # ps), al_free = NULL, al_copy = NULL\<rparr>)) Map.empty"
      unfolding l_def [symmetric] by (rule ll_rep_cong [OF h3(2)]) (simp_all add: h'_def)
    have kvs': "kvs h' = (kvs h)(a \<mapsto> \<lparr>kv_key = k', kv_value = v'\<rparr>)" by (simp add: h'_def fr h2_def h1_def)
    have "map (kvs h') ps = map (kvs h) ps" using b(6) fresh(2) by (auto simp: kvs')
    with b(3) show "map (kvs h') (a # ps) = map (\<lambda>p. Some \<lparr>kv_key = fst p, kv_value = snd p\<rparr>) ((k', v') # ht_bucket A key)"
      by (simp add: kvs')
    show "kvs h' c = kvs h c" if "c \<notin> set ps" "c \<notin> set (a # ps)" for c using that by (simp add: kvs')
    show "kvs h c = None \<and> c \<in> {1..min (ticks (arena h')) block_limit}" if "c \<in> set (a # ps)" "c \<notin> set ps" for c
      using that fresh(1) g2(1) h3(4) by (simp add: h'_def a_def refused_def)
  qed (use iters h3 in \<open>simp_all add: h'_def\<close>)
  ultimately show ?thesis using h3 fr by (auto simp: A'_def h'_def h2_def h1_def)
qed


text \<open>Searching a bucket.\<close>

lemma ht_pos_le: "ht_pos cmp k kv \<le> length kv"
  unfolding ht_pos_def by (rule length_takeWhile_le)

lemma ht_pos_match: "ht_pos cmp k kv < length kv \<Longrightarrow> cmp k (fst (kv ! ht_pos cmp k kv)) = 0"
  unfolding ht_pos_def using nth_length_takeWhile by fastforce

lemma ht_pos_before: "m < ht_pos cmp k kv \<Longrightarrow> cmp k (fst (kv ! m)) \<noteq> 0"
  unfolding ht_pos_def using takeWhile_nth nth_mem set_takeWhileD by (metis (mono_tags, lifting))

lemma search_loop_spec:
  fixes h :: "('k, 'v, 'w, 'z) hth"
  assumes "ll_rep h M I" and "I it = Some (l, Suc m)"
    and "M l = Some \<lparr>al_items = map Some ps, al_free = NULL, al_copy = NULL\<rparr>"
    and "map (kvs h) ps = map (\<lambda>p. Some \<lparr>kv_key = fst p, kv_value = snd p\<rparr>) kv"
    and "m \<le> ht_pos cmp key kv"
  shows "\<exists>h'. search_loop cmp key (Some it) h
      = Some (if ht_pos cmp key kv < length kv then Found (Some (ps ! ht_pos cmp key kv)) else Missing, h')
    \<and> ll_rep h' M (I(it \<mapsto> (l, Suc (ht_pos cmp key kv)))) \<and> iter_only it h h' \<and> arena h' = arena h \<and> kept h h'"
  using assms
proof (induction "ht_pos cmp key kv - m" arbitrary: h I m)
  case 0
  have len: "length ps = length kv" using arg_cong [OF 0(5), of length] by simp
  have m: "m = ht_pos cmp key kv" using 0 by simp
  have I: "I(it \<mapsto> (l, Suc (ht_pos cmp key kv))) = I" using 0(3) m by (simp add: fun_upd_idem_iff)
  have "search_loop cmp key (Some it) h
      = Some (if m < length kv then Found (Some (ps ! m)) else Missing, h)"
  proof (cases "m < length kv")
    case True
    then have "kvs h (ps ! m) = Some \<lparr>kv_key = fst (kv ! m), kv_value = snd (kv ! m)\<rparr>"
      using arg_cong [OF 0(5), of "\<lambda>xs. xs ! m"] len by simp
    with True is_end_spec(3) [OF 0(2-4)] get_spec [OF 0(2-4), of NULL] len ht_pos_match [of cmp key kv] m
    show ?thesis by (subst search_loop.simps) (simp add: pair_at_def)
  next
    case False
    then have "m = length kv" using m ht_pos_le [of cmp key kv] by simp
    with is_end_spec(3) [OF 0(2-4)] len show ?thesis by (subst search_loop.simps) simp
  qed
  with 0(2) show ?case unfolding I m by auto
next
  case (Suc d)
  have len: "length ps = length kv" using arg_cong [OF Suc.prems(4), of length] by simp
  have m: "m < ht_pos cmp key kv" "m < length kv" using Suc.hyps(2) ht_pos_le [of cmp key kv] by auto
  have kvm: "kvs h (ps ! m) = Some \<lparr>kv_key = fst (kv ! m), kv_value = snd (kv ! m)\<rparr>"
    using arg_cong [OF Suc.prems(4), of "\<lambda>xs. xs ! m"] len m(2) by simp
  obtain h1 where h1: "generic_linked_list_iterator_next (Some it) h = Some (0, h1)"
    "ll_rep h1 M (I(it \<mapsto> (l, Suc (Suc m))))" "iter_only it h h1" "arena h1 = arena h" "kept h h1"
    using next_spec [OF Suc.prems(1-3)] m len by auto
  have step: "search_loop cmp key (Some it) h = search_loop cmp key (Some it) h1"
    using is_end_spec(3) [OF Suc.prems(1-3)] get_spec [OF Suc.prems(1-3), of NULL] m len kvm h1(1)
      ht_pos_before [OF m(1)]
    by (subst search_loop.simps) (simp add: pair_at_def)
  have "map (kvs h1) ps = map (\<lambda>p. Some \<lparr>kv_key = fst p, kv_value = snd p\<rparr>) kv"
    using Suc.prems(4) ht_frameD(1) [of h h1] h1(5) by simp
  from Suc.hyps(1) [where m = "Suc m", OF _ h1(2) _ Suc.prems(3) this] Suc.hyps(2) m
  have "\<exists>h'. search_loop cmp key (Some it) h1
      = Some (if ht_pos cmp key kv < length kv then Found (Some (ps ! ht_pos cmp key kv)) else Missing, h')
    \<and> ll_rep h' M (I(it \<mapsto> (l, Suc (ht_pos cmp key kv)))) \<and> iter_only it h1 h' \<and> arena h' = arena h1 \<and> kept h1 h'"
    by simp
  with h1(3-5) show ?case unfolding step by auto
qed

lemma filter_first:
  defines "pos P xs \<equiv> length (takeWhile (\<lambda>x. \<not> P x) xs)"
  shows "filter P xs = [] \<longleftrightarrow> pos P xs = length xs"
    and "pos P xs < length xs \<Longrightarrow> filter P xs = xs ! pos P xs # filter P (take (pos P xs) xs @ drop (Suc (pos P xs)) xs)"
  by (induction xs) (auto simp: pos_def)

lemma ht_stack_pos:
  assumes "pos = ht_pos (at_compare A) key (ht_bucket A key)"
  shows "ht_stack A key = [] \<longleftrightarrow> pos = length (ht_bucket A key)"
    and "pos < length (ht_bucket A key) \<Longrightarrow> ht_stack A key = snd (ht_bucket A key ! pos)
      # map snd (filter (\<lambda>p. at_compare A key (fst p) = 0) (take pos (ht_bucket A key) @ drop (Suc pos) (ht_bucket A key)))"
  using filter_first [of "\<lambda>p. at_compare A key (fst p) = 0" "ht_bucket A key"] assms
  by (simp_all add: ht_stack_def ht_pos_def)

lemma ht_inv_mono: "ht_inv M K TB n G T \<Longrightarrow> n \<le> n' \<Longrightarrow> ht_inv M K TB n' G T"
  unfolding ht_inv_def by (elim conjE, intro conjI) (assumption | fastforce)+

lemma view_keep:
  assumes "bucket_view h T t A M G r g" and "ll_rep h' M Map.empty" and "iters h' = Map.empty"
    and "kvs h' = kvs h" and "tables h' = tables h" and "ticks (arena h) \<le> ticks (arena h')"
  shows "ht_rep h' T"
  using assms ht_inv_mono unfolding bucket_view_def ht_rep_def by metis

text \<open>Lock, open an iterator, search: the common beginning of lookup, deletion and membership.\<close>

lemma bucket_search:
  fixes h :: "('k, 'v, 'w, 'z) hth"
  assumes v: "bucket_view h T t A M G r g" and granted: "\<not> refused (arena h)"
    and ix: "ix = ht_index A key" and l: "l = lay_lists g ! unat ix" and ps: "ps = lay_pairs g ! unat ix"
    and pos: "pos = ht_pos (at_compare A) key (ht_bucket A key)"
    and h1: "h1 = h\<lparr>tables := (tables h)(t \<mapsto> held (unat ix) r)\<rparr>"
  obtains h2 h3 it where "lock_bucket (Some t) ix h = Some h1"
    and "get_bucket (Some t) ix h1 = Some (Some l)"
    and "generic_linked_list_iterator_begin (Some l) (Some NULL) h1 = Some (0, Some (Some it), h2)"
    and "search_loop (at_compare A) key (Some it) h2
      = Some (if pos < length (ht_bucket A key) then Found (Some (ps ! pos)) else Missing, h3)"
    and "ll_rep h3 M [it \<mapsto> (l, Suc pos)]" and "(iters h3)(it := None) = Map.empty"
    and "arena h3 = tick (arena h)" and "kept h1 h3"
proof -
  have M: "ll_rep h M Map.empty" and iters: "iters h = Map.empty" and t: "tables h t = Some r"
    using v by (auto simp: bucket_view_def)
  note b = view_bucket [OF v arg_cong [OF ix, of unat], folded l ps]
  note cells = view_cells [OF v ix, folded l]
  have M1: "ll_rep h1 M Map.empty" by (rule ll_rep_cong [OF M]) (simp_all add: h1)
  obtain h2 it where h2: "generic_linked_list_iterator_begin (Some l) (Some NULL) h1 = Some (0, Some (Some it), h2)"
    "iters h1 it = None" "ll_rep h2 M [it \<mapsto> (l, 1)]" "iter_only it h1 h2" "arena h2 = tick (arena h1)" "kept h1 h2"
    using begin_spec [OF M1 b(2), of NULL] granted by (auto simp: h1)
  have kv: "map (kvs h2) ps = map (\<lambda>p. Some \<lparr>kv_key = fst p, kv_value = snd p\<rparr>) (ht_bucket A key)"
    using b(3) ht_frameD(1) [of h1 h2] h2(6) by (simp add: h1)
  obtain h3 where h3: "search_loop (at_compare A) key (Some it) h2
      = Some (if pos < length (ht_bucket A key) then Found (Some (ps ! pos)) else Missing, h3)"
    "ll_rep h3 M ([it \<mapsto> (l, 1)](it \<mapsto> (l, Suc pos)))" "iter_only it h2 h3" "arena h3 = arena h2" "kept h2 h3"
    using search_loop_spec [OF h2(3) _ b(2) kv, of it 0 "at_compare A" key] unfolding pos by auto
  show thesis
  proof (rule that [OF _ _ h2(1) h3(1)])
    show "lock_bucket (Some t) ix h = Some h1" using cells(2) [of h r] t by (simp add: h1)
    show "get_bucket (Some t) ix h1 = Some (Some l)" using cells(1) [of h1 "held (unat ix) r"] by (simp add: h1 held_def)
    show "ll_rep h3 M [it \<mapsto> (l, Suc pos)]" using h3(2) by simp
    show "(iters h3)(it := None) = Map.empty" using h3(3) h2(4) iters by (simp add: h1)
    show "arena h3 = tick (arena h)" using h3(4) h2(5) by (simp add: h1)
    show "kept h1 h3" using h3(5) h2(6) by simp
  qed
qed

lemma ht_lookup:
  fixes h :: "('k, 'v, 'w, 'z) hth"
  assumes rep: "ht_rep h T" "T t = Some A" and granted: "\<not> refused (arena h)" and key: "key \<noteq> NULL"
  shows ht_get_spec: "\<exists>h'. generic_hash_table_get (Some t) key (Some x) h
      = Some (case ht_stack A key of [] \<Rightarrow> (1, Some NULL, h') | u # _ \<Rightarrow> (0, Some u, h'))
    \<and> ht_rep h' T \<and> world h' = world h \<and> arena h' = tick (arena h) \<and> same_ht_frame h h'"
    and ht_contains_spec: "\<exists>h'. generic_hash_table_contains (Some t) key h
      = Some (if ht_stack A key = [] then 1 else 0, h')
    \<and> ht_rep h' T \<and> world h' = world h \<and> arena h' = tick (arena h) \<and> same_ht_frame h h'"
    and ht_delete_missing: "ht_stack A key = [] \<Longrightarrow> \<exists>h'. generic_hash_table_delete (Some t) key h = Some (1, h')
    \<and> ht_rep h' T \<and> world h' = world h \<and> arena h' = tick (arena h) \<and> same_ht_frame h h'"
proof -
  obtain M G r g where v: "bucket_view h T t A M G r g" by (rule bucket_viewE [OF rep])
  then have t: "tables h t = Some r" and ok: "table_ok M (kvs h) r g A" by (auto simp: bucket_view_def)
  have rf: "ht_hash_function r = Some (at_hash A)" "ht_compare_key_function r = Some (at_compare A)"
    using table_okD(1) [OF ok refl] by simp_all
  define ix where "ix = ht_index A key"
  define l where "l = lay_lists g ! unat ix"
  define ps where "ps = lay_pairs g ! unat ix"
  define pos where "pos = ht_pos (at_compare A) key (ht_bucket A key)"
  define h1 where "h1 = h\<lparr>tables := (tables h)(t \<mapsto> held (unat ix) r)\<rparr>"
  note b = view_bucket [OF v arg_cong [OF ix_def, of unat], folded l_def ps_def]
  obtain h2 h3 it where lock: "lock_bucket (Some t) ix h = Some h1" "get_bucket (Some t) ix h1 = Some (Some l)"
    and open_it: "generic_linked_list_iterator_begin (Some l) (Some NULL) h1 = Some (0, Some (Some it), h2)"
    and search: "search_loop (at_compare A) key (Some it) h2
      = Some (if pos < length (ht_bucket A key) then Found (Some (ps ! pos)) else Missing, h3)"
    and h3: "ll_rep h3 M [it \<mapsto> (l, Suc pos)]" "(iters h3)(it := None) = Map.empty"
      "arena h3 = tick (arena h)" "kept h1 h3"
    by (rule bucket_search [OF v granted ix_def l_def ps_def pos_def h1_def])
  obtain h4 where h4: "generic_linked_list_iterator_free (Some it) h3 = Some (0, h4)" "ll_rep h4 M Map.empty"
    "iters h4 = Map.empty" "arena h4 = tick (arena h)" "kept h1 h4"
    using iterator_free_spec [OF h3(1), of it l "Suc pos"] h3 by auto
  have fr: "kvs h3 = kvs h" "kvs h4 = kvs h" "tables h4 = tables h1" "same_ht_frame h h4"
    using ht_frameD [of h1 h4] ht_frameD(1) [of h1 h3] h3(4) h4(5) by (auto simp: h1_def)
  define h5 where "h5 = h4\<lparr>tables := tables h\<rparr>"
  have unlock: "unlock_bucket (Some t) ix h4 = Some h5"
    using view_cells(3) [OF v ix_def, of h4 "held (unat ix) r"] t fr(3)
    by (simp add: h5_def h1_def held_def fun_upd_idem)
  have rep5: "ht_rep h5 T"
    by (rule view_keep [OF v]) (use h4 fr in \<open>simp_all add: h5_def ll_rep_cong [OF h4(2)]\<close>)
  have keep: "world h5 = world h" "arena h5 = tick (arena h)" "same_ht_frame h h5"
    using h4 fr by (simp_all add: h5_def h1_def)
  have kv: "kvs h (ps ! pos) = Some \<lparr>kv_key = fst (ht_bucket A key ! pos), kv_value = snd (ht_bucket A key ! pos)\<rparr>"
    if "pos < length (ht_bucket A key)"
    using arg_cong [OF b(3), of "\<lambda>xs. xs ! pos"] that b(5) by simp
  have "pos \<le> length (ht_bucket A key)" unfolding pos_def by (rule ht_pos_le)
  then consider (found) u us where "pos < length (ht_bucket A key)" "ht_stack A key = u # us"
      "u = snd (ht_bucket A key ! pos)"
    | (missing) "\<not> pos < length (ht_bucket A key)" "ht_stack A key = []"
    using ht_stack_pos [OF pos_def] by fastforce
  note cases = this
  note idx = view_cells(4) [OF v ix_def t]
  have "generic_hash_table_get (Some t) key (Some x) h
      = Some (case ht_stack A key of [] \<Rightarrow> (1, Some NULL, h5) | u # _ \<Rightarrow> (0, Some u, h5))"
    using t rf key lock open_it search h4(1) unlock fr(1) kv idx
    by (cases rule: cases) (simp_all add: generic_hash_table_get_def ht_simps Let_def del: not_None_eq cong: if_cong)
  with rep5 keep show "\<exists>h'. generic_hash_table_get (Some t) key (Some x) h
      = Some (case ht_stack A key of [] \<Rightarrow> (1, Some NULL, h') | u # _ \<Rightarrow> (0, Some u, h'))
    \<and> ht_rep h' T \<and> world h' = world h \<and> arena h' = tick (arena h) \<and> same_ht_frame h h'" by blast
  have "generic_hash_table_contains (Some t) key h = Some (if ht_stack A key = [] then 1 else 0, h5)"
    using t rf key lock open_it search h4(1) unlock idx
    by (cases rule: cases) (simp_all add: generic_hash_table_contains_def ht_simps Let_def del: not_None_eq cong: if_cong)
  with rep5 keep show "\<exists>h'. generic_hash_table_contains (Some t) key h
      = Some (if ht_stack A key = [] then 1 else 0, h')
    \<and> ht_rep h' T \<and> world h' = world h \<and> arena h' = tick (arena h) \<and> same_ht_frame h h'" by blast
  assume none: "ht_stack A key = []"
  then have "\<not> pos < length (ht_bucket A key)" using ht_stack_pos(1) [OF pos_def] by simp
  then have "generic_hash_table_delete (Some t) key h = Some (1, h5)"
    using t rf key lock open_it search h4(1) unlock idx
    by (simp add: generic_hash_table_delete_def ht_simps Let_def del: not_None_eq cong: if_cong)
  with rep5 keep show "\<exists>h'. generic_hash_table_delete (Some t) key h = Some (1, h')
    \<and> ht_rep h' T \<and> world h' = world h \<and> arena h' = tick (arena h) \<and> same_ht_frame h h'" by blast
qed

lemma map_take_drop: "map f (take i xs @ drop j xs) = take i (map f xs) @ drop j (map f xs)"
  by (simp add: take_map drop_map)

lemma drop_iters_single [simp]: "(drop_iters l [i \<mapsto> (l, k)])(i \<mapsto> x) = [i \<mapsto> x]"
  by (auto simp: drop_iters_def fun_eq_iff)

lemma remove_nth_distinct:
  assumes "distinct ps" and "i < length ps" and "ps' = take i ps @ drop (Suc i) ps"
  shows "distinct ps'" and "set ps' = set ps - {ps ! i}"
proof -
  have ps: "ps = take i ps @ ps ! i # drop (Suc i) ps" using assms(2) by (rule id_take_nth_drop)
  with assms(1) have d: "distinct (take i ps @ ps ! i # drop (Suc i) ps)" by simp
  then show "distinct ps'" unfolding assms(3) by auto
  have "set ps = insert (ps ! i) (set ps')" unfolding assms(3) by (subst ps) auto
  moreover have "ps ! i \<notin> set ps'" using d unfolding assms(3) by auto
  ultimately show "set ps' = set ps - {ps ! i}" by auto
qed

text \<open>A deletion that finds its key, step by step.\<close>

lemma ht_delete_exec:
  fixes h :: "('k, 'v, 'w, 'z) hth"
  assumes v: "bucket_view h T t A M G r g" and granted: "\<not> refused (arena h)" and key: "key \<noteq> NULL"
    and ix: "ix = ht_index A key" and ps: "ps = lay_pairs g ! unat ix" and l: "l = lay_lists g ! unat ix"
    and pos: "pos = ht_pos (at_compare A) key (ht_bucket A key)" "pos < length (ht_bucket A key)"
    and kv: "ht_bucket A key ! pos = (k, u)"
    and w: "at_free_key A k (world h) = Some w1" "at_free_value A u w1 = Some w2"
    and ps': "ps' = take pos ps @ drop (Suc pos) ps"
  shows "\<exists>h'. generic_hash_table_delete (Some t) key h = Some (0, h')
    \<and> ll_rep h' (M(l \<mapsto> \<lparr>al_items = map Some ps', al_free = NULL, al_copy = NULL\<rparr>)) Map.empty
    \<and> iters h' = Map.empty \<and> kvs h' = (kvs h)(ps ! pos := None)
    \<and> tables h' = (tables h)(t \<mapsto> r\<lparr>ht_size := ht_size r - 1\<rparr>)
    \<and> world h' = w2 \<and> arena h' = tick (arena h) \<and> same_ht_frame h h'"
proof -
  have t: "tables h t = Some r" and ok: "table_ok M (kvs h) r g A" using v by (auto simp: bucket_view_def)
  have rf: "ht_hash_function r = Some (at_hash A)" "ht_compare_key_function r = Some (at_compare A)"
    "ht_free_key_function r = Some (at_free_key A)" "ht_free_value_function r = Some (at_free_value A)"
    using table_okD(1) [OF ok refl] by simp_all
  define h1 where "h1 = h\<lparr>tables := (tables h)(t \<mapsto> held (unat ix) r)\<rparr>"
  note b = view_bucket [OF v arg_cong [OF ix, of unat], folded l ps]
  obtain h2 h3 it where lock: "lock_bucket (Some t) ix h = Some h1" "get_bucket (Some t) ix h1 = Some (Some l)"
    and open_it: "generic_linked_list_iterator_begin (Some l) (Some NULL) h1 = Some (0, Some (Some it), h2)"
    and search: "search_loop (at_compare A) key (Some it) h2
      = Some (if pos < length (ht_bucket A key) then Found (Some (ps ! pos)) else Missing, h3)"
    and h3: "ll_rep h3 M [it \<mapsto> (l, Suc pos)]" "(iters h3)(it := None) = Map.empty"
      "arena h3 = tick (arena h)" "kept h1 h3"
    by (rule bucket_search [OF v granted ix l ps pos(1) h1_def])
  have pl: "pos < length ps" using pos(2) b(5) by simp
  have kvp: "kvs h (ps ! pos) = Some \<lparr>kv_key = k, kv_value = u\<rparr>"
    using arg_cong [OF b(3), of "\<lambda>xs. xs ! pos"] pl b(5) kv by simp
  let ?M = "M(l \<mapsto> \<lparr>al_items = map Some ps', al_free = NULL, al_copy = NULL\<rparr>)" and ?p = "ps ! pos"
  obtain h4 where h4: "generic_linked_list_iterator_remove (Some it) (Some (Some ?p)) h3 = Some (0, Some (Some ?p), h4)"
    "ll_rep h4 ?M [it \<mapsto> (l, Suc pos)]" "world h4 = world h" "iter_only it h3 h4" "arena h4 = tick (arena h)" "same_frame h1 h4"
    using iterator_remove_spec [OF h3(1) _ b(2), of it "Suc pos" "Some (Some ?p)" "Some (Some ?p)" "world h3"] pl h3(3,4)
    by (auto simp: al_give_def ps' take_map drop_map h1_def)
  have fr4: "kvs h4 = kvs h" "tables h4 = tables h1" "same_ht_frame h h4"
    using ht_frameD [OF h4(6)] by (auto simp: h1_def)
  let ?r = "(held (unat ix) r)\<lparr>ht_size := ht_size r - 1\<rparr>"
  define h5 where "h5 = h4\<lparr>world := w2, kvs := (kvs h)(?p := None), tables := (tables h)(t \<mapsto> ?r)\<rparr>"
  have rep5: "ll_rep h5 ?M [it \<mapsto> (l, Suc pos)]" by (rule ll_rep_cong [OF h4(2)]) (simp_all add: h5_def)
  obtain h6 where h6: "generic_linked_list_iterator_free (Some it) h5 = Some (0, h6)" "ll_rep h6 ?M Map.empty"
    "iters h6 = Map.empty" "arena h6 = tick (arena h)" "kept h5 h6"
    using iterator_free_spec [OF rep5, of it l "Suc pos"] h3(2) h4(4,5) by (auto simp: h5_def)
  have fr6: "kvs h6 = (kvs h)(?p := None)" "tables h6 = (tables h)(t \<mapsto> ?r)" "same_ht_frame h h6"
    using ht_frameD [of h5 h6] h6(5) fr4 by (auto simp: h5_def)
  define h' where "h' = h6\<lparr>tables := (tables h)(t \<mapsto> r\<lparr>ht_size := ht_size r - 1\<rparr>)\<rparr>"
  have unlock: "unlock_bucket (Some t) ix h6 = Some h'"
    using view_cells(3) [OF v ix, of h6 ?r] fr6(2) by (simp add: h'_def held_def)
  have "generic_hash_table_delete (Some t) key h = Some (0, h')"
    using t rf key lock open_it search pos(2) h4 fr4 kvp w h6(1) unlock view_cells(4) [OF v ix t]
    by (simp add: generic_hash_table_delete_def ht_simps Let_def h5_def h1_def held_def
        del: not_None_eq cong: if_cong)
  moreover have "ll_rep h' ?M Map.empty" by (rule ll_rep_cong [OF h6(2)]) (simp_all add: h'_def)
  ultimately show ?thesis using h6 fr6 by (intro exI [of _ h']) (simp add: h'_def h5_def)
qed

text \<open>It pops the latest value of the key and hands key and value to their callbacks.\<close>

lemma ht_delete_spec:
  fixes h :: "('k, 'v, 'w, 'z) hth"
  assumes rep: "ht_rep h T" "T t = Some A" and granted: "\<not> refused (arena h)" and key: "key \<noteq> NULL"
    and pos: "pos = ht_pos (at_compare A) key (ht_bucket A key)" "pos < length (ht_bucket A key)"
    and kv: "ht_bucket A key ! pos = (k, u)"
    and w: "at_free_key A k (world h) = Some w1" "at_free_value A u w1 = Some w2"
  shows "\<exists>h'. generic_hash_table_delete (Some t) key h = Some (0, h')
    \<and> ht_rep h' (T(t \<mapsto> with_bucket A key (take pos (ht_bucket A key) @ drop (Suc pos) (ht_bucket A key))))
    \<and> world h' = w2 \<and> arena h' = tick (arena h) \<and> same_ht_frame h h'"
proof -
  obtain M G r g where v: "bucket_view h T t A M G r g" by (rule bucket_viewE [OF rep])
  then have ok: "table_ok M (kvs h) r g A" by (auto simp: bucket_view_def)
  define ix where "ix = ht_index A key"
  define l where "l = lay_lists g ! unat ix"
  define ps where "ps = lay_pairs g ! unat ix"
  define ps' where "ps' = take pos ps @ drop (Suc pos) ps"
  define kv' where "kv' = take pos (ht_bucket A key) @ drop (Suc pos) (ht_bucket A key)"
  define A' where "A' = with_bucket A key kv'"
  note b = view_bucket [OF v arg_cong [OF ix_def, of unat], folded l_def ps_def]
  have pl: "pos < length ps" using pos(2) b(5) by simp
  note rem = remove_nth_distinct [OF b(4) pl ps'_def]
  obtain h' where h': "generic_hash_table_delete (Some t) key h = Some (0, h')"
    "ll_rep h' (M(l \<mapsto> \<lparr>al_items = map Some ps', al_free = NULL, al_copy = NULL\<rparr>)) Map.empty"
    "iters h' = Map.empty" "kvs h' = (kvs h)(ps ! pos := None)"
    "tables h' = (tables h)(t \<mapsto> r\<lparr>ht_size := ht_size r - 1\<rparr>)"
    "world h' = w2" "arena h' = tick (arena h)" "same_ht_frame h h'"
    using ht_delete_exec [OF v granted key ix_def ps_def l_def pos kv w ps'_def] by auto
  have "Suc (ht_count A') = ht_count A"
    using ht_count_update [OF b(1), of kv'] pos(2)
    by (simp add: A'_def kv'_def with_bucket_def ht_bucket_def ix_def)
  then have size: "ht_size r - 1 = of_nat (ht_count A')"
    using table_okD(1) [OF ok refl]
    by (metis add_diff_cancel_right' of_nat_Suc add.commute generic_hash_table_t.select_convs(2))
  have "ht_rep h' (T(t \<mapsto> A'))"
  proof (rule view_put [OF v arg_cong [OF ix_def, of unat] ps_def A'_def rem(1)])
    show "set ps' \<inter> (set (concat (lay_pairs g)) - set ps) = {}" using rem(2) by blast
    have "map (kvs h') ps' = map (kvs h) ps'" using rem(2) by (auto simp: h'(4))
    also have "\<dots> = map (\<lambda>p. Some \<lparr>kv_key = fst p, kv_value = snd p\<rparr>) kv'"
      unfolding ps'_def kv'_def map_take_drop b(3) ..
    finally show "map (kvs h') ps' = map (\<lambda>p. Some \<lparr>kv_key = fst p, kv_value = snd p\<rparr>) kv'" .
    show "kvs h' c = kvs h c" if "c \<notin> set ps" "c \<notin> set ps'" for c using that pl by (auto simp: h'(4))
    show "kvs h' c = None" if "c \<in> set ps" "c \<notin> set ps'" for c using that rem(2) by (auto simp: h'(4))
    show "kvs h c = None \<and> c \<in> {1..min (ticks (arena h')) block_limit}" if "c \<in> set ps'" "c \<notin> set ps" for c
      using that rem(2) by blast
  qed (use h' size in \<open>simp_all add: l_def\<close>)
  then show ?thesis using h' by (auto simp: A'_def kv'_def)
qed

subsection \<open>Requests the system refuses\<close>

lemma ht_lookup_refused:
  fixes h :: "('k, 'v, 'w, 'z) hth"
  assumes rep: "ht_rep h T" "T t = Some A" and refused: "refused (arena h)" and key: "key \<noteq> NULL"
  shows "\<exists>h'. generic_hash_table_get (Some t) key (Some x) h = Some (-1, Some x, h')
    \<and> generic_hash_table_contains (Some t) key h = Some (-1, h')
    \<and> generic_hash_table_delete (Some t) key h = Some (-1, h')
    \<and> ht_rep h' T \<and> world h' = world h \<and> arena h' = tick (arena h) \<and> same_ht_frame h h'"
proof -
  obtain M G r g where v: "bucket_view h T t A M G r g" by (rule bucket_viewE [OF rep])
  then have M: "ll_rep h M Map.empty" and iters: "iters h = Map.empty" and t: "tables h t = Some r"
    and ok: "table_ok M (kvs h) r g A" by (auto simp: bucket_view_def)
  have rf: "ht_hash_function r = Some (at_hash A)" "ht_compare_key_function r = Some (at_compare A)"
    using table_okD(1) [OF ok refl] by simp_all
  define ix where "ix = ht_index A key"
  define h1 where "h1 = h\<lparr>tables := (tables h)(t \<mapsto> held (unat ix) r)\<rparr>"
  define l where "l = lay_lists g ! unat ix"
  note cells = view_cells [OF v ix_def, folded l_def]
  have lock: "lock_bucket (Some t) ix h = Some h1" "get_bucket (Some t) ix h1 = Some (Some l)"
    using cells(2) [of h r] cells(1) [of h1 "held (unat ix) r"] t by (simp_all add: h1_def held_def)
  have M1: "ll_rep h1 M Map.empty" by (rule ll_rep_cong [OF M]) (simp_all add: h1_def)
  obtain h2 where h2: "generic_linked_list_iterator_begin (Some l) (Some NULL) h1 = Some (-1, Some NULL, h2)"
    "ll_rep h2 M Map.empty" "iters h2 = iters h1" "arena h2 = tick (arena h1)" "kept h1 h2"
    using open_refused [OF M1, of l NULL] refused by (auto simp: h1_def)
  have fr: "kvs h2 = kvs h" "tables h2 = tables h1" "same_ht_frame h h2"
    using ht_frameD [of h1 h2] h2(5) by (auto simp: h1_def)
  define h' where "h' = h2\<lparr>tables := tables h\<rparr>"
  have unlock: "unlock_bucket (Some t) ix h2 = Some h'"
    using cells(3) [of h2 "held (unat ix) r"] t fr(2) by (simp add: h'_def h1_def held_def fun_upd_idem)
  have "ht_rep h' T"
    by (rule view_keep [OF v]) (use h2 fr iters in \<open>simp_all add: h'_def h1_def ll_rep_cong [OF h2(2)]\<close>)
  moreover have "generic_hash_table_get (Some t) key (Some x) h = Some (-1, Some x, h')"
    "generic_hash_table_contains (Some t) key h = Some (-1, h')"
    "generic_hash_table_delete (Some t) key h = Some (-1, h')"
    using t rf key lock h2(1) unlock cells(4) [OF t]
    by (simp_all add: generic_hash_table_get_def generic_hash_table_contains_def generic_hash_table_delete_def
        ht_simps Let_def del: not_None_eq cong: if_cong)
  ultimately show ?thesis using h2 fr by (intro exI [of _ h']) (simp add: h'_def h1_def)
qed

lemma ht_insert_refused:
  fixes h :: "('k, 'v, 'w, 'z) hth"
  assumes rep: "ht_rep h T" "T t = Some A" and refused: "refused (arena h)" and key: "key \<noteq> NULL"
  shows "\<exists>h'. generic_hash_table_insert (Some t) key val h = Some (-1, h')
    \<and> ht_rep h' T \<and> world h' = world h \<and> arena h' = tick (arena h) \<and> same_ht_frame h h'"
proof -
  obtain M G r g where v: "bucket_view h T t A M G r g" by (rule bucket_viewE [OF rep])
  then have M: "ll_rep h M Map.empty" and iters: "iters h = Map.empty" and t: "tables h t = Some r"
    and ok: "table_ok M (kvs h) r g A" by (auto simp: bucket_view_def)
  have rf: "ht_hash_function r = Some (at_hash A)" using table_okD(1) [OF ok refl] by simp
  let ?h = "h\<lparr>arena := tick (arena h)\<rparr>"
  have "ht_rep ?h T" by (rule view_keep [OF v]) (use iters in \<open>simp_all add: ll_rep_cong [OF M]\<close>)
  with t rf key refused show ?thesis
    by (simp add: generic_hash_table_insert_def ht_simps Let_def del: not_None_eq)
qed

lemma ht_insert_copy_fails:
  fixes h :: "('k, 'v, 'w, 'z) hth"
  assumes rep: "ht_rep h T" "T t = Some A" and granted: "\<not> refused (arena h)" and key: "key \<noteq> NULL"
    and fails: "at_copy_key A key (world h) = Some (c, k', w) \<and> c \<noteq> 0
      \<or> at_copy_key A key (world h) = Some (0, k', w1) \<and> at_copy_value A val w1 = Some (c, v', w2) \<and> c \<noteq> 0
         \<and> at_free_key A k' w2 = Some w"
  shows "\<exists>h'. generic_hash_table_insert (Some t) key val h = Some (c, h')
    \<and> ht_rep h' T \<and> world h' = w \<and> arena h' = tick (arena h) \<and> same_ht_frame h h'"
proof -
  obtain M G r g where v: "bucket_view h T t A M G r g" by (rule bucket_viewE [OF rep])
  then have M: "ll_rep h M Map.empty" and iters: "iters h = Map.empty" and t: "tables h t = Some r"
    and ok: "table_ok M (kvs h) r g A" by (auto simp: bucket_view_def)
  have rf: "ht_hash_function r = Some (at_hash A)" "ht_copy_key_function r = Some (at_copy_key A)"
    "ht_copy_value_function r = Some (at_copy_value A)" "ht_free_key_function r = Some (at_free_key A)"
    using table_okD(1) [OF ok refl] by simp_all
  have "Suc (ticks (arena h)) \<notin> dom (kvs h)" using view_dom(2) [OF v] by auto
  then have fresh: "(kvs h)(Suc (ticks (arena h)) := None) = kvs h" by (simp add: domIff fun_upd_idem)
  obtain h' where h': "generic_hash_table_insert (Some t) key val h = Some (c, h')"
    "nodes h' = nodes h" "lists h' = lists h" "iters h' = iters h" "arena h' = tick (arena h)" "world h' = w"
    "kvs h' = kvs h" "tables h' = tables h" "same_ht_frame h h'"
    using fails t rf key granted fresh
    by (elim disjE) (auto simp: generic_hash_table_insert_def ht_simps Let_def intro!: that)
  moreover have "ht_rep h' T"
    by (rule view_keep [OF v]) (use h' iters in \<open>simp_all add: ll_rep_cong [OF M]\<close>)
  ultimately show ?thesis by blast
qed

text \<open>
  The defect of the insertion: when the node of the list cannot be allocated, the function
  returns with the mutex of the bucket locked, and every later operation on the bucket waits
  for ever.
\<close>

lemma insert_node_refused:
  assumes v: "bucket_view h T t A M G r g" and granted: "\<not> refused (arena h)" "refused (tick (arena h))"
    and key: "key \<noteq> NULL"
    and ck: "at_copy_key A key (world h) = Some (0, k', w1)" and cv: "at_copy_value A val w1 = Some (0, v', w2)"
    and fr: "at_free_value A v' w2 = Some w3" "at_free_key A k' w3 = Some w4"
  shows "\<exists>h'. generic_hash_table_insert (Some t) key val h = Some (-1, h')
    \<and> tables h' t = Some (held (unat (ht_index A key)) r) \<and> world h' = w4"
proof -
  from v have t: "tables h t = Some r" and ok: "table_ok M (kvs h) r g A" by (auto simp: bucket_view_def)
  have rf: "ht_free_key_function r = Some (at_free_key A)" "ht_free_value_function r = Some (at_free_value A)"
    using table_okD(1) [OF ok refl] by simp_all
  define ix where "ix = ht_index A key"
  define l where "l = lay_lists g ! unat ix"
  note cells = view_cells [OF v ix_def, folded l_def]
  define h1 where "h1 = h\<lparr>arena := tick (arena h), world := w2,
     kvs := (kvs h)(Suc (ticks (arena h)) \<mapsto> \<lparr>kv_key = k', kv_value = v'\<rparr>)\<rparr>"
  define h2 where "h2 = h1\<lparr>tables := (tables h)(t \<mapsto> held (unat ix) r)\<rparr>"
  have lock: "lock_bucket (Some t) ix h1 = Some h2" "get_bucket (Some t) ix h2 = Some (Some l)"
    using cells(2) [of h1 r] cells(1) [of h2 "held (unat ix) r"] t by (simp_all add: h1_def h2_def held_def)
  show ?thesis
    unfolding ix_def [symmetric]
    using insert_prefix [OF v key granted(1) ck cv] lock granted(2) rf fr
    by (auto simp: insert_locked_def ix_def [symmetric] h1_def [symmetric])
      (auto simp: h2_def h1_def generic_linked_list_insert_first_def ht_simps)
qed

lemma ht_insert_keeps_lock:
  fixes h :: "('k, 'v, 'w, 'z) hth"
  assumes rep: "ht_rep h T" "T t = Some A" and granted: "\<not> refused (arena h)" "refused (tick (arena h))"
    and key: "key \<noteq> NULL"
    and ck: "at_copy_key A key (world h) = Some (0, k', w1)" and cv: "at_copy_value A val w1 = Some (0, v', w2)"
    and fr: "at_free_value A v' w2 = Some w3" "at_free_key A k' w3 = Some w4"
    and same: "key' \<noteq> NULL" "ht_index A key' = ht_index A key"
  shows "\<exists>h'. generic_hash_table_insert (Some t) key val h = Some (-1, h')
    \<and> generic_hash_table_get (Some t) key' (Some x) h' = None
    \<and> generic_hash_table_contains (Some t) key' h' = None
    \<and> generic_hash_table_delete (Some t) key' h' = None"
proof -
  obtain M G r g where v: "bucket_view h T t A M G r g" by (rule bucket_viewE [OF rep])
  then have M: "ll_rep h M Map.empty" and t: "tables h t = Some r"
    and ok: "table_ok M (kvs h) r g A" by (auto simp: bucket_view_def)
  have rf: "ht_free_key_function r = Some (at_free_key A)" "ht_free_value_function r = Some (at_free_value A)"
    "ht_hash_function r = Some (at_hash A)" "ht_compare_key_function r = Some (at_compare A)"
    using table_okD(1) [OF ok refl] by simp_all
  define ix where "ix = ht_index A key"
  obtain h' where h': "generic_hash_table_insert (Some t) key val h = Some (-1, h')"
    "tables h' t = Some (held (unat ix) r)"
    using insert_node_refused [OF v granted key ck cv fr] by (auto simp: ix_def)
  have idx: "at_hash A key' mod ht_capacity r = ix"
    using view_cells(4) [OF v refl t, of key'] same(2) by (simp add: ix_def)
  have "unat ix < length (at_buckets A)" using view_bucket(1) [OF v refl, of key] by (simp add: ix_def)
  then have "lock_bucket (Some t) ix h' = None"
    using h'(2) table_okD(1) [OF ok refl] by (simp add: lock_bucket_def get_mutex_def table_at_def held_def)
  with h' rf same(1) idx show ?thesis
    by (simp add: generic_hash_table_get_def generic_hash_table_contains_def generic_hash_table_delete_def
        ht_simps held_def Let_def del: not_None_eq)
qed

section \<open>The dictionary contract\<close>

text \<open>
  The client's callbacks obey the laws of keys, copies compare equal to their originals, and the
  free callbacks always return.
\<close>

definition at_lawful :: "('k, 'v, 'w) atable \<Rightarrow> bool" where
  "at_lawful A \<longleftrightarrow> key_laws (at_hash A) (at_compare A)
     \<and> (\<forall>k w r k' w'. at_copy_key A k w = Some (r, k', w') \<and> r = 0 \<longrightarrow> at_compare A k k' = 0)
     \<and> (\<forall>k w. at_free_key A k w \<noteq> None) \<and> (\<forall>v w. at_free_value A v w \<noteq> None)"

definition at_same :: "('k, 'v, 'w) atable \<Rightarrow> 'k ptr \<Rightarrow> 'k ptr \<Rightarrow> bool" where
  "at_same A k k' \<longleftrightarrow> at_compare A k k' = 0"

text \<open>The effect of the callbacks in an insertion and in a deletion that succeed.\<close>

definition at_copies :: "('k, 'v, 'w) atable \<Rightarrow> 'k ptr \<Rightarrow> 'v ptr \<Rightarrow> 'w \<Rightarrow> ('v ptr \<times> 'w) option" where
  "at_copies A k v w = do {
     (r, k', w) \<leftarrow> at_copy_key A k w;
     if r \<noteq> 0 then None else do {
       (r, v', w) \<leftarrow> at_copy_value A v w;
       if r \<noteq> 0 then None else Some (v', w) } }"

definition at_release :: "('k, 'v, 'w) atable \<Rightarrow> 'k ptr \<Rightarrow> 'w \<Rightarrow> 'w option" where
  "at_release A k w = (let kv = ht_bucket A k; pos = ht_pos (at_compare A) k kv in do {
     w \<leftarrow> at_free_key A (fst (kv ! pos)) w;
     at_free_value A (snd (kv ! pos)) w })"

lemma with_bucket_simps [simp]:
  "at_hash (with_bucket A k kv) = at_hash A" "at_compare (with_bucket A k kv) = at_compare A"
  "at_copy_key (with_bucket A k kv) = at_copy_key A" "ht_index (with_bucket A k kv) = ht_index A"
  "length (at_buckets (with_bucket A k kv)) = length (at_buckets A)"
  by (auto simp: with_bucket_def ht_index_def fun_eq_iff)

lemma ht_bucket_with_bucket:
  assumes "unat (ht_index A k) < length (at_buckets A)"
  shows "ht_bucket (with_bucket A k kv) k' = (if ht_index A k' = ht_index A k then kv else ht_bucket A k')"
proof -
  have "unat (ht_index A k') = unat (ht_index A k) \<longleftrightarrow> ht_index A k' = ht_index A k"
    by (metis word_unat_eq_iff)
  then show ?thesis using assms by (auto simp: ht_bucket_def with_bucket_def ht_index_def nth_list_update)
qed

lemma at_lawfulD:
  assumes "at_lawful A"
  shows "key_laws (at_hash A) (at_compare A)"
    and "at_copy_key A k w = Some (0, k', w') \<Longrightarrow> at_compare A k k' = 0"
    and "\<exists>w'. at_free_key A k w = Some w'" and "\<exists>w'. at_free_value A v w = Some w'"
  using assms by (auto simp: at_lawful_def)

lemma at_lawful_with_bucket [simp]: "at_lawful (with_bucket A k kv) = at_lawful A"
  by (simp add: at_lawful_def with_bucket_def)

lemma ht_stack_push:
  assumes laws: "key_laws (at_hash A) (at_compare A)" and "unat (ht_index A k) < length (at_buckets A)" and "at_compare A k c = 0"
  shows "ht_stack (with_bucket A k ((c, v) # ht_bucket A k)) k'
    = (if at_compare A k' k = 0 then v # ht_stack A k' else ht_stack A k')"
proof -
  have hk: "at_compare A k' k = 0 \<Longrightarrow> ht_index A k' = ht_index A k"
    using key_laws.hash_compat [OF laws] by (simp add: ht_index_def)
  have ck: "at_compare A k' c = 0 \<longleftrightarrow> at_compare A k' k = 0"
    using key_laws.compare_cong(2) [OF laws assms(3)] by simp
  show ?thesis
  proof (cases "ht_index A k' = ht_index A k")
    case True
    then have "ht_bucket A k' = ht_bucket A k" by (simp add: ht_bucket_def)
    with True ck show ?thesis by (simp add: ht_stack_def ht_bucket_with_bucket [OF assms(2)])
  next
    case False
    with hk show ?thesis by (auto simp: ht_stack_def ht_bucket_with_bucket [OF assms(2)])
  qed
qed

lemma ht_stack_pop:
  assumes "at_lawful A" and "unat (ht_index A k) < length (at_buckets A)"
    and pos: "pos = ht_pos (at_compare A) k (ht_bucket A k)" "pos < length (ht_bucket A k)"
  shows "ht_stack (with_bucket A k (take pos (ht_bucket A k) @ drop (Suc pos) (ht_bucket A k))) k'
    = (if at_compare A k' k = 0 then tl (ht_stack A k') else ht_stack A k')"
proof -
  note laws = at_lawfulD(1) [OF assms(1)]
  have hk: "at_compare A k' k = 0 \<Longrightarrow> ht_index A k' = ht_index A k"
    using key_laws.hash_compat [OF laws] by (simp add: ht_index_def)
  let ?b = "ht_bucket A k"
  have split: "?b = take pos ?b @ ?b ! pos # drop (Suc pos) ?b" using pos(2) by (rule id_take_nth_drop)
  have hit: "at_compare A k (fst (?b ! pos)) = 0" using ht_pos_match pos by blast
  show ?thesis
  proof (cases "ht_index A k' = ht_index A k")
    case True
    then have b: "ht_bucket A k' = ?b" by (simp add: ht_bucket_def)
    have eq: "ht_stack (with_bucket A k (take pos ?b @ drop (Suc pos) ?b)) k'
        = map snd (filter (\<lambda>p. at_compare A k' (fst p) = 0) (take pos ?b @ drop (Suc pos) ?b))"
      using True by (simp add: ht_stack_def ht_bucket_with_bucket [OF assms(2)])
    show ?thesis
    proof (cases "at_compare A k' k = 0")
      case True
      then have fe: "(\<lambda>p. at_compare A k' (fst p) = 0) = (\<lambda>p. at_compare A k (fst p) = 0)"
        using key_laws.compare_cong(1) [OF laws] by blast
      have "ht_stack A k' = ht_stack A k" unfolding ht_stack_def b fe ..
      with True ht_stack_pos(2) [OF pos] show ?thesis unfolding eq fe by simp
    next
      case False
      then have "at_compare A k' (fst (?b ! pos)) \<noteq> 0"
        using key_laws.compare_cong(2) [OF laws hit, of k'] by simp
      then have "filter (\<lambda>p. at_compare A k' (fst p) = 0) ?b
          = filter (\<lambda>p. at_compare A k' (fst p) = 0) (take pos ?b @ drop (Suc pos) ?b)"
        by (subst split) simp
      with False show ?thesis unfolding eq by (simp add: ht_stack_def b)
    qed
  next
    case False
    with hk show ?thesis by (auto simp: ht_stack_def ht_bucket_with_bucket [OF assms(2)])
  qed
qed

interpretation ht: dictionary ht_rep at_lawful at_same ht_stack at_copies at_release
  generic_hash_table_insert generic_hash_table_get generic_hash_table_delete arena world
proof
  fix A :: "('k, 'v, 'w) atable" and k w
  assume A: "at_lawful A"
  show "at_same A k k" using key_laws.compare_refl [OF at_lawfulD(1) [OF A]] by (simp add: at_same_def)
  show "\<exists>w'. at_release A k w = Some w'"
    using at_lawfulD(3,4) [OF A] by (metis (no_types, lifting) at_release_def bind.bind_lunit)
next
  fix h :: "('k, 'v, 'w, 'z) hth" and T t and A :: "('k, 'v, 'w) atable" and k v v' w
  assume rep: "ht_rep h T" "T t = Some A" and A: "at_lawful A" and k: "k \<noteq> NULL" and g: "grants 2 (arena h)"
    and c: "at_copies A k v (world h) = Some (v', w)"
  obtain c w1 where cs: "at_copy_key A k (world h) = Some (0, c, w1)" "at_copy_value A v w1 = Some (0, v', w)"
    using c by (auto simp: at_copies_def bind_eq_Some_conv split: if_splits)
  obtain M G r g where v: "bucket_view h T t A M G r g" by (rule bucket_viewE [OF rep])
  let ?A = "with_bucket A k ((c, v') # ht_bucket A k)"
  have "\<forall>k'. ht_stack ?A k' = (if at_same A k' k then v' # ht_stack A k' else ht_stack A k')"
    using ht_stack_push [OF at_lawfulD(1) [OF A] view_bucket(1) [OF v refl] at_lawfulD(2) [OF A cs(1)]] by (simp add: at_same_def)
  with ht_insert_spec [OF rep g k cs] A
  show "\<exists>h' A'. generic_hash_table_insert (Some t) k v h = Some (0, h') \<and> ht_rep h' (T(t \<mapsto> A')) \<and> at_lawful A'
      \<and> at_same A' = at_same A \<and> (\<forall>k'. ht_stack A' k' = (if at_same A k' k then v' # ht_stack A k' else ht_stack A k'))
      \<and> world h' = w \<and> arena h' = (tick ^^ 2) (arena h)"
    by (auto simp: at_same_def fun_eq_iff eval_nat_numeral intro!: exI [of _ ?A])
next
  fix h :: "('k, 'v, 'w, 'z) hth" and T t and A :: "('k, 'v, 'w) atable" and k :: "'k ptr" and x :: "'v ptr"
  assume "ht_rep h T" "T t = Some A" "k \<noteq> NULL" "\<not> refused (arena h)"
  with ht_get_spec [OF this(1,2) this(4,3), of x]
  show "\<exists>h'. generic_hash_table_get (Some t) k (Some x) h
      = Some (case ht_stack A k of [] \<Rightarrow> (1, Some NULL, h') | u # _ \<Rightarrow> (0, Some u, h'))
    \<and> ht_rep h' T \<and> world h' = world h \<and> arena h' = tick (arena h)" by blast
next
  fix h :: "('k, 'v, 'w, 'z) hth" and T t and A :: "('k, 'v, 'w) atable" and k w
  assume rep: "ht_rep h T" "T t = Some A" and A: "at_lawful A" and k: "k \<noteq> NULL" and g: "\<not> refused (arena h)"
    and s: "ht_stack A k \<noteq> []" and w: "at_release A k (world h) = Some w"
  define pos where "pos = ht_pos (at_compare A) k (ht_bucket A k)"
  have pos: "pos < length (ht_bucket A k)"
    using s ht_stack_pos(1) [OF pos_def] ht_pos_le [of "at_compare A" k "ht_bucket A k"] by (simp add: pos_def)
  obtain c u where cu: "ht_bucket A k ! pos = (c, u)" by fastforce
  obtain w1 where ws: "at_free_key A c (world h) = Some w1" "at_free_value A u w1 = Some w"
    using w cu by (auto simp: at_release_def Let_def pos_def [symmetric] bind_eq_Some_conv)
  obtain M G r g where v: "bucket_view h T t A M G r g" by (rule bucket_viewE [OF rep])
  let ?A = "with_bucket A k (take pos (ht_bucket A k) @ drop (Suc pos) (ht_bucket A k))"
  have "\<forall>k'. ht_stack ?A k' = (if at_same A k' k then tl (ht_stack A k') else ht_stack A k')"
    using ht_stack_pop [OF A view_bucket(1) [OF v refl] pos_def pos] by (simp add: at_same_def)
  with ht_delete_spec [OF rep g k pos_def pos cu ws] A
  show "\<exists>h' A'. generic_hash_table_delete (Some t) k h = Some (0, h') \<and> ht_rep h' (T(t \<mapsto> A')) \<and> at_lawful A'
      \<and> at_same A' = at_same A \<and> (\<forall>k'. ht_stack A' k' = (if at_same A k' k then tl (ht_stack A k') else ht_stack A k'))
      \<and> world h' = w \<and> arena h' = tick (arena h)"
    by (auto simp: at_same_def fun_eq_iff intro!: exI [of _ ?A])
qed

section \<open>Reading the fields\<close>

lemma ht_rep_index:
  assumes "ht_rep h T" and "T t = Some A"
  shows "unat (ht_index A key) < length (at_buckets A)"
  by (rule bucket_viewE [OF assms]) (rule view_bucket(1) [OF _ refl])

lemma ht_count_concat: "ht_count A = length (concat (at_buckets A))"
  by (simp add: ht_count_def length_concat)

text \<open>The pairs are distinct blocks, so that their number fits the counter.\<close>

lemma ht_count_bound:
  assumes "ht_rep h T" and "T t = Some A"
  shows "ht_count A \<le> block_limit"
proof -
  obtain M G r g where v: "bucket_view h T t A M G r g" by (rule bucket_viewE [OF assms])
  then have ok: "table_ok M (kvs h) r g A" by (simp add: bucket_view_def)
  note D = table_okD [OF ok refl]
  have "map length (lay_pairs g) = map length (at_buckets A)"
  proof (rule nth_equalityI)
    fix i assume "i < length (map length (lay_pairs g))"
    then have "bucket_ok M (kvs h) (lay_lists g ! i) (lay_pairs g ! i) (at_buckets A ! i)"
      using D(5,8) by simp
    then have "map (kvs h) (lay_pairs g ! i) = map (\<lambda>p. Some \<lparr>kv_key = fst p, kv_value = snd p\<rparr>) (at_buckets A ! i)"
      by (simp add: bucket_ok_def)
    then have "length (lay_pairs g ! i) = length (at_buckets A ! i)" by (rule map_eq_imp_length_eq)
    with D(5) \<open>i < _\<close> show "map length (lay_pairs g) ! i = map length (at_buckets A) ! i" by simp
  qed (use D(5) in simp)
  then have "ht_count A = length (concat (lay_pairs g))" by (simp add: ht_count_def length_concat)
  also have "\<dots> \<le> block_limit"
  proof (rule distinct_bounded_length [OF D(7)])
    have "set (concat (lay_pairs g)) \<subseteq> {1..min (ticks (arena h)) block_limit}"
      by (rule order_trans [OF view_dom [OF v]])
    also have "\<dots> \<subseteq> {1..block_limit}" by simp
    finally show "set (concat (lay_pairs g)) \<subseteq> {1..block_limit}" .
  qed
  finally show ?thesis .
qed

lemma ht_readers:
  assumes "ht_rep h T" and "T t = Some A"
  shows ht_size_spec: "generic_hash_table_get_size (Some t) (Some x) h = Some (0, Some (of_nat (ht_count A)))"
    and ht_capacity_spec: "generic_hash_table_get_capacity (Some t) (Some x) h
      = Some (0, Some (of_nat (length (at_buckets A))))"
    and ht_is_empty_spec: "generic_hash_table_is_empty (Some t) h = Some (if concat (at_buckets A) = [] then 1 else 0)"
proof -
  obtain M G r g where v: "bucket_view h T t A M G r g" by (rule bucket_viewE [OF assms])
  then have r: "tables h t = Some r" and ok: "table_ok M (kvs h) r g A" by (simp_all add: bucket_view_def)
  note D = table_okD(1) [OF ok refl]
  show "generic_hash_table_get_size (Some t) (Some x) h = Some (0, Some (of_nat (ht_count A)))"
    and "generic_hash_table_get_capacity (Some t) (Some x) h = Some (0, Some (of_nat (length (at_buckets A))))"
    using r by (simp_all add: generic_hash_table_get_size_def generic_hash_table_get_capacity_def ht_getter_def table_at_def D)
  show "generic_hash_table_is_empty (Some t) h = Some (if concat (at_buckets A) = [] then 1 else 0)"
    using r of_nat_eq_0_size_t [OF ht_count_bound [OF assms]]
    by (simp add: generic_hash_table_is_empty_def table_at_def D ht_count_concat)
qed

end
