(* ===== verification/Broker_Strings.thy ===== *)
theory Broker_Strings
  imports Hash_Table
begin

text \<open>
  The callbacks that the message broker passes to its table of channels, from
  \<^verbatim>\<open>src/message_broker.c\<close>: the hash, comparison, copy and free functions on C strings and the
  copy function on channels.  A C string is the list of its bytes; it ends at the first null
  byte, or at the end of the list, where the terminator stands.  The functions are never
  called with \<open>NULL\<close> by the table, which rejects null keys; the value for \<open>NULL\<close> only completes
  the definitions.  The interpretation of \<open>key_laws\<close> shows that they are fit to be the callbacks of
  a hash table.
\<close>

section \<open>Definitions\<close>

text \<open>The loop \<open>while (*p) hash = ((hash << 5) + hash) + *p++\<close>.\<close>

fun string_hash_loop :: "size_t \<Rightarrow> string \<Rightarrow> size_t" where
  "string_hash_loop hash [] = hash"
| "string_hash_loop hash (c # p) =
     (if c = CHR 0x00 then hash
      else string_hash_loop ((push_bit 5 hash + hash) + of_char c) p)"

definition string_hash :: "string hash_fn" where
  "string_hash key = (case key of NULL \<Rightarrow> 5381 | Some s \<Rightarrow> string_hash_loop 5381 s)"

text \<open>\<open>strcmp\<close>: the sign of the difference of the first bytes, as unsigned chars, that differ.\<close>

fun strcmp :: "string \<Rightarrow> string \<Rightarrow> int" where
  "strcmp [] [] = 0"
| "strcmp [] (d # t) = (if d = CHR 0x00 then 0 else -1)"
| "strcmp (c # s) [] = (if c = CHR 0x00 then 0 else 1)"
| "strcmp (c # s) (d # t) =
     (if of_char c < (of_char d :: int) then -1
      else if of_char d < (of_char c :: int) then 1
      else if c = CHR 0x00 then 0
      else strcmp s t)"

definition string_compare :: "string compare_fn" where
  "string_compare a b = (case (a, b) of
     (Some s, Some t) \<Rightarrow> strcmp s t
   | (NULL, NULL) \<Rightarrow> 0
   | (NULL, Some _) \<Rightarrow> -1
   | (Some _, NULL) \<Rightarrow> 1)"

text \<open>
  \<open>strlen\<close>, \<open>malloc\<close> and \<open>memcpy\<close> of the bytes up to the terminator.  The state of the string
  callbacks is the allocator.
\<close>

definition c_str :: "string \<Rightarrow> string" where
  "c_str s = takeWhile (\<lambda>c. c \<noteq> CHR 0x00) s"

definition string_copy :: "(string, allocator) copy_fn" where
  "string_copy src w = (case src of NULL \<Rightarrow> Some (1, NULL, w)
   | Some s \<Rightarrow> (case malloc w of
       (NULL, w) \<Rightarrow> Some (-1, NULL, w)
     | (Some _, w) \<Rightarrow> Some (0, Some (c_str s), w)))"

definition string_free :: "(string, allocator) free_fn" where
  "string_free data w = Some w"

text \<open>\<open>_channel_copy\<close>, and in the same words \<open>_subscriber_proxy_copy\<close>: the copy of a pointer.\<close>

definition channel_copy :: "('c, 'w) copy_fn" where
  "channel_copy src w = (if src = NULL then Some (1, NULL, w) else Some (0, src, w))"

definition subscriber_proxy_copy :: "('c, 'w) copy_fn" where
  "subscriber_proxy_copy src w = (if src = NULL then Some (1, NULL, w) else Some (0, src, w))"

section \<open>Lemmas\<close>

lemma strcmp_eq_0: "strcmp s t = 0 \<longleftrightarrow> c_str s = c_str t"
  by (induction s t rule: strcmp.induct) (auto simp: c_str_def not_less_iff_gr_or_eq)

lemma string_hash_loop_c_str: "string_hash_loop h (c_str s) = string_hash_loop h s"
  by (induction s arbitrary: h) (simp_all add: c_str_def)

lemma string_compare_eq_0: "string_compare a b = 0 \<longleftrightarrow> map_option c_str a = map_option c_str b"
  by (cases a; cases b) (simp_all add: string_compare_def strcmp_eq_0)

interpretation broker_keys: key_laws string_hash string_compare
proof
  fix a b
  assume "string_compare a b = 0"
  then have eq: "map_option c_str a = map_option c_str b" by (simp add: string_compare_eq_0)
  show "string_hash a = string_hash b"
  proof (cases a)
    case (Some s)
    with eq obtain t where t: "b = Some t" "c_str s = c_str t" by (cases b) auto
    then have "string_hash_loop 5381 s = string_hash_loop 5381 t"
      using string_hash_loop_c_str [of 5381 s] string_hash_loop_c_str [of 5381 t] by simp
    with Some t(1) show ?thesis by (simp add: string_hash_def)
  qed (use eq in \<open>cases b; simp\<close>)
qed (simp_all add: string_compare_eq_0)

text \<open>A copied key compares equal to the original.\<close>

lemma c_str_idem [simp]: "c_str (c_str s) = c_str s"
  unfolding c_str_def by (rule takeWhile_idem)

lemma string_copy_same: "string_copy k w = Some (0, k', w') \<Longrightarrow> string_compare k k' = 0"
  by (auto simp: string_copy_def string_compare_eq_0 split: option.splits prod.splits)

end
