(* ===== verification/Subscriber.thy ===== *)
theory Subscriber
  imports Queue_Syn Broker_Strings
begin

text \<open>
  Messages and subscriber proxies of \<^verbatim>\<open>src/message_broker.c\<close>.  A proxy owns a synchronised queue, its
  inbox, of pointers to messages.

  The state is layered as the ownership is: a \<open>message_store\<close> holds the messages; the heap of the
  inboxes has it as the state on which its callbacks act; a \<open>proxy_store\<close> holds the proxies and that
  heap.  Each layer has an allocator of its own; as their outcomes are arbitrary, this admits every
  behaviour of a common one.  A C string that a struct owns is a value of the struct, obtained by one
  request to the allocator, and goes with the struct.  Condition variables have no state of their own:
  signalling is not observed within one call, and waiting, which needs another thread, is the
  absence of a result.

  \<open>px_rep w X D\<close> relates a store to its content: \<open>X\<close> gives the identity, the flag and the queued
  messages of every proxy, \<open>D\<close> the messages that are in no inbox.
\<close>

section \<open>Messages\<close>

record message_t =
  msg_id :: uint64_t
  msg_channel_name :: "string ptr"
  msg_content :: "string ptr"

record message_store =
  messages :: "addr \<rightharpoonup> message_t"
  msg_arena :: allocator

text \<open>The sequence \<open>strlen\<close>, \<open>malloc\<close>, \<open>memcpy\<close>, with the pointer that \<open>malloc\<close> returned.\<close>

definition dup_string :: "string ptr \<Rightarrow> allocator \<Rightarrow> string ptr \<times> allocator" where
  "dup_string s A = (case malloc A of (NULL, A) \<Rightarrow> (NULL, A) | (Some _, A) \<Rightarrow> (map_option c_str s, A))"

definition malloc_message :: "message_store \<Rightarrow> addr ptr \<times> message_store" where
  "malloc_message w = (case malloc (msg_arena w) of
     (NULL, A) \<Rightarrow> (NULL, w\<lparr>msg_arena := A\<rparr>)
   | (Some a, A) \<Rightarrow> (Some a, w\<lparr>msg_arena := A, messages := (messages w)(a \<mapsto>
       \<lparr>msg_id = 0, msg_channel_name = NULL, msg_content = NULL\<rparr>)\<rparr>))"

definition modify_message :: "addr ptr \<Rightarrow> (message_t \<Rightarrow> message_t) \<Rightarrow> message_store \<Rightarrow> message_store option" where
  "modify_message p f w = do {
     a \<leftarrow> p;
     m \<leftarrow> messages w a;
     Some (w\<lparr>messages := (messages w)(a \<mapsto> f m)\<rparr>) }"

definition message_at :: "message_store \<Rightarrow> addr ptr \<Rightarrow> message_t option" where
  "message_at w p = Option.bind p (messages w)"

definition free_message :: "addr ptr \<Rightarrow> message_store \<Rightarrow> message_store option" where
  "free_message p w = (case p of NULL \<Rightarrow> Some w
     | Some a \<Rightarrow> if messages w a = None then None else Some (w\<lparr>messages := (messages w)(a := None)\<rparr>))"

definition message_new ::
  "uint64_t \<Rightarrow> string ptr \<Rightarrow> string ptr \<Rightarrow> addr ptr out \<Rightarrow> message_store
     \<Rightarrow> (exit_code \<times> addr ptr out \<times> message_store) option" where
  "message_new mid channel_name content out_self w =
     (if channel_name = NULL then Some (1, out_self, w)
      else if content = NULL then Some (1, out_self, w)
      else if out_self = NULL then Some (1, out_self, w)
      else do {
        let (self, w) = malloc_message w;
        if self = NULL then Some (-1, out_self, w)
        else do {
          w \<leftarrow> modify_message self (\<lambda>m. m\<lparr>msg_id := mid\<rparr>) w;
          let (copy, A) = dup_string channel_name (msg_arena w);
          w \<leftarrow> modify_message self (\<lambda>m. m\<lparr>msg_channel_name := copy\<rparr>) (w\<lparr>msg_arena := A\<rparr>);
          if copy = NULL then do {
            w \<leftarrow> free_message self w;
            Some (-1, out_self, w) }
          else do {
            let (copy, A) = dup_string content (msg_arena w);
            w \<leftarrow> modify_message self (\<lambda>m. m\<lparr>msg_content := copy\<rparr>) (w\<lparr>msg_arena := A\<rparr>);
            if copy = NULL then do {
              w \<leftarrow> free_message self w;
              Some (-1, out_self, w) }
            else Some (0, Some self, w) } } })"

definition message_free :: "addr ptr \<Rightarrow> message_store \<Rightarrow> (exit_code, message_store) res" where
  "message_free self w =
     (if self = NULL then Some (1, w)
      else do {
        w \<leftarrow> free_message self w;
        Some (0, w) })"

definition message_get_id :: "addr ptr \<Rightarrow> uint64_t out \<Rightarrow> message_store \<Rightarrow> (exit_code \<times> uint64_t out) option" where
  "message_get_id self out_id w =
     (if self = NULL then Some (1, out_id)
      else if out_id = NULL then Some (1, out_id)
      else do {
        m \<leftarrow> message_at w self;
        Some (0, Some (msg_id m)) })"

definition message_get_channel :: "addr ptr \<Rightarrow> string ptr out \<Rightarrow> message_store \<Rightarrow> (exit_code \<times> string ptr out) option" where
  "message_get_channel self out_channel w =
     (if self = NULL then Some (1, out_channel)
      else if out_channel = NULL then Some (1, out_channel)
      else do {
        m \<leftarrow> message_at w self;
        Some (0, Some (msg_channel_name m)) })"

definition message_get_content :: "addr ptr \<Rightarrow> string ptr out \<Rightarrow> message_store \<Rightarrow> (exit_code \<times> string ptr out) option" where
  "message_get_content self out_content w =
     (if self = NULL then Some (1, out_content)
      else if out_content = NULL then Some (1, out_content)
      else do {
        m \<leftarrow> message_at w self;
        Some (0, Some (msg_content m)) })"

definition message_free_wrapper :: "(addr, message_store) free_fn" where
  "message_free_wrapper data w =
     (if data = NULL then Some w
      else do {
        (_, w) \<leftarrow> message_free data w;
        Some w })"

section \<open>Proxies\<close>

record subscriber_proxy_t =
  px_id :: uint64_t
  px_inbox :: "addr ptr"
  px_inbox_mutex :: pthread_mutex_t
  px_active :: bool

record proxy_store =
  proxies :: "addr \<rightharpoonup> subscriber_proxy_t"
  px_arena :: allocator
  inboxes :: "(addr, message_store) qs_heap"

definition malloc_proxy :: "proxy_store \<Rightarrow> addr ptr \<times> proxy_store" where
  "malloc_proxy w = (case malloc (px_arena w) of
     (NULL, A) \<Rightarrow> (NULL, w\<lparr>px_arena := A\<rparr>)
   | (Some a, A) \<Rightarrow> (Some a, w\<lparr>px_arena := A, proxies := (proxies w)(a \<mapsto>
       \<lparr>px_id = 0, px_inbox = NULL, px_inbox_mutex = Unlocked, px_active = False\<rparr>)\<rparr>))"

definition proxy_at :: "proxy_store \<Rightarrow> addr ptr \<Rightarrow> subscriber_proxy_t option" where
  "proxy_at w p = Option.bind p (proxies w)"

definition modify_proxy ::
  "addr ptr \<Rightarrow> (subscriber_proxy_t \<Rightarrow> subscriber_proxy_t) \<Rightarrow> proxy_store \<Rightarrow> proxy_store option" where
  "modify_proxy p f w = do {
     a \<leftarrow> p;
     x \<leftarrow> proxies w a;
     Some (w\<lparr>proxies := (proxies w)(a \<mapsto> f x)\<rparr>) }"

definition free_proxy :: "addr ptr \<Rightarrow> proxy_store \<Rightarrow> proxy_store option" where
  "free_proxy p w = (case p of NULL \<Rightarrow> Some w
     | Some a \<Rightarrow> if proxies w a = None then None else Some (w\<lparr>proxies := (proxies w)(a := None)\<rparr>))"

definition lock_inbox :: "addr ptr \<Rightarrow> proxy_store \<Rightarrow> proxy_store option" where
  "lock_inbox p w = do {
     x \<leftarrow> proxy_at w p;
     m \<leftarrow> pthread_mutex_lock (px_inbox_mutex x);
     modify_proxy p (\<lambda>x. x\<lparr>px_inbox_mutex := m\<rparr>) w }"

definition unlock_inbox :: "addr ptr \<Rightarrow> proxy_store \<Rightarrow> proxy_store option" where
  "unlock_inbox p w = do {
     x \<leftarrow> proxy_at w p;
     m \<leftarrow> pthread_mutex_unlock (px_inbox_mutex x);
     modify_proxy p (\<lambda>x. x\<lparr>px_inbox_mutex := m\<rparr>) w }"

definition destroy_inbox_mutex :: "addr ptr \<Rightarrow> proxy_store \<Rightarrow> unit option" where
  "destroy_inbox_mutex p w = do {
     x \<leftarrow> proxy_at w p;
     pthread_mutex_destroy (px_inbox_mutex x) }"

text \<open>A call on the heap of the inboxes.\<close>

definition on_inboxes ::
  "((addr, message_store) qs_heap \<Rightarrow> ('r \<times> (addr, message_store) qs_heap) option) \<Rightarrow> proxy_store \<Rightarrow> ('r \<times> proxy_store) option" where
  "on_inboxes f w = do {
     (r, h) \<leftarrow> f (inboxes w);
     Some (r, w\<lparr>inboxes := h\<rparr>) }"

definition subscriber_proxy_new ::
  "uint64_t \<Rightarrow> addr ptr out \<Rightarrow> proxy_store \<Rightarrow> (exit_code \<times> addr ptr out \<times> proxy_store) option" where
  "subscriber_proxy_new sid out_self w =
     (if out_self = NULL then Some (1, out_self, w)
      else do {
        let (self, w) = malloc_proxy w;
        if self = NULL then Some (-1, out_self, w)
        else do {
          w \<leftarrow> modify_proxy self (\<lambda>x. x\<lparr>px_id := sid, px_active := True\<rparr>) w;
          (exit_code, inbox, h) \<leftarrow> generic_queue_syn_new (Some NULL) (inboxes w);
          q \<leftarrow> inbox;
          w \<leftarrow> modify_proxy self (\<lambda>x. x\<lparr>px_inbox := q\<rparr>) (w\<lparr>inboxes := h\<rparr>);
          if exit_code \<noteq> 0 then do {
            w \<leftarrow> free_proxy self w;
            Some (exit_code, out_self, w) }
          else do {
            (_, w) \<leftarrow> on_inboxes (generic_queue_syn_set_free_function q (Some message_free_wrapper)) w;
            let (exit_code, A) = sys_init (px_arena w);
            let w = w\<lparr>px_arena := A\<rparr>;
            if exit_code \<noteq> 0 then do {
              (_, w) \<leftarrow> on_inboxes (generic_queue_syn_free q) w;
              w \<leftarrow> free_proxy self w;
              Some (exit_code, out_self, w) }
            else do {
              w \<leftarrow> modify_proxy self (\<lambda>x. x\<lparr>px_inbox_mutex := Unlocked\<rparr>) w;
              let (exit_code, A) = sys_init (px_arena w);
              let w = w\<lparr>px_arena := A\<rparr>;
              if exit_code \<noteq> 0 then do {
                _ \<leftarrow> destroy_inbox_mutex self w;
                (_, w) \<leftarrow> on_inboxes (generic_queue_syn_free q) w;
                w \<leftarrow> free_proxy self w;
                Some (exit_code, out_self, w) }
              else Some (0, Some self, w) } } } })"

definition subscriber_proxy_free :: "addr ptr \<Rightarrow> proxy_store \<Rightarrow> proxy_store option" where
  "subscriber_proxy_free self w =
     (if self = NULL then Some w
      else do {
        w \<leftarrow> modify_proxy self (\<lambda>x. x\<lparr>px_active := False\<rparr>) w;
        w \<leftarrow> lock_inbox self w;
        w \<leftarrow> unlock_inbox self w;
        x \<leftarrow> proxy_at w self;
        (_, w) \<leftarrow> on_inboxes (generic_queue_syn_free (px_inbox x)) w;
        _ \<leftarrow> destroy_inbox_mutex self w;
        free_proxy self w })"

definition subscriber_proxy_free_wrapper :: "(addr, proxy_store) free_fn" where
  "subscriber_proxy_free_wrapper data w = (if data = NULL then Some w else subscriber_proxy_free data w)"

definition subscriber_proxy_enqueue :: "addr ptr \<Rightarrow> addr ptr \<Rightarrow> proxy_store \<Rightarrow> (exit_code, proxy_store) res" where
  "subscriber_proxy_enqueue self msg w =
     (if self = NULL then Some (1, w)
      else if msg = NULL then Some (1, w)
      else do {
        x \<leftarrow> proxy_at w self;
        if \<not> px_active x then Some (1, w)
        else do {
          (exit_code, w) \<leftarrow> on_inboxes (generic_queue_syn_enqueue (px_inbox x) msg) w;
          if exit_code \<noteq> 0 then Some (exit_code, w)
          else do {
            w \<leftarrow> lock_inbox self w;
            w \<leftarrow> unlock_inbox self w;
            Some (0, w) } } })"

section \<open>Representation\<close>

text \<open>The content of a proxy, and the queue that stands for its inbox.\<close>

record aproxy =
  ax_id :: uint64_t
  ax_active :: bool
  ax_msgs :: "message_t list"

definition inbox_list :: "addr list \<Rightarrow> (addr, message_store) alist" where
  "inbox_list ms = \<lparr>al_items = map Some ms, al_free = Some message_free_wrapper, al_copy = NULL\<rparr>"

text \<open>
  \<open>G\<close> gives the addresses of the messages in each inbox.  No message is in two places, and every
  message is in an inbox or held by somebody (\<open>D\<close>).
\<close>

definition px_inv ::
  "(addr \<rightharpoonup> message_t) \<Rightarrow> (addr \<rightharpoonup> subscriber_proxy_t) \<Rightarrow> (addr \<rightharpoonup> addr list) \<Rightarrow> (addr \<rightharpoonup> message_t) \<Rightarrow> bool" where
  "px_inv N P G D \<longleftrightarrow> dom G = dom P \<and> (\<forall>p x. P p = Some x \<longrightarrow> px_inbox_mutex x = Unlocked)
     \<and> (\<forall>p ms. G p = Some ms \<longrightarrow> distinct ms \<and> set ms \<inter> dom D = {})
     \<and> (\<forall>p q ms ns. p \<noteq> q \<longrightarrow> G p = Some ms \<longrightarrow> G q = Some ns \<longrightarrow> set ms \<inter> set ns = {})
     \<and> dom N = dom D \<union> \<Union> (set ` ran G) \<and> D \<subseteq>\<^sub>m N"

definition px_abs ::
  "(addr \<rightharpoonup> message_t) \<Rightarrow> (addr \<rightharpoonup> subscriber_proxy_t) \<Rightarrow> (addr \<rightharpoonup> addr list) \<Rightarrow> addr \<rightharpoonup> aproxy" where
  "px_abs N P G p = (case P p of None \<Rightarrow> None | Some x \<Rightarrow> map_option (\<lambda>ms.
     \<lparr>ax_id = px_id x, ax_active = px_active x, ax_msgs = map (\<lambda>m. the (N m)) ms\<rparr>) (G p))"

abbreviation message_heap :: "proxy_store \<Rightarrow> message_store" where
  "message_heap w \<equiv> world (inboxes w)"

abbreviation set_message_heap :: "message_store \<Rightarrow> proxy_store \<Rightarrow> proxy_store" where
  "set_message_heap mw w \<equiv> w\<lparr>inboxes := (inboxes w)\<lparr>world := mw\<rparr>\<rparr>"

definition px_rep :: "proxy_store \<Rightarrow> (addr \<rightharpoonup> aproxy) \<Rightarrow> (addr \<rightharpoonup> message_t) \<Rightarrow> bool" where
  "px_rep w X D \<longleftrightarrow> (\<exists>S G. qs_rep (inboxes w) S \<and> owns (map_option px_inbox \<circ> proxies w) S (map_option inbox_list \<circ> G)
     \<and> px_inv (messages (message_heap w)) (proxies w) G D
     \<and> X = px_abs (messages (message_heap w)) (proxies w) G)
     \<and> dom (proxies w) \<subseteq> {..ticks (px_arena w)} \<and> dom (messages (message_heap w)) \<subseteq> {..ticks (msg_arena (message_heap w))}"

lemma qs_rep_world [simp]: "qs_rep (h\<lparr>world := x\<rparr>) S \<longleftrightarrow> qs_rep h S"
  by (simp add: qs_rep_def q_rep_def ll_rep_def)

lemma px_repE:
  assumes "px_rep w X D"
  obtains S G where "qs_rep (inboxes w) S" and "owns (map_option px_inbox \<circ> proxies w) S (map_option inbox_list \<circ> G)"
    and "px_inv (messages (message_heap w)) (proxies w) G D" and "X = px_abs (messages (message_heap w)) (proxies w) G"
    and "dom (proxies w) \<subseteq> {..ticks (px_arena w)}" and "dom (messages (message_heap w)) \<subseteq> {..ticks (msg_arena (message_heap w))}"
  using assms unfolding px_rep_def by blast

lemma px_repI:
  assumes "qs_rep (inboxes w) S" and "owns (map_option px_inbox \<circ> proxies w) S (map_option inbox_list \<circ> G)"
    and "px_inv (messages (message_heap w)) (proxies w) G D" and "X = px_abs (messages (message_heap w)) (proxies w) G"
    and "dom (proxies w) \<subseteq> {..ticks (px_arena w)}" and "dom (messages (message_heap w)) \<subseteq> {..ticks (msg_arena (message_heap w))}"
  shows "px_rep w X D"
  using assms unfolding px_rep_def by blast

subsection \<open>Steps of the invariant\<close>

lemma px_invD:
  assumes "px_inv N P G D"
  shows "dom G = dom P" and "P p = Some x \<Longrightarrow> px_inbox_mutex x = Unlocked"
    and "G p = Some ms \<Longrightarrow> distinct ms" and "G p = Some ms \<Longrightarrow> m \<in> set ms \<Longrightarrow> D m = None"
    and "G p = Some ms \<Longrightarrow> G q = Some ns \<Longrightarrow> m \<in> set ms \<Longrightarrow> m \<in> set ns \<Longrightarrow> p = q"
    and "G p = Some ms \<Longrightarrow> m \<in> set ms \<Longrightarrow> \<exists>a. N m = Some a" and "D m = Some a \<Longrightarrow> N m = Some a"
    and "N m = Some a \<Longrightarrow> D m = Some a \<or> (\<exists>p ms. G p = Some ms \<and> m \<in> set ms)"
proof -
  have C: "dom G = dom P" "\<forall>p x. P p = Some x \<longrightarrow> px_inbox_mutex x = Unlocked"
    "\<forall>p ms. G p = Some ms \<longrightarrow> distinct ms \<and> set ms \<inter> dom D = {}"
    "\<forall>p q ms ns. p \<noteq> q \<longrightarrow> G p = Some ms \<longrightarrow> G q = Some ns \<longrightarrow> set ms \<inter> set ns = {}"
    and N: "dom N = dom D \<union> \<Union> (set ` ran G)" and le: "D \<subseteq>\<^sub>m N"
    using assms [unfolded px_inv_def] by - (elim conjE, assumption)+
  show "dom G = dom P" by (rule C(1))
  show "P p = Some x \<Longrightarrow> px_inbox_mutex x = Unlocked" using C(2) by blast
  show "G p = Some ms \<Longrightarrow> distinct ms" using C(3) by blast
  show "D m = None" if "G p = Some ms" "m \<in> set ms" using C(3) that by (auto simp: domIff)
  show "G p = Some ms \<Longrightarrow> G q = Some ns \<Longrightarrow> m \<in> set ms \<Longrightarrow> m \<in> set ns \<Longrightarrow> p = q"
    using C(4) by (meson disjoint_iff)
  show D: "N m = Some a" if "D m = Some a" for m a using le that unfolding map_le_def by (metis domI)
  show "\<exists>a. N m = Some a" if "G p = Some ms" "m \<in> set ms"
  proof -
    have "m \<in> dom N" unfolding N using that by (auto intro: ranI)
    then show ?thesis by blast
  qed
  show "D m = Some a \<or> (\<exists>p ms. G p = Some ms \<and> m \<in> set ms)" if "N m = Some a"
  proof -
    have "m \<in> dom D \<union> \<Union> (set ` ran G)" using that unfolding N [symmetric] by blast
    then show ?thesis using that D by (auto simp: ran_def)
  qed
qed

lemma px_invI:
  assumes "dom G = dom P" and "\<And>p x. P p = Some x \<Longrightarrow> px_inbox_mutex x = Unlocked"
    and "\<And>p ms. G p = Some ms \<Longrightarrow> distinct ms" and "\<And>p ms m. G p = Some ms \<Longrightarrow> m \<in> set ms \<Longrightarrow> D m = None"
    and "\<And>p q ms ns m. G p = Some ms \<Longrightarrow> G q = Some ns \<Longrightarrow> m \<in> set ms \<Longrightarrow> m \<in> set ns \<Longrightarrow> p = q"
    and "\<And>p ms m. G p = Some ms \<Longrightarrow> m \<in> set ms \<Longrightarrow> \<exists>a. N m = Some a" and "\<And>m a. D m = Some a \<Longrightarrow> N m = Some a"
    and "\<And>m a. N m = Some a \<Longrightarrow> D m = Some a \<or> (\<exists>p ms. G p = Some ms \<and> m \<in> set ms)"
  shows "px_inv N P G D"
proof -
  have "dom N \<subseteq> dom D \<union> \<Union> (set ` ran G)"
  proof
    fix m assume "m \<in> dom N"
    then obtain a where "N m = Some a" by blast
    from assms(8) [OF this] show "m \<in> dom D \<union> \<Union> (set ` ran G)" by (auto intro: ranI)
  qed
  moreover have "dom D \<union> \<Union> (set ` ran G) \<subseteq> dom N" using assms(6,7) by (fastforce simp: ran_def)
  ultimately have "dom N = dom D \<union> \<Union> (set ` ran G)" by (rule equalityI)
  moreover have "D \<subseteq>\<^sub>m N" using assms(7) by (auto simp: map_le_def)
  moreover have "\<forall>p ms. G p = Some ms \<longrightarrow> distinct ms \<and> set ms \<inter> dom D = {}" using assms(3,4) by force
  moreover have "\<forall>p q ms ns. p \<noteq> q \<longrightarrow> G p = Some ms \<longrightarrow> G q = Some ns \<longrightarrow> set ms \<inter> set ns = {}" using assms(5) by blast
  ultimately show ?thesis using assms(1,2) unfolding px_inv_def by blast
qed

lemma px_inv_new_message:
  assumes "px_inv N P G D" and "N m = None"
  shows "px_inv (N(m \<mapsto> a)) P G (D(m \<mapsto> a))" and "px_abs (N(m \<mapsto> a)) P G = px_abs N P G"
proof -
  note D = px_invD [OF assms(1)]
  have fresh: "m \<notin> set ms" if "G p = Some ms" for p ms using D(6) [OF that, of m] assms(2) by auto
  show "px_inv (N(m \<mapsto> a)) P G (D(m \<mapsto> a))"
    by (rule px_invI) (use D fresh in \<open>auto split: if_splits\<close>)
  show "px_abs (N(m \<mapsto> a)) P G = px_abs N P G"
    by (rule ext) (auto simp: px_abs_def map_option_case split: option.splits dest: fresh)
qed

lemma px_inv_free_message:
  assumes "px_inv N P G D" and "D m = Some a"
  shows "px_inv (N(m := None)) P G (D(m := None))" and "px_abs (N(m := None)) P G = px_abs N P G"
proof -
  note D = px_invD [OF assms(1)]
  have fresh: "m \<notin> set ms" if "G p = Some ms" for p ms using D(4) [OF that, of m] assms(2) by auto
  show "px_inv (N(m := None)) P G (D(m := None))"
    by (rule px_invI) (use D fresh in \<open>auto split: if_splits\<close>)
  show "px_abs (N(m := None)) P G = px_abs N P G"
    by (rule ext) (auto simp: px_abs_def map_option_case split: option.splits dest: fresh)
qed

lemma px_inv_push:
  assumes "px_inv N P G D" and "G p = Some ms" and "D m = Some a"
  shows "px_inv N P (G(p \<mapsto> ms @ [m])) (D(m := None))"
proof -
  note D = px_invD [OF assms(1)]
  have fresh: "m \<notin> set ms" if "G p = Some ms" for p ms using D(4) [OF that, of m] assms(3) by auto
  have dis: "k \<notin> set ns" if "G q = Some ns" "k \<in> set ms" "q \<noteq> p" for q ns k using D(5) [OF that(1) assms(2), of k] that(2,3) by auto
  show ?thesis
  proof (rule px_invI)
    fix q q' ns ns' k
    assume "(G(p \<mapsto> ms @ [m])) q = Some ns" "(G(p \<mapsto> ms @ [m])) q' = Some ns'" "k \<in> set ns" "k \<in> set ns'"
    then show "q = q'" using D(5) [of q ns q' ns' k] fresh dis by (auto split: if_splits)
  next
    fix k b assume k: "N k = Some b"
    show "(D(m := None)) k = Some b \<or> (\<exists>q ns. (G(p \<mapsto> ms @ [m])) q = Some ns \<and> k \<in> set ns)"
    proof (cases "k = m")
      case False
      from D(8) [OF k] show ?thesis
      proof
        assume "\<exists>q ns. G q = Some ns \<and> k \<in> set ns"
        then obtain q ns where q: "G q = Some ns" "k \<in> set ns" by blast
        then show ?thesis using assms(2) by (cases "q = p") auto
      qed (use False in simp)
    qed auto
  next
    show "dom (G(p \<mapsto> ms @ [m])) = dom P" using D(1) assms(2) by auto
  next
    fix q ns k assume "(G(p \<mapsto> ms @ [m])) q = Some ns" "k \<in> set ns"
    then show "\<exists>a. N k = Some a" using D(6) [of q _ k] D(6) [OF assms(2), of k] D(7) [OF assms(3)] by (auto split: if_splits)
  qed (use D fresh assms(2) in \<open>auto split: if_splits\<close>)
qed

lemma px_inv_pop:
  assumes "px_inv N P G D" and "G p = Some (m # ms)" and "N m = Some a"
  shows "px_inv N P (G(p \<mapsto> ms)) (D(m \<mapsto> a))"
proof -
  note D = px_invD [OF assms(1)]
  have dis: "k \<notin> set ns" if "G q = Some ns" "k \<in> set (m # ms)" "q \<noteq> p" for q ns k using D(5) [OF that(1) assms(2), of k] that(2,3) by auto
  have only: "q = p" if "G q = Some ns" "m \<in> set ns" for q ns using D(5) [OF that(1) assms(2) that(2)] by simp
  show ?thesis
  proof (rule px_invI)
    fix q q' ns ns' k
    assume "(G(p \<mapsto> ms)) q = Some ns" "(G(p \<mapsto> ms)) q' = Some ns'" "k \<in> set ns" "k \<in> set ns'"
    then show "q = q'" using D(5) [of q ns q' ns' k] dis by (auto split: if_splits)
  next
    fix k b assume k: "N k = Some b"
    show "(D(m \<mapsto> a)) k = Some b \<or> (\<exists>q ns. (G(p \<mapsto> ms)) q = Some ns \<and> k \<in> set ns)"
    proof (cases "k = m")
      case True
      with k assms(3) show ?thesis by simp
    next
      case False
      from D(8) [OF k] show ?thesis
      proof
        assume "\<exists>q ns. G q = Some ns \<and> k \<in> set ns"
        then obtain q ns where q: "G q = Some ns" "k \<in> set ns" by blast
        then show ?thesis using assms(2) False by (cases "q = p") auto
      qed (use False in simp)
    qed
  next
    show "dom (G(p \<mapsto> ms)) = dom P" using D(1) assms(2) by auto
  next
    fix q ns k assume *: "(G(p \<mapsto> ms)) q = Some ns" "k \<in> set ns"
    show "\<exists>a. N k = Some a" using D(6) [of q _ k] D(6) [OF assms(2), of k] * by (auto split: if_splits)
    have "k \<noteq> m" using * D(3) [OF assms(2)] only [of q ns] by (auto split: if_splits)
    then show "(D(m \<mapsto> a)) k = None" using D(4) [of q ns k] D(4) [OF assms(2), of k] * by (auto split: if_splits)
  next
    fix q ns assume "(G(p \<mapsto> ms)) q = Some ns"
    then show "distinct ns" using D(3) [of q] D(3) [OF assms(2)] by (auto split: if_splits)
  qed (use D(2,7) assms(3) in \<open>auto split: if_splits\<close>)
qed

lemma px_abs_set:
  assumes "P p = Some x"
  shows "px_abs N P (G(p \<mapsto> ms)) = (px_abs N P G)(p \<mapsto>
    \<lparr>ax_id = px_id x, ax_active = px_active x, ax_msgs = map (\<lambda>m. the (N m)) ms\<rparr>)"
  using assms by (auto simp: px_abs_def fun_eq_iff split: option.splits)

section \<open>Specifications\<close>

lemmas message_accesses [simp] = malloc_message_def modify_message_def message_at_def free_message_def dup_string_def
lemmas proxy_accesses [simp] = malloc_proxy_def modify_proxy_def proxy_at_def free_proxy_def lock_inbox_def unlock_inbox_def
  destroy_inbox_mutex_def on_inboxes_def

subsection \<open>Messages\<close>

lemma px_rep_fresh:
  assumes "px_rep w X D"
  shows "messages (message_heap w) (Suc (ticks (msg_arena (message_heap w)))) = None"
    and "proxies w (Suc (ticks (px_arena w))) = None"
proof -
  have "dom (proxies w) \<subseteq> {..ticks (px_arena w)}" "dom (messages (message_heap w)) \<subseteq> {..ticks (msg_arena (message_heap w))}"
    using assms unfolding px_rep_def by blast+
  then show "messages (message_heap w) (Suc (ticks (msg_arena (message_heap w)))) = None"
    "proxies w (Suc (ticks (px_arena w))) = None" by (auto simp: domIff subset_iff)
qed

lemma message_new_spec:
  assumes rep: "px_rep w X D" and g: "grants 3 (msg_arena (message_heap w))"
  shows "\<exists>m mw. message_new i (Some c) (Some s) (Some v) (message_heap w) = Some (0, Some (Some m), mw) \<and> D m = None
    \<and> px_rep (set_message_heap mw w) X (D(m \<mapsto> \<lparr>msg_id = i, msg_channel_name = Some (c_str c), msg_content = Some (c_str s)\<rparr>))
    \<and> msg_arena mw = (tick ^^ 3) (msg_arena (message_heap w))"
proof -
  obtain S G where R: "qs_rep (inboxes w) S" "owns (map_option px_inbox \<circ> proxies w) S (map_option inbox_list \<circ> G)"
    "px_inv (messages (message_heap w)) (proxies w) G D" "X = px_abs (messages (message_heap w)) (proxies w) G"
    "dom (proxies w) \<subseteq> {..ticks (px_arena w)}" "dom (messages (message_heap w)) \<subseteq> {..ticks (msg_arena (message_heap w))}"
    by (rule px_repE [OF rep])
  let ?A = "msg_arena (message_heap w)" and ?m = "Suc (ticks (msg_arena (message_heap w)))"
  let ?a = "\<lparr>msg_id = i, msg_channel_name = Some (c_str c), msg_content = Some (c_str s)\<rparr>"
  define mw where "mw = (message_heap w)\<lparr>messages := (messages (message_heap w))(?m \<mapsto> ?a), msg_arena := (tick ^^ 3) ?A\<rparr>"
  have fresh: "messages (message_heap w) ?m = None" by (rule px_rep_fresh(1) [OF rep])
  have "\<not> refused ?A" "\<not> refused (tick ?A)" "\<not> refused (tick (tick ?A))"
    using g by (auto simp: numeral_3_eq_3 grants_Suc)
  then have "message_new i (Some c) (Some s) (Some v) (message_heap w) = Some (0, Some (Some ?m), mw)"
    by (simp add: message_new_def mw_def numeral_3_eq_3)
  moreover have "px_rep (set_message_heap mw w) X (D(?m \<mapsto> ?a))"
  proof (rule px_repI)
    show "px_inv (messages (message_heap (set_message_heap mw w))) (proxies (set_message_heap mw w)) G (D(?m \<mapsto> ?a))"
      using px_inv_new_message(1) [OF R(3) fresh] by (simp add: mw_def)
    show "X = px_abs (messages (message_heap (set_message_heap mw w))) (proxies (set_message_heap mw w)) G"
      using px_inv_new_message(2) [OF R(3) fresh] R(4) by (simp add: mw_def)
    show "dom (messages (message_heap (set_message_heap mw w))) \<subseteq> {..ticks (msg_arena (message_heap (set_message_heap mw w)))}"
      using R(6) by (auto simp: mw_def numeral_3_eq_3)
  qed (use R in simp_all)
  moreover have "D ?m = None" using fresh px_invD(7) [OF R(3), of ?m] by (cases "D ?m") auto
  moreover have "msg_arena mw = (tick ^^ 3) ?A" by (simp add: mw_def)
  ultimately show ?thesis by blast
qed

lemma px_rep_message_arena:
  assumes "px_rep w X D" and "messages mw = messages (message_heap w)" and "ticks (msg_arena (message_heap w)) \<le> ticks (msg_arena mw)"
  shows "px_rep (set_message_heap mw w) X D"
proof -
  obtain S G where R: "qs_rep (inboxes w) S" "owns (map_option px_inbox \<circ> proxies w) S (map_option inbox_list \<circ> G)"
    "px_inv (messages (message_heap w)) (proxies w) G D" "X = px_abs (messages (message_heap w)) (proxies w) G"
    "dom (proxies w) \<subseteq> {..ticks (px_arena w)}" "dom (messages (message_heap w)) \<subseteq> {..ticks (msg_arena (message_heap w))}"
    by (rule px_repE [OF assms(1)])
  then show ?thesis using assms(2,3) by (intro px_repI [of _ S G]) auto
qed

lemma message_new_refused:
  assumes rep: "px_rep w X D" and g: "\<not> grants 3 (msg_arena (message_heap w))"
  shows "\<exists>mw. message_new i (Some c) (Some s) (Some v) (message_heap w) = Some (-1, Some v, mw)
    \<and> px_rep (set_message_heap mw w) X D"
proof -
  let ?A = "msg_arena (message_heap w)" and ?m = "Suc (ticks (msg_arena (message_heap w)))"
  have fresh: "(messages (message_heap w))(?m := None) = messages (message_heap w)"
    using px_rep_fresh(1) [OF rep] by (simp add: fun_upd_idem)
  obtain mw where mw: "message_new i (Some c) (Some s) (Some v) (message_heap w) = Some (-1, Some v, mw)"
    "messages mw = messages (message_heap w)" "ticks ?A \<le> ticks (msg_arena mw)"
    using g fresh by (cases "refused ?A"; cases "refused (tick ?A)")
      (auto simp: not_grants_3 message_new_def)
  with px_rep_message_arena [OF rep mw(2,3)] show ?thesis by blast
qed

lemma message_free_spec:
  assumes rep: "px_rep w X D" and "D m = Some a"
  shows "\<exists>mw. message_free (Some m) (message_heap w) = Some (0, mw) \<and> px_rep (set_message_heap mw w) X (D(m := None))
    \<and> msg_arena mw = msg_arena (message_heap w)"
proof -
  obtain S G where R: "qs_rep (inboxes w) S" "owns (map_option px_inbox \<circ> proxies w) S (map_option inbox_list \<circ> G)"
    "px_inv (messages (message_heap w)) (proxies w) G D" "X = px_abs (messages (message_heap w)) (proxies w) G"
    "dom (proxies w) \<subseteq> {..ticks (px_arena w)}" "dom (messages (message_heap w)) \<subseteq> {..ticks (msg_arena (message_heap w))}"
    by (rule px_repE [OF rep])
  define mw where "mw = (message_heap w)\<lparr>messages := (messages (message_heap w))(m := None)\<rparr>"
  have "message_free (Some m) (message_heap w) = Some (0, mw)"
    using px_invD(7) [OF R(3) assms(2)] by (simp add: message_free_def mw_def)
  moreover have "px_rep (set_message_heap mw w) X (D(m := None))"
  proof (rule px_repI)
    show "px_inv (messages (message_heap (set_message_heap mw w))) (proxies (set_message_heap mw w)) G (D(m := None))"
      using px_inv_free_message(1) [OF R(3) assms(2)] by (simp add: mw_def)
    show "X = px_abs (messages (message_heap (set_message_heap mw w))) (proxies (set_message_heap mw w)) G"
      using px_inv_free_message(2) [OF R(3) assms(2)] R(4) by (simp add: mw_def)
  qed (use R in \<open>auto simp: mw_def\<close>)
  ultimately show ?thesis by (auto simp: mw_def)
qed

lemma message_getters_spec:
  assumes "px_rep w X D" and "D m = Some a"
  shows "message_get_id (Some m) (Some v) (message_heap w) = Some (0, Some (msg_id a))"
    and "message_get_channel (Some m) (Some c) (message_heap w) = Some (0, Some (msg_channel_name a))"
    and "message_get_content (Some m) (Some c) (message_heap w) = Some (0, Some (msg_content a))"
proof -
  obtain S G where "px_inv (messages (message_heap w)) (proxies w) G D" using assms(1) by (rule px_repE)
  from px_invD(7) [OF this assms(2)]
  show "message_get_id (Some m) (Some v) (message_heap w) = Some (0, Some (msg_id a))"
    "message_get_channel (Some m) (Some c) (message_heap w) = Some (0, Some (msg_channel_name a))"
    "message_get_content (Some m) (Some c) (message_heap w) = Some (0, Some (msg_content a))"
    by (simp_all add: message_get_id_def message_get_channel_def message_get_content_def)
qed

subsection \<open>Inboxes\<close>

text \<open>A proxy with its inbox.\<close>

lemma px_abs_Some:
  assumes "px_abs N P G p = Some Y"
  obtains x ms where "P p = Some x" and "G p = Some ms"
    and "Y = \<lparr>ax_id = px_id x, ax_active = px_active x, ax_msgs = map (\<lambda>m. the (N m)) ms\<rparr>"
  using assms by (auto simp: px_abs_def split: option.splits)

lemma proxy_viewE:
  assumes "px_rep w X D" and "X p = Some Y"
  obtains S G x s ms where "qs_rep (inboxes w) S" and "owns (map_option px_inbox \<circ> proxies w) S (map_option inbox_list \<circ> G)"
    and "px_inv (messages (message_heap w)) (proxies w) G D" and "X = px_abs (messages (message_heap w)) (proxies w) G"
    and "dom (proxies w) \<subseteq> {..ticks (px_arena w)}" and "dom (messages (message_heap w)) \<subseteq> {..ticks (msg_arena (message_heap w))}"
    and "proxies w p = Some x" and "px_inbox x = Some s" and "px_inbox_mutex x = Unlocked"
    and "G p = Some ms" and "S s = Some (inbox_list ms)"
    and "Y = \<lparr>ax_id = px_id x, ax_active = px_active x, ax_msgs = map (\<lambda>m. the (messages (message_heap w) m)) ms\<rparr>"
proof -
  obtain S G where R: "qs_rep (inboxes w) S" "owns (map_option px_inbox \<circ> proxies w) S (map_option inbox_list \<circ> G)"
    "px_inv (messages (message_heap w)) (proxies w) G D" "X = px_abs (messages (message_heap w)) (proxies w) G"
    "dom (proxies w) \<subseteq> {..ticks (px_arena w)}" "dom (messages (message_heap w)) \<subseteq> {..ticks (msg_arena (message_heap w))}"
    by (rule px_repE [OF assms(1)])
  obtain x ms where x: "proxies w p = Some x" "G p = Some ms"
    "Y = \<lparr>ax_id = px_id x, ax_active = px_active x, ax_msgs = map (\<lambda>m. the (messages (message_heap w) m)) ms\<rparr>"
    using assms(2) unfolding R(4) by (rule px_abs_Some)
  have "(map_option px_inbox \<circ> proxies w) p = Some (px_inbox x)" using x(1) by simp
  then obtain s l where "px_inbox x = Some s" "S s = Some l" "(map_option inbox_list \<circ> G) p = Some l"
    by (rule ownsE [OF R(2)])
  with that [OF R x(1) _ px_invD(2) [OF R(3) x(1)] x(2) _ x(3)] x(2) show thesis by simp
qed

lemma inbox_changed:
  assumes "owns (map_option px_inbox \<circ> proxies w) S (map_option inbox_list \<circ> G)"
    and "dom (proxies w) \<subseteq> {..ticks (px_arena w)}" "dom (messages (message_heap w)) \<subseteq> {..ticks (msg_arena (message_heap w))}"
    and "proxies w p = Some x" "px_inbox x = Some s"
    and "Y = \<lparr>ax_id = px_id x, ax_active = px_active x, ax_msgs = map (\<lambda>m. the (messages (message_heap w) m)) ms'\<rparr>"
    and "qs_rep h (S(s \<mapsto> inbox_list ms'))" "world h = message_heap w"
    and "px_inv (messages (message_heap w)) (proxies w) (G(p \<mapsto> ms')) D'"
  shows "px_rep (w\<lparr>inboxes := h\<rparr>) ((px_abs (messages (message_heap w)) (proxies w) G)(p \<mapsto> Y)) D'"
proof (rule px_repI)
  show "owns (map_option px_inbox \<circ> proxies (w\<lparr>inboxes := h\<rparr>)) (S(s \<mapsto> inbox_list ms')) (map_option inbox_list \<circ> G(p \<mapsto> ms'))"
    using owns_update [OF assms(1), of p s "inbox_list ms'"] assms(4,5) by simp
  show "(px_abs (messages (message_heap w)) (proxies w) G)(p \<mapsto> Y)
      = px_abs (messages (message_heap (w\<lparr>inboxes := h\<rparr>))) (proxies (w\<lparr>inboxes := h\<rparr>)) (G(p \<mapsto> ms'))"
    using px_abs_set [of "proxies w" p x "messages (message_heap w)" G ms'] assms(4) assms(6,8) by simp
qed (use assms in simp_all)

lemma proxy_enqueue_spec:
  assumes rep: "px_rep w X D" "X p = Some Y" "ax_active Y" and m: "D m = Some a"
    and g: "\<not> refused (arena (inboxes w))"
  shows "\<exists>w'. subscriber_proxy_enqueue (Some p) (Some m) w = Some (0, w')
    \<and> px_rep w' (X(p \<mapsto> Y\<lparr>ax_msgs := ax_msgs Y @ [a]\<rparr>)) (D(m := None))
    \<and> px_arena w' = px_arena w \<and> arena (inboxes w') = tick (arena (inboxes w)) \<and> msg_arena (message_heap w') = msg_arena (message_heap w)"
proof -
  obtain S G x s ms where R: "qs_rep (inboxes w) S" "owns (map_option px_inbox \<circ> proxies w) S (map_option inbox_list \<circ> G)"
    "px_inv (messages (message_heap w)) (proxies w) G D" "X = px_abs (messages (message_heap w)) (proxies w) G"
    "dom (proxies w) \<subseteq> {..ticks (px_arena w)}" "dom (messages (message_heap w)) \<subseteq> {..ticks (msg_arena (message_heap w))}"
    and V: "proxies w p = Some x" "px_inbox x = Some s" "px_inbox_mutex x = Unlocked" "G p = Some ms" "S s = Some (inbox_list ms)"
    "Y = \<lparr>ax_id = px_id x, ax_active = px_active x, ax_msgs = map (\<lambda>m. the (messages (message_heap w) m)) ms\<rparr>"
    by (rule proxy_viewE [OF rep(1,2)])
  have store: "al_store (inbox_list ms) (Some m) (message_heap w) = Some (0, Some m, message_heap w)"
    by (simp add: al_store_def inbox_list_def)
  obtain h where h: "generic_queue_syn_enqueue (Some s) (Some m) (inboxes w) = Some (0, h)"
    "qs_rep h (S(s \<mapsto> inbox_list (ms @ [m])))" "world h = message_heap w" "arena h = tick (arena (inboxes w))"
    using syn_enqueue_spec [OF R(1) V(5) g store] by (auto simp: inbox_list_def)
  define w' where "w' = w\<lparr>inboxes := h\<rparr>"
  have idem: "x\<lparr>px_inbox_mutex := Unlocked\<rparr> = x" using V(3) by simp
  have "subscriber_proxy_enqueue (Some p) (Some m) w = Some (0, w')"
    using V rep(3) h(1) idem by (simp add: subscriber_proxy_enqueue_def w'_def fun_upd_idem)
  moreover have "px_rep w' (X(p \<mapsto> Y\<lparr>ax_msgs := ax_msgs Y @ [a]\<rparr>)) (D(m := None))"
    unfolding w'_def R(4)
    by (rule inbox_changed [OF R(2,5,6) V(1,2) _ h(2,3) px_inv_push [OF R(3) V(4) m]])
      (use V(6) px_invD(7) [OF R(3) m] in simp)
  ultimately show ?thesis using h by (auto simp: w'_def)
qed

lemma proxy_enqueue_fails:
  assumes rep: "px_rep w X D" "X p = Some Y" and g: "ax_active Y \<Longrightarrow> refused (arena (inboxes w))"
  shows "\<exists>w' r. subscriber_proxy_enqueue (Some p) (Some m) w = Some (r, w') \<and> r \<noteq> 0 \<and> px_rep w' X D
    \<and> px_arena w' = px_arena w \<and> msg_arena (message_heap w') = msg_arena (message_heap w)"
proof -
  obtain S G x s ms where R: "qs_rep (inboxes w) S" "owns (map_option px_inbox \<circ> proxies w) S (map_option inbox_list \<circ> G)"
    "px_inv (messages (message_heap w)) (proxies w) G D" "X = px_abs (messages (message_heap w)) (proxies w) G"
    "dom (proxies w) \<subseteq> {..ticks (px_arena w)}" "dom (messages (message_heap w)) \<subseteq> {..ticks (msg_arena (message_heap w))}"
    and V: "proxies w p = Some x" "px_inbox x = Some s" "px_inbox_mutex x = Unlocked" "G p = Some ms" "S s = Some (inbox_list ms)"
    "Y = \<lparr>ax_id = px_id x, ax_active = px_active x, ax_msgs = map (\<lambda>m. the (messages (message_heap w) m)) ms\<rparr>"
    by (rule proxy_viewE [OF rep(1,2)])
  show ?thesis
  proof (cases "px_active x")
    case True
    with g V(6) have "refused (arena (inboxes w))" by simp
    from syn_enqueue_refused [OF R(1) V(5) this, of "Some m"]
    obtain h where h: "generic_queue_syn_enqueue (Some s) (Some m) (inboxes w) = Some (-1, h)" "qs_rep h S" "world h = message_heap w"
      by blast
    have "px_rep (w\<lparr>inboxes := h\<rparr>) X D" using R h by (intro px_repI [of _ S G]) simp_all
    with True V h show ?thesis by (simp add: subscriber_proxy_enqueue_def)
  qed (use V rep in \<open>simp add: subscriber_proxy_enqueue_def\<close>)
qed

lemma px_rep_proxy:
  assumes "px_rep w X D" and "X p = Some Y"
  shows "\<exists>x s. proxies w p = Some x \<and> px_id x = ax_id Y \<and> px_active x = ax_active Y \<and> px_inbox_mutex x = Unlocked \<and> px_inbox x = Some s"
  using proxy_viewE [OF assms] by (metis aproxy.select_convs(1,2))

lemma inbox_dequeue_spec:
  assumes rep: "px_rep w X D" "X p = Some Y" and msgs: "ax_msgs Y = a # as" and x: "proxies w p = Some x"
  shows "\<exists>m h. generic_queue_syn_dequeue (px_inbox x) (Some v) (inboxes w) = Some (0, Some (Some m), h) \<and> D m = None
    \<and> px_rep (w\<lparr>inboxes := h\<rparr>) (X(p \<mapsto> Y\<lparr>ax_msgs := as\<rparr>)) (D(m \<mapsto> a)) \<and> arena h = arena (inboxes w) \<and> world h = message_heap w"
proof -
  obtain S G x' s ms where R: "qs_rep (inboxes w) S" "owns (map_option px_inbox \<circ> proxies w) S (map_option inbox_list \<circ> G)"
    "px_inv (messages (message_heap w)) (proxies w) G D" "X = px_abs (messages (message_heap w)) (proxies w) G"
    "dom (proxies w) \<subseteq> {..ticks (px_arena w)}" "dom (messages (message_heap w)) \<subseteq> {..ticks (msg_arena (message_heap w))}"
    and x': "proxies w p = Some x'" and V: "px_inbox x' = Some s" "px_inbox_mutex x' = Unlocked" "G p = Some ms" "S s = Some (inbox_list ms)"
    "Y = \<lparr>ax_id = px_id x', ax_active = px_active x', ax_msgs = map (\<lambda>m. the (messages (message_heap w) m)) ms\<rparr>"
    by (rule proxy_viewE [OF rep(1,2)])
  from x x' have [simp]: "x' = x" by simp
  obtain m ns where ms: "ms = m # ns" "the (messages (message_heap w) m) = a" "map (\<lambda>m. the (messages (message_heap w) m)) ns = as"
    using V(5) msgs by (cases ms) auto
  have a: "messages (message_heap w) m = Some a" using px_invD(6) [OF R(3) V(3), of m] ms by auto
  have items: "al_items (inbox_list ms) = Some m # map Some ns" by (simp add: inbox_list_def ms)
  have give: "al_give (inbox_list ms) (Some m) (Some v) (message_heap w) = Some (Some (Some m), message_heap w)"
    by (simp add: al_give_def)
  obtain h where h: "generic_queue_syn_dequeue (Some s) (Some v) (inboxes w) = Some (0, Some (Some m), h)"
    "qs_rep h (S(s \<mapsto> inbox_list ns))" "world h = message_heap w" "arena h = arena (inboxes w)"
    using syn_dequeue_spec [OF R(1) V(4) items _ give] by (auto simp: inbox_list_def)
  have "px_rep (w\<lparr>inboxes := h\<rparr>) (X(p \<mapsto> Y\<lparr>ax_msgs := as\<rparr>)) (D(m \<mapsto> a))"
    unfolding R(4)
    by (rule inbox_changed [OF R(2,5,6) x _ _ h(2,3) px_inv_pop [OF R(3) V(3) [unfolded ms(1)] a]])
      (use V ms in simp_all)
  moreover have "D m = None" using px_invD(4) [OF R(3) V(3), of m] ms(1) by simp
  ultimately show ?thesis using h V(1) by auto
qed

lemma inbox_readers_spec:
  assumes rep: "px_rep w X D" "X p = Some Y" and x: "proxies w p = Some x"
  shows "\<exists>h. generic_queue_syn_is_empty (px_inbox x) (inboxes w) = Some (if ax_msgs Y = [] then 1 else 0, h)
      \<and> px_rep (w\<lparr>inboxes := h\<rparr>) X D \<and> arena h = arena (inboxes w) \<and> world h = message_heap w" (is ?empty)
    and "\<exists>h. generic_queue_syn_size (px_inbox x) (Some v) (inboxes w) = Some (0, Some (of_nat (length (ax_msgs Y))), h)
      \<and> px_rep (w\<lparr>inboxes := h\<rparr>) X D \<and> arena h = arena (inboxes w) \<and> world h = message_heap w" (is ?size)
    and "length (ax_msgs Y) \<le> block_limit"
    and "ax_msgs Y = [] \<Longrightarrow> \<exists>h. generic_queue_syn_dequeue (px_inbox x) (Some v') (inboxes w) = Some (0, Some NULL, h)
      \<and> px_rep (w\<lparr>inboxes := h\<rparr>) X D \<and> arena h = arena (inboxes w) \<and> world h = message_heap w" (is "_ \<Longrightarrow> ?nothing")
proof -
  obtain S G x' s ms where R: "qs_rep (inboxes w) S" "owns (map_option px_inbox \<circ> proxies w) S (map_option inbox_list \<circ> G)"
    "px_inv (messages (message_heap w)) (proxies w) G D" "X = px_abs (messages (message_heap w)) (proxies w) G"
    "dom (proxies w) \<subseteq> {..ticks (px_arena w)}" "dom (messages (message_heap w)) \<subseteq> {..ticks (msg_arena (message_heap w))}"
    and x': "proxies w p = Some x'" and V: "px_inbox x' = Some s" "px_inbox_mutex x' = Unlocked" "G p = Some ms" "S s = Some (inbox_list ms)"
    "Y = \<lparr>ax_id = px_id x', ax_active = px_active x', ax_msgs = map (\<lambda>m. the (messages (message_heap w) m)) ms\<rparr>"
    by (rule proxy_viewE [OF rep])
  from x x' have [simp]: "x' = x" by simp
  have keep: "px_rep (w\<lparr>inboxes := h\<rparr>) X D" if "qs_rep h S" "world h = message_heap w" for h
    using R that by (intro px_repI [of _ S G]) simp_all
  have items: "al_items (inbox_list ms) = map Some ms" and msgs: "ax_msgs Y = [] \<longleftrightarrow> ms = []" "length (ax_msgs Y) = length ms"
    using V(5) by (simp_all add: inbox_list_def)
  show ?empty using syn_size_spec(2) [OF R(1) V(4)] keep V(1) msgs(1) items by fastforce
  show ?size using syn_size_spec(1) [OF R(1) V(4), of v] keep V(1) msgs(2) items by fastforce
  show "length (ax_msgs Y) \<le> block_limit" using syn_size_spec(3) [OF R(1) V(4)] items msgs(2) by simp
  show ?nothing if "ax_msgs Y = []"
    using syn_dequeue_empty [OF R(1) V(4), of "Some v'"] keep V(1) msgs(1) items that by fastforce
qed

subsection \<open>Construction and destruction of proxies\<close>

text \<open>The callback of an inbox over all of its messages.\<close>

lemma free_messages:
  assumes "set ms \<subseteq> dom (messages w)" and "distinct ms"
  shows "free_all (Some message_free_wrapper) (map Some ms) w = Some (w\<lparr>messages := messages w |` (- set ms)\<rparr>)"
  using assms
proof (induction ms arbitrary: w)
  case (Cons m ms)
  then have m: "messages w m \<noteq> None" by auto
  let ?w = "w\<lparr>messages := (messages w)(m := None)\<rparr>"
  have "message_free_wrapper (Some m) w = Some ?w"
    using m by (simp add: message_free_wrapper_def message_free_def)
  moreover have "free_all (Some message_free_wrapper) (map Some ms) ?w = Some (?w\<lparr>messages := messages ?w |` (- set ms)\<rparr>)"
    using Cons.prems by (intro Cons.IH) auto
  moreover have "(messages w)(m := None) |` (- set ms) = messages w |` (- set (m # ms))"
    by (auto simp: restrict_map_def fun_eq_iff)
  ultimately show ?case by simp
qed (simp add: restrict_map_def)

lemma px_inv_new_proxy:
  assumes "px_inv N P G D" and "P p = None" and "px_inbox_mutex x = Unlocked"
  shows "px_inv N (P(p \<mapsto> x)) (G(p \<mapsto> [])) D"
    and "px_abs N (P(p \<mapsto> x)) (G(p \<mapsto> [])) = (px_abs N P G)(p \<mapsto> \<lparr>ax_id = px_id x, ax_active = px_active x, ax_msgs = []\<rparr>)"
proof -
  note D = px_invD [OF assms(1)]
  have G: "G p = None" using D(1) assms(2) by (metis domIff)
  show "px_inv N (P(p \<mapsto> x)) (G(p \<mapsto> [])) D"
  proof (rule px_invI)
    show "dom (G(p \<mapsto> [])) = dom (P(p \<mapsto> x))" using D(1) by simp
    fix k a assume "N k = Some a"
    from D(8) [OF this] consider "D k = Some a" | q ns where "G q = Some ns" "k \<in> set ns" by blast
    then show "D k = Some a \<or> (\<exists>q ns. (G(p \<mapsto> [])) q = Some ns \<and> k \<in> set ns)"
    proof cases
      case 2
      with G have "(G(p \<mapsto> [])) q = Some ns" by auto
      with 2(2) show ?thesis by blast
    qed simp
  next
    fix q q' ns ns' k
    assume "(G(p \<mapsto> [])) q = Some ns" "(G(p \<mapsto> [])) q' = Some ns'" "k \<in> set ns" "k \<in> set ns'"
    then show "q = q'" using D(5) [of q ns q' ns' k] by (auto split: if_splits)
  qed (use D(2-4,6,7) assms(3) in \<open>auto split: if_splits\<close>)
  show "px_abs N (P(p \<mapsto> x)) (G(p \<mapsto> [])) = (px_abs N P G)(p \<mapsto> \<lparr>ax_id = px_id x, ax_active = px_active x, ax_msgs = []\<rparr>)"
    by (auto simp: px_abs_def fun_eq_iff split: option.splits)
qed

lemma px_inv_free_proxy:
  assumes "px_inv N P G D" and "G p = Some ms"
  shows "px_inv (N |` (- set ms)) (P(p := None)) (G(p := None)) D"
    and "px_abs (N |` (- set ms)) (P(p := None)) (G(p := None)) = (px_abs N P G)(p := None)"
proof -
  note D = px_invD [OF assms(1)]
  have keep: "(N |` (- set ms)) k = N k" if "G q = Some ns" "q \<noteq> p" "k \<in> set ns" for q ns k
    using D(5) [OF that(1) assms(2), of k] that by (auto simp: restrict_map_def)
  show "px_inv (N |` (- set ms)) (P(p := None)) (G(p := None)) D"
  proof (rule px_invI)
    show "dom (G(p := None)) = dom (P(p := None))" using D(1) by simp
  next
    fix k a assume k: "(N |` (- set ms)) k = Some a"
    then have "N k = Some a" "k \<notin> set ms" by (auto simp: restrict_map_def split: if_splits)
    with D(8) [of k a] consider "D k = Some a" | q ns where "G q = Some ns" "k \<in> set ns" by blast
    then show "D k = Some a \<or> (\<exists>q ns. (G(p := None)) q = Some ns \<and> k \<in> set ns)"
    proof cases
      case 2
      with \<open>k \<notin> set ms\<close> assms(2) have "(G(p := None)) q = Some ns" by auto
      with 2(2) show ?thesis by blast
    qed simp
  next
    fix k a assume k: "D k = Some a"
    then have "k \<notin> set ms" using D(4) [OF assms(2), of k] by auto
    with D(7) [OF k] show "(N |` (- set ms)) k = Some a" by simp
  next
    fix q ns k assume "(G(p := None)) q = Some ns" "k \<in> set ns"
    with keep [of q ns k] D(6) [of q ns k] show "\<exists>a. (N |` (- set ms)) k = Some a" by (auto split: if_splits)
  next
    fix q q' ns ns' k
    assume "(G(p := None)) q = Some ns" "(G(p := None)) q' = Some ns'" "k \<in> set ns" "k \<in> set ns'"
    then show "q = q'" using D(5) [of q ns q' ns' k] by (auto split: if_splits)
  qed (use D(2-4) in \<open>auto split: if_splits\<close>)
  show "px_abs (N |` (- set ms)) (P(p := None)) (G(p := None)) = (px_abs N P G)(p := None)"
  proof
    fix q
    show "px_abs (N |` (- set ms)) (P(p := None)) (G(p := None)) q = ((px_abs N P G)(p := None)) q"
    proof (cases "q = p")
      case False
      then have "map (\<lambda>m. the ((N |` (- set ms)) m)) ns = map (\<lambda>m. the (N m)) ns" if "G q = Some ns" for ns
        using keep [OF that False] by simp
      with False show ?thesis by (cases "G q") (auto simp: px_abs_def split: option.splits)
    qed (simp add: px_abs_def)
  qed
qed

lemma proxy_free_spec:
  assumes rep: "px_rep w X D" "X p = Some Y"
  shows "\<exists>w'. subscriber_proxy_free (Some p) w = Some w' \<and> px_rep w' (X(p := None)) D
    \<and> px_arena w' = px_arena w \<and> arena (inboxes w') = arena (inboxes w) \<and> msg_arena (message_heap w') = msg_arena (message_heap w)"
proof -
  obtain S G x s ms where R: "qs_rep (inboxes w) S" "owns (map_option px_inbox \<circ> proxies w) S (map_option inbox_list \<circ> G)"
    "px_inv (messages (message_heap w)) (proxies w) G D" "X = px_abs (messages (message_heap w)) (proxies w) G"
    "dom (proxies w) \<subseteq> {..ticks (px_arena w)}" "dom (messages (message_heap w)) \<subseteq> {..ticks (msg_arena (message_heap w))}"
    and V: "proxies w p = Some x" "px_inbox x = Some s" "px_inbox_mutex x = Unlocked" "G p = Some ms" "S s = Some (inbox_list ms)"
    by (rule proxy_viewE [OF rep])
  let ?N = "messages (message_heap w)" and ?mw = "(message_heap w)\<lparr>messages := messages (message_heap w) |` (- set ms)\<rparr>"
  have "set ms \<subseteq> dom ?N" using px_invD(6) [OF R(3) V(4)] by auto
  from free_messages [OF this px_invD(3) [OF R(3) V(4)]]
  have "free_all (al_free (inbox_list ms)) (al_items (inbox_list ms)) (message_heap w) = Some ?mw"
    by (simp add: inbox_list_def)
  from syn_free_spec [OF R(1) V(5) this] obtain h where h: "generic_queue_syn_free (Some s) (inboxes w) = Some (0, h)"
    "qs_rep h (S(s := None))" "world h = ?mw" "arena h = arena (inboxes w)" by blast
  define w' where "w' = w\<lparr>inboxes := h, proxies := (proxies w)(p := None)\<rparr>"
  have "subscriber_proxy_free (Some p) w = Some w'"
    using V h(1) by (simp add: subscriber_proxy_free_def w'_def)
  moreover have "px_rep w' (X(p := None)) D"
  proof (rule px_repI)
    show "owns (map_option px_inbox \<circ> proxies w') (S(s := None)) (map_option inbox_list \<circ> G(p := None))"
      using owns_remove [OF R(2), of p s] V(1,2) by (simp add: w'_def)
    show "px_inv (messages (message_heap w')) (proxies w') (G(p := None)) D"
      using px_inv_free_proxy(1) [OF R(3) V(4)] h(3) by (simp add: w'_def)
    show "X(p := None) = px_abs (messages (message_heap w')) (proxies w') (G(p := None))"
      using px_inv_free_proxy(2) [OF R(3) V(4)] R(4) h(3) by (simp add: w'_def)
  qed (use R h in \<open>auto simp: w'_def\<close>)
  ultimately show ?thesis using h by (auto simp: w'_def)
qed

lemma proxy_new_spec:
  assumes rep: "px_rep w X D" and g: "grants 3 (px_arena w)" "grants 6 (arena (inboxes w))"
  shows "\<exists>p w'. subscriber_proxy_new i (Some v) w = Some (0, Some (Some p), w') \<and> X p = None
    \<and> px_rep w' (X(p \<mapsto> \<lparr>ax_id = i, ax_active = True, ax_msgs = []\<rparr>)) D
    \<and> px_arena w' = (tick ^^ 3) (px_arena w) \<and> arena (inboxes w') = (tick ^^ 6) (arena (inboxes w))
    \<and> msg_arena (message_heap w') = msg_arena (message_heap w)"
proof -
  obtain S G where R: "qs_rep (inboxes w) S" "owns (map_option px_inbox \<circ> proxies w) S (map_option inbox_list \<circ> G)"
    "px_inv (messages (message_heap w)) (proxies w) G D" "X = px_abs (messages (message_heap w)) (proxies w) G"
    "dom (proxies w) \<subseteq> {..ticks (px_arena w)}" "dom (messages (message_heap w)) \<subseteq> {..ticks (msg_arena (message_heap w))}"
    by (rule px_repE [OF rep])
  let ?A = "px_arena w" and ?p = "Suc (ticks (px_arena w))"
  have gs: "\<not> refused ?A" "\<not> refused (tick ?A)" "\<not> refused (tick (tick ?A))"
    using g(1) by (auto simp: numeral_3_eq_3 grants_Suc)
  obtain h s where h: "generic_queue_syn_new (Some NULL) (inboxes w) = Some (0, Some (Some s), h)" "S s = None"
    "qs_rep h (S(s \<mapsto> \<lparr>al_items = [], al_free = NULL, al_copy = NULL\<rparr>))" "world h = message_heap w"
    "arena h = (tick ^^ 6) (arena (inboxes w))"
    using syn_new_spec [OF R(1) g(2), of NULL] by blast
  obtain h2 where h2: "generic_queue_syn_set_free_function (Some s) (Some message_free_wrapper) h = Some (0, h2)"
    "qs_rep h2 (S(s \<mapsto> inbox_list []))" "world h2 = message_heap w" "arena h2 = (tick ^^ 6) (arena (inboxes w))"
    using syn_set_functions_spec(1) [OF h(3), of s _ "Some message_free_wrapper"] h(4,5) by (auto simp: inbox_list_def)
  let ?x = "\<lparr>px_id = i, px_inbox = Some s, px_inbox_mutex = Unlocked, px_active = True\<rparr>"
  define w' where "w' = w\<lparr>inboxes := h2, proxies := (proxies w)(?p \<mapsto> ?x), px_arena := (tick ^^ 3) ?A\<rparr>"
  have fresh: "proxies w ?p = None" by (rule px_rep_fresh(2) [OF rep])
  have "subscriber_proxy_new i (Some v) w = Some (0, Some (Some ?p), w')"
    using gs h(1) h2(1) by (simp add: subscriber_proxy_new_def w'_def numeral_3_eq_3)
  moreover have "px_rep w' (X(?p \<mapsto> \<lparr>ax_id = i, ax_active = True, ax_msgs = []\<rparr>)) D"
  proof (rule px_repI)
    show "owns (map_option px_inbox \<circ> proxies w') (S(s \<mapsto> inbox_list [])) (map_option inbox_list \<circ> G(?p \<mapsto> []))"
      using owns_add [OF R(2), of ?p s "inbox_list []"] fresh h(2) by (simp add: w'_def)
    show "px_inv (messages (message_heap w')) (proxies w') (G(?p \<mapsto> [])) D"
      using px_inv_new_proxy(1) [OF R(3) fresh, of ?x] h2(3) by (simp add: w'_def)
    show "X(?p \<mapsto> \<lparr>ax_id = i, ax_active = True, ax_msgs = []\<rparr>) = px_abs (messages (message_heap w')) (proxies w') (G(?p \<mapsto> []))"
      using px_inv_new_proxy(2) [OF R(3) fresh, of ?x] R(4) h2(3) by (simp add: w'_def)
  qed (use R h2 in \<open>auto simp: w'_def numeral_3_eq_3\<close>)
  moreover have "X ?p = None" using fresh R(4) by (simp add: px_abs_def)
  ultimately show ?thesis using h2 by (intro exI [of _ ?p] exI [of _ w']) (simp add: w'_def)
qed

text \<open>A refused request: the caller gets an error code and everything is as before.\<close>

lemma proxy_new_refused:
  assumes rep: "px_rep w X D" and g: "\<not> (grants 3 (px_arena w) \<and> grants 6 (arena (inboxes w)))"
  shows "\<exists>r w'. subscriber_proxy_new i (Some v) w = Some (r, Some v, w') \<and> r \<noteq> 0 \<and> px_rep w' X D
    \<and> msg_arena (message_heap w') = msg_arena (message_heap w)"
proof -
  obtain S G where R: "qs_rep (inboxes w) S" "owns (map_option px_inbox \<circ> proxies w) S (map_option inbox_list \<circ> G)"
    "px_inv (messages (message_heap w)) (proxies w) G D" "X = px_abs (messages (message_heap w)) (proxies w) G"
    "dom (proxies w) \<subseteq> {..ticks (px_arena w)}" "dom (messages (message_heap w)) \<subseteq> {..ticks (msg_arena (message_heap w))}"
    by (rule px_repE [OF rep])
  let ?A = "px_arena w" and ?p = "Suc (ticks (px_arena w))"
  have fresh: "(proxies w)(?p := None) = proxies w" using px_rep_fresh(2) [OF rep] by (simp add: fun_upd_idem)
  have keep: "px_rep (w\<lparr>px_arena := A, inboxes := h\<rparr>) X D" if "qs_rep h S" "world h = message_heap w" "ticks ?A \<le> ticks A" for h A
    using R that by (intro px_repI [of _ S G]) auto
  show ?thesis
  proof (cases "refused ?A")
    case True
    with keep [OF R(1) refl, of "tick ?A"] show ?thesis by (simp add: subscriber_proxy_new_def)
  next
    case A: False
    show ?thesis
    proof (cases "grants 6 (arena (inboxes w))")
      case False
      obtain h where h: "generic_queue_syn_new (Some NULL) (inboxes w) = Some (-1, Some NULL, h)" "qs_rep h S" "world h = message_heap w"
        using syn_new_refused [OF R(1) False, of NULL] by blast
      with A fresh keep [OF h(2,3), of "tick ?A"] show ?thesis by (simp add: subscriber_proxy_new_def)
    next
      case True
      obtain h s where h: "generic_queue_syn_new (Some NULL) (inboxes w) = Some (0, Some (Some s), h)" "S s = None"
        "qs_rep h (S(s \<mapsto> \<lparr>al_items = [], al_free = NULL, al_copy = NULL\<rparr>))" "world h = message_heap w"
        using syn_new_spec [OF R(1) True, of NULL] by blast
      obtain h2 where h2: "generic_queue_syn_set_free_function (Some s) (Some message_free_wrapper) h = Some (0, h2)"
        "qs_rep h2 (S(s \<mapsto> inbox_list []))" "world h2 = message_heap w"
        using syn_set_functions_spec(1) [OF h(3), of s _ "Some message_free_wrapper"] h(4) by (auto simp: inbox_list_def)
      have "free_all (al_free (inbox_list [])) (al_items (inbox_list [])) (world h2) = Some (message_heap w)"
        using h2(3) by (simp add: inbox_list_def)
      from syn_free_spec [OF h2(2) _ this, of s] h(2) obtain h3 where h3: "generic_queue_syn_free (Some s) h2 = Some (0, h3)"
        "qs_rep h3 S" "world h3 = message_heap w" by (auto simp: fun_upd_idem)
      have "refused (tick ?A) \<or> refused (tick (tick ?A))" using g True A not_grants_3 by blast
      then show ?thesis
        using A h(1) h2(1) h3 fresh keep [OF h3(2,3), of "tick (tick ?A)"] keep [OF h3(2,3), of "tick (tick (tick ?A))"]
          sys_init_simps(2,3) [of "tick ?A"] sys_init_simps(2,3) [of "tick (tick ?A)"]
        by (cases "refused (tick ?A)") (simp_all add: subscriber_proxy_new_def case_prod_beta)
    qed
  qed
qed

end
