(* ===== verification/Channel.thy ===== *)
theory Channel
  imports Subscriber
begin

text \<open>
  Channels of \<^verbatim>\<open>src/message_broker.c\<close>: a name, a list of subscriber proxies and a mutex; and the
  part of \<open>_publisher_task\<close> and of \<open>subscription_unsubscribe\<close> that works on one channel.  The list has
  the callbacks that free and copy proxies, so the state on which the callbacks of the heap of lists act is the
  proxy store.

  \<open>ch_rep w C X D\<close> relates a store to its content: \<open>C\<close> gives the name and the proxies of every channel,
  \<open>X\<close> and \<open>D\<close> are as for \<open>px_rep\<close>.
\<close>

section \<open>Definitions\<close>

record channel_t =
  ch_channel_name :: "string ptr"
  ch_subscriber_proxies :: "addr ptr"
  ch_mutex :: pthread_mutex_t

record channel_store =
  channels :: "addr \<rightharpoonup> channel_t"
  ch_arena :: allocator
  subscribers :: "(addr, proxy_store) ll_heap"

abbreviation proxy_heap :: "channel_store \<Rightarrow> proxy_store" where
  "proxy_heap w \<equiv> world (subscribers w)"

abbreviation set_proxy_heap :: "proxy_store \<Rightarrow> channel_store \<Rightarrow> channel_store" where
  "set_proxy_heap pw w \<equiv> w\<lparr>subscribers := (subscribers w)\<lparr>world := pw\<rparr>\<rparr>"

definition malloc_channel :: "channel_store \<Rightarrow> addr ptr \<times> channel_store" where
  "malloc_channel w = (case malloc (ch_arena w) of
     (NULL, A) \<Rightarrow> (NULL, w\<lparr>ch_arena := A\<rparr>)
   | (Some a, A) \<Rightarrow> (Some a, w\<lparr>ch_arena := A, channels := (channels w)(a \<mapsto>
       \<lparr>ch_channel_name = NULL, ch_subscriber_proxies = NULL, ch_mutex = Unlocked\<rparr>)\<rparr>))"

definition channel_at :: "channel_store \<Rightarrow> addr ptr \<Rightarrow> channel_t option" where
  "channel_at w p = Option.bind p (channels w)"

definition modify_channel :: "addr ptr \<Rightarrow> (channel_t \<Rightarrow> channel_t) \<Rightarrow> channel_store \<Rightarrow> channel_store option" where
  "modify_channel p f w = do {
     a \<leftarrow> p;
     c \<leftarrow> channels w a;
     Some (w\<lparr>channels := (channels w)(a \<mapsto> f c)\<rparr>) }"

definition free_channel :: "addr ptr \<Rightarrow> channel_store \<Rightarrow> channel_store option" where
  "free_channel p w = (case p of NULL \<Rightarrow> Some w
     | Some a \<Rightarrow> if channels w a = None then None else Some (w\<lparr>channels := (channels w)(a := None)\<rparr>))"

definition lock_channel :: "addr ptr \<Rightarrow> channel_store \<Rightarrow> channel_store option" where
  "lock_channel p w = do {
     c \<leftarrow> channel_at w p;
     m \<leftarrow> pthread_mutex_lock (ch_mutex c);
     modify_channel p (\<lambda>c. c\<lparr>ch_mutex := m\<rparr>) w }"

definition unlock_channel :: "addr ptr \<Rightarrow> channel_store \<Rightarrow> channel_store option" where
  "unlock_channel p w = do {
     c \<leftarrow> channel_at w p;
     m \<leftarrow> pthread_mutex_unlock (ch_mutex c);
     modify_channel p (\<lambda>c. c\<lparr>ch_mutex := m\<rparr>) w }"

definition destroy_channel_mutex :: "addr ptr \<Rightarrow> channel_store \<Rightarrow> unit option" where
  "destroy_channel_mutex p w = do {
     c \<leftarrow> channel_at w p;
     pthread_mutex_destroy (ch_mutex c) }"

text \<open>A call on the heap of the lists of proxies.\<close>

definition on_subscribers ::
  "((addr, proxy_store) ll_heap \<Rightarrow> ('r \<times> (addr, proxy_store) ll_heap) option) \<Rightarrow> channel_store \<Rightarrow> ('r \<times> channel_store) option" where
  "on_subscribers f w = do {
     (r, h) \<leftarrow> f (subscribers w);
     Some (r, w\<lparr>subscribers := h\<rparr>) }"

definition channel_new ::
  "string ptr \<Rightarrow> addr ptr out \<Rightarrow> channel_store \<Rightarrow> (exit_code \<times> addr ptr out \<times> channel_store) option" where
  "channel_new name out_self w =
     (if name = NULL then Some (1, out_self, w)
      else if out_self = NULL then Some (1, out_self, w)
      else do {
        let (self, w) = malloc_channel w;
        if self = NULL then Some (-1, out_self, w)
        else do {
          let (copy, A) = dup_string name (ch_arena w);
          w \<leftarrow> modify_channel self (\<lambda>c. c\<lparr>ch_channel_name := copy\<rparr>) (w\<lparr>ch_arena := A\<rparr>);
          if copy = NULL then do {
            w \<leftarrow> free_channel self w;
            Some (-1, out_self, w) }
          else do {
            (exit_code, field, h) \<leftarrow> generic_linked_list_new (Some NULL) (subscribers w);
            l \<leftarrow> field;
            w \<leftarrow> modify_channel self (\<lambda>c. c\<lparr>ch_subscriber_proxies := l\<rparr>) (w\<lparr>subscribers := h\<rparr>);
            if exit_code \<noteq> 0 then do {
              w \<leftarrow> free_channel self w;
              Some (exit_code, out_self, w) }
            else do {
              (_, w) \<leftarrow> on_subscribers (generic_linked_list_set_free_function l (Some subscriber_proxy_free_wrapper)) w;
              (_, w) \<leftarrow> on_subscribers (generic_linked_list_set_copy_function l (Some subscriber_proxy_copy)) w;
              let (exit_code, A) = sys_init (ch_arena w);
              let w = w\<lparr>ch_arena := A\<rparr>;
              if exit_code \<noteq> 0 then do {
                (_, w) \<leftarrow> on_subscribers (generic_linked_list_free l) w;
                w \<leftarrow> free_channel self w;
                Some (exit_code, out_self, w) }
              else do {
                w \<leftarrow> modify_channel self (\<lambda>c. c\<lparr>ch_mutex := Unlocked\<rparr>) w;
                Some (0, Some self, w) } } } } })"

definition channel_free :: "addr ptr \<Rightarrow> channel_store \<Rightarrow> channel_store option" where
  "channel_free self w =
     (if self = NULL then Some w
      else do {
        w \<leftarrow> lock_channel self w;
        c \<leftarrow> channel_at w self;
        (_, w) \<leftarrow> on_subscribers (generic_linked_list_free (ch_subscriber_proxies c)) w;
        w \<leftarrow> unlock_channel self w;
        _ \<leftarrow> destroy_channel_mutex self w;
        free_channel self w })"

definition channel_free_wrapper :: "(addr, channel_store) free_fn" where
  "channel_free_wrapper data w = (if data = NULL then Some w else channel_free data w)"

text \<open>
  The body of the loop of \<open>_publisher_task\<close> over the subscribers, and the loop.
\<close>

definition deliver_one ::
  "uint64_t \<Rightarrow> string ptr \<Rightarrow> string ptr \<Rightarrow> addr ptr \<Rightarrow> proxy_store \<Rightarrow> proxy_store option" where
  "deliver_one message_id channel_name content proxy w = do {
     (exit_code, field, mw) \<leftarrow> message_new message_id channel_name content (Some NULL) (message_heap w);
     msg_copy \<leftarrow> field;
     let w = set_message_heap mw w;
     if exit_code = 0 \<and> msg_copy \<noteq> NULL then do {
       (exit_code, w) \<leftarrow> subscriber_proxy_enqueue proxy msg_copy w;
       if exit_code \<noteq> 0 then do {
         (_, mw) \<leftarrow> message_free msg_copy (message_heap w);
         Some (set_message_heap mw w) }
       else Some w }
     else Some w }"

partial_function (option) deliver_loop ::
  "uint64_t \<Rightarrow> string ptr \<Rightarrow> string ptr \<Rightarrow> addr ptr \<Rightarrow> (addr, proxy_store) ll_heap \<Rightarrow> (addr, proxy_store) ll_heap option" where
  "deliver_loop message_id channel_name content iter h = do {
     valid \<leftarrow> generic_linked_list_iterator_is_valid iter h;
     if valid \<noteq> 0 then Some h
     else do {
       (exit_code, field) \<leftarrow> generic_linked_list_iterator_get iter (Some NULL) h;
       proxy \<leftarrow> field;
       h \<leftarrow> (if exit_code = 0 \<and> proxy \<noteq> NULL then do {
              x \<leftarrow> proxy_at (world h) proxy;
              if px_active x then do {
                w \<leftarrow> deliver_one message_id channel_name content proxy (world h);
                Some (h\<lparr>world := w\<rparr>) }
              else Some h }
            else Some h);
       (_, h) \<leftarrow> generic_linked_list_iterator_next iter h;
       deliver_loop message_id channel_name content iter h } }"

text \<open>The delivery to the subscribers of a channel: the part of \<open>_publisher_task\<close> under the mutex of the channel.\<close>

definition deliver ::
  "uint64_t \<Rightarrow> string ptr \<Rightarrow> string ptr \<Rightarrow> addr ptr \<Rightarrow> channel_store \<Rightarrow> channel_store option" where
  "deliver message_id channel_name content channel w = do {
     w \<leftarrow> lock_channel channel w;
     c \<leftarrow> channel_at w channel;
     (_, field) \<leftarrow> generic_linked_list_size (ch_subscriber_proxies c) (Some 0) (subscribers w);
     subscriber_count \<leftarrow> field;
     w \<leftarrow> (if subscriber_count \<noteq> 0 then do {
            (exit_code, field, h) \<leftarrow> generic_linked_list_iterator_begin (ch_subscriber_proxies c) (Some NULL) (subscribers w);
            iter \<leftarrow> field;
            if exit_code = 0 then do {
              h \<leftarrow> deliver_loop message_id channel_name content iter h;
              (_, h) \<leftarrow> generic_linked_list_iterator_free iter h;
              Some (w\<lparr>subscribers := h\<rparr>) }
            else Some (w\<lparr>subscribers := h\<rparr>) }
          else Some w);
     unlock_channel channel w }"

text \<open>
  The search of \<open>subscription_unsubscribe\<close> for the proxy with the identity of the subscription, which is removed and so
  freed; and the part of that function under the mutex of the channel.
\<close>

partial_function (option) unsubscribe_loop ::
  "uint64_t \<Rightarrow> addr ptr \<Rightarrow> (addr, proxy_store) ll_heap \<Rightarrow> (addr, proxy_store) ll_heap option" where
  "unsubscribe_loop sid iter h = do {
     valid \<leftarrow> generic_linked_list_iterator_is_valid iter h;
     if valid \<noteq> 0 then Some h
     else do {
       (exit_code, field) \<leftarrow> generic_linked_list_iterator_get iter (Some NULL) h;
       proxy \<leftarrow> field;
       found \<leftarrow> (if exit_code = 0 \<and> proxy \<noteq> NULL then do {
                  x \<leftarrow> proxy_at (world h) proxy;
                  Some (px_id x = sid) }
                else Some False);
       if found then do {
         (_, _, h) \<leftarrow> generic_linked_list_iterator_remove iter NULL h;
         Some h }
       else do {
         (_, h) \<leftarrow> generic_linked_list_iterator_next iter h;
         unsubscribe_loop sid iter h } } }"

definition drop_proxy :: "uint64_t \<Rightarrow> addr ptr \<Rightarrow> channel_store \<Rightarrow> channel_store option" where
  "drop_proxy sid channel w = do {
     w \<leftarrow> lock_channel channel w;
     c \<leftarrow> channel_at w channel;
     (exit_code, field, h) \<leftarrow> generic_linked_list_iterator_begin (ch_subscriber_proxies c) (Some NULL) (subscribers w);
     iter \<leftarrow> field;
     h \<leftarrow> (if exit_code = 0 then do {
            h \<leftarrow> unsubscribe_loop sid iter h;
            (_, h) \<leftarrow> generic_linked_list_iterator_free iter h;
            Some h }
          else Some h);
     unlock_channel channel (w\<lparr>subscribers := h\<rparr>) }"

text \<open>The part of \<open>message_broker_subscribe\<close> under the mutex of the channel.\<close>

definition add_proxy :: "addr ptr \<Rightarrow> addr ptr \<Rightarrow> channel_store \<Rightarrow> (exit_code, channel_store) res" where
  "add_proxy ch proxy w = do {
     w \<leftarrow> lock_channel ch w;
     c \<leftarrow> channel_at w ch;
     (exit_code, w) \<leftarrow> on_subscribers (generic_linked_list_insert_last (ch_subscriber_proxies c) proxy) w;
     w \<leftarrow> unlock_channel ch w;
     Some (exit_code, w) }"

section \<open>Representation\<close>

record achannel =
  ac_name :: string
  ac_proxies :: "addr list"

definition proxy_list :: "addr list \<Rightarrow> (addr, proxy_store) alist" where
  "proxy_list ps = \<lparr>al_items = map Some ps, al_free = Some subscriber_proxy_free_wrapper, al_copy = Some subscriber_proxy_copy\<rparr>"

text \<open>No proxy is in two channels.\<close>

definition ch_inv :: "(addr \<rightharpoonup> channel_t) \<Rightarrow> (addr \<rightharpoonup> achannel) \<Rightarrow> (addr \<rightharpoonup> aproxy) \<Rightarrow> bool" where
  "ch_inv K C X \<longleftrightarrow> (\<forall>c r A. K c = Some r \<longrightarrow> C c = Some A \<longrightarrow> ch_mutex r = Unlocked \<and> ch_channel_name r = Some (ac_name A))
     \<and> (\<forall>c A. C c = Some A \<longrightarrow> distinct (ac_proxies A) \<and> set (ac_proxies A) \<subseteq> dom X)
     \<and> (\<forall>c d A B. c \<noteq> d \<longrightarrow> C c = Some A \<longrightarrow> C d = Some B \<longrightarrow> set (ac_proxies A) \<inter> set (ac_proxies B) = {})"

definition ch_rep ::
  "channel_store \<Rightarrow> (addr \<rightharpoonup> achannel) \<Rightarrow> (addr \<rightharpoonup> aproxy) \<Rightarrow> (addr \<rightharpoonup> message_t) \<Rightarrow> bool" where
  "ch_rep w C X D \<longleftrightarrow> (\<exists>M. ll_rep (subscribers w) M Map.empty
       \<and> owns (map_option ch_subscriber_proxies \<circ> channels w) M (map_option (\<lambda>A. proxy_list (ac_proxies A)) \<circ> C))
     \<and> iters (subscribers w) = Map.empty \<and> ch_inv (channels w) C X \<and> px_rep (proxy_heap w) X D
     \<and> dom (channels w) \<subseteq> {..ticks (ch_arena w)}"

lemma ll_rep_world [simp]: "ll_rep (h\<lparr>world := x\<rparr>) M I \<longleftrightarrow> ll_rep h M I"
  by (simp add: ll_rep_def)

lemma ch_repE:
  assumes "ch_rep w C X D"
  obtains M where "ll_rep (subscribers w) M Map.empty"
    and "owns (map_option ch_subscriber_proxies \<circ> channels w) M (map_option (\<lambda>A. proxy_list (ac_proxies A)) \<circ> C)"
    and "iters (subscribers w) = Map.empty" and "ch_inv (channels w) C X" and "px_rep (proxy_heap w) X D"
    and "dom (channels w) \<subseteq> {..ticks (ch_arena w)}"
  using assms unfolding ch_rep_def by blast

lemma ch_repI:
  assumes "ll_rep (subscribers w) M Map.empty"
    and "owns (map_option ch_subscriber_proxies \<circ> channels w) M (map_option (\<lambda>A. proxy_list (ac_proxies A)) \<circ> C)"
    and "iters (subscribers w) = Map.empty" and "ch_inv (channels w) C X" and "px_rep (proxy_heap w) X D"
    and "dom (channels w) \<subseteq> {..ticks (ch_arena w)}"
  shows "ch_rep w C X D"
  using assms unfolding ch_rep_def by blast

lemmas channel_accesses [simp] = malloc_channel_def modify_channel_def channel_at_def free_channel_def lock_channel_def
  unlock_channel_def destroy_channel_mutex_def on_subscribers_def

lemma ch_invD:
  assumes "ch_inv K C X"
  shows "K c = Some r \<Longrightarrow> C c = Some A \<Longrightarrow> ch_mutex r = Unlocked"
    and "K c = Some r \<Longrightarrow> C c = Some A \<Longrightarrow> ch_channel_name r = Some (ac_name A)"
    and "C c = Some A \<Longrightarrow> distinct (ac_proxies A)" and "C c = Some A \<Longrightarrow> p \<in> set (ac_proxies A) \<Longrightarrow> \<exists>Y. X p = Some Y"
    and "C c = Some A \<Longrightarrow> C d = Some B \<Longrightarrow> p \<in> set (ac_proxies A) \<Longrightarrow> p \<in> set (ac_proxies B) \<Longrightarrow> c = d"
proof -
  have H: "\<forall>c r A. K c = Some r \<longrightarrow> C c = Some A \<longrightarrow> ch_mutex r = Unlocked \<and> ch_channel_name r = Some (ac_name A)"
    "\<forall>c A. C c = Some A \<longrightarrow> distinct (ac_proxies A) \<and> set (ac_proxies A) \<subseteq> dom X"
    "\<forall>c d A B. c \<noteq> d \<longrightarrow> C c = Some A \<longrightarrow> C d = Some B \<longrightarrow> set (ac_proxies A) \<inter> set (ac_proxies B) = {}"
    using assms [unfolded ch_inv_def] by - (elim conjE, assumption)+
  show "K c = Some r \<Longrightarrow> C c = Some A \<Longrightarrow> ch_mutex r = Unlocked" using H(1) by blast
  show "K c = Some r \<Longrightarrow> C c = Some A \<Longrightarrow> ch_channel_name r = Some (ac_name A)" using H(1) by blast
  show "C c = Some A \<Longrightarrow> distinct (ac_proxies A)" using H(2) by blast
  show "C c = Some A \<Longrightarrow> p \<in> set (ac_proxies A) \<Longrightarrow> \<exists>Y. X p = Some Y" using H(2) by blast
  show "C c = Some A \<Longrightarrow> C d = Some B \<Longrightarrow> p \<in> set (ac_proxies A) \<Longrightarrow> p \<in> set (ac_proxies B) \<Longrightarrow> c = d"
    using H(3) by (meson disjoint_iff)
qed

lemma ch_invI:
  assumes "\<And>c r A. K c = Some r \<Longrightarrow> C c = Some A \<Longrightarrow> ch_mutex r = Unlocked \<and> ch_channel_name r = Some (ac_name A)"
    and "\<And>c A. C c = Some A \<Longrightarrow> distinct (ac_proxies A)" and "\<And>c A p. C c = Some A \<Longrightarrow> p \<in> set (ac_proxies A) \<Longrightarrow> \<exists>Y. X p = Some Y"
    and "\<And>c d A B p. C c = Some A \<Longrightarrow> C d = Some B \<Longrightarrow> p \<in> set (ac_proxies A) \<Longrightarrow> p \<in> set (ac_proxies B) \<Longrightarrow> c = d"
  shows "ch_inv K C X"
proof -
  have "\<forall>c A. C c = Some A \<longrightarrow> distinct (ac_proxies A) \<and> set (ac_proxies A) \<subseteq> dom X" using assms(2,3) by fast
  moreover have "\<forall>c d A B. c \<noteq> d \<longrightarrow> C c = Some A \<longrightarrow> C d = Some B \<longrightarrow> set (ac_proxies A) \<inter> set (ac_proxies B) = {}"
    using assms(4) by blast
  ultimately show ?thesis using assms(1) unfolding ch_inv_def by blast
qed

text \<open>A channel with its list.\<close>

lemma channel_viewE:
  assumes "ch_rep w C X D" and "C c = Some A"
  obtains M r l where "ll_rep (subscribers w) M Map.empty"
    and "owns (map_option ch_subscriber_proxies \<circ> channels w) M (map_option (\<lambda>A. proxy_list (ac_proxies A)) \<circ> C)"
    and "iters (subscribers w) = Map.empty" and "ch_inv (channels w) C X" and "px_rep (proxy_heap w) X D"
    and "dom (channels w) \<subseteq> {..ticks (ch_arena w)}"
    and "channels w c = Some r" and "ch_subscriber_proxies r = Some l" and "ch_mutex r = Unlocked"
    and "M l = Some (proxy_list (ac_proxies A))"
proof -
  obtain M where R: "ll_rep (subscribers w) M Map.empty"
    "owns (map_option ch_subscriber_proxies \<circ> channels w) M (map_option (\<lambda>A. proxy_list (ac_proxies A)) \<circ> C)"
    "iters (subscribers w) = Map.empty" "ch_inv (channels w) C X" "px_rep (proxy_heap w) X D"
    "dom (channels w) \<subseteq> {..ticks (ch_arena w)}"
    by (rule ch_repE [OF assms(1)])
  have "(map_option (\<lambda>A. proxy_list (ac_proxies A)) \<circ> C) c = Some (proxy_list (ac_proxies A))" using assms(2) by simp
  then obtain l where l: "(map_option ch_subscriber_proxies \<circ> channels w) c = Some (Some l)" "M l = Some (proxy_list (ac_proxies A))"
    by (rule ownsE' [OF R(2)])
  then obtain r where r: "channels w c = Some r" "ch_subscriber_proxies r = Some l" by auto
  show thesis by (rule that [OF R r ch_invD(1) [OF R(4) r(1) assms(2)] l(2)])
qed

section \<open>Delivery\<close>

text \<open>The message reaches the inboxes of those of the given proxies that are active.\<close>

definition delivered :: "message_t \<Rightarrow> addr set \<Rightarrow> (addr \<rightharpoonup> aproxy) \<Rightarrow> addr \<rightharpoonup> aproxy" where
  "delivered a P X = (\<lambda>p. if p \<in> P then map_option (\<lambda>Y. if ax_active Y then Y\<lparr>ax_msgs := ax_msgs Y @ [a]\<rparr> else Y) (X p) else X p)"

lemma dom_delivered [simp]: "dom (delivered a P X) = dom X"
  by (auto simp: delivered_def dom_def)

lemma delivered_empty [simp]: "delivered a {} X = X"
  by (simp add: delivered_def)

lemma delivered_insert:
  "X p = Some Y \<Longrightarrow> p \<notin> P \<Longrightarrow> delivered a P (X(p \<mapsto> if ax_active Y then Y\<lparr>ax_msgs := ax_msgs Y @ [a]\<rparr> else Y)) = delivered a (insert p P) X"
  by (auto simp: delivered_def fun_eq_iff)

abbreviation new_message :: "uint64_t \<Rightarrow> string \<Rightarrow> string \<Rightarrow> message_t" where
  "new_message i c s \<equiv> \<lparr>msg_id = i, msg_channel_name = Some (c_str c), msg_content = Some (c_str s)\<rparr>"

lemma deliver_one_spec:
  assumes rep: "px_rep w X D" "X p = Some Y" "ax_active Y"
  shows "\<exists>w'. deliver_one i (Some c) (Some s) (Some p) w = Some w'
    \<and> (if grants 3 (msg_arena (message_heap w)) \<and> \<not> refused (arena (inboxes w))
       then px_rep w' (X(p \<mapsto> Y\<lparr>ax_msgs := ax_msgs Y @ [new_message i c s]\<rparr>)) D
         \<and> msg_arena (message_heap w') = (tick ^^ 3) (msg_arena (message_heap w)) \<and> arena (inboxes w') = tick (arena (inboxes w))
       else px_rep w' X D)"
proof (cases "grants 3 (msg_arena (message_heap w))")
  case False
  with message_new_refused [OF rep(1) False, of i c s NULL] show ?thesis by (auto simp: deliver_one_def)
next
  case True
  obtain m mw where m: "message_new i (Some c) (Some s) (Some NULL) (message_heap w) = Some (0, Some (Some m), mw)" "D m = None"
    "px_rep (set_message_heap mw w) X (D(m \<mapsto> new_message i c s))" "msg_arena mw = (tick ^^ 3) (msg_arena (message_heap w))"
    using message_new_spec [OF rep(1) True, of i c s NULL] by blast
  have D: "(D(m \<mapsto> new_message i c s)) m = Some (new_message i c s)" "(D(m \<mapsto> new_message i c s))(m := None) = D" using m(2) by (auto simp: fun_upd_idem)
  show ?thesis
  proof (cases "refused (arena (inboxes w))")
    case False
    obtain w1 where "subscriber_proxy_enqueue (Some p) (Some m) (set_message_heap mw w) = Some (0, w1)"
      "px_rep w1 (X(p \<mapsto> Y\<lparr>ax_msgs := ax_msgs Y @ [new_message i c s]\<rparr>)) D" "arena (inboxes w1) = tick (arena (inboxes w))"
      "msg_arena (message_heap w1) = msg_arena mw"
      using proxy_enqueue_spec [OF m(3) rep(2,3) D(1), unfolded D(2)] False by auto
    with False True m(1,4) show ?thesis by (simp add: deliver_one_def)
  next
    case refused: True
    obtain w1 r where w1: "subscriber_proxy_enqueue (Some p) (Some m) (set_message_heap mw w) = Some (r, w1)" "r \<noteq> 0"
      "px_rep w1 X (D(m \<mapsto> new_message i c s))"
      using proxy_enqueue_fails [OF m(3) rep(2), of m] refused by auto
    obtain mw2 where "message_free (Some m) (message_heap w1) = Some (0, mw2)" "px_rep (set_message_heap mw2 w1) X D"
      using message_free_spec [OF w1(3) D(1), unfolded D(2)] by auto
    with m(1) w1 refused show ?thesis by (simp add: deliver_one_def)
  qed
qed

lemma deliver_loop_spec:
  assumes "ll_rep h M I" and "I it = Some (l, Suc k)" and "M l = Some (proxy_list ps)" and "k \<le> length ps"
    and "px_rep (world h) X D" and "distinct ps" and "set ps \<subseteq> dom X"
  shows "\<exists>h' P. deliver_loop i (Some c) (Some s) (Some it) h = Some h' \<and> P \<subseteq> set (drop k ps)
    \<and> px_rep (world h') (delivered (new_message i c s) P X) D
    \<and> ll_rep h' M (I(it \<mapsto> (l, Suc (length ps)))) \<and> iter_only it h h' \<and> arena h' = arena h
    \<and> (grants (3 * (length ps - k)) (msg_arena (message_heap (world h))) \<and> grants (length ps - k) (arena (inboxes (world h)))
       \<longrightarrow> P = set (drop k ps))"
  using assms
proof (induction "length ps - k" arbitrary: h I k X)
  case 0
  then have k: "k = length ps" by simp
  have I: "I(it \<mapsto> (l, Suc (length ps))) = I" using 0(3) k by (simp add: fun_upd_idem_iff)
  have "deliver_loop i (Some c) (Some s) (Some it) h = Some h"
    using is_end_spec(3) [OF 0(2-4)] k by (subst deliver_loop.simps) (simp add: proxy_list_def)
  with 0(2,6) k show ?case unfolding I by (intro exI [of _ h] exI [of _ "{}"]) simp
next
  case (Suc d)
  then have k: "k < length ps" "d = length ps - Suc k" by auto
  let ?p = "ps ! k" and ?a = "new_message i c s"
  have drop: "drop k ps = ?p # drop (Suc k) ps" using k(1) by (rule Cons_nth_drop_Suc [symmetric])
  have new: "?p \<notin> set (drop (Suc k) ps)" using Suc.prems(6) drop by (metis distinct.simps(2) distinct_drop)
  obtain Y where Y: "X ?p = Some Y" using Suc.prems(7) k(1) nth_mem by blast
  obtain x where x: "proxies (world h) ?p = Some x" "px_active x = ax_active Y"
    using px_rep_proxy [OF Suc.prems(5) Y] by blast
  let ?Y = "if ax_active Y then Y\<lparr>ax_msgs := ax_msgs Y @ [?a]\<rparr> else Y"
  let ?g = "grants 3 (msg_arena (message_heap (world h))) \<and> \<not> refused (arena (inboxes (world h)))"
  let ?more = "\<lambda>w. grants (3 * d) (msg_arena (message_heap w)) \<and> grants d (arena (inboxes w))"
  obtain w1 X1 where w1: "(if px_active x then do { w \<leftarrow> deliver_one i (Some c) (Some s) (Some ?p) (world h); Some (h\<lparr>world := w\<rparr>) } else Some h)
      = Some (h\<lparr>world := w1\<rparr>)" "px_rep w1 X1 D" "X1 = X \<or> X1 = X(?p \<mapsto> ?Y)"
      "grants (3 * Suc d) (msg_arena (message_heap (world h))) \<and> grants (Suc d) (arena (inboxes (world h))) \<longrightarrow> X1 = X(?p \<mapsto> ?Y) \<and> ?more w1"
  proof (cases "ax_active Y")
    case True
    obtain w' where w': "deliver_one i (Some c) (Some s) (Some ?p) (world h) = Some w'"
      "if ?g then px_rep w' (X(?p \<mapsto> Y\<lparr>ax_msgs := ax_msgs Y @ [?a]\<rparr>)) D \<and> msg_arena (message_heap w') = (tick ^^ 3) (msg_arena (message_heap (world h)))
         \<and> arena (inboxes w') = tick (arena (inboxes (world h))) else px_rep w' X D"
      using deliver_one_spec [OF Suc.prems(5) Y True, of i c s] by blast
    have split: "grants (3 + 3 * d) A \<longleftrightarrow> grants 3 A \<and> grants (3 * d) ((tick ^^ 3) A)" for A
      using grants_add [of 3 "3 * d" A] by simp
    show thesis by (rule that [of w' "if ?g then X(?p \<mapsto> ?Y) else X"]) (use w' x(2) True in \<open>auto simp: split grants_Suc\<close>)
  next
    case False
    have X: "X = X(?p \<mapsto> ?Y)" using False Y by (simp add: fun_upd_idem)
    show thesis
    proof (rule that [of "world h" X])
      show "grants (3 * Suc d) (msg_arena (message_heap (world h))) \<and> grants (Suc d) (arena (inboxes (world h)))
        \<longrightarrow> X = X(?p \<mapsto> ?Y) \<and> ?more (world h)"
        using X by (auto elim: grants_mono)
    qed (use False x(2) Suc.prems(5) in simp_all)
  qed
  obtain h1 where h1: "generic_linked_list_iterator_next (Some it) (h\<lparr>world := w1\<rparr>) = Some (0, h1)"
    "ll_rep h1 M (I(it \<mapsto> (l, Suc (Suc k))))" "iter_only it h h1" "arena h1 = arena h" "world h1 = w1"
    using next_spec [of "h\<lparr>world := w1\<rparr>" M I it l "Suc k"] Suc.prems(1-3) k by (auto simp: proxy_list_def)
  have step: "deliver_loop i (Some c) (Some s) (Some it) h = deliver_loop i (Some c) (Some s) (Some it) h1"
    using is_end_spec(3) [OF Suc.prems(1-3)] get_spec [OF Suc.prems(1-3), of NULL] k x(1) w1(1) h1(1)
    by (subst deliver_loop.simps) (simp add: proxy_list_def)
  have dom1: "set ps \<subseteq> dom X1" using Suc.prems(7) w1(3) by auto
  obtain h' P where h': "deliver_loop i (Some c) (Some s) (Some it) h1 = Some h'" "P \<subseteq> set (drop (Suc k) ps)"
    "px_rep (world h') (delivered ?a P X1) D" "ll_rep h' M (I(it \<mapsto> (l, Suc (length ps))))" "iter_only it h1 h'" "arena h' = arena h1"
    "?more w1 \<longrightarrow> P = set (drop (Suc k) ps)"
    using Suc.hyps(1) [OF k(2) h1(2) _ Suc.prems(3) _ _ Suc.prems(6) dom1] k w1(2) h1(5) by auto
  define P' where "P' = (if X1 = X(?p \<mapsto> ?Y) then insert ?p P else P)"
  have "?p \<notin> P" using h'(2) new by blast
  then have "delivered ?a P (X(?p \<mapsto> ?Y)) = delivered ?a (insert ?p P) X" by (rule delivered_insert [of X ?p Y P ?a, OF Y])
  then have "delivered ?a P X1 = delivered ?a P' X" using w1(3) by (auto simp: P'_def)
  moreover have "P' \<subseteq> set (drop k ps)" using h'(2) unfolding drop by (auto simp: P'_def)
  moreover have "P' = set (drop k ps)" if "grants (3 * Suc d) (msg_arena (message_heap (world h))) \<and> grants (Suc d) (arena (inboxes (world h)))"
    using w1(4) h'(7) that unfolding drop by (simp add: P'_def)
  ultimately show ?case using h' step h1(3,4) Suc.hyps(2) by (intro exI [of _ h'] exI [of _ P']) auto
qed

lemma ch_inv_dom: "ch_inv K C X \<Longrightarrow> dom X \<subseteq> dom X' \<Longrightarrow> ch_inv K C X'"
  unfolding ch_inv_def by fast

text \<open>Stores that differ in the proxies and their inboxes only.\<close>

lemma ch_rep_proxies:
  assumes "ch_rep w C X D" and "px_rep pw X' D'" and "dom X \<subseteq> dom X'"
  shows "ch_rep (set_proxy_heap pw w) C X' D'"
proof -
  obtain M where R: "ll_rep (subscribers w) M Map.empty"
    "owns (map_option ch_subscriber_proxies \<circ> channels w) M (map_option (\<lambda>A. proxy_list (ac_proxies A)) \<circ> C)"
    "iters (subscribers w) = Map.empty" "ch_inv (channels w) C X" "px_rep (proxy_heap w) X D"
    "dom (channels w) \<subseteq> {..ticks (ch_arena w)}"
    by (rule ch_repE [OF assms(1)])
  with assms(2,3) ch_inv_dom show ?thesis by (intro ch_repI [of _ M]) auto
qed

lemma deliver_spec:
  assumes rep: "ch_rep w C X D" "C ch = Some A"
  shows "\<exists>w' P. deliver i (Some c) (Some s) (Some ch) w = Some w' \<and> P \<subseteq> set (ac_proxies A)
    \<and> ch_rep w' C (delivered (new_message i c s) P X) D \<and> ch_arena w' = ch_arena w
    \<and> (\<not> refused (arena (subscribers w)) \<and> grants (3 * length (ac_proxies A)) (msg_arena (message_heap (proxy_heap w)))
       \<and> grants (length (ac_proxies A)) (arena (inboxes (proxy_heap w))) \<longrightarrow> P = set (ac_proxies A))"
proof -
  obtain M r l where R: "ll_rep (subscribers w) M Map.empty"
    "owns (map_option ch_subscriber_proxies \<circ> channels w) M (map_option (\<lambda>A. proxy_list (ac_proxies A)) \<circ> C)"
    "iters (subscribers w) = Map.empty" "ch_inv (channels w) C X" "px_rep (proxy_heap w) X D"
    "dom (channels w) \<subseteq> {..ticks (ch_arena w)}"
    and V: "channels w ch = Some r" "ch_subscriber_proxies r = Some l" "ch_mutex r = Unlocked" "M l = Some (proxy_list (ac_proxies A))"
    by (rule channel_viewE [OF rep])
  let ?h = "subscribers w" and ?ps = "ac_proxies A" and ?a = "new_message i c s"
  have idem: "(channels w)(ch \<mapsto> r\<lparr>ch_mutex := Unlocked\<rparr>) = channels w" using V(1,3) by (auto simp: fun_upd_idem_iff)
  have size: "generic_linked_list_size (Some l) (Some 0) ?h = Some (0, Some (of_nat (length ?ps)))" "length ?ps \<le> block_limit"
    using size_spec(1) [OF R(1) V(4), of 0] size_spec(2) [OF R(1) V(4)] by (simp_all add: proxy_list_def)
  have fin: "ch_rep (w\<lparr>subscribers := h\<rparr>) C X' D" if "ll_rep h M Map.empty" "iters h = Map.empty" "px_rep (world h) X' D" "dom X' = dom X" for h X'
    using R that ch_inv_dom [OF R(4), of X'] by (intro ch_repI [of _ M]) simp_all
  show ?thesis
  proof (cases "?ps = []")
    case True
    then have "deliver i (Some c) (Some s) (Some ch) w = Some w"
      using V size idem by (simp add: deliver_def)
    with True rep(1) show ?thesis by (intro exI [of _ w] exI [of _ "{}"]) simp
  next
    case False
    then have count: "of_nat (length ?ps) \<noteq> (0 :: size_t)" using of_nat_eq_0_size_t [OF size(2)] by simp
    show ?thesis
    proof (cases "refused (arena ?h)")
      case True
      obtain h1 where h1: "generic_linked_list_iterator_begin (Some l) (Some NULL) ?h = Some (-1, Some NULL, h1)"
        "ll_rep h1 M Map.empty" "iters h1 = iters ?h" "world h1 = world ?h"
        using open_refused [OF R(1) True, of l NULL] by blast
      then have "deliver i (Some c) (Some s) (Some ch) w = Some (w\<lparr>subscribers := h1\<rparr>)"
        using V size(1) count idem by (simp add: deliver_def)
      with fin [OF h1(2), of X] h1(3,4) R(3,5) True show ?thesis
        by (intro exI [of _ "w\<lparr>subscribers := h1\<rparr>"] exI [of _ "{}"]) simp
    next
      case granted: False
      obtain h1 it where h1: "generic_linked_list_iterator_begin (Some l) (Some NULL) ?h = Some (0, Some (Some it), h1)"
        "ll_rep h1 M [it \<mapsto> (l, Suc 0)]" "iter_only it ?h h1" "world h1 = world ?h"
        using begin_spec [OF R(1) V(4) granted, of NULL] by auto
      have px1: "px_rep (world h1) X D" using R(5) h1(4) by simp
      have ps: "distinct ?ps" "set ?ps \<subseteq> dom X" using ch_invD(3,4) [OF R(4) rep(2)] by auto
      obtain h2 P where h2: "deliver_loop i (Some c) (Some s) (Some it) h1 = Some h2" "P \<subseteq> set ?ps"
        "px_rep (world h2) (delivered ?a P X) D" "ll_rep h2 M [it \<mapsto> (l, Suc (length ?ps))]" "iter_only it h1 h2"
        "grants (3 * length ?ps) (msg_arena (message_heap (world h1))) \<and> grants (length ?ps) (arena (inboxes (world h1))) \<longrightarrow> P = set ?ps"
        using deliver_loop_spec [OF h1(2) _ V(4) _ px1 ps, of it 0 i c s] by auto
      obtain h3 where h3: "generic_linked_list_iterator_free (Some it) h2 = Some (0, h3)" "ll_rep h3 M Map.empty"
        "iters h3 = (iters h2)(it := None)" "world h3 = world h2"
        using iterator_free_spec [OF h2(4), of it l "Suc (length ?ps)"] by auto
      have "deliver i (Some c) (Some s) (Some ch) w = Some (w\<lparr>subscribers := h3\<rparr>)"
        using V size(1) count idem h1(1) h2(1) h3(1) by (simp add: deliver_def)
      moreover have "iters h3 = Map.empty" using h3(3) h2(5) h1(3) R(3) by simp
      then have "ch_rep (w\<lparr>subscribers := h3\<rparr>) C (delivered ?a P X) D" using fin [OF h3(2)] h3(4) h2(3) by simp
      ultimately show ?thesis using h2(2,6) h1(4) by (intro exI [of _ "w\<lparr>subscribers := h3\<rparr>"] exI [of _ P]) simp
    qed
  qed
qed

section \<open>Membership\<close>

text \<open>The position of the first proxy with a given identity.\<close>

definition id_pos :: "(addr \<rightharpoonup> aproxy) \<Rightarrow> uint64_t \<Rightarrow> addr list \<Rightarrow> nat" where
  "id_pos X sid ps = length (takeWhile (\<lambda>p. map_option ax_id (X p) \<noteq> Some sid) ps)"

lemma id_pos_le: "id_pos X sid ps \<le> length ps"
  unfolding id_pos_def by (rule length_takeWhile_le)

lemma id_pos_before: "k < id_pos X sid ps \<Longrightarrow> map_option ax_id (X (ps ! k)) \<noteq> Some sid"
proof -
  let ?P = "\<lambda>p. map_option ax_id (X p) \<noteq> Some sid"
  assume "k < id_pos X sid ps"
  then have k: "k < length (takeWhile ?P ps)" by (simp add: id_pos_def)
  from set_takeWhileD [OF nth_mem [OF k]] takeWhile_nth [OF k] show ?thesis by simp
qed

lemma id_pos_match: "id_pos X sid ps < length ps \<Longrightarrow> map_option ax_id (X (ps ! id_pos X sid ps)) = Some sid"
  unfolding id_pos_def using nth_length_takeWhile by blast

abbreviation without :: "nat \<Rightarrow> 'x list \<Rightarrow> 'x list" where
  "without k xs \<equiv> take k xs @ drop (Suc k) xs"

lemma unsubscribe_loop_spec:
  assumes "ll_rep h M [it \<mapsto> (l, Suc k)]" and "M l = Some (proxy_list ps)" and "k \<le> id_pos X sid ps"
    and "px_rep (world h) X D" and "set ps \<subseteq> dom X"
  shows "\<exists>h'. unsubscribe_loop sid (Some it) h = Some h' \<and> iter_only it h h' \<and> arena h' = arena h
    \<and> (let pos = id_pos X sid ps in if pos < length ps
       then px_rep (world h') (X(ps ! pos := None)) D \<and> ll_rep h' (M(l \<mapsto> proxy_list (without pos ps))) [it \<mapsto> (l, Suc pos)]
       else px_rep (world h') X D \<and> ll_rep h' M [it \<mapsto> (l, Suc (length ps))])"
  using assms
proof (induction "id_pos X sid ps - k" arbitrary: h k)
  case 0
  then have k: "k = id_pos X sid ps" by simp
  have at: "[it \<mapsto> (l, Suc k)] it = Some (l, Suc k)" by simp
  show ?case
  proof (cases "k < length ps")
    case True
    obtain Y where Y: "X (ps ! k) = Some Y" "ax_id Y = sid" using id_pos_match [of X sid ps] True k by auto
    obtain x where x: "proxies (world h) (ps ! k) = Some x" "px_id x = sid" using px_rep_proxy [OF 0(5) Y(1)] Y(2) by auto
    obtain w' where w': "subscriber_proxy_free (Some (ps ! k)) (world h) = Some w'" "px_rep w' (X(ps ! k := None)) D"
      using proxy_free_spec [OF 0(5) Y(1)] by blast
    have "al_give (proxy_list ps) (al_items (proxy_list ps) ! (Suc k - 1)) NULL (world h) = Some (NULL, w')"
      using w'(1) True by (simp add: al_give_def proxy_list_def subscriber_proxy_free_wrapper_def)
    from iterator_remove_spec [OF 0(2) at 0(3) _ _ _ this, unfolded drop_iters_single] True obtain h' where
      h': "generic_linked_list_iterator_remove (Some it) NULL h = Some (0, NULL, h')"
      "ll_rep h' (M(l \<mapsto> proxy_list (without k ps))) [it \<mapsto> (l, Suc k)]" "world h' = w'" "iter_only it h h'" "arena h' = arena h"
      by (auto simp: proxy_list_def take_map drop_map)
    have "unsubscribe_loop sid (Some it) h = Some h'"
      using is_end_spec(3) [OF 0(2) at 0(3)] get_spec [OF 0(2) at 0(3), of NULL] True x h'(1)
      by (subst unsubscribe_loop.simps) (simp add: proxy_list_def)
    with h' w'(2) True k show ?thesis by (intro exI [of _ h']) simp
  next
    case False
    then have len: "k = length ps" using 0(4) id_pos_le [of X sid ps] by simp
    have "unsubscribe_loop sid (Some it) h = Some h"
      using is_end_spec(3) [OF 0(2) at 0(3)] len by (subst unsubscribe_loop.simps) (simp add: proxy_list_def)
    with 0(2,5) len k show ?thesis by (intro exI [of _ h]) (simp add: fun_upd_def)
  qed
next
  case (Suc d)
  have at: "[it \<mapsto> (l, Suc k)] it = Some (l, Suc k)" by simp
  have k: "k < id_pos X sid ps" "k < length ps" "d = id_pos X sid ps - Suc k" using Suc.hyps(2) id_pos_le [of X sid ps] by auto
  obtain Y where Y: "X (ps ! k) = Some Y" using Suc.prems(5) k(2) nth_mem by blast
  then have "ax_id Y \<noteq> sid" using id_pos_before [OF k(1)] by auto
  then obtain x where x: "proxies (world h) (ps ! k) = Some x" "px_id x \<noteq> sid" using px_rep_proxy [OF Suc.prems(4) Y] by auto
  obtain h1 where h1: "generic_linked_list_iterator_next (Some it) h = Some (0, h1)"
    "ll_rep h1 M [it \<mapsto> (l, Suc (Suc k))]" "iter_only it h h1" "arena h1 = arena h" "world h1 = world h"
    using next_spec [of h M "[it \<mapsto> (l, Suc k)]" it l "Suc k" "proxy_list ps"] Suc.prems(1,2) k by (simp add: proxy_list_def) blast
  have step: "unsubscribe_loop sid (Some it) h = unsubscribe_loop sid (Some it) h1"
    using is_end_spec(3) [OF Suc.prems(1) at Suc.prems(2)] get_spec [OF Suc.prems(1) at Suc.prems(2), of NULL] k(2) x h1(1)
    by (subst unsubscribe_loop.simps) (simp add: proxy_list_def)
  have "px_rep (world h1) X D" "Suc k \<le> id_pos X sid ps" using Suc.prems(4) h1(5) k(1) by simp_all
  from Suc.hyps(1) [OF k(3) h1(2) Suc.prems(2) this(2,1) Suc.prems(5)] h1(3,4) step show ?case by auto
qed

lemma ch_inv_without:
  assumes "ch_inv K C X" and "C ch = Some A" and "k < length (ac_proxies A)"
  shows "ch_inv K (C(ch \<mapsto> A\<lparr>ac_proxies := without k (ac_proxies A)\<rparr>)) (X(ac_proxies A ! k := None))"
proof -
  note D = ch_invD [OF assms(1)]
  let ?ps = "ac_proxies A" and ?p = "ac_proxies A ! k"
  have split: "?ps = take k ?ps @ ?p # drop (Suc k) ?ps" by (rule id_take_nth_drop [OF assms(3)])
  have dist: "distinct (take k ?ps @ ?p # drop (Suc k) ?ps)" using D(3) [OF assms(2)] split by metis
  have sub: "set (without k ?ps) \<subseteq> set ?ps" using set_take_subset set_drop_subset by fastforce
  have p: "?p \<notin> set (without k ?ps)" "?p \<in> set ?ps" using dist assms(3) by auto
  have old: "\<exists>B'. C c = Some B' \<and> set (ac_proxies B) \<subseteq> set (ac_proxies B')"
    if "(C(ch \<mapsto> A\<lparr>ac_proxies := without k ?ps\<rparr>)) c = Some B" for c B
    using that assms(2) sub by (cases "c = ch") auto
  show ?thesis
  proof (rule ch_invI)
    fix c r B
    assume "K c = Some r" "(C(ch \<mapsto> A\<lparr>ac_proxies := without k ?ps\<rparr>)) c = Some B"
    then show "ch_mutex r = Unlocked \<and> ch_channel_name r = Some (ac_name B)"
      using D(1,2) [of c r] assms(2) by (auto split: if_splits)
  next
    fix c B assume "(C(ch \<mapsto> A\<lparr>ac_proxies := without k ?ps\<rparr>)) c = Some B"
    then show "distinct (ac_proxies B)" using D(3) [of c B] dist by (auto split: if_splits)
  next
    fix c B q assume c: "(C(ch \<mapsto> A\<lparr>ac_proxies := without k ?ps\<rparr>)) c = Some B" and q: "q \<in> set (ac_proxies B)"
    obtain B' where B': "C c = Some B'" "q \<in> set (ac_proxies B')" using old [OF c] q by blast
    have "q \<noteq> ?p" using c q p D(5) [OF assms(2) B'(1) p(2)] B'(2) by (auto split: if_splits)
    with D(4) [OF B'] show "\<exists>Y. (X(?p := None)) q = Some Y" by simp
  next
    fix c d B E q
    assume "(C(ch \<mapsto> A\<lparr>ac_proxies := without k ?ps\<rparr>)) c = Some B" "(C(ch \<mapsto> A\<lparr>ac_proxies := without k ?ps\<rparr>)) d = Some E"
      "q \<in> set (ac_proxies B)" "q \<in> set (ac_proxies E)"
    with old [of c B] old [of d E] show "c = d" using D(5) by blast
  qed
qed

lemma drop_proxy_spec:
  assumes rep: "ch_rep w C X D" "C ch = Some A"
  shows "\<exists>w'. drop_proxy sid (Some ch) w = Some w' \<and> ch_arena w' = ch_arena w
    \<and> (let pos = id_pos X sid (ac_proxies A) in
       if refused (arena (subscribers w)) \<or> pos = length (ac_proxies A) then ch_rep w' C X D
       else ch_rep w' (C(ch \<mapsto> A\<lparr>ac_proxies := without pos (ac_proxies A)\<rparr>)) (X(ac_proxies A ! pos := None)) D)"
proof -
  obtain M r l where R: "ll_rep (subscribers w) M Map.empty"
    "owns (map_option ch_subscriber_proxies \<circ> channels w) M (map_option (\<lambda>A. proxy_list (ac_proxies A)) \<circ> C)"
    "iters (subscribers w) = Map.empty" "ch_inv (channels w) C X" "px_rep (proxy_heap w) X D"
    "dom (channels w) \<subseteq> {..ticks (ch_arena w)}"
    and V: "channels w ch = Some r" "ch_subscriber_proxies r = Some l" "ch_mutex r = Unlocked" "M l = Some (proxy_list (ac_proxies A))"
    by (rule channel_viewE [OF rep])
  let ?h = "subscribers w" and ?ps = "ac_proxies A" and ?pos = "id_pos X sid (ac_proxies A)"
  have idem: "(channels w)(ch \<mapsto> r\<lparr>ch_mutex := Unlocked\<rparr>) = channels w" using V(1,3) by (auto simp: fun_upd_idem_iff)
  have fin: "ch_rep (w\<lparr>subscribers := h\<rparr>) C X D" if "ll_rep h M Map.empty" "iters h = Map.empty" "px_rep (world h) X D" for h
    using R that by (intro ch_repI [of _ M]) simp_all
  show ?thesis
  proof (cases "refused (arena ?h)")
    case True
    obtain h1 where h1: "generic_linked_list_iterator_begin (Some l) (Some NULL) ?h = Some (-1, Some NULL, h1)"
      "ll_rep h1 M Map.empty" "iters h1 = iters ?h" "world h1 = world ?h"
      using open_refused [OF R(1) True, of l NULL] by blast
    then have "drop_proxy sid (Some ch) w = Some (w\<lparr>subscribers := h1\<rparr>)" using V idem by (simp add: drop_proxy_def)
    with True fin [OF h1(2)] h1(3,4) R(3,5) show ?thesis by simp
  next
    case granted: False
    obtain h1 it where h1: "generic_linked_list_iterator_begin (Some l) (Some NULL) ?h = Some (0, Some (Some it), h1)"
      "ll_rep h1 M [it \<mapsto> (l, Suc 0)]" "iter_only it ?h h1" "world h1 = world ?h"
      using begin_spec [OF R(1) V(4) granted, of NULL] by auto
    have px1: "px_rep (world h1) X D" using R(5) h1(4) by simp
    have ps: "set ?ps \<subseteq> dom X" using ch_invD(4) [OF R(4) rep(2)] by auto
    obtain h2 where h2: "unsubscribe_loop sid (Some it) h1 = Some h2" "iter_only it h1 h2"
      "if ?pos < length ?ps then px_rep (world h2) (X(?ps ! ?pos := None)) D \<and> ll_rep h2 (M(l \<mapsto> proxy_list (without ?pos ?ps))) [it \<mapsto> (l, Suc ?pos)]
       else px_rep (world h2) X D \<and> ll_rep h2 M [it \<mapsto> (l, Suc (length ?ps))]"
      using unsubscribe_loop_spec [OF h1(2) V(4) _ px1 ps, of sid] by (auto simp: Let_def)
    show ?thesis
    proof (cases "?pos < length ?ps")
      case True
      obtain h3 where h3: "generic_linked_list_iterator_free (Some it) h2 = Some (0, h3)" "ll_rep h3 (M(l \<mapsto> proxy_list (without ?pos ?ps))) Map.empty"
        "iters h3 = (iters h2)(it := None)" "world h3 = world h2"
        using iterator_free_spec [of h2 "M(l \<mapsto> proxy_list (without ?pos ?ps))" "[it \<mapsto> (l, Suc ?pos)]" it l "Suc ?pos"] h2(3) True by auto
      have "drop_proxy sid (Some ch) w = Some (w\<lparr>subscribers := h3\<rparr>)" using V idem h1(1) h2(1) h3(1) by (simp add: drop_proxy_def)
      moreover have "ch_rep (w\<lparr>subscribers := h3\<rparr>) (C(ch \<mapsto> A\<lparr>ac_proxies := without ?pos ?ps\<rparr>)) (X(?ps ! ?pos := None)) D"
      proof (rule ch_repI)
        show "owns (map_option ch_subscriber_proxies \<circ> channels (w\<lparr>subscribers := h3\<rparr>)) (M(l \<mapsto> proxy_list (without ?pos ?ps)))
          (map_option (\<lambda>A. proxy_list (ac_proxies A)) \<circ> C(ch \<mapsto> A\<lparr>ac_proxies := without ?pos ?ps\<rparr>))"
          using owns_update [OF R(2), of ch l "proxy_list (without ?pos ?ps)"] V(1,2) by simp
        show "ch_inv (channels (w\<lparr>subscribers := h3\<rparr>)) (C(ch \<mapsto> A\<lparr>ac_proxies := without ?pos ?ps\<rparr>)) (X(?ps ! ?pos := None))"
          using ch_inv_without [OF R(4) rep(2) True] by simp
        show "iters (subscribers (w\<lparr>subscribers := h3\<rparr>)) = Map.empty" using h3(3) h2(2) h1(3) R(3) by simp
      qed (use R(6) h2(3) h3(2,4) True in simp_all)
      ultimately show ?thesis using True granted by simp
    next
      case False
      obtain h3 where h3: "generic_linked_list_iterator_free (Some it) h2 = Some (0, h3)" "ll_rep h3 M Map.empty"
        "iters h3 = (iters h2)(it := None)" "world h3 = world h2"
        using iterator_free_spec [of h2 M "[it \<mapsto> (l, Suc (length ?ps))]" it l "Suc (length ?ps)"] h2(3) False by auto
      have "drop_proxy sid (Some ch) w = Some (w\<lparr>subscribers := h3\<rparr>)" using V idem h1(1) h2(1) h3(1) by (simp add: drop_proxy_def)
      moreover have "iters h3 = Map.empty" using h3(3) h2(2) h1(3) R(3) by simp
      ultimately show ?thesis using fin [OF h3(2)] h3(4) h2(3) False id_pos_le [of X sid ?ps] by simp
    qed
  qed
qed

lemma ch_inv_add:
  assumes "ch_inv K C X" and "C ch = Some A" and "X p = Some Y" and free: "\<And>c B. C c = Some B \<Longrightarrow> p \<notin> set (ac_proxies B)"
  shows "ch_inv K (C(ch \<mapsto> A\<lparr>ac_proxies := ac_proxies A @ [p]\<rparr>)) X"
proof -
  note D = ch_invD [OF assms(1)]
  have old: "\<exists>B'. C c = Some B' \<and> (q = p \<and> c = ch \<or> q \<in> set (ac_proxies B'))"
    if "(C(ch \<mapsto> A\<lparr>ac_proxies := ac_proxies A @ [p]\<rparr>)) c = Some B" "q \<in> set (ac_proxies B)" for c B q
    using that assms(2) by (cases "c = ch") auto
  show ?thesis
  proof (rule ch_invI)
    fix c r B
    assume "K c = Some r" "(C(ch \<mapsto> A\<lparr>ac_proxies := ac_proxies A @ [p]\<rparr>)) c = Some B"
    then show "ch_mutex r = Unlocked \<and> ch_channel_name r = Some (ac_name B)"
      using D(1,2) [of c r] assms(2) by (auto split: if_splits)
  next
    fix c B assume "(C(ch \<mapsto> A\<lparr>ac_proxies := ac_proxies A @ [p]\<rparr>)) c = Some B"
    then show "distinct (ac_proxies B)" using D(3) [of c B] D(3) [OF assms(2)] free [OF assms(2)] by (auto split: if_splits)
  next
    fix c B q assume "(C(ch \<mapsto> A\<lparr>ac_proxies := ac_proxies A @ [p]\<rparr>)) c = Some B" "q \<in> set (ac_proxies B)"
    with old [of c B q] show "\<exists>Y. X q = Some Y" using D(4) assms(3) by blast
  next
    fix c d B E q
    assume "(C(ch \<mapsto> A\<lparr>ac_proxies := ac_proxies A @ [p]\<rparr>)) c = Some B" "(C(ch \<mapsto> A\<lparr>ac_proxies := ac_proxies A @ [p]\<rparr>)) d = Some E"
      "q \<in> set (ac_proxies B)" "q \<in> set (ac_proxies E)"
    with old [of c B q] old [of d E q] show "c = d" using D(5) free by blast
  qed
qed

lemma add_proxy_spec:
  assumes rep: "ch_rep w C X D" "C ch = Some A" and p: "X p = Some Y" "\<forall>c B. C c = Some B \<longrightarrow> p \<notin> set (ac_proxies B)"
  shows "\<exists>w'. ch_arena w' = ch_arena w \<and> proxy_heap w' = proxy_heap w \<and> arena (subscribers w') = tick (arena (subscribers w))
    \<and> (if refused (arena (subscribers w)) then add_proxy (Some ch) (Some p) w = Some (-1, w') \<and> ch_rep w' C X D
       else add_proxy (Some ch) (Some p) w = Some (0, w') \<and> ch_rep w' (C(ch \<mapsto> A\<lparr>ac_proxies := ac_proxies A @ [p]\<rparr>)) X D)"
proof -
  obtain M r l where R: "ll_rep (subscribers w) M Map.empty"
    "owns (map_option ch_subscriber_proxies \<circ> channels w) M (map_option (\<lambda>A. proxy_list (ac_proxies A)) \<circ> C)"
    "iters (subscribers w) = Map.empty" "ch_inv (channels w) C X" "px_rep (proxy_heap w) X D"
    "dom (channels w) \<subseteq> {..ticks (ch_arena w)}"
    and V: "channels w ch = Some r" "ch_subscriber_proxies r = Some l" "ch_mutex r = Unlocked" "M l = Some (proxy_list (ac_proxies A))"
    by (rule channel_viewE [OF rep])
  let ?ps = "ac_proxies A"
  have idem: "(channels w)(ch \<mapsto> r\<lparr>ch_mutex := Unlocked\<rparr>) = channels w" using V(1,3) by (auto simp: fun_upd_idem_iff)
  show ?thesis
  proof (cases "refused (arena (subscribers w))")
    case True
    obtain h where h: "generic_linked_list_insert_last (Some l) (Some p) (subscribers w) = Some (-1, h)" "ll_rep h M Map.empty"
      "world h = proxy_heap w" "arena h = tick (arena (subscribers w))" "iters h = iters (subscribers w)"
      using insert_refused [OF R(1) True, of l "Some p"] by blast
    have "add_proxy (Some ch) (Some p) w = Some (-1, w\<lparr>subscribers := h\<rparr>)" using V idem h(1) by (simp add: add_proxy_def)
    moreover have "ch_rep (w\<lparr>subscribers := h\<rparr>) C X D" using R h by (intro ch_repI [of _ M]) simp_all
    ultimately show ?thesis using True h by (intro exI [of _ "w\<lparr>subscribers := h\<rparr>"]) simp
  next
    case False
    have "al_store (proxy_list ?ps) (Some p) (proxy_heap w) = Some (0, Some p, proxy_heap w)"
      by (simp add: al_store_def proxy_list_def subscriber_proxy_copy_def)
    from insert_last_spec [OF R(1) V(4) False this] obtain h where
      h: "generic_linked_list_insert_last (Some l) (Some p) (subscribers w) = Some (0, h)" "ll_rep h (M(l \<mapsto> proxy_list (?ps @ [p]))) Map.empty"
      "world h = proxy_heap w" "arena h = tick (arena (subscribers w))" "iters h = iters (subscribers w)"
      by (auto simp: proxy_list_def)
    have "add_proxy (Some ch) (Some p) w = Some (0, w\<lparr>subscribers := h\<rparr>)" using V idem h(1) by (simp add: add_proxy_def)
    moreover have "ch_rep (w\<lparr>subscribers := h\<rparr>) (C(ch \<mapsto> A\<lparr>ac_proxies := ?ps @ [p]\<rparr>)) X D"
    proof (rule ch_repI)
      show "owns (map_option ch_subscriber_proxies \<circ> channels (w\<lparr>subscribers := h\<rparr>)) (M(l \<mapsto> proxy_list (?ps @ [p])))
        (map_option (\<lambda>A. proxy_list (ac_proxies A)) \<circ> C(ch \<mapsto> A\<lparr>ac_proxies := ?ps @ [p]\<rparr>))"
        using owns_update [OF R(2), of ch l "proxy_list (?ps @ [p])"] V(1,2) by simp
      show "ch_inv (channels (w\<lparr>subscribers := h\<rparr>)) (C(ch \<mapsto> A\<lparr>ac_proxies := ?ps @ [p]\<rparr>)) X"
        using ch_inv_add [OF R(4) rep(2) p(1)] p(2) by simp
    qed (use R h in simp_all)
    ultimately show ?thesis using False h by (intro exI [of _ "w\<lparr>subscribers := h\<rparr>"]) simp
  qed
qed

section \<open>Construction and destruction\<close>

lemma ch_inv_new:
  assumes "ch_inv K C X" and "ch_mutex r = Unlocked" and "ch_channel_name r = Some (ac_name A)" and "ac_proxies A = []"
  shows "ch_inv (K(c \<mapsto> r)) (C(c \<mapsto> A)) X"
proof -
  note D = ch_invD [OF assms(1)]
  have old: "C d = Some B \<and> q \<in> set (ac_proxies B)" if "(C(c \<mapsto> A)) d = Some B" "q \<in> set (ac_proxies B)" for d B q
    using that assms(4) by (auto split: if_splits)
  show ?thesis
  proof (rule ch_invI)
    fix d e B E q assume "(C(c \<mapsto> A)) d = Some B" "(C(c \<mapsto> A)) e = Some E" "q \<in> set (ac_proxies B)" "q \<in> set (ac_proxies E)"
    with old [of d B q] old [of e E q] show "d = e" using D(5) by blast
  next
    fix d B q assume "(C(c \<mapsto> A)) d = Some B" "q \<in> set (ac_proxies B)"
    with old [of d B q] show "\<exists>Y. X q = Some Y" using D(4) by blast
  next
    fix d B assume "(C(c \<mapsto> A)) d = Some B"
    then show "distinct (ac_proxies B)" using D(3) [of d B] assms(4) by (auto split: if_splits)
  next
    fix d s B assume "(K(c \<mapsto> r)) d = Some s" "(C(c \<mapsto> A)) d = Some B"
    then show "ch_mutex s = Unlocked \<and> ch_channel_name s = Some (ac_name B)"
      using D(1,2) [of d s B] assms(2,3) by (auto split: if_splits)
  qed
qed

lemma ch_rep_fresh:
  assumes "ch_rep w C X D"
  shows "channels w (Suc (ticks (ch_arena w))) = None" and "C (Suc (ticks (ch_arena w))) = None"
proof -
  obtain M where R: "owns (map_option ch_subscriber_proxies \<circ> channels w) M (map_option (\<lambda>A. proxy_list (ac_proxies A)) \<circ> C)"
    "dom (channels w) \<subseteq> {..ticks (ch_arena w)}" using assms by (rule ch_repE)
  then show none: "channels w (Suc (ticks (ch_arena w))) = None" by (auto simp: domIff subset_iff)
  then show "C (Suc (ticks (ch_arena w))) = None" using owns_none [OF R(1), of "Suc (ticks (ch_arena w))"] by simp
qed

lemma channel_new_spec:
  assumes rep: "ch_rep w C X D" and g: "grants 3 (ch_arena w)" "grants 3 (arena (subscribers w))"
  shows "\<exists>c w'. channel_new (Some name) (Some v) w = Some (0, Some (Some c), w') \<and> C c = None
    \<and> ch_rep w' (C(c \<mapsto> \<lparr>ac_name = c_str name, ac_proxies = []\<rparr>)) X D
    \<and> ch_arena w' = (tick ^^ 3) (ch_arena w) \<and> arena (subscribers w') = (tick ^^ 3) (arena (subscribers w)) \<and> proxy_heap w' = proxy_heap w"
proof -
  obtain M where R: "ll_rep (subscribers w) M Map.empty"
    "owns (map_option ch_subscriber_proxies \<circ> channels w) M (map_option (\<lambda>A. proxy_list (ac_proxies A)) \<circ> C)"
    "iters (subscribers w) = Map.empty" "ch_inv (channels w) C X" "px_rep (proxy_heap w) X D"
    "dom (channels w) \<subseteq> {..ticks (ch_arena w)}"
    by (rule ch_repE [OF rep])
  let ?A = "ch_arena w" and ?c = "Suc (ticks (ch_arena w))"
  have gs: "\<not> refused ?A" "\<not> refused (tick ?A)" "\<not> refused (tick (tick ?A))" using g(1) by (auto simp: numeral_3_eq_3 grants_Suc)
  obtain h l where h: "generic_linked_list_new (Some NULL) (subscribers w) = Some (0, Some (Some l), h)" "M l = None"
    "ll_rep h (M(l \<mapsto> \<lparr>al_items = [], al_free = NULL, al_copy = NULL\<rparr>)) Map.empty" "world h = proxy_heap w"
    "arena h = (tick ^^ 3) (arena (subscribers w))" "iters h = iters (subscribers w)"
    using new_spec [OF R(1) g(2), of NULL] by blast
  obtain h1 where h1: "generic_linked_list_set_free_function (Some l) (Some subscriber_proxy_free_wrapper) h = Some (0, h1)"
    "ll_rep h1 (M(l \<mapsto> \<lparr>al_items = [], al_free = Some subscriber_proxy_free_wrapper, al_copy = NULL\<rparr>)) Map.empty" "world h1 = proxy_heap w"
    "arena h1 = (tick ^^ 3) (arena (subscribers w))" "iters h1 = iters (subscribers w)"
    using set_free_function_spec [OF h(3), of l _ "Some subscriber_proxy_free_wrapper"] h(4-6) by auto
  obtain h2 where h2: "generic_linked_list_set_copy_function (Some l) (Some subscriber_proxy_copy) h1 = Some (0, h2)"
    "ll_rep h2 (M(l \<mapsto> proxy_list [])) Map.empty" "world h2 = proxy_heap w"
    "arena h2 = (tick ^^ 3) (arena (subscribers w))" "iters h2 = iters (subscribers w)"
    using set_copy_function_spec [OF h1(2), of l _ "Some subscriber_proxy_copy"] h1(3-5) by (auto simp: proxy_list_def)
  let ?r = "\<lparr>ch_channel_name = Some (c_str name), ch_subscriber_proxies = Some l, ch_mutex = Unlocked\<rparr>"
  define w' where "w' = w\<lparr>channels := (channels w)(?c \<mapsto> ?r), ch_arena := (tick ^^ 3) ?A, subscribers := h2\<rparr>"
  have "channel_new (Some name) (Some v) w = Some (0, Some (Some ?c), w')"
    using gs h(1) h1(1) h2(1) by (simp add: channel_new_def w'_def numeral_3_eq_3)
  moreover have "ch_rep w' (C(?c \<mapsto> \<lparr>ac_name = c_str name, ac_proxies = []\<rparr>)) X D"
  proof (rule ch_repI)
    show "owns (map_option ch_subscriber_proxies \<circ> channels w') (M(l \<mapsto> proxy_list []))
      (map_option (\<lambda>A. proxy_list (ac_proxies A)) \<circ> C(?c \<mapsto> \<lparr>ac_name = c_str name, ac_proxies = []\<rparr>))"
      using owns_add [OF R(2), of ?c l "proxy_list []"] ch_rep_fresh(1) [OF rep] h(2) by (simp add: w'_def)
    show "ch_inv (channels w') (C(?c \<mapsto> \<lparr>ac_name = c_str name, ac_proxies = []\<rparr>)) X"
      using ch_inv_new [OF R(4), of ?r "\<lparr>ac_name = c_str name, ac_proxies = []\<rparr>" ?c] by (simp add: w'_def)
  qed (use R h2 in \<open>auto simp: w'_def numeral_3_eq_3\<close>)
  ultimately show ?thesis using ch_rep_fresh(2) [OF rep] h2 by (intro exI [of _ ?c] exI [of _ w']) (simp add: w'_def)
qed

lemma channel_new_refused:
  assumes rep: "ch_rep w C X D" and g: "\<not> (grants 3 (ch_arena w) \<and> grants 3 (arena (subscribers w)))"
  shows "\<exists>r w'. channel_new (Some name) (Some v) w = Some (r, Some v, w') \<and> r \<noteq> 0 \<and> ch_rep w' C X D \<and> proxy_heap w' = proxy_heap w"
proof -
  obtain M where R: "ll_rep (subscribers w) M Map.empty"
    "owns (map_option ch_subscriber_proxies \<circ> channels w) M (map_option (\<lambda>A. proxy_list (ac_proxies A)) \<circ> C)"
    "iters (subscribers w) = Map.empty" "ch_inv (channels w) C X" "px_rep (proxy_heap w) X D"
    "dom (channels w) \<subseteq> {..ticks (ch_arena w)}"
    by (rule ch_repE [OF rep])
  let ?A = "ch_arena w" and ?c = "Suc (ticks (ch_arena w))"
  have fresh: "(channels w)(?c := None) = channels w" using ch_rep_fresh(1) [OF rep] by (simp add: fun_upd_idem)
  have keep: "ch_rep (w\<lparr>ch_arena := A, subscribers := h\<rparr>) C X D"
    if "ll_rep h M Map.empty" "iters h = iters (subscribers w)" "world h = proxy_heap w" "ticks ?A \<le> ticks A" for h A
    using R that by (intro ch_repI [of _ M]) auto
  have keep': "ch_rep (w\<lparr>ch_arena := A\<rparr>) C X D" if "ticks ?A \<le> ticks A" for A
    using R that by (intro ch_repI [of _ M]) auto
  show ?thesis
  proof (cases "refused ?A \<or> refused (tick ?A)")
    case True
    then show ?thesis using keep' [of "tick ?A"] keep' [of "tick (tick ?A)"] fresh
      by (cases "refused ?A") (simp_all add: channel_new_def)
  next
    case A: False
    show ?thesis
    proof (cases "grants 3 (arena (subscribers w))")
      case False
      then obtain h where h: "generic_linked_list_new (Some NULL) (subscribers w) = Some (-1, Some NULL, h)" "ll_rep h M Map.empty"
        "world h = proxy_heap w" "iters h = iters (subscribers w)"
        using new_refused [OF R(1), of NULL] not_grants_3 [of "arena (subscribers w)"] by blast
      with A fresh keep [OF h(2,4,3), of "tick (tick ?A)"] show ?thesis by (simp add: channel_new_def)
    next
      case True
      obtain h l where h: "generic_linked_list_new (Some NULL) (subscribers w) = Some (0, Some (Some l), h)" "M l = None"
        "ll_rep h (M(l \<mapsto> \<lparr>al_items = [], al_free = NULL, al_copy = NULL\<rparr>)) Map.empty" "world h = proxy_heap w"
        "iters h = iters (subscribers w)"
        using new_spec [OF R(1) True, of NULL] by blast
      obtain h1 where h1: "generic_linked_list_set_free_function (Some l) (Some subscriber_proxy_free_wrapper) h = Some (0, h1)"
        "ll_rep h1 (M(l \<mapsto> \<lparr>al_items = [], al_free = Some subscriber_proxy_free_wrapper, al_copy = NULL\<rparr>)) Map.empty" "world h1 = proxy_heap w"
        "iters h1 = iters (subscribers w)"
        using set_free_function_spec [OF h(3), of l _ "Some subscriber_proxy_free_wrapper"] h(4,5) by auto
      obtain h2 where h2: "generic_linked_list_set_copy_function (Some l) (Some subscriber_proxy_copy) h1 = Some (0, h2)"
        "ll_rep h2 (M(l \<mapsto> proxy_list [])) Map.empty" "world h2 = proxy_heap w" "iters h2 = iters (subscribers w)"
        using set_copy_function_spec [OF h1(2), of l _ "Some subscriber_proxy_copy"] h1(3,4) by (auto simp: proxy_list_def)
      have "free_all (al_free (proxy_list [])) (al_items (proxy_list [])) (world h2) = Some (proxy_heap w)"
        using h2(3) by (simp add: proxy_list_def)
      from free_spec [OF h2(2) _ this, of l] h(2) obtain h3 where h3: "generic_linked_list_free (Some l) h2 = Some (0, h3)"
        "ll_rep h3 M Map.empty" "world h3 = proxy_heap w" "iters h3 = iters (subscribers w)"
        using h2(4) by (auto simp: fun_upd_idem)
      have "refused (tick (tick ?A))" using g True A not_grants_3 by blast
      with A h(1) h1(1) h2(1) h3 fresh keep [OF h3(2,4,3), of "tick (tick (tick ?A))"] sys_init_simps(2,3) [of "tick (tick ?A)"]
      show ?thesis by (simp add: channel_new_def case_prod_beta)
    qed
  qed
qed

lemma free_proxies:
  assumes "px_rep w X D" and "distinct ps" and "set ps \<subseteq> dom X"
  shows "\<exists>w'. free_all (Some subscriber_proxy_free_wrapper) (map Some ps) w = Some w' \<and> px_rep w' (X |` (- set ps)) D"
  using assms
proof (induction ps arbitrary: w X)
  case (Cons p ps)
  then obtain Y where "X p = Some Y" by auto
  then obtain w1 where w1: "subscriber_proxy_free (Some p) w = Some w1" "px_rep w1 (X(p := None)) D"
    using proxy_free_spec [OF Cons.prems(1)] by blast
  have eq: "(X(p := None)) |` (- set ps) = X |` (- set (p # ps))" by (auto simp: restrict_map_def fun_eq_iff)
  have "distinct ps" "set ps \<subseteq> dom (X(p := None))" using Cons.prems(2,3) by auto
  from Cons.IH [OF w1(2) this, unfolded eq] w1(1) show ?case by (simp add: subscriber_proxy_free_wrapper_def)
qed (simp add: restrict_map_def)

lemma ch_inv_free:
  assumes "ch_inv K C X" and "C ch = Some A"
  shows "ch_inv (K(ch := None)) (C(ch := None)) (X |` (- set (ac_proxies A)))"
proof -
  note D = ch_invD [OF assms(1)]
  have old: "C c = Some B \<and> c \<noteq> ch" if "(C(ch := None)) c = Some B" for c B using that by (auto split: if_splits)
  show ?thesis
  proof (rule ch_invI)
    fix c B q assume "(C(ch := None)) c = Some B" and q: "q \<in> set (ac_proxies B)"
    then have c: "C c = Some B" "c \<noteq> ch" using old [of c B] by blast+
    have "q \<notin> set (ac_proxies A)" using D(5) [OF c(1) assms(2) q] c(2) by auto
    with D(4) [OF c(1) q] show "\<exists>Y. (X |` (- set (ac_proxies A))) q = Some Y" by simp
  next
    fix c d B E q assume "(C(ch := None)) c = Some B" "(C(ch := None)) d = Some E" "q \<in> set (ac_proxies B)" "q \<in> set (ac_proxies E)"
    with old [of c B] old [of d E] have "C c = Some B" "C d = Some E" "q \<in> set (ac_proxies B)" "q \<in> set (ac_proxies E)" by blast+
    then show "c = d" by (rule D(5))
  qed (use D(1-3) in \<open>auto split: if_splits\<close>)
qed

lemma channel_free_spec:
  assumes rep: "ch_rep w C X D" "C ch = Some A"
  shows "\<exists>w'. channel_free (Some ch) w = Some w' \<and> ch_rep w' (C(ch := None)) (X |` (- set (ac_proxies A))) D
    \<and> ch_arena w' = ch_arena w \<and> arena (subscribers w') = arena (subscribers w) \<and> (ac_proxies A = [] \<longrightarrow> proxy_heap w' = proxy_heap w)"
proof -
  obtain M r l where R: "ll_rep (subscribers w) M Map.empty"
    "owns (map_option ch_subscriber_proxies \<circ> channels w) M (map_option (\<lambda>A. proxy_list (ac_proxies A)) \<circ> C)"
    "iters (subscribers w) = Map.empty" "ch_inv (channels w) C X" "px_rep (proxy_heap w) X D"
    "dom (channels w) \<subseteq> {..ticks (ch_arena w)}"
    and V: "channels w ch = Some r" "ch_subscriber_proxies r = Some l" "ch_mutex r = Unlocked" "M l = Some (proxy_list (ac_proxies A))"
    by (rule channel_viewE [OF rep])
  let ?ps = "ac_proxies A"
  have ps: "distinct ?ps" "set ?ps \<subseteq> dom X" using ch_invD(3,4) [OF R(4) rep(2)] by auto
  obtain pw where pw: "free_all (Some subscriber_proxy_free_wrapper) (map Some ?ps) (proxy_heap w) = Some pw" "px_rep pw (X |` (- set ?ps)) D"
    using free_proxies [OF R(5) ps] by blast
  then have "free_all (al_free (proxy_list ?ps)) (al_items (proxy_list ?ps)) (proxy_heap w) = Some pw" by (simp add: proxy_list_def)
  from free_spec [OF R(1) V(4) this] obtain h where h: "generic_linked_list_free (Some l) (subscribers w) = Some (0, h)"
    "ll_rep h (M(l := None)) Map.empty" "world h = pw" "arena h = arena (subscribers w)" "iters h = iters (subscribers w)" by auto
  define w' where "w' = w\<lparr>channels := (channels w)(ch := None), subscribers := h\<rparr>"
  have "channel_free (Some ch) w = Some w'" using V h(1) by (simp add: channel_free_def w'_def)
  moreover have "ch_rep w' (C(ch := None)) (X |` (- set ?ps)) D"
  proof (rule ch_repI)
    show "owns (map_option ch_subscriber_proxies \<circ> channels w') (M(l := None)) (map_option (\<lambda>A. proxy_list (ac_proxies A)) \<circ> C(ch := None))"
      using owns_remove [OF R(2), of ch l] V(1,2) by (simp add: w'_def)
    show "ch_inv (channels w') (C(ch := None)) (X |` (- set ?ps))" using ch_inv_free [OF R(4) rep(2)] by (simp add: w'_def)
  qed (use R h pw in \<open>auto simp: w'_def\<close>)
  ultimately show ?thesis using h pw(1) by (intro exI [of _ w']) (auto simp: w'_def)
qed

end
