(* ===== verification/Table_Lifecycle.thy ===== *)
theory Table_Lifecycle
  imports Hash_Table
begin

text \<open>
  The life cycle of a hash table: the loops of \<^verbatim>\<open>generic_hash_table_new\<close> and
  \<^verbatim>\<open>generic_hash_table_free\<close>.  While the constructor runs, the heap holds the tables that were there before
  and the buckets made so far; a failure releases these again.
\<close>

section \<open>Definitions\<close>

definition empty_list :: "('d, 'w) alist" where
  "empty_list = \<lparr>al_items = [], al_free = NULL, al_copy = NULL\<rparr>"

definition plus_lists :: "(addr \<rightharpoonup> ('d, 'w) alist) \<Rightarrow> addr list \<Rightarrow> addr \<rightharpoonup> ('d, 'w) alist" where
  "plus_lists M ls = (\<lambda>l. if l \<in> set ls then Some empty_list else M l)"

text \<open>
  A table of \<open>n\<close> buckets at \<open>t\<close> is being built or released: the buckets \<open>ls\<close> from number \<open>m\<close> on hold empty
  lists and have mutexes; nothing else has changed since \<open>h0\<close>.
\<close>

definition half_built ::
  "('k, 'v, 'w) generic_hash_table_t \<Rightarrow> nat \<Rightarrow> addr list \<Rightarrow> nat \<Rightarrow> ('k, 'v, 'w) generic_hash_table_t \<Rightarrow> bool" where
  "half_built r n ls m r' \<longleftrightarrow> (\<exists>bs ms. r' = r\<lparr>ht_buckets := Some bs, ht_mutexes := Some ms\<rparr>
     \<and> length bs = n \<and> length ms = n \<and> (\<forall>j < length ls. bs ! j = Some (ls ! j))
     \<and> (\<forall>j < length ls. m \<le> j \<longrightarrow> ms ! j = Some Unlocked))"

definition unchanged where
  "unchanged h0 h \<longleftrightarrow> iters h = Map.empty \<and> kvs h = kvs h0 \<and> world h = world h0 \<and> same_ht_frame h0 h
     \<and> ticks (arena h0) \<le> ticks (arena h)"

definition building where
  "building h0 M t r n ls m h \<longleftrightarrow> ll_rep h (plus_lists M (drop m ls)) Map.empty \<and> unchanged h0 h
     \<and> (\<exists>r'. tables h = (tables h0)(t \<mapsto> r') \<and> half_built r n ls m r')
     \<and> distinct ls \<and> set ls \<inter> dom M = {} \<and> length ls \<le> n \<and> n \<le> block_limit"

definition released where
  "released h0 M t h \<longleftrightarrow> ll_rep h M Map.empty \<and> unchanged h0 h \<and> tables h = (tables h0)(t := None)"

text \<open>The table that a successful construction leaves.\<close>

definition fresh_table ::
  "size_t \<Rightarrow> 'k hash_fn \<Rightarrow> ('v, 'w) free_fn \<Rightarrow> ('v, 'w) copy_fn \<Rightarrow> ('k, 'w) free_fn
     \<Rightarrow> ('k, 'w) copy_fn \<Rightarrow> 'k compare_fn \<Rightarrow> ('k, 'v, 'w) atable" where
  "fresh_table capacity hash fv cv fk ck cmp = \<lparr>at_hash = hash, at_compare = cmp, at_free_value = fv,
     at_copy_value = cv, at_free_key = fk, at_copy_key = ck, at_buckets = replicate (unat capacity) []\<rparr>"

section \<open>Construction\<close>

lemma plus_lists_simps [simp]:
  "plus_lists M [] = M" "plus_lists M (ls @ [l]) = (plus_lists M ls)(l \<mapsto> empty_list)"
  "l \<notin> set ls \<Longrightarrow> M l = None \<Longrightarrow> (plus_lists M (l # ls))(l := None) = plus_lists M ls"
  "plus_lists M (l # ls) l = Some empty_list"
  by (auto simp: plus_lists_def fun_eq_iff)

lemma table_fields_swap: "r\<lparr>ht_mutexes := ms, ht_buckets := bs\<rparr> = r\<lparr>ht_buckets := bs, ht_mutexes := ms\<rparr>"
  by (cases r) simp

lemma half_built_cells:
  fixes h :: "('k, 'v, 'w, 'z) hth"
  assumes "tables h t = Some r'" and "half_built r n ls m r'" and "j < n" and "n \<le> block_limit"
  shows "\<exists>c. get_bucket (Some t) (of_nat j) h = Some c \<and> (j < length ls \<longrightarrow> c = Some (ls ! j))"
    and "j = length ls \<Longrightarrow> \<exists>r''. set_bucket (Some t) (of_nat j) c h = Some (h\<lparr>tables := (tables h)(t \<mapsto> r'')\<rparr>)
      \<and> half_built r n ls m r'' \<and> (\<forall>l. c = Some l \<longrightarrow> (\<exists>r3. half_built r n (ls @ [l]) m r3 \<and> (\<forall>h' :: ('k, 'v, 'w, 'z) hth. tables h' t = Some r'' \<longrightarrow>
        set_mutex (Some t) (of_nat j) (Some Unlocked) h' = Some (h'\<lparr>tables := (tables h')(t \<mapsto> r3)\<rparr>))))"
    and "j < length ls \<Longrightarrow> m \<le> j \<Longrightarrow> \<exists>r''. destroy_bucket_mutex (Some t) (of_nat j) h = Some (h\<lparr>tables := (tables h)(t \<mapsto> r'')\<rparr>)
      \<and> half_built r n ls (Suc j) r''"
proof -
  have j: "unat (of_nat j :: size_t) = j" using assms(3,4) by (intro unat_of_nat_size_t) simp
  obtain bs ms where r': "r' = r\<lparr>ht_buckets := Some bs, ht_mutexes := Some ms\<rparr>" "length bs = n" "length ms = n"
    and bs: "\<forall>j < length ls. bs ! j = Some (ls ! j)" and ms: "\<forall>j < length ls. m \<le> j \<longrightarrow> ms ! j = Some Unlocked"
    using assms(2) unfolding half_built_def by blast
  show "\<exists>c. get_bucket (Some t) (of_nat j) h = Some c \<and> (j < length ls \<longrightarrow> c = Some (ls ! j))"
    using assms(1,3) r' bs j by (simp add: get_bucket_def table_at_def)
  show "\<exists>r''. destroy_bucket_mutex (Some t) (of_nat j) h = Some (h\<lparr>tables := (tables h)(t \<mapsto> r'')\<rparr>)
      \<and> half_built r n ls (Suc j) r''" if "j < length ls" "m \<le> j"
  proof (intro exI conjI)
    let ?r = "r\<lparr>ht_buckets := Some bs, ht_mutexes := Some (ms[j := None])\<rparr>"
    show "destroy_bucket_mutex (Some t) (of_nat j) h = Some (h\<lparr>tables := (tables h)(t \<mapsto> ?r)\<rparr>)"
      using assms(1,3) r' ms that j
      by (simp add: destroy_bucket_mutex_def get_mutex_def set_mutex_def table_at_def modify_table_def)
    show "half_built r n ls (Suc j) ?r"
      unfolding half_built_def using r'(2,3) bs ms that by (intro exI [of _ bs] exI [of _ "ms[j := None]"]) simp
  qed
  show "\<exists>r''. set_bucket (Some t) (of_nat j) c h = Some (h\<lparr>tables := (tables h)(t \<mapsto> r'')\<rparr>)
      \<and> half_built r n ls m r'' \<and> (\<forall>l. c = Some l \<longrightarrow> (\<exists>r3. half_built r n (ls @ [l]) m r3 \<and> (\<forall>h' :: ('k, 'v, 'w, 'z) hth. tables h' t = Some r'' \<longrightarrow>
        set_mutex (Some t) (of_nat j) (Some Unlocked) h' = Some (h'\<lparr>tables := (tables h')(t \<mapsto> r3)\<rparr>))))" if "j = length ls"
  proof (intro exI conjI allI impI)
    let ?r = "r\<lparr>ht_buckets := Some (bs[j := c]), ht_mutexes := Some ms\<rparr>"
    show "set_bucket (Some t) (of_nat j) c h = Some (h\<lparr>tables := (tables h)(t \<mapsto> ?r)\<rparr>)"
      using assms(1,3) r' j by (simp add: set_bucket_def table_at_def modify_table_def table_fields_swap)
    show "half_built r n ls m ?r"
      unfolding half_built_def using r'(2,3) bs ms that by (intro exI [of _ "bs[j := c]"] exI [of _ ms]) simp
    fix l assume l: "c = Some l"
    let ?r3 = "r\<lparr>ht_buckets := Some (bs[j := c]), ht_mutexes := Some (ms[j := Some Unlocked])\<rparr>"
    show "set_mutex (Some t) (of_nat j) (Some Unlocked) h' = Some (h'\<lparr>tables := (tables h')(t \<mapsto> ?r3)\<rparr>)"
      if "tables h' t = Some ?r" for h' :: "('k, 'v, 'w, 'z) hth"
      using that assms(3) r'(2,3) j by (simp add: set_mutex_def table_at_def modify_table_def)
    have "(bs[j := c]) ! i = Some ((ls @ [l]) ! i)" if "i < Suc (length ls)" for i
      using that \<open>j = length ls\<close> bs l r'(2) assms(3) by (cases "i = j") (auto simp: nth_append)
    moreover have "(ms[j := Some Unlocked]) ! i = Some Unlocked" if "i < Suc (length ls)" "m \<le> i" for i
      using that \<open>j = length ls\<close> ms r'(3) assms(3) by (cases "i = j") auto
    ultimately show "half_built r n (ls @ [l]) m ?r3"
      unfolding half_built_def using r'(2,3)
      by (intro exI [of _ "bs[j := c]"] exI [of _ "ms[j := Some Unlocked]"]) simp
  qed
qed

lemma building_cong:
  assumes "building h0 M t r n ls m h" and "ll_rep h' (plus_lists M (drop m' ls')) Map.empty"
    and "tables h' = (tables h)(t \<mapsto> r')" and "half_built r n ls' m' r'" and "iters h' = iters h" and "kvs h' = kvs h"
    and "world h' = world h" and "same_ht_frame h h'" and "ticks (arena h) \<le> ticks (arena h')"
    and "distinct ls'" and "set ls' \<inter> dom M = {}" and "length ls' \<le> n"
  shows "building h0 M t r n ls' m' h'"
  using assms unfolding building_def unchanged_def by auto

text \<open>Releasing the buckets made so far.\<close>

lemma undo_step:
  fixes h :: "('k, 'v, 'w, 'z) hth"
  assumes b: "building h0 M t r n ls m h" and m: "m < length ls"
  shows "\<exists>h'. new_undo_loop (Some t) (of_nat (length ls)) (of_nat m) h
      = new_undo_loop (Some t) (of_nat (length ls)) (of_nat (Suc m)) h'
    \<and> building h0 M t r n ls (Suc m) h'"
proof -
  let ?l = "ls ! m"
  note B = b [unfolded building_def]
  obtain r' where tb: "tables h = (tables h0)(t \<mapsto> r')" "half_built r n ls m r'" using B by blast
  have len: "length ls \<le> n" "n \<le> block_limit" and dist: "distinct ls" "set ls \<inter> dom M = {}" using B by simp_all
  have drop: "drop m ls = ?l # drop (Suc m) ls" using m by (simp add: Cons_nth_drop_Suc)
  have new: "?l \<notin> set (drop (Suc m) ls)" using distinct_drop [OF dist(1), of m] unfolding drop by simp
  have Ml: "M ?l = None" using dist(2) nth_mem [OF m] by (auto simp: domIff)
  have rep: "ll_rep h (plus_lists M (?l # drop (Suc m) ls)) Map.empty" using B drop by simp
  obtain h1 where h1: "generic_linked_list_free (Some ?l) h = Some (0, h1)"
    "ll_rep h1 (plus_lists M (drop (Suc m) ls)) Map.empty" "world h1 = world h" "arena h1 = arena h" "iters h1 = iters h"
    "same_frame h h1"
    using free_spec [OF rep plus_lists_simps(4), of "world h"] plus_lists_simps(3) [of ?l _ M, OF new Ml]
    by (auto simp: empty_list_def)
  note fr = ht_frameD [OF h1(6)]
  have t: "tables h t = Some r'" "tables h1 t = Some r'" using tb(1) fr(2) by simp_all
  obtain r'' where r'': "destroy_bucket_mutex (Some t) (of_nat m) h1 = Some (h1\<lparr>tables := (tables h1)(t \<mapsto> r'')\<rparr>)"
    "half_built r n ls (Suc m) r''"
    using half_built_cells(3) [OF t(2) tb(2), of m] m len by auto
  have lt: "(of_nat m :: size_t) < of_nat (length ls)"
    using m len by (simp add: word_less_nat_alt unat_of_nat_size_t)
  define h2 where "h2 = h1\<lparr>tables := (tables h1)(t \<mapsto> r'')\<rparr>"
  have "get_bucket (Some t) (of_nat m) h = Some (Some ?l)" using half_built_cells(1) [OF t(1) tb(2), of m] m len by auto
  then have "new_undo_loop (Some t) (of_nat (length ls)) (of_nat m) h
      = new_undo_loop (Some t) (of_nat (length ls)) (of_nat m + 1) h2"
    using lt h1(1) r''(1) by (subst new_undo_loop.simps) (simp add: h2_def)
  moreover have "building h0 M t r n ls (Suc m) h2"
    by (rule building_cong [OF b ll_rep_cong [OF h1(2)] _ r''(2)])
      (use h1(3-5) fr dist len in \<open>simp_all add: h2_def\<close>)
  ultimately show ?thesis by (intro exI [of _ h2]) (simp add: add.commute)
qed

lemma undo_loop_spec:
  assumes "building h0 M t r n ls m h" and "m \<le> length ls"
  shows "\<exists>h'. new_undo_loop (Some t) (of_nat (length ls)) (of_nat m) h = Some h' \<and> building h0 M t r n ls (length ls) h'"
  using assms
proof (induction "length ls - m" arbitrary: m h)
  case 0
  then show ?case by (subst new_undo_loop.simps) simp
next
  case (Suc k)
  then have "m < length ls" by simp
  then obtain h' where h': "new_undo_loop (Some t) (of_nat (length ls)) (of_nat m) h
      = new_undo_loop (Some t) (of_nat (length ls)) (of_nat (Suc m)) h'" "building h0 M t r n ls (Suc m) h'"
    using undo_step [OF Suc.prems(1)] by blast
  show ?case unfolding h'(1) using Suc.hyps h'(2) \<open>m < length ls\<close> by (intro Suc.hyps(1)) auto
qed

lemma new_undo_spec:
  fixes h :: "('k, 'v, 'w, 'z) hth"
  assumes "building h0 M t r n ls 0 h"
  shows "\<exists>h'. new_undo (Some t) (of_nat (length ls)) h = Some h' \<and> released h0 M t h'"
proof -
  obtain h1 where h1: "new_undo_loop (Some t) (of_nat (length ls)) 0 h = Some h1" "building h0 M t r n ls (length ls) h1"
    using undo_loop_spec [OF assms] by auto
  note B = h1(2) [unfolded building_def]
  define h2 where "h2 = h1\<lparr>tables := (tables h0)(t := None)\<rparr>"
  have "ll_rep h2 M Map.empty" using B ll_rep_cong [of h1 M Map.empty h2] by (simp add: h2_def)
  moreover have "new_undo (Some t) (of_nat (length ls)) h = Some h2"
    using h1(1) B by (auto simp: new_undo_def free_mutexes_def free_buckets_def free_table_def modify_table_def h2_def)
  ultimately show ?thesis using B by (intro exI [of _ h2]) (simp add: h2_def released_def unchanged_def)
qed

text \<open>One bucket: a list and a mutex, or the release of everything.\<close>

lemma new_bucket:
  fixes h :: "('k, 'v, 'w, 'z) hth"
  assumes b: "building h0 M t r n ls 0 h" and n: "length ls < n" and "grants 3 (arena h)"
  obtains l h1 r2 r3 where "generic_linked_list_new (Some cell) h = Some (0, Some (Some l), h1)"
    and "set_bucket (Some t) (of_nat (length ls)) (Some l) h1 = Some (h1\<lparr>tables := (tables h)(t \<mapsto> r2)\<rparr>)"
    and "half_built r n ls 0 r2" and "half_built r n (ls @ [l]) 0 r3"
    and "\<And>h' :: ('k, 'v, 'w, 'z) hth. tables h' t = Some r2 \<Longrightarrow> set_mutex (Some t) (of_nat (length ls)) (Some Unlocked) h'
      = Some (h'\<lparr>tables := (tables h')(t \<mapsto> r3)\<rparr>)"
    and "l \<notin> set ls" and "M l = None" and "ll_rep h1 ((plus_lists M ls)(l \<mapsto> empty_list)) Map.empty"
    and "arena h1 = (tick ^^ 3) (arena h)" and "iters h1 = iters h" and "kvs h1 = kvs h" and "world h1 = world h"
    and "same_ht_frame h h1"
proof -
  note B = b [unfolded building_def]
  obtain r' where tb: "tables h = (tables h0)(t \<mapsto> r')" "half_built r n ls 0 r'" using B by blast
  have rep: "ll_rep h (plus_lists M ls) Map.empty" and len: "n \<le> block_limit" using B by simp_all
  obtain l h1 where h1: "generic_linked_list_new (Some cell) h = Some (0, Some (Some l), h1)"
    "plus_lists M ls l = None" "ll_rep h1 ((plus_lists M ls)(l \<mapsto> empty_list)) Map.empty" "world h1 = world h"
    "arena h1 = (tick ^^ 3) (arena h)" "iters h1 = iters h" "same_frame h h1"
    using new_spec [OF rep assms(3), of cell] unfolding empty_list_def by blast
  note fr = ht_frameD [OF h1(7)]
  have l: "l \<notin> set ls" "M l = None" using h1(2) by (auto simp: plus_lists_def split: if_splits)
  have "tables h1 t = Some r'" using tb(1) fr(2) by simp
  from half_built_cells(2) [OF this tb(2) n len refl, of "Some l"] obtain r2 r3 where
    "set_bucket (Some t) (of_nat (length ls)) (Some l) h1 = Some (h1\<lparr>tables := (tables h1)(t \<mapsto> r2)\<rparr>)"
    "half_built r n ls 0 r2" "half_built r n (ls @ [l]) 0 r3"
    "\<And>h' :: ('k, 'v, 'w, 'z) hth. tables h' t = Some r2 \<Longrightarrow> set_mutex (Some t) (of_nat (length ls)) (Some Unlocked) h'
      = Some (h'\<lparr>tables := (tables h')(t \<mapsto> r3)\<rparr>)"
    by blast
  with that h1 fr l show thesis by simp
qed

lemma building_cell:
  assumes "building h0 M t r n ls 0 h" and "unat capacity = n" and "length ls < n"
  obtains cell where "get_bucket (Some t) (of_nat (length ls)) h = Some cell"
    and "(of_nat (length ls) :: size_t) < capacity"
proof -
  obtain r' where "tables h = (tables h0)(t \<mapsto> r')" "half_built r n ls 0 r'" and len: "n \<le> block_limit"
    using assms(1) unfolding building_def by blast
  then have "\<exists>cell. get_bucket (Some t) (of_nat (length ls)) h = Some cell"
    using half_built_cells(1) [of h t r' r n ls 0 "length ls"] assms(3) by auto
  moreover have "(of_nat (length ls) :: size_t) < capacity"
    using assms(2,3) len by (simp add: word_less_nat_alt unat_of_nat_size_t)
  ultimately show thesis using that by blast
qed

lemma new_loop_step:
  fixes h :: "('k, 'v, 'w, 'z) hth"
  assumes b: "building h0 M t r n ls 0 h" and n: "unat capacity = n" "length ls < n" and g: "grants 4 (arena h)"
  shows "\<exists>l h'. new_loop (Some t) capacity (of_nat (length ls)) h
      = new_loop (Some t) capacity (of_nat (Suc (length ls))) h'
    \<and> building h0 M t r n (ls @ [l]) 0 h' \<and> arena h' = (tick ^^ 4) (arena h)"
proof (rule building_cell [OF b n])
  fix cell
  assume cell: "get_bucket (Some t) (of_nat (length ls)) h = Some cell" "(of_nat (length ls) :: size_t) < capacity"
  have "grants 3 (arena h)" by (rule grants_mono [OF g]) simp
  note b3 = new_bucket [OF b n(2) this, of cell]
  show ?thesis
  proof (rule b3)
    fix l h1 r2 r3
    assume new: "generic_linked_list_new (Some cell) h = Some (0, Some (Some l), h1)"
      and set: "set_bucket (Some t) (of_nat (length ls)) (Some l) h1 = Some (h1\<lparr>tables := (tables h)(t \<mapsto> r2)\<rparr>)"
      and r3: "half_built r n (ls @ [l]) 0 r3"
      and mutex: "\<And>h' :: ('k, 'v, 'w, 'z) hth. tables h' t = Some r2 \<Longrightarrow>
        set_mutex (Some t) (of_nat (length ls)) (Some Unlocked) h' = Some (h'\<lparr>tables := (tables h')(t \<mapsto> r3)\<rparr>)"
      and l: "l \<notin> set ls" "M l = None" and h1: "ll_rep h1 ((plus_lists M ls)(l \<mapsto> empty_list)) Map.empty"
        "arena h1 = (tick ^^ 3) (arena h)" "iters h1 = iters h" "kvs h1 = kvs h" "world h1 = world h" "same_ht_frame h h1"
    define h2 where "h2 = h1\<lparr>arena := (tick ^^ 4) (arena h), tables := (tables h)(t \<mapsto> r3)\<rparr>"
    have "\<not> refused ((tick ^^ 3) (arena h))" by (rule grants_nth [OF g]) simp
    then have "new_loop (Some t) capacity (of_nat (length ls)) h = new_loop (Some t) capacity (of_nat (length ls) + 1) h2"
      using cell new set mutex h1(2)
      by (subst new_loop.simps) (simp add: h2_def eval_nat_numeral)
    moreover have "ll_rep h2 (plus_lists M (drop 0 (ls @ [l]))) Map.empty"
      using ll_rep_cong [OF h1(1), of h2] h1(2) by (simp add: h2_def)
    then have "building h0 M t r n (ls @ [l]) 0 h2"
      by (rule building_cong [OF b _ _ r3]) (use b l n h1 in \<open>auto simp: h2_def building_def\<close>)
    ultimately show ?thesis by (intro exI [of _ l] exI [of _ h2]) (simp add: h2_def add.commute)
  qed
qed

lemma sys_init_refused:
  assumes "refused A"
  obtains c where "c \<noteq> 0" and "sys_init A = (c, tick A)"
  using assms that [of "fst (sys_init A)"] by (metis prod.collapse sys_init_simps(2,3))

lemma new_loop_fails:
  fixes h :: "('k, 'v, 'w, 'z) hth"
  assumes b: "building h0 M t r n ls 0 h" and n: "unat capacity = n" "length ls < n" and g: "\<not> grants 4 (arena h)"
  shows "\<exists>h'. new_loop (Some t) capacity (of_nat (length ls)) h = Some (-1, h') \<and> released h0 M t h'"
proof (rule building_cell [OF b n])
  fix cell
  assume cell: "get_bucket (Some t) (of_nat (length ls)) h = Some cell" "(of_nat (length ls) :: size_t) < capacity"
  note B = b [unfolded building_def]
  have dist: "distinct ls" "set ls \<inter> dom M = {}" "length ls \<le> n" and rep: "ll_rep h (plus_lists M ls) Map.empty" using B by simp_all
  show ?thesis
  proof (cases "grants 3 (arena h)")
    case False
    then obtain h1 where h1: "generic_linked_list_new (Some cell) h = Some (-1, Some NULL, h1)"
      "ll_rep h1 (plus_lists M ls) Map.empty" "world h1 = world h" "iters h1 = iters h"
      "ticks (arena h) \<le> ticks (arena h1)" "same_frame h h1"
      using new_refused [OF rep, of cell] by (auto simp: not_grants_3)
    note fr = ht_frameD [OF h1(6)]
    obtain r' where "tables h1 t = Some r'" "half_built r n ls 0 r'" "n \<le> block_limit" using B fr(2) by auto
    from half_built_cells(2) [OF this(1,2) n(2) this(3) refl, of NULL] obtain r2 where
      r2: "set_bucket (Some t) (of_nat (length ls)) NULL h1 = Some (h1\<lparr>tables := (tables h1)(t \<mapsto> r2)\<rparr>)" "half_built r n ls 0 r2"
      by blast
    define h2 where "h2 = h1\<lparr>tables := (tables h1)(t \<mapsto> r2)\<rparr>"
    have "building h0 M t r n ls 0 h2"
      by (rule building_cong [OF b ll_rep_cong [of h1] _ r2(2)]) (use h1(2-5) fr dist in \<open>simp_all add: h2_def\<close>)
    from new_undo_spec [OF this] cell h1(1) r2(1) show ?thesis
      by (subst new_loop.simps) (auto simp: h2_def)
  next
    case True
    with g have "refused ((tick ^^ 3) (arena h))" using grants_add [of 3 1 "arena h"] by simp
    then obtain c where c: "c \<noteq> 0" "sys_init ((tick ^^ 3) (arena h)) = (c, (tick ^^ 4) (arena h))"
      by (rule sys_init_refused) (simp add: eval_nat_numeral)
    show ?thesis
    proof (rule new_bucket [OF b n(2) True, of cell])
      fix l h1 r2
      assume new: "generic_linked_list_new (Some cell) h = Some (0, Some (Some l), h1)"
        and set: "set_bucket (Some t) (of_nat (length ls)) (Some l) h1 = Some (h1\<lparr>tables := (tables h)(t \<mapsto> r2)\<rparr>)"
        and r2: "half_built r n ls 0 r2"
        and l: "l \<notin> set ls" "M l = None" and h1: "ll_rep h1 ((plus_lists M ls)(l \<mapsto> empty_list)) Map.empty"
          "arena h1 = (tick ^^ 3) (arena h)" "iters h1 = iters h" "kvs h1 = kvs h" "world h1 = world h" "same_ht_frame h h1"
      define h2 where "h2 = h1\<lparr>tables := (tables h)(t \<mapsto> r2), arena := (tick ^^ 4) (arena h)\<rparr>"
      have "ll_rep h2 ((plus_lists M ls)(l \<mapsto> empty_list)) Map.empty"
        by (rule ll_rep_cong [OF h1(1)]) (use h1 in \<open>simp_all add: h2_def\<close>)
      moreover have "(plus_lists M ls)(l \<mapsto> empty_list, l := None) = plus_lists M ls" using l by (auto simp: plus_lists_def fun_eq_iff)
      ultimately obtain h3 where h3: "generic_linked_list_free (Some l) h2 = Some (0, h3)"
        "ll_rep h3 (plus_lists M ls) Map.empty" "world h3 = world h2" "arena h3 = arena h2" "iters h3 = iters h2" "same_frame h2 h3"
        using free_spec [of h2 "(plus_lists M ls)(l \<mapsto> empty_list)" Map.empty l empty_list "world h2"]
        by (auto simp: empty_list_def)
      note fr = ht_frameD [OF h3(6)]
      have "building h0 M t r n ls 0 h3"
        by (rule building_cong [OF b _ _ r2]) (use h1 h3 fr dist in \<open>simp_all add: h2_def\<close>)
      from new_undo_spec [OF this] cell new set c h1(2) h3(1) show ?thesis
        by (subst new_loop.simps) (auto simp: h2_def)
    qed
  qed
qed

lemma new_loop_spec:
  assumes "building h0 M t r n ls 0 h" and n: "unat capacity = n" and "ticks (arena h) \<le> block_limit"
  shows "\<exists>h' ls'. if grants (4 * (n - length ls)) (arena h)
    then new_loop (Some t) capacity (of_nat (length ls)) h = Some (0, h') \<and> building h0 M t r n ls' 0 h' \<and> length ls' = n
      \<and> arena h' = (tick ^^ (4 * (n - length ls))) (arena h)
    else new_loop (Some t) capacity (of_nat (length ls)) h = Some (-1, h') \<and> released h0 M t h'"
  using assms(1,3)
proof (induction "n - length ls" arbitrary: ls h)
  case 0
  then have len: "length ls = n" "n \<le> block_limit" by (simp_all add: building_def)
  then have "\<not> of_nat (length ls) < capacity" using n by (simp add: word_less_nat_alt unat_of_nat_size_t)
  with 0 len show ?case by (subst (1 2) new_loop.simps) (auto simp: grants_def)
next
  case (Suc k)
  then have less: "length ls < n" by simp
  have split: "grants (4 * (n - length ls)) (arena h) \<longleftrightarrow> grants 4 (arena h) \<and> grants (4 * (n - Suc (length ls))) ((tick ^^ 4) (arena h))"
    using grants_add [of 4 "4 * (n - Suc (length ls))" "arena h"] less by (simp add: Suc_diff_Suc [symmetric])
  show ?case
  proof (cases "grants 4 (arena h)")
    case True
    then obtain l h' where h': "new_loop (Some t) capacity (of_nat (length ls)) h = new_loop (Some t) capacity (of_nat (Suc (length ls))) h'"
      "building h0 M t r n (ls @ [l]) 0 h'" "arena h' = (tick ^^ 4) (arena h)"
      using new_loop_step [OF Suc.prems(1) n less] by blast
    have "ticks (arena h') \<le> block_limit" using True h'(3) by (simp add: grants_def)
    moreover have "4 * (n - length ls) = 4 * (n - Suc (length ls)) + 4" using less by simp
    ultimately show ?thesis
      unfolding split h'(1) using Suc.hyps(1) [OF _ h'(2)] Suc.hyps(2) h'(3) True by (simp only: simp_thms length_append_singleton funpow_add o_apply)
  next
    case False
    with new_loop_fails [OF Suc.prems(1) n less] show ?thesis unfolding split by auto
  qed
qed

lemma table_ok_lists:
  assumes "table_ok M K r g A"
  shows "set (lay_lists g) \<subseteq> dom M"
proof
  note D = table_okD [OF assms refl]
  fix l assume "l \<in> set (lay_lists g)"
  then obtain i where "i < length (at_buckets A)" "l = lay_lists g ! i" using D(4) by (auto simp: in_set_conv_nth)
  with D(8) [of i] show "l \<in> dom M" by (auto simp: bucket_ok_def)
qed

lemma table_ok_fresh:
  assumes "half_built r n ls 0 r'" and "length ls = n" and "0 < n" and "n \<le> block_limit" and "distinct ls"
    and r: "r = \<lparr>ht_capacity = of_nat n, ht_size = 0, ht_buckets = bs, ht_mutexes = ms, ht_hash_function = Some hash,
      ht_free_value_function = Some fv, ht_copy_value_function = Some cv, ht_free_key_function = Some fk,
      ht_copy_key_function = Some ck, ht_compare_key_function = Some cmp\<rparr>"
    and "unat capacity = n"
  shows "table_ok (plus_lists M ls) K r' (Layout ls (replicate n [])) (fresh_table capacity hash fv cv fk ck cmp)"
proof -
  obtain bs ms where r': "r' = r\<lparr>ht_buckets := Some bs, ht_mutexes := Some ms\<rparr>" and len: "length bs = n" "length ms = n"
    and "\<forall>j < length ls. bs ! j = Some (ls ! j)" "\<forall>j < length ls. 0 \<le> j \<longrightarrow> ms ! j = Some Unlocked"
    using assms(1) unfolding half_built_def by blast
  then have "bs = map Some ls" "ms = replicate n (Some Unlocked)"
    using assms(2) by (auto intro!: nth_equalityI)
  moreover have "bucket_ok (plus_lists M ls) K (ls ! i) [] []" if "i < n" for i
    using that assms(2) by (simp add: bucket_ok_def plus_lists_def empty_list_def)
  moreover have "ht_count (fresh_table capacity hash fv cv fk ck cmp) = 0" by (simp add: ht_count_def fresh_table_def)
  ultimately show ?thesis
    using assms(2-5,7) by (simp add: table_ok_def fresh_table_def r' r Let_def)
qed

lemma ht_inv_add:
  assumes inv: "ht_inv M K TB n G T" and "TB t = None" and "t \<in> {1..min n' block_limit}" and "n \<le> n'"
    and "set ls \<inter> dom M = {}" and ok: "table_ok (plus_lists M ls) K r (Layout ls (replicate k [])) A"
  shows "ht_inv (plus_lists M ls) K (TB(t \<mapsto> r)) n' (G(t \<mapsto> Layout ls (replicate k []))) (T(t \<mapsto> A))"
proof -
  have t: "G t = None" "T t = None" using ht_inv_none [OF inv assms(2)] by auto
  have old: "table_ok (plus_lists M ls) K r' g A'" "set (lay_lists g) \<inter> set ls = {}" if "table_ok M K r' g A'" for r' g A'
  proof -
    show d: "set (lay_lists g) \<inter> set ls = {}" using table_ok_lists [OF that] assms(5) by blast
    show "table_ok (plus_lists M ls) K r' g A'"
      by (rule table_ok_cong [OF that]) (use d in \<open>auto simp: plus_lists_def\<close>)
  qed
  have lay: "lay_disjoint g (Layout ls (replicate k []))" "lay_disjoint (Layout ls (replicate k [])) g" if "G t' = Some g" for t' g
    using ht_inv_layout [OF inv that] old(2) by (fastforce simp: lay_disjoint_def)+
  have "(TB(t \<mapsto> r)) t' = None \<and> (G(t \<mapsto> Layout ls (replicate k []))) t' = None \<and> (T(t \<mapsto> A)) t' = None \<or>
    (\<exists>r' g A'. (TB(t \<mapsto> r)) t' = Some r' \<and> (G(t \<mapsto> Layout ls (replicate k []))) t' = Some g \<and> (T(t \<mapsto> A)) t' = Some A'
       \<and> table_ok (plus_lists M ls) K r' g A')" for t'
    using inv ok old(1) unfolding ht_inv_def by (cases "t' = t") (simp, metis fun_upd_apply)
  moreover have "lay_disjoint g g'" if "(G(t \<mapsto> Layout ls (replicate k []))) t1 = Some g" "(G(t \<mapsto> Layout ls (replicate k []))) t2 = Some g'" "t1 \<noteq> t2" for t1 t2 g g'
    using that lay ht_inv_disj [OF inv] by (auto split: if_splits)
  moreover have "\<exists>t' g. (G(t \<mapsto> Layout ls (replicate k []))) t' = Some g \<and> l \<in> set (lay_lists g)" if "plus_lists M ls l \<noteq> None" for l
  proof (cases "l \<in> set ls")
    case False
    with that have "M l \<noteq> None" by (simp add: plus_lists_def)
    with ht_inv_lists [OF inv this] t show ?thesis by (metis fun_upd_apply option.distinct(1))
  qed (auto intro!: exI [of _ t])
  moreover have "\<exists>t' g. (G(t \<mapsto> Layout ls (replicate k []))) t' = Some g \<and> a \<in> set (concat (lay_pairs g))" if "K a \<noteq> None" for a
    using ht_inv_pairs [OF inv that] t by (metis fun_upd_apply option.distinct(1))
  moreover have "dom (TB(t \<mapsto> r)) \<union> dom K \<subseteq> {1..min n' block_limit}"
    using ht_inv_bound [OF inv] assms(3,4) by auto
  ultimately show ?thesis unfolding ht_inv_def by blast
qed

lemma array_len_exact:
  assumes "0 < sz" and "sz * unat n < 2 ^ 64"
  shows "array_len sz n = unat n"
proof (cases "n = 0")
  case False
  then have "0 < unat n" by (simp add: unat_gt_0)
  with assms(2) have "sz < 2 ^ 64" by (metis Suc_leI mult.right_neutral mult_le_mono2 order_le_less_trans One_nat_def)
  then have "unat (of_nat sz * n) = sz * unat n" using assms(2) by (simp add: unat_word_ariths unat_of_nat)
  with assms(1) show ?thesis by (simp add: array_len_def)
qed (simp add: array_len_def)

lemma malloc_table_simps [simp]:
  "\<not> refused (arena h) \<Longrightarrow> malloc_table h = (Some (Suc (ticks (arena h))), h\<lparr>arena := tick (arena h),
     tables := (tables h)(Suc (ticks (arena h)) \<mapsto>
       \<lparr>ht_capacity = 0, ht_size = 0, ht_buckets = NULL, ht_mutexes = NULL, ht_hash_function = NULL,
        ht_free_value_function = NULL, ht_copy_value_function = NULL, ht_free_key_function = NULL,
        ht_copy_key_function = NULL, ht_compare_key_function = NULL\<rparr>)\<rparr>)"
  "refused (arena h) \<Longrightarrow> malloc_table h = (NULL, h\<lparr>arena := tick (arena h)\<rparr>)"
  by (simp_all add: malloc_table_def)

lemma malloc_array_simps [simp]:
  "\<not> refused (arena h) \<Longrightarrow> malloc_array sz n h = (Some (replicate (array_len sz n) None), h\<lparr>arena := tick (arena h)\<rparr>)"
  "refused (arena h) \<Longrightarrow> malloc_array sz n h = (NULL, h\<lparr>arena := tick (arena h)\<rparr>)"
  by (simp_all add: malloc_array_def)

text \<open>The table before its buckets are made.\<close>

definition bare_table ::
  "size_t \<Rightarrow> 'k hash_fn \<Rightarrow> ('v, 'w) free_fn \<Rightarrow> ('v, 'w) copy_fn \<Rightarrow> ('k, 'w) free_fn
     \<Rightarrow> ('k, 'w) copy_fn \<Rightarrow> 'k compare_fn \<Rightarrow> ('k, 'v, 'w) generic_hash_table_t" where
  "bare_table capacity hash fv cv fk ck cmp = \<lparr>ht_capacity = capacity, ht_size = 0, ht_buckets = NULL, ht_mutexes = NULL,
     ht_hash_function = Some hash, ht_free_value_function = Some fv, ht_copy_value_function = Some cv,
     ht_free_key_function = Some fk, ht_copy_key_function = Some ck, ht_compare_key_function = Some cmp\<rparr>"

lemma new_prefix:
  fixes h :: "('k, 'v, 'w, 'z) hth"
  assumes g: "grants 3 (arena h)" and "capacity \<noteq> 0"
    and t: "t = Suc (ticks (arena h))"
    and r: "r = (bare_table capacity hash fv cv fk ck cmp)
      \<lparr>ht_buckets := Some (replicate (array_len sizeof_ptr capacity) None),
       ht_mutexes := Some (replicate (array_len sizeof_pthread_mutex_t capacity) None)\<rparr>"
    and h1: "h1 = h\<lparr>arena := (tick ^^ 3) (arena h), tables := (tables h)(t \<mapsto> r)\<rparr>"
  shows "generic_hash_table_new capacity (Some hash) (Some fv) (Some cv) (Some fk) (Some ck) (Some cmp) (Some v) h
    = do { (exit_code, h') \<leftarrow> new_loop (Some t) capacity 0 h1;
           if exit_code \<noteq> 0 then Some (exit_code, Some v, h') else Some (0, Some (Some t), h') }"
proof -
  have "\<not> refused (arena h)" "\<not> refused (tick (arena h))" "\<not> refused (tick (tick (arena h)))"
    using grants_nth [OF g, of 0] grants_nth [OF g, of 1] grants_nth [OF g, of 2] by (simp_all add: eval_nat_numeral)
  with assms(2) show ?thesis
    by (simp add: generic_hash_table_new_def modify_table_def h1 r t bare_table_def eval_nat_numeral cong: if_cong)
qed

lemma building_done:
  assumes inv: "ht_inv M (kvs h0) (tables h0) k G T" and fresh: "tables h0 t = None" and b: "building h0 M t r n ls 0 h"
    and len: "length ls = n" "0 < n" "unat capacity = n" and k: "k \<le> ticks (arena h0)" "t \<in> {1..min (ticks (arena h0)) block_limit}"
    and r: "r = bare_table capacity hash fv cv fk ck cmp"
  shows "ht_rep h (T(t \<mapsto> fresh_table capacity hash fv cv fk ck cmp))" and "T t = None"
proof -
  let ?A = "fresh_table capacity hash fv cv fk ck cmp"
  obtain r' where r': "tables h = (tables h0)(t \<mapsto> r')" "half_built r n ls 0 r'" using b unfolding building_def by blast
  have B: "distinct ls" "set ls \<inter> dom M = {}" "ll_rep h (plus_lists M ls) Map.empty" "unchanged h0 h" "n \<le> block_limit"
    using b unfolding building_def by auto
  have "r = \<lparr>ht_capacity = of_nat n, ht_size = 0, ht_buckets = NULL, ht_mutexes = NULL, ht_hash_function = Some hash,
      ht_free_value_function = Some fv, ht_copy_value_function = Some cv, ht_free_key_function = Some fk,
      ht_copy_key_function = Some ck, ht_compare_key_function = Some cmp\<rparr>"
    using len(3) by (auto simp: r bare_table_def)
  from table_ok_fresh [OF r'(2) len(1,2) B(5,1) this len(3)]
  have "table_ok (plus_lists M ls) (kvs h0) r' (Layout ls (replicate n [])) ?A" .
  moreover have "t \<in> {1..min (ticks (arena h)) block_limit}" "k \<le> ticks (arena h)"
    using B(4) k by (auto simp: unchanged_def)
  ultimately have "ht_inv (plus_lists M ls) (kvs h) (tables h) (ticks (arena h)) (G(t \<mapsto> Layout ls (replicate n []))) (T(t \<mapsto> ?A))"
    using ht_inv_add [OF inv fresh _ _ B(2)] B(4) unfolding r'(1) unchanged_def by simp
  then show "ht_rep h (T(t \<mapsto> ?A))" using B(3,4) unfolding ht_rep_def unchanged_def by blast
  show "T t = None" using ht_inv_none [OF inv fresh] by simp
qed

lemma table_new_spec:
  fixes h :: "('k, 'v, 'w, 'z) hth"
  assumes rep: "ht_rep h T" and g: "grants 3 (arena h)" and cap: "capacity \<noteq> 0" "40 * unat capacity < 2 ^ 64"
  shows "\<exists>h' t. world h' = world h \<and> (if grants (3 + 4 * unat capacity) (arena h)
    then generic_hash_table_new capacity (Some hash) (Some fv) (Some cv) (Some fk) (Some ck) (Some cmp) (Some v) h
        = Some (0, Some (Some t), h') \<and> T t = None \<and> ht_rep h' (T(t \<mapsto> fresh_table capacity hash fv cv fk ck cmp))
        \<and> arena h' = (tick ^^ (3 + 4 * unat capacity)) (arena h)
    else generic_hash_table_new capacity (Some hash) (Some fv) (Some cv) (Some fk) (Some ck) (Some cmp) (Some v) h
        = Some (-1, Some v, h') \<and> ht_rep h' T)"
proof -
  obtain M G where M: "ll_rep h M Map.empty" and inv: "ht_inv M (kvs h) (tables h) (ticks (arena h)) G T" and it: "iters h = Map.empty"
    using rep unfolding ht_rep_def by blast
  define n where "n = unat capacity"
  define t where "t = Suc (ticks (arena h))"
  define r where "r = bare_table capacity hash fv cv fk ck cmp"
  define h0 where "h0 = h\<lparr>arena := tick (arena h)\<rparr>"
  define h1 where "h1 = h\<lparr>arena := (tick ^^ 3) (arena h), tables := (tables h)(t \<mapsto>
    r\<lparr>ht_buckets := Some (replicate n None), ht_mutexes := Some (replicate n None)\<rparr>)\<rparr>"
  have n: "0 < n" "n \<le> block_limit" using cap by (simp_all add: n_def block_limit_def unat_gt_0)
  have len: "array_len sizeof_ptr capacity = n" "array_len sizeof_pthread_mutex_t capacity = n"
    using cap(2) by (simp_all add: array_len_exact sizeof_ptr_def sizeof_pthread_mutex_t_def n_def)
  have prefix: "generic_hash_table_new capacity (Some hash) (Some fv) (Some cv) (Some fk) (Some ck) (Some cmp) (Some v) h
    = do { (exit_code, h') \<leftarrow> new_loop (Some t) capacity 0 h1;
           if exit_code \<noteq> 0 then Some (exit_code, Some v, h') else Some (0, Some (Some t), h') }"
    by (rule new_prefix [OF g cap(1) t_def refl]) (simp add: h1_def r_def len)
  have fresh: "tables h t = None" using ht_inv_bound [OF inv] by (auto simp: t_def domIff [symmetric])
  have "half_built r n [] 0 (r\<lparr>ht_buckets := Some (replicate n None), ht_mutexes := Some (replicate n None)\<rparr>)"
    unfolding half_built_def by (intro exI [of _ "replicate n None"]) simp
  then have b: "building h0 M t r n [] 0 h1"
    using ll_rep_cong [OF M, of h1] it n(2) by (auto simp: building_def unchanged_def h1_def h0_def eval_nat_numeral)
  have "ticks (arena h1) \<le> block_limit" using g by (simp add: grants_def h1_def)
  note loop = new_loop_spec [OF b n_def [symmetric] this, simplified list.size diff_zero of_nat_0]
  have split: "grants (3 + 4 * unat capacity) (arena h) \<longleftrightarrow> grants (4 * n) (arena h1)"
    using grants_add [of 3 "4 * n" "arena h"] g by (simp add: n_def h1_def)
  show ?thesis
  proof (cases "grants (4 * n) (arena h1)")
    case True
    with loop obtain h' ls where h': "new_loop (Some t) capacity 0 h1 = Some (0, h')" "building h0 M t r n ls 0 h'" "length ls = n"
      "arena h' = (tick ^^ (4 * n)) (arena h1)" by auto
    have "ht_rep h' (T(t \<mapsto> fresh_table capacity hash fv cv fk ck cmp))" "T t = None"
      by (rule building_done [OF _ _ h'(2,3) n(1) n_def [symmetric] _ _ r_def, where k = "ticks (arena h)"];
        use inv fresh g in \<open>simp add: h0_def t_def grants_def\<close>)+
    moreover have "world h' = world h" using h'(2) by (simp add: building_def unchanged_def h0_def)
    moreover have "arena h' = (tick ^^ (3 + 4 * unat capacity)) (arena h)"
      unfolding h'(4) by (simp add: h1_def n_def add.commute [of 3] funpow_add)
    ultimately show ?thesis unfolding split using True prefix h'(1) by auto
  next
    case False
    with loop obtain h' where h': "new_loop (Some t) capacity 0 h1 = Some (-1, h')" "released h0 M t h'" by auto
    then have "tables h' = tables h" using fresh by (auto simp: released_def h0_def)
    moreover have "ticks (arena h) \<le> ticks (arena h')" using h'(2) by (simp add: released_def unchanged_def h0_def)
    ultimately have "ht_rep h' T"
      using h'(2) ht_inv_mono [OF inv, of "ticks (arena h')"] unfolding ht_rep_def released_def unchanged_def h0_def by auto
    then show ?thesis unfolding split using False prefix h' by (auto simp: released_def unchanged_def h0_def)
  qed
qed

text \<open>When one of the two arrays is refused, the table (and the array of buckets) stays behind.\<close>

lemma table_new_leaks:
  assumes "\<not> refused (arena h)" and "refused (tick (arena h)) \<or> refused (tick (tick (arena h)))" and "capacity \<noteq> 0"
    and "tables h (Suc (ticks (arena h))) = None"
  shows "\<exists>h' r. generic_hash_table_new capacity (Some hash) (Some fv) (Some cv) (Some fk) (Some ck) (Some cmp) (Some v) h
      = Some (-1, Some v, h') \<and> tables h' = (tables h)(Suc (ticks (arena h)) \<mapsto> r) \<and> Suc (ticks (arena h)) \<notin> dom (tables h)"
  using assms
  by (cases "refused (tick (arena h))") (auto simp: generic_hash_table_new_def modify_table_def domIff)

text \<open>A capacity for which the size of the array of buckets wraps around to 0.\<close>

lemma table_new_overflow:
  assumes "grants 3 (arena h)" and "capacity = 2 ^ 61"
  shows "generic_hash_table_new capacity (Some hash) (Some fv) (Some cv) (Some fk) (Some ck) (Some cmp) (Some v) h = None"
proof -
  have "capacity \<noteq> 0" "array_len sizeof_ptr capacity = 0" "0 < capacity"
    unfolding assms(2) by (simp_all add: array_len_def sizeof_ptr_def word_less_nat_alt)
  then show ?thesis
    unfolding new_prefix [OF assms(1) \<open>capacity \<noteq> 0\<close> refl refl refl]
    by (subst new_loop.simps) (simp add: get_bucket_def table_at_def)
qed

section \<open>Destruction\<close>

text \<open>The callbacks on the pairs of a bucket: for each pair the key, then the value.\<close>

fun release_all :: "('k, 'v, 'w) atable \<Rightarrow> ('k ptr \<times> 'v ptr) list \<Rightarrow> 'w \<Rightarrow> 'w option" where
  "release_all A [] w = Some w"
| "release_all A ((k, v) # kv) w = do {
     w \<leftarrow> at_free_key A k w;
     w \<leftarrow> at_free_value A v w;
     release_all A kv w }"

lemma release_all_append:
  "release_all A (kv @ kv') w = Option.bind (release_all A kv w) (release_all A kv')"
  by (induction kv arbitrary: w) (auto split: bind_splits)

lemma free_pairs_loop_spec:
  fixes h :: "('k, 'v, 'w, 'z) hth"
  assumes "ll_rep h M I" and "I it = Some (l, Suc m)"
    and "M l = Some \<lparr>al_items = map Some ps, al_free = NULL, al_copy = NULL\<rparr>"
    and "\<forall>i. m \<le> i \<and> i < length ps \<longrightarrow> kvs h (ps ! i) = Some \<lparr>kv_key = fst (kv ! i), kv_value = snd (kv ! i)\<rparr>"
    and "length kv = length ps" and "distinct ps" and "m \<le> length ps"
    and "ht_free_key_function r = Some (at_free_key A)" and "ht_free_value_function r = Some (at_free_value A)"
    and "release_all A (drop m kv) (world h) = Some w"
  shows "\<exists>h'. free_pairs_loop r (Some it) e h = Some (e, h') \<and> ll_rep h' M (I(it \<mapsto> (l, Suc (length ps))))
    \<and> kvs h' = kvs h |` (- set (drop m ps)) \<and> tables h' = tables h \<and> world h' = w \<and> iter_only it h h' \<and> arena h' = arena h
    \<and> same_ht_frame h h'"
  using assms
proof (induction "length ps - m" arbitrary: h I m)
  case 0
  then have m: "m = length ps" by simp
  have I: "I(it \<mapsto> (l, Suc (length ps))) = I" using 0(3) m by (simp add: fun_upd_idem_iff)
  have "free_pairs_loop r (Some it) e h = Some (e, h)"
    using is_end_spec(3) [OF 0(2-4)] m by (subst free_pairs_loop.simps) simp
  with 0 m show ?case unfolding I by (auto simp: restrict_map_def)
next
  case (Suc d)
  then have m: "m < length ps" by simp
  have drops: "drop m ps = ps ! m # drop (Suc m) ps" "drop m kv = kv ! m # drop (Suc m) kv"
    using m Suc.prems(5) by (simp_all add: Cons_nth_drop_Suc)
  obtain k v where kv: "kv ! m = (k, v)" by fastforce
  with drops Suc.prems(10) obtain w1 w2 where w: "at_free_key A k (world h) = Some w1" "at_free_value A v w1 = Some w2"
    "release_all A (drop (Suc m) kv) w2 = Some w" by (auto simp: bind_eq_Some_conv)
  have pm: "kvs h (ps ! m) = Some \<lparr>kv_key = k, kv_value = v\<rparr>" using Suc.prems(4) m kv by simp
  define h1 where "h1 = h\<lparr>world := w2, kvs := (kvs h)(ps ! m := None)\<rparr>"
  have rep1: "ll_rep h1 M I" by (rule ll_rep_cong [OF Suc.prems(1)]) (simp_all add: h1_def)
  obtain h2 where h2: "generic_linked_list_iterator_next (Some it) h1 = Some (0, h2)"
    "ll_rep h2 M (I(it \<mapsto> (l, Suc (Suc m))))" "iter_only it h1 h2" "arena h2 = arena h1" "kept h1 h2"
    using next_spec [OF rep1 Suc.prems(2,3)] m by auto
  note fr = ht_frameD [of h1 h2]
  have K: "kvs h2 = (kvs h)(ps ! m := None)" "tables h2 = tables h" "same_ht_frame h h2" "world h2 = w2"
    using fr h2(5) by (simp_all add: h1_def)
  have step: "free_pairs_loop r (Some it) e h = free_pairs_loop r (Some it) e h2"
    using is_end_spec(3) [OF Suc.prems(1-3)] get_spec [OF Suc.prems(1-3), of NULL] m pm w(1,2) Suc.prems(8,9) h2(1)
    by (subst free_pairs_loop.simps) (simp add: pair_at_def call_free_key_def call_free_value_def free_pair_def h1_def)
  have rest: "\<forall>i. Suc m \<le> i \<and> i < length ps \<longrightarrow> kvs h2 (ps ! i) = Some \<lparr>kv_key = fst (kv ! i), kv_value = snd (kv ! i)\<rparr>"
    using Suc.prems(4,6) m by (auto simp: K nth_eq_iff_index_eq)
  have d: "d = length ps - Suc m" using Suc.hyps(2) by simp
  from Suc.hyps(1) [where m = "Suc m", OF d h2(2) _ Suc.prems(3) rest Suc.prems(5,6) _ Suc.prems(8,9)] w(3) m K(4)
  obtain h' where h': "free_pairs_loop r (Some it) e h2 = Some (e, h')" "ll_rep h' M (I(it \<mapsto> (l, Suc (length ps))))"
    "kvs h' = kvs h2 |` (- set (drop (Suc m) ps))" "tables h' = tables h2" "world h' = w" "iter_only it h2 h'"
    "arena h' = arena h2" "same_ht_frame h2 h'"
    by auto
  moreover have "kvs h' = kvs h |` (- set (drop m ps))"
    unfolding h'(3) K drops by (auto simp: restrict_map_def fun_eq_iff)
  ultimately show ?case unfolding step using h2(3,4) K by (auto simp: h1_def)
qed

text \<open>The table at \<open>t\<close> has lost its first \<open>j\<close> buckets.\<close>

definition mutexes_left :: "nat \<Rightarrow> nat \<Rightarrow> pthread_mutex_t option list" where
  "mutexes_left n j = replicate j None @ replicate (n - j) (Some Unlocked)"

definition dismantling where
  "dismantling h0 M t r g n j h \<longleftrightarrow> ll_rep h (M |` (- set (take j (lay_lists g)))) Map.empty \<and> iters h = Map.empty
     \<and> kvs h = kvs h0 |` (- set (concat (take j (lay_pairs g)))) \<and> same_ht_frame h0 h
     \<and> ticks (arena h0) \<le> ticks (arena h)
     \<and> tables h = (tables h0)(t \<mapsto> r\<lparr>ht_mutexes := Some (mutexes_left n j)\<rparr>)"

lemma restrict_bucket:
  assumes "distinct (concat pss)" and "j < length pss" and "a \<in> set (pss ! j)"
  shows "(K |` (- set (concat (take j pss)))) a = K a"
proof -
  have "concat pss = concat (take j pss) @ concat (drop j pss)" by (simp flip: concat_append)
  moreover have "drop j pss = pss ! j # drop (Suc j) pss" using assms(2) by (simp add: Cons_nth_drop_Suc)
  ultimately have "concat pss = concat (take j pss) @ pss ! j @ concat (drop (Suc j) pss)" by simp
  with assms(1) have "set (concat (take j pss)) \<inter> set (pss ! j) = {}" by (metis distinct_append Int_Un_distrib set_append sup_eq_bot_iff)
  with assms(3) show ?thesis by (auto simp: restrict_map_def)
qed

lemma dismantle_cells:
  assumes j: "j < n" "n \<le> block_limit" and ls: "length ls = n" "ht_buckets r = Some (map Some ls)"
  defines "r1 \<equiv> r\<lparr>ht_mutexes := Some (mutexes_left n j)\<rparr>"
    and "r2 \<equiv> r\<lparr>ht_mutexes := Some ((mutexes_left n j)[j := Some Locked])\<rparr>"
    and "r3 \<equiv> r\<lparr>ht_mutexes := Some (mutexes_left n (Suc j))\<rparr>"
  shows "tables h t = Some r1 \<Longrightarrow> lock_bucket (Some t) (of_nat j) h = Some (h\<lparr>tables := (tables h)(t \<mapsto> r2)\<rparr>)"
    and "tables h t = Some r2 \<Longrightarrow> get_bucket (Some t) (of_nat j) h = Some (Some (ls ! j))"
    and "tables h t = Some r2 \<Longrightarrow> unlock_bucket (Some t) (of_nat j) h = Some (h\<lparr>tables := (tables h)(t \<mapsto> r1)\<rparr>)"
    and "tables h t = Some r1 \<Longrightarrow> destroy_bucket_mutex (Some t) (of_nat j) h = Some (h\<lparr>tables := (tables h)(t \<mapsto> r3)\<rparr>)"
proof -
  have u: "unat (of_nat j :: size_t) = j" using j by (intro unat_of_nat_size_t) simp
  have ms: "length (mutexes_left n j) = n" "mutexes_left n j ! j = Some Unlocked"
    "(mutexes_left n j)[j := Some Unlocked] = mutexes_left n j"
    using j by (simp_all add: mutexes_left_def nth_append list_update_same_conv)
  have next_ms: "(mutexes_left n j)[j := None] = mutexes_left n (Suc j)"
    using j by (intro nth_equalityI) (auto simp: mutexes_left_def nth_append nth_list_update simp del: replicate_Suc)
  note cells = get_mutex_def set_mutex_def table_at_def modify_table_def r1_def r2_def r3_def
  show "tables h t = Some r1 \<Longrightarrow> lock_bucket (Some t) (of_nat j) h = Some (h\<lparr>tables := (tables h)(t \<mapsto> r2)\<rparr>)"
    using j u ms by (simp add: lock_bucket_def cells)
  show "tables h t = Some r2 \<Longrightarrow> get_bucket (Some t) (of_nat j) h = Some (Some (ls ! j))"
    using j u ls by (simp add: get_bucket_def cells)
  show "tables h t = Some r2 \<Longrightarrow> unlock_bucket (Some t) (of_nat j) h = Some (h\<lparr>tables := (tables h)(t \<mapsto> r1)\<rparr>)"
    using j u ms by (simp add: unlock_bucket_def cells)
  show "tables h t = Some r1 \<Longrightarrow> destroy_bucket_mutex (Some t) (of_nat j) h = Some (h\<lparr>tables := (tables h)(t \<mapsto> r3)\<rparr>)"
    using j u ms next_ms by (simp add: destroy_bucket_mutex_def cells)
qed

lemma empty_bucket:
  fixes h :: "('k, 'v, 'w, 'z) hth"
  assumes rep: "ll_rep h M Map.empty" "M l = Some \<lparr>al_items = map Some ps, al_free = NULL, al_copy = NULL\<rparr>"
    and it: "iters h = Map.empty" and kv: "map (kvs h) ps = map (\<lambda>p. Some \<lparr>kv_key = fst p, kv_value = snd p\<rparr>) kv" "distinct ps"
    and fns: "ht_free_key_function r = Some (at_free_key A)" "ht_free_value_function r = Some (at_free_value A)"
    and granted: "\<not> refused (arena h)" and w: "release_all A kv (world h) = Some w"
  obtains i h2 h3 h4 h5 where "generic_linked_list_iterator_begin (Some l) (Some NULL) h = Some (0, Some (Some i), h2)"
    and "free_pairs_loop r (Some i) e h2 = Some (e, h3)" and "generic_linked_list_iterator_free (Some i) h3 = Some (0, h4)"
    and "generic_linked_list_free (Some l) h4 = Some (0, h5)" and "ll_rep h5 (M(l := None)) Map.empty"
    and "iters h5 = Map.empty" and "kvs h5 = kvs h |` (- set ps)" and "tables h4 = tables h" and "tables h5 = tables h"
    and "world h5 = w" and "arena h5 = tick (arena h)" and "same_ht_frame h h5"
proof -
  obtain h2 i where h2: "generic_linked_list_iterator_begin (Some l) (Some NULL) h = Some (0, Some (Some i), h2)"
    "ll_rep h2 M [i \<mapsto> (l, Suc 0)]" "iter_only i h h2" "arena h2 = tick (arena h)" "kept h h2"
    using begin_spec [OF rep granted, of NULL] by auto
  note fr2 = ht_frameD [of h h2]
  have len: "length ps = length kv" using kv(1) by (rule map_eq_imp_length_eq)
  have at: "\<forall>j. 0 \<le> j \<and> j < length ps \<longrightarrow> kvs h2 (ps ! j) = Some \<lparr>kv_key = fst (kv ! j), kv_value = snd (kv ! j)\<rparr>"
  proof (intro allI impI)
    fix j assume "0 \<le> j \<and> j < length ps"
    with arg_cong [OF kv(1), of "\<lambda>xs. xs ! j"] len fr2 h2(5)
    show "kvs h2 (ps ! j) = Some \<lparr>kv_key = fst (kv ! j), kv_value = snd (kv ! j)\<rparr>" by simp
  qed
  obtain h3 where h3: "free_pairs_loop r (Some i) e h2 = Some (e, h3)" "ll_rep h3 M [i \<mapsto> (l, Suc (length ps))]"
    "kvs h3 = kvs h2 |` (- set ps)" "tables h3 = tables h2" "world h3 = w" "iter_only i h2 h3" "arena h3 = arena h2"
    "same_ht_frame h2 h3"
    using free_pairs_loop_spec [OF h2(2) _ rep(2) at _ kv(2) _ fns, where w = w and e = e and it = i] len w h2(5) by auto
  obtain h4 where h4: "generic_linked_list_iterator_free (Some i) h3 = Some (0, h4)" "ll_rep h4 M Map.empty"
    "iters h4 = (iters h3)(i := None)" "arena h4 = arena h3" "kept h3 h4"
    using iterator_free_spec [OF h3(2), of i l "Suc (length ps)"] by auto
  have it4: "iters h4 = Map.empty" using h4(3) h3(6) h2(3) it by simp
  have "free_all NULL (map Some ps) (world h4) = Some (world h4)" by (induction ps) simp_all
  then obtain h5 where h5: "generic_linked_list_free (Some l) h4 = Some (0, h5)" "ll_rep h5 (M(l := None)) Map.empty"
    "world h5 = world h4" "arena h5 = arena h4" "iters h5 = iters h4" "same_frame h4 h5"
    using free_spec [OF h4(2) rep(2), of "world h4"] by auto
  note fr = ht_frameD [of h3 h4] ht_frameD [of h4 h5] fr2
  show thesis
    by (rule that [OF h2(1) h3(1) h4(1) h5(1,2)]) (use h2 h3 h4(4,5) h5(3-6) it4 fr in simp_all)
qed

lemma free_bucket_step:
  fixes h :: "('k, 'v, 'w, 'z) hth"
  assumes dis: "dismantling h0 M t r g n j h" and ok: "table_ok M (kvs h0) r g A" and n: "n = length (at_buckets A)" "j < n"
    and granted: "\<not> refused (arena h)" and w: "release_all A (at_buckets A ! j) (world h) = Some w"
  shows "\<exists>h'. free_buckets_loop (Some t) (of_nat j) e h = free_buckets_loop (Some t) (of_nat (Suc j)) e h'
    \<and> dismantling h0 M t r g n (Suc j) h' \<and> world h' = w \<and> arena h' = tick (arena h)"
proof -
  note D = table_okD [OF ok n(1)] and B = dis [unfolded dismantling_def]
  let ?l = "lay_lists g ! j" and ?ps = "lay_pairs g ! j" and ?kv = "at_buckets A ! j" and ?Mj = "M |` (- set (take j (lay_lists g)))"
  define r1 where "r1 = r\<lparr>ht_mutexes := Some (mutexes_left n j)\<rparr>"
  define r2 where "r2 = r\<lparr>ht_mutexes := Some ((mutexes_left n j)[j := Some Locked])\<rparr>"
  define r3 where "r3 = r\<lparr>ht_mutexes := Some (mutexes_left n (Suc j))\<rparr>"
  have bs: "ht_buckets r = Some (map Some (lay_lists g))" using D(1) by simp
  note cells = dismantle_cells [OF n(2) D(3,4) bs, folded r1_def r2_def r3_def]
  define h1 where "h1 = h\<lparr>tables := (tables h)(t \<mapsto> r2)\<rparr>"
  have lock: "lock_bucket (Some t) (of_nat j) h = Some h1" using cells(1) [of h t] B by (simp add: h1_def r1_def)
  have ok_j: "bucket_ok M (kvs h0) ?l ?ps ?kv" using D(8) n(2) by simp
  have "?l \<notin> set (take j (lay_lists g))"
    using D(4,6) n(2) by (auto simp: in_set_conv_nth nth_eq_iff_index_eq)
  then have Ml: "?Mj ?l = Some \<lparr>al_items = map Some ?ps, al_free = NULL, al_copy = NULL\<rparr>" using ok_j by (simp add: bucket_ok_def)
  have rep1: "ll_rep h1 ?Mj Map.empty" by (rule ll_rep_cong [of h]) (use B in \<open>simp_all add: h1_def\<close>)
  have K1: "kvs h1 = kvs h0 |` (- set (concat (take j (lay_pairs g))))" using B by (simp add: h1_def)
  have "kvs h1 a = kvs h0 a" if "a \<in> set ?ps" for a
    unfolding K1 by (rule restrict_bucket [OF D(7) _ that]) (use D(5) n(2) in simp)
  then have "map (kvs h1) ?ps = map (kvs h0) ?ps" by simp
  then have kv1: "map (kvs h1) ?ps = map (\<lambda>p. Some \<lparr>kv_key = fst p, kv_value = snd p\<rparr>) ?kv" using ok_j by (simp only: bucket_ok_def)
  have dist: "distinct ?ps" using D(5,7) n(2) by (simp add: distinct_concat_iff)
  have fns: "ht_free_key_function r1 = Some (at_free_key A)" "ht_free_value_function r1 = Some (at_free_value A)"
    using D(1) by (simp_all add: r1_def)
  show ?thesis
  proof (rule empty_bucket [OF rep1 Ml _ kv1 dist fns, of w])
    show "iters h1 = Map.empty" "\<not> refused (arena h1)" "release_all A ?kv (world h1) = Some w" using B granted w by (simp_all add: h1_def)
    fix i h2 h3 h4 h5
    assume run: "generic_linked_list_iterator_begin (Some ?l) (Some NULL) h1 = Some (0, Some (Some i), h2)"
      "free_pairs_loop r1 (Some i) e h2 = Some (e, h3)" "generic_linked_list_iterator_free (Some i) h3 = Some (0, h4)"
      "generic_linked_list_free (Some ?l) h4 = Some (0, h5)"
      and h5: "ll_rep h5 (?Mj(?l := None)) Map.empty" "iters h5 = Map.empty" "kvs h5 = kvs h1 |` (- set ?ps)" "tables h4 = tables h1"
        "tables h5 = tables h1" "world h5 = w" "arena h5 = tick (arena h1)" "same_ht_frame h1 h5"
    define h6 where "h6 = h5\<lparr>tables := (tables h)(t \<mapsto> r3)\<rparr>"
    have lt: "(of_nat j :: size_t) < ht_capacity r1"
      using D(1,3) n(2) by (simp add: r1_def word_less_nat_alt unat_of_nat_size_t)
    have "free_buckets_loop (Some t) (of_nat j) e h = free_buckets_loop (Some t) (of_nat j + 1) e h6"
      using lock lt run cells(2) [of h1 t] cells(2) [of h4 t] cells(3) [of h5 t] cells(4) [of "h5\<lparr>tables := (tables h5)(t \<mapsto> r1)\<rparr>" t] B h5(4,5)
      by (subst free_buckets_loop.simps) (simp add: table_at_def h1_def h6_def r1_def)
    moreover have "?Mj(?l := None) = M |` (- set (take (Suc j) (lay_lists g)))"
      using D(4) n(2) by (auto simp: take_Suc_conv_app_nth restrict_map_def fun_eq_iff)
    moreover have "kvs h5 = kvs h0 |` (- set (concat (take (Suc j) (lay_pairs g))))"
      unfolding h5(3) K1 using D(5) n(2) by (auto simp: take_Suc_conv_app_nth restrict_map_def fun_eq_iff)
    ultimately have "dismantling h0 M t r g n (Suc j) h6"
      using B h5 ll_rep_cong [of h5 _ Map.empty h6] unfolding dismantling_def by (simp add: h6_def h1_def r3_def)
    moreover note \<open>free_buckets_loop (Some t) (of_nat j) e h = _\<close>
    ultimately show ?thesis using h5(6,7) by (intro exI [of _ h6]) (simp add: h6_def h1_def add.commute)
  qed
qed

lemma free_buckets_loop_spec:
  assumes "dismantling h0 M t r g n j h" and ok: "table_ok M (kvs h0) r g A" and n: "n = length (at_buckets A)"
    and "j \<le> n" and "grants (n - j) (arena h)" and "release_all A (concat (drop j (at_buckets A))) (world h) = Some w"
  shows "\<exists>h'. free_buckets_loop (Some t) (of_nat j) e h = Some (e, h') \<and> dismantling h0 M t r g n n h' \<and> world h' = w
    \<and> arena h' = (tick ^^ (n - j)) (arena h)"
  using assms(1,4-6)
proof (induction "n - j" arbitrary: j h)
  case 0
  then have j: "j = n" by simp
  have "table_at h (Some t) = Some (r\<lparr>ht_mutexes := Some (mutexes_left n j)\<rparr>)"
    using 0(2) by (simp add: dismantling_def table_at_def)
  moreover have "ht_capacity r = of_nat n" using table_okD(1) [OF ok n] by simp
  ultimately have "free_buckets_loop (Some t) (of_nat j) e h = Some (e, h)"
    using j by (subst free_buckets_loop.simps) simp
  with 0 j n show ?case by auto
next
  case (Suc k)
  then have j: "j < n" by simp
  have drop: "concat (drop j (at_buckets A)) = at_buckets A ! j @ concat (drop (Suc j) (at_buckets A))"
    using j n by (simp add: Cons_nth_drop_Suc [symmetric])
  obtain w1 where w1: "release_all A (at_buckets A ! j) (world h) = Some w1"
    "release_all A (concat (drop (Suc j) (at_buckets A))) w1 = Some w"
    using Suc.prems(4) unfolding drop release_all_append by (auto simp: bind_eq_Some_conv)
  have eq: "n - j = Suc (n - Suc j)" using j by simp
  have g: "\<not> refused (arena h)" "grants (n - Suc j) (tick (arena h))"
    using Suc.prems(3) unfolding eq grants_Suc by simp_all
  obtain h1 where h1: "free_buckets_loop (Some t) (of_nat j) e h = free_buckets_loop (Some t) (of_nat (Suc j)) e h1"
    "dismantling h0 M t r g n (Suc j) h1" "world h1 = w1" "arena h1 = tick (arena h)"
    using free_bucket_step [OF Suc.prems(1) ok n j g(1) w1(1)] by blast
  have "k = n - Suc j" "Suc j \<le> n" using Suc.hyps(2) j by simp_all
  from Suc.hyps(1) [OF this(1) h1(2) this(2)] g(2) w1(2) h1(3,4)
  show ?case unfolding h1(1) eq by (simp add: funpow_swap1)
qed

lemma ht_inv_remove:
  assumes inv: "ht_inv M K TB n G T" and t: "TB t = Some r" "G t = Some g" and "n \<le> n'"
  shows "ht_inv (M |` (- set (lay_lists g))) (K |` (- set (concat (lay_pairs g)))) (TB(t := None)) n' (G(t := None)) (T(t := None))"
proof -
  let ?M = "M |` (- set (lay_lists g))" and ?K = "K |` (- set (concat (lay_pairs g)))"
  have other: "table_ok ?M ?K r' g' A'" if "G t' = Some g'" "t' \<noteq> t" "table_ok M K r' g' A'" for t' g' r' A'
  proof -
    have "lay_disjoint g' g" by (rule ht_inv_disj [OF inv that(1) t(2) that(2)])
    then show ?thesis
      by (intro table_ok_cong [OF that(3)]) (auto simp: lay_disjoint_def restrict_map_def)
  qed
  have "(TB(t := None)) t' = None \<and> (G(t := None)) t' = None \<and> (T(t := None)) t' = None \<or>
    (\<exists>r' g' A'. (TB(t := None)) t' = Some r' \<and> (G(t := None)) t' = Some g' \<and> (T(t := None)) t' = Some A' \<and> table_ok ?M ?K r' g' A')" for t'
  proof (cases "t' = t \<or> TB t' = None")
    case False
    then obtain r' g' A' where "TB t' = Some r'" "G t' = Some g'" "T t' = Some A'" "table_ok M K r' g' A'"
      using ht_inv_some [OF inv, of t'] by auto
    with other [of t' g' r' A'] False show ?thesis by auto
  qed (use ht_inv_none [OF inv, of t'] in auto)
  moreover have "lay_disjoint g1 g2" if "(G(t := None)) t1 = Some g1" "(G(t := None)) t2 = Some g2" "t1 \<noteq> t2" for t1 t2 g1 g2
    using that ht_inv_disj [OF inv] by (auto split: if_splits)
  moreover have "\<exists>t' g'. (G(t := None)) t' = Some g' \<and> l \<in> set (lay_lists g')" if "?M l \<noteq> None" for l
  proof -
    from that have l: "M l \<noteq> None" "l \<notin> set (lay_lists g)" by (auto simp: restrict_map_def split: if_splits)
    with ht_inv_lists [OF inv l(1)] t(2) show ?thesis by (metis fun_upd_apply option.inject)
  qed
  moreover have "\<exists>t' g'. (G(t := None)) t' = Some g' \<and> a \<in> set (concat (lay_pairs g'))" if "?K a \<noteq> None" for a
  proof -
    from that have a: "K a \<noteq> None" "a \<notin> set (concat (lay_pairs g))" by (auto simp: restrict_map_def split: if_splits)
    with ht_inv_pairs [OF inv a(1)] t(2) show ?thesis by (metis fun_upd_apply option.inject)
  qed
  moreover have "dom (TB(t := None)) \<union> dom ?K \<subseteq> {1..min n' block_limit}"
  proof -
    have "dom (TB(t := None)) \<union> dom ?K \<subseteq> dom TB \<union> dom K" by (auto simp: restrict_map_def split: if_splits)
    also have "\<dots> \<subseteq> {1..min n block_limit}" by (rule ht_inv_bound [OF inv])
    also have "\<dots> \<subseteq> {1..min n' block_limit}" using assms(4) by auto
    finally show ?thesis .
  qed
  ultimately show ?thesis unfolding ht_inv_def by blast
qed

lemma table_free_spec:
  fixes h :: "('k, 'v, 'w, 'z) hth"
  assumes rep: "ht_rep h T" "T t = Some A" and g: "grants (length (at_buckets A)) (arena h)"
    and w: "release_all A (concat (at_buckets A)) (world h) = Some w"
  shows "\<exists>h'. generic_hash_table_free (Some t) h = Some (0, h') \<and> ht_rep h' (T(t := None)) \<and> world h' = w
    \<and> arena h' = (tick ^^ length (at_buckets A)) (arena h) \<and> same_ht_frame h h'"
proof -
  obtain M G r g where v: "bucket_view h T t A M G r g" by (rule bucket_viewE [OF rep])
  then have M: "ll_rep h M Map.empty" and inv: "ht_inv M (kvs h) (tables h) (ticks (arena h)) G T" and it: "iters h = Map.empty"
    and t: "tables h t = Some r" "G t = Some g" and ok: "table_ok M (kvs h) r g A"
    by (simp_all add: bucket_view_def)
  note D = table_okD [OF ok refl]
  define n where "n = length (at_buckets A)"
  have "r\<lparr>ht_mutexes := Some (mutexes_left n 0)\<rparr> = r" using D(1) by (cases r) (simp add: mutexes_left_def n_def)
  then have "dismantling h M t r g n 0 h" using M it t(1) by (simp add: dismantling_def fun_upd_idem restrict_map_def)
  from free_buckets_loop_spec [OF this ok n_def, of w 0] g w obtain h1 where
    h1: "free_buckets_loop (Some t) 0 0 h = Some (0, h1)" "dismantling h M t r g n n h1" "world h1 = w"
      "arena h1 = (tick ^^ n) (arena h)"
    by (auto simp: n_def)
  note B = h1(2) [unfolded dismantling_def]
  have all: "take n (lay_lists g) = lay_lists g" "take n (lay_pairs g) = lay_pairs g" using D(4,5) by (simp_all add: n_def)
  define h2 where "h2 = h1\<lparr>tables := (tables h)(t := None)\<rparr>"
  have "ll_rep h2 (M |` (- set (lay_lists g))) Map.empty" by (rule ll_rep_cong [of h1]) (use B all in \<open>simp_all add: h2_def\<close>)
  moreover have "kvs h2 = kvs h |` (- set (concat (lay_pairs g)))" using B all by (simp add: h2_def)
  ultimately have "ht_rep h2 (T(t := None))"
    using ht_inv_remove [OF inv t, of "ticks (arena h2)"] B h1(4) unfolding ht_rep_def by (auto simp: h2_def)
  moreover have "generic_hash_table_free (Some t) h = Some (0, h2)"
    using h1(1) B by (simp add: generic_hash_table_free_def free_buckets_def free_mutexes_def free_table_def modify_table_def h2_def)
  ultimately show ?thesis using h1(3,4) B by (intro exI [of _ h2]) (simp add: h2_def n_def)
qed

end
