(* ===== verification/Broker.thy ===== *)
theory Broker
  imports Channel Table_Lifecycle
begin

text \<open>
  The message broker of \<^verbatim>\<open>src/message_broker.c\<close>: a hash table of channels keyed by name, a pool that runs
  the publications, and the functions of its interface.

  The table is the one of \<^verbatim>\<open>Hash_Table\<close> with the broker's callbacks; the state on which they act
  is the channel store.  The pool is seen from outside: its queue of submitted tasks and its flag \<open>_off\<close>; a task
  is the pointer to its argument, as every task runs \<open>_publisher_task\<close>.  A call or a task runs alone.
\<close>

section \<open>Structures\<close>

record message_broker_t =
  mb_publisher_pool :: "addr ptr"
  mb_channels :: "addr ptr"
  mb_channels_mutex :: pthread_mutex_t
  mb_next_subscriber_id :: uint64_t
  mb_next_message_id :: uint64_t

record subscription_t =
  sub_id :: uint64_t
  sub_channel_name :: "string ptr"
  sub_broker :: "addr ptr"
  sub_proxy :: "addr ptr"
  sub_active :: bool

text \<open>The field \<open>_channels_mutex\<close> of a task argument points into a broker; it is the address of the broker.\<close>

record publisher_task_arg_t =
  ta_message_id :: uint64_t
  ta_channel_name :: "string ptr"
  ta_content :: "string ptr"
  ta_channels :: "addr ptr"
  ta_channels_mutex :: "addr ptr"

record pool_t =
  po_off :: bool
  po_tasks :: "addr ptr list"

record broker_store =
  brokers :: "addr \<rightharpoonup> message_broker_t"
  subscriptions :: "addr \<rightharpoonup> subscription_t"
  task_args :: "addr \<rightharpoonup> publisher_task_arg_t"
  pools :: "addr \<rightharpoonup> pool_t"
  br_arena :: allocator
  table_heap :: "(string, addr, channel_store) ht_heap"

abbreviation channel_heap :: "broker_store \<Rightarrow> channel_store" where
  "channel_heap b \<equiv> world (table_heap b)"

abbreviation set_channel_heap :: "channel_store \<Rightarrow> broker_store \<Rightarrow> broker_store" where
  "set_channel_heap w b \<equiv> b\<lparr>table_heap := (table_heap b)\<lparr>world := w\<rparr>\<rparr>"

abbreviation broker_proxies :: "broker_store \<Rightarrow> proxy_store" where
  "broker_proxies b \<equiv> proxy_heap (channel_heap b)"

abbreviation set_broker_proxies :: "proxy_store \<Rightarrow> broker_store \<Rightarrow> broker_store" where
  "set_broker_proxies pw b \<equiv> set_channel_heap (set_proxy_heap pw (channel_heap b)) b"

section \<open>Accesses\<close>

definition broker_at :: "broker_store \<Rightarrow> addr ptr \<Rightarrow> message_broker_t option" where
  "broker_at b p = Option.bind p (brokers b)"

definition modify_broker :: "addr ptr \<Rightarrow> (message_broker_t \<Rightarrow> message_broker_t) \<Rightarrow> broker_store \<Rightarrow> broker_store option" where
  "modify_broker p f b = do {
     a \<leftarrow> p;
     r \<leftarrow> brokers b a;
     Some (b\<lparr>brokers := (brokers b)(a \<mapsto> f r)\<rparr>) }"

definition lock_channels :: "addr ptr \<Rightarrow> broker_store \<Rightarrow> broker_store option" where
  "lock_channels p b = do {
     r \<leftarrow> broker_at b p;
     m \<leftarrow> pthread_mutex_lock (mb_channels_mutex r);
     modify_broker p (\<lambda>r. r\<lparr>mb_channels_mutex := m\<rparr>) b }"

definition unlock_channels :: "addr ptr \<Rightarrow> broker_store \<Rightarrow> broker_store option" where
  "unlock_channels p b = do {
     r \<leftarrow> broker_at b p;
     m \<leftarrow> pthread_mutex_unlock (mb_channels_mutex r);
     modify_broker p (\<lambda>r. r\<lparr>mb_channels_mutex := m\<rparr>) b }"

text \<open>\<open>atomic_fetch_add\<close> on the two counters.\<close>

definition next_message_id :: "addr ptr \<Rightarrow> broker_store \<Rightarrow> (uint64_t, broker_store) res" where
  "next_message_id p b = do {
     r \<leftarrow> broker_at b p;
     b \<leftarrow> modify_broker p (\<lambda>r. r\<lparr>mb_next_message_id := mb_next_message_id r + 1\<rparr>) b;
     Some (mb_next_message_id r, b) }"

definition next_subscriber_id :: "addr ptr \<Rightarrow> broker_store \<Rightarrow> (uint64_t, broker_store) res" where
  "next_subscriber_id p b = do {
     r \<leftarrow> broker_at b p;
     b \<leftarrow> modify_broker p (\<lambda>r. r\<lparr>mb_next_subscriber_id := mb_next_subscriber_id r + 1\<rparr>) b;
     Some (mb_next_subscriber_id r, b) }"

definition malloc_subscription :: "broker_store \<Rightarrow> addr ptr \<times> broker_store" where
  "malloc_subscription b = (case malloc (br_arena b) of
     (NULL, A) \<Rightarrow> (NULL, b\<lparr>br_arena := A\<rparr>)
   | (Some a, A) \<Rightarrow> (Some a, b\<lparr>br_arena := A, subscriptions := (subscriptions b)(a \<mapsto>
       \<lparr>sub_id = 0, sub_channel_name = NULL, sub_broker = NULL, sub_proxy = NULL, sub_active = False\<rparr>)\<rparr>))"

definition subscription_at :: "broker_store \<Rightarrow> addr ptr \<Rightarrow> subscription_t option" where
  "subscription_at b p = Option.bind p (subscriptions b)"

definition modify_subscription :: "addr ptr \<Rightarrow> (subscription_t \<Rightarrow> subscription_t) \<Rightarrow> broker_store \<Rightarrow> broker_store option" where
  "modify_subscription p f b = do {
     a \<leftarrow> p;
     r \<leftarrow> subscriptions b a;
     Some (b\<lparr>subscriptions := (subscriptions b)(a \<mapsto> f r)\<rparr>) }"

definition free_subscription :: "addr ptr \<Rightarrow> broker_store \<Rightarrow> broker_store option" where
  "free_subscription p b = (case p of NULL \<Rightarrow> Some b
     | Some a \<Rightarrow> if subscriptions b a = None then None else Some (b\<lparr>subscriptions := (subscriptions b)(a := None)\<rparr>))"

definition malloc_task_arg :: "broker_store \<Rightarrow> addr ptr \<times> broker_store" where
  "malloc_task_arg b = (case malloc (br_arena b) of
     (NULL, A) \<Rightarrow> (NULL, b\<lparr>br_arena := A\<rparr>)
   | (Some a, A) \<Rightarrow> (Some a, b\<lparr>br_arena := A, task_args := (task_args b)(a \<mapsto>
       \<lparr>ta_message_id = 0, ta_channel_name = NULL, ta_content = NULL, ta_channels = NULL, ta_channels_mutex = NULL\<rparr>)\<rparr>))"

definition task_arg_at :: "broker_store \<Rightarrow> addr ptr \<Rightarrow> publisher_task_arg_t option" where
  "task_arg_at b p = Option.bind p (task_args b)"

definition modify_task_arg :: "addr ptr \<Rightarrow> (publisher_task_arg_t \<Rightarrow> publisher_task_arg_t) \<Rightarrow> broker_store \<Rightarrow> broker_store option" where
  "modify_task_arg p f b = do {
     a \<leftarrow> p;
     r \<leftarrow> task_args b a;
     Some (b\<lparr>task_args := (task_args b)(a \<mapsto> f r)\<rparr>) }"

definition publisher_task_arg_free :: "addr ptr \<Rightarrow> broker_store \<Rightarrow> broker_store option" where
  "publisher_task_arg_free arg b = (case arg of NULL \<Rightarrow> Some b
     | Some a \<Rightarrow> if task_args b a = None then None else Some (b\<lparr>task_args := (task_args b)(a := None)\<rparr>))"

text \<open>
  \<open>thread_pool_submit\<close> as one call: the task is refused when the pool is off or when the task or its node in the queue
  cannot be allocated, and is queued otherwise.
\<close>

definition pool_submit :: "addr ptr \<Rightarrow> addr ptr \<Rightarrow> broker_store \<Rightarrow> (exit_code, broker_store) res" where
  "pool_submit pool arg b =
     (if pool = NULL then Some (1, b)
      else do {
        a \<leftarrow> pool;
        po \<leftarrow> pools b a;
        if po_off po then Some (1, b)
        else case malloc (br_arena b) of
            (NULL, A) \<Rightarrow> Some (-1, b\<lparr>br_arena := A\<rparr>)
          | (Some _, A) \<Rightarrow> (case malloc A of
              (NULL, A) \<Rightarrow> Some (-1, b\<lparr>br_arena := A\<rparr>)
            | (Some _, A) \<Rightarrow> Some (0, b\<lparr>br_arena := A, pools := (pools b)(a \<mapsto> po\<lparr>po_tasks := po_tasks po @ [arg]\<rparr>)\<rparr>)) })"

section \<open>Callbacks of the table of channels\<close>

text \<open>The string callbacks on the channel store, whose allocator they use.\<close>

definition key_copy :: "(string, channel_store) copy_fn" where
  "key_copy src w = map_option (\<lambda>(r, k, A). (r, k, w\<lparr>ch_arena := A\<rparr>)) (string_copy src (ch_arena w))"

definition key_free :: "(string, channel_store) free_fn" where
  "key_free data w = map_option (\<lambda>A. w\<lparr>ch_arena := A\<rparr>) (string_free data (ch_arena w))"

section \<open>Publishing\<close>

definition publisher_task :: "addr ptr \<Rightarrow> broker_store \<Rightarrow> broker_store option" where
  "publisher_task arg b =
     (if arg = NULL then Some b
      else do {
        ta \<leftarrow> task_arg_at b arg;
        b \<leftarrow> lock_channels (ta_channels_mutex ta) b;
        (exit_code, field, h) \<leftarrow> generic_hash_table_get (ta_channels ta) (ta_channel_name ta) (Some NULL) (table_heap b);
        channel \<leftarrow> field;
        let b = b\<lparr>table_heap := h\<rparr>;
        (failed, channel, b) \<leftarrow> (if exit_code \<noteq> 0 \<or> channel = NULL then do {
            (exit_code, field, w) \<leftarrow> channel_new (ta_channel_name ta) (Some channel) (channel_heap b);
            channel \<leftarrow> field;
            let b = set_channel_heap w b;
            if exit_code \<noteq> 0 then do {
              b \<leftarrow> unlock_channels (ta_channels_mutex ta) b;
              b \<leftarrow> publisher_task_arg_free arg b;
              Some (True, channel, b) }
            else do {
              (exit_code, h) \<leftarrow> generic_hash_table_insert (ta_channels ta) (ta_channel_name ta) channel (table_heap b);
              let b = b\<lparr>table_heap := h\<rparr>;
              if exit_code \<noteq> 0 then do {
                b \<leftarrow> unlock_channels (ta_channels_mutex ta) b;
                w \<leftarrow> channel_free channel (channel_heap b);
                b \<leftarrow> publisher_task_arg_free arg (set_channel_heap w b);
                Some (True, channel, b) }
              else Some (False, channel, b) } }
          else Some (False, channel, b));
        if failed then Some b
        else do {
          b \<leftarrow> unlock_channels (ta_channels_mutex ta) b;
          w \<leftarrow> deliver (ta_message_id ta) (ta_channel_name ta) (ta_content ta) channel (channel_heap b);
          publisher_task_arg_free arg (set_channel_heap w b) } })"

definition message_broker_publish ::
  "addr ptr \<Rightarrow> string ptr \<Rightarrow> string ptr \<Rightarrow> broker_store \<Rightarrow> (exit_code, broker_store) res" where
  "message_broker_publish self channel content b =
     (if self = NULL then Some (1, b)
      else if channel = NULL then Some (1, b)
      else if content = NULL then Some (1, b)
      else do {
        let (task_arg, b) = malloc_task_arg b;
        if task_arg = NULL then Some (-1, b)
        else do {
          (mid, b) \<leftarrow> next_message_id self b;
          b \<leftarrow> modify_task_arg task_arg (\<lambda>t. t\<lparr>ta_message_id := mid\<rparr>) b;
          let (copy, A) = dup_string channel (br_arena b);
          b \<leftarrow> modify_task_arg task_arg (\<lambda>t. t\<lparr>ta_channel_name := copy\<rparr>) (b\<lparr>br_arena := A\<rparr>);
          if copy = NULL then do {
            b \<leftarrow> publisher_task_arg_free task_arg b;
            Some (-1, b) }
          else do {
            let (copy, A) = dup_string content (br_arena b);
            b \<leftarrow> modify_task_arg task_arg (\<lambda>t. t\<lparr>ta_content := copy\<rparr>) (b\<lparr>br_arena := A\<rparr>);
            if copy = NULL then do {
              b \<leftarrow> publisher_task_arg_free task_arg b;
              Some (-1, b) }
            else do {
              r \<leftarrow> broker_at b self;
              b \<leftarrow> modify_task_arg task_arg (\<lambda>t. t\<lparr>ta_channels := mb_channels r, ta_channels_mutex := self\<rparr>) b;
              (exit_code, b) \<leftarrow> pool_submit (mb_publisher_pool r) task_arg b;
              if exit_code \<noteq> 0 then do {
                b \<leftarrow> publisher_task_arg_free task_arg b;
                Some (exit_code, b) }
              else Some (0, b) } } } })"

text \<open>The oldest task of the pool is taken by a dispatcher and run.\<close>

definition dispatch :: "addr ptr \<Rightarrow> broker_store \<Rightarrow> broker_store option" where
  "dispatch self b = do {
     r \<leftarrow> broker_at b self;
     q \<leftarrow> mb_publisher_pool r;
     po \<leftarrow> pools b q;
     (case po_tasks po of [] \<Rightarrow> Some b
      | arg # tasks \<Rightarrow> publisher_task arg (b\<lparr>pools := (pools b)(q \<mapsto> po\<lparr>po_tasks := tasks\<rparr>)\<rparr>)) }"

section \<open>Subscribing\<close>

text \<open>The part of \<open>message_broker_subscribe\<close> after the channel has been found or created.\<close>

definition attach_subscriber ::
  "addr ptr \<Rightarrow> uint64_t \<Rightarrow> addr ptr \<Rightarrow> string ptr \<Rightarrow> addr ptr out \<Rightarrow> broker_store \<Rightarrow> (exit_code \<times> addr ptr out \<times> broker_store) option" where
  "attach_subscriber self subscriber_id ch channel out_subscription b = do {
     (exit_code, field, pw) \<leftarrow> subscriber_proxy_new subscriber_id (Some NULL) (broker_proxies b);
     proxy \<leftarrow> field;
     let b = set_broker_proxies pw b;
     if exit_code \<noteq> 0 then Some (exit_code, out_subscription, b)
     else do {
       (exit_code, w) \<leftarrow> add_proxy ch proxy (channel_heap b);
       let b = set_channel_heap w b;
       if exit_code \<noteq> 0 then do {
         pw \<leftarrow> subscriber_proxy_free proxy (broker_proxies b);
         Some (exit_code, out_subscription, set_broker_proxies pw b) }
       else do {
         let (subscription, b) = malloc_subscription b;
         if subscription = NULL then Some (-1, out_subscription, b)
         else do {
           let (copy, A) = dup_string channel (br_arena b);
           b \<leftarrow> modify_subscription subscription (\<lambda>s. s\<lparr>sub_id := subscriber_id, sub_broker := self, sub_proxy := proxy,
             sub_active := True, sub_channel_name := copy\<rparr>) (b\<lparr>br_arena := A\<rparr>);
           if copy = NULL then do {
             b \<leftarrow> free_subscription subscription b;
             Some (-1, out_subscription, b) }
           else Some (0, Some subscription, b) } } } }"

definition message_broker_subscribe ::
  "addr ptr \<Rightarrow> string ptr \<Rightarrow> addr ptr out \<Rightarrow> broker_store \<Rightarrow> (exit_code \<times> addr ptr out \<times> broker_store) option" where
  "message_broker_subscribe self channel out_subscription b =
     (if self = NULL then Some (1, out_subscription, b)
      else if channel = NULL then Some (1, out_subscription, b)
      else if out_subscription = NULL then Some (1, out_subscription, b)
      else do {
        (subscriber_id, b) \<leftarrow> next_subscriber_id self b;
        b \<leftarrow> lock_channels self b;
        r \<leftarrow> broker_at b self;
        (exit_code, field, h) \<leftarrow> generic_hash_table_get (mb_channels r) channel (Some NULL) (table_heap b);
        ch \<leftarrow> field;
        let b = b\<lparr>table_heap := h\<rparr>;
        (exit_code, ch, b) \<leftarrow> (if exit_code \<noteq> 0 \<or> ch = NULL then do {
            (exit_code, field, w) \<leftarrow> channel_new channel (Some ch) (channel_heap b);
            ch \<leftarrow> field;
            let b = set_channel_heap w b;
            if exit_code \<noteq> 0 then do {
              b \<leftarrow> unlock_channels self b;
              Some (exit_code, ch, b) }
            else do {
              (exit_code, h) \<leftarrow> generic_hash_table_insert (mb_channels r) channel ch (table_heap b);
              let b = b\<lparr>table_heap := h\<rparr>;
              if exit_code \<noteq> 0 then do {
                w \<leftarrow> channel_free ch (channel_heap b);
                b \<leftarrow> unlock_channels self (set_channel_heap w b);
                Some (exit_code, ch, b) }
              else Some (0, ch, b) } }
          else Some (0, ch, b));
        if exit_code \<noteq> 0 then Some (exit_code, out_subscription, b)
        else do {
          b \<leftarrow> unlock_channels self b;
          attach_subscriber self subscriber_id ch channel out_subscription b } })"

section \<open>Subscriptions\<close>

text \<open>
  The loop of \<open>subscription_receive\<close> waits on the condition variable of the inbox while the inbox is empty.  It is left by
  another thread only, so within one call the wait has no result.
\<close>

definition subscription_receive ::
  "addr ptr \<Rightarrow> addr ptr out \<Rightarrow> broker_store \<Rightarrow> (exit_code \<times> addr ptr out \<times> broker_store) option" where
  "subscription_receive self out_msg b =
     (if self = NULL then Some (1, out_msg, b)
      else if out_msg = NULL then Some (1, out_msg, b)
      else do {
        s \<leftarrow> subscription_at b self;
        if \<not> sub_active s then Some (1, out_msg, b)
        else if sub_proxy s = NULL then Some (1, out_msg, b)
        else do {
          x \<leftarrow> proxy_at (broker_proxies b) (sub_proxy s);
          if \<not> px_active x then Some (1, out_msg, b)
          else do {
            pw \<leftarrow> lock_inbox (sub_proxy s) (broker_proxies b);
            (empty, pw) \<leftarrow> on_inboxes (generic_queue_syn_is_empty (px_inbox x)) pw;
            x \<leftarrow> proxy_at pw (sub_proxy s);
            if empty = 1 \<and> px_active x then None
            else if \<not> px_active x then do {
              pw \<leftarrow> unlock_inbox (sub_proxy s) pw;
              Some (1, Some NULL, set_broker_proxies pw b) }
            else do {
              pw \<leftarrow> unlock_inbox (sub_proxy s) pw;
              (exit_code, field, h) \<leftarrow> generic_queue_syn_dequeue (px_inbox x) (Some NULL) (inboxes pw);
              msg \<leftarrow> field;
              let b = set_broker_proxies (pw\<lparr>inboxes := h\<rparr>) b;
              if exit_code \<noteq> 0 then Some (exit_code, Some NULL, b)
              else Some (0, Some msg, b) } } } })"

definition subscription_try_receive ::
  "addr ptr \<Rightarrow> addr ptr out \<Rightarrow> broker_store \<Rightarrow> (exit_code \<times> addr ptr out \<times> broker_store) option" where
  "subscription_try_receive self out_msg b =
     (if self = NULL then Some (1, out_msg, b)
      else if out_msg = NULL then Some (1, out_msg, b)
      else do {
        s \<leftarrow> subscription_at b self;
        if \<not> sub_active s then Some (1, out_msg, b)
        else if sub_proxy s = NULL then Some (1, out_msg, b)
        else do {
          x \<leftarrow> proxy_at (broker_proxies b) (sub_proxy s);
          if \<not> px_active x then Some (1, out_msg, b)
          else do {
            (empty, pw) \<leftarrow> on_inboxes (generic_queue_syn_is_empty (px_inbox x)) (broker_proxies b);
            if empty = 1 then Some (1, Some NULL, set_broker_proxies pw b)
            else do {
              (exit_code, field, h) \<leftarrow> generic_queue_syn_dequeue (px_inbox x) (Some NULL) (inboxes pw);
              msg \<leftarrow> field;
              let b = set_broker_proxies (pw\<lparr>inboxes := h\<rparr>) b;
              if exit_code \<noteq> 0 then Some (exit_code, Some NULL, b)
              else Some (0, Some msg, b) } } } })"

definition subscription_unsubscribe :: "addr ptr \<Rightarrow> broker_store \<Rightarrow> (exit_code, broker_store) res" where
  "subscription_unsubscribe self b =
     (if self = NULL then Some (1, b)
      else do {
        s \<leftarrow> subscription_at b self;
        if \<not> sub_active s then Some (1, b)
        else if sub_broker s = NULL then Some (1, b)
        else do {
          b \<leftarrow> (if sub_proxy s \<noteq> NULL then do {
                 pw \<leftarrow> modify_proxy (sub_proxy s) (\<lambda>x. x\<lparr>px_active := False\<rparr>) (broker_proxies b);
                 pw \<leftarrow> lock_inbox (sub_proxy s) pw;
                 pw \<leftarrow> unlock_inbox (sub_proxy s) pw;
                 Some (set_broker_proxies pw b) }
               else Some b);
          b \<leftarrow> lock_channels (sub_broker s) b;
          r \<leftarrow> broker_at b (sub_broker s);
          (exit_code, field, h) \<leftarrow> generic_hash_table_get (mb_channels r) (sub_channel_name s) (Some NULL) (table_heap b);
          ch \<leftarrow> field;
          let b = b\<lparr>table_heap := h\<rparr>;
          b \<leftarrow> (if exit_code = 0 \<and> ch \<noteq> NULL then do {
                 w \<leftarrow> drop_proxy (sub_id s) ch (channel_heap b);
                 Some (set_channel_heap w b) }
               else Some b);
          b \<leftarrow> unlock_channels (sub_broker s) b;
          b \<leftarrow> modify_subscription self (\<lambda>s. s\<lparr>sub_active := False, sub_proxy := NULL\<rparr>) b;
          Some (0, b) } })"

definition subscription_free :: "addr ptr \<Rightarrow> broker_store \<Rightarrow> (exit_code, broker_store) res" where
  "subscription_free self b =
     (if self = NULL then Some (1, b)
      else do {
        s \<leftarrow> subscription_at b self;
        b \<leftarrow> (if sub_active s then do { (_, b) \<leftarrow> subscription_unsubscribe self b; Some b } else Some b);
        b \<leftarrow> free_subscription self b;
        Some (0, b) })"

definition subscription_get_id :: "addr ptr \<Rightarrow> uint64_t out \<Rightarrow> broker_store \<Rightarrow> (exit_code \<times> uint64_t out) option" where
  "subscription_get_id self out_id b =
     (if self = NULL then Some (1, out_id)
      else if out_id = NULL then Some (1, out_id)
      else do {
        s \<leftarrow> subscription_at b self;
        Some (0, Some (sub_id s)) })"

definition subscription_get_channel :: "addr ptr \<Rightarrow> string ptr out \<Rightarrow> broker_store \<Rightarrow> (exit_code \<times> string ptr out) option" where
  "subscription_get_channel self out_channel b =
     (if self = NULL then Some (1, out_channel)
      else if out_channel = NULL then Some (1, out_channel)
      else do {
        s \<leftarrow> subscription_at b self;
        Some (0, Some (sub_channel_name s)) })"

definition subscription_get_pending_count ::
  "addr ptr \<Rightarrow> size_t out \<Rightarrow> broker_store \<Rightarrow> (exit_code \<times> size_t out \<times> broker_store) option" where
  "subscription_get_pending_count self out_count b =
     (if self = NULL then Some (1, out_count, b)
      else if out_count = NULL then Some (1, out_count, b)
      else do {
        s \<leftarrow> subscription_at b self;
        if sub_proxy s = NULL then Some (0, Some 0, b)
        else do {
          x \<leftarrow> proxy_at (broker_proxies b) (sub_proxy s);
          (exit_code, out_count, h) \<leftarrow> generic_queue_syn_size (px_inbox x) out_count (inboxes (broker_proxies b));
          Some (exit_code, out_count, set_broker_proxies ((broker_proxies b)\<lparr>inboxes := h\<rparr>) b) } })"

section \<open>Representation\<close>

subsection \<open>The table of channels\<close>

definition broker_callbacks :: "(string, addr, channel_store) atable \<Rightarrow> bool" where
  "broker_callbacks A \<longleftrightarrow> at_hash A = string_hash \<and> at_compare A = string_compare \<and> at_free_value A = channel_free_wrapper
     \<and> at_copy_value A = channel_copy \<and> at_free_key A = key_free \<and> at_copy_key A = key_copy"

text \<open>The pairs of a table, and the channel that a lookup of a name finds.\<close>

definition pairs :: "('k, 'v, 'w) atable \<Rightarrow> ('k ptr \<times> 'v ptr) set" where
  "pairs A = set (concat (at_buckets A))"

definition find_channel :: "(string, addr, channel_store) atable \<Rightarrow> string \<Rightarrow> addr ptr" where
  "find_channel A name = (case ht_stack A (Some name) of [] \<Rightarrow> NULL | v # _ \<Rightarrow> v)"

definition stored :: "('k, 'v, 'w) atable \<Rightarrow> 'v ptr list" where
  "stored A = map snd (concat (at_buckets A))"

text \<open>Every pair of the table binds the name of a channel to that channel, and every channel is stored exactly once.\<close>

definition tb_rep ::
  "(string, addr, channel_store) ht_heap \<Rightarrow> addr \<Rightarrow> (string, addr, channel_store) atable \<Rightarrow> (addr \<rightharpoonup> achannel)
     \<Rightarrow> (addr \<rightharpoonup> aproxy) \<Rightarrow> (addr \<rightharpoonup> message_t) \<Rightarrow> bool" where
  "tb_rep h t A C X D \<longleftrightarrow> ht_rep h [t \<mapsto> A] \<and> ch_rep (world h) C X D \<and> broker_callbacks A
     \<and> (\<forall>k v. (k, v) \<in> pairs A \<longrightarrow> (\<exists>s c E. k = Some s \<and> v = Some c \<and> C c = Some E \<and> ac_name E = c_str s))
     \<and> distinct (stored A) \<and> dom C = {c. Some c \<in> set (stored A)}"

subsection \<open>The broker\<close>

record publication =
  pub_id :: uint64_t
  pub_channel :: string
  pub_content :: string

text \<open>
  The content of a broker: the table of channels, the channels, the proxies, the messages in no inbox, the subscriptions, the
  publications that wait in the pool, and the counters.
\<close>

record abroker =
  ab_table :: "(string, addr, channel_store) atable"
  ab_channels :: "addr \<rightharpoonup> achannel"
  ab_proxies :: "addr \<rightharpoonup> aproxy"
  ab_held :: "addr \<rightharpoonup> message_t"
  ab_subscriptions :: "addr \<rightharpoonup> subscription_t"
  ab_tasks :: "publication list"
  ab_off :: bool
  ab_next_subscriber :: uint64_t
  ab_next_message :: uint64_t

text \<open>The proxies that a publication on a channel reaches.\<close>

definition members_of :: "(string, addr, channel_store) atable \<Rightarrow> (addr \<rightharpoonup> achannel) \<Rightarrow> string \<Rightarrow> addr list" where
  "members_of A C name = (case find_channel A name of NULL \<Rightarrow> []
     | Some c \<Rightarrow> (case C c of None \<Rightarrow> [] | Some E \<Rightarrow> ac_proxies E))"

abbreviation members :: "abroker \<Rightarrow> string \<Rightarrow> addr list" where
  "members B \<equiv> members_of (ab_table B) (ab_channels B)"

text \<open>
  Identities of proxies are unique and below the next one.  A subscription that is active stands for an active proxy that is a
  member of its channel.
\<close>

definition sub_ok :: "addr \<Rightarrow> abroker \<Rightarrow> subscription_t \<Rightarrow> bool" where
  "sub_ok bk B s \<longleftrightarrow> (sub_active s \<longrightarrow> sub_broker s = Some bk \<and> (\<exists>p Y name. sub_proxy s = Some p
     \<and> ab_proxies B p = Some Y \<and> ax_active Y \<and> ax_id Y = sub_id s \<and> sub_channel_name s = Some name \<and> p \<in> set (members B name)))"

definition br_inv :: "addr \<Rightarrow> abroker \<Rightarrow> bool" where
  "br_inv bk B \<longleftrightarrow> (\<forall>p Y. ab_proxies B p = Some Y \<longrightarrow> unat (ax_id Y) < unat (ab_next_subscriber B))
     \<and> (\<forall>p q Y Z. ab_proxies B p = Some Y \<longrightarrow> ab_proxies B q = Some Z \<longrightarrow> ax_id Y = ax_id Z \<longrightarrow> p = q)
     \<and> (\<forall>u s. ab_subscriptions B u = Some s \<longrightarrow> sub_ok bk B s)
     \<and> (\<forall>u v s s'. ab_subscriptions B u = Some s \<longrightarrow> ab_subscriptions B v = Some s' \<longrightarrow> sub_active s \<longrightarrow> sub_active s'
          \<longrightarrow> sub_id s = sub_id s' \<longrightarrow> u = v)"

definition task_of :: "addr \<Rightarrow> addr \<Rightarrow> publication \<Rightarrow> publisher_task_arg_t" where
  "task_of t bk p = \<lparr>ta_message_id = pub_id p, ta_channel_name = Some (pub_channel p), ta_content = Some (pub_content p),
     ta_channels = Some t, ta_channels_mutex = Some bk\<rparr>"

definition br_rep :: "broker_store \<Rightarrow> addr \<Rightarrow> abroker \<Rightarrow> bool" where
  "br_rep b bk B \<longleftrightarrow> (\<exists>t q as. brokers b bk = Some \<lparr>mb_publisher_pool = Some q, mb_channels = Some t, mb_channels_mutex = Unlocked,
         mb_next_subscriber_id = ab_next_subscriber B, mb_next_message_id = ab_next_message B\<rparr>
       \<and> pools b q = Some \<lparr>po_off = ab_off B, po_tasks = map Some as\<rparr> \<and> distinct as \<and> dom (task_args b) = set as
       \<and> map (task_args b) as = map (\<lambda>p. Some (task_of t bk p)) (ab_tasks B)
       \<and> tb_rep (table_heap b) t (ab_table B) (ab_channels B) (ab_proxies B) (ab_held B))
     \<and> br_inv bk B \<and> subscriptions b = ab_subscriptions B
     \<and> dom (subscriptions b) \<subseteq> {..ticks (br_arena b)} \<and> dom (task_args b) \<subseteq> {..ticks (br_arena b)}"

end
