(* ===== verification/Broker_Specs.thy ===== *)
theory Broker_Specs
  imports Broker
begin

text \<open>
  What the functions of the broker do to a broker that is well formed (\<open>br_rep\<close>): the lookup and the creation of a
  channel, publishing and the delivery of a publication, subscribing, receiving, unsubscribing, and what goes wrong when an
  allocation is refused at the wrong moment.
\<close>

section \<open>Lookup and creation of a channel\<close>

lemma ht_rep_world [simp]: "ht_rep (h\<lparr>world := x\<rparr>) T \<longleftrightarrow> ht_rep h T"
  by (simp add: ht_rep_def)

lemma ch_rep_arena: "ch_rep w C X D \<Longrightarrow> ticks (ch_arena w) \<le> ticks A \<Longrightarrow> ch_rep (w\<lparr>ch_arena := A\<rparr>) C X D"
  unfolding ch_rep_def by (auto 0 3)

lemma pairs_push:
  assumes "unat (ht_index A k) < length (at_buckets A)"
  shows "pairs (with_bucket A k (x # ht_bucket A k)) = insert x (pairs A)"
proof -
  let ?i = "unat (ht_index A k)" and ?B = "at_buckets A"
  have "set (concat (?B[?i := x # ?B ! ?i])) = insert x (set (concat (take ?i ?B @ ?B ! ?i # drop (Suc ?i) ?B)))"
    using assms by (auto simp: upd_conv_take_nth_drop)
  also have "take ?i ?B @ ?B ! ?i # drop (Suc ?i) ?B = ?B" by (rule id_take_nth_drop [OF assms, symmetric])
  finally have "set (concat (?B[?i := x # ?B ! ?i])) = insert x (set (concat ?B))" .
  then show ?thesis by (simp add: pairs_def with_bucket_def ht_bucket_def)
qed

lemma stored_push:
  assumes "unat (ht_index A k) < length (at_buckets A)"
  shows "set (stored (with_bucket A k (x # ht_bucket A k))) = insert (snd x) (set (stored A))"
    and "distinct (stored (with_bucket A k (x # ht_bucket A k))) \<longleftrightarrow> snd x \<notin> set (stored A) \<and> distinct (stored A)"
proof -
  let ?i = "unat (ht_index A k)" and ?B = "at_buckets A"
  have old: "stored A = map snd (concat (take ?i ?B)) @ map snd (?B ! ?i) @ map snd (concat (drop (Suc ?i) ?B))"
    unfolding stored_def by (subst id_take_nth_drop [OF assms]) simp
  have new: "stored (with_bucket A k (x # ht_bucket A k))
      = map snd (concat (take ?i ?B)) @ snd x # map snd (?B ! ?i) @ map snd (concat (drop (Suc ?i) ?B))"
    using assms by (simp add: stored_def with_bucket_def ht_bucket_def upd_conv_take_nth_drop)
  show "set (stored (with_bucket A k (x # ht_bucket A k))) = insert (snd x) (set (stored A))" unfolding old new by auto
  show "distinct (stored (with_bucket A k (x # ht_bucket A k))) \<longleftrightarrow> snd x \<notin> set (stored A) \<and> distinct (stored A)" unfolding old new by auto
qed

lemma stack_pairs:
  assumes "ht_stack A k = v # vs" and "unat (ht_index A k) < length (at_buckets A)"
  shows "\<exists>k'. (k', v) \<in> pairs A \<and> at_compare A k k' = 0"
proof -
  have "v \<in> set (ht_stack A k)" using assms(1) by simp
  then obtain k' where "(k', v) \<in> set (ht_bucket A k)" "at_compare A k k' = 0" by (auto simp: ht_stack_def)
  moreover have "set (ht_bucket A k) \<subseteq> pairs A" using assms(2) by (auto simp: pairs_def ht_bucket_def intro: bexI [OF _ nth_mem])
  ultimately show ?thesis by blast
qed

lemma tb_repD:
  assumes "tb_rep h t A C X D"
  shows "ht_rep h [t \<mapsto> A]" and "ch_rep (world h) C X D" and "broker_callbacks A"
    and "(k, v) \<in> pairs A \<Longrightarrow> \<exists>s c E. k = Some s \<and> v = Some c \<and> C c = Some E \<and> ac_name E = c_str s"
    and "distinct (stored A)" and "dom C = {c. Some c \<in> set (stored A)}"
  using assms unfolding tb_rep_def by blast+

lemma tb_rep_index:
  assumes "tb_rep h t A C X D"
  shows "unat (ht_index A k) < length (at_buckets A)"
  using ht_rep_index [where T = "[t \<mapsto> A]" and t = t and A = A and key = k and h = h] tb_repD(1) [OF assms] by simp

lemma find_channel_ok:
  assumes rep: "tb_rep h t A C X D"
  shows "find_channel A name = NULL \<Longrightarrow> ht_stack A (Some name) = []"
    and "find_channel A name = Some c \<Longrightarrow> \<exists>E. C c = Some E \<and> ac_name E = c_str name \<and> (\<exists>vs. ht_stack A (Some name) = Some c # vs)"
proof -
  have some: "\<exists>c E. v = Some c \<and> C c = Some E \<and> ac_name E = c_str name" if st: "ht_stack A (Some name) = v # vs" for v vs
  proof -
    obtain k where k: "(k, v) \<in> pairs A" "at_compare A (Some name) k = 0"
      using stack_pairs [OF st tb_rep_index [OF rep]] by blast
    then show ?thesis using tb_repD(4) [OF rep k(1)] tb_repD(3) [OF rep] by (auto simp: broker_callbacks_def string_compare_eq_0)
  qed
  show "ht_stack A (Some name) = []" if "find_channel A name = NULL"
    using that some by (cases "ht_stack A (Some name)") (auto simp: find_channel_def)
  show "\<exists>E. C c = Some E \<and> ac_name E = c_str name \<and> (\<exists>vs. ht_stack A (Some name) = Some c # vs)" if "find_channel A name = Some c"
    using that some by (cases "ht_stack A (Some name)") (auto simp: find_channel_def)
qed

lemma get_channel:
  assumes rep: "tb_rep h t A C X D" and g: "\<not> refused (arena h)"
  shows "\<exists>h'. generic_hash_table_get (Some t) (Some name) (Some NULL) h
      = Some (if find_channel A name = NULL then 1 else 0, Some (find_channel A name), h')
    \<and> tb_rep h' t A C X D \<and> world h' = world h \<and> arena h' = tick (arena h)"
proof -
  obtain h' where h': "generic_hash_table_get (Some t) (Some name) (Some NULL) h
      = Some (case ht_stack A (Some name) of [] \<Rightarrow> (1, Some NULL, h') | u # _ \<Rightarrow> (0, Some u, h'))" "ht_rep h' [t \<mapsto> A]"
    "world h' = world h" "arena h' = tick (arena h)"
    using ht_get_spec [where T = "[t \<mapsto> A]" and t = t and A = A and key = "Some name" and x = NULL, OF tb_repD(1) [OF rep] _ g] by auto
  have "tb_rep h' t A C X D" using rep h'(2,3) by (simp add: tb_rep_def)
  moreover have "(case ht_stack A (Some name) of [] \<Rightarrow> (1, Some NULL, h') | u # _ \<Rightarrow> (0, Some u, h'))
      = (if find_channel A name = NULL then 1 else 0, Some (find_channel A name), h')"
    using find_channel_ok [OF rep, of name] by (cases "ht_stack A (Some name)"; cases "find_channel A name") (auto simp: find_channel_def)
  ultimately show ?thesis using h' by auto
qed

lemma get_channel_refused:
  assumes rep: "tb_rep h t A C X D" and g: "refused (arena h)"
  shows "\<exists>h'. generic_hash_table_get (Some t) (Some name) (Some NULL) h = Some (-1, Some NULL, h')
    \<and> tb_rep h' t A C X D \<and> world h' = world h \<and> arena h' = tick (arena h)"
proof -
  from ht_lookup_refused [where T = "[t \<mapsto> A]" and t = t and A = A and key = "Some name" and x = NULL, OF tb_repD(1) [OF rep] _ g] rep
  show ?thesis by (auto simp: tb_rep_def)
qed

text \<open>A new channel, inserted into the table, is what a lookup of its name finds from then on.\<close>

lemma create_channel:
  assumes rep: "tb_rep h t A C X D" and g: "grants 2 (arena h)" "grants 4 (ch_arena (world h))" "grants 3 (arena (subscribers (world h)))"
  shows "\<exists>c w h' A'. channel_new (Some name) (Some NULL) (world h) = Some (0, Some (Some c), w) \<and> C c = None
    \<and> generic_hash_table_insert (Some t) (Some name) (Some c) (h\<lparr>world := w\<rparr>) = Some (0, h')
    \<and> tb_rep h' t A' (C(c \<mapsto> \<lparr>ac_name = c_str name, ac_proxies = []\<rparr>)) X D
    \<and> (\<forall>n. find_channel A' n = (if c_str n = c_str name then Some c else find_channel A n))
    \<and> proxy_heap (world h') = proxy_heap (world h) \<and> arena h' = tick (tick (arena h))
    \<and> arena (subscribers (world h')) = (tick ^^ 3) (arena (subscribers (world h)))"
proof -
  have g3: "grants 3 (ch_arena (world h))" by (rule grants_mono [OF g(2)]) simp
  obtain c w where cw: "channel_new (Some name) (Some NULL) (world h) = Some (0, Some (Some c), w)" "C c = None"
    "ch_rep w (C(c \<mapsto> \<lparr>ac_name = c_str name, ac_proxies = []\<rparr>)) X D" "ch_arena w = (tick ^^ 3) (ch_arena (world h))"
    "arena (subscribers w) = (tick ^^ 3) (arena (subscribers (world h)))" "proxy_heap w = proxy_heap (world h)"
    using channel_new_spec [OF tb_repD(2) [OF rep] g3 g(3), of name NULL] by blast
  note cb = tb_repD(3) [OF rep, unfolded broker_callbacks_def]
  have "\<not> refused (ch_arena w)" using grants_nth [OF g(2), of 3] cw(4) by simp
  then have ck: "at_copy_key A (Some name) w = Some (0, Some (c_str name), w\<lparr>ch_arena := tick (ch_arena w)\<rparr>)"
    using cb by (simp add: key_copy_def string_copy_def)
  have cv: "at_copy_value A (Some c) (w\<lparr>ch_arena := tick (ch_arena w)\<rparr>) = Some (0, Some c, w\<lparr>ch_arena := tick (ch_arena w)\<rparr>)"
    using cb by (simp add: channel_copy_def)
  let ?A = "with_bucket A (Some name) ((Some (c_str name), Some c) # ht_bucket A (Some name))"
  let ?C = "C(c \<mapsto> \<lparr>ac_name = c_str name, ac_proxies = []\<rparr>)"
  obtain h' where h': "generic_hash_table_insert (Some t) (Some name) (Some c) (h\<lparr>world := w\<rparr>) = Some (0, h')"
    "ht_rep h' [t \<mapsto> ?A]" "world h' = w\<lparr>ch_arena := tick (ch_arena w)\<rparr>" "arena h' = tick (tick (arena h))"
    using ht_insert_spec [where T = "[t \<mapsto> A]" and t = t and A = A and key = "Some name" and h = "h\<lparr>world := w\<rparr>", OF _ _ _ _ _ cv]
      tb_repD(1) [OF rep] g(1) ck by auto
  note ix = tb_rep_index [OF rep, of "Some name"]
  have "tb_rep h' t ?A ?C X D"
    unfolding tb_rep_def
  proof (intro conjI allI impI)
    show "ch_rep (world h') ?C X D" using ch_rep_arena [OF cw(3)] h'(3) by simp
    show "broker_callbacks ?A" using cb by (simp add: broker_callbacks_def with_bucket_def)
    fix k v assume "(k, v) \<in> pairs ?A"
    then show "\<exists>s d E. k = Some s \<and> v = Some d \<and> ?C d = Some E \<and> ac_name E = c_str s"
      unfolding pairs_push [OF ix] using tb_repD(4) [OF rep, of k v] cw(2) by fastforce
  next
    have "Some c \<notin> set (stored A)" using tb_repD(6) [OF rep] cw(2) by auto
    then show "distinct (stored ?A)" using stored_push(2) [OF ix, of "(Some (c_str name), Some c)"] tb_repD(5) [OF rep] by simp
    show "dom ?C = {d. Some d \<in> set (stored ?A)}"
      using stored_push(1) [OF ix, of "(Some (c_str name), Some c)"] tb_repD(6) [OF rep] by auto
  qed (use h'(2) in simp)
  moreover have "find_channel ?A n = (if c_str n = c_str name then Some c else find_channel A n)" for n
  proof -
    have "key_laws (at_hash A) (at_compare A)" using cb broker_keys.key_laws_axioms by simp
    moreover have "at_compare A (Some name) (Some (c_str name)) = 0" using cb by (simp add: string_compare_eq_0)
    ultimately show ?thesis using ht_stack_push [OF _ ix, of "Some (c_str name)" "Some c" "Some n"] cb
      by (simp add: find_channel_def string_compare_eq_0)
  qed
  ultimately show ?thesis using cw h' by (intro exI [of _ c] exI [of _ w] exI [of _ h'] exI [of _ ?A]) simp
qed

section \<open>Publishing\<close>

lemmas broker_accesses [simp] = broker_at_def modify_broker_def lock_channels_def unlock_channels_def next_message_id_def
  next_subscriber_id_def malloc_subscription_def subscription_at_def modify_subscription_def free_subscription_def
  malloc_task_arg_def task_arg_at_def modify_task_arg_def publisher_task_arg_free_def

text \<open>Every allocator grants the next \<open>n\<close> requests.\<close>

definition plenty :: "nat \<Rightarrow> broker_store \<Rightarrow> bool" where
  "plenty n b \<longleftrightarrow> grants n (br_arena b) \<and> grants n (arena (table_heap b)) \<and> grants n (ch_arena (channel_heap b))
     \<and> grants n (arena (subscribers (channel_heap b))) \<and> grants n (px_arena (broker_proxies b))
     \<and> grants n (arena (inboxes (broker_proxies b))) \<and> grants n (msg_arena (message_heap (broker_proxies b)))"

text \<open>A broker with its table and its pool.\<close>

lemma br_repE:
  assumes "br_rep b bk B"
  obtains t q as where "brokers b bk = Some \<lparr>mb_publisher_pool = Some q, mb_channels = Some t, mb_channels_mutex = Unlocked,
         mb_next_subscriber_id = ab_next_subscriber B, mb_next_message_id = ab_next_message B\<rparr>"
    and "pools b q = Some \<lparr>po_off = ab_off B, po_tasks = map Some as\<rparr>" and "distinct as" and "dom (task_args b) = set as"
    and "map (task_args b) as = map (\<lambda>p. Some (task_of t bk p)) (ab_tasks B)"
    and "tb_rep (table_heap b) t (ab_table B) (ab_channels B) (ab_proxies B) (ab_held B)"
    and "br_inv bk B" and "subscriptions b = ab_subscriptions B"
    and "dom (subscriptions b) \<subseteq> {..ticks (br_arena b)}" and "dom (task_args b) \<subseteq> {..ticks (br_arena b)}"
  using assms unfolding br_rep_def by blast

lemma br_repI:
  assumes "brokers b bk = Some \<lparr>mb_publisher_pool = Some q, mb_channels = Some t, mb_channels_mutex = Unlocked,
         mb_next_subscriber_id = ab_next_subscriber B, mb_next_message_id = ab_next_message B\<rparr>"
    and "pools b q = Some \<lparr>po_off = ab_off B, po_tasks = map Some as\<rparr>" and "distinct as" and "dom (task_args b) = set as"
    and "map (task_args b) as = map (\<lambda>p. Some (task_of t bk p)) (ab_tasks B)"
    and "tb_rep (table_heap b) t (ab_table B) (ab_channels B) (ab_proxies B) (ab_held B)"
    and "br_inv bk B" and "subscriptions b = ab_subscriptions B"
    and "dom (subscriptions b) \<subseteq> {..ticks (br_arena b)}" and "dom (task_args b) \<subseteq> {..ticks (br_arena b)}"
  shows "br_rep b bk B"
  using assms unfolding br_rep_def by blast

lemma br_inv_cong:
  assumes "br_inv bk B" and "ab_next_subscriber B' = ab_next_subscriber B" and "ab_subscriptions B' = ab_subscriptions B"
    and same: "\<And>p. map_option (\<lambda>Y. (ax_id Y, ax_active Y)) (ab_proxies B' p) = map_option (\<lambda>Y. (ax_id Y, ax_active Y)) (ab_proxies B p)"
    and mem: "\<And>n. members B' n = members B n"
  shows "br_inv bk B'"
proof -
  have old: "\<exists>Z. ab_proxies B p = Some Z \<and> ax_id Z = ax_id Y \<and> ax_active Z = ax_active Y" if "ab_proxies B' p = Some Y" for p Y
    using same [of p] that by (cases "ab_proxies B p") auto
  have new: "\<exists>Z. ab_proxies B' p = Some Z \<and> ax_id Z = ax_id Y \<and> ax_active Z = ax_active Y" if "ab_proxies B p = Some Y" for p Y
    using same [of p] that by (cases "ab_proxies B' p") auto
  have H: "\<forall>p Y. ab_proxies B p = Some Y \<longrightarrow> unat (ax_id Y) < unat (ab_next_subscriber B)"
    "\<forall>p q Y Z. ab_proxies B p = Some Y \<longrightarrow> ab_proxies B q = Some Z \<longrightarrow> ax_id Y = ax_id Z \<longrightarrow> p = q"
    "\<forall>u s. ab_subscriptions B u = Some s \<longrightarrow> sub_ok bk B s"
    "\<forall>u v s s'. ab_subscriptions B u = Some s \<longrightarrow> ab_subscriptions B v = Some s' \<longrightarrow> sub_active s \<longrightarrow> sub_active s'
          \<longrightarrow> sub_id s = sub_id s' \<longrightarrow> u = v"
    using assms(1) [unfolded br_inv_def] by - (elim conjE, assumption)+
  have "sub_ok bk B' s" if ok: "sub_ok bk B s" for s
    unfolding sub_ok_def
  proof (intro impI)
    assume "sub_active s"
    with ok obtain p Y name where s: "sub_broker s = Some bk" "sub_proxy s = Some p" "ab_proxies B p = Some Y" "ax_active Y" "ax_id Y = sub_id s"
      "sub_channel_name s = Some name" "p \<in> set (members B name)" unfolding sub_ok_def by blast
    with new [OF s(3)] mem show "sub_broker s = Some bk \<and> (\<exists>p Y name. sub_proxy s = Some p
      \<and> ab_proxies B' p = Some Y \<and> ax_active Y \<and> ax_id Y = sub_id s \<and> sub_channel_name s = Some name \<and> p \<in> set (members B' name))" by auto
  qed
  moreover have "\<forall>p Y. ab_proxies B' p = Some Y \<longrightarrow> unat (ax_id Y) < unat (ab_next_subscriber B')" using H(1) old assms(2) by metis
  moreover have "\<forall>p q Y Z. ab_proxies B' p = Some Y \<longrightarrow> ab_proxies B' q = Some Z \<longrightarrow> ax_id Y = ax_id Z \<longrightarrow> p = q"
    using H(2) old by metis
  ultimately show ?thesis using H(3,4) assms(3) unfolding br_inv_def by simp
qed

lemma br_rep_fresh:
  assumes "br_rep b bk B"
  shows "task_args b (Suc (ticks (br_arena b))) = None" and "subscriptions b (Suc (ticks (br_arena b))) = None"
proof -
  have "dom (subscriptions b) \<subseteq> {..ticks (br_arena b)}" "dom (task_args b) \<subseteq> {..ticks (br_arena b)}"
    using assms unfolding br_rep_def by blast+
  then show "task_args b (Suc (ticks (br_arena b))) = None" "subscriptions b (Suc (ticks (br_arena b))) = None"
    by (auto simp: domIff subset_iff)
qed

lemma publish_spec:
  assumes rep: "br_rep b bk B" and on: "\<not> ab_off B" and g: "grants 5 (br_arena b)"
  shows "\<exists>b'. message_broker_publish (Some bk) (Some c) (Some s) b = Some (0, b')
    \<and> br_rep b' bk (B\<lparr>ab_tasks := ab_tasks B @ [\<lparr>pub_id = ab_next_message B, pub_channel = c_str c, pub_content = c_str s\<rparr>],
        ab_next_message := ab_next_message B + 1\<rparr>)
    \<and> table_heap b' = table_heap b \<and> br_arena b' = (tick ^^ 5) (br_arena b)"
proof -
  obtain t q as where R: "brokers b bk = Some \<lparr>mb_publisher_pool = Some q, mb_channels = Some t, mb_channels_mutex = Unlocked,
         mb_next_subscriber_id = ab_next_subscriber B, mb_next_message_id = ab_next_message B\<rparr>"
    "pools b q = Some \<lparr>po_off = ab_off B, po_tasks = map Some as\<rparr>" "distinct as" "dom (task_args b) = set as"
    "map (task_args b) as = map (\<lambda>p. Some (task_of t bk p)) (ab_tasks B)"
    "tb_rep (table_heap b) t (ab_table B) (ab_channels B) (ab_proxies B) (ab_held B)"
    "br_inv bk B" "subscriptions b = ab_subscriptions B"
    "dom (subscriptions b) \<subseteq> {..ticks (br_arena b)}" "dom (task_args b) \<subseteq> {..ticks (br_arena b)}"
    by (rule br_repE [OF rep])
  let ?A = "br_arena b" and ?a = "Suc (ticks (br_arena b))"
  let ?p = "\<lparr>pub_id = ab_next_message B, pub_channel = c_str c, pub_content = c_str s\<rparr>"
  let ?B = "B\<lparr>ab_tasks := ab_tasks B @ [?p], ab_next_message := ab_next_message B + 1\<rparr>"
  have gs: "\<not> refused ?A" "\<not> refused (tick ?A)" "\<not> refused (tick (tick ?A))" "\<not> refused (tick (tick (tick ?A)))"
    "\<not> refused (tick (tick (tick (tick ?A))))"
    using g by (auto simp: eval_nat_numeral grants_Suc)
  define b' where "b' = b\<lparr>brokers := (brokers b)(bk \<mapsto> \<lparr>mb_publisher_pool = Some q, mb_channels = Some t, mb_channels_mutex = Unlocked,
      mb_next_subscriber_id = ab_next_subscriber B, mb_next_message_id = ab_next_message B + 1\<rparr>),
    task_args := (task_args b)(?a \<mapsto> task_of t bk ?p),
    pools := (pools b)(q \<mapsto> \<lparr>po_off = ab_off B, po_tasks = map Some (as @ [?a])\<rparr>), br_arena := (tick ^^ 5) ?A\<rparr>"
  have "message_broker_publish (Some bk) (Some c) (Some s) b = Some (0, b')"
    using R(1,2) on gs by (simp add: message_broker_publish_def pool_submit_def b'_def task_of_def eval_nat_numeral)
  moreover have "br_rep b' bk ?B"
  proof (rule br_repI [where q = q and t = t and as = "as @ [?a]"])
    have new: "?a \<notin> set as" using br_rep_fresh(1) [OF rep] R(4) by auto
    show "distinct (as @ [?a])" using R(3) new by simp
    show "dom (task_args b') = set (as @ [?a])" using R(4) by (auto simp: b'_def)
    have "map (task_args b') as = map (task_args b) as" using new by (auto simp: b'_def)
    then show "map (task_args b') (as @ [?a]) = map (\<lambda>p. Some (task_of t bk p)) (ab_tasks ?B)" using R(5) by (simp add: b'_def)
    show "br_inv bk ?B" by (rule br_inv_cong [OF R(7)]) simp_all
    have "?a \<le> ticks (br_arena b')" "ticks ?A \<le> ticks (br_arena b')" by (simp_all add: b'_def)
    then show "dom (task_args b') \<subseteq> {..ticks (br_arena b')}" "dom (subscriptions b') \<subseteq> {..ticks (br_arena b')}"
      using R(9,10) by (auto simp: b'_def)
  qed (use R in \<open>simp_all add: b'_def\<close>)
  ultimately show ?thesis by (intro exI [of _ b']) (simp add: b'_def)
qed

text \<open>A publication that is refused leaves nothing behind; the message identity it drew is lost.\<close>

lemma publish_refused:
  assumes rep: "br_rep b bk B" and r: "ab_off B \<or> \<not> grants 5 (br_arena b)"
  shows "\<exists>b' e n. message_broker_publish (Some bk) (Some c) (Some s) b = Some (e, b') \<and> e \<noteq> 0
    \<and> br_rep b' bk (B\<lparr>ab_next_message := n\<rparr>) \<and> table_heap b' = table_heap b"
proof -
  obtain t q as where R: "brokers b bk = Some \<lparr>mb_publisher_pool = Some q, mb_channels = Some t, mb_channels_mutex = Unlocked,
         mb_next_subscriber_id = ab_next_subscriber B, mb_next_message_id = ab_next_message B\<rparr>"
    "pools b q = Some \<lparr>po_off = ab_off B, po_tasks = map Some as\<rparr>" "distinct as" "dom (task_args b) = set as"
    "map (task_args b) as = map (\<lambda>p. Some (task_of t bk p)) (ab_tasks B)"
    "tb_rep (table_heap b) t (ab_table B) (ab_channels B) (ab_proxies B) (ab_held B)"
    "br_inv bk B" "subscriptions b = ab_subscriptions B"
    "dom (subscriptions b) \<subseteq> {..ticks (br_arena b)}" "dom (task_args b) \<subseteq> {..ticks (br_arena b)}"
    by (rule br_repE [OF rep])
  let ?A = "br_arena b" and ?a = "Suc (ticks (br_arena b))"
  let ?r = "\<lambda>n. \<lparr>mb_publisher_pool = Some q, mb_channels = Some t, mb_channels_mutex = Unlocked,
         mb_next_subscriber_id = ab_next_subscriber B, mb_next_message_id = n\<rparr>"
  have fresh: "(task_args b)(?a := None) = task_args b" using br_rep_fresh(1) [OF rep] by (simp add: fun_upd_idem)
  have keep: "br_rep b' bk (B\<lparr>ab_next_message := n\<rparr>)"
    if "b' = b\<lparr>br_arena := A, brokers := (brokers b)(bk \<mapsto> ?r n)\<rparr>" "ticks ?A \<le> ticks A" for b' A n
  proof (rule br_repI [where q = q and t = t and as = as])
    show "br_inv bk (B\<lparr>ab_next_message := n\<rparr>)" by (rule br_inv_cong [OF R(7)]) simp_all
  qed (use R that in auto)
  have idem: "(brokers b)(bk \<mapsto> ?r (ab_next_message B)) = brokers b" using R(1) by (simp add: fun_upd_idem)
  have no5: "\<not> grants 5 ?A \<longleftrightarrow> refused ?A \<or> refused (tick ?A) \<or> refused (tick (tick ?A)) \<or> refused (tick (tick (tick ?A)))
      \<or> refused (tick (tick (tick (tick ?A))))"
    by (auto simp: eval_nat_numeral grants_Suc) (auto simp: grants_def refused_def)
  define out where "out = (\<lambda>A n. b\<lparr>br_arena := A, brokers := (brokers b)(bk \<mapsto> ?r n)\<rparr>)"
  have "\<exists>e A n. message_broker_publish (Some bk) (Some c) (Some s) b = Some (e, out A n) \<and> e \<noteq> 0 \<and> ticks ?A \<le> ticks A"
  proof (cases "refused ?A")
    case True
    then have "message_broker_publish (Some bk) (Some c) (Some s) b = Some (-1, out (tick ?A) (ab_next_message B))"
      by (simp add: message_broker_publish_def out_def idem)
    then show ?thesis by (intro exI [of _ "-1"] exI [of _ "tick ?A"] exI [of _ "ab_next_message B"]) simp
  next
    case g1: False
    let ?n = "ab_next_message B + 1"
    consider "refused (tick ?A)" | "\<not> refused (tick ?A)" "refused (tick (tick ?A))"
      | "\<not> refused (tick ?A)" "\<not> refused (tick (tick ?A))" "ab_off B"
      | "\<not> refused (tick ?A)" "\<not> refused (tick (tick ?A))" "\<not> ab_off B" "refused (tick (tick (tick ?A)))"
      | "\<not> refused (tick ?A)" "\<not> refused (tick (tick ?A))" "\<not> ab_off B" "\<not> refused (tick (tick (tick ?A)))" "refused (tick (tick (tick (tick ?A))))"
      using r no5 g1 by blast
    then show ?thesis
    proof cases
      case 1
      then have "message_broker_publish (Some bk) (Some c) (Some s) b = Some (-1, out (tick (tick ?A)) ?n)"
        using R(1) g1 fresh by (simp add: message_broker_publish_def out_def)
      then show ?thesis by (intro exI [of _ "-1"] exI [of _ "tick (tick ?A)"] exI [of _ ?n]) simp
    next
      case 2
      then have "message_broker_publish (Some bk) (Some c) (Some s) b = Some (-1, out (tick (tick (tick ?A))) ?n)"
        using R(1) g1 fresh by (simp add: message_broker_publish_def out_def)
      then show ?thesis by (intro exI [of _ "-1"] exI [of _ "tick (tick (tick ?A))"] exI [of _ ?n]) simp
    next
      case 3
      then have "message_broker_publish (Some bk) (Some c) (Some s) b = Some (1, out (tick (tick (tick ?A))) ?n)"
        using R(1,2) g1 fresh by (simp add: message_broker_publish_def out_def pool_submit_def)
      then show ?thesis by (intro exI [of _ 1] exI [of _ "tick (tick (tick ?A))"] exI [of _ ?n]) simp
    next
      case 4
      then have "message_broker_publish (Some bk) (Some c) (Some s) b = Some (-1, out (tick (tick (tick (tick ?A)))) ?n)"
        using R(1,2) g1 fresh by (simp add: message_broker_publish_def out_def pool_submit_def)
      then show ?thesis by (intro exI [of _ "-1"] exI [of _ "tick (tick (tick (tick ?A)))"] exI [of _ ?n]) simp
    next
      case 5
      then have "message_broker_publish (Some bk) (Some c) (Some s) b = Some (-1, out (tick (tick (tick (tick (tick ?A))))) ?n)"
        using R(1,2) g1 fresh by (simp add: message_broker_publish_def out_def pool_submit_def)
      then show ?thesis by (intro exI [of _ "-1"] exI [of _ "tick (tick (tick (tick (tick ?A))))"] exI [of _ ?n]) simp
    qed
  qed
  then obtain e A n where e: "message_broker_publish (Some bk) (Some c) (Some s) b = Some (e, out A n)" "e \<noteq> 0" "ticks ?A \<le> ticks A" by blast
  have "br_rep (out A n) bk (B\<lparr>ab_next_message := n\<rparr>)" by (rule keep [OF _ e(3)]) (simp add: out_def)
  with e show ?thesis by (intro exI [of _ "out A n"] exI [of _ e] exI [of _ n]) (simp add: out_def)
qed

lemma find_channel_cong:
  assumes "broker_callbacks A" and "c_str n = c_str m"
  shows "find_channel A n = find_channel A m"
proof -
  have "string_compare (Some n) (Some m) = 0" using assms(2) by (simp add: string_compare_eq_0)
  then have "string_hash (Some n) = string_hash (Some m)" by (rule broker_keys.hash_compat)
  moreover have "string_compare (Some n) k = 0 \<longleftrightarrow> string_compare (Some m) k = 0" for k
    using assms(2) by (simp add: string_compare_eq_0)
  ultimately show ?thesis
    using assms(1) by (simp add: find_channel_def ht_stack_def ht_bucket_def ht_index_def broker_callbacks_def)
qed

lemma members_of_cong: "broker_callbacks A \<Longrightarrow> c_str n = c_str m \<Longrightarrow> members_of A C n = members_of A C m"
  unfolding members_of_def by (simp only: find_channel_cong [of A n m])

text \<open>The members of the channels when a channel without subscribers is added for a name that had none.\<close>

lemma members_of_create:
  assumes rep: "tb_rep h t A C X D" and "find_channel A name = NULL" and c: "C c = None" and E: "ac_proxies E = []"
    and find: "\<And>n. find_channel A' n = (if c_str n = c_str name then Some c else find_channel A n)"
  shows "members_of A' (C(c \<mapsto> E)) n = members_of A C n"
proof (cases "c_str n = c_str name")
  case True
  with assms(2) find_channel_cong [OF tb_repD(3) [OF rep] True] show ?thesis using find E by (simp add: members_of_def)
next
  case False
  have "d \<noteq> c" if "find_channel A n = Some d" for d using find_channel_ok(2) [OF rep that] c by auto
  with False find show ?thesis by (auto simp: members_of_def split: option.splits)
qed

text \<open>The channel of the name is in the table afterwards: the one that was there, or a new one without members.\<close>

definition channel_opened :: "(string, addr, channel_store) atable \<Rightarrow> (addr \<rightharpoonup> achannel) \<Rightarrow> string \<Rightarrow> (string, addr, channel_store) atable \<Rightarrow> (addr \<rightharpoonup> achannel) \<Rightarrow> bool" where
  "channel_opened A C name A' C' \<longleftrightarrow> (\<exists>c. (\<forall>n. find_channel A' n = (if c_str n = c_str name then Some c else find_channel A n))
     \<and> (case find_channel A name of NULL \<Rightarrow> C c = None \<and> C' = C(c \<mapsto> \<lparr>ac_name = c_str name, ac_proxies = []\<rparr>) | Some d \<Rightarrow> d = c \<and> C' = C))"

lemma channel_opened_same:
  assumes "broker_callbacks A" and "find_channel A name = Some c"
  shows "channel_opened A C name A C"
proof -
  have "find_channel A n = (if c_str n = c_str name then Some c else find_channel A n)" for n
    using find_channel_cong [OF assms(1), of n name] assms(2) by (cases "c_str n = c_str name") simp_all
  with assms(2) show ?thesis unfolding channel_opened_def by (intro exI [of _ c]) simp
qed

lemma tb_rep_delivered:
  assumes "tb_rep h t A C X D" and "ch_rep w C X' D'"
  shows "tb_rep (h\<lparr>world := w\<rparr>) t A C X' D'"
  using assms unfolding tb_rep_def by simp

lemma task_spec:
  fixes b :: broker_store and p :: publication
  defines "msg \<equiv> new_message (pub_id p) (pub_channel p) (pub_content p)"
  assumes r: "brokers b bk = Some r" "mb_channels_mutex r = Unlocked" and a: "task_args b a = Some (task_of t bk p)"
    and rep: "tb_rep (table_heap b) t A C X D" and g: "plenty (4 + 3 * length (members_of A C (pub_channel p))) b"
  shows "\<exists>h' A' C'. publisher_task (Some a) b = Some (b\<lparr>table_heap := h', task_args := (task_args b)(a := None)\<rparr>)
    \<and> tb_rep h' t A' C' (delivered msg (set (members_of A C (pub_channel p))) X) D \<and> (\<forall>n. members_of A' C' n = members_of A C n)
    \<and> channel_opened A C (pub_channel p) A' C'"
proof -
  let ?name = "pub_channel p" and ?m = "members_of A C (pub_channel p)"
  have idem: "(brokers b)(bk \<mapsto> r\<lparr>mb_channels_mutex := Unlocked\<rparr>) = brokers b" using r by (auto simp: fun_upd_idem_iff)
  have gs: "grants 3 (arena (table_heap b))" "grants 4 (ch_arena (channel_heap b))" "grants 4 (arena (subscribers (channel_heap b)))"
    "grants (3 * length ?m) (msg_arena (message_heap (broker_proxies b)))" "grants (length ?m) (arena (inboxes (broker_proxies b)))"
    using g unfolding plenty_def by (auto elim: grants_mono)
  have g0: "\<not> refused (arena (table_heap b))" using gs(1) by (simp add: numeral_3_eq_3 grants_Suc)
  obtain h1 where h1: "generic_hash_table_get (Some t) (Some ?name) (Some NULL) (table_heap b)
      = Some (if find_channel A ?name = NULL then 1 else 0, Some (find_channel A ?name), h1)"
    "tb_rep h1 t A C X D" "world h1 = channel_heap b" "arena h1 = tick (arena (table_heap b))"
    using get_channel [OF rep g0, of ?name] by blast
  show ?thesis
  proof (cases "find_channel A ?name")
    case (Some c)
    obtain E where E: "C c = Some E" using find_channel_ok(2) [OF h1(2) Some] by blast
    then have m: "?m = ac_proxies E" using Some by (simp add: members_of_def)
    have g1: "\<not> refused (arena (subscribers (channel_heap b)))" using gs(3) by (simp add: eval_nat_numeral grants_Suc)
    obtain w where w: "deliver (pub_id p) (Some ?name) (Some (pub_content p)) (Some c) (world h1) = Some w"
      "ch_rep w C (delivered msg (set ?m) X) D"
      using deliver_spec [OF tb_repD(2) [OF h1(2)] E, of "pub_id p" ?name "pub_content p"] gs(4,5) g1 h1(3) m unfolding msg_def by auto
    have "publisher_task (Some a) b = Some (b\<lparr>table_heap := h1\<lparr>world := w\<rparr>, task_args := (task_args b)(a := None)\<rparr>)"
      using r a h1(1) Some w(1) idem by (simp add: publisher_task_def task_of_def)
    with tb_rep_delivered [OF h1(2) w(2)] channel_opened_same [OF tb_repD(3) [OF h1(2)] Some] show ?thesis by blast
  next
    case None
    then have m: "?m = []" by (simp add: members_of_def)
    have g2: "grants 2 (arena h1)" "grants 4 (ch_arena (world h1))" "grants 3 (arena (subscribers (world h1)))"
      using gs(1,2) grants_mono [OF gs(3), of 3] h1(3,4) by (simp_all add: eval_nat_numeral grants_Suc)
    obtain c w h2 A' where cr: "channel_new (Some ?name) (Some NULL) (world h1) = Some (0, Some (Some c), w)" "C c = None"
      "generic_hash_table_insert (Some t) (Some ?name) (Some c) (h1\<lparr>world := w\<rparr>) = Some (0, h2)"
      "tb_rep h2 t A' (C(c \<mapsto> \<lparr>ac_name = c_str ?name, ac_proxies = []\<rparr>)) X D"
      "\<forall>n. find_channel A' n = (if c_str n = c_str ?name then Some c else find_channel A n)"
      using create_channel [OF h1(2) g2, of ?name] by blast
    let ?C = "C(c \<mapsto> \<lparr>ac_name = c_str ?name, ac_proxies = []\<rparr>)"
    obtain w' P where w': "deliver (pub_id p) (Some ?name) (Some (pub_content p)) (Some c) (world h2) = Some w'" "P \<subseteq> {}"
      "ch_rep w' ?C (delivered msg P X) D"
      using deliver_spec [OF tb_repD(2) [OF cr(4)], of c _ "pub_id p" ?name "pub_content p"] unfolding msg_def by auto
    have "publisher_task (Some a) b = Some (b\<lparr>table_heap := h2\<lparr>world := w'\<rparr>, task_args := (task_args b)(a := None)\<rparr>)"
      using r a h1(1) None cr(1,3) w'(1) idem by (simp add: publisher_task_def task_of_def)
    moreover have "ch_rep w' ?C (delivered msg (set ?m) X) D" using w'(2,3) m by simp
    then have "tb_rep (h2\<lparr>world := w'\<rparr>) t A' ?C (delivered msg (set ?m) X) D" by (rule tb_rep_delivered [OF cr(4)])
    moreover have "members_of A' ?C n = members_of A C n" for n
      by (rule members_of_create [OF h1(2) None cr(2)]) (use cr(5) in auto)
    moreover have "channel_opened A C ?name A' ?C" unfolding channel_opened_def using None cr(2,5) by auto
    ultimately show ?thesis by blast
  qed
qed

text \<open>A publication reaches the inboxes of the active members of its channel, and nothing else.\<close>

lemma dispatch_spec:
  assumes rep: "br_rep b bk B" and tasks: "ab_tasks B = p # ps" and g: "plenty (4 + 3 * length (members B (pub_channel p))) b"
  shows "\<exists>b' B'. dispatch (Some bk) b = Some b' \<and> br_rep b' bk B' \<and> (\<forall>n. members B' n = members B n)
    \<and> ab_proxies B' = delivered (new_message (pub_id p) (pub_channel p) (pub_content p)) (set (members B (pub_channel p))) (ab_proxies B)
    \<and> ab_held B' = ab_held B \<and> ab_subscriptions B' = ab_subscriptions B \<and> ab_tasks B' = ps \<and> ab_off B' = ab_off B
    \<and> ab_next_subscriber B' = ab_next_subscriber B \<and> ab_next_message B' = ab_next_message B
    \<and> channel_opened (ab_table B) (ab_channels B) (pub_channel p) (ab_table B') (ab_channels B')"
proof -
  obtain t q as where R: "brokers b bk = Some \<lparr>mb_publisher_pool = Some q, mb_channels = Some t, mb_channels_mutex = Unlocked,
         mb_next_subscriber_id = ab_next_subscriber B, mb_next_message_id = ab_next_message B\<rparr>"
    "pools b q = Some \<lparr>po_off = ab_off B, po_tasks = map Some as\<rparr>" "distinct as" "dom (task_args b) = set as"
    "map (task_args b) as = map (\<lambda>p. Some (task_of t bk p)) (ab_tasks B)"
    "tb_rep (table_heap b) t (ab_table B) (ab_channels B) (ab_proxies B) (ab_held B)"
    "br_inv bk B" "subscriptions b = ab_subscriptions B"
    "dom (subscriptions b) \<subseteq> {..ticks (br_arena b)}" "dom (task_args b) \<subseteq> {..ticks (br_arena b)}"
    by (rule br_repE [OF rep])
  obtain a as' where as: "as = a # as'" "task_args b a = Some (task_of t bk p)" "map (task_args b) as' = map (\<lambda>p. Some (task_of t bk p)) ps"
    using R(5) tasks by (cases as) auto
  let ?X = "delivered (new_message (pub_id p) (pub_channel p) (pub_content p)) (set (members B (pub_channel p))) (ab_proxies B)"
  define b1 where "b1 = b\<lparr>pools := (pools b)(q \<mapsto> \<lparr>po_off = ab_off B, po_tasks = map Some as'\<rparr>)\<rparr>"
  have "brokers b1 bk = brokers b bk" "task_args b1 a = Some (task_of t bk p)" "table_heap b1 = table_heap b" "plenty (4 + 3 * length (members B (pub_channel p))) b1"
    using as(2) g by (simp_all add: b1_def plenty_def)
  then obtain h' A' C' where h': "publisher_task (Some a) b1 = Some (b1\<lparr>table_heap := h', task_args := (task_args b1)(a := None)\<rparr>)"
    "tb_rep h' t A' C' ?X (ab_held B)" "\<forall>n. members_of A' C' n = members B n" "channel_opened (ab_table B) (ab_channels B) (pub_channel p) A' C'"
    using task_spec [of b1 bk _ a t p "ab_table B" "ab_channels B" "ab_proxies B" "ab_held B"] R(1,6) by auto
  define b' where "b' = b1\<lparr>table_heap := h', task_args := (task_args b1)(a := None)\<rparr>"
  define B' where "B' = B\<lparr>ab_table := A', ab_channels := C', ab_proxies := ?X, ab_tasks := ps\<rparr>"
  have "dispatch (Some bk) b = Some b'" using R(1,2) as(1) h'(1) by (simp add: dispatch_def b1_def b'_def)
  moreover have "br_rep b' bk B'"
  proof (rule br_repI [where q = q and t = t and as = as'])
    show "distinct as'" using R(3) as(1) by simp
    show "dom (task_args b') = set as'" using R(3,4) as(1) by (auto simp: b'_def b1_def)
    show "map (task_args b') as' = map (\<lambda>p. Some (task_of t bk p)) (ab_tasks B')"
    proof -
      have "map (task_args b') as' = map (task_args b) as'" using R(3) as(1) by (auto simp: b'_def b1_def)
      with as(3) show ?thesis by (simp add: B'_def)
    qed
    show "br_inv bk B'"
    proof (rule br_inv_cong [OF R(7)])
      show "map_option (\<lambda>Y. (ax_id Y, ax_active Y)) (ab_proxies B' x) = map_option (\<lambda>Y. (ax_id Y, ax_active Y)) (ab_proxies B x)" for x
        by (cases "ab_proxies B x") (simp_all add: B'_def delivered_def)
    qed (use h'(3) in \<open>simp_all add: B'_def\<close>)
    show "dom (task_args b') \<subseteq> {..ticks (br_arena b')}" using R(10) by (auto simp: b'_def b1_def)
  qed (use R h' in \<open>simp_all add: B'_def b'_def b1_def\<close>)
  ultimately show ?thesis using h'(3,4) by (intro exI [of _ b'] exI [of _ B']) (simp add: B'_def)
qed

section \<open>Subscribing\<close>

text \<open>A change of the proxies of one channel.\<close>

lemma tb_rep_channel:
  assumes rep: "tb_rep h t A C X D" and E: "C c = Some E" and name: "ac_name E' = ac_name E" and w: "ch_rep w (C(c \<mapsto> E')) X' D'"
  shows "tb_rep (h\<lparr>world := w\<rparr>) t A (C(c \<mapsto> E')) X' D'"
  unfolding tb_rep_def
proof (intro conjI allI impI)
  fix k v assume "(k, v) \<in> pairs A"
  then obtain s d F where F: "k = Some s" "v = Some d" "C d = Some F" "ac_name F = c_str s" using tb_repD(4) [OF rep] by blast
  then show "\<exists>s d F. k = Some s \<and> v = Some d \<and> (C(c \<mapsto> E')) d = Some F \<and> ac_name F = c_str s"
    using E name by (cases "d = c") auto
qed (use tb_repD(1-3,5,6) [OF rep] E w in auto)

lemma find_channel_name:
  assumes rep: "tb_rep h t A C X D" and "find_channel A name = Some c"
  shows "find_channel A n = Some c \<longleftrightarrow> c_str n = c_str name"
proof
  assume "find_channel A n = Some c"
  with find_channel_ok(2) [OF rep this] find_channel_ok(2) [OF rep assms(2)] show "c_str n = c_str name" by auto
next
  assume "c_str n = c_str name"
  from find_channel_cong [OF tb_repD(3) [OF rep] this] assms(2) show "find_channel A n = Some c" by simp
qed

lemma members_of_change:
  assumes rep: "tb_rep h t A C X D" and "find_channel A name = Some c"
  shows "members_of A (C(c \<mapsto> E)) n = (if c_str n = c_str name then ac_proxies E else members_of A C n)"
  using find_channel_name [OF assms, of n] by (auto simp: members_of_def split: option.splits)

lemma attach_spec:
  assumes rep: "tb_rep (table_heap b) t A C X D" and c: "find_channel A name = Some c" and E: "C c = Some E"
    and g: "grants 3 (px_arena (broker_proxies b))" "grants 6 (arena (inboxes (broker_proxies b)))"
      "\<not> refused (arena (subscribers (channel_heap b)))" "grants 2 (br_arena b)"
  shows "\<exists>p h'. attach_subscriber self i (Some c) (Some name) (Some v) b = Some (0, Some (Some (Suc (ticks (br_arena b)))),
      b\<lparr>table_heap := h', br_arena := tick (tick (br_arena b)), subscriptions := (subscriptions b)(Suc (ticks (br_arena b)) \<mapsto>
        \<lparr>sub_id = i, sub_channel_name = Some (c_str name), sub_broker = self, sub_proxy = Some p, sub_active = True\<rparr>)\<rparr>)
    \<and> X p = None \<and> tb_rep h' t A (C(c \<mapsto> E\<lparr>ac_proxies := ac_proxies E @ [p]\<rparr>)) (X(p \<mapsto> \<lparr>ax_id = i, ax_active = True, ax_msgs = []\<rparr>)) D"
proof -
  let ?w = "channel_heap b"
  have ch: "ch_rep ?w C X D" by (rule tb_repD(2) [OF rep])
  then obtain M where px: "px_rep (proxy_heap ?w) X D" and inv: "ch_inv (channels ?w) C X" by (rule ch_repE)
  obtain p pw where pw: "subscriber_proxy_new i (Some NULL) (proxy_heap ?w) = Some (0, Some (Some p), pw)" "X p = None"
    "px_rep pw (X(p \<mapsto> \<lparr>ax_id = i, ax_active = True, ax_msgs = []\<rparr>)) D"
    using proxy_new_spec [OF px g(1,2), of i NULL] by blast
  let ?X = "X(p \<mapsto> \<lparr>ax_id = i, ax_active = True, ax_msgs = []\<rparr>)"
  have ch1: "ch_rep (set_proxy_heap pw ?w) C ?X D" by (rule ch_rep_proxies [OF ch pw(3)]) auto
  have free: "\<forall>d F. C d = Some F \<longrightarrow> p \<notin> set (ac_proxies F)" using ch_invD(4) [OF inv] pw(2) by fastforce
  have Xp: "?X p = Some \<lparr>ax_id = i, ax_active = True, ax_msgs = []\<rparr>" by simp
  obtain w2 where w2: "add_proxy (Some c) (Some p) (set_proxy_heap pw ?w) = Some (0, w2)"
    "ch_rep w2 (C(c \<mapsto> E\<lparr>ac_proxies := ac_proxies E @ [p]\<rparr>)) ?X D"
    using add_proxy_spec [OF ch1 E Xp free] g(3) by auto
  have "\<not> refused (br_arena b)" "\<not> refused (tick (br_arena b))" using g(4) by (simp_all add: numeral_2_eq_2 grants_Suc)
  then have "attach_subscriber self i (Some c) (Some name) (Some v) b = Some (0, Some (Some (Suc (ticks (br_arena b)))),
      b\<lparr>table_heap := (table_heap b)\<lparr>world := w2\<rparr>, br_arena := tick (tick (br_arena b)), subscriptions := (subscriptions b)(Suc (ticks (br_arena b)) \<mapsto>
        \<lparr>sub_id = i, sub_channel_name = Some (c_str name), sub_broker = self, sub_proxy = Some p, sub_active = True\<rparr>)\<rparr>)"
    using pw(1) w2(1) by (simp add: attach_subscriber_def)
  moreover have "tb_rep ((table_heap b)\<lparr>world := w2\<rparr>) t A (C(c \<mapsto> E\<lparr>ac_proxies := ac_proxies E @ [p]\<rparr>)) ?X D"
    by (rule tb_rep_channel [OF rep E _ w2(2)]) simp
  ultimately show ?thesis using pw(2) by blast
qed

lemma subscribe_steps:
  assumes r: "brokers b bk = Some r" "mb_channels r = Some t" "mb_channels_mutex r = Unlocked"
    and rep: "tb_rep (table_heap b) t A C X D" and g: "plenty 10 b"
  shows "\<exists>p h' A' C'. message_broker_subscribe (Some bk) (Some name) (Some v) b = Some (0, Some (Some (Suc (ticks (br_arena b)))),
      b\<lparr>brokers := (brokers b)(bk \<mapsto> r\<lparr>mb_next_subscriber_id := mb_next_subscriber_id r + 1\<rparr>), table_heap := h',
        br_arena := tick (tick (br_arena b)), subscriptions := (subscriptions b)(Suc (ticks (br_arena b)) \<mapsto>
        \<lparr>sub_id = mb_next_subscriber_id r, sub_channel_name = Some (c_str name), sub_broker = Some bk, sub_proxy = Some p, sub_active = True\<rparr>)\<rparr>)
    \<and> X p = None \<and> tb_rep h' t A' C' (X(p \<mapsto> \<lparr>ax_id = mb_next_subscriber_id r, ax_active = True, ax_msgs = []\<rparr>)) D
    \<and> (\<forall>n. members_of A' C' n = members_of A C n @ (if c_str n = c_str name then [p] else []))"
proof -
  let ?r = "r\<lparr>mb_next_subscriber_id := mb_next_subscriber_id r + 1\<rparr>" and ?i = "mb_next_subscriber_id r"
  have unlocked: "?r\<lparr>mb_channels_mutex := Unlocked\<rparr> = ?r" using r(3) by simp
  have gs: "grants 10 (br_arena b)" "grants 10 (arena (table_heap b))" "grants 10 (ch_arena (channel_heap b))"
    "grants 10 (arena (subscribers (channel_heap b)))" "grants 10 (px_arena (broker_proxies b))"
    "grants 10 (arena (inboxes (broker_proxies b)))" using g unfolding plenty_def by blast+
  have g0: "\<not> refused (arena (table_heap b))" using gs(2) by (simp add: eval_nat_numeral grants_Suc)
  have ga: "grants 3 (px_arena (broker_proxies b))" "grants 6 (arena (inboxes (broker_proxies b)))" "grants 2 (br_arena b)"
    using gs(1,5,6) by (auto elim: grants_mono)
  obtain h1 where h1: "generic_hash_table_get (Some t) (Some name) (Some NULL) (table_heap b)
      = Some (if find_channel A name = NULL then 1 else 0, Some (find_channel A name), h1)"
    "tb_rep h1 t A C X D" "world h1 = channel_heap b" "arena h1 = tick (arena (table_heap b))"
    using get_channel [OF rep g0, of name] by blast
  show ?thesis
  proof (cases "find_channel A name")
    case (Some c)
    obtain E where E: "C c = Some E" using find_channel_ok(2) [OF h1(2) Some] by blast
    have gsub: "\<not> refused (arena (subscribers (channel_heap b)))" using gs(4) by (simp add: eval_nat_numeral grants_Suc)
    let ?b = "b\<lparr>table_heap := h1, brokers := (brokers b)(bk \<mapsto> ?r)\<rparr>"
    have rep1: "tb_rep (table_heap ?b) t A C X D" using h1(2) by simp
    obtain p h' where h': "attach_subscriber (Some bk) ?i (Some c) (Some name) (Some v) ?b = Some (0, Some (Some (Suc (ticks (br_arena b)))),
      ?b\<lparr>table_heap := h', br_arena := tick (tick (br_arena b)), subscriptions := (subscriptions b)(Suc (ticks (br_arena b)) \<mapsto>
        \<lparr>sub_id = ?i, sub_channel_name = Some (c_str name), sub_broker = Some bk, sub_proxy = Some p, sub_active = True\<rparr>)\<rparr>)" "X p = None"
      "tb_rep h' t A (C(c \<mapsto> E\<lparr>ac_proxies := ac_proxies E @ [p]\<rparr>)) (X(p \<mapsto> \<lparr>ax_id = ?i, ax_active = True, ax_msgs = []\<rparr>)) D"
      using attach_spec [OF rep1 Some E, of "Some bk" ?i v] ga gsub h1(3) by auto
    have "members_of A (C(c \<mapsto> E\<lparr>ac_proxies := ac_proxies E @ [p]\<rparr>)) n = members_of A C n @ (if c_str n = c_str name then [p] else [])" for n
      using members_of_change [OF h1(2) Some, of "E\<lparr>ac_proxies := ac_proxies E @ [p]\<rparr>" n] members_of_change [OF h1(2) Some, of E n] E
      by (cases "c_str n = c_str name") (simp_all add: fun_upd_idem)
    moreover have "message_broker_subscribe (Some bk) (Some name) (Some v) b = attach_subscriber (Some bk) ?i (Some c) (Some name) (Some v) ?b"
      using r h1(1) Some by (simp add: message_broker_subscribe_def unlocked)
    ultimately show ?thesis
      using h' by (intro exI [of _ p] exI [of _ h'] exI [of _ A] exI [of _ "C(c \<mapsto> E\<lparr>ac_proxies := ac_proxies E @ [p]\<rparr>)"]) simp
  next
    case None
    have g2: "grants 2 (arena h1)" "grants 4 (ch_arena (world h1))" "grants 3 (arena (subscribers (world h1)))"
      using grants_mono [of 9 "arena h1" 2] grants_mono [OF gs(3), of 4] grants_mono [OF gs(4), of 3] grants_Suc [of 9 "arena (table_heap b)"] gs(2) h1(3,4)
      by simp_all
    obtain c w h2 A' where cr: "channel_new (Some name) (Some NULL) (world h1) = Some (0, Some (Some c), w)" "C c = None"
      "generic_hash_table_insert (Some t) (Some name) (Some c) (h1\<lparr>world := w\<rparr>) = Some (0, h2)"
      "tb_rep h2 t A' (C(c \<mapsto> \<lparr>ac_name = c_str name, ac_proxies = []\<rparr>)) X D"
      "\<forall>n. find_channel A' n = (if c_str n = c_str name then Some c else find_channel A n)"
      "proxy_heap (world h2) = proxy_heap (world h1)" "arena (subscribers (world h2)) = (tick ^^ 3) (arena (subscribers (world h1)))"
      using create_channel [OF h1(2) g2, of name] by blast
    let ?E = "\<lparr>ac_name = c_str name, ac_proxies = []\<rparr>" and ?b = "b\<lparr>table_heap := h2, brokers := (brokers b)(bk \<mapsto> ?r)\<rparr>"
    have gsub: "\<not> refused (arena (subscribers (world h2)))" using grants_nth [OF gs(4), of 3] cr(7) h1(3) by simp
    have rep1: "tb_rep (table_heap ?b) t A' (C(c \<mapsto> ?E)) X D" using cr(4) by simp
    have find: "find_channel A' name = Some c" "(C(c \<mapsto> ?E)) c = Some ?E" using cr(5) by simp_all
    have gb: "grants 3 (px_arena (broker_proxies ?b))" "grants 6 (arena (inboxes (broker_proxies ?b)))"
      "\<not> refused (arena (subscribers (channel_heap ?b)))" "grants 2 (br_arena ?b)" using ga gsub h1(3) cr(6) by simp_all
    obtain p h' where h': "attach_subscriber (Some bk) ?i (Some c) (Some name) (Some v) ?b = Some (0, Some (Some (Suc (ticks (br_arena ?b)))),
      ?b\<lparr>table_heap := h', br_arena := tick (tick (br_arena ?b)), subscriptions := (subscriptions ?b)(Suc (ticks (br_arena ?b)) \<mapsto>
        \<lparr>sub_id = ?i, sub_channel_name = Some (c_str name), sub_broker = Some bk, sub_proxy = Some p, sub_active = True\<rparr>)\<rparr>)" "X p = None"
      "tb_rep h' t A' ((C(c \<mapsto> ?E))(c \<mapsto> ?E\<lparr>ac_proxies := ac_proxies ?E @ [p]\<rparr>)) (X(p \<mapsto> \<lparr>ax_id = ?i, ax_active = True, ax_msgs = []\<rparr>)) D"
      using attach_spec [OF rep1 find gb, of "Some bk" ?i v] by blast
    have old: "members_of A' (C(c \<mapsto> ?E)) n = members_of A C n" for n
      by (rule members_of_create [OF h1(2) None cr(2)]) (use cr(5) in auto)
    have "members_of A' (C(c \<mapsto> \<lparr>ac_name = c_str name, ac_proxies = [p]\<rparr>)) n = members_of A C n @ (if c_str n = c_str name then [p] else [])" for n
      using members_of_change [OF cr(4) find(1), of "\<lparr>ac_name = c_str name, ac_proxies = [p]\<rparr>" n] members_of_change [OF cr(4) find(1), of ?E n] old [of n]
      by (cases "c_str n = c_str name") (simp_all only: simp_thms fun_upd_upd if_True if_False achannel.simps append_Nil append_Nil2)
    moreover have "message_broker_subscribe (Some bk) (Some name) (Some v) b = attach_subscriber (Some bk) ?i (Some c) (Some name) (Some v) ?b"
      using r h1(1) None cr(1,3) by (simp add: message_broker_subscribe_def unlocked)
    ultimately show ?thesis
      using h' by (intro exI [of _ p] exI [of _ h'] exI [of _ A'] exI [of _ "C(c \<mapsto> \<lparr>ac_name = c_str name, ac_proxies = [p]\<rparr>)"]) simp
  qed
qed

lemma br_invD:
  assumes "br_inv bk B"
  shows "ab_proxies B p = Some Y \<Longrightarrow> unat (ax_id Y) < unat (ab_next_subscriber B)"
    and "ab_proxies B p = Some Y \<Longrightarrow> ab_proxies B q = Some Z \<Longrightarrow> ax_id Y = ax_id Z \<Longrightarrow> p = q"
    and "ab_subscriptions B u = Some s \<Longrightarrow> sub_active s \<Longrightarrow> sub_broker s = Some bk \<and> (\<exists>p Y name. sub_proxy s = Some p
      \<and> ab_proxies B p = Some Y \<and> ax_active Y \<and> ax_id Y = sub_id s \<and> sub_channel_name s = Some name \<and> p \<in> set (members B name))"
    and "ab_subscriptions B u = Some s \<Longrightarrow> ab_subscriptions B v = Some s' \<Longrightarrow> sub_active s \<Longrightarrow> sub_active s' \<Longrightarrow> sub_id s = sub_id s' \<Longrightarrow> u = v"
  using assms unfolding br_inv_def sub_ok_def by blast+

lemma br_invI:
  assumes "\<And>p Y. ab_proxies B p = Some Y \<Longrightarrow> unat (ax_id Y) < unat (ab_next_subscriber B)"
    and "\<And>p q Y Z. ab_proxies B p = Some Y \<Longrightarrow> ab_proxies B q = Some Z \<Longrightarrow> ax_id Y = ax_id Z \<Longrightarrow> p = q"
    and "\<And>u s. ab_subscriptions B u = Some s \<Longrightarrow> sub_active s \<Longrightarrow> sub_broker s = Some bk \<and> (\<exists>p Y name. sub_proxy s = Some p
      \<and> ab_proxies B p = Some Y \<and> ax_active Y \<and> ax_id Y = sub_id s \<and> sub_channel_name s = Some name \<and> p \<in> set (members B name))"
    and "\<And>u v s s'. ab_subscriptions B u = Some s \<Longrightarrow> ab_subscriptions B v = Some s' \<Longrightarrow> sub_active s \<Longrightarrow> sub_active s' \<Longrightarrow> sub_id s = sub_id s' \<Longrightarrow> u = v"
  shows "br_inv bk B"
  using assms unfolding br_inv_def sub_ok_def by blast

lemma br_inv_subscription_id:
  assumes "br_inv bk B" and "ab_subscriptions B u = Some s" and "sub_active s"
  shows "unat (sub_id s) < unat (ab_next_subscriber B)"
  using br_invD(1,3) [OF assms(1)] assms(2,3) by metis

text \<open>The broker after a subscription: a proxy without messages, the last member of its channel.\<close>

lemma br_inv_subscribe:
  assumes inv: "br_inv bk B" and p: "ab_proxies B p = None" and u: "ab_subscriptions B u = None"
    and i: "ab_next_subscriber B \<noteq> - 1"
    and B': "ab_next_subscriber B' = ab_next_subscriber B + 1"
      "ab_proxies B' = (ab_proxies B)(p \<mapsto> \<lparr>ax_id = ab_next_subscriber B, ax_active = True, ax_msgs = []\<rparr>)"
      "ab_subscriptions B' = (ab_subscriptions B)(u \<mapsto> \<lparr>sub_id = ab_next_subscriber B, sub_channel_name = Some (c_str name),
         sub_broker = Some bk, sub_proxy = Some p, sub_active = True\<rparr>)"
    and mem: "\<And>n. members B' n = members B n @ (if c_str n = c_str name then [p] else [])"
  shows "br_inv bk B'"
proof (rule br_invI)
  have next1: "unat (ab_next_subscriber B') = Suc (unat (ab_next_subscriber B))"
    using unatSuc [of "ab_next_subscriber B"] i B'(1) by (simp add: add.commute eq_neg_iff_add_eq_0)
  fix x y Y Z
  show "unat (ax_id Y) < unat (ab_next_subscriber B')" if "ab_proxies B' x = Some Y"
    using that br_invD(1) [OF inv, of x Y] next1 by (auto simp: B'(2) split: if_splits)
  show "x = y" if "ab_proxies B' x = Some Y" "ab_proxies B' y = Some Z" "ax_id Y = ax_id Z"
    using that br_invD(1) [OF inv, of x Y] br_invD(1) [OF inv, of y Z] br_invD(2) [OF inv, of x Y y Z]
    by (auto simp: B'(2) split: if_splits)
next
  fix v s assume s: "ab_subscriptions B' v = Some s" "sub_active s"
  show "sub_broker s = Some bk \<and> (\<exists>p Y name. sub_proxy s = Some p
      \<and> ab_proxies B' p = Some Y \<and> ax_active Y \<and> ax_id Y = sub_id s \<and> sub_channel_name s = Some name \<and> p \<in> set (members B' name))"
  proof (cases "v = u")
    case True
    with s mem [of "c_str name"] show ?thesis by (auto simp: B'(2,3))
  next
    case False
    with s(1) B'(3) have "ab_subscriptions B v = Some s" by simp
    from br_invD(3) [OF inv this s(2)] obtain q Y n where q: "sub_broker s = Some bk" "sub_proxy s = Some q" "ab_proxies B q = Some Y" "ax_active Y"
      "ax_id Y = sub_id s" "sub_channel_name s = Some n" "q \<in> set (members B n)" by blast
    moreover have "ab_proxies B' q = Some Y" using q(3) p by (auto simp: B'(2))
    ultimately show ?thesis using mem [of n] by auto
  qed
next
  fix v x s s' assume s: "ab_subscriptions B' v = Some s" "ab_subscriptions B' x = Some s'" "sub_active s" "sub_active s'" "sub_id s = sub_id s'"
  then show "v = x"
    using br_inv_subscription_id [OF inv, of v s] br_inv_subscription_id [OF inv, of x s'] br_invD(4) [OF inv, of v s x s']
    by (auto simp: B'(3) split: if_splits)
qed

lemma subscribe_spec:
  assumes rep: "br_rep b bk B" and g: "plenty 10 b" and i: "ab_next_subscriber B \<noteq> - 1"
  shows "\<exists>u p b' B'. message_broker_subscribe (Some bk) (Some name) (Some v) b = Some (0, Some (Some u), b') \<and> br_rep b' bk B'
    \<and> ab_subscriptions B u = None \<and> ab_proxies B p = None
    \<and> ab_subscriptions B' = (ab_subscriptions B)(u \<mapsto> \<lparr>sub_id = ab_next_subscriber B, sub_channel_name = Some (c_str name),
         sub_broker = Some bk, sub_proxy = Some p, sub_active = True\<rparr>)
    \<and> ab_proxies B' = (ab_proxies B)(p \<mapsto> \<lparr>ax_id = ab_next_subscriber B, ax_active = True, ax_msgs = []\<rparr>)
    \<and> (\<forall>n. members B' n = members B n @ (if c_str n = c_str name then [p] else []))
    \<and> ab_held B' = ab_held B \<and> ab_tasks B' = ab_tasks B \<and> ab_off B' = ab_off B
    \<and> ab_next_subscriber B' = ab_next_subscriber B + 1 \<and> ab_next_message B' = ab_next_message B"
proof -
  obtain t q as where R: "brokers b bk = Some \<lparr>mb_publisher_pool = Some q, mb_channels = Some t, mb_channels_mutex = Unlocked,
         mb_next_subscriber_id = ab_next_subscriber B, mb_next_message_id = ab_next_message B\<rparr>"
    "pools b q = Some \<lparr>po_off = ab_off B, po_tasks = map Some as\<rparr>" "distinct as" "dom (task_args b) = set as"
    "map (task_args b) as = map (\<lambda>p. Some (task_of t bk p)) (ab_tasks B)"
    "tb_rep (table_heap b) t (ab_table B) (ab_channels B) (ab_proxies B) (ab_held B)"
    "br_inv bk B" "subscriptions b = ab_subscriptions B"
    "dom (subscriptions b) \<subseteq> {..ticks (br_arena b)}" "dom (task_args b) \<subseteq> {..ticks (br_arena b)}"
    by (rule br_repE [OF rep])
  let ?u = "Suc (ticks (br_arena b))"
  let ?s = "\<lambda>p. \<lparr>sub_id = ab_next_subscriber B, sub_channel_name = Some (c_str name), sub_broker = Some bk, sub_proxy = Some p, sub_active = True\<rparr>"
  obtain p h' A' C' where S: "message_broker_subscribe (Some bk) (Some name) (Some v) b = Some (0, Some (Some ?u),
      b\<lparr>brokers := (brokers b)(bk \<mapsto> \<lparr>mb_publisher_pool = Some q, mb_channels = Some t, mb_channels_mutex = Unlocked,
         mb_next_subscriber_id = ab_next_subscriber B + 1, mb_next_message_id = ab_next_message B\<rparr>), table_heap := h',
        br_arena := tick (tick (br_arena b)), subscriptions := (subscriptions b)(?u \<mapsto> ?s p)\<rparr>)"
    "ab_proxies B p = None"
    "tb_rep h' t A' C' ((ab_proxies B)(p \<mapsto> \<lparr>ax_id = ab_next_subscriber B, ax_active = True, ax_msgs = []\<rparr>)) (ab_held B)"
    "\<forall>n. members_of A' C' n = members B n @ (if c_str n = c_str name then [p] else [])"
    using subscribe_steps [OF R(1) _ _ R(6) g, of name v] by auto
  define b' where "b' = b\<lparr>brokers := (brokers b)(bk \<mapsto> \<lparr>mb_publisher_pool = Some q, mb_channels = Some t, mb_channels_mutex = Unlocked,
         mb_next_subscriber_id = ab_next_subscriber B + 1, mb_next_message_id = ab_next_message B\<rparr>), table_heap := h',
        br_arena := tick (tick (br_arena b)), subscriptions := (subscriptions b)(?u \<mapsto> ?s p)\<rparr>"
  define B' where "B' = B\<lparr>ab_table := A', ab_channels := C',
    ab_proxies := (ab_proxies B)(p \<mapsto> \<lparr>ax_id = ab_next_subscriber B, ax_active = True, ax_msgs = []\<rparr>),
    ab_subscriptions := (ab_subscriptions B)(?u \<mapsto> ?s p), ab_next_subscriber := ab_next_subscriber B + 1\<rparr>"
  have fresh: "ab_subscriptions B ?u = None" using br_rep_fresh(2) [OF rep] R(8) by simp
  have "br_rep b' bk B'"
  proof (rule br_repI [where q = q and t = t and as = as])
    show "br_inv bk B'"
      by (rule br_inv_subscribe [OF R(7) S(2) fresh i, of _ name]) (use S(4) in \<open>simp_all add: B'_def\<close>)
    show "dom (subscriptions b') \<subseteq> {..ticks (br_arena b')}" using R(9) by (auto simp: b'_def)
    show "dom (task_args b') \<subseteq> {..ticks (br_arena b')}" using R(10) by (auto simp: b'_def)
  qed (use R S(3) in \<open>simp_all add: b'_def B'_def\<close>)
  with S fresh show ?thesis
    by (intro exI [of _ ?u] exI [of _ p] exI [of _ b'] exI [of _ B']) (simp add: b'_def B'_def)
qed

section \<open>Receiving\<close>

text \<open>A change of the proxies that keeps their identities and their activity.\<close>

lemma br_rep_proxies:
  assumes rep: "br_rep b bk B" and pw: "px_rep pw X' D'"
    and same: "\<And>p. map_option (\<lambda>Y. (ax_id Y, ax_active Y)) (X' p) = map_option (\<lambda>Y. (ax_id Y, ax_active Y)) (ab_proxies B p)"
  shows "br_rep (set_broker_proxies pw b) bk (B\<lparr>ab_proxies := X', ab_held := D'\<rparr>)"
proof -
  obtain t q as where R: "brokers b bk = Some \<lparr>mb_publisher_pool = Some q, mb_channels = Some t, mb_channels_mutex = Unlocked,
         mb_next_subscriber_id = ab_next_subscriber B, mb_next_message_id = ab_next_message B\<rparr>"
    "pools b q = Some \<lparr>po_off = ab_off B, po_tasks = map Some as\<rparr>" "distinct as" "dom (task_args b) = set as"
    "map (task_args b) as = map (\<lambda>p. Some (task_of t bk p)) (ab_tasks B)"
    "tb_rep (table_heap b) t (ab_table B) (ab_channels B) (ab_proxies B) (ab_held B)"
    "br_inv bk B" "subscriptions b = ab_subscriptions B"
    "dom (subscriptions b) \<subseteq> {..ticks (br_arena b)}" "dom (task_args b) \<subseteq> {..ticks (br_arena b)}"
    by (rule br_repE [OF rep])
  have "p \<in> dom X'" if "p \<in> dom (ab_proxies B)" for p using same [of p] that by (cases "X' p") auto
  then have "ch_rep (set_proxy_heap pw (channel_heap b)) (ab_channels B) X' D'"
    using ch_rep_proxies [OF tb_repD(2) [OF R(6)] pw] by blast
  then have "tb_rep ((table_heap b)\<lparr>world := set_proxy_heap pw (channel_heap b)\<rparr>) t (ab_table B) (ab_channels B) X' D'"
    by (rule tb_rep_delivered [OF R(6)])
  moreover have "br_inv bk (B\<lparr>ab_proxies := X', ab_held := D'\<rparr>)" by (rule br_inv_cong [OF R(7)]) (simp_all add: same)
  ultimately show ?thesis using R by (intro br_repI [where q = q and t = t and as = as]) simp_all
qed

lemma br_rep_px:
  assumes "br_rep b bk B"
  shows "px_rep (broker_proxies b) (ab_proxies B) (ab_held B)" and "subscriptions b = ab_subscriptions B" and "br_inv bk B"
  using br_repE [OF assms] ch_repE tb_repD(2) by metis+

text \<open>An active subscription with a message takes the oldest one; the message then belongs to the caller.\<close>

lemma receive_spec:
  assumes rep: "br_rep b bk B" and s: "ab_subscriptions B u = Some s" "sub_active s" "sub_proxy s = Some p"
    and p: "ab_proxies B p = Some Y" "ax_active Y" and msgs: "ax_msgs Y = a # as"
  shows "\<exists>m b'. subscription_try_receive (Some u) (Some v) b = Some (0, Some (Some m), b')
    \<and> subscription_receive (Some u) (Some v) b = Some (0, Some (Some m), b') \<and> ab_held B m = None
    \<and> br_rep b' bk (B\<lparr>ab_proxies := (ab_proxies B)(p \<mapsto> Y\<lparr>ax_msgs := as\<rparr>), ab_held := (ab_held B)(m \<mapsto> a)\<rparr>) \<and> (\<forall>n. plenty n b' \<longleftrightarrow> plenty n b)"
proof -
  let ?w = "broker_proxies b"
  note px = br_rep_px [OF rep]
  obtain x where x: "proxies ?w p = Some x" "px_active x" "px_inbox_mutex x = Unlocked"
    using px_rep_proxy [OF px(1) p(1)] p(2) by auto
  have idem: "(proxies ?w)(p \<mapsto> x\<lparr>px_inbox_mutex := Unlocked\<rparr>) = proxies ?w" using x by (auto simp: fun_upd_idem_iff)
  obtain h1 where h1: "generic_queue_syn_is_empty (px_inbox x) (inboxes ?w) = Some (0, h1)" "px_rep (?w\<lparr>inboxes := h1\<rparr>) (ab_proxies B) (ab_held B)"
    "arena h1 = arena (inboxes ?w)" "world h1 = message_heap ?w"
    using inbox_readers_spec(1) [OF px(1) p(1) x(1)] msgs by auto
  have x1: "proxies (?w\<lparr>inboxes := h1\<rparr>) p = Some x" using x(1) by simp
  obtain m h2 where h2: "generic_queue_syn_dequeue (px_inbox x) (Some NULL) h1 = Some (0, Some (Some m), h2)" "ab_held B m = None"
    "px_rep (?w\<lparr>inboxes := h2\<rparr>) ((ab_proxies B)(p \<mapsto> Y\<lparr>ax_msgs := as\<rparr>)) ((ab_held B)(m \<mapsto> a))"
    "arena h2 = arena h1" "world h2 = world h1"
    using inbox_dequeue_spec [OF h1(2) p(1) msgs x1, of NULL] by auto
  let ?b = "set_broker_proxies (?w\<lparr>inboxes := h2\<rparr>) b"
  have "subscription_try_receive (Some u) (Some v) b = Some (0, Some (Some m), ?b)"
    using s x h1(1) h2(1) px(2) by (simp add: subscription_try_receive_def on_inboxes_def)
  moreover have "subscription_receive (Some u) (Some v) b = Some (0, Some (Some m), ?b)"
    using s x h1(1) h2(1) px(2) idem by (simp add: subscription_receive_def on_inboxes_def)
  moreover have "br_rep ?b bk (B\<lparr>ab_proxies := (ab_proxies B)(p \<mapsto> Y\<lparr>ax_msgs := as\<rparr>), ab_held := (ab_held B)(m \<mapsto> a)\<rparr>)"
    by (rule br_rep_proxies [OF rep h2(3)]) (use p(1) in simp)
  moreover have "plenty n ?b \<longleftrightarrow> plenty n b" for n using h1(3,4) h2(4,5) by (simp add: plenty_def)
  ultimately show ?thesis using h2(2) by blast
qed

text \<open>
  With an empty inbox \<open>subscription_try_receive\<close> reports that there is nothing, and \<open>subscription_receive\<close> waits.
\<close>

lemma receive_empty:
  assumes rep: "br_rep b bk B" and s: "ab_subscriptions B u = Some s" "sub_active s" "sub_proxy s = Some p"
    and p: "ab_proxies B p = Some Y" "ax_active Y" and msgs: "ax_msgs Y = []"
  shows "\<exists>b'. subscription_try_receive (Some u) (Some v) b = Some (1, Some NULL, b') \<and> br_rep b' bk B"
    and "subscription_receive (Some u) (Some v) b = None"
proof -
  let ?w = "broker_proxies b"
  note px = br_rep_px [OF rep]
  obtain x where x: "proxies ?w p = Some x" "px_active x" "px_inbox_mutex x = Unlocked"
    using px_rep_proxy [OF px(1) p(1)] p(2) by auto
  obtain h1 where h1: "generic_queue_syn_is_empty (px_inbox x) (inboxes ?w) = Some (1, h1)" "px_rep (?w\<lparr>inboxes := h1\<rparr>) (ab_proxies B) (ab_held B)"
    using inbox_readers_spec(1) [OF px(1) p(1) x(1)] msgs by auto
  let ?b = "set_broker_proxies (?w\<lparr>inboxes := h1\<rparr>) b"
  have "subscription_try_receive (Some u) (Some v) b = Some (1, Some NULL, ?b)"
    using s x h1(1) px(2) by (simp add: subscription_try_receive_def on_inboxes_def)
  moreover have "br_rep ?b bk B" using br_rep_proxies [OF rep h1(2)] by simp
  ultimately show "\<exists>b'. subscription_try_receive (Some u) (Some v) b = Some (1, Some NULL, b') \<and> br_rep b' bk B" by blast
  show "subscription_receive (Some u) (Some v) b = None"
    using s x h1(1) px(2) by (simp add: subscription_receive_def on_inboxes_def)
qed

lemma pending_spec:
  assumes rep: "br_rep b bk B" and s: "ab_subscriptions B u = Some s" "sub_proxy s = Some p" and p: "ab_proxies B p = Some Y"
  shows "\<exists>b'. subscription_get_pending_count (Some u) (Some v) b = Some (0, Some (of_nat (length (ax_msgs Y))), b') \<and> br_rep b' bk B"
    and "unat (of_nat (length (ax_msgs Y)) :: size_t) = length (ax_msgs Y)"
proof -
  let ?w = "broker_proxies b"
  note px = br_rep_px [OF rep]
  obtain x where x: "proxies ?w p = Some x" using px_rep_proxy [OF px(1) p(1)] by auto
  obtain h where h: "generic_queue_syn_size (px_inbox x) (Some v) (inboxes ?w) = Some (0, Some (of_nat (length (ax_msgs Y))), h)"
      "px_rep (?w\<lparr>inboxes := h\<rparr>) (ab_proxies B) (ab_held B)"
    using inbox_readers_spec(2) [OF px(1) p(1) x(1)] by blast
  let ?b = "set_broker_proxies (?w\<lparr>inboxes := h\<rparr>) b"
  have "subscription_get_pending_count (Some u) (Some v) b = Some (0, Some (of_nat (length (ax_msgs Y))), ?b)"
    using s x h(1) px(2) by (simp add: subscription_get_pending_count_def)
  moreover have "br_rep ?b bk B" using br_rep_proxies [OF rep h(2)] by simp
  ultimately show "\<exists>b'. subscription_get_pending_count (Some u) (Some v) b = Some (0, Some (of_nat (length (ax_msgs Y))), b') \<and> br_rep b' bk B" by blast
  show "unat (of_nat (length (ax_msgs Y)) :: size_t) = length (ax_msgs Y)"
    using inbox_readers_spec(3) [OF px(1) p(1) x(1)] by (simp add: unat_of_nat_size_t)
qed

section \<open>Unsubscribing\<close>

lemma proxy_deactivate:
  assumes rep: "px_rep w X D" "X p = Some Y" and x: "proxies w p = Some x"
  shows "px_rep (w\<lparr>proxies := (proxies w)(p \<mapsto> x\<lparr>px_active := False\<rparr>)\<rparr>) (X(p \<mapsto> Y\<lparr>ax_active := False\<rparr>)) D"
proof -
  obtain S G x' s ms where R: "qs_rep (inboxes w) S" "owns (map_option px_inbox \<circ> proxies w) S (map_option inbox_list \<circ> G)"
    "px_inv (messages (message_heap w)) (proxies w) G D" "X = px_abs (messages (message_heap w)) (proxies w) G"
    "dom (proxies w) \<subseteq> {..ticks (px_arena w)}" "dom (messages (message_heap w)) \<subseteq> {..ticks (msg_arena (message_heap w))}"
    and x': "proxies w p = Some x'" and V: "px_inbox x' = Some s" "px_inbox_mutex x' = Unlocked" "G p = Some ms" "S s = Some (inbox_list ms)"
    "Y = \<lparr>ax_id = px_id x', ax_active = px_active x', ax_msgs = map (\<lambda>m. the (messages (message_heap w) m)) ms\<rparr>"
    by (rule proxy_viewE [OF rep])
  from x x' have [simp]: "x' = x" by simp
  let ?P = "(proxies w)(p \<mapsto> x\<lparr>px_active := False\<rparr>)"
  have same: "(map_option px_inbox \<circ> proxies w)(p \<mapsto> px_inbox x) = map_option px_inbox \<circ> proxies w" using x by (simp add: fun_upd_idem)
  have dom: "dom ?P = dom (proxies w)" using x by auto
  have mutexes: "\<forall>q y. ?P q = Some y \<longrightarrow> px_inbox_mutex y = Unlocked" using px_invD(2) [OF R(3)] x by auto
  have "px_inv (messages (message_heap w)) ?P G D"
  proof (rule px_invI)
    show "dom G = dom ?P" using px_invD(1) [OF R(3)] dom by simp
    show "px_inbox_mutex y = Unlocked" if "?P q = Some y" for q y using mutexes that by blast
  qed (fact px_invD [OF R(3)])+
  moreover have "X(p \<mapsto> Y\<lparr>ax_active := False\<rparr>) = px_abs (messages (message_heap w)) ?P G"
    unfolding R(4) using V(3,5) by (auto simp: px_abs_def fun_eq_iff)
  ultimately show ?thesis using R dom by (intro px_repI [of _ S G]) (simp_all add: same)
qed

lemma without_remove1: "distinct ps \<Longrightarrow> k < length ps \<Longrightarrow> without k ps = remove1 (ps ! k) ps"
proof -
  assume d: "distinct ps" and k: "k < length ps"
  have split: "ps = take k ps @ ps ! k # drop (Suc k) ps" by (rule id_take_nth_drop [OF k])
  with d have "ps ! k \<notin> set (take k ps)" by (metis distinct_append disjoint_iff list.set_intros(1))
  then have "remove1 (ps ! k) (take k ps @ ps ! k # drop (Suc k) ps) = without k ps" by (simp add: remove1_append)
  with split show ?thesis by simp
qed

text \<open>Where identities are unique, the search for an identity finds its proxy.\<close>

lemma id_pos_unique:
  assumes "p \<in> set ps" and "X p = Some Y" and "ax_id Y = i" and "\<And>q Z. X q = Some Z \<Longrightarrow> ax_id Z = i \<Longrightarrow> q = p"
  shows "id_pos X i ps < length ps" and "ps ! id_pos X i ps = p"
proof -
  show less: "id_pos X i ps < length ps"
  proof (rule ccontr)
    assume "\<not> id_pos X i ps < length ps"
    moreover obtain k where "k < length ps" "ps ! k = p" using assms(1) by (auto simp: in_set_conv_nth)
    ultimately have "map_option ax_id (X p) \<noteq> Some i" using id_pos_before [of k X i ps] by simp
    with assms(2,3) show False by simp
  qed
  from id_pos_match [OF less] assms(4) show "ps ! id_pos X i ps = p" by auto
qed

lemma unsubscribe_steps:
  assumes r: "brokers b bk = Some r" "mb_channels r = Some t" "mb_channels_mutex r = Unlocked"
    and rep: "tb_rep (table_heap b) t A C X D"
    and s: "subscriptions b u = Some s" "sub_active s" "sub_broker s = Some bk" "sub_proxy s = Some p" "sub_channel_name s = Some name"
    and p: "X p = Some Y" "ax_id Y = sub_id s" "p \<in> set (members_of A C name)"
    and unique: "\<forall>q Z. X q = Some Z \<longrightarrow> ax_id Z = sub_id s \<longrightarrow> q = p"
    and c: "find_channel A name = Some c" "C c = Some E"
  shows "\<exists>h'. subscription_unsubscribe (Some u) b = Some (0,
      b\<lparr>table_heap := h', subscriptions := (subscriptions b)(u \<mapsto> s\<lparr>sub_active := False, sub_proxy := NULL\<rparr>)\<rparr>)
    \<and> (if refused (arena (table_heap b)) \<or> refused (arena (subscribers (channel_heap b)))
       then tb_rep h' t A C (X(p \<mapsto> Y\<lparr>ax_active := False\<rparr>)) D
       else tb_rep h' t A (C(c \<mapsto> E\<lparr>ac_proxies := remove1 p (ac_proxies E)\<rparr>)) (X(p := None)) D)"
proof -
  have rid: "(brokers b)(bk \<mapsto> r\<lparr>mb_channels_mutex := Unlocked\<rparr>) = brokers b" using r by (auto simp: fun_upd_idem_iff)
  let ?w = "channel_heap b" and ?X = "X(p \<mapsto> Y\<lparr>ax_active := False\<rparr>)"
  have ch: "ch_rep ?w C X D" by (rule tb_repD(2) [OF rep])
  then obtain M where px: "px_rep (proxy_heap ?w) X D" and inv: "ch_inv (channels ?w) C X" by (rule ch_repE)
  obtain x where x: "proxies (proxy_heap ?w) p = Some x" "px_inbox_mutex x = Unlocked" using px_rep_proxy [OF px p(1)] by auto
  let ?pw = "(proxy_heap ?w)\<lparr>proxies := (proxies (proxy_heap ?w))(p \<mapsto> x\<lparr>px_active := False\<rparr>)\<rparr>"
  have xid: "x\<lparr>px_active := False, px_inbox_mutex := Unlocked\<rparr> = x\<lparr>px_active := False\<rparr>" using x(2) by simp
  have ch1: "ch_rep (set_proxy_heap ?pw ?w) C ?X D" by (rule ch_rep_proxies [OF ch proxy_deactivate [OF px p(1) x(1)]]) auto
  let ?h = "(table_heap b)\<lparr>world := set_proxy_heap ?pw ?w\<rparr>"
  have rep1: "tb_rep ?h t A C ?X D" by (rule tb_rep_delivered [OF rep ch1])
  have mem: "p \<in> set (ac_proxies E)" and xp: "?X p = Some (Y\<lparr>ax_active := False\<rparr>)" using p(3) c by (simp_all add: members_of_def)
  have only: "q = p" if "?X q = Some Z" "ax_id Z = sub_id s" for q Z using that unique by (auto split: if_splits)
  have pos: "id_pos ?X (sub_id s) (ac_proxies E) < length (ac_proxies E)" "ac_proxies E ! id_pos ?X (sub_id s) (ac_proxies E) = p"
    using id_pos_unique [OF mem, of ?X, OF xp _ only] p(2) by simp_all
  show ?thesis
  proof (cases "refused (arena (table_heap b))")
    case True
    obtain h1 where h1: "generic_hash_table_get (Some t) (Some name) (Some NULL) ?h = Some (-1, Some NULL, h1)" "tb_rep h1 t A C ?X D"
      using get_channel_refused [OF rep1, of name] True by auto
    have "subscription_unsubscribe (Some u) b = Some (0,
      b\<lparr>table_heap := h1, subscriptions := (subscriptions b)(u \<mapsto> s\<lparr>sub_active := False, sub_proxy := NULL\<rparr>)\<rparr>)"
      using r s x h1(1) rid by (simp add: subscription_unsubscribe_def xid)
    with h1(2) True show ?thesis by auto
  next
    case False
    obtain h1 where h1: "generic_hash_table_get (Some t) (Some name) (Some NULL) ?h = Some (0, Some (Some c), h1)" "tb_rep h1 t A C ?X D"
      "world h1 = set_proxy_heap ?pw ?w"
      using get_channel [OF rep1, of name] False c(1) by auto
    obtain w where w: "drop_proxy (sub_id s) (Some c) (world h1) = Some w"
      "let pos = id_pos ?X (sub_id s) (ac_proxies E) in
       if refused (arena (subscribers (world h1))) \<or> pos = length (ac_proxies E) then ch_rep w C ?X D
       else ch_rep w (C(c \<mapsto> E\<lparr>ac_proxies := without pos (ac_proxies E)\<rparr>)) (?X(ac_proxies E ! pos := None)) D"
      using drop_proxy_spec [OF tb_repD(2) [OF h1(2)] c(2), of "sub_id s"] by blast
    have "subscription_unsubscribe (Some u) b = Some (0, b\<lparr>table_heap := h1\<lparr>world := w\<rparr>,
      subscriptions := (subscriptions b)(u \<mapsto> s\<lparr>sub_active := False, sub_proxy := NULL\<rparr>)\<rparr>)"
      using r s x h1(1) w(1) rid by (simp add: subscription_unsubscribe_def xid)
    moreover have "if refused (arena (subscribers ?w)) then tb_rep (h1\<lparr>world := w\<rparr>) t A C ?X D
       else tb_rep (h1\<lparr>world := w\<rparr>) t A (C(c \<mapsto> E\<lparr>ac_proxies := remove1 p (ac_proxies E)\<rparr>)) (X(p := None)) D"
    proof (cases "refused (arena (subscribers ?w))")
      case True
      with w(2) h1(3) have "ch_rep w C ?X D" by simp
      from tb_rep_delivered [OF h1(2) this] True show ?thesis by simp
    next
      case False
      have "without (id_pos ?X (sub_id s) (ac_proxies E)) (ac_proxies E) = remove1 p (ac_proxies E)"
        using without_remove1 [OF ch_invD(3) [OF inv c(2)] pos(1)] pos(2) by simp
      with w(2) h1(3) False pos have "ch_rep w (C(c \<mapsto> E\<lparr>ac_proxies := remove1 p (ac_proxies E)\<rparr>)) (X(p := None)) D" by (simp add: Let_def)
      from tb_rep_channel [OF h1(2) c(2) _ this] False show ?thesis by simp
    qed
    ultimately show ?thesis using False by (intro exI [of _ "h1\<lparr>world := w\<rparr>"]) simp
  qed
qed

lemma members_ofE:
  assumes "p \<in> set (members_of A C n)"
  obtains c E where "find_channel A n = Some c" and "C c = Some E" and "p \<in> set (ac_proxies E)"
  using assms by (cases "find_channel A n"; cases "C (the (find_channel A n))") (auto simp: members_of_def)

text \<open>Giving up one subscription and its proxy keeps what the others rely on.\<close>

lemma br_inv_unsubscribe:
  assumes inv: "br_inv bk B" and s: "ab_subscriptions B u = Some s" "sub_active s" "sub_proxy s = Some p" and p: "ab_proxies B p = Some Y"
    and B': "ab_next_subscriber B' = ab_next_subscriber B" "ab_subscriptions B' = (ab_subscriptions B)(u \<mapsto> s\<lparr>sub_active := False, sub_proxy := NULL\<rparr>)"
    and same: "\<And>q. q \<noteq> p \<Longrightarrow> ab_proxies B' q = ab_proxies B q" and gone: "\<And>Z. ab_proxies B' p = Some Z \<Longrightarrow> ax_id Z = ax_id Y"
    and mem: "\<And>q n. q \<noteq> p \<Longrightarrow> q \<in> set (members B n) \<Longrightarrow> q \<in> set (members B' n)"
  shows "br_inv bk B'"
proof (rule br_invI)
  have old: "\<exists>Z'. ab_proxies B q = Some Z' \<and> ax_id Z' = ax_id Z" if "ab_proxies B' q = Some Z" for q Z
    using that same [of q] gone [of Z] p by (cases "q = p") auto
  show "unat (ax_id Z) < unat (ab_next_subscriber B')" if "ab_proxies B' q = Some Z" for q Z
    using old [OF that] br_invD(1) [OF inv, of q] B'(1) by auto
  show "q = q'" if "ab_proxies B' q = Some Z" "ab_proxies B' q' = Some Z'" "ax_id Z = ax_id Z'" for q q' Z Z'
    using old [OF that(1)] old [OF that(2)] that(3) br_invD(2) [OF inv, of q _ q'] by auto
  have sub: "ab_subscriptions B v = Some s' \<and> v \<noteq> u" if "ab_subscriptions B' v = Some s'" "sub_active s'" for v s'
    using that B'(2) by (auto split: if_splits)
  show "v = v'" if "ab_subscriptions B' v = Some s1" "ab_subscriptions B' v' = Some s2" "sub_active s1" "sub_active s2" "sub_id s1 = sub_id s2" for v v' s1 s2
    using sub [OF that(1,3)] sub [OF that(2,4)] br_invD(4) [OF inv _ _ that(3,4,5)] by blast
  show "sub_broker s1 = Some bk \<and> (\<exists>p Y name. sub_proxy s1 = Some p
      \<and> ab_proxies B' p = Some Y \<and> ax_active Y \<and> ax_id Y = sub_id s1 \<and> sub_channel_name s1 = Some name \<and> p \<in> set (members B' name))"
    if v: "ab_subscriptions B' v = Some s1" "sub_active s1" for v s1
  proof -
    have v': "ab_subscriptions B v = Some s1" "v \<noteq> u" using sub [OF v] by simp_all
    from br_invD(3) [OF inv v'(1) v(2)] obtain q Z n where q: "sub_broker s1 = Some bk" "sub_proxy s1 = Some q" "ab_proxies B q = Some Z" "ax_active Z"
      "ax_id Z = sub_id s1" "sub_channel_name s1 = Some n" "q \<in> set (members B n)" by blast
    have "q \<noteq> p"
    proof
      assume "q = p"
      with q(3,5) p br_invD(3) [OF inv s(1,2)] s(3) have "sub_id s1 = sub_id s" by auto
      with br_invD(4) [OF inv v'(1) s(1) v(2) s(2)] v'(2) show False by blast
    qed
    with q same [of q] mem [of q n] show ?thesis by auto
  qed
qed

text \<open>
  After \<open>subscription_unsubscribe\<close> the proxy is freed with the messages of its inbox, and is a member of no channel.  When a
  node for the lookup or for the walk over the subscribers cannot be had, the proxy stays in its channel, inactive.
\<close>

lemma unsubscribe_spec:
  assumes rep: "br_rep b bk B" and s: "ab_subscriptions B u = Some s" "sub_active s"
  shows "\<exists>b' B' p Y. subscription_unsubscribe (Some u) b = Some (0, b') \<and> br_rep b' bk B' \<and> sub_proxy s = Some p \<and> ab_proxies B p = Some Y
    \<and> ab_subscriptions B' = (ab_subscriptions B)(u \<mapsto> s\<lparr>sub_active := False, sub_proxy := NULL\<rparr>)
    \<and> (if refused (arena (table_heap b)) \<or> refused (arena (subscribers (channel_heap b)))
       then ab_proxies B' = (ab_proxies B)(p \<mapsto> Y\<lparr>ax_active := False\<rparr>) \<and> (\<forall>n. members B' n = members B n)
       else ab_proxies B' = (ab_proxies B)(p := None) \<and> (\<forall>n. members B' n = removeAll p (members B n)))
    \<and> ab_held B' = ab_held B \<and> ab_tasks B' = ab_tasks B \<and> ab_off B' = ab_off B
    \<and> ab_next_subscriber B' = ab_next_subscriber B \<and> ab_next_message B' = ab_next_message B" (is "\<exists>b' B' p Y. ?P b' B' p Y")
proof -
  obtain t q as where R: "brokers b bk = Some \<lparr>mb_publisher_pool = Some q, mb_channels = Some t, mb_channels_mutex = Unlocked,
         mb_next_subscriber_id = ab_next_subscriber B, mb_next_message_id = ab_next_message B\<rparr>"
    "pools b q = Some \<lparr>po_off = ab_off B, po_tasks = map Some as\<rparr>" "distinct as" "dom (task_args b) = set as"
    "map (task_args b) as = map (\<lambda>p. Some (task_of t bk p)) (ab_tasks B)"
    "tb_rep (table_heap b) t (ab_table B) (ab_channels B) (ab_proxies B) (ab_held B)"
    "br_inv bk B" "subscriptions b = ab_subscriptions B"
    "dom (subscriptions b) \<subseteq> {..ticks (br_arena b)}" "dom (task_args b) \<subseteq> {..ticks (br_arena b)}"
    by (rule br_repE [OF rep])
  from br_invD(3) [OF R(7) s] obtain p Y n where p: "sub_broker s = Some bk" "sub_proxy s = Some p" "ab_proxies B p = Some Y" "ax_active Y"
      "ax_id Y = sub_id s" "sub_channel_name s = Some n" "p \<in> set (members B n)" by blast
  obtain c E where c: "find_channel (ab_table B) n = Some c" "ab_channels B c = Some E" "p \<in> set (ac_proxies E)"
    using p(7) by (rule members_ofE)
  have sb: "subscriptions b u = Some s" using s(1) R(8) by simp
  have only: "\<forall>q Z. ab_proxies B q = Some Z \<longrightarrow> ax_id Z = sub_id s \<longrightarrow> q = p"
    using br_invD(2) [OF R(7) _ p(3)] p(5) by auto
  let ?bad = "refused (arena (table_heap b)) \<or> refused (arena (subscribers (channel_heap b)))"
  let ?E = "E\<lparr>ac_proxies := remove1 p (ac_proxies E)\<rparr>"
  obtain h' where h': "subscription_unsubscribe (Some u) b = Some (0,
      b\<lparr>table_heap := h', subscriptions := (subscriptions b)(u \<mapsto> s\<lparr>sub_active := False, sub_proxy := NULL\<rparr>)\<rparr>)"
    "if ?bad then tb_rep h' t (ab_table B) (ab_channels B) ((ab_proxies B)(p \<mapsto> Y\<lparr>ax_active := False\<rparr>)) (ab_held B)
       else tb_rep h' t (ab_table B) ((ab_channels B)(c \<mapsto> ?E)) ((ab_proxies B)(p := None)) (ab_held B)"
    using unsubscribe_steps [OF R(1) _ _ R(6) sb s(2) p(1,2,6,3,5,7) only c(1,2)] by auto
  define b' where "b' = b\<lparr>table_heap := h', subscriptions := (subscriptions b)(u \<mapsto> s\<lparr>sub_active := False, sub_proxy := NULL\<rparr>)\<rparr>"
  define S' where "S' = (ab_subscriptions B)(u \<mapsto> s\<lparr>sub_active := False, sub_proxy := NULL\<rparr>)"
  have keep: "br_rep b' bk (B\<lparr>ab_channels := C', ab_proxies := X', ab_subscriptions := S'\<rparr>)"
    if "tb_rep h' t (ab_table B) C' X' (ab_held B)" "br_inv bk (B\<lparr>ab_channels := C', ab_proxies := X', ab_subscriptions := S'\<rparr>)" for C' X'
    by (rule br_repI [where q = q and t = t and as = as])
      (use R that sb in \<open>auto simp: b'_def S'_def dom_fun_upd\<close>)
  show ?thesis
  proof (cases ?bad)
    case True
    let ?B = "B\<lparr>ab_channels := ab_channels B, ab_proxies := (ab_proxies B)(p \<mapsto> Y\<lparr>ax_active := False\<rparr>), ab_subscriptions := S'\<rparr>"
    have "br_inv bk ?B" by (rule br_inv_unsubscribe [OF R(7) s p(2,3)]) (auto simp: S'_def)
    then have "br_rep b' bk ?B" using h'(2) True by (intro keep) simp_all
    then have "?P b' ?B p Y" using h'(1) p(2,3) True by (simp add: b'_def S'_def)
    then show ?thesis by blast
  next
    case False
    let ?B = "B\<lparr>ab_channels := (ab_channels B)(c \<mapsto> ?E), ab_proxies := (ab_proxies B)(p := None), ab_subscriptions := S'\<rparr>"
    obtain M where inv: "ch_inv (channels (channel_heap b)) (ab_channels B) (ab_proxies B)" using tb_repD(2) [OF R(6)] by (rule ch_repE)
    have other: "p \<notin> set (members B m)" if "c_str m \<noteq> c_str n" for m
      using ch_invD(5) [OF inv _ c(2) _ c(3)] find_channel_name [OF R(6) c(1), of m] that by (auto elim: members_ofE)
    have mem: "members ?B m = removeAll p (members B m)" for m
    proof (cases "c_str m = c_str n")
      case True
      with c find_channel_name [OF R(6) c(1), of m] distinct_remove1_removeAll [OF ch_invD(3) [OF inv c(2)], of p]
      show ?thesis by (simp add: members_of_def)
    next
      case False
      with members_of_change [OF R(6) c(1), of ?E m] other [OF False] show ?thesis by (simp add: removeAll_id)
    qed
    have "br_inv bk ?B" by (rule br_inv_unsubscribe [OF R(7) s p(2,3)]) (use mem in \<open>auto simp: S'_def\<close>)
    then have "br_rep b' bk ?B" using h'(2) False by (intro keep) simp_all
    then have "?P b' ?B p Y" using h'(1) p(2,3) False mem by (simp add: b'_def S'_def)
    then show ?thesis by blast
  qed
qed

lemma subscription_free_spec:
  assumes rep: "br_rep b bk B" and s: "ab_subscriptions B u = Some s" "\<not> sub_active s"
  shows "\<exists>b'. subscription_free (Some u) b = Some (0, b') \<and> br_rep b' bk (B\<lparr>ab_subscriptions := (ab_subscriptions B)(u := None)\<rparr>)"
proof -
  obtain t q as where R: "brokers b bk = Some \<lparr>mb_publisher_pool = Some q, mb_channels = Some t, mb_channels_mutex = Unlocked,
         mb_next_subscriber_id = ab_next_subscriber B, mb_next_message_id = ab_next_message B\<rparr>"
    "pools b q = Some \<lparr>po_off = ab_off B, po_tasks = map Some as\<rparr>" "distinct as" "dom (task_args b) = set as"
    "map (task_args b) as = map (\<lambda>p. Some (task_of t bk p)) (ab_tasks B)"
    "tb_rep (table_heap b) t (ab_table B) (ab_channels B) (ab_proxies B) (ab_held B)"
    "br_inv bk B" "subscriptions b = ab_subscriptions B"
    "dom (subscriptions b) \<subseteq> {..ticks (br_arena b)}" "dom (task_args b) \<subseteq> {..ticks (br_arena b)}"
    by (rule br_repE [OF rep])
  let ?B = "B\<lparr>ab_subscriptions := (ab_subscriptions B)(u := None)\<rparr>" and ?b = "b\<lparr>subscriptions := (subscriptions b)(u := None)\<rparr>"
  have "subscription_free (Some u) b = Some (0, ?b)" using s R(8) by (simp add: subscription_free_def)
  moreover have "br_inv bk ?B"
  proof (rule br_invI)
    show "v = v'" if "ab_subscriptions ?B v = Some s1" "ab_subscriptions ?B v' = Some s2" "sub_active s1" "sub_active s2" "sub_id s1 = sub_id s2" for v v' s1 s2
      using that br_invD(4) [OF R(7), of v s1 v' s2] by (auto split: if_splits)
  qed (use br_invD(1,2,3) [OF R(7)] in \<open>simp_all split: if_splits\<close>)
  then have "br_rep ?b bk ?B" using R by (intro br_repI [where q = q and t = t and as = as]) auto
  ultimately show ?thesis by blast
qed

section \<open>Out of memory\<close>

text \<open>
  When the table has no node for a new channel, \<open>generic_hash_table_insert\<close> has freed the channel by its callback before it
  returns, and the caller frees it once more.
\<close>

lemma insert_frees_channel:
  assumes rep: "tb_rep h t A C X D" and g: "\<not> refused (arena h)" "refused (tick (arena h))" "grants 4 (ch_arena (world h))"
    "grants 3 (arena (subscribers (world h)))"
  shows "\<exists>c w h'. channel_new (Some name) (Some NULL) (world h) = Some (0, Some (Some c), w)
    \<and> generic_hash_table_insert (Some t) (Some name) (Some c) (h\<lparr>world := w\<rparr>) = Some (-1, h')
    \<and> channels (world h') c = None"
proof -
  have g3: "grants 3 (ch_arena (world h))" by (rule grants_mono [OF g(3)]) simp
  let ?E = "\<lparr>ac_name = c_str name, ac_proxies = []\<rparr>"
  obtain c w where cw: "channel_new (Some name) (Some NULL) (world h) = Some (0, Some (Some c), w)" "C c = None"
    "ch_rep w (C(c \<mapsto> ?E)) X D" "ch_arena w = (tick ^^ 3) (ch_arena (world h))"
    using channel_new_spec [OF tb_repD(2) [OF rep] g3 g(4), of name NULL] by blast
  note cb = tb_repD(3) [OF rep, unfolded broker_callbacks_def]
  let ?w = "w\<lparr>ch_arena := tick (ch_arena w)\<rparr>"
  have "\<not> refused (ch_arena w)" using grants_nth [OF g(3), of 3] cw(4) by simp
  then have ck: "at_copy_key A (Some name) w = Some (0, Some (c_str name), ?w)" using cb by (simp add: key_copy_def string_copy_def)
  have cv: "at_copy_value A (Some c) ?w = Some (0, Some c, ?w)" using cb by (simp add: channel_copy_def)
  have "ch_rep ?w (C(c \<mapsto> ?E)) X D" using ch_rep_arena [OF cw(3)] by simp
  from channel_free_spec [OF this, of c ?E] obtain w3 where w3: "channel_free (Some c) ?w = Some w3"
    "ch_rep w3 ((C(c \<mapsto> ?E))(c := None)) (X |` (- {})) D" by auto
  have fv: "at_free_value A (Some c) ?w = Some w3" using cb w3(1) by (simp add: channel_free_wrapper_def)
  have fk: "at_free_key A (Some (c_str name)) w3 = Some w3" using cb by (simp add: key_free_def string_free_def)
  have none: "channels w3 c = None"
  proof (rule ccontr)
    assume "channels w3 c \<noteq> None"
    moreover obtain M where "owns (map_option ch_subscriber_proxies \<circ> channels w3) M (map_option (\<lambda>A. proxy_list (ac_proxies A)) \<circ> (C(c \<mapsto> ?E))(c := None))"
      by (rule ch_repE [OF w3(2)])
    ultimately show False by (auto elim!: ownsE [where q = c])
  qed
  have "ht_rep (h\<lparr>world := w\<rparr>) [t \<mapsto> A]" using tb_repD(1) [OF rep] by simp
  moreover have "[t \<mapsto> A] t = Some A" by simp
  ultimately obtain M G r g' where "bucket_view (h\<lparr>world := w\<rparr>) [t \<mapsto> A] t A M G r g'" by (rule bucket_viewE)
  from insert_node_refused [OF this, of "Some name" "Some (c_str name)" ?w "Some c" "Some c" ?w w3 w3] g(1,2) ck cv fv fk none cw(1)
  show ?thesis by auto
qed

lemma subscribe_double_free:
  assumes rep: "br_rep b bk B" and new: "find_channel (ab_table B) name = NULL"
    and g: "\<not> refused (arena (table_heap b))" "\<not> refused (tick (arena (table_heap b)))" "refused (tick (tick (arena (table_heap b))))"
      "grants 4 (ch_arena (channel_heap b))" "grants 3 (arena (subscribers (channel_heap b)))"
  shows "message_broker_subscribe (Some bk) (Some name) (Some v) b = None"
proof -
  obtain t q as where R: "brokers b bk = Some \<lparr>mb_publisher_pool = Some q, mb_channels = Some t, mb_channels_mutex = Unlocked,
         mb_next_subscriber_id = ab_next_subscriber B, mb_next_message_id = ab_next_message B\<rparr>"
    and tb: "tb_rep (table_heap b) t (ab_table B) (ab_channels B) (ab_proxies B) (ab_held B)"
    by (rule br_repE [OF rep])
  obtain h1 where h1: "generic_hash_table_get (Some t) (Some name) (Some NULL) (table_heap b) = Some (1, Some NULL, h1)"
    "tb_rep h1 t (ab_table B) (ab_channels B) (ab_proxies B) (ab_held B)" "world h1 = channel_heap b" "arena h1 = tick (arena (table_heap b))"
    using get_channel [OF tb g(1), of name] new by auto
  obtain c w h2 where h2: "channel_new (Some name) (Some NULL) (world h1) = Some (0, Some (Some c), w)"
    "generic_hash_table_insert (Some t) (Some name) (Some c) (h1\<lparr>world := w\<rparr>) = Some (-1, h2)" "channels (world h2) c = None"
    using insert_frees_channel [OF h1(2), of name] g h1(3,4) by auto
  show ?thesis using R h1(1) h2 by (simp add: message_broker_subscribe_def channel_free_def)
qed

lemma publish_double_free:
  assumes rep: "br_rep b bk B" and tasks: "ab_tasks B = p # ps" and new: "find_channel (ab_table B) (pub_channel p) = NULL"
    and g: "\<not> refused (arena (table_heap b))" "\<not> refused (tick (arena (table_heap b)))" "refused (tick (tick (arena (table_heap b))))"
      "grants 4 (ch_arena (channel_heap b))" "grants 3 (arena (subscribers (channel_heap b)))"
  shows "dispatch (Some bk) b = None"
proof -
  obtain t q as where R: "brokers b bk = Some \<lparr>mb_publisher_pool = Some q, mb_channels = Some t, mb_channels_mutex = Unlocked,
         mb_next_subscriber_id = ab_next_subscriber B, mb_next_message_id = ab_next_message B\<rparr>"
    "pools b q = Some \<lparr>po_off = ab_off B, po_tasks = map Some as\<rparr>" "map (task_args b) as = map (\<lambda>p. Some (task_of t bk p)) (ab_tasks B)"
    and tb: "tb_rep (table_heap b) t (ab_table B) (ab_channels B) (ab_proxies B) (ab_held B)"
    by (rule br_repE [OF rep])
  obtain a as' where as: "as = a # as'" "task_args b a = Some (task_of t bk p)" using R(3) tasks by (cases as) auto
  let ?name = "pub_channel p"
  obtain h1 where h1: "generic_hash_table_get (Some t) (Some ?name) (Some NULL) (table_heap b) = Some (1, Some NULL, h1)"
    "tb_rep h1 t (ab_table B) (ab_channels B) (ab_proxies B) (ab_held B)" "world h1 = channel_heap b" "arena h1 = tick (arena (table_heap b))"
    using get_channel [OF tb g(1), of ?name] new by auto
  obtain c w h2 where h2: "channel_new (Some ?name) (Some NULL) (world h1) = Some (0, Some (Some c), w)"
    "generic_hash_table_insert (Some t) (Some ?name) (Some c) (h1\<lparr>world := w\<rparr>) = Some (-1, h2)" "channels (world h2) c = None"
    using insert_frees_channel [OF h1(2), of ?name] g h1(3,4) by auto
  show ?thesis using R(1,2) as h1(1) h2 by (simp add: dispatch_def publisher_task_def task_of_def channel_free_def)
qed

text \<open>
  When the lookup itself has no memory its error is taken for an absent channel: a second channel is put before the one with the
  subscribers, which get neither this publication nor a later one.
\<close>

lemma publish_shadows:
  assumes rep: "br_rep b bk B" and tasks: "ab_tasks B = p # ps"
    and g: "refused (arena (table_heap b))" "grants 2 (tick (arena (table_heap b)))" "grants 4 (ch_arena (channel_heap b))"
      "grants 3 (arena (subscribers (channel_heap b)))"
  shows "\<exists>b' t A C. dispatch (Some bk) b = Some b' \<and> tb_rep (table_heap b') t A C (ab_proxies B) (ab_held B)
    \<and> members_of A C (pub_channel p) = []"
proof -
  obtain t q as where R: "brokers b bk = Some \<lparr>mb_publisher_pool = Some q, mb_channels = Some t, mb_channels_mutex = Unlocked,
         mb_next_subscriber_id = ab_next_subscriber B, mb_next_message_id = ab_next_message B\<rparr>"
    "pools b q = Some \<lparr>po_off = ab_off B, po_tasks = map Some as\<rparr>" "map (task_args b) as = map (\<lambda>p. Some (task_of t bk p)) (ab_tasks B)"
    and tb: "tb_rep (table_heap b) t (ab_table B) (ab_channels B) (ab_proxies B) (ab_held B)"
    by (rule br_repE [OF rep])
  obtain a as' where as: "as = a # as'" "task_args b a = Some (task_of t bk p)" using R(3) tasks by (cases as) auto
  let ?name = "pub_channel p" and ?E = "\<lparr>ac_name = c_str (pub_channel p), ac_proxies = []\<rparr>"
  obtain h1 where h1: "generic_hash_table_get (Some t) (Some ?name) (Some NULL) (table_heap b) = Some (-1, Some NULL, h1)"
    "tb_rep h1 t (ab_table B) (ab_channels B) (ab_proxies B) (ab_held B)" "world h1 = channel_heap b" "arena h1 = tick (arena (table_heap b))"
    using get_channel_refused [OF tb g(1), of ?name] by auto
  have g2: "grants 2 (arena h1)" "grants 4 (ch_arena (world h1))" "grants 3 (arena (subscribers (world h1)))" using g h1(3,4) by simp_all
  obtain c w h2 A' where cr: "channel_new (Some ?name) (Some NULL) (world h1) = Some (0, Some (Some c), w)" "ab_channels B c = None"
      "generic_hash_table_insert (Some t) (Some ?name) (Some c) (h1\<lparr>world := w\<rparr>) = Some (0, h2)"
      "tb_rep h2 t A' ((ab_channels B)(c \<mapsto> ?E)) (ab_proxies B) (ab_held B)"
      "\<forall>n. find_channel A' n = (if c_str n = c_str ?name then Some c else find_channel (ab_table B) n)"
    using create_channel [OF h1(2) g2, of ?name] by blast
  let ?C = "(ab_channels B)(c \<mapsto> ?E)"
  obtain w' where w': "deliver (pub_id p) (Some ?name) (Some (pub_content p)) (Some c) (world h2) = Some w'" "ch_rep w' ?C (ab_proxies B) (ab_held B)"
    using deliver_spec [OF tb_repD(2) [OF cr(4)], of c ?E "pub_id p" ?name "pub_content p"] by auto
  have "\<exists>b'. dispatch (Some bk) b = Some b' \<and> table_heap b' = h2\<lparr>world := w'\<rparr>"
    using R(1,2) as h1(1) cr(1,3) w'(1) by (simp add: dispatch_def publisher_task_def task_of_def)
  then obtain b' where b': "dispatch (Some bk) b = Some b'" "table_heap b' = h2\<lparr>world := w'\<rparr>" by blast
  have "tb_rep (table_heap b') t A' ?C (ab_proxies B) (ab_held B)" using tb_rep_delivered [OF cr(4) w'(2)] b'(2) by simp
  moreover have "members_of A' ?C ?name = []" using cr(5) by (simp add: members_of_def)
  ultimately show ?thesis using b'(1) by blast
qed

section \<open>From a publisher to a subscriber\<close>

lemma plenty_mono: "plenty n b \<Longrightarrow> m \<le> n \<Longrightarrow> plenty m b"
  unfolding plenty_def by (auto elim: grants_mono)

lemma plenty_published:
  assumes "plenty (n + 5) b" and "table_heap b' = table_heap b" and "br_arena b' = (tick ^^ 5) (br_arena b)"
  shows "plenty n b'"
proof -
  have "grants n ((tick ^^ 5) A)" if "grants (n + 5) A" for A using that by (simp add: eval_nat_numeral grants_Suc)
  moreover have "plenty n b" by (rule plenty_mono [OF assms(1)]) simp
  ultimately show ?thesis using assms unfolding plenty_def by auto
qed

lemma publish_receive:
  assumes rep: "br_rep b bk B" and s: "ab_subscriptions B u = Some s" "sub_active s" "sub_proxy s = Some p" "sub_channel_name s = Some name"
    and same: "c_str channel = c_str name" and p: "ab_proxies B p = Some Y" "ax_msgs Y = []"
    and idle: "ab_tasks B = []" "\<not> ab_off B" and g: "plenty (9 + 3 * length (members B channel)) b"
  shows "\<exists>b1 b2 b3 m. message_broker_publish (Some bk) (Some channel) (Some content) b = Some (0, b1)
    \<and> dispatch (Some bk) b1 = Some b2 \<and> subscription_receive (Some u) (Some v) b2 = Some (0, Some (Some m), b3)
    \<and> message_get_id (Some m) (Some i) (message_heap (broker_proxies b3)) = Some (0, Some (ab_next_message B))
    \<and> message_get_channel (Some m) (Some c) (message_heap (broker_proxies b3)) = Some (0, Some (Some (c_str channel)))
    \<and> message_get_content (Some m) (Some d) (message_heap (broker_proxies b3)) = Some (0, Some (Some (c_str content)))"
proof -
  let ?p = "\<lparr>pub_id = ab_next_message B, pub_channel = c_str channel, pub_content = c_str content\<rparr>"
  let ?msg = "new_message (ab_next_message B) channel content"
  note px = br_rep_px [OF rep]
  have act: "ax_active Y" "p \<in> set (members B name)" using br_invD(3) [OF px(3) s(1,2)] s(3,4) p(1) by auto
  obtain t where cb: "tb_rep (table_heap b) t (ab_table B) (ab_channels B) (ab_proxies B) (ab_held B)" by (rule br_repE [OF rep])
  have mem: "members B channel = members B name" "members B (c_str channel) = members B channel"
    by (rule members_of_cong [OF tb_repD(3) [OF cb]]; simp add: same)+
  have "grants 5 (br_arena b)" using g unfolding plenty_def by (auto elim: grants_mono)
  then obtain b1 where b1: "message_broker_publish (Some bk) (Some channel) (Some content) b = Some (0, b1)"
    "br_rep b1 bk (B\<lparr>ab_tasks := [?p], ab_next_message := ab_next_message B + 1\<rparr>)" "table_heap b1 = table_heap b"
    "br_arena b1 = (tick ^^ 5) (br_arena b)"
    using publish_spec [OF rep idle(2), of channel content] idle(1) by auto
  let ?B1 = "B\<lparr>ab_tasks := [?p], ab_next_message := ab_next_message B + 1\<rparr>"
  have "plenty ((4 + 3 * length (members B channel)) + 5) b" using g by (simp add: add.commute)
  then have g1: "plenty (4 + 3 * length (members ?B1 (pub_channel ?p))) b1"
    using plenty_published [OF _ b1(3,4)] mem(2) by simp
  obtain b2 B2 where b2: "dispatch (Some bk) b1 = Some b2" "br_rep b2 bk B2" "ab_subscriptions B2 = ab_subscriptions B"
    "ab_proxies B2 = delivered ?msg (set (members B channel)) (ab_proxies B)"
    using dispatch_spec [OF b1(2) _ g1] mem(2) by auto
  have p2: "ab_proxies B2 p = Some (Y\<lparr>ax_msgs := [?msg]\<rparr>)" using act mem(1) p by (simp add: b2(4) delivered_def)
  have s2: "ab_subscriptions B2 u = Some s" using s(1) b2(3) by simp
  obtain m b3 where b3: "subscription_receive (Some u) (Some v) b2 = Some (0, Some (Some m), b3)"
    "br_rep b3 bk (B2\<lparr>ab_proxies := (ab_proxies B2)(p \<mapsto> Y\<lparr>ax_msgs := []\<rparr>), ab_held := (ab_held B2)(m \<mapsto> ?msg)\<rparr>)"
    using receive_spec [OF b2(2) s2 s(2,3) p2, of ?msg "[]" v] act(1) by auto
  have "px_rep (broker_proxies b3) ((ab_proxies B2)(p \<mapsto> Y\<lparr>ax_msgs := []\<rparr>)) ((ab_held B2)(m \<mapsto> ?msg))"
    using br_rep_px(1) [OF b3(2)] by simp
  from message_getters_spec [OF this, of m ?msg] b1(1) b2(1) b3(1) show ?thesis by auto
qed

section \<open>What runs need\<close>

text \<open>A message that was received is freed: the broker is the one without it.\<close>

lemma held_free:
  assumes rep: "br_rep b bk (B\<lparr>ab_proxies := X, ab_held := D(m \<mapsto> a)\<rparr>)" and new: "D m = None"
  shows "\<exists>mw. message_free (Some m) (message_heap (broker_proxies b)) = Some (0, mw)
    \<and> br_rep (set_broker_proxies (set_message_heap mw (broker_proxies b)) b) bk (B\<lparr>ab_proxies := X, ab_held := D\<rparr>)"
proof -
  let ?B = "B\<lparr>ab_proxies := X, ab_held := D(m \<mapsto> a)\<rparr>"
  have px: "px_rep (broker_proxies b) X (D(m \<mapsto> a))" using br_rep_px(1) [OF rep] by simp
  obtain mw where mw: "message_free (Some m) (message_heap (broker_proxies b)) = Some (0, mw)"
    "px_rep (set_message_heap mw (broker_proxies b)) X ((D(m \<mapsto> a))(m := None))"
    using message_free_spec [OF px, of m a] by auto
  have "(D(m \<mapsto> a))(m := None) = D" using new by (auto simp: fun_upd_idem_iff)
  with mw br_rep_proxies [OF rep, of "set_message_heap mw (broker_proxies b)" X D] show ?thesis by auto
qed

text \<open>A channel has no more members than there are proxies.\<close>

lemma members_card:
  assumes rep: "br_rep b bk B"
  shows "length (members B n) \<le> card (dom (proxies (broker_proxies b)))"
proof -
  obtain t where tb: "tb_rep (table_heap b) t (ab_table B) (ab_channels B) (ab_proxies B) (ab_held B)" by (rule br_repE [OF rep])
  obtain M where ci: "ch_inv (channels (channel_heap b)) (ab_channels B) (ab_proxies B)" using tb_repD(2) [OF tb] by (rule ch_repE)
  note px = br_rep_px(1) [OF rep]
  have "dom (proxies (broker_proxies b)) \<subseteq> {..ticks (px_arena (broker_proxies b))}" using px unfolding px_rep_def by blast
  then have fin: "finite (dom (proxies (broker_proxies b)))" by (rule finite_subset) simp
  have sub: "set (members B n) \<subseteq> dom (proxies (broker_proxies b))"
  proof
    fix p assume "p \<in> set (members B n)"
    then obtain c E where "ab_channels B c = Some E" "p \<in> set (ac_proxies E)" by (rule members_ofE)
    then obtain Y where "ab_proxies B p = Some Y" using ch_invD(4) [OF ci] by blast
    with px_rep_proxy [OF px] show "p \<in> dom (proxies (broker_proxies b))" by blast
  qed
  have "distinct (members B n)"
    unfolding members_of_def using ch_invD(3) [OF ci] by (auto split: option.splits)
  then have "length (members B n) = card (set (members B n))" by (simp add: distinct_card)
  with card_mono [OF fin sub] show ?thesis by simp
qed

end
