(* ===== verification/Broker_Runs.thy ===== *)
theory Broker_Runs
  imports Broker_Specs
begin

text \<open>
  The broker at work: runs in which publications, deliveries, subscriptions, receptions and cancellations follow each other in any order, one call after the other.  The
  pool carries out one publication after the other.  A subscriber receives as the threads of \<^verbatim>\<open>src/main.c\<close> do.
\<close>

section \<open>A subscriber\<close>

text \<open>A turn of the loop of \<open>subscriber_thread\<close> in \<^verbatim>\<open>main.c\<close>, with the message it prints.\<close>

definition subscriber_turn :: "addr ptr \<Rightarrow> broker_store \<Rightarrow> (message_t option \<times> broker_store) option" where
  "subscriber_turn subscription b = do {
     (exit_code, field, b) \<leftarrow> subscription_try_receive subscription (Some NULL) b;
     msg \<leftarrow> field;
     if exit_code = 0 \<and> msg \<noteq> NULL then do {
       (_, id_field) \<leftarrow> message_get_id msg (Some 0) (message_heap (broker_proxies b));
       msg_id \<leftarrow> id_field;
       (_, content_field) \<leftarrow> message_get_content msg (Some NULL) (message_heap (broker_proxies b));
       content \<leftarrow> content_field;
       (_, channel_field) \<leftarrow> message_get_channel msg (Some NULL) (message_heap (broker_proxies b));
       channel \<leftarrow> channel_field;
       (_, mw) \<leftarrow> message_free msg (message_heap (broker_proxies b));
       Some (Some \<lparr>msg_id = msg_id, msg_channel_name = channel, msg_content = content\<rparr>,
         set_broker_proxies (set_message_heap mw (broker_proxies b)) b) }
     else Some (None, b) }"

section \<open>Runs\<close>

datatype broker_event = Publish string string | Deliver | Subscribe string | Poll addr | Unsubscribe addr

datatype broker_observation = Accepted string string | Got addr message_t | Cancelled addr | Silent

definition broker_turn :: "addr \<Rightarrow> broker_event \<Rightarrow> broker_store \<Rightarrow> (broker_observation \<times> broker_store) option" where
  "broker_turn bk e b = (case e of
     Publish channel content \<Rightarrow> do {
       (exit_code, b) \<leftarrow> message_broker_publish (Some bk) (Some channel) (Some content) b;
       Some (if exit_code = 0 then Accepted channel content else Silent, b) }
   | Deliver \<Rightarrow> do {
       b \<leftarrow> dispatch (Some bk) b;
       Some (Silent, b) }
   | Subscribe channel \<Rightarrow> do {
       (_, _, b) \<leftarrow> message_broker_subscribe (Some bk) (Some channel) (Some NULL) b;
       Some (Silent, b) }
   | Poll u \<Rightarrow> do {
       (m, b) \<leftarrow> subscriber_turn (Some u) b;
       Some (case m of None \<Rightarrow> Silent | Some m \<Rightarrow> Got u m, b) }
   | Unsubscribe u \<Rightarrow> do {
       (_, b) \<leftarrow> subscription_unsubscribe (Some u) b;
       Some (Cancelled u, b) })"

text \<open>There is memory for the next turn, whichever it is.\<close>

definition roomy :: "addr \<Rightarrow> broker_store \<Rightarrow> bool" where
  "roomy bk b \<longleftrightarrow> plenty (10 + 3 * card (dom (proxies (broker_proxies b)))) b
     \<and> (\<forall>r. brokers b bk = Some r \<longrightarrow> mb_next_subscriber_id r \<noteq> - 1)"

text \<open>A run from \<open>b0\<close>, with the states in which its turns began and what was observed, oldest first.\<close>

inductive broker_runs :: "addr \<Rightarrow> broker_store \<Rightarrow> broker_store list \<Rightarrow> broker_observation list \<Rightarrow> broker_store \<Rightarrow> bool" for bk b0 where
  start: "broker_runs bk b0 [] [] b0"
| turn: "broker_runs bk b0 bs os b \<Longrightarrow> broker_turn bk e b = Some (ob, b') \<Longrightarrow> broker_runs bk b0 (bs @ [b]) (os @ [ob]) b'"

text \<open>The subscription that the event names exists.\<close>

fun known :: "abroker \<Rightarrow> broker_event \<Rightarrow> bool" where
  "known B (Poll u) \<longleftrightarrow> ab_subscriptions B u \<noteq> None"
| "known B (Unsubscribe u) \<longleftrightarrow> ab_subscriptions B u \<noteq> None"
| "known B _ \<longleftrightarrow> True"

text \<open>What a subscription got, what was accepted for a channel, and what is still on its way to a subscription: its inbox, then the
  pending publications of its channel.\<close>

definition payload :: "message_t \<Rightarrow> string ptr \<times> string ptr" where
  "payload m = (msg_channel_name m, msg_content m)"

definition matches :: "string ptr \<Rightarrow> string \<Rightarrow> bool" where
  "matches name channel = (case name of NULL \<Rightarrow> False | Some n \<Rightarrow> c_str n = c_str channel)"

fun received :: "addr \<Rightarrow> broker_observation list \<Rightarrow> (string ptr \<times> string ptr) list" where
  "received u [] = []"
| "received u (Got v m # os) = (if v = u then [payload m] else []) @ received u os"
| "received u (_ # os) = received u os"

fun accepted :: "string ptr \<Rightarrow> broker_observation list \<Rightarrow> (string ptr \<times> string ptr) list" where
  "accepted name [] = []"
| "accepted name (Accepted c s # os) = (if matches name c then [(Some (c_str c), Some (c_str s))] else []) @ accepted name os"
| "accepted name (_ # os) = accepted name os"

definition inbox_of :: "abroker \<Rightarrow> subscription_t \<Rightarrow> message_t list" where
  "inbox_of B s = (case Option.bind (sub_proxy s) (ab_proxies B) of None \<Rightarrow> [] | Some Y \<Rightarrow> ax_msgs Y)"

definition outstanding :: "abroker \<Rightarrow> subscription_t \<Rightarrow> (string ptr \<times> string ptr) list" where
  "outstanding B s = map payload (inbox_of B s)
     @ map (\<lambda>p. (Some (c_str (pub_channel p)), Some (c_str (pub_content p)))) (filter (\<lambda>p. matches (sub_channel_name s) (pub_channel p)) (ab_tasks B))"

text \<open>What turns with the observations \<open>os\<close> do to the subscriptions.\<close>

definition turns_ok :: "broker_observation list \<Rightarrow> abroker \<Rightarrow> abroker \<Rightarrow> bool" where
  "turns_ok os B B' \<longleftrightarrow> (\<forall>u s. ab_subscriptions B u = Some s \<longrightarrow> sub_active s \<longrightarrow> Cancelled u \<notin> set os \<longrightarrow>
     ab_subscriptions B' u = Some s \<and> received u os @ outstanding B' s = outstanding B s @ accepted (sub_channel_name s) os)"

abbreviation turn_ok :: "broker_observation \<Rightarrow> abroker \<Rightarrow> abroker \<Rightarrow> bool" where
  "turn_ok ob \<equiv> turns_ok [ob]"

lemma turn_okI:
  assumes "\<And>u s. ab_subscriptions B u = Some s \<Longrightarrow> sub_active s \<Longrightarrow> ob \<noteq> Cancelled u \<Longrightarrow>
      ab_subscriptions B' u = Some s \<and> received u [ob] @ outstanding B' s = outstanding B s @ accepted (sub_channel_name s) [ob]"
  shows "turn_ok ob B B'"
  using assms unfolding turns_ok_def by auto

lemma received_append: "received u (xs @ ys) = received u xs @ received u ys"
  by (induction u xs rule: received.induct) simp_all

lemma accepted_append: "accepted n (xs @ ys) = accepted n xs @ accepted n ys"
  by (induction n xs rule: accepted.induct) simp_all

lemma turns_ok_trans:
  assumes first: "turns_ok xs B B1" and second: "turns_ok ys B1 B2"
  shows "turns_ok (xs @ ys) B B2"
  unfolding turns_ok_def
proof (intro allI impI)
  fix u s assume s: "ab_subscriptions B u = Some s" "sub_active s" "Cancelled u \<notin> set (xs @ ys)"
  then have one: "ab_subscriptions B1 u = Some s" "received u xs @ outstanding B1 s = outstanding B s @ accepted (sub_channel_name s) xs"
    using first unfolding turns_ok_def by auto
  with s second have "ab_subscriptions B2 u = Some s" "received u ys @ outstanding B2 s = outstanding B1 s @ accepted (sub_channel_name s) ys"
    unfolding turns_ok_def by auto
  with one show "ab_subscriptions B2 u = Some s \<and> received u (xs @ ys) @ outstanding B2 s = outstanding B s @ accepted (sub_channel_name s) (xs @ ys)"
    by (metis append_assoc received_append accepted_append)
qed

lemma active_proxy:
  assumes "br_rep b bk B" and "ab_subscriptions B u = Some s" and "sub_active s"
  obtains p Y n where "sub_proxy s = Some p" and "ab_proxies B p = Some Y" and "ax_active Y" and "ax_id Y = sub_id s"
    and "sub_channel_name s = Some n" and "p \<in> set (members B n)"
  using br_invD(3) [OF br_rep_px(3) [OF assms(1)] assms(2,3)] that by blast

lemma active_proxies_differ:
  assumes "br_rep b bk B" and "ab_subscriptions B u = Some s" "sub_active s" and "ab_subscriptions B v = Some s'" "sub_active s'" and "sub_proxy s = sub_proxy s'"
  shows "u = v"
proof -
  obtain p Y where "sub_proxy s = Some p" "ab_proxies B p = Some Y" "ax_id Y = sub_id s" by (rule active_proxy [OF assms(1-3)])
  moreover obtain q Z where "sub_proxy s' = Some q" "ab_proxies B q = Some Z" "ax_id Z = sub_id s'" by (rule active_proxy [OF assms(1,4,5)])
  ultimately have "sub_id s = sub_id s'" using assms(6) by simp
  then show ?thesis by (rule br_invD(4) [OF br_rep_px(3) [OF assms(1)] assms(2,4,3,5)])
qed

lemma member_channel:
  assumes rep: "br_rep b bk B" and "p \<in> set (members B n)" and "p \<in> set (members B m)"
  shows "c_str n = c_str m"
proof -
  obtain t where tb: "tb_rep (table_heap b) t (ab_table B) (ab_channels B) (ab_proxies B) (ab_held B)" by (rule br_repE [OF rep])
  obtain M where ci: "ch_inv (channels (channel_heap b)) (ab_channels B) (ab_proxies B)" using tb_repD(2) [OF tb] by (rule ch_repE)
  obtain c E where c: "find_channel (ab_table B) n = Some c" "ab_channels B c = Some E" "p \<in> set (ac_proxies E)" by (rule members_ofE [OF assms(2)])
  obtain d F where d: "find_channel (ab_table B) m = Some d" "ab_channels B d = Some F" "p \<in> set (ac_proxies F)" by (rule members_ofE [OF assms(3)])
  have "c = d" using ci c(2,3) d(2,3) unfolding ch_inv_def by blast
  with find_channel_name [OF tb d(1), of n] c(1) show ?thesis by simp
qed

lemma members_cong:
  assumes "br_rep b bk B" and "c_str n = c_str m"
  shows "members B n = members B m"
proof -
  obtain t where "tb_rep (table_heap b) t (ab_table B) (ab_channels B) (ab_proxies B) (ab_held B)" by (rule br_repE [OF assms(1)])
  from members_of_cong [OF tb_repD(3) [OF this] assms(2)] show ?thesis .
qed

section \<open>Every turn is safe and keeps what is on its way\<close>

lemma publish_turn:
  assumes rep: "br_rep b bk B"
  shows "\<exists>ob b' B'. broker_turn bk (Publish c s) b = Some (ob, b') \<and> br_rep b' bk B' \<and> turn_ok ob B B'"
proof (cases "ab_off B \<or> \<not> grants 5 (br_arena b)")
  case True
  from publish_refused [OF rep this, of c s] obtain b' e n where "message_broker_publish (Some bk) (Some c) (Some s) b = Some (e, b')" "e \<noteq> 0"
    "br_rep b' bk (B\<lparr>ab_next_message := n\<rparr>)" by blast
  moreover have "turn_ok Silent B (B\<lparr>ab_next_message := n\<rparr>)"
    by (rule turn_okI) (auto simp: outstanding_def inbox_of_def)
  ultimately show ?thesis by (auto simp: broker_turn_def)
next
  case False
  let ?p = "\<lparr>pub_id = ab_next_message B, pub_channel = c_str c, pub_content = c_str s\<rparr>"
  let ?B = "B\<lparr>ab_tasks := ab_tasks B @ [?p], ab_next_message := ab_next_message B + 1\<rparr>"
  from False publish_spec [OF rep, of c s] obtain b' where "message_broker_publish (Some bk) (Some c) (Some s) b = Some (0, b')" "br_rep b' bk ?B" by blast
  moreover have "turn_ok (Accepted c s) B ?B"
    by (rule turn_okI) (auto simp: outstanding_def inbox_of_def matches_def split: option.splits)
  ultimately show ?thesis by (auto simp: broker_turn_def)
qed

lemma deliver_turn:
  assumes rep: "br_rep b bk B" and room: "roomy bk b"
  shows "\<exists>ob b' B'. broker_turn bk Deliver b = Some (ob, b') \<and> br_rep b' bk B' \<and> turn_ok ob B B'"
proof (cases "ab_tasks B")
  case Nil
  obtain t q as where "brokers b bk = Some \<lparr>mb_publisher_pool = Some q, mb_channels = Some t, mb_channels_mutex = Unlocked,
       mb_next_subscriber_id = ab_next_subscriber B, mb_next_message_id = ab_next_message B\<rparr>"
    "pools b q = Some \<lparr>po_off = ab_off B, po_tasks = map Some as\<rparr>"
    "map (task_args b) as = map (\<lambda>p. Some (task_of t bk p)) (ab_tasks B)" by (rule br_repE [OF rep])
  with Nil have "dispatch (Some bk) b = Some b" by (simp add: dispatch_def)
  with rep show ?thesis by (intro exI [of _ Silent] exI [of _ b] exI [of _ B]) (simp add: broker_turn_def turns_ok_def)
next
  case (Cons p ps)
  let ?m = "new_message (pub_id p) (pub_channel p) (pub_content p)" and ?P = "set (members B (pub_channel p))"
  have "plenty (4 + 3 * length (members B (pub_channel p))) b"
    using room members_card [OF rep, of "pub_channel p"] unfolding roomy_def by (auto elim: plenty_mono)
  from dispatch_spec [OF rep Cons this] obtain b' B' where b': "dispatch (Some bk) b = Some b'" "br_rep b' bk B'"
    and B': "ab_proxies B' = delivered ?m ?P (ab_proxies B)" "ab_subscriptions B' = ab_subscriptions B" "ab_tasks B' = ps" "ab_off B' = ab_off B" by blast
  have "outstanding B' s = outstanding B s" if s: "ab_subscriptions B u = Some s" "sub_active s" for u s
  proof -
    obtain q Y n where q: "sub_proxy s = Some q" "ab_proxies B q = Some Y" "ax_active Y" "sub_channel_name s = Some n" "q \<in> set (members B n)"
      by (rule active_proxy [OF rep s])
    have "q \<in> ?P \<longleftrightarrow> c_str n = c_str (pub_channel p)"
      using member_channel [OF rep q(5), of "pub_channel p"] members_cong [OF rep, of n "pub_channel p"] q(5) by metis
    then have "q \<in> ?P \<longleftrightarrow> matches (sub_channel_name s) (pub_channel p)" using q(4) by (simp add: matches_def)
    then show ?thesis using q Cons B' by (auto simp: outstanding_def inbox_of_def delivered_def payload_def)
  qed
  then have "turn_ok Silent B B'" by (intro turn_okI) (auto simp: B'(2))
  with b' show ?thesis by (auto simp: broker_turn_def)
qed

lemma subscribe_turn:
  assumes rep: "br_rep b bk B" and room: "roomy bk b"
  shows "\<exists>ob b' B'. broker_turn bk (Subscribe c) b = Some (ob, b') \<and> br_rep b' bk B' \<and> turn_ok ob B B'"
proof -
  have "plenty 10 b" using room unfolding roomy_def by (auto elim: plenty_mono)
  moreover have "ab_next_subscriber B \<noteq> - 1" using room unfolding roomy_def by (rule_tac br_repE [OF rep]) auto
  ultimately obtain u p b' B' where b': "message_broker_subscribe (Some bk) (Some c) (Some NULL) b = Some (0, Some (Some u), b')" "br_rep b' bk B'"
    and new: "ab_subscriptions B u = None" "ab_proxies B p = None"
    and B': "ab_subscriptions B' = (ab_subscriptions B)(u \<mapsto> \<lparr>sub_id = ab_next_subscriber B, sub_channel_name = Some (c_str c),
         sub_broker = Some bk, sub_proxy = Some p, sub_active = True\<rparr>)"
      "ab_proxies B' = (ab_proxies B)(p \<mapsto> \<lparr>ax_id = ab_next_subscriber B, ax_active = True, ax_msgs = []\<rparr>)" "ab_tasks B' = ab_tasks B" "ab_off B' = ab_off B"
    using subscribe_spec [OF rep, of c NULL] by blast
  have "turn_ok Silent B B'"
  proof (rule turn_okI)
    fix v s assume s: "ab_subscriptions B v = Some s" "sub_active s"
    obtain q Y where "sub_proxy s = Some q" "ab_proxies B q = Some Y" by (rule active_proxy [OF rep s])
    with new s(1) show "ab_subscriptions B' v = Some s \<and> received v [Silent] @ outstanding B' s = outstanding B s @ accepted (sub_channel_name s) [Silent]"
      by (auto simp: outstanding_def inbox_of_def B')
  qed
  with b' show ?thesis by (auto simp: broker_turn_def)
qed

lemma unsubscribe_turn:
  assumes rep: "br_rep b bk B" and v: "ab_subscriptions B v = Some sv"
  shows "\<exists>ob b' B'. broker_turn bk (Unsubscribe v) b = Some (ob, b') \<and> br_rep b' bk B' \<and> turn_ok ob B B'"
proof (cases "sub_active sv")
  case False
  have "subscription_unsubscribe (Some v) b = Some (1, b)"
    using False v br_rep_px(2) [OF rep] by (simp add: subscription_unsubscribe_def subscription_at_def)
  with rep show ?thesis by (intro exI [of _ "Cancelled v"] exI [of _ b] exI [of _ B]) (simp add: broker_turn_def turns_ok_def)
next
  case True
  obtain b' B' p Y where b': "subscription_unsubscribe (Some v) b = Some (0, b')" "br_rep b' bk B'" and p: "sub_proxy sv = Some p" "ab_proxies B p = Some Y"
    and B': "ab_subscriptions B' = (ab_subscriptions B)(v \<mapsto> sv\<lparr>sub_active := False, sub_proxy := NULL\<rparr>)" "ab_tasks B' = ab_tasks B" "ab_off B' = ab_off B"
    and px: "ab_proxies B' = (ab_proxies B)(p \<mapsto> Y\<lparr>ax_active := False\<rparr>) \<or> ab_proxies B' = (ab_proxies B)(p := None)"
    using unsubscribe_spec [OF rep v True] by (auto split: if_splits)
  have "turn_ok (Cancelled v) B B'"
  proof (rule turn_okI)
    fix u s assume s: "ab_subscriptions B u = Some s" "sub_active s" "Cancelled v \<noteq> Cancelled u"
    then have "sub_proxy s \<noteq> Some p" using active_proxies_differ [OF rep s(1,2) v True] p(1) by auto
    then have "inbox_of B' s = inbox_of B s" using px by (cases "sub_proxy s") (auto simp: inbox_of_def)
    then show "ab_subscriptions B' u = Some s \<and> received u [Cancelled v] @ outstanding B' s = outstanding B s @ accepted (sub_channel_name s) [Cancelled v]"
      using s by (simp add: outstanding_def B')
  qed
  with b' show ?thesis by (auto simp: broker_turn_def)
qed

text \<open>A subscriber that polls takes the oldest message of its inbox, if there is one.\<close>

lemma subscriber_turn_spec:
  assumes rep: "br_rep b bk B" and u: "ab_subscriptions B u = Some s" "sub_active s" "sub_proxy s = Some p" and p: "ab_proxies B p = Some Y" "ax_msgs Y = a # as"
  shows "\<exists>b'. subscriber_turn (Some u) b = Some (Some a, b') \<and> br_rep b' bk (B\<lparr>ab_proxies := (ab_proxies B)(p \<mapsto> Y\<lparr>ax_msgs := as\<rparr>)\<rparr>)"
proof -
  have act: "ax_active Y" using br_invD(3) [OF br_rep_px(3) [OF rep] u(1,2)] u(3) p(1) by auto
  obtain m b1 where b1: "subscription_try_receive (Some u) (Some NULL) b = Some (0, Some (Some m), b1)" "ab_held B m = None"
    "br_rep b1 bk (B\<lparr>ab_proxies := (ab_proxies B)(p \<mapsto> Y\<lparr>ax_msgs := as\<rparr>), ab_held := (ab_held B)(m \<mapsto> a)\<rparr>)"
    using receive_spec [OF rep u p(1) act p(2)] by blast
  have "px_rep (broker_proxies b1) ((ab_proxies B)(p \<mapsto> Y\<lparr>ax_msgs := as\<rparr>)) ((ab_held B)(m \<mapsto> a))" using br_rep_px(1) [OF b1(3)] by simp
  note get = message_getters_spec [OF this, of m a]
  obtain mw where mw: "message_free (Some m) (message_heap (broker_proxies b1)) = Some (0, mw)"
    "br_rep (set_broker_proxies (set_message_heap mw (broker_proxies b1)) b1) bk (B\<lparr>ab_proxies := (ab_proxies B)(p \<mapsto> Y\<lparr>ax_msgs := as\<rparr>)\<rparr>)"
    using held_free [OF b1(3,2)] by auto
  have "subscriber_turn (Some u) b = Some (Some a, set_broker_proxies (set_message_heap mw (broker_proxies b1)) b1)"
    using b1(1) get mw(1) by (simp add: subscriber_turn_def)
  with mw(2) show ?thesis by blast
qed

lemma poll_turn:
  assumes rep: "br_rep b bk B" and v: "ab_subscriptions B v = Some sv"
  shows "\<exists>ob b' B'. broker_turn bk (Poll v) b = Some (ob, b') \<and> br_rep b' bk B' \<and> turn_ok ob B B'"
proof (cases "sub_active sv")
  case False
  have "subscriber_turn (Some v) b = Some (None, b)"
    using False v br_rep_px(2) [OF rep] by (simp add: subscriber_turn_def subscription_try_receive_def subscription_at_def)
  with rep show ?thesis by (intro exI [of _ Silent] exI [of _ b] exI [of _ B]) (simp add: broker_turn_def turns_ok_def)
next
  case True
  obtain p Y where p: "sub_proxy sv = Some p" "ab_proxies B p = Some Y" "ax_active Y" by (rule active_proxy [OF rep v True])
  show ?thesis
  proof (cases "ax_msgs Y")
    case Nil
    obtain b' where "subscription_try_receive (Some v) (Some NULL) b = Some (1, Some NULL, b')" "br_rep b' bk B"
      using receive_empty(1) [OF rep v True p(1,2,3) Nil] by blast
    then show ?thesis by (intro exI [of _ Silent] exI [of _ b'] exI [of _ B]) (simp add: broker_turn_def subscriber_turn_def turns_ok_def)
  next
    case (Cons a as)
    let ?B = "B\<lparr>ab_proxies := (ab_proxies B)(p \<mapsto> Y\<lparr>ax_msgs := as\<rparr>)\<rparr>"
    obtain b' where b': "subscriber_turn (Some v) b = Some (Some a, b')" "br_rep b' bk ?B"
      using subscriber_turn_spec [OF rep v True p(1,2) Cons] by blast
    have "received u [Got v a] @ outstanding ?B s = outstanding B s @ accepted (sub_channel_name s) [Got v a]"
      if s: "ab_subscriptions B u = Some s" "sub_active s" for u s
    proof (cases "u = v")
      case True
      with s v p Cons show ?thesis by (auto simp: outstanding_def inbox_of_def)
    next
      case False
      then have "sub_proxy s \<noteq> Some p" using active_proxies_differ [OF rep s v True] p(1) by auto
      then have "inbox_of ?B s = inbox_of B s" by (cases "sub_proxy s") (auto simp: inbox_of_def)
      with False show ?thesis by (simp add: outstanding_def)
    qed
    then have "turn_ok (Got v a) B ?B" by (intro turn_okI) auto
    with b' show ?thesis by (auto simp: broker_turn_def)
  qed
qed

lemma broker_turn_ok:
  assumes "br_rep b bk B" and "roomy bk b" and "known B e"
  shows "\<exists>ob b' B'. broker_turn bk e b = Some (ob, b') \<and> br_rep b' bk B' \<and> turn_ok ob B B'"
proof (cases e)
  case (Poll u)
  with assms(3) poll_turn [OF assms(1)] show ?thesis by auto
next
  case (Unsubscribe u)
  with assms(3) unsubscribe_turn [OF assms(1)] show ?thesis by auto
qed (use publish_turn [OF assms(1)] deliver_turn [OF assms(1,2)] subscribe_turn [OF assms(1,2)] in auto)

text \<open>A turn that has a result names a subscription that exists.\<close>

lemma turn_known:
  assumes "br_rep b bk B" and "broker_turn bk e b = Some r"
  shows "known B e"
proof -
  have "subscriptions b = ab_subscriptions B" by (rule br_rep_px(2) [OF assms(1)])
  with assms(2) show ?thesis
    by (cases e) (auto simp: broker_turn_def subscriber_turn_def subscription_try_receive_def subscription_unsubscribe_def bind_eq_Some_conv split: if_splits)
qed

lemma broker_runs_ok:
  assumes "broker_runs bk b0 bs os b" and "br_rep b0 bk B0" and "\<forall>t \<in> set bs. roomy bk t"
  shows "\<exists>B. br_rep b bk B \<and> turns_ok os B0 B"
  using assms
proof (induction rule: broker_runs.induct)
  case start
  then show ?case by (intro exI [of _ B0]) (simp add: turns_ok_def)
next
  case (turn bs os b e ob b')
  then obtain B where B: "br_rep b bk B" "turns_ok os B0 B" by auto
  have "roomy bk b" using turn.prems(2) by simp
  from broker_turn_ok [OF B(1) this turn_known [OF B(1) turn.hyps(2)]] turn.hyps(2) obtain B' where "br_rep b' bk B'" "turn_ok ob B B'" by auto
  with turns_ok_trans [OF B(2)] show ?case by blast
qed

end
