(* ===== verification/Pool_Lifecycle.thy ===== *)
theory Pool_Lifecycle
  imports Queue_Syn
begin

text \<open>
  \<^verbatim>\<open>src/thread_pool.c\<close>: the creation and the release of a pool, over the blocks they allocate: the structure, the queue of tasks, the
  mutex, the two condition variables, the array of threads and the tasks that are still in the queue.

  What the dispatchers and their clients do between the two is the subject of \<^verbatim>\<open>Thread_Pool\<close>.  Here a dispatcher runs from its creation
  until it has been told to leave: the flag \<open>_off\<close> is stored and the condition \<open>_new_task\<close> is broadcast after that.  Only then
  does \<open>pthread_join\<close> return; joining a dispatcher that was not told to leave blocks for ever, and joining one twice is undefined, both of which are \<open>None\<close>.
  A dispatcher reads its pool until it has been joined, so that destroying or freeing a part of the pool before is undefined as well.
\<close>

section \<open>Structures\<close>

record pool_struct =
  pl_queue_syn :: "addr ptr"
  pl_mutex :: "addr ptr"
  pl_new_task :: "addr ptr"
  pl_task_done :: "addr ptr"
  pl_on :: bool
  pl_off :: bool
  pl_in_flight :: size_t
  pl_n_threads :: size_t
  pl_dispatcher_threads :: "addr ptr"

datatype dispatcher_state = Running | Leaving | Joined

record dispatcher_thread =
  dp_pool :: addr
  dp_state :: dispatcher_state

record pool_task =
  pt_function :: "addr ptr"
  pt_arg :: "addr ptr"

text \<open>
  A mutex or a condition variable that was not initialised is \<open>None\<close>.  A thread is known by its number in \<open>dispatchers\<close>, the threads ever created; the array of a
  pool has these numbers, and \<open>None\<close> where nothing was stored.
\<close>

record pool_store =
  pool_structs :: "addr \<rightharpoonup> pool_struct"
  pool_mutexes :: "addr \<rightharpoonup> pthread_mutex_t option"
  pool_conds :: "addr \<rightharpoonup> unit option"
  pool_threads :: "addr \<rightharpoonup> nat option list"
  dispatchers :: "dispatcher_thread list"
  pool_tasks :: "addr \<rightharpoonup> pool_task"
  task_queue :: "(addr, unit) qs_heap"

abbreviation pool_arena :: "pool_store \<Rightarrow> allocator" where
  "pool_arena s \<equiv> arena (task_queue s)"

section \<open>Accesses\<close>

definition draw :: "pool_store \<Rightarrow> addr ptr \<times> pool_store" where
  "draw s = (case malloc (pool_arena s) of (p, A) \<Rightarrow> (p, s\<lparr>task_queue := (task_queue s)\<lparr>arena := A\<rparr>\<rparr>))"

definition request :: "pool_store \<Rightarrow> exit_code \<times> pool_store" where
  "request s = (case sys_init (pool_arena s) of (r, A) \<Rightarrow> (r, s\<lparr>task_queue := (task_queue s)\<lparr>arena := A\<rparr>\<rparr>))"

definition pool_at :: "pool_store \<Rightarrow> addr ptr \<Rightarrow> pool_struct option" where
  "pool_at s p = Option.bind p (pool_structs s)"

definition modify_pool :: "addr ptr \<Rightarrow> (pool_struct \<Rightarrow> pool_struct) \<Rightarrow> pool_store \<Rightarrow> pool_store option" where
  "modify_pool p f s = do {
     a \<leftarrow> p;
     r \<leftarrow> pool_structs s a;
     Some (s\<lparr>pool_structs := (pool_structs s)(a \<mapsto> f r)\<rparr>) }"

text \<open>Some dispatcher of the pool has not been joined.\<close>

definition busy :: "addr \<Rightarrow> pool_store \<Rightarrow> bool" where
  "busy a s = list_ex (\<lambda>d. dp_pool d = a \<and> dp_state d \<noteq> Joined) (dispatchers s)"

definition free_pool :: "addr ptr \<Rightarrow> pool_store \<Rightarrow> pool_store option" where
  "free_pool p s = do {
     a \<leftarrow> p;
     _ \<leftarrow> pool_structs s a;
     if busy a s then None else Some (s\<lparr>pool_structs := (pool_structs s)(a := None)\<rparr>) }"

definition malloc_pool :: "pool_store \<Rightarrow> addr ptr \<times> pool_store" where
  "malloc_pool s = (case draw s of
     (NULL, s) \<Rightarrow> (NULL, s)
   | (Some a, s) \<Rightarrow> (Some a, s\<lparr>pool_structs := (pool_structs s)(a \<mapsto> \<lparr>pl_queue_syn = NULL, pl_mutex = NULL, pl_new_task = NULL,
       pl_task_done = NULL, pl_on = False, pl_off = False, pl_in_flight = 0, pl_n_threads = 0, pl_dispatcher_threads = NULL\<rparr>)\<rparr>))"

definition malloc_mutex :: "pool_store \<Rightarrow> addr ptr \<times> pool_store" where
  "malloc_mutex s = (case draw s of
     (NULL, s) \<Rightarrow> (NULL, s)
   | (Some a, s) \<Rightarrow> (Some a, s\<lparr>pool_mutexes := (pool_mutexes s)(a \<mapsto> None)\<rparr>))"

definition set_pool_mutex :: "addr ptr \<Rightarrow> pthread_mutex_t option \<Rightarrow> pool_store \<Rightarrow> pool_store option" where
  "set_pool_mutex p m s = do {
     a \<leftarrow> p;
     _ \<leftarrow> pool_mutexes s a;
     Some (s\<lparr>pool_mutexes := (pool_mutexes s)(a \<mapsto> m)\<rparr>) }"

definition pool_mutex_at :: "pool_store \<Rightarrow> addr ptr \<Rightarrow> pthread_mutex_t option" where
  "pool_mutex_at s p = do {
     a \<leftarrow> p;
     m \<leftarrow> pool_mutexes s a;
     m }"

definition destroy_mutex :: "addr ptr \<Rightarrow> addr ptr \<Rightarrow> pool_store \<Rightarrow> pool_store option" where
  "destroy_mutex self p s = do {
     a \<leftarrow> self;
     m \<leftarrow> pool_mutex_at s p;
     _ \<leftarrow> pthread_mutex_destroy m;
     if busy a s then None else set_pool_mutex p None s }"

definition free_mutex :: "addr ptr \<Rightarrow> pool_store \<Rightarrow> pool_store option" where
  "free_mutex p s = do {
     a \<leftarrow> p;
     _ \<leftarrow> pool_mutexes s a;
     Some (s\<lparr>pool_mutexes := (pool_mutexes s)(a := None)\<rparr>) }"

definition malloc_cond :: "pool_store \<Rightarrow> addr ptr \<times> pool_store" where
  "malloc_cond s = (case draw s of
     (NULL, s) \<Rightarrow> (NULL, s)
   | (Some a, s) \<Rightarrow> (Some a, s\<lparr>pool_conds := (pool_conds s)(a \<mapsto> None)\<rparr>))"

definition set_cond :: "addr ptr \<Rightarrow> unit option \<Rightarrow> pool_store \<Rightarrow> pool_store option" where
  "set_cond p m s = do {
     a \<leftarrow> p;
     _ \<leftarrow> pool_conds s a;
     Some (s\<lparr>pool_conds := (pool_conds s)(a \<mapsto> m)\<rparr>) }"

definition destroy_cond :: "addr ptr \<Rightarrow> addr ptr \<Rightarrow> pool_store \<Rightarrow> pool_store option" where
  "destroy_cond self p s = do {
     a \<leftarrow> self;
     k \<leftarrow> p;
     c \<leftarrow> pool_conds s k;
     _ \<leftarrow> c;
     if busy a s then None else set_cond p None s }"

definition free_cond :: "addr ptr \<Rightarrow> pool_store \<Rightarrow> pool_store option" where
  "free_cond p s = do {
     a \<leftarrow> p;
     _ \<leftarrow> pool_conds s a;
     Some (s\<lparr>pool_conds := (pool_conds s)(a := None)\<rparr>) }"

text \<open>\<open>malloc (sizeof (pthread_t) * n_threads)\<close>: the product is taken modulo \<open>2 ^ 64\<close>.\<close>

definition malloc_threads :: "size_t \<Rightarrow> pool_store \<Rightarrow> addr ptr \<times> pool_store" where
  "malloc_threads n s = (case draw s of
     (NULL, s) \<Rightarrow> (NULL, s)
   | (Some a, s) \<Rightarrow> (Some a, s\<lparr>pool_threads := (pool_threads s)(a \<mapsto> replicate (unat (8 * n) div 8) None)\<rparr>))"

definition free_threads :: "addr ptr \<Rightarrow> pool_store \<Rightarrow> pool_store option" where
  "free_threads p s = do {
     a \<leftarrow> p;
     _ \<leftarrow> pool_threads s a;
     Some (s\<lparr>pool_threads := (pool_threads s)(a := None)\<rparr>) }"

text \<open>\<open>pthread_create (&threads[i], NULL, _dispatcher_function, self)\<close>, granted: the number of the new thread is stored in the array.\<close>

definition create_thread :: "addr ptr \<Rightarrow> addr ptr \<Rightarrow> nat \<Rightarrow> pool_store \<Rightarrow> pool_store option" where
  "create_thread self p i s = do {
     a \<leftarrow> self;
     t \<leftarrow> p;
     ts \<leftarrow> pool_threads s t;
     if i < length ts then Some (s\<lparr>pool_threads := (pool_threads s)(t \<mapsto> ts[i := Some (length (dispatchers s))]),
       dispatchers := dispatchers s @ [\<lparr>dp_pool = a, dp_state = Running\<rparr>]\<rparr>) else None }"

definition join_thread :: "addr ptr \<Rightarrow> nat \<Rightarrow> pool_store \<Rightarrow> pool_store option" where
  "join_thread p i s = do {
     t \<leftarrow> p;
     ts \<leftarrow> pool_threads s t;
     d \<leftarrow> (if i < length ts then ts ! i else None);
     if d < length (dispatchers s) \<and> dp_state (dispatchers s ! d) = Leaving
     then Some (s\<lparr>dispatchers := (dispatchers s)[d := (dispatchers s ! d)\<lparr>dp_state := Joined\<rparr>]\<rparr>) else None }"

definition free_task :: "addr ptr \<Rightarrow> pool_store \<Rightarrow> pool_store option" where
  "free_task p s = do {
     a \<leftarrow> p;
     _ \<leftarrow> pool_tasks s a;
     Some (s\<lparr>pool_tasks := (pool_tasks s)(a := None)\<rparr>) }"

definition free_task_queue :: "addr ptr \<Rightarrow> addr ptr \<Rightarrow> pool_store \<Rightarrow> pool_store option" where
  "free_task_queue self q s = do {
     a \<leftarrow> self;
     (_, h) \<leftarrow> generic_queue_syn_free q (task_queue s);
     if busy a s then None else Some (s\<lparr>task_queue := h\<rparr>) }"

text \<open>
  \<open>pthread_cond_broadcast (_new_task)\<close> under the mutex: the dispatchers that wait go on.  If \<open>_off\<close> is stored, these and the ones that do not wait find it
  stored when they test it next, and leave.
\<close>

definition wake :: "addr \<Rightarrow> dispatcher_thread list \<Rightarrow> dispatcher_thread list" where
  "wake a = map (\<lambda>d. if dp_pool d = a \<and> dp_state d = Running then d\<lparr>dp_state := Leaving\<rparr> else d)"

definition broadcast :: "addr ptr \<Rightarrow> pool_store \<Rightarrow> pool_store option" where
  "broadcast self s = do {
     a \<leftarrow> self;
     r \<leftarrow> pool_at s self;
     k \<leftarrow> pool_mutex_at s (pl_mutex r);
     k \<leftarrow> pthread_mutex_lock k;
     s \<leftarrow> set_pool_mutex (pl_mutex r) (Some k) s;
     c \<leftarrow> pl_new_task r;
     v \<leftarrow> pool_conds s c;
     _ \<leftarrow> v;
     let s = (if pl_off r then s\<lparr>dispatchers := wake a (dispatchers s)\<rparr> else s);
     k \<leftarrow> pthread_mutex_unlock k;
     set_pool_mutex (pl_mutex r) (Some k) s }"

section \<open>Creation\<close>

text \<open>What the failing branches of \<open>thread_pool_new\<close> have in common: they take back what was made, in the opposite order.\<close>

definition undo_queue :: "addr ptr \<Rightarrow> pool_store \<Rightarrow> pool_store option" where
  "undo_queue self s = do {
     r \<leftarrow> pool_at s self;
     s \<leftarrow> free_task_queue self (pl_queue_syn r) s;
     free_pool self s }"

definition undo_mutex :: "addr ptr \<Rightarrow> pool_store \<Rightarrow> pool_store option" where
  "undo_mutex self s = do {
     r \<leftarrow> pool_at s self;
     s \<leftarrow> destroy_mutex self (pl_mutex r) s;
     s \<leftarrow> free_mutex (pl_mutex r) s;
     undo_queue self s }"

definition undo_new_task :: "addr ptr \<Rightarrow> pool_store \<Rightarrow> pool_store option" where
  "undo_new_task self s = do {
     r \<leftarrow> pool_at s self;
     s \<leftarrow> destroy_cond self (pl_new_task r) s;
     s \<leftarrow> free_cond (pl_new_task r) s;
     undo_mutex self s }"

definition undo_task_done :: "addr ptr \<Rightarrow> pool_store \<Rightarrow> pool_store option" where
  "undo_task_done self s = do {
     r \<leftarrow> pool_at s self;
     s \<leftarrow> destroy_cond self (pl_task_done r) s;
     s \<leftarrow> free_cond (pl_task_done r) s;
     undo_new_task self s }"

partial_function (option) join_loop :: "addr ptr \<Rightarrow> nat \<Rightarrow> nat \<Rightarrow> pool_store \<Rightarrow> pool_store option" where
  "join_loop threads n i s =
     (if i < n then do {
        s \<leftarrow> join_thread threads i s;
        join_loop threads n (Suc i) s }
      else Some s)"

partial_function (option) create_loop :: "addr ptr \<Rightarrow> nat \<Rightarrow> pool_store \<Rightarrow> (exit_code \<times> pool_store) option" where
  "create_loop self i s = do {
     r \<leftarrow> pool_at s self;
     if i < unat (pl_n_threads r) then do {
       let (exit_code, s) = request s;
       if exit_code \<noteq> 0 then do {
         s \<leftarrow> modify_pool self (\<lambda>r. r\<lparr>pl_on := False\<rparr>) s;
         s \<leftarrow> modify_pool self (\<lambda>r. r\<lparr>pl_off := True\<rparr>) s;
         s \<leftarrow> broadcast self s;
         s \<leftarrow> join_loop (pl_dispatcher_threads r) i 0 s;
         s \<leftarrow> free_threads (pl_dispatcher_threads r) s;
         s \<leftarrow> undo_task_done self s;
         Some (exit_code, s) }
       else do {
         s \<leftarrow> create_thread self (pl_dispatcher_threads r) i s;
         create_loop self (Suc i) s } }
     else Some (0, s) }"

definition new_threads :: "addr ptr \<Rightarrow> size_t \<Rightarrow> addr ptr out \<Rightarrow> pool_store \<Rightarrow> (exit_code \<times> addr ptr out \<times> pool_store) option" where
  "new_threads self n_threads out_self s = do {
     let (threads, s) = malloc_threads n_threads s;
     s \<leftarrow> modify_pool self (\<lambda>r. r\<lparr>pl_dispatcher_threads := threads\<rparr>) s;
     if threads = NULL then do {
       s \<leftarrow> undo_task_done self s;
       Some (-1, out_self, s) }
     else do {
       s \<leftarrow> modify_pool self (\<lambda>r. r\<lparr>pl_on := True, pl_off := False, pl_in_flight := 0, pl_n_threads := n_threads\<rparr>) s;
       (exit_code, s) \<leftarrow> create_loop self 0 s;
       if exit_code \<noteq> 0 then Some (exit_code, out_self, s) else Some (0, Some self, s) } }"

definition new_task_done :: "addr ptr \<Rightarrow> size_t \<Rightarrow> addr ptr out \<Rightarrow> pool_store \<Rightarrow> (exit_code \<times> addr ptr out \<times> pool_store) option" where
  "new_task_done self n_threads out_self s = do {
     let (c, s) = malloc_cond s;
     s \<leftarrow> modify_pool self (\<lambda>r. r\<lparr>pl_task_done := c\<rparr>) s;
     if c = NULL then do {
       s \<leftarrow> undo_new_task self s;
       Some (-1, out_self, s) }
     else do {
       let (exit_code, s) = request s;
       if exit_code \<noteq> 0 then do {
         s \<leftarrow> free_cond c s;
         s \<leftarrow> undo_new_task self s;
         Some (exit_code, out_self, s) }
       else do {
         s \<leftarrow> set_cond c (Some ()) s;
         new_threads self n_threads out_self s } } }"

definition new_new_task :: "addr ptr \<Rightarrow> size_t \<Rightarrow> addr ptr out \<Rightarrow> pool_store \<Rightarrow> (exit_code \<times> addr ptr out \<times> pool_store) option" where
  "new_new_task self n_threads out_self s = do {
     let (c, s) = malloc_cond s;
     s \<leftarrow> modify_pool self (\<lambda>r. r\<lparr>pl_new_task := c\<rparr>) s;
     if c = NULL then do {
       s \<leftarrow> undo_mutex self s;
       Some (-1, out_self, s) }
     else do {
       let (exit_code, s) = request s;
       if exit_code \<noteq> 0 then do {
         s \<leftarrow> free_cond c s;
         s \<leftarrow> undo_mutex self s;
         Some (exit_code, out_self, s) }
       else do {
         s \<leftarrow> set_cond c (Some ()) s;
         new_task_done self n_threads out_self s } } }"

definition new_mutex :: "addr ptr \<Rightarrow> size_t \<Rightarrow> addr ptr out \<Rightarrow> pool_store \<Rightarrow> (exit_code \<times> addr ptr out \<times> pool_store) option" where
  "new_mutex self n_threads out_self s = do {
     let (m, s) = malloc_mutex s;
     s \<leftarrow> modify_pool self (\<lambda>r. r\<lparr>pl_mutex := m\<rparr>) s;
     if m = NULL then do {
       s \<leftarrow> undo_queue self s;
       Some (-1, out_self, s) }
     else do {
       let (exit_code, s) = request s;
       if exit_code \<noteq> 0 then do {
         s \<leftarrow> free_mutex m s;
         s \<leftarrow> undo_queue self s;
         Some (exit_code, out_self, s) }
       else do {
         s \<leftarrow> set_pool_mutex m (Some Unlocked) s;
         new_new_task self n_threads out_self s } } }"

definition thread_pool_new :: "size_t \<Rightarrow> addr ptr out \<Rightarrow> pool_store \<Rightarrow> (exit_code \<times> addr ptr out \<times> pool_store) option" where
  "thread_pool_new n_threads out_self s =
     (if out_self = NULL then Some (1, out_self, s)
      else if n_threads = 0 then Some (1, out_self, s)
      else do {
        let (self, s) = malloc_pool s;
        if self = NULL then Some (-1, out_self, s)
        else do {
          (exit_code, field, h) \<leftarrow> generic_queue_syn_new (Some NULL) (task_queue s);
          q \<leftarrow> field;
          s \<leftarrow> modify_pool self (\<lambda>r. r\<lparr>pl_queue_syn := q\<rparr>) (s\<lparr>task_queue := h\<rparr>);
          if exit_code \<noteq> 0 then do {
            s \<leftarrow> free_pool self s;
            Some (exit_code, out_self, s) }
          else new_mutex self n_threads out_self s } })"

section \<open>Release\<close>

definition pool_shutdown :: "addr ptr \<Rightarrow> pool_store \<Rightarrow> (exit_code, pool_store) res" where
  "pool_shutdown self s =
     (if self = NULL then Some (1, s)
      else do {
        s \<leftarrow> modify_pool self (\<lambda>r. r\<lparr>pl_on := False\<rparr>) s;
        s \<leftarrow> modify_pool self (\<lambda>r. r\<lparr>pl_off := True\<rparr>) s;
        r \<leftarrow> pool_at s self;
        s \<leftarrow> broadcast self s;
        s \<leftarrow> join_loop (pl_dispatcher_threads r) (unat (pl_n_threads r)) 0 s;
        Some (0, s) })"

partial_function (option) drain_loop :: "addr ptr \<Rightarrow> pool_store \<Rightarrow> pool_store option" where
  "drain_loop q s = do {
     (exit_code, field, h) \<leftarrow> generic_queue_syn_dequeue q (Some NULL) (task_queue s);
     task \<leftarrow> field;
     let s = s\<lparr>task_queue := h\<rparr>;
     if exit_code = 0 \<and> task \<noteq> NULL then do {
       s \<leftarrow> free_task task s;
       drain_loop q s }
     else Some s }"

definition thread_pool_free :: "addr ptr \<Rightarrow> pool_store \<Rightarrow> (exit_code, pool_store) res" where
  "thread_pool_free self s =
     (if self = NULL then Some (1, s)
      else do {
        r \<leftarrow> pool_at s self;
        s \<leftarrow> (if \<not> pl_off r then do { (_, s) \<leftarrow> pool_shutdown self s; Some s } else Some s);
        r \<leftarrow> pool_at s self;
        s \<leftarrow> drain_loop (pl_queue_syn r) s;
        s \<leftarrow> destroy_mutex self (pl_mutex r) s;
        s \<leftarrow> free_mutex (pl_mutex r) s;
        s \<leftarrow> destroy_cond self (pl_new_task r) s;
        s \<leftarrow> free_cond (pl_new_task r) s;
        s \<leftarrow> destroy_cond self (pl_task_done r) s;
        s \<leftarrow> free_cond (pl_task_done r) s;
        s \<leftarrow> free_task_queue self (pl_queue_syn r) s;
        s \<leftarrow> free_threads (pl_dispatcher_threads r) s;
        s \<leftarrow> free_pool self s;
        Some (0, s) })"

end
