(* ===== verification/Samples.thy ===== *)
theory Samples
  imports Queue_Syn Broker_Strings
begin

text \<open>
  Concrete heaps on which the theorems are applied: a list of two elements with two iterators
  on it, a queue and a synchronised queue that own such a list, a hash table with the
  broker's string callbacks and one pair.  Each comes with the proof that it represents the
  abstract content one expects.
\<close>

section \<open>A list\<close>

text \<open>A free callback that keeps a log of what it was given.\<close>

definition log_free :: "(nat, nat list) free_fn" where
  "log_free d w = Some (case d of NULL \<Rightarrow> w | Some x \<Rightarrow> w @ [x])"

definition sample_alloc :: allocator where
  "sample_alloc = \<lparr>ticks = 20, outcome = (\<lambda>_. 0)\<rparr>"

text \<open>An allocator that refuses every request from the \<open>n\<close>-th on.\<close>

definition failing_from :: "nat \<Rightarrow> allocator" where
  "failing_from n = \<lparr>ticks = 20, outcome = (\<lambda>i. if i < 20 + n then 0 else 12)\<rparr>"

definition sample_nodes :: "addr \<rightharpoonup> nat node_t" where
  "sample_nodes = [2 \<mapsto> \<lparr>node_data = NULL, node_next = Some 4, node_prev = NULL\<rparr>,
     4 \<mapsto> \<lparr>node_data = Some 10, node_next = Some 5, node_prev = Some 2\<rparr>,
     5 \<mapsto> \<lparr>node_data = Some 20, node_next = Some 3, node_prev = Some 4\<rparr>,
     3 \<mapsto> \<lparr>node_data = NULL, node_next = NULL, node_prev = Some 5\<rparr>]"

definition sample_lists :: "addr \<rightharpoonup> (nat, nat list) generic_linked_list_t" where
  "sample_lists = [11 \<mapsto> \<lparr>ll_size = 2, ll_head_guard = Some 2, ll_tail_guard = Some 3,
     ll_free_function = Some log_free, ll_copy_function = NULL\<rparr>]"

definition sample_content :: "(nat, nat list) alist" where
  "sample_content = \<lparr>al_items = [Some 10, Some 20], al_free = Some log_free, al_copy = NULL\<rparr>"

definition sample_list :: "allocator \<Rightarrow> (nat, nat list) ll_heap" where
  "sample_list A = \<lparr>nodes = sample_nodes, lists = sample_lists,
     iters = [6 \<mapsto> \<lparr>it_list = Some 11, it_current_node = Some 4\<rparr>,
              7 \<mapsto> \<lparr>it_list = Some 11, it_current_node = Some 3\<rparr>],
     arena = A, world = []\<rparr>"

text \<open>Two lists without callbacks: 11 holds one element, 12 is empty.\<close>

definition sample_plain :: "allocator \<Rightarrow> (nat, unit) ll_heap" where
  "sample_plain A = \<lparr>
     nodes = [2 \<mapsto> \<lparr>node_data = NULL, node_next = Some 4, node_prev = NULL\<rparr>,
              4 \<mapsto> \<lparr>node_data = Some 10, node_next = Some 3, node_prev = Some 2\<rparr>,
              3 \<mapsto> \<lparr>node_data = NULL, node_next = NULL, node_prev = Some 4\<rparr>,
              5 \<mapsto> \<lparr>node_data = NULL, node_next = Some 6, node_prev = NULL\<rparr>,
              6 \<mapsto> \<lparr>node_data = NULL, node_next = NULL, node_prev = Some 5\<rparr>],
     lists = [11 \<mapsto> \<lparr>ll_size = 1, ll_head_guard = Some 2, ll_tail_guard = Some 3,
                    ll_free_function = NULL, ll_copy_function = NULL\<rparr>,
              12 \<mapsto> \<lparr>ll_size = 0, ll_head_guard = Some 5, ll_tail_guard = Some 6,
                    ll_free_function = NULL, ll_copy_function = NULL\<rparr>],
     iters = Map.empty, arena = A, world = ()\<rparr>"

definition plain_content :: "nat ptr list \<Rightarrow> (nat, unit) alist" where
  "plain_content xs = \<lparr>al_items = xs, al_free = NULL, al_copy = NULL\<rparr>"

definition sample_queue :: "allocator \<Rightarrow> (nat, nat list) q_heap" where
  "sample_queue A = \<lparr>nodes = sample_nodes, lists = sample_lists, iters = Map.empty, arena = A, world = [],
     queues = [8 \<mapsto> \<lparr>q_list = Some 11\<rparr>]\<rparr>"

definition sample_syn :: "allocator \<Rightarrow> (nat, nat list) qs_heap" where
  "sample_syn A = \<lparr>nodes = sample_nodes, lists = sample_lists, iters = Map.empty, arena = A, world = [],
     queues = [8 \<mapsto> \<lparr>q_list = Some 11\<rparr>], syns = [9 \<mapsto> \<lparr>qs_queue = Some 8, qs_mutex = Unlocked\<rparr>]\<rparr>"

text \<open>A table of one bucket that binds \<open>''news''\<close> to 42.\<close>

definition sample_atable :: "(string, nat, allocator) atable" where
  "sample_atable = \<lparr>at_hash = string_hash, at_compare = string_compare, at_free_value = (\<lambda>v w. Some w),
     at_copy_value = channel_copy, at_free_key = string_free, at_copy_key = string_copy,
     at_buckets = [[(Some ''news'', Some 42)]]\<rparr>"

definition sample_table :: "allocator \<Rightarrow> (string, nat, allocator) ht_heap" where
  "sample_table A = \<lparr>
     nodes = [3 \<mapsto> \<lparr>node_data = NULL, node_next = Some 5, node_prev = NULL\<rparr>,
              5 \<mapsto> \<lparr>node_data = Some 6, node_next = Some 4, node_prev = Some 3\<rparr>,
              4 \<mapsto> \<lparr>node_data = NULL, node_next = NULL, node_prev = Some 5\<rparr>],
     lists = [2 \<mapsto> \<lparr>ll_size = 1, ll_head_guard = Some 3, ll_tail_guard = Some 4,
                   ll_free_function = NULL, ll_copy_function = NULL\<rparr>],
     iters = Map.empty, arena = A, world = sample_alloc,
     kvs = [6 \<mapsto> \<lparr>kv_key = Some ''news'', kv_value = Some 42\<rparr>],
     tables = [11 \<mapsto> \<lparr>ht_capacity = 1, ht_size = 1, ht_buckets = Some [Some 2], ht_mutexes = Some [Some Unlocked],
       ht_hash_function = Some string_hash, ht_free_value_function = Some (\<lambda>v w. Some w),
       ht_copy_value_function = Some channel_copy, ht_free_key_function = Some string_free,
       ht_copy_key_function = Some string_copy, ht_compare_key_function = Some string_compare\<rparr>]\<rparr>"

section \<open>They represent what one expects\<close>

lemma sample_alloc_grants [simp]: "n \<le> 1000 \<Longrightarrow> grants n sample_alloc" "\<not> refused sample_alloc"
  by (simp_all add: grants_def refused_def sample_alloc_def block_limit_def)

lemma ticks_sample_alloc [simp]: "ticks sample_alloc = 20"
  by (simp add: sample_alloc_def)

lemma failing_from_simps [simp]:
  "ticks (failing_from n) = 20" "refused (failing_from 0)" "\<not> refused (failing_from (Suc n))"
  "refused (tick (failing_from (Suc 0)))"
  by (simp_all add: failing_from_def refused_def block_limit_def)

lemma failing_from_2_grants [simp]: "\<not> grants 3 (failing_from 2)"
  by (simp add: not_grants_3) (simp add: failing_from_def refused_def block_limit_def)

lemma sample_simps [simp]:
  "arena (sample_list A) = A" "world (sample_list A) = []"
  "arena (sample_queue A) = A" "world (sample_queue A) = []"
  "arena (sample_syn A) = A" "world (sample_syn A) = []"
  "arena (sample_table A) = A" "world (sample_table A) = sample_alloc"
  "al_items sample_content = [Some 10, Some 20]" "al_free sample_content = Some log_free" "al_copy sample_content = NULL"
  "at_hash sample_atable = string_hash" "at_compare sample_atable = string_compare"
  "at_copy_key sample_atable = string_copy" "at_copy_value sample_atable = channel_copy"
  "at_free_key sample_atable = string_free" "at_free_value sample_atable = (\<lambda>v w. Some w)"
  "at_buckets sample_atable = [[(Some ''news'', Some 42)]]"
  by (simp_all add: sample_list_def sample_queue_def sample_syn_def sample_table_def sample_content_def sample_atable_def)

lemma sample_inv:
  assumes "dom J \<subseteq> {1..20}" and "20 \<le> n"
  shows "ll_inv sample_nodes sample_lists J n [11 \<mapsto> Shape 2 [(4, Some 10), (5, Some 20)] 3]"
proof -
  have "list_ok sample_nodes \<lparr>ll_size = 2, ll_head_guard = Some 2, ll_tail_guard = Some 3,
     ll_free_function = Some log_free, ll_copy_function = NULL\<rparr> (Shape 2 [(4, Some 10), (5, Some 20)] 3)"
    by (simp add: list_ok_def sample_nodes_def)
  moreover have "dom sample_nodes = {2, 3, 4, 5}" "dom sample_lists = {11}"
    by (auto simp: sample_nodes_def sample_lists_def)
  ultimately show ?thesis
    using assms by (auto 0 3 simp: ll_inv_def sample_lists_def block_limit_def split: if_splits)
qed

lemma sample_list_rep [simp]:
  assumes "20 \<le> ticks A"
  shows "ll_rep (sample_list A) [11 \<mapsto> sample_content] [6 \<mapsto> (11, 1), 7 \<mapsto> (11, 3)]"
proof -
  let ?P = "[11 \<mapsto> Shape 2 [(4, Some (10::nat)), (5, Some 20)] 3]"
  have "ll_inv (nodes (sample_list A)) (lists (sample_list A)) (iters (sample_list A)) (ticks (arena (sample_list A))) ?P"
    unfolding sample_list_def ll_heap.simps by (rule sample_inv) (use assms in auto)
  moreover have "iters_ok (iters (sample_list A)) ?P [6 \<mapsto> (11, 1), 7 \<mapsto> (11, 3)]"
    by (auto simp: iters_ok_def sample_list_def split: if_splits)
  moreover have "ll_abs (lists (sample_list A)) ?P = [11 \<mapsto> sample_content]"
    by (auto simp: ll_abs_def sample_list_def sample_lists_def sample_content_def fun_eq_iff)
  ultimately show ?thesis unfolding ll_rep_def by (intro exI [of _ ?P]) simp
qed

lemma sample_plain_rep [simp]:
  assumes "20 \<le> ticks A"
  shows "ll_rep (sample_plain A) [11 \<mapsto> plain_content [Some 10], 12 \<mapsto> plain_content []] Map.empty"
proof -
  let ?P = "[11 \<mapsto> Shape 2 [(4, Some (10::nat))] 3, 12 \<mapsto> Shape 5 [] 6]" and ?h = "sample_plain A"
  have "ll_inv (nodes ?h) (lists ?h) (iters ?h) (ticks (arena ?h)) ?P"
    using assms by (auto 0 3 simp: ll_inv_def list_ok_def sample_plain_def block_limit_def
      intro: exI [of _ 12] split: if_splits)
  moreover have "ll_abs (lists ?h) ?P = [11 \<mapsto> plain_content [Some 10], 12 \<mapsto> plain_content []]"
    by (auto simp: ll_abs_def sample_plain_def plain_content_def fun_eq_iff)
  ultimately show ?thesis unfolding ll_rep_def by (intro exI [of _ ?P]) (simp add: iters_ok_def)
qed

lemma sample_ll_rep:
  fixes h :: "(nat, nat list, 'z) llh"
  assumes "nodes h = sample_nodes" and "lists h = sample_lists" and "iters h = Map.empty" and "20 \<le> ticks (arena h)"
  shows "ll_rep h [11 \<mapsto> sample_content] Map.empty"
proof -
  let ?P = "[11 \<mapsto> Shape 2 [(4, Some (10::nat)), (5, Some 20)] 3]"
  have "ll_inv (nodes h) (lists h) (iters h) (ticks (arena h)) ?P"
    unfolding assms(1-3) by (rule sample_inv) (use assms(4) in auto)
  moreover have "ll_abs sample_lists ?P = [11 \<mapsto> sample_content]"
    by (auto simp: ll_abs_def sample_lists_def sample_content_def fun_eq_iff)
  ultimately show ?thesis unfolding ll_rep_def assms by (intro exI [of _ ?P]) (simp add: iters_ok_def assms)
qed

lemma sample_queue_rep [simp]:
  assumes "20 \<le> ticks A"
  shows "q_rep (sample_queue A) [8 \<mapsto> sample_content]"
proof -
  have "ll_rep (sample_queue A) [11 \<mapsto> sample_content] Map.empty"
    by (rule sample_ll_rep) (use assms in \<open>simp_all add: sample_queue_def\<close>)
  moreover have "q_link (queues (sample_queue A)) [11 \<mapsto> sample_content] [8 \<mapsto> sample_content]"
    by (auto simp: q_link_def owns_def sample_queue_def split: if_splits)
  ultimately show ?thesis using assms unfolding q_rep_def by (auto simp: sample_queue_def block_limit_def)
qed

lemma sample_syn_rep [simp]:
  assumes "20 \<le> ticks A"
  shows "qs_rep (sample_syn A) [9 \<mapsto> sample_content]"
proof -
  have "ll_rep (sample_syn A) [11 \<mapsto> sample_content] Map.empty"
    by (rule sample_ll_rep) (use assms in \<open>simp_all add: sample_syn_def\<close>)
  moreover have "q_link (queues (sample_syn A)) [11 \<mapsto> sample_content] [8 \<mapsto> sample_content]"
    by (auto simp: q_link_def owns_def sample_syn_def split: if_splits)
  ultimately have "q_rep (sample_syn A) [8 \<mapsto> sample_content]"
    using assms unfolding q_rep_def by (auto simp: sample_syn_def block_limit_def)
  moreover have "owns (map_option qs_queue \<circ> syns (sample_syn A)) [8 \<mapsto> sample_content] [9 \<mapsto> sample_content]"
    by (auto simp: owns_def sample_syn_def split: if_splits)
  ultimately show ?thesis using assms unfolding qs_rep_def by (auto simp: sample_syn_def block_limit_def)
qed

lemma sample_table_rep [simp]:
  assumes "20 \<le> ticks A"
  shows "ht_rep (sample_table A) [11 \<mapsto> sample_atable]"
proof -
  let ?P = "[2 \<mapsto> Shape 3 [(5, Some (6::addr))] 4]" and ?G = "[11 \<mapsto> Layout [2] [[6]]]"
  let ?M = "[2 \<mapsto> \<lparr>al_items = [Some 6], al_free = NULL, al_copy = NULL\<rparr>] :: addr \<rightharpoonup> (addr, allocator) alist"
  let ?h = "sample_table A"
  have "ll_inv (nodes ?h) (lists ?h) (iters ?h) (ticks (arena ?h)) ?P"
    using assms by (auto 0 3 simp: ll_inv_def list_ok_def sample_table_def block_limit_def split: if_splits)
  moreover have "ll_abs (lists ?h) ?P = ?M" by (auto simp: ll_abs_def sample_table_def fun_eq_iff)
  ultimately have "ll_rep ?h ?M Map.empty"
    unfolding ll_rep_def by (intro exI [of _ ?P]) (simp add: iters_ok_def)
  moreover have "ht_inv ?M (kvs ?h) (tables ?h) (ticks (arena ?h)) ?G [11 \<mapsto> sample_atable]"
    using assms by (auto simp: ht_inv_def table_ok_def bucket_ok_def sample_table_def sample_atable_def ht_count_def block_limit_def
      split: if_splits)
  ultimately show ?thesis unfolding ht_rep_def by (auto simp: sample_table_def)
qed

lemma sample_atable_lawful [simp]: "at_lawful sample_atable"
  using broker_keys.key_laws_axioms string_copy_same
  by (auto simp: at_lawful_def sample_atable_def string_free_def)

lemma sample_atable_stack [simp]: "ht_stack sample_atable (Some ''news'') = [Some 42]"
  by (simp add: ht_stack_def ht_bucket_def ht_index_def sample_atable_def string_compare_def)

end
