(* ===== verification/Pool_Specs.thy ===== *)
theory Pool_Specs
  imports Pool_Lifecycle Samples
begin

text \<open>
  What creating and releasing a thread pool does to its blocks: a pool is created completely or not at all, whichever request fails, and a pool that is
  released leaves no block of its own behind, its pending tasks included.
\<close>

section \<open>Blocks\<close>

lemmas pool_accesses [simp] = pool_at_def modify_pool_def free_pool_def set_pool_mutex_def pool_mutex_at_def destroy_mutex_def free_mutex_def
  set_cond_def destroy_cond_def free_cond_def free_threads_def free_task_queue_def

abbreviation ticked :: "pool_store \<Rightarrow> pool_store" where
  "ticked s \<equiv> s\<lparr>task_queue := (task_queue s)\<lparr>arena := tick (pool_arena s)\<rparr>\<rparr>"

lemma draw_simps [simp]:
  "refused (pool_arena s) \<Longrightarrow> draw s = (NULL, ticked s)" "\<not> refused (pool_arena s) \<Longrightarrow> draw s = (Some (Suc (ticks (pool_arena s))), ticked s)"
  by (simp_all add: draw_def)

lemma request_granted [simp]: "\<not> refused (pool_arena s) \<Longrightarrow> request s = (0, ticked s)"
  by (simp add: request_def)

lemma request_refused: "refused (pool_arena s) \<Longrightarrow> \<exists>e. request s = (e, ticked s) \<and> e \<noteq> 0"
  by (auto simp: request_def sys_init_def refused_def)

lemma qs_rep_tick: "qs_rep h S \<Longrightarrow> qs_rep (h\<lparr>arena := tick (arena h)\<rparr>) S"
  by (rule qs_rep_same) (auto intro: q_rep_cong)

abbreviation no_tasks :: "(addr, unit) alist" where
  "no_tasks \<equiv> \<lparr>al_items = [], al_free = NULL, al_copy = NULL\<rparr>"

text \<open>Whether a pool is busy depends on the threads alone.\<close>

lemma busy_simps [simp]:
  "busy a (s\<lparr>pool_structs := P\<rparr>) = busy a s" "busy a (s\<lparr>pool_mutexes := M\<rparr>) = busy a s" "busy a (s\<lparr>pool_conds := C\<rparr>) = busy a s"
  "busy a (s\<lparr>pool_threads := T\<rparr>) = busy a s" "busy a (s\<lparr>pool_tasks := X\<rparr>) = busy a s" "busy a (s\<lparr>task_queue := h\<rparr>) = busy a s"
  by (simp_all add: busy_def)

definition all_joined :: "dispatcher_thread list \<Rightarrow> bool" where
  "all_joined ds \<longleftrightarrow> (\<forall>d \<in> set ds. dp_state d = Joined)"

lemma all_joined_Nil [simp]: "all_joined []"
  by (simp add: all_joined_def)

text \<open>No address above the clock of the allocator is in use.\<close>

definition below :: "nat \<Rightarrow> (addr \<rightharpoonup> 'a) \<Rightarrow> bool" where
  "below n m \<longleftrightarrow> dom m \<subseteq> {..n}"

lemma below_upd [simp]: "below n (m(a \<mapsto> x)) \<longleftrightarrow> a \<le> n \<and> below n m"
  by (auto simp: below_def)

lemma below_mono: "below n m \<Longrightarrow> n \<le> k \<Longrightarrow> below k m"
  by (auto simp: below_def)

lemma below_fresh: "below n m \<Longrightarrow> m (Suc n) = None"
  by (auto simp: below_def subset_iff domIff)

definition bounded :: "pool_store \<Rightarrow> bool" where
  "bounded s \<longleftrightarrow> (let n = ticks (pool_arena s) in below n (pool_structs s) \<and> below n (pool_mutexes s) \<and> below n (pool_conds s)
     \<and> below n (pool_threads s) \<and> below n (pool_tasks s) \<and> (\<forall>d \<in> set (dispatchers s). dp_pool d \<le> n))"

text \<open>A pool under construction at \<open>a\<close> in the store \<open>s0\<close>, and the store after everything was taken back.\<close>

definition made ::
  "pool_store \<Rightarrow> (addr \<rightharpoonup> (addr, unit) alist) \<Rightarrow> addr \<Rightarrow> addr \<Rightarrow> pool_struct \<Rightarrow> (addr \<rightharpoonup> pthread_mutex_t option) \<Rightarrow> (addr \<rightharpoonup> unit option)
     \<Rightarrow> (addr \<rightharpoonup> nat option list) \<Rightarrow> dispatcher_thread list \<Rightarrow> pool_store \<Rightarrow> bool" where
  "made s0 S a q r M C T ds s \<longleftrightarrow> pool_structs s = (pool_structs s0)(a \<mapsto> r) \<and> pool_structs s0 a = None \<and> pl_queue_syn r = Some q \<and> S q = None
     \<and> pool_mutexes s = M \<and> pool_conds s = C \<and> pool_threads s = T \<and> pool_tasks s = pool_tasks s0
     \<and> dispatchers s = dispatchers s0 @ ds \<and> (\<forall>d \<in> set (dispatchers s0). dp_pool d \<noteq> a)
     \<and> qs_rep (task_queue s) (S(q \<mapsto> no_tasks)) \<and> bounded s"

text \<open>Every block has been given back, and every dispatcher created meanwhile has been joined.\<close>

definition undone :: "pool_store \<Rightarrow> (addr \<rightharpoonup> (addr, unit) alist) \<Rightarrow> pool_store \<Rightarrow> bool" where
  "undone s0 S s \<longleftrightarrow> pool_structs s = pool_structs s0 \<and> pool_mutexes s = pool_mutexes s0 \<and> pool_conds s = pool_conds s0
     \<and> pool_threads s = pool_threads s0 \<and> pool_tasks s = pool_tasks s0 \<and> qs_rep (task_queue s) S
     \<and> (\<exists>ds. dispatchers s = dispatchers s0 @ ds \<and> all_joined ds)"

lemma made_quiet: "made s0 S a q r M C T ds s \<Longrightarrow> all_joined ds \<Longrightarrow> \<not> busy a s"
  by (auto simp: made_def busy_def all_joined_def list_ex_iff)

lemma bounded_fresh:
  assumes "bounded s"
  shows "pool_structs s (Suc (ticks (pool_arena s))) = None" "pool_mutexes s (Suc (ticks (pool_arena s))) = None"
    "pool_conds s (Suc (ticks (pool_arena s))) = None" "pool_threads s (Suc (ticks (pool_arena s))) = None"
  using assms unfolding bounded_def Let_def by (simp_all add: below_fresh)

lemma bounded_quiet: "bounded s \<Longrightarrow> \<not> busy (Suc (ticks (pool_arena s))) s"
  unfolding bounded_def Let_def busy_def list_ex_iff by auto

lemma made_tick: "made s0 S a q r M C T ds s \<Longrightarrow> made s0 S a q r M C T ds (ticked s)"
  unfolding made_def bounded_def Let_def by (auto intro: qs_rep_tick below_mono le_SucI)

lemma made_struct:
  "made s0 S a q r M C T ds s \<Longrightarrow> pl_queue_syn r' = Some q \<Longrightarrow> made s0 S a q r' M C T ds (s\<lparr>pool_structs := (pool_structs s)(a \<mapsto> r')\<rparr>)"
  unfolding made_def bounded_def Let_def by auto

section \<open>Taking back\<close>

lemma undo_queue_spec:
  assumes "made s0 S a q r (pool_mutexes s0) (pool_conds s0) (pool_threads s0) ds s" and joined: "all_joined ds"
  shows "\<exists>s'. undo_queue (Some a) s = Some s' \<and> undone s0 S s'"
proof -
  note m = assms(1) [unfolded made_def] and quiet = made_quiet [OF assms]
  obtain h where "generic_queue_syn_free (Some q) (task_queue s) = Some (0, h)" "qs_rep h ((S(q \<mapsto> no_tasks))(q := None))"
    using syn_free_spec [where h = "task_queue s" and S = "S(q \<mapsto> no_tasks)" and s = q and L = no_tasks and w = "()"] m by auto
  moreover have "(S(q \<mapsto> no_tasks))(q := None) = S" "(pool_structs s)(a := None) = pool_structs s0" using m by (auto simp: fun_upd_idem)
  ultimately show ?thesis using m quiet joined by (auto simp: undo_queue_def undone_def)
qed

lemma undo_mutex_spec:
  assumes m: "made s0 S a q r ((pool_mutexes s0)(k \<mapsto> Some Unlocked)) (pool_conds s0) (pool_threads s0) ds s" and joined: "all_joined ds"
    and r: "pl_mutex r = Some k" "pool_mutexes s0 k = None"
  shows "\<exists>s'. undo_mutex (Some a) s = Some s' \<and> undone s0 S s'"
proof -
  have "made s0 S a q r (pool_mutexes s0) (pool_conds s0) (pool_threads s0) ds (s\<lparr>pool_mutexes := pool_mutexes s0\<rparr>)"
    using m by (auto simp: made_def bounded_def Let_def)
  from undo_queue_spec [OF this joined] show ?thesis using made_quiet [OF m joined] m r by (auto simp: undo_mutex_def made_def fun_upd_idem)
qed

lemma undo_new_task_spec:
  assumes m: "made s0 S a q r ((pool_mutexes s0)(k \<mapsto> Some Unlocked)) ((pool_conds s0)(c \<mapsto> Some ())) (pool_threads s0) ds s" and joined: "all_joined ds"
    and r: "pl_mutex r = Some k" "pool_mutexes s0 k = None" "pl_new_task r = Some c" "pool_conds s0 c = None"
  shows "\<exists>s'. undo_new_task (Some a) s = Some s' \<and> undone s0 S s'"
proof -
  have "made s0 S a q r ((pool_mutexes s0)(k \<mapsto> Some Unlocked)) (pool_conds s0) (pool_threads s0) ds (s\<lparr>pool_conds := pool_conds s0\<rparr>)"
    using m by (auto simp: made_def bounded_def Let_def)
  from undo_mutex_spec [OF this joined r(1,2)] show ?thesis using made_quiet [OF m joined] m r by (auto simp: undo_new_task_def made_def fun_upd_idem)
qed

lemma undo_task_done_spec:
  assumes m: "made s0 S a q r ((pool_mutexes s0)(k \<mapsto> Some Unlocked)) ((pool_conds s0)(c \<mapsto> Some (), d \<mapsto> Some ())) (pool_threads s0) ds s" and joined: "all_joined ds"
    and r: "pl_mutex r = Some k" "pool_mutexes s0 k = None" "pl_new_task r = Some c" "pool_conds s0 c = None"
      "pl_task_done r = Some d" "pool_conds s0 d = None" "d \<noteq> c"
  shows "\<exists>s'. undo_task_done (Some a) s = Some s' \<and> undone s0 S s'"
proof -
  have "made s0 S a q r ((pool_mutexes s0)(k \<mapsto> Some Unlocked)) ((pool_conds s0)(c \<mapsto> Some ())) (pool_threads s0) ds (s\<lparr>pool_conds := (pool_conds s0)(c \<mapsto> Some ())\<rparr>)"
    using m by (auto simp: made_def bounded_def Let_def)
  moreover have "((pool_conds s0)(c \<mapsto> Some (), d := None)) = (pool_conds s0)(c \<mapsto> Some ())" using r(6,7) by (auto simp: fun_upd_idem_iff)
  ultimately show ?thesis using undo_new_task_spec [OF _ joined r(1-4)] made_quiet [OF m joined] m r(5) by (auto simp: undo_task_done_def made_def)
qed

section \<open>Threads\<close>

text \<open>The threads \<open>ids\<close>, from the \<open>i\<close>-th on, are joined.\<close>

lemma join_loop_spec:
  assumes "pool_threads s p = Some ts" and "n \<le> length ts" and "\<forall>j < n. ts ! j = Some (ids ! j)" and "length ids = n" and "distinct ids"
    and "\<forall>j. i \<le> j \<longrightarrow> j < n \<longrightarrow> ids ! j < length (dispatchers s) \<and> dp_state (dispatchers s ! (ids ! j)) = Leaving" and "i \<le> n"
  shows "\<exists>ds. join_loop (Some p) n i s = Some (s\<lparr>dispatchers := ds\<rparr>) \<and> length ds = length (dispatchers s)
    \<and> (\<forall>t < length ds. ds ! t = (if t \<in> set (drop i ids) then (dispatchers s ! t)\<lparr>dp_state := Joined\<rparr> else dispatchers s ! t))"
  using assms
proof (induction "n - i" arbitrary: i s)
  case 0
  then show ?case by (subst join_loop.simps) (auto intro!: exI [of _ "dispatchers s"])
next
  case (Suc k)
  have i: "i < n" "k = n - Suc i" "Suc i \<le> n" using Suc.hyps(2) by simp_all
  let ?d = "ids ! i"
  define s1 where "s1 = s\<lparr>dispatchers := (dispatchers s)[?d := (dispatchers s ! ?d)\<lparr>dp_state := Joined\<rparr>]\<rparr>"
  have d: "?d < length (dispatchers s)" "dp_state (dispatchers s ! ?d) = Leaving" using Suc.prems(6) i(1) by auto
  have step: "join_loop (Some p) n i s = join_loop (Some p) n (Suc i) s1"
    using i(1) Suc.prems(1-3) d by (subst join_loop.simps) (simp add: join_thread_def s1_def)
  have ne: "?d \<noteq> ids ! j" if "i < j" "j < n" for j using that Suc.prems(4,5) i(1) by (auto simp: nth_eq_iff_index_eq)
  have "\<forall>j. Suc i \<le> j \<longrightarrow> j < n \<longrightarrow> ids ! j < length (dispatchers s1) \<and> dp_state (dispatchers s1 ! (ids ! j)) = Leaving"
    by (intro allI impI) (use ne Suc.prems(6) in \<open>simp add: s1_def\<close>)
  with Suc.hyps(1) [OF i(2), of s1] Suc.prems(1-5) i(3) obtain ds where ds: "join_loop (Some p) n (Suc i) s1 = Some (s1\<lparr>dispatchers := ds\<rparr>)"
    "length ds = length (dispatchers s1)"
    "\<forall>t < length ds. ds ! t = (if t \<in> set (drop (Suc i) ids) then (dispatchers s1 ! t)\<lparr>dp_state := Joined\<rparr> else dispatchers s1 ! t)"
    by (auto simp: s1_def)
  have dr: "drop i ids = ?d # drop (Suc i) ids" using i(1) Suc.prems(4) by (simp add: Cons_nth_drop_Suc)
  have "ds ! t = (if t \<in> set (drop i ids) then (dispatchers s ! t)\<lparr>dp_state := Joined\<rparr> else dispatchers s ! t)" if "t < length ds" for t
    using ds(2,3) that d(1) unfolding dr by (auto simp: s1_def nth_list_update)
  with ds(1,2) step show ?case by (intro exI [of _ ds]) (simp add: s1_def)
qed

lemma broadcast_spec:
  assumes "pool_structs s a = Some r" and "pl_mutex r = Some k" and "pool_mutexes s k = Some (Some Unlocked)" and "pl_new_task r = Some c"
    and "pool_conds s c = Some (Some ())" and "pl_off r"
  shows "broadcast (Some a) s = Some (s\<lparr>dispatchers := wake a (dispatchers s)\<rparr>)"
  using assms by (simp add: broadcast_def fun_upd_idem)

text \<open>The parts of a pool: its mutex and its condition variables, none of which existed before.\<close>

definition parts :: "pool_store \<Rightarrow> pool_struct \<Rightarrow> addr \<Rightarrow> addr \<Rightarrow> addr \<Rightarrow> bool" where
  "parts s0 r k c d \<longleftrightarrow> pl_mutex r = Some k \<and> pool_mutexes s0 k = None \<and> pl_new_task r = Some c \<and> pool_conds s0 c = None
     \<and> pl_task_done r = Some d \<and> pool_conds s0 d = None \<and> d \<noteq> c"

abbreviation mutexes_of where "mutexes_of s0 k \<equiv> (pool_mutexes s0)(k \<mapsto> Some Unlocked)"
abbreviation conds_of where "conds_of s0 c d \<equiv> (pool_conds s0)(c \<mapsto> Some (), d \<mapsto> Some ())"

lemma undo_parts:
  assumes "made s0 S a q r (mutexes_of s0 k) (conds_of s0 c d) (pool_threads s0) ds s" and "all_joined ds" and "parts s0 r k c d"
  shows "\<exists>s'. undo_task_done (Some a) s = Some s' \<and> undone s0 S s'"
  using undo_task_done_spec [OF assms(1,2)] assms(3) by (simp add: parts_def)

text \<open>The dispatchers of the pool under construction, and its array when \<open>i\<close> of \<open>n\<close> have been created.\<close>

abbreviation crew :: "addr \<Rightarrow> nat \<Rightarrow> dispatcher_state \<Rightarrow> dispatcher_thread list" where
  "crew a i st \<equiv> replicate i \<lparr>dp_pool = a, dp_state = st\<rparr>"

abbreviation numbers :: "pool_store \<Rightarrow> nat \<Rightarrow> nat list" where
  "numbers s0 i \<equiv> [length (dispatchers s0)..<length (dispatchers s0) + i]"

abbreviation array_of :: "pool_store \<Rightarrow> nat \<Rightarrow> nat \<Rightarrow> nat option list" where
  "array_of s0 i n \<equiv> map Some (numbers s0 i) @ replicate (n - i) None"

lemma wake_crew: "\<forall>d \<in> set ds. dp_pool d \<noteq> a \<Longrightarrow> wake a (ds @ crew a i Running) = ds @ crew a i Leaving"
  by (simp add: wake_def map_idI)

lemma all_joined_crew [simp]: "all_joined (crew a i Joined)"
  by (simp add: all_joined_def)

lemma join_crew:
  assumes T: "pool_threads s t = Some (array_of s0 i n)" and ds: "dispatchers s = dispatchers s0 @ crew a i Leaving"
  shows "join_loop (Some t) i 0 s = Some (s\<lparr>dispatchers := dispatchers s0 @ crew a i Joined\<rparr>)"
proof -
  have "\<forall>j < i. array_of s0 i n ! j = Some (numbers s0 i ! j)" by (simp add: nth_append)
  moreover have "\<forall>j. 0 \<le> j \<longrightarrow> j < i \<longrightarrow> numbers s0 i ! j < length (dispatchers s) \<and> dp_state (dispatchers s ! (numbers s0 i ! j)) = Leaving"
    by (simp add: ds nth_append)
  ultimately obtain ds' where j: "join_loop (Some t) i 0 s = Some (s\<lparr>dispatchers := ds'\<rparr>)" "length ds' = length (dispatchers s)"
    "\<forall>k < length ds'. ds' ! k = (if k \<in> set (drop 0 (numbers s0 i)) then (dispatchers s ! k)\<lparr>dp_state := Joined\<rparr> else dispatchers s ! k)"
    using join_loop_spec [OF T, of i "numbers s0 i" 0] by auto
  have "ds' = dispatchers s0 @ crew a i Joined" by (rule nth_equalityI) (use j(2,3) in \<open>auto simp: ds nth_append\<close>)
  with j(1) show ?thesis by simp
qed

text \<open>A dispatcher that cannot be created: the ones created before are told to leave and joined, and everything is taken back.\<close>

lemma create_fails:
  assumes m: "made s0 S a q r (mutexes_of s0 k) (conds_of s0 c d) ((pool_threads s0)(t \<mapsto> array_of s0 i n)) (crew a i Running) s" and p: "parts s0 r k c d"
    and r: "pl_dispatcher_threads r = Some t" "pool_threads s0 t = None" "unat (pl_n_threads r) = n"
    and i: "i < n" and ref: "refused (pool_arena s)"
  shows "\<exists>e s'. create_loop (Some a) i s = Some (e, s') \<and> e \<noteq> 0 \<and> undone s0 S s'"
proof -
  obtain e where e: "request s = (e, ticked s)" "e \<noteq> 0" using request_refused [OF ref] by blast
  have m1: "made s0 S a q r (mutexes_of s0 k) (conds_of s0 c d) ((pool_threads s0)(t \<mapsto> array_of s0 i n)) (crew a i Running) (ticked s)" by (rule made_tick [OF m])
  let ?r = "r\<lparr>pl_on := False, pl_off := True\<rparr>"
  define s1 where "s1 = (ticked s)\<lparr>pool_structs := (pool_structs s)(a \<mapsto> ?r)\<rparr>"
  have m2: "made s0 S a q ?r (mutexes_of s0 k) (conds_of s0 c d) ((pool_threads s0)(t \<mapsto> array_of s0 i n)) (crew a i Running) s1"
    using made_struct [OF m1, of ?r] m by (simp add: s1_def made_def)
  define s2 where "s2 = s1\<lparr>dispatchers := dispatchers s0 @ crew a i Leaving\<rparr>"
  have "broadcast (Some a) s1 = Some (s1\<lparr>dispatchers := wake a (dispatchers s1)\<rparr>)"
    by (rule broadcast_spec [where r = ?r and k = k and c = c]) (use m2 p in \<open>auto simp: made_def parts_def\<close>)
  then have b: "broadcast (Some a) s1 = Some s2" using m2 wake_crew by (simp add: made_def s2_def)
  have j: "join_loop (Some t) i 0 s2 = Some (s2\<lparr>dispatchers := dispatchers s0 @ crew a i Joined\<rparr>)"
    by (rule join_crew [where n = n]) (use m2 in \<open>simp_all add: made_def s2_def\<close>)
  define s3 where "s3 = s2\<lparr>dispatchers := dispatchers s0 @ crew a i Joined, pool_threads := pool_threads s0\<rparr>"
  have "made s0 S a q ?r (mutexes_of s0 k) (conds_of s0 c d) (pool_threads s0) (crew a i Joined) s3"
    using m2 by (auto simp: made_def bounded_def Let_def s2_def s3_def)
  from undo_parts [OF this] p obtain s' where s': "undo_task_done (Some a) s3 = Some s'" "undone s0 S s'" by (auto simp: parts_def)
  have "(pool_threads s2)(t := None) = pool_threads s0" using m2 r(2) by (auto simp: made_def s2_def fun_upd_idem)
  then have "free_threads (Some t) (s2\<lparr>dispatchers := dispatchers s0 @ crew a i Joined\<rparr>) = Some s3"
    using m2 by (simp add: s3_def s2_def made_def)
  moreover have "(ticked s)\<lparr>pool_structs := (pool_structs s0)(a \<mapsto> ?r)\<rparr> = s1" using m by (simp add: s1_def made_def)
  ultimately have "create_loop (Some a) i s = Some (e, s')"
    using m e r i b j s'(1) by (subst create_loop.simps) (simp add: made_def del: free_threads_def)
  with e(2) s'(2) show ?thesis by blast
qed

lemma create_loop_spec:
  assumes m: "made s0 S a q r (mutexes_of s0 k) (conds_of s0 c d) ((pool_threads s0)(t \<mapsto> array_of s0 i n)) (crew a i Running) s" and p: "parts s0 r k c d"
    and r: "pl_dispatcher_threads r = Some t" "pool_threads s0 t = None" "unat (pl_n_threads r) = n" and i: "i \<le> n"
  shows "\<exists>e s'. create_loop (Some a) i s = Some (e, s') \<and> (if grants (n - i) (pool_arena s) \<or> i = n
    then e = 0 \<and> made s0 S a q r (mutexes_of s0 k) (conds_of s0 c d) ((pool_threads s0)(t \<mapsto> map Some (numbers s0 n))) (crew a n Running) s'
    else e \<noteq> 0 \<and> undone s0 S s')"
  using m i
proof (induction "n - i" arbitrary: i s)
  case 0
  with r(3) show ?case by (subst create_loop.simps) (auto simp: made_def)
next
  case (Suc l)
  have i: "i < n" using Suc.hyps(2) by simp
  show ?case
  proof (cases "refused (pool_arena s)")
    case True
    then have "\<not> grants (n - i) (pool_arena s)" using Suc.hyps(2) grants_Suc [of l "pool_arena s"] by auto
    with create_fails [OF Suc.prems(1) p r i True] i show ?thesis by auto
  next
    case False
    define s1 where "s1 = (ticked s)\<lparr>pool_threads := (pool_threads s0)(t \<mapsto> array_of s0 (Suc i) n), dispatchers := dispatchers s0 @ crew a (Suc i) Running\<rparr>"
    have app: "crew a i Running @ [\<lparr>dp_pool = a, dp_state = Running\<rparr>] = crew a (Suc i) Running" by (simp add: replicate_append_same)
    have "n - i = Suc (n - Suc i)" using i by simp
    then have arr: "(array_of s0 i n)[i := Some (length (dispatchers s0) + i)] = array_of s0 (Suc i) n"
      by (simp add: list_update_append)
    have "made s0 S a q r (mutexes_of s0 k) (conds_of s0 c d) ((pool_threads s0)(t \<mapsto> array_of s0 i n)) (crew a i Running) (ticked s)" by (rule made_tick [OF Suc.prems(1)])
    then have m1: "made s0 S a q r (mutexes_of s0 k) (conds_of s0 c d) ((pool_threads s0)(t \<mapsto> array_of s0 (Suc i) n)) (crew a (Suc i) Running) s1"
      by (auto simp: made_def bounded_def Let_def s1_def)
    have "create_thread (Some a) (Some t) i (ticked s) = Some s1"
      using Suc.prems(1) i arr app unfolding create_thread_def s1_def by (simp add: made_def del: upt_Suc replicate.simps)
    then have step: "create_loop (Some a) i s = create_loop (Some a) (Suc i) s1"
      using Suc.prems(1) r i False by (subst create_loop.simps) (simp add: made_def)
    have e: "n - i = Suc l" "n - Suc i = l" "Suc i = n \<longleftrightarrow> l = 0" "l = n - Suc i" "Suc i \<le> n" using Suc.hyps(2) by auto
    have "grants (n - i) (pool_arena s) \<or> i = n \<longleftrightarrow> grants (n - Suc i) (pool_arena s1) \<or> Suc i = n"
      unfolding e(1,2,3) using i False grants_Suc [of l "pool_arena s"] by (cases l) (auto simp: s1_def)
    with Suc.hyps(1) [OF e(4) m1 e(5)] step show ?thesis by (simp del: upt_Suc replicate.simps cong: if_cong)
  qed
qed

section \<open>Creation\<close>

lemma unat_times_8: "8 * unat (n :: size_t) < 2 ^ 64 \<Longrightarrow> unat (8 * n) div 8 = unat n"
  by (simp add: unat_word_ariths)

text \<open>A pool that is complete: as many dispatchers as asked for run.\<close>

definition complete :: "pool_store \<Rightarrow> (addr \<rightharpoonup> (addr, unit) alist) \<Rightarrow> size_t \<Rightarrow> addr \<Rightarrow> pool_store \<Rightarrow> bool" where
  "complete s0 S n a s \<longleftrightarrow> (\<exists>q r k c d t. made s0 S a q r (mutexes_of s0 k) (conds_of s0 c d) ((pool_threads s0)(t \<mapsto> map Some (numbers s0 (unat n)))) (crew a (unat n) Running) s
     \<and> parts s0 r k c d \<and> pl_dispatcher_threads r = Some t \<and> pool_threads s0 t = None \<and> pl_n_threads r = n \<and> pl_on r \<and> \<not> pl_off r
     \<and> pl_in_flight r = 0)"

definition result_of ::
  "pool_store \<Rightarrow> (addr \<rightharpoonup> (addr, unit) alist) \<Rightarrow> size_t \<Rightarrow> addr \<Rightarrow> addr ptr \<Rightarrow> bool \<Rightarrow> (exit_code \<times> addr ptr out \<times> pool_store) option \<Rightarrow> bool" where
  "result_of s0 S n a v g m \<longleftrightarrow> (\<exists>e out s'. m = Some (e, Some out, s') \<and> (if g then e = 0 \<and> out = Some a \<and> complete s0 S n a s' else e \<noteq> 0 \<and> out = v \<and> undone s0 S s'))"

lemma result_undone: "undone s0 S s' \<Longrightarrow> e \<noteq> 0 \<Longrightarrow> \<not> g \<Longrightarrow> result_of s0 S n a v g (Some (e, Some v, s'))"
  by (simp add: result_of_def)

lemma new_threads_spec:
  assumes m: "made s0 S a q r (mutexes_of s0 k) (conds_of s0 c d) (pool_threads s0) [] s" and p: "parts s0 r k c d"
    and n: "n \<noteq> 0" "8 * unat n < 2 ^ 64"
  shows "result_of s0 S n a v (grants (1 + unat n) (pool_arena s)) (new_threads (Some a) n (Some v) s)"
proof (cases "refused (pool_arena s)")
  case True
  then have no: "\<not> grants (1 + unat n) (pool_arena s)" using grants_Suc [of "unat n" "pool_arena s"] by simp
  let ?r = "r\<lparr>pl_dispatcher_threads := NULL\<rparr>"
  let ?s = "(ticked s)\<lparr>pool_structs := (pool_structs s)(a \<mapsto> ?r)\<rparr>"
  have "made s0 S a q ?r (mutexes_of s0 k) (conds_of s0 c d) (pool_threads s0) [] ?s"
    using made_struct [OF made_tick [OF m], of ?r] m by (simp add: made_def)
  from undo_parts [OF this] p obtain s' where "undo_task_done (Some a) ?s = Some s'" "undone s0 S s'" by (auto simp: parts_def)
  with True m have "new_threads (Some a) n (Some v) s = Some (- 1, Some v, s')" by (simp add: new_threads_def malloc_threads_def made_def)
  with \<open>undone s0 S s'\<close> no show ?thesis by (simp add: result_undone)
next
  case False
  let ?t = "Suc (ticks (pool_arena s))" and ?ts = "replicate (unat n) None"
  let ?r = "r\<lparr>pl_dispatcher_threads := Some ?t, pl_on := True, pl_off := False, pl_in_flight := 0, pl_n_threads := n\<rparr>"
  let ?s = "(ticked s)\<lparr>pool_threads := (pool_threads s)(?t \<mapsto> ?ts), pool_structs := (pool_structs s)(a \<mapsto> ?r)\<rparr>"
  have fresh: "pool_threads s0 ?t = None" using bounded_fresh(4) [of s] m by (simp add: made_def)
  have m1: "made s0 S a q ?r (mutexes_of s0 k) (conds_of s0 c d) ((pool_threads s0)(?t \<mapsto> array_of s0 0 (unat n))) (crew a 0 Running) ?s"
    using made_tick [OF m] m by (auto simp: made_def bounded_def Let_def)
  have p1: "parts s0 ?r k c d" using p by (simp add: parts_def)
  obtain e s' where l: "create_loop (Some a) 0 ?s = Some (e, s')" "if grants (unat n) (pool_arena ?s)
    then e = 0 \<and> made s0 S a q ?r (mutexes_of s0 k) (conds_of s0 c d) ((pool_threads s0)(?t \<mapsto> map Some (numbers s0 (unat n)))) (crew a (unat n) Running) s'
    else e \<noteq> 0 \<and> undone s0 S s'"
    using create_loop_spec [OF m1 p1 _ fresh] n(1) by (auto simp: unat_eq_0 cong: if_cong split: if_splits)
  have run: "new_threads (Some a) n (Some v) s = Some (if e \<noteq> 0 then (e, Some v, s') else (0, Some (Some a), s'))"
    using False m l(1) unat_times_8 [OF n(2)] by (simp add: new_threads_def malloc_threads_def made_def)
  have g: "grants (1 + unat n) (pool_arena s) \<longleftrightarrow> grants (unat n) (pool_arena ?s)" using False grants_Suc [of "unat n" "pool_arena s"] by simp
  show ?thesis
  proof (cases "grants (unat n) (pool_arena ?s)")
    case True
    then have "e = 0" "complete s0 S n a s'"
      unfolding complete_def using l(2) p1 fresh by (simp_all, intro exI [of _ q] exI [of _ ?r] exI [of _ k] exI [of _ c] exI [of _ d] exI [of _ ?t]) simp
    with run g True show ?thesis by (simp add: result_of_def)
  next
    case no: False
    with l(2) run g show ?thesis by (simp add: result_of_def)
  qed
qed

text \<open>Updates of different fields commute; they are written in one order.\<close>

lemma pool_order:
  fixes s :: pool_store
  shows "s\<lparr>task_queue := h, pool_structs := P\<rparr> = s\<lparr>pool_structs := P, task_queue := h\<rparr>" "s\<lparr>pool_conds := C, pool_structs := P\<rparr> = s\<lparr>pool_structs := P, pool_conds := C\<rparr>"
    "s\<lparr>pool_mutexes := M, pool_structs := P\<rparr> = s\<lparr>pool_structs := P, pool_mutexes := M\<rparr>" "s\<lparr>pool_conds := C, task_queue := h\<rparr> = s\<lparr>task_queue := h, pool_conds := C\<rparr>"
    "s\<lparr>pool_mutexes := M, task_queue := h\<rparr> = s\<lparr>task_queue := h, pool_mutexes := M\<rparr>"
  by (cases s; simp)+

text \<open>
  A block that is allocated and initialised: the first of the two requests fails, or the second, or the creation goes on.
\<close>

lemma two_requests:
  assumes "refused A \<Longrightarrow> \<exists>s'. m = Some (- 1, Some v, s') \<and> undone s0 S s'"
    and "\<not> refused A \<Longrightarrow> refused (tick A) \<Longrightarrow> \<exists>e s'. m = Some (e, Some v, s') \<and> e \<noteq> 0 \<and> undone s0 S s'"
    and "\<not> refused A \<Longrightarrow> \<not> refused (tick A) \<Longrightarrow> result_of s0 S n a v (grants (Suc k) (tick (tick A))) m"
  shows "result_of s0 S n a v (grants (Suc (Suc (Suc k))) A) m"
proof -
  have "grants (Suc (Suc (Suc k))) A \<longleftrightarrow> \<not> refused A \<and> \<not> refused (tick A) \<and> grants (Suc k) (tick (tick A))"
    using grants_Suc [of "Suc (Suc k)" A] grants_Suc [of "Suc k" "tick A"] by auto
  with assms show ?thesis by (cases "refused A"; cases "refused (tick A)") (auto simp: result_of_def)
qed

lemma request_fails:
  assumes "refused A"
  obtains e where "sys_init A = (e, tick A)" and "e \<noteq> 0"
  using assms by (auto simp: sys_init_def refused_def)

lemma new_task_done_spec:
  assumes m: "made s0 S a q r (mutexes_of s0 k) ((pool_conds s0)(c \<mapsto> Some ())) (pool_threads s0) [] s"
    and r: "pl_mutex r = Some k" "pool_mutexes s0 k = None" "pl_new_task r = Some c" "pool_conds s0 c = None"
    and n: "n \<noteq> 0" "8 * unat n < 2 ^ 64"
  shows "result_of s0 S n a v (grants (3 + unat n) (pool_arena s)) (new_task_done (Some a) n (Some v) s)"
proof -
  let ?A = "pool_arena s" and ?d = "Suc (ticks (pool_arena s))" and ?C = "(pool_conds s0)(c \<mapsto> Some ())"
  let ?s = "\<lambda>p C A. s\<lparr>pool_structs := (pool_structs s)(a \<mapsto> r\<lparr>pl_task_done := p\<rparr>), task_queue := (task_queue s)\<lparr>arena := A\<rparr>, pool_conds := C\<rparr>"
  have s: "pool_structs s = (pool_structs s0)(a \<mapsto> r)" "pool_conds s = ?C" using m by (simp_all add: made_def)
  have fresh: "pool_conds s0 ?d = None" "?d \<noteq> c" using bounded_fresh(3) [of s] m by (auto simp: made_def split: if_splits)
  have made: "made s0 S a q (r\<lparr>pl_task_done := p\<rparr>) (mutexes_of s0 k) C (pool_threads s0) [] (?s p C A)"
    if "A = tick ?A \<or> A = tick (tick ?A)" "C = ?C \<or> C = ?C(?d \<mapsto> Some ())" for p C A
    using made_tick [OF m] made_tick [OF made_tick [OF m]] m that by (auto simp: made_def bounded_def Let_def)
  have undo: "\<exists>s'. undo_new_task (Some a) (?s p ?C A) = Some s' \<and> undone s0 S s'" if "A = tick ?A \<or> A = tick (tick ?A)" for p A
    using undo_new_task_spec [OF made [OF that, of ?C p]] r by simp
  have same: "?s p ?C A = s\<lparr>pool_structs := (pool_structs s)(a \<mapsto> r\<lparr>pl_task_done := p\<rparr>), task_queue := (task_queue s)\<lparr>arena := A\<rparr>\<rparr>" for p A
    using s(2) by (cases s) simp
  have drop: "?C(?d := None) = ?C" using fresh by (auto simp: fun_upd_idem_iff)
  have "result_of s0 S n a v (grants (Suc (Suc (Suc (unat n)))) ?A) (new_task_done (Some a) n (Some v) s)"
  proof (rule two_requests)
    assume "refused ?A"
    then show "\<exists>s'. new_task_done (Some a) n (Some v) s = Some (- 1, Some v, s') \<and> undone s0 S s'"
      using undo [of "tick ?A" NULL] s(1) unfolding same by (auto simp: new_task_done_def malloc_cond_def pool_order)
  next
    assume g: "\<not> refused ?A" and ref: "refused (tick ?A)"
    obtain e where e: "sys_init (tick ?A) = (e, tick (tick ?A))" "e \<noteq> 0" by (rule request_fails [OF ref])
    obtain s' where "undo_new_task (Some a) (?s (Some ?d) ?C (tick (tick ?A))) = Some s'" "undone s0 S s'" using undo by blast
    with g e s drop show "\<exists>e s'. new_task_done (Some a) n (Some v) s = Some (e, Some v, s') \<and> e \<noteq> 0 \<and> undone s0 S s'"
      by (auto simp: new_task_done_def malloc_cond_def request_def pool_order)
  next
    assume g: "\<not> refused ?A" "\<not> refused (tick ?A)"
    have "parts s0 (r\<lparr>pl_task_done := Some ?d\<rparr>) k c ?d" using r fresh by (simp add: parts_def)
    from new_threads_spec [OF made [of "tick (tick ?A)" "?C(?d \<mapsto> Some ())" "Some ?d"] this n, of v] g s
    show "result_of s0 S n a v (grants (Suc (unat n)) (tick (tick ?A))) (new_task_done (Some a) n (Some v) s)"
      by (simp add: new_task_done_def malloc_cond_def pool_order)
  qed
  then show ?thesis by (simp add: numeral_3_eq_3)
qed

lemma new_new_task_spec:
  assumes m: "made s0 S a q r (mutexes_of s0 k) (pool_conds s0) (pool_threads s0) [] s"
    and r: "pl_mutex r = Some k" "pool_mutexes s0 k = None" and n: "n \<noteq> 0" "8 * unat n < 2 ^ 64"
  shows "result_of s0 S n a v (grants (5 + unat n) (pool_arena s)) (new_new_task (Some a) n (Some v) s)"
proof -
  let ?A = "pool_arena s" and ?d = "Suc (ticks (pool_arena s))" and ?C = "pool_conds s0"
  let ?s = "\<lambda>p C A. s\<lparr>pool_structs := (pool_structs s)(a \<mapsto> r\<lparr>pl_new_task := p\<rparr>), task_queue := (task_queue s)\<lparr>arena := A\<rparr>, pool_conds := C\<rparr>"
  have s: "pool_structs s = (pool_structs s0)(a \<mapsto> r)" "pool_conds s = ?C" using m by (simp_all add: made_def)
  have fresh: "pool_conds s0 ?d = None" using bounded_fresh(3) [of s] m by (auto simp: made_def split: if_splits)
  have made: "made s0 S a q (r\<lparr>pl_new_task := p\<rparr>) (mutexes_of s0 k) C (pool_threads s0) [] (?s p C A)"
    if "A = tick ?A \<or> A = tick (tick ?A)" "C = ?C \<or> C = ?C(?d \<mapsto> Some ())" for p C A
    using made_tick [OF m] made_tick [OF made_tick [OF m]] m that by (auto simp: made_def bounded_def Let_def)
  have undo: "\<exists>s'. undo_mutex (Some a) (?s p ?C A) = Some s' \<and> undone s0 S s'" if "A = tick ?A \<or> A = tick (tick ?A)" for p A
    using undo_mutex_spec [OF made [OF that, of ?C p]] r by simp
  have same: "?s p ?C A = s\<lparr>pool_structs := (pool_structs s)(a \<mapsto> r\<lparr>pl_new_task := p\<rparr>), task_queue := (task_queue s)\<lparr>arena := A\<rparr>\<rparr>" for p A
    using s(2) by (cases s) simp
  have drop: "?C(?d := None) = ?C" using fresh by (auto simp: fun_upd_idem_iff)
  have "result_of s0 S n a v (grants (Suc (Suc (Suc (2 + unat n)))) ?A) (new_new_task (Some a) n (Some v) s)"
  proof (rule two_requests)
    assume "refused ?A"
    then show "\<exists>s'. new_new_task (Some a) n (Some v) s = Some (- 1, Some v, s') \<and> undone s0 S s'"
      using undo [of "tick ?A" NULL] s(1) unfolding same by (auto simp: new_new_task_def malloc_cond_def pool_order)
  next
    assume g: "\<not> refused ?A" and ref: "refused (tick ?A)"
    obtain e where e: "sys_init (tick ?A) = (e, tick (tick ?A))" "e \<noteq> 0" by (rule request_fails [OF ref])
    obtain s' where "undo_mutex (Some a) (?s (Some ?d) ?C (tick (tick ?A))) = Some s'" "undone s0 S s'" using undo by blast
    with g e s drop show "\<exists>e s'. new_new_task (Some a) n (Some v) s = Some (e, Some v, s') \<and> e \<noteq> 0 \<and> undone s0 S s'"
      by (auto simp: new_new_task_def malloc_cond_def request_def pool_order)
  next
    assume g: "\<not> refused ?A" "\<not> refused (tick ?A)"
    from new_task_done_spec [OF made [of "tick (tick ?A)" "?C(?d \<mapsto> Some ())" "Some ?d"] _ _ _ _ n, of v] r fresh g s
    show "result_of s0 S n a v (grants (Suc (2 + unat n)) (tick (tick ?A))) (new_new_task (Some a) n (Some v) s)"
      by (simp add: new_new_task_def malloc_cond_def pool_order numeral_3_eq_3)
  qed
  then show ?thesis by (simp add: eval_nat_numeral)
qed

lemma new_mutex_spec:
  assumes m: "made s0 S a q r (pool_mutexes s0) (pool_conds s0) (pool_threads s0) [] s" and n: "n \<noteq> 0" "8 * unat n < 2 ^ 64"
  shows "result_of s0 S n a v (grants (7 + unat n) (pool_arena s)) (new_mutex (Some a) n (Some v) s)"
proof -
  let ?A = "pool_arena s" and ?d = "Suc (ticks (pool_arena s))" and ?M = "pool_mutexes s0"
  let ?s = "\<lambda>p M A. s\<lparr>pool_structs := (pool_structs s)(a \<mapsto> r\<lparr>pl_mutex := p\<rparr>), task_queue := (task_queue s)\<lparr>arena := A\<rparr>, pool_mutexes := M\<rparr>"
  have s: "pool_structs s = (pool_structs s0)(a \<mapsto> r)" "pool_mutexes s = ?M" using m by (simp_all add: made_def)
  have fresh: "pool_mutexes s0 ?d = None" using bounded_fresh(2) [of s] m by (auto simp: made_def split: if_splits)
  have made: "made s0 S a q (r\<lparr>pl_mutex := p\<rparr>) M (pool_conds s0) (pool_threads s0) [] (?s p M A)"
    if "A = tick ?A \<or> A = tick (tick ?A)" "M = ?M \<or> M = mutexes_of s0 ?d" for p M A
    using made_tick [OF m] made_tick [OF made_tick [OF m]] m that by (auto simp: made_def bounded_def Let_def)
  have undo: "\<exists>s'. undo_queue (Some a) (?s p ?M A) = Some s' \<and> undone s0 S s'" if "A = tick ?A \<or> A = tick (tick ?A)" for p A
    using undo_queue_spec [OF made [OF that, of ?M p]] by simp
  have same: "?s p ?M A = s\<lparr>pool_structs := (pool_structs s)(a \<mapsto> r\<lparr>pl_mutex := p\<rparr>), task_queue := (task_queue s)\<lparr>arena := A\<rparr>\<rparr>" for p A
    using s(2) by (cases s) simp
  have drop: "?M(?d := None) = ?M" using fresh by (auto simp: fun_upd_idem_iff)
  have "result_of s0 S n a v (grants (Suc (Suc (Suc (4 + unat n)))) ?A) (new_mutex (Some a) n (Some v) s)"
  proof (rule two_requests)
    assume "refused ?A"
    then show "\<exists>s'. new_mutex (Some a) n (Some v) s = Some (- 1, Some v, s') \<and> undone s0 S s'"
      using undo [of "tick ?A" NULL] s(1) unfolding same by (auto simp: new_mutex_def malloc_mutex_def pool_order)
  next
    assume g: "\<not> refused ?A" and ref: "refused (tick ?A)"
    obtain e where e: "sys_init (tick ?A) = (e, tick (tick ?A))" "e \<noteq> 0" by (rule request_fails [OF ref])
    obtain s' where "undo_queue (Some a) (?s (Some ?d) ?M (tick (tick ?A))) = Some s'" "undone s0 S s'" using undo by blast
    with g e s drop show "\<exists>e s'. new_mutex (Some a) n (Some v) s = Some (e, Some v, s') \<and> e \<noteq> 0 \<and> undone s0 S s'"
      by (auto simp: new_mutex_def malloc_mutex_def request_def pool_order)
  next
    assume g: "\<not> refused ?A" "\<not> refused (tick ?A)"
    from new_new_task_spec [OF made [of "tick (tick ?A)" "mutexes_of s0 ?d" "Some ?d"] _ _ n, of v] fresh g s
    show "result_of s0 S n a v (grants (Suc (4 + unat n)) (tick (tick ?A))) (new_mutex (Some a) n (Some v) s)"
      by (simp add: new_mutex_def malloc_mutex_def pool_order eval_nat_numeral)
  qed
  then show ?thesis by (simp add: eval_nat_numeral)
qed

lemma thread_pool_new_spec:
  assumes rep: "qs_rep (task_queue s0) S" and b: "bounded s0" and n: "n \<noteq> 0" "8 * unat n < 2 ^ 64"
  shows "result_of s0 S n (Suc (ticks (pool_arena s0))) v (grants (14 + unat n) (pool_arena s0)) (thread_pool_new n (Some v) s0)"
proof -
  let ?A = "pool_arena s0" and ?a = "Suc (ticks (pool_arena s0))"
  have split: "grants (14 + unat n) ?A \<longleftrightarrow> \<not> refused ?A \<and> grants 6 (tick ?A) \<and> grants (7 + unat n) ((tick ^^ 6) (tick ?A))"
    using grants_Suc [of "6 + (7 + unat n)" ?A] grants_add [of 6 "7 + unat n" "tick ?A"] by simp
  show ?thesis
  proof (cases "refused ?A")
    case True
    with n(1) split qs_rep_tick [OF rep] show ?thesis
      by (auto simp: thread_pool_new_def malloc_pool_def undone_def result_of_def)
  next
    case g: False
    let ?blank = "\<lparr>pl_queue_syn = NULL, pl_mutex = NULL, pl_new_task = NULL, pl_task_done = NULL, pl_on = False, pl_off = False, pl_in_flight = 0,
      pl_n_threads = 0, pl_dispatcher_threads = NULL\<rparr>"
    let ?h = "(task_queue s0)\<lparr>arena := tick ?A\<rparr>"
    have rep1: "qs_rep ?h S" by (rule qs_rep_tick [OF rep])
    have fresh: "pool_structs s0 ?a = None" by (rule bounded_fresh(1) [OF b])
    show ?thesis
    proof (cases "grants 6 (tick ?A)")
      case True
      obtain h q where h: "generic_queue_syn_new (Some NULL) ?h = Some (0, Some (Some q), h)" "S q = None" "qs_rep h (S(q \<mapsto> no_tasks))"
        "arena h = (tick ^^ 6) (tick ?A)"
        using syn_new_spec [OF rep1, of NULL] True by auto
      let ?s = "s0\<lparr>task_queue := h, pool_structs := (pool_structs s0)(?a \<mapsto> ?blank\<lparr>pl_queue_syn := Some q\<rparr>)\<rparr>"
      have "ticks (arena h) = ticks ?A + 7" using h(4) by simp
      then have "made s0 S ?a q (?blank\<lparr>pl_queue_syn := Some q\<rparr>) (pool_mutexes s0) (pool_conds s0) (pool_threads s0) [] ?s"
        using h(2,3) fresh b by (auto simp: made_def bounded_def Let_def elim: below_mono)
      from new_mutex_spec [OF this n, of v] have "result_of s0 S n ?a v (grants (7 + unat n) ((tick ^^ 6) (tick ?A))) (new_mutex (Some ?a) n (Some v) ?s)"
        using h(4) by simp
      moreover have "thread_pool_new n (Some v) s0 = new_mutex (Some ?a) n (Some v) ?s"
        using g n(1) h(1) by (simp add: thread_pool_new_def malloc_pool_def pool_order)
      ultimately show ?thesis using split g True by simp
    next
      case False
      obtain h where h: "generic_queue_syn_new (Some NULL) ?h = Some (- 1, Some NULL, h)" "qs_rep h S"
        using syn_new_refused [OF rep1, of NULL] False by auto
      have "(pool_structs s0)(?a := None) = pool_structs s0" using fresh by (simp add: fun_upd_idem)
      then have "thread_pool_new n (Some v) s0 = Some (- 1, Some v, s0\<lparr>task_queue := h\<rparr>)"
        using g n(1) h(1) bounded_quiet [OF b] by (simp add: thread_pool_new_def malloc_pool_def pool_order)
      with h(2) split False show ?thesis by (auto simp: result_of_def undone_def)
    qed
  qed
qed

section \<open>Release\<close>

text \<open>The array has the numbers of the dispatchers of the pool: they run, or have been joined if the pool has been shut down.\<close>

definition crew_ok :: "pool_store \<Rightarrow> addr \<Rightarrow> pool_struct \<Rightarrow> addr \<Rightarrow> bool" where
  "crew_ok s a r t \<longleftrightarrow> (\<exists>ids. pool_threads s t = Some (map Some ids) \<and> length ids = unat (pl_n_threads r) \<and> distinct ids
     \<and> (\<forall>i. i \<in> set ids \<longleftrightarrow> i < length (dispatchers s) \<and> dp_pool (dispatchers s ! i) = a)
     \<and> (\<forall>d \<in> set (dispatchers s). dp_pool d = a \<longrightarrow> dp_state d = (if pl_off r then Joined else Running)))"

text \<open>The threads after those of the pool have been joined.\<close>

definition settled :: "addr \<Rightarrow> dispatcher_thread list \<Rightarrow> dispatcher_thread list" where
  "settled a = map (\<lambda>d. if dp_pool d = a then d\<lparr>dp_state := Joined\<rparr> else d)"

lemma joined_idle: "dp_state d = Joined \<Longrightarrow> d\<lparr>dp_state := Joined\<rparr> = (d :: dispatcher_thread)"
  by (cases d) simp

lemma settled_joined: "\<forall>d \<in> set ds. dp_pool d = a \<longrightarrow> dp_state d = Joined \<Longrightarrow> settled a ds = ds"
  unfolding settled_def by (rule map_idI) (auto intro: joined_idle)

lemma settled_state: "\<forall>d \<in> set (settled a ds). dp_pool d = a \<longrightarrow> dp_state d = Joined"
proof (intro ballI impI)
  fix d assume "d \<in> set (settled a ds)" "dp_pool d = a"
  then obtain e where "d = (if dp_pool e = a then e\<lparr>dp_state := Joined\<rparr> else e)" unfolding settled_def set_map by blast
  with \<open>dp_pool d = a\<close> show "dp_state d = Joined" by (cases "dp_pool e = a") simp_all
qed

lemma settled_quiet: "dispatchers s = settled a ds \<Longrightarrow> \<not> busy a s"
  using settled_state [of a ds] by (simp add: busy_def list_ex_iff)

text \<open>A pool with the tasks \<open>ts\<close> in its queue.\<close>

definition pool_ok :: "pool_store \<Rightarrow> (addr \<rightharpoonup> (addr, unit) alist) \<Rightarrow> addr \<Rightarrow> pool_struct \<Rightarrow> addr \<Rightarrow> addr \<Rightarrow> addr \<Rightarrow> addr \<Rightarrow> addr \<Rightarrow> addr list \<Rightarrow> bool" where
  "pool_ok s S a r q k c d t ts \<longleftrightarrow> pool_structs s a = Some r
     \<and> pl_queue_syn r = Some q \<and> qs_rep (task_queue s) S \<and> S q = Some (no_tasks\<lparr>al_items := map Some ts\<rparr>) \<and> distinct ts \<and> set ts \<subseteq> dom (pool_tasks s)
     \<and> pl_mutex r = Some k \<and> pool_mutexes s k = Some (Some Unlocked) \<and> pl_new_task r = Some c \<and> pool_conds s c = Some (Some ())
     \<and> pl_task_done r = Some d \<and> pool_conds s d = Some (Some ()) \<and> d \<noteq> c \<and> pl_dispatcher_threads r = Some t
     \<and> crew_ok s a r t"

lemma drain_loop_spec:
  assumes "qs_rep (task_queue s) S" and "S q = Some (no_tasks\<lparr>al_items := map Some ts\<rparr>)" and "distinct ts" and "set ts \<subseteq> dom (pool_tasks s)"
  shows "\<exists>h. drain_loop (Some q) s = Some (s\<lparr>task_queue := h, pool_tasks := (pool_tasks s) |` (- set ts)\<rparr>) \<and> qs_rep h (S(q \<mapsto> no_tasks))
    \<and> arena h = pool_arena s"
  using assms
proof (induction ts arbitrary: s S)
  case Nil
  then obtain h where h: "generic_queue_syn_dequeue (Some q) (Some NULL) (task_queue s) = Some (0, Some NULL, h)" "qs_rep h S" "arena h = pool_arena s"
    using syn_dequeue_empty [OF Nil.prems(1,2), of "Some NULL"] by auto
  moreover have "S(q \<mapsto> no_tasks) = S" using Nil.prems(2) by (simp add: fun_upd_idem)
  ultimately show ?case by (subst drain_loop.simps) (auto simp: restrict_map_def)
next
  case (Cons x ts)
  let ?L = "no_tasks\<lparr>al_items := map Some ts\<rparr>"
  obtain h where h: "generic_queue_syn_dequeue (Some q) (Some NULL) (task_queue s) = Some (0, Some (Some x), h)" "qs_rep h (S(q \<mapsto> ?L))" "arena h = pool_arena s"
    using syn_dequeue_spec [OF Cons.prems(1,2), of "Some x" "map Some ts" "Some NULL" "Some (Some x)" "()"] by (auto simp: al_give_def)
  define s1 where "s1 = s\<lparr>task_queue := h, pool_tasks := (pool_tasks s)(x := None)\<rparr>"
  have r1: "qs_rep (task_queue s1) (S(q \<mapsto> ?L))" and sub: "set ts \<subseteq> dom (pool_tasks s1)" and dist: "distinct ts"
    using h(2) Cons.prems(3,4) by (auto simp: s1_def)
  have at: "(S(q \<mapsto> ?L)) q = Some ?L" and over: "(S(q \<mapsto> ?L))(q \<mapsto> no_tasks) = S(q \<mapsto> no_tasks)" by simp_all
  obtain h' where h': "drain_loop (Some q) s1 = Some (s1\<lparr>task_queue := h', pool_tasks := (pool_tasks s1) |` (- set ts)\<rparr>)"
    "qs_rep h' (S(q \<mapsto> no_tasks))" "arena h' = pool_arena s1" using Cons.IH [OF r1 at dist sub] unfolding over by blast
  have "x \<in> dom (pool_tasks s)" using Cons.prems(4) by simp
  then have "drain_loop (Some q) s = drain_loop (Some q) s1"
    using h(1) by (subst drain_loop.simps) (auto simp: s1_def free_task_def)
  moreover have "(pool_tasks s1) |` (- set ts) = (pool_tasks s) |` (- set (x # ts))" by (auto simp: s1_def restrict_map_def fun_eq_iff)
  ultimately have "drain_loop (Some q) s = Some (s\<lparr>task_queue := h', pool_tasks := (pool_tasks s) |` (- set (x # ts))\<rparr>)"
    using h'(1) by (simp add: s1_def)
  moreover have "arena h' = pool_arena s" using h'(3) h(3) by (simp add: s1_def)
  ultimately show ?case using h'(2) by blast
qed

text \<open>Shutting down tells the dispatchers to leave and joins each of them; everything else stays in place.\<close>

lemma join_all:
  assumes crew: "crew_ok s a r t" "\<not> pl_off r" and s1: "pool_threads s1 = pool_threads s" "dispatchers s1 = wake a (dispatchers s)"
  shows "join_loop (Some t) (unat (pl_n_threads r)) 0 s1 = Some (s1\<lparr>dispatchers := settled a (dispatchers s)\<rparr>)"
proof -
  let ?ds = "dispatchers s" and ?n = "unat (pl_n_threads r)"
  obtain ids where ids: "pool_threads s t = Some (map Some ids)" "length ids = ?n" "distinct ids"
    "\<And>i. i \<in> set ids \<longleftrightarrow> i < length ?ds \<and> dp_pool (?ds ! i) = a" "\<forall>d \<in> set ?ds. dp_pool d = a \<longrightarrow> dp_state d = Running"
    using crew unfolding crew_ok_def by auto
  have len: "length (dispatchers s1) = length ?ds" by (simp add: s1(2) wake_def)
  have at: "dispatchers s1 ! i = (if dp_pool (?ds ! i) = a \<and> dp_state (?ds ! i) = Running then (?ds ! i)\<lparr>dp_state := Leaving\<rparr> else ?ds ! i)"
    if "i < length ?ds" for i using that by (simp add: s1(2) wake_def)
  have running: "dp_state (?ds ! i) = Running" if "i \<in> set ids" for i using that ids(4,5) nth_mem by auto
  have "ids ! j < length (dispatchers s1) \<and> dp_state (dispatchers s1 ! (ids ! j)) = Leaving" if "j < ?n" for j
  proof -
    have "ids ! j \<in> set ids" using that ids(2) by simp
    then show ?thesis using ids(4) [of "ids ! j"] running [of "ids ! j"] at [of "ids ! j"] len by simp
  qed
  then obtain ds where ds: "join_loop (Some t) ?n 0 s1 = Some (s1\<lparr>dispatchers := ds\<rparr>)" "length ds = length (dispatchers s1)"
    "\<forall>i < length ds. ds ! i = (if i \<in> set (drop 0 ids) then (dispatchers s1 ! i)\<lparr>dp_state := Joined\<rparr> else dispatchers s1 ! i)"
    using join_loop_spec [of s1 t "map Some ids" ?n ids 0] ids(1-3) s1(1) by auto
  have "ds = settled a ?ds"
  proof (rule nth_equalityI)
    fix i assume "i < length ds"
    then have i: "i < length ?ds" "ds ! i = (if i \<in> set ids then (dispatchers s1 ! i)\<lparr>dp_state := Joined\<rparr> else dispatchers s1 ! i)"
      using ds(2,3) len by simp_all
    show "ds ! i = settled a ?ds ! i"
      using i ids(4) [of i] running [of i] at [OF i(1)] by (cases "i \<in> set ids") (auto simp: settled_def)
  qed (use ds(2) len in \<open>simp add: settled_def\<close>)
  with ds(1) show ?thesis by simp
qed

lemma crew_ok_off:
  assumes "crew_ok s a r t" and "pool_threads s' = pool_threads s" and "dispatchers s' = settled a (dispatchers s)" and "pl_n_threads r' = pl_n_threads r" and "pl_off r'"
  shows "crew_ok s' a r' t"
proof -
  obtain ids where ids: "pool_threads s t = Some (map Some ids)" "length ids = unat (pl_n_threads r)" "distinct ids"
    "\<forall>i. i \<in> set ids \<longleftrightarrow> i < length (dispatchers s) \<and> dp_pool (dispatchers s ! i) = a"
    using assms(1) unfolding crew_ok_def by blast
  have "i \<in> set ids \<longleftrightarrow> i < length (dispatchers s') \<and> dp_pool (dispatchers s' ! i) = a" for i
    unfolding assms(3) settled_def using ids(4) by (cases "i < length (dispatchers s)") simp_all
  moreover have "\<forall>d \<in> set (dispatchers s'). dp_pool d = a \<longrightarrow> dp_state d = Joined" unfolding assms(3) by (rule settled_state)
  ultimately show ?thesis using ids(1-3) assms(2,4,5) unfolding crew_ok_def by (intro exI [of _ ids]) simp
qed

lemma pool_shutdown_spec:
  assumes ok: "pool_ok s S a r q k c d t ts" and on: "\<not> pl_off r"
  shows "\<exists>s'. pool_shutdown (Some a) s = Some (0, s') \<and> pool_ok s' S a (r\<lparr>pl_on := False, pl_off := True\<rparr>) q k c d t ts
    \<and> s' = s\<lparr>pool_structs := (pool_structs s)(a \<mapsto> r\<lparr>pl_on := False, pl_off := True\<rparr>), dispatchers := settled a (dispatchers s)\<rparr>"
proof -
  let ?r = "r\<lparr>pl_on := False, pl_off := True\<rparr>"
  let ?s = "s\<lparr>pool_structs := (pool_structs s)(a \<mapsto> ?r)\<rparr>"
  have crew: "crew_ok s a r t" using ok by (simp add: pool_ok_def)
  have "broadcast (Some a) ?s = Some (?s\<lparr>dispatchers := wake a (dispatchers ?s)\<rparr>)"
    by (rule broadcast_spec [where r = ?r and k = k and c = c]) (use ok in \<open>simp_all add: pool_ok_def\<close>)
  moreover have "join_loop (Some t) (unat (pl_n_threads r)) 0 (?s\<lparr>dispatchers := wake a (dispatchers s)\<rparr>)
    = Some (?s\<lparr>dispatchers := settled a (dispatchers s)\<rparr>)"
    using join_all [OF crew on, of "?s\<lparr>dispatchers := wake a (dispatchers s)\<rparr>"] by simp
  ultimately have "pool_shutdown (Some a) s = Some (0, ?s\<lparr>dispatchers := settled a (dispatchers s)\<rparr>)"
    using ok by (simp add: pool_shutdown_def pool_ok_def)
  moreover have "crew_ok (?s\<lparr>dispatchers := settled a (dispatchers s)\<rparr>) a ?r t" by (rule crew_ok_off [OF crew]) simp_all
  ultimately show ?thesis using ok by (intro exI conjI) (auto simp: pool_ok_def)
qed

text \<open>A pool that was shut down must not be shut down again: its dispatchers would be joined twice.\<close>

lemma pool_shutdown_twice:
  assumes ok: "pool_ok s S a r q k c d t ts" and off: "pl_off r" and n: "pl_n_threads r \<noteq> 0"
  shows "pool_shutdown (Some a) s = None"
proof -
  let ?r = "r\<lparr>pl_on := False, pl_off := True\<rparr>"
  let ?s = "s\<lparr>pool_structs := (pool_structs s)(a \<mapsto> ?r)\<rparr>"
  obtain ids where ids: "pool_threads s t = Some (map Some ids)" "length ids = unat (pl_n_threads r)"
    "\<And>i. i \<in> set ids \<longleftrightarrow> i < length (dispatchers s) \<and> dp_pool (dispatchers s ! i) = a" "\<forall>d \<in> set (dispatchers s). dp_pool d = a \<longrightarrow> dp_state d = Joined"
    using ok off unfolding pool_ok_def crew_ok_def by auto
  have "wake a (dispatchers s) = dispatchers s" using ids(4) by (auto simp: wake_def intro!: map_idI)
  moreover have "broadcast (Some a) ?s = Some (?s\<lparr>dispatchers := wake a (dispatchers ?s)\<rparr>)"
    by (rule broadcast_spec [where r = ?r and k = k and c = c]) (use ok in \<open>simp_all add: pool_ok_def\<close>)
  moreover have pos: "0 < length ids" using n ids(2) by (simp add: unat_gt_0)
  then have "ids ! 0 \<in> set ids" by simp
  then have "dp_state (dispatchers s ! (ids ! 0)) = Joined" using ids(3,4) by auto
  then have "join_loop (Some t) (unat (pl_n_threads r)) 0 ?s = None"
    using ids(1,2) pos by (subst join_loop.simps) (simp add: join_thread_def)
  ultimately show ?thesis using ok by (simp add: pool_shutdown_def pool_ok_def)
qed

lemma thread_pool_free_spec:
  assumes ok: "pool_ok s S a r q k c d t ts"
  shows "\<exists>s'. thread_pool_free (Some a) s = Some (0, s') \<and> pool_structs s' = (pool_structs s)(a := None) \<and> pool_mutexes s' = (pool_mutexes s)(k := None)
    \<and> pool_conds s' = (pool_conds s)(c := None, d := None) \<and> pool_threads s' = (pool_threads s)(t := None)
    \<and> pool_tasks s' = (pool_tasks s) |` (- set ts) \<and> qs_rep (task_queue s') (S(q := None)) \<and> dispatchers s' = settled a (dispatchers s)"
proof -
  obtain s1 r1 where s1: "(if \<not> pl_off r then Option.bind (pool_shutdown (Some a) s) (\<lambda>(_, s). Some s) else Some s) = Some s1"
    "pool_ok s1 S a r1 q k c d t ts" "(pool_structs s1)(a := None) = (pool_structs s)(a := None)" "pool_mutexes s1 = pool_mutexes s" "pool_conds s1 = pool_conds s"
    "pool_threads s1 = pool_threads s" "pool_tasks s1 = pool_tasks s" "dispatchers s1 = settled a (dispatchers s)"
  proof (cases "pl_off r")
    case True
    then have "settled a (dispatchers s) = dispatchers s" using ok by (intro settled_joined) (auto simp: pool_ok_def crew_ok_def)
    with True ok that [of s r] show ?thesis by simp
  next
    case False
    from pool_shutdown_spec [OF ok this] False that show ?thesis by auto
  qed
  note o = s1(2) [unfolded pool_ok_def]
  have qs: "qs_rep (task_queue s1) S" "S q = Some (no_tasks\<lparr>al_items := map Some ts\<rparr>)" "distinct ts" "set ts \<subseteq> dom (pool_tasks s1)" using o by blast+
  obtain h where h: "drain_loop (Some q) s1 = Some (s1\<lparr>task_queue := h, pool_tasks := (pool_tasks s1) |` (- set ts)\<rparr>)" "qs_rep h (S(q \<mapsto> no_tasks))"
    using drain_loop_spec [OF qs] by blast
  obtain h' where h': "generic_queue_syn_free (Some q) h = Some (0, h')" "qs_rep h' ((S(q \<mapsto> no_tasks))(q := None))"
    using syn_free_spec [OF h(2), of q no_tasks "()"] by auto
  obtain ids where ths: "pool_threads s1 t = Some (map Some ids)" using o unfolding crew_ok_def by blast
  have at: "pool_structs s a = Some r" using ok by (simp add: pool_ok_def)
  have "\<not> busy a s1" by (rule settled_quiet [OF s1(8)])
  then have "thread_pool_free (Some a) s = Some (0, s1\<lparr>task_queue := h', pool_tasks := (pool_tasks s1) |` (- set ts), pool_mutexes := (pool_mutexes s1)(k := None),
      pool_conds := (pool_conds s1)(c := None, d := None), pool_threads := (pool_threads s1)(t := None), pool_structs := (pool_structs s1)(a := None)\<rparr>)"
    using at s1(1) o h(1) h'(1) ths by (simp add: thread_pool_free_def pool_order)
  with s1(3-8) h'(2) show ?thesis by simp
qed

text \<open>A pool that was just created is well formed, with no task in its queue; releasing it restores what was there before.\<close>

lemma complete_pool_ok:
  assumes "complete s0 S n a s"
  shows "\<exists>q r k c d t. pool_ok s (S(q \<mapsto> no_tasks)) a r q k c d t []
    \<and> made s0 S a q r (mutexes_of s0 k) (conds_of s0 c d) ((pool_threads s0)(t \<mapsto> map Some (numbers s0 (unat n)))) (crew a (unat n) Running) s
    \<and> parts s0 r k c d \<and> pool_threads s0 t = None"
proof -
  obtain q r k c d t where m: "made s0 S a q r (mutexes_of s0 k) (conds_of s0 c d) ((pool_threads s0)(t \<mapsto> map Some (numbers s0 (unat n)))) (crew a (unat n) Running) s"
    and p: "parts s0 r k c d" "pl_dispatcher_threads r = Some t" "pool_threads s0 t = None" "pl_n_threads r = n" "\<not> pl_off r"
    using assms unfolding complete_def by blast
  have ds: "dispatchers s = dispatchers s0 @ crew a (unat n) Running" "\<forall>d \<in> set (dispatchers s0). dp_pool d \<noteq> a" using m by (simp_all add: made_def)
  have "i \<in> set (numbers s0 (unat n)) \<longleftrightarrow> i < length (dispatchers s) \<and> dp_pool (dispatchers s ! i) = a" for i
    using ds by (auto simp: nth_append)
  moreover have "\<forall>d \<in> set (dispatchers s). dp_pool d = a \<longrightarrow> dp_state d = Running" unfolding ds(1) using ds(2) by (simp add: set_replicate_conv_if ball_Un)
  ultimately have "crew_ok s a r t" using m p unfolding crew_ok_def by (intro exI [of _ "numbers s0 (unat n)"]) (simp add: made_def)
  then have "pool_ok s (S(q \<mapsto> no_tasks)) a r q k c d t []" using m p by (auto simp: pool_ok_def made_def parts_def)
  with m p show ?thesis by blast
qed

lemma pool_new_free:
  assumes "complete s0 S n a s"
  shows "\<exists>s'. thread_pool_free (Some a) s = Some (0, s') \<and> undone s0 S s'"
proof -
  obtain q r k c d t where ok: "pool_ok s (S(q \<mapsto> no_tasks)) a r q k c d t []" and p: "parts s0 r k c d" "pool_threads s0 t = None"
    and m: "made s0 S a q r (mutexes_of s0 k) (conds_of s0 c d) ((pool_threads s0)(t \<mapsto> map Some (numbers s0 (unat n)))) (crew a (unat n) Running) s"
    using complete_pool_ok [OF assms] by blast
  obtain s' where s': "thread_pool_free (Some a) s = Some (0, s')" "pool_structs s' = (pool_structs s)(a := None)" "pool_mutexes s' = (pool_mutexes s)(k := None)"
    "pool_conds s' = (pool_conds s)(c := None, d := None)" "pool_threads s' = (pool_threads s)(t := None)" "pool_tasks s' = pool_tasks s"
    "qs_rep (task_queue s') ((S(q \<mapsto> no_tasks))(q := None))" "dispatchers s' = settled a (dispatchers s)"
    using thread_pool_free_spec [OF ok] by (auto simp: restrict_map_def)
  have "(S(q \<mapsto> no_tasks))(q := None) = S" "(pool_structs s)(a := None) = pool_structs s0" "(pool_mutexes s)(k := None) = pool_mutexes s0"
    "(pool_conds s)(c := None, d := None) = pool_conds s0" "(pool_threads s)(t := None) = pool_threads s0" "pool_tasks s = pool_tasks s0"
    using m p by (auto simp: made_def parts_def)
  moreover have "settled a (dispatchers s) = dispatchers s0 @ crew a (unat n) Joined" using m by (auto simp: made_def settled_def intro!: map_idI)
  ultimately show ?thesis using s' by (auto simp: undone_def)
qed

section \<open>A pool with two dispatchers and a pending task\<close>

definition sample_tasks :: "(addr, unit) qs_heap" where
  "sample_tasks = \<lparr>
     nodes = [2 \<mapsto> \<lparr>node_data = NULL, node_next = Some 4, node_prev = NULL\<rparr>,
              4 \<mapsto> \<lparr>node_data = Some 17, node_next = Some 3, node_prev = Some 2\<rparr>,
              3 \<mapsto> \<lparr>node_data = NULL, node_next = NULL, node_prev = Some 4\<rparr>],
     lists = [11 \<mapsto> \<lparr>ll_size = 1, ll_head_guard = Some 2, ll_tail_guard = Some 3, ll_free_function = NULL, ll_copy_function = NULL\<rparr>],
     iters = Map.empty, arena = sample_alloc, world = (), queues = [8 \<mapsto> \<lparr>q_list = Some 11\<rparr>],
     syns = [9 \<mapsto> \<lparr>qs_queue = Some 8, qs_mutex = Unlocked\<rparr>]\<rparr>"

definition sample_pool_struct :: pool_struct where
  "sample_pool_struct = \<lparr>pl_queue_syn = Some 9, pl_mutex = Some 13, pl_new_task = Some 14, pl_task_done = Some 15, pl_on = True, pl_off = False,
     pl_in_flight = 0, pl_n_threads = 2, pl_dispatcher_threads = Some 16\<rparr>"

definition sample_pool :: pool_store where
  "sample_pool = \<lparr>pool_structs = [12 \<mapsto> sample_pool_struct], pool_mutexes = [13 \<mapsto> Some Unlocked], pool_conds = [14 \<mapsto> Some (), 15 \<mapsto> Some ()],
     pool_threads = [16 \<mapsto> [Some 0, Some 1]], dispatchers = [\<lparr>dp_pool = 12, dp_state = Running\<rparr>, \<lparr>dp_pool = 12, dp_state = Running\<rparr>], pool_tasks = [17 \<mapsto> \<lparr>pt_function = Some 18, pt_arg = Some 19\<rparr>], task_queue = sample_tasks\<rparr>"

lemma sample_tasks_rep: "qs_rep sample_tasks [9 \<mapsto> no_tasks\<lparr>al_items := [Some 17]\<rparr>]"
proof -
  let ?L = "no_tasks\<lparr>al_items := [Some 17]\<rparr>" and ?P = "[11 \<mapsto> Shape 2 [(4, Some (17::addr))] 3]"
  have "ll_inv (nodes sample_tasks) (lists sample_tasks) (iters sample_tasks) (ticks (arena sample_tasks)) ?P"
    by (auto 0 3 simp: ll_inv_def list_ok_def sample_tasks_def block_limit_def split: if_splits)
  moreover have "ll_abs (lists sample_tasks) ?P = [11 \<mapsto> ?L]" by (auto simp: ll_abs_def sample_tasks_def fun_eq_iff)
  ultimately have "ll_rep sample_tasks [11 \<mapsto> ?L] Map.empty"
    unfolding ll_rep_def by (intro exI [of _ ?P]) (simp add: iters_ok_def sample_tasks_def)
  moreover have "q_link (queues sample_tasks) [11 \<mapsto> ?L] [8 \<mapsto> ?L]" by (auto simp: q_link_def owns_def sample_tasks_def split: if_splits)
  ultimately have "q_rep sample_tasks [8 \<mapsto> ?L]" unfolding q_rep_def by (auto simp: sample_tasks_def block_limit_def)
  moreover have "owns (map_option qs_queue \<circ> syns sample_tasks) [8 \<mapsto> ?L] [9 \<mapsto> ?L]" by (auto simp: owns_def sample_tasks_def split: if_splits)
  ultimately show ?thesis unfolding qs_rep_def by (auto simp: sample_tasks_def block_limit_def)
qed

lemma sample_pool_ok: "pool_ok sample_pool [9 \<mapsto> no_tasks\<lparr>al_items := [Some 17]\<rparr>] 12 sample_pool_struct 9 13 14 15 16 [17]"
proof -
  have "crew_ok sample_pool 12 sample_pool_struct 16"
    unfolding crew_ok_def by (intro exI [of _ "[0, 1]"]) (auto simp: sample_pool_def sample_pool_struct_def nth_Cons split: nat.splits)
  with sample_tasks_rep show ?thesis by (auto simp: pool_ok_def sample_pool_def sample_pool_struct_def)
qed

lemma sample_pool_bounded: "bounded sample_pool"
  by (auto simp: bounded_def below_def sample_pool_def sample_tasks_def Let_def)

end
