(* ===== verification/Broker_Lifecycle.thy ===== *)
theory Broker_Lifecycle
  imports Broker_Specs Pool_Specs Thread_Pool
begin

text \<open>
  \<open>message_broker_new\<close>, \<open>message_broker_free\<close> and \<open>message_broker_wait\<close> of \<^verbatim>\<open>src/message_broker.c\<close>: the creation of a broker from a thread pool and a table, and
  its release.

  The state is the store of the broker together with the store of \<^verbatim>\<open>Pool_Lifecycle\<close>, in which the pool is created and released.  Between the
  two the broker sees the pool through \<^verbatim>\<open>pools\<close>: it appears there when it has been created, with an empty queue, and disappears when it is released.
\<close>

section \<open>Structures\<close>

record message_broker_configuration_t =
  cfg_n_threads :: size_t
  cfg_channels_capacity :: size_t

record broker_world =
  bw_store :: broker_store
  bw_pool :: pool_store

definition on_store :: "(broker_store \<Rightarrow> broker_store option) \<Rightarrow> broker_world \<Rightarrow> broker_world option" where
  "on_store f w = map_option (\<lambda>b. w\<lparr>bw_store := b\<rparr>) (f (bw_store w))"

text \<open>A fresh block has null fields; its mutex is not used before it has been initialised.\<close>

definition malloc_broker :: "broker_store \<Rightarrow> addr ptr \<times> broker_store" where
  "malloc_broker b = (case malloc (br_arena b) of
     (NULL, A) \<Rightarrow> (NULL, b\<lparr>br_arena := A\<rparr>)
   | (Some a, A) \<Rightarrow> (Some a, b\<lparr>br_arena := A, brokers := (brokers b)(a \<mapsto> \<lparr>mb_publisher_pool = NULL, mb_channels = NULL,
       mb_channels_mutex = Unlocked, mb_next_subscriber_id = 0, mb_next_message_id = 0\<rparr>)\<rparr>))"

definition free_broker :: "addr ptr \<Rightarrow> broker_store \<Rightarrow> broker_store option" where
  "free_broker p b = do {
     a \<leftarrow> p;
     _ \<leftarrow> brokers b a;
     Some (b\<lparr>brokers := (brokers b)(a := None)\<rparr>) }"

definition set_table :: "(string, addr, channel_store) ht_heap \<Rightarrow> broker_world \<Rightarrow> broker_world" where
  "set_table h w = w\<lparr>bw_store := (bw_store w)\<lparr>table_heap := h\<rparr>\<rparr>"

section \<open>The pool of a broker\<close>

definition broker_pool_new :: "size_t \<Rightarrow> addr ptr out \<Rightarrow> broker_world \<Rightarrow> (exit_code \<times> addr ptr out \<times> broker_world) option" where
  "broker_pool_new n out w = do {
     (exit_code, out, ps) \<leftarrow> thread_pool_new n out (bw_pool w);
     let w = w\<lparr>bw_pool := ps\<rparr>;
     if exit_code \<noteq> 0 then Some (exit_code, out, w)
     else do {
       p \<leftarrow> out;
       a \<leftarrow> p;
       r \<leftarrow> pool_structs ps a;
       w \<leftarrow> on_store (\<lambda>b. Some (b\<lparr>pools := (pools b)(a \<mapsto> \<lparr>po_off = pl_off r, po_tasks = []\<rparr>)\<rparr>)) w;
       Some (0, out, w) } }"

definition broker_pool_free :: "addr ptr \<Rightarrow> broker_world \<Rightarrow> (exit_code, broker_world) res" where
  "broker_pool_free p w = do {
     (exit_code, ps) \<leftarrow> thread_pool_free p (bw_pool w);
     w \<leftarrow> on_store (\<lambda>b. Some (case p of NULL \<Rightarrow> b | Some a \<Rightarrow> b\<lparr>pools := (pools b)(a := None)\<rparr>)) (w\<lparr>bw_pool := ps\<rparr>);
     Some (exit_code, w) }"

section \<open>Creation\<close>

definition init_channels_mutex :: "broker_world \<Rightarrow> exit_code \<times> broker_world" where
  "init_channels_mutex w = (case sys_init (br_arena (bw_store w)) of (r, A) \<Rightarrow> (r, w\<lparr>bw_store := (bw_store w)\<lparr>br_arena := A\<rparr>\<rparr>))"

definition message_broker_new ::
  "message_broker_configuration_t ptr \<Rightarrow> addr ptr out \<Rightarrow> broker_world \<Rightarrow> (exit_code \<times> addr ptr out \<times> broker_world) option" where
  "message_broker_new config out_self w =
     (if out_self = NULL then Some (1, out_self, w)
      else case config of NULL \<Rightarrow> Some (1, out_self, w)
      | Some cfg \<Rightarrow>
        if cfg_n_threads cfg = 0 then Some (1, out_self, w)
        else if cfg_channels_capacity cfg = 0 then Some (1, out_self, w)
        else do {
          let (self, b) = malloc_broker (bw_store w);
          let w = w\<lparr>bw_store := b\<rparr>;
          if self = NULL then Some (-1, out_self, w)
          else do {
            (exit_code, field, w) \<leftarrow> broker_pool_new (cfg_n_threads cfg) (Some NULL) w;
            pool \<leftarrow> field;
            w \<leftarrow> on_store (modify_broker self (\<lambda>r. r\<lparr>mb_publisher_pool := pool\<rparr>)) w;
            if exit_code \<noteq> 0 then do {
              w \<leftarrow> on_store (free_broker self) w;
              Some (exit_code, out_self, w) }
            else do {
              (exit_code, field, h) \<leftarrow> generic_hash_table_new (cfg_channels_capacity cfg) (Some string_hash) (Some channel_free_wrapper)
                (Some channel_copy) (Some key_free) (Some key_copy) (Some string_compare) (Some NULL) (table_heap (bw_store w));
              table \<leftarrow> field;
              w \<leftarrow> on_store (modify_broker self (\<lambda>r. r\<lparr>mb_channels := table\<rparr>)) (set_table h w);
              if exit_code \<noteq> 0 then do {
                (_, w) \<leftarrow> broker_pool_free pool w;
                w \<leftarrow> on_store (free_broker self) w;
                Some (exit_code, out_self, w) }
              else do {
                let (exit_code, w) = init_channels_mutex w;
                if exit_code \<noteq> 0 then do {
                  (_, h) \<leftarrow> generic_hash_table_free table (table_heap (bw_store w));
                  (_, w) \<leftarrow> broker_pool_free pool (set_table h w);
                  w \<leftarrow> on_store (free_broker self) w;
                  Some (exit_code, out_self, w) }
                else do {
                  w \<leftarrow> on_store (modify_broker self (\<lambda>r. r\<lparr>mb_channels_mutex := Unlocked, mb_next_subscriber_id := 1, mb_next_message_id := 1\<rparr>)) w;
                  Some (0, Some self, w) } } } } })"

section \<open>Release and waiting\<close>

definition message_broker_free :: "addr ptr \<Rightarrow> broker_world \<Rightarrow> (exit_code, broker_world) res" where
  "message_broker_free self w =
     (if self = NULL then Some (1, w)
      else do {
        r \<leftarrow> broker_at (bw_store w) self;
        (_, w) \<leftarrow> broker_pool_free (mb_publisher_pool r) w;
        (_, h) \<leftarrow> generic_hash_table_free (mb_channels r) (table_heap (bw_store w));
        let w = set_table h w;
        _ \<leftarrow> pthread_mutex_destroy (mb_channels_mutex r);
        w \<leftarrow> on_store (free_broker self) w;
        Some (0, w) })"

text \<open>Where a thread that calls \<open>message_broker_wait\<close> goes on, in the pool of \<^verbatim>\<open>Thread_Pool\<close>.\<close>

definition message_broker_wait :: "addr ptr \<Rightarrow> broker_store \<Rightarrow> 't pc option" where
  "message_broker_wait self b =
     (if self = NULL then Some (Returned 1)
      else do {
        r \<leftarrow> broker_at b self;
        Some (thread_pool_wait (mb_publisher_pool r \<noteq> NULL)) })"

section \<open>What creation does\<close>

lemmas broker_accesses [simp] = on_store_def free_broker_def set_table_def

lemma malloc_broker_simps [simp]:
  "refused (br_arena b) \<Longrightarrow> malloc_broker b = (NULL, b\<lparr>br_arena := tick (br_arena b)\<rparr>)"
  "\<not> refused (br_arena b) \<Longrightarrow> malloc_broker b = (Some (Suc (ticks (br_arena b))), b\<lparr>br_arena := tick (br_arena b),
     brokers := (brokers b)(Suc (ticks (br_arena b)) \<mapsto> \<lparr>mb_publisher_pool = NULL, mb_channels = NULL,
       mb_channels_mutex = Unlocked, mb_next_subscriber_id = 0, mb_next_message_id = 0\<rparr>)\<rparr>)"
  by (simp_all add: malloc_broker_def)

text \<open>Updates of different fields commute; they are written in one order.\<close>

lemma store_order:
  fixes b :: broker_store and w :: broker_world
  shows "b\<lparr>pools := P, brokers := K\<rparr> = b\<lparr>brokers := K, pools := P\<rparr>" "b\<lparr>br_arena := A, brokers := K\<rparr> = b\<lparr>brokers := K, br_arena := A\<rparr>"
    "b\<lparr>br_arena := A, pools := P\<rparr> = b\<lparr>pools := P, br_arena := A\<rparr>" "b\<lparr>table_heap := h, brokers := K\<rparr> = b\<lparr>brokers := K, table_heap := h\<rparr>"
    "b\<lparr>table_heap := h, pools := P\<rparr> = b\<lparr>pools := P, table_heap := h\<rparr>" "b\<lparr>table_heap := h, br_arena := A\<rparr> = b\<lparr>br_arena := A, table_heap := h\<rparr>"
    "w\<lparr>bw_pool := ps, bw_store := b\<rparr> = w\<lparr>bw_store := b, bw_pool := ps\<rparr>"
  by (cases b; cases w; simp)+

lemma store_same: "(b :: broker_store)\<lparr>brokers := brokers b\<rparr> = b" "b\<lparr>pools := pools b\<rparr> = b"
  by (cases b; simp)+

text \<open>A store without a broker, and the broker that is created in it.\<close>

definition idle_store :: "broker_store \<Rightarrow> (addr \<rightharpoonup> message_t) \<Rightarrow> bool" where
  "idle_store b D \<longleftrightarrow> brokers b = Map.empty \<and> subscriptions b = Map.empty \<and> task_args b = Map.empty \<and> pools b = Map.empty
     \<and> ht_rep (table_heap b) Map.empty \<and> ch_rep (channel_heap b) Map.empty Map.empty D"

definition channel_table_of :: "size_t \<Rightarrow> (string, addr, channel_store) atable" where
  "channel_table_of capacity = fresh_table capacity string_hash channel_free_wrapper channel_copy key_free key_copy string_compare"

definition fresh_broker :: "size_t \<Rightarrow> (addr \<rightharpoonup> message_t) \<Rightarrow> abroker" where
  "fresh_broker capacity D = \<lparr>ab_table = channel_table_of capacity, ab_channels = Map.empty, ab_proxies = Map.empty, ab_held = D,
     ab_subscriptions = Map.empty, ab_tasks = [], ab_off = False, ab_next_subscriber = 1, ab_next_message = 1\<rparr>"

lemma broker_pool_new_ok:
  assumes "thread_pool_new n (Some v) (bw_pool w) = Some (0, Some (Some q), ps)" and "complete ps0 S n q ps"
  shows "broker_pool_new n (Some v) w
    = Some (0, Some (Some q), w\<lparr>bw_pool := ps, bw_store := (bw_store w)\<lparr>pools := (pools (bw_store w))(q \<mapsto> \<lparr>po_off = False, po_tasks = []\<rparr>)\<rparr>\<rparr>)"
  using assms by (auto simp: broker_pool_new_def complete_def made_def)

lemma broker_pool_free_new:
  assumes "complete ps0 S n q (bw_pool w)"
  shows "\<exists>ps. broker_pool_free (Some q) w = Some (0, w\<lparr>bw_pool := ps, bw_store := (bw_store w)\<lparr>pools := (pools (bw_store w))(q := None)\<rparr>\<rparr>)
    \<and> undone ps0 S ps"
  using pool_new_free [OF assms] by (auto simp: broker_pool_free_def)

lemma tb_rep_fresh:
  assumes "ht_rep h [t \<mapsto> channel_table_of capacity]" and "ch_rep (world h) Map.empty Map.empty D"
  shows "tb_rep h t (channel_table_of capacity) Map.empty Map.empty D"
  using assms by (simp add: tb_rep_def broker_callbacks_def channel_table_of_def fresh_table_def pairs_def stored_def)

lemma release_fresh: "release_all (channel_table_of capacity) (concat (at_buckets (channel_table_of capacity))) w = Some w"
proof -
  have "concat (replicate n []) = []" for n by (induction n) simp_all
  then show ?thesis by (simp add: channel_table_of_def fresh_table_def)
qed

definition granted_all :: "message_broker_configuration_t \<Rightarrow> broker_world \<Rightarrow> bool" where
  "granted_all cfg w \<longleftrightarrow> grants 2 (br_arena (bw_store w)) \<and> grants (14 + unat (cfg_n_threads cfg)) (pool_arena (bw_pool w))
     \<and> grants (3 + 4 * unat (cfg_channels_capacity cfg)) (arena (table_heap (bw_store w)))"

definition broker_created :: "message_broker_configuration_t \<Rightarrow> broker_world \<Rightarrow> (addr \<rightharpoonup> (addr, unit) alist) \<Rightarrow> (addr \<rightharpoonup> message_t) \<Rightarrow> addr \<Rightarrow> broker_world \<Rightarrow> bool" where
  "broker_created cfg w S D a w' \<longleftrightarrow> br_rep (bw_store w') a (fresh_broker (cfg_channels_capacity cfg) D)
     \<and> (\<exists>r q. brokers (bw_store w') = [a \<mapsto> r] \<and> mb_publisher_pool r = Some q \<and> dom (pools (bw_store w')) = {q}
          \<and> complete (bw_pool w) S (cfg_n_threads cfg) q (bw_pool w'))"

abbreviation blank_broker :: message_broker_t where
  "blank_broker \<equiv> \<lparr>mb_publisher_pool = NULL, mb_channels = NULL, mb_channels_mutex = Unlocked, mb_next_subscriber_id = 0, mb_next_message_id = 0\<rparr>"

abbreviation new_channels :: "size_t \<Rightarrow> (string, addr, channel_store) ht_heap
    \<Rightarrow> (exit_code \<times> addr ptr out \<times> (string, addr, channel_store) ht_heap) option" where
  "new_channels capacity h \<equiv> generic_hash_table_new capacity (Some string_hash) (Some channel_free_wrapper) (Some channel_copy) (Some key_free) (Some key_copy)
     (Some string_compare) (Some NULL) h"

text \<open>The four ways in which a creation goes once its own block is there: no pool, no table, no mutex, or success.\<close>

lemmas broker_new_simps = message_broker_new_def modify_broker_def init_channels_mutex_def Let_def store_order

lemma broker_new_no_pool:
  assumes "idle_store (bw_store w) D" and "cfg_n_threads cfg \<noteq> 0" "cfg_channels_capacity cfg \<noteq> 0" and "\<not> refused (br_arena (bw_store w))"
    and "thread_pool_new (cfg_n_threads cfg) (Some NULL) (bw_pool w) = Some (e, Some NULL, ps)" and "e \<noteq> 0"
  shows "\<exists>b. message_broker_new (Some cfg) (Some v) w = Some (e, Some v, w\<lparr>bw_store := b, bw_pool := ps\<rparr>) \<and> idle_store b D"
  using assms by (intro exI [of _ "(bw_store w)\<lparr>br_arena := tick (br_arena (bw_store w))\<rparr>"])
    (simp add: broker_new_simps broker_pool_new_def idle_store_def)

lemma broker_new_pool:
  assumes "idle_store (bw_store w) D" and "thread_pool_new n (Some NULL) (bw_pool w) = Some (0, Some (Some q), ps)" "complete (bw_pool w) S n q ps"
  shows "broker_pool_new n (Some NULL) (w\<lparr>bw_store := (bw_store w)\<lparr>br_arena := A, brokers := K\<rparr>\<rparr>)
    = Some (0, Some (Some q), w\<lparr>bw_store := (bw_store w)\<lparr>br_arena := A, brokers := K, pools := [q \<mapsto> \<lparr>po_off = False, po_tasks = []\<rparr>]\<rparr>, bw_pool := ps\<rparr>)"
  using broker_pool_new_ok [where w = "w\<lparr>bw_store := b\<rparr>" for b] assms by (simp add: store_order idle_store_def)

lemma broker_new_no_table:
  assumes idle: "idle_store (bw_store w) D" and n: "cfg_n_threads cfg \<noteq> 0" "cfg_channels_capacity cfg \<noteq> 0" and a: "\<not> refused (br_arena (bw_store w))"
    and p: "thread_pool_new (cfg_n_threads cfg) (Some NULL) (bw_pool w) = Some (0, Some (Some q), ps)" "complete (bw_pool w) S (cfg_n_threads cfg) q ps"
    and t: "new_channels (cfg_channels_capacity cfg) (table_heap (bw_store w)) = Some (-1, Some NULL, h)" "ht_rep h Map.empty" "world h = channel_heap (bw_store w)"
  shows "\<exists>b ps'. message_broker_new (Some cfg) (Some v) w = Some (-1, Some v, w\<lparr>bw_store := b, bw_pool := ps'\<rparr>) \<and> idle_store b D \<and> undone (bw_pool w) S ps'"
proof -
  let ?b = "bw_store w" and ?a = "Suc (ticks (br_arena (bw_store w)))"
  note I = idle [unfolded idle_store_def]
  define b1 where "b1 = ?b\<lparr>table_heap := h, br_arena := tick (br_arena ?b)\<rparr>"
  define w2 where "w2 = w\<lparr>bw_pool := ps, bw_store := b1\<lparr>brokers := [?a \<mapsto> blank_broker\<lparr>mb_publisher_pool := Some q\<rparr>],
    pools := [q \<mapsto> \<lparr>po_off = False, po_tasks = []\<rparr>]\<rparr>\<rparr>"
  have "complete (bw_pool w) S (cfg_n_threads cfg) q (bw_pool w2)" using p(2) by (simp add: w2_def)
  from broker_pool_free_new [OF this] obtain ps' where ps': "broker_pool_free (Some q) w2
      = Some (0, w2\<lparr>bw_pool := ps', bw_store := (bw_store w2)\<lparr>pools := (pools (bw_store w2))(q := None)\<rparr>\<rparr>)" "undone (bw_pool w) S ps'" by blast
  have "message_broker_new (Some cfg) (Some v) w = Some (-1, Some v, w\<lparr>bw_store := b1, bw_pool := ps'\<rparr>)"
    using n a I ps'(1) t(1) broker_new_pool [OF idle p] unfolding w2_def b1_def by (simp add: broker_new_simps)
  moreover have "idle_store b1 D" using I t(2,3) by (simp add: idle_store_def b1_def)
  ultimately show ?thesis using ps'(2) by blast
qed

lemma broker_new_no_mutex:
  assumes idle: "idle_store (bw_store w) D" and n: "cfg_n_threads cfg \<noteq> 0" "cfg_channels_capacity cfg \<noteq> 0" and a: "\<not> refused (br_arena (bw_store w))"
    and p: "thread_pool_new (cfg_n_threads cfg) (Some NULL) (bw_pool w) = Some (0, Some (Some q), ps)" "complete (bw_pool w) S (cfg_n_threads cfg) q ps"
    and t: "new_channels (cfg_channels_capacity cfg) (table_heap (bw_store w)) = Some (0, Some (Some t), h)" "ht_rep h [t \<mapsto> channel_table_of (cfg_channels_capacity cfg)]"
      "world h = channel_heap (bw_store w)"
    and m: "refused (tick (br_arena (bw_store w)))" and g: "grants (unat (cfg_channels_capacity cfg)) (arena h)"
  shows "\<exists>e b ps'. message_broker_new (Some cfg) (Some v) w = Some (e, Some v, w\<lparr>bw_store := b, bw_pool := ps'\<rparr>) \<and> e \<noteq> 0 \<and> idle_store b D \<and> undone (bw_pool w) S ps'"
proof -
  let ?b = "bw_store w" and ?A = "br_arena (bw_store w)" and ?a = "Suc (ticks (br_arena (bw_store w)))"
  note I = idle [unfolded idle_store_def]
  obtain e where e: "sys_init (tick ?A) = (e, tick (tick ?A))" "e \<noteq> 0" using m by (auto simp: sys_init_def refused_def)
  from table_free_spec [OF t(2), of t, OF _ _ release_fresh] g obtain h2 where
    h2: "generic_hash_table_free (Some t) h = Some (0, h2)" "ht_rep h2 Map.empty" "world h2 = world h"
    by (auto simp: channel_table_of_def fresh_table_def)
  define b1 where "b1 = ?b\<lparr>table_heap := h2, br_arena := tick (tick ?A)\<rparr>"
  define w2 where "w2 = w\<lparr>bw_pool := ps, bw_store := b1\<lparr>brokers := [?a \<mapsto> blank_broker\<lparr>mb_publisher_pool := Some q, mb_channels := Some t\<rparr>],
    pools := [q \<mapsto> \<lparr>po_off = False, po_tasks = []\<rparr>]\<rparr>\<rparr>"
  have "complete (bw_pool w) S (cfg_n_threads cfg) q (bw_pool w2)" using p(2) by (simp add: w2_def)
  from broker_pool_free_new [OF this] obtain ps' where ps': "broker_pool_free (Some q) w2
      = Some (0, w2\<lparr>bw_pool := ps', bw_store := (bw_store w2)\<lparr>pools := (pools (bw_store w2))(q := None)\<rparr>\<rparr>)" "undone (bw_pool w) S ps'" by blast
  have "message_broker_new (Some cfg) (Some v) w = Some (e, Some v, w\<lparr>bw_store := b1, bw_pool := ps'\<rparr>)"
    using n a I ps'(1) t(1) h2(1) e broker_new_pool [OF idle p] unfolding w2_def b1_def by (simp add: broker_new_simps)
  moreover have "idle_store b1 D" using I t(3) h2(2,3) by (simp add: idle_store_def b1_def)
  ultimately show ?thesis using e(2) ps'(2) by blast
qed

lemma broker_new_ok:
  assumes idle: "idle_store (bw_store w) D" and n: "cfg_n_threads cfg \<noteq> 0" "cfg_channels_capacity cfg \<noteq> 0"
    and a: "\<not> refused (br_arena (bw_store w))" "\<not> refused (tick (br_arena (bw_store w)))"
    and p: "thread_pool_new (cfg_n_threads cfg) (Some NULL) (bw_pool w) = Some (0, Some (Some q), ps)" "complete (bw_pool w) S (cfg_n_threads cfg) q ps"
    and t: "new_channels (cfg_channels_capacity cfg) (table_heap (bw_store w)) = Some (0, Some (Some t), h)" "ht_rep h [t \<mapsto> channel_table_of (cfg_channels_capacity cfg)]"
      "world h = channel_heap (bw_store w)"
  shows "\<exists>w'. message_broker_new (Some cfg) (Some v) w = Some (0, Some (Some (Suc (ticks (br_arena (bw_store w))))), w')
    \<and> broker_created cfg w S D (Suc (ticks (br_arena (bw_store w)))) w'"
proof -
  let ?b = "bw_store w" and ?A = "br_arena (bw_store w)" and ?a = "Suc (ticks (br_arena (bw_store w)))"
  note I = idle [unfolded idle_store_def]
  let ?r = "\<lparr>mb_publisher_pool = Some q, mb_channels = Some t, mb_channels_mutex = Unlocked, mb_next_subscriber_id = 1, mb_next_message_id = 1\<rparr>"
  define w2 where "w2 = w\<lparr>bw_pool := ps, bw_store := ?b\<lparr>table_heap := h, br_arena := tick (tick ?A), brokers := [?a \<mapsto> ?r],
    pools := [q \<mapsto> \<lparr>po_off = False, po_tasks = []\<rparr>]\<rparr>\<rparr>"
  have "message_broker_new (Some cfg) (Some v) w = Some (0, Some (Some ?a), w2)"
    using n a I t(1) broker_new_pool [OF idle p] unfolding w2_def by (simp add: broker_new_simps)
  moreover have "br_rep (bw_store w2) ?a (fresh_broker (cfg_channels_capacity cfg) D)"
    by (rule br_repI [where q = q and t = t and as = "[]"]; (rule br_invI)?)
      (use I tb_rep_fresh [OF t(2), of D] t(3) in \<open>simp_all add: w2_def fresh_broker_def\<close>)
  moreover have "brokers (bw_store w2) = [?a \<mapsto> ?r]" "mb_publisher_pool ?r = Some q" "dom (pools (bw_store w2)) = {q}" "complete (bw_pool w) S (cfg_n_threads cfg) q (bw_pool w2)"
    using p(2) by (simp_all add: w2_def)
  ultimately show ?thesis unfolding broker_created_def by blast
qed

lemma broker_new_spec:
  assumes idle: "idle_store (bw_store w) D" and pool: "qs_rep (task_queue (bw_pool w)) S" "bounded (bw_pool w)"
    and n: "cfg_n_threads cfg \<noteq> 0" "8 * unat (cfg_n_threads cfg) < 2 ^ 64"
    and cap: "cfg_channels_capacity cfg \<noteq> 0" "40 * unat (cfg_channels_capacity cfg) < 2 ^ 64"
    and g3: "grants 3 (arena (table_heap (bw_store w)))"
    and g5: "refused (tick (br_arena (bw_store w))) \<Longrightarrow> grants (3 + 5 * unat (cfg_channels_capacity cfg)) (arena (table_heap (bw_store w)))"
  shows "\<exists>e out w'. message_broker_new (Some cfg) (Some v) w = Some (e, Some out, w') \<and> (if granted_all cfg w
    then e = 0 \<and> out = Some (Suc (ticks (br_arena (bw_store w)))) \<and> broker_created cfg w S D (Suc (ticks (br_arena (bw_store w)))) w'
    else e \<noteq> 0 \<and> out = v \<and> idle_store (bw_store w') D \<and> undone (bw_pool w) S (bw_pool w'))"
proof -
  let ?A = "br_arena (bw_store w)" and ?h = "table_heap (bw_store w)" and ?cap = "cfg_channels_capacity cfg" and ?n = "cfg_n_threads cfg"
  let ?gp = "grants (14 + unat ?n) (pool_arena (bw_pool w))" and ?gt = "grants (3 + 4 * unat ?cap) (arena ?h)"
  have two: "grants 2 ?A \<longleftrightarrow> \<not> refused ?A \<and> \<not> refused (tick ?A)" using grants_Suc [of 1 ?A] by (simp add: eval_nat_numeral)
  obtain h t where h: "world h = world ?h" "if ?gt
      then new_channels ?cap ?h = Some (0, Some (Some t), h) \<and> ht_rep h [t \<mapsto> channel_table_of ?cap] \<and> arena h = (tick ^^ (3 + 4 * unat ?cap)) (arena ?h)
      else new_channels ?cap ?h = Some (-1, Some NULL, h) \<and> ht_rep h Map.empty"
    using table_new_spec [where h = ?h and T = Map.empty and capacity = ?cap and v = NULL and hash = string_hash and fv = channel_free_wrapper
      and cv = channel_copy and fk = key_free and ck = key_copy and cmp = string_compare, OF _ g3 cap] idle
    unfolding channel_table_of_def idle_store_def by (auto split: if_splits)
  obtain e out ps where p: "thread_pool_new ?n (Some NULL) (bw_pool w) = Some (e, Some out, ps)"
    "if ?gp then e = 0 \<and> (\<exists>q. out = Some q \<and> complete (bw_pool w) S ?n q ps) else e \<noteq> 0 \<and> out = NULL \<and> undone (bw_pool w) S ps"
    using thread_pool_new_spec [OF pool n, of NULL] by (auto simp: result_of_def split: if_splits)
  consider "refused ?A" | "\<not> refused ?A" "\<not> ?gp" | "\<not> refused ?A" ?gp "\<not> ?gt" | "\<not> refused ?A" ?gp ?gt "refused (tick ?A)"
    | "\<not> refused ?A" ?gp ?gt "\<not> refused (tick ?A)" by blast
  then show ?thesis
  proof cases
    case 1
    moreover have "undone (bw_pool w) S (bw_pool w)" using pool(1) by (simp add: undone_def)
    ultimately show ?thesis using n(1) cap(1) idle two by (simp add: message_broker_new_def granted_all_def idle_store_def)
  next
    case 2
    with broker_new_no_pool [OF idle n(1) cap(1), of e ps v] p show ?thesis by (auto simp: granted_all_def)
  next
    case 3
    with broker_new_no_table [OF idle n(1) cap(1) 3(1), of _ ps S h v] p h show ?thesis by (auto simp: granted_all_def)
  next
    case 4
    then have "grants (unat ?cap) (arena h)" using g5 h(2) grants_add [of "3 + 4 * unat ?cap" "unat ?cap" "arena ?h"] by (simp add: algebra_simps)
    with 4 broker_new_no_mutex [OF idle n(1) cap(1) 4(1), of _ ps S t h v] p h two show ?thesis by (auto simp: granted_all_def)
  next
    case 5
    with broker_new_ok [OF idle n(1) cap(1) 5(1,4), of _ ps S t h v] p h two show ?thesis by (auto simp: granted_all_def)
  qed
qed

section \<open>What release does\<close>

text \<open>The proxies that are members of the channels \<open>cs\<close>.\<close>

definition proxies_of :: "(addr \<rightharpoonup> achannel) \<Rightarrow> addr set \<Rightarrow> addr set" where
  "proxies_of C cs = (\<Union>c \<in> cs. case C c of None \<Rightarrow> {} | Some E \<Rightarrow> set (ac_proxies E))"

lemma proxies_of_other: "c \<notin> cs \<Longrightarrow> proxies_of (C(c := x)) cs = proxies_of C cs"
  unfolding proxies_of_def by (rule SUP_cong) auto

lemma release_channels:
  assumes "broker_callbacks A" and "ch_rep w C X D" and "distinct (map snd kv)" and "\<And>k v. (k, v) \<in> set kv \<Longrightarrow> \<exists>s c. k = Some s \<and> v = Some c \<and> c \<in> dom C"
  shows "\<exists>w'. release_all A kv w = Some w' \<and> ch_rep w' (C |` (- {c. Some c \<in> snd ` set kv})) (X |` (- proxies_of C {c. Some c \<in> snd ` set kv})) D"
  using assms(2-)
proof (induction kv arbitrary: w C X)
  case Nil
  moreover have "C |` UNIV = C" "X |` UNIV = X" by (auto simp: restrict_map_def)
  ultimately show ?case by (simp add: proxies_of_def)
next
  case (Cons x kv)
  obtain s c E where x: "x = (Some s, Some c)" "C c = Some E" using Cons.prems(3) [of "fst x" "snd x"] by (cases x) auto
  let ?cs = "{c. Some c \<in> snd ` set kv}"
  have c: "c \<notin> ?cs" using Cons.prems(2) x(1) by (auto simp: image_iff)
  obtain w1 where w1: "channel_free (Some c) w = Some w1" "ch_rep w1 (C(c := None)) (X |` (- set (ac_proxies E))) D"
    using channel_free_spec [OF Cons.prems(1) x(2)] by blast
  have dist: "distinct (map snd kv)" using Cons.prems(2) by simp
  have others: "\<exists>s d. k = Some s \<and> v = Some d \<and> d \<in> dom (C(c := None))" if kv: "(k, v) \<in> set kv" for k v
  proof -
    have "(k, v) \<in> set (x # kv)" using kv by simp
    from Cons.prems(3) [OF this] obtain s' d where d: "k = Some s'" "v = Some d" "d \<in> dom C" by blast
    moreover have "d \<in> ?cs" using kv d(2) by (auto intro: rev_image_eqI)
    ultimately show ?thesis using c by (cases "d = c") auto
  qed
  obtain w2 where w2: "release_all A kv w1 = Some w2"
    "ch_rep w2 ((C(c := None)) |` (- ?cs)) (X |` (- set (ac_proxies E)) |` (- proxies_of (C(c := None)) ?cs)) D"
    using Cons.IH [OF w1(2) dist others] by blast
  have set: "{d. Some d \<in> snd ` set (x # kv)} = insert c ?cs" using x(1) by auto
  have "(C(c := None)) |` (- ?cs) = C |` (- insert c ?cs)" by (auto simp: restrict_map_def fun_eq_iff)
  moreover have "proxies_of (C(c := None)) ?cs = proxies_of C ?cs" by (rule proxies_of_other [OF c])
  moreover have "X |` (- set (ac_proxies E)) |` (- proxies_of C ?cs) = X |` (- proxies_of C (insert c ?cs))"
    using x(2) by (auto simp: proxies_of_def restrict_map_def fun_eq_iff)
  ultimately have "ch_rep w2 (C |` (- {d. Some d \<in> snd ` set (x # kv)})) (X |` (- proxies_of C {d. Some d \<in> snd ` set (x # kv)})) D"
    unfolding set using w2(2) by simp
  moreover have "release_all A (x # kv) w = Some w2"
    using x(1) w1(1) w2(1) assms(1) by (simp add: broker_callbacks_def key_free_def string_free_def channel_free_wrapper_def)
  ultimately show ?case by blast
qed

text \<open>Freeing the table frees every channel with its members.\<close>

lemma free_channels:
  assumes rep: "tb_rep h t A C X D" and g: "grants (length (at_buckets A)) (arena h)"
  shows "\<exists>h'. generic_hash_table_free (Some t) h = Some (0, h') \<and> ht_rep h' Map.empty \<and> ch_rep (world h') Map.empty (X |` (- proxies_of C (dom C))) D"
proof -
  let ?kv = "concat (at_buckets A)"
  have "distinct (map snd ?kv)" using tb_repD(5) [OF rep] by (simp add: stored_def)
  moreover have "\<exists>s c. k = Some s \<and> v = Some c \<and> c \<in> dom C" if "(k, v) \<in> set ?kv" for k v
    using tb_repD(4) [OF rep, of k v] that unfolding pairs_def by blast
  moreover have dom: "{c. Some c \<in> snd ` set ?kv} = dom C" using tb_repD(6) [OF rep] by (simp add: stored_def)
  ultimately obtain w where w: "release_all A ?kv (world h) = Some w" "ch_rep w (C |` (- dom C)) (X |` (- proxies_of C (dom C))) D"
    using release_channels [OF tb_repD(3,2) [OF rep], of ?kv] unfolding dom by blast
  have none: "C |` (- dom C) = Map.empty" by (auto simp: restrict_map_def fun_eq_iff domIff)
  from table_free_spec [OF tb_repD(1) [OF rep], of t A, OF _ g w(1)] obtain h' where
    "generic_hash_table_free (Some t) h = Some (0, h')" "ht_rep h' Map.empty" "world h' = w" by auto
  then show ?thesis using w(2) none by auto
qed

lemma broker_free_spec:
  assumes rep: "br_rep (bw_store w) bk B" and q: "brokers (bw_store w) bk = Some r" "mb_publisher_pool r = Some q"
    and ok: "pool_ok (bw_pool w) S q pr qq k c d th ts" and g: "grants (length (at_buckets (ab_table B))) (arena (table_heap (bw_store w)))"
  shows "\<exists>w'. message_broker_free (Some bk) w = Some (0, w') \<and> brokers (bw_store w') = (brokers (bw_store w))(bk := None)
    \<and> pools (bw_store w') = (pools (bw_store w))(q := None) \<and> ht_rep (table_heap (bw_store w')) Map.empty
    \<and> ch_rep (channel_heap (bw_store w')) Map.empty (ab_proxies B |` (- proxies_of (ab_channels B) (dom (ab_channels B)))) (ab_held B)
    \<and> task_args (bw_store w') = task_args (bw_store w) \<and> subscriptions (bw_store w') = subscriptions (bw_store w)
    \<and> thread_pool_free (Some q) (bw_pool w) = Some (0, bw_pool w')"
proof -
  let ?b = "bw_store w"
  obtain t where R: "r = \<lparr>mb_publisher_pool = Some q, mb_channels = Some t, mb_channels_mutex = Unlocked,
         mb_next_subscriber_id = ab_next_subscriber B, mb_next_message_id = ab_next_message B\<rparr>"
    "tb_rep (table_heap ?b) t (ab_table B) (ab_channels B) (ab_proxies B) (ab_held B)"
    using br_repE [OF rep] q by (metis option.inject message_broker_t.select_convs(1))
  obtain ps where ps: "thread_pool_free (Some q) (bw_pool w) = Some (0, ps)" using thread_pool_free_spec [OF ok] by blast
  obtain h where h: "generic_hash_table_free (Some t) (table_heap ?b) = Some (0, h)" "ht_rep h Map.empty"
    "ch_rep (world h) Map.empty (ab_proxies B |` (- proxies_of (ab_channels B) (dom (ab_channels B)))) (ab_held B)"
    using free_channels [OF R(2) g] by blast
  have "message_broker_free (Some bk) w = Some (0, w\<lparr>bw_pool := ps, bw_store := ?b\<lparr>table_heap := h, pools := (pools ?b)(q := None), brokers := (brokers ?b)(bk := None)\<rparr>\<rparr>)"
    using q(1) R(1) ps(1) h(1) by (simp add: message_broker_free_def broker_pool_free_def broker_at_def store_order)
  with ps h show ?thesis by simp
qed

text \<open>A broker that was just created can be released, and nothing of it is left.\<close>

lemma broker_new_free:
  assumes made: "broker_created cfg w S D a w'" and g: "grants (unat (cfg_channels_capacity cfg)) (arena (table_heap (bw_store w')))"
  shows "\<exists>w''. message_broker_free (Some a) w' = Some (0, w'') \<and> idle_store (bw_store w'') D \<and> undone (bw_pool w) S (bw_pool w'')"
proof -
  let ?B = "fresh_broker (cfg_channels_capacity cfg) D"
  obtain r q where R: "br_rep (bw_store w') a ?B" "brokers (bw_store w') = [a \<mapsto> r]" "mb_publisher_pool r = Some q" "dom (pools (bw_store w')) = {q}"
    "complete (bw_pool w) S (cfg_n_threads cfg) q (bw_pool w')" using made unfolding broker_created_def by blast
  obtain qq pr k c d t where ok: "pool_ok (bw_pool w') (S(qq \<mapsto> no_tasks)) q pr qq k c d t []" using complete_pool_ok [OF R(5)] by blast
  have at: "brokers (bw_store w') a = Some r" using R(2) by simp
  have "length (at_buckets (ab_table ?B)) = unat (cfg_channels_capacity cfg)" by (simp add: fresh_broker_def channel_table_of_def fresh_table_def)
  with g obtain w'' where w'': "message_broker_free (Some a) w' = Some (0, w'')" "brokers (bw_store w'') = (brokers (bw_store w'))(a := None)"
    "pools (bw_store w'') = (pools (bw_store w'))(q := None)" "ht_rep (table_heap (bw_store w'')) Map.empty"
    "ch_rep (channel_heap (bw_store w'')) Map.empty Map.empty D" "task_args (bw_store w'') = task_args (bw_store w')"
    "subscriptions (bw_store w'') = subscriptions (bw_store w')" "thread_pool_free (Some q) (bw_pool w') = Some (0, bw_pool w'')"
    using broker_free_spec [OF R(1) at R(3) ok] by (auto simp: fresh_broker_def)
  have "task_args (bw_store w') = Map.empty" "subscriptions (bw_store w') = Map.empty"
    using R(1) by (auto elim!: br_repE simp: fresh_broker_def)
  moreover have "(pools (bw_store w'))(q := None) = Map.empty" using R(4) by (auto simp: fun_eq_iff dom_def)
  ultimately have "idle_store (bw_store w'') D" using w'' R(2) by (simp add: idle_store_def)
  moreover have "undone (bw_pool w) S (bw_pool w'')" using pool_new_free [OF R(5)] w''(8) by auto
  ultimately show ?thesis using w''(1) by blast
qed

text \<open>A caller of \<open>message_broker_wait\<close> waits in the pool.\<close>

lemma broker_wait_spec: "br_rep b bk B \<Longrightarrow> message_broker_wait (Some bk) b = Some (Wait W_Lock)"
  by (auto elim!: br_repE simp: message_broker_wait_def broker_at_def thread_pool_wait_def)

end
