(* ===== verification/Broker_Samples.thy ===== *)
theory Broker_Samples
  imports Samples Broker_Specs
begin

text \<open>
  A concrete broker on which the theorems are applied: one channel, \<open>''news''\<close>, with one subscription whose inbox holds one
  message, and possibly one publication that waits in the pool.
\<close>

section \<open>The stores\<close>

text \<open>A list of one element, wherever one is needed.\<close>

definition one_nodes :: "'d \<Rightarrow> addr \<rightharpoonup> 'd node_t" where
  "one_nodes d = [3 \<mapsto> \<lparr>node_data = NULL, node_next = Some 5, node_prev = NULL\<rparr>,
     5 \<mapsto> \<lparr>node_data = Some d, node_next = Some 4, node_prev = Some 3\<rparr>,
     4 \<mapsto> \<lparr>node_data = NULL, node_next = NULL, node_prev = Some 5\<rparr>]"

definition one_list :: "('d, 'w) free_fn ptr \<Rightarrow> ('d, 'w) copy_fn ptr \<Rightarrow> addr \<rightharpoonup> ('d, 'w) generic_linked_list_t" where
  "one_list f c = [2 \<mapsto> \<lparr>ll_size = 1, ll_head_guard = Some 3, ll_tail_guard = Some 4, ll_free_function = f, ll_copy_function = c\<rparr>]"

abbreviation hello :: message_t where
  "hello \<equiv> \<lparr>msg_id = 7, msg_channel_name = Some ''news'', msg_content = Some ''hello''\<rparr>"

definition sample_inboxes :: "(addr, message_store) qs_heap" where
  "sample_inboxes = \<lparr>nodes = one_nodes 6, lists = one_list (Some message_free_wrapper) NULL, iters = Map.empty,
     arena = sample_alloc, world = \<lparr>messages = [6 \<mapsto> hello], msg_arena = sample_alloc\<rparr>,
     queues = [8 \<mapsto> \<lparr>q_list = Some 2\<rparr>], syns = [9 \<mapsto> \<lparr>qs_queue = Some 8, qs_mutex = Unlocked\<rparr>]\<rparr>"

definition sample_proxies :: proxy_store where
  "sample_proxies = \<lparr>proxies = [7 \<mapsto> \<lparr>px_id = 1, px_inbox = Some 9, px_inbox_mutex = Unlocked, px_active = True\<rparr>],
     px_arena = sample_alloc, inboxes = sample_inboxes\<rparr>"

definition sample_channels :: channel_store where
  "sample_channels = \<lparr>channels = [13 \<mapsto> \<lparr>ch_channel_name = Some ''news'', ch_subscriber_proxies = Some 2, ch_mutex = Unlocked\<rparr>],
     ch_arena = sample_alloc, subscribers = \<lparr>nodes = one_nodes 7,
       lists = one_list (Some subscriber_proxy_free_wrapper) (Some subscriber_proxy_copy), iters = Map.empty, arena = sample_alloc,
       world = sample_proxies\<rparr>\<rparr>"

definition channel_table :: "(string, addr, channel_store) atable" where
  "channel_table = \<lparr>at_hash = string_hash, at_compare = string_compare, at_free_value = channel_free_wrapper,
     at_copy_value = channel_copy, at_free_key = key_free, at_copy_key = key_copy,
     at_buckets = [[(Some ''news'', Some 13)]]\<rparr>"

definition channel_table_heap :: "allocator \<Rightarrow> (string, addr, channel_store) ht_heap" where
  "channel_table_heap A = \<lparr>nodes = one_nodes 6, lists = one_list NULL NULL, iters = Map.empty, arena = A, world = sample_channels,
     kvs = [6 \<mapsto> \<lparr>kv_key = Some ''news'', kv_value = Some 13\<rparr>],
     tables = [11 \<mapsto> \<lparr>ht_capacity = 1, ht_size = 1, ht_buckets = Some [Some 2], ht_mutexes = Some [Some Unlocked],
       ht_hash_function = Some string_hash, ht_free_value_function = Some channel_free_wrapper,
       ht_copy_value_function = Some channel_copy, ht_free_key_function = Some key_free,
       ht_copy_key_function = Some key_copy, ht_compare_key_function = Some string_compare\<rparr>]\<rparr>"

abbreviation sample_subscription :: subscription_t where
  "sample_subscription \<equiv> \<lparr>sub_id = 1, sub_channel_name = Some ''news'', sub_broker = Some 14, sub_proxy = Some 7, sub_active = True\<rparr>"

text \<open>The allocators of the broker's own structures and of the table are parameters, and so is the waiting publication.\<close>

definition sample_broker :: "allocator \<Rightarrow> allocator \<Rightarrow> publication option \<Rightarrow> broker_store" where
  "sample_broker A' A p = \<lparr>
     brokers = [14 \<mapsto> \<lparr>mb_publisher_pool = Some 15, mb_channels = Some 11, mb_channels_mutex = Unlocked,
       mb_next_subscriber_id = 2, mb_next_message_id = 8\<rparr>],
     subscriptions = [1 \<mapsto> sample_subscription],
     task_args = (case p of None \<Rightarrow> Map.empty | Some p \<Rightarrow> [16 \<mapsto> task_of 11 14 p]),
     pools = [15 \<mapsto> \<lparr>po_off = False, po_tasks = (case p of None \<Rightarrow> [] | Some _ \<Rightarrow> [Some 16])\<rparr>],
     br_arena = A', table_heap = channel_table_heap A\<rparr>"

definition sample_abroker :: "publication option \<Rightarrow> abroker" where
  "sample_abroker p = \<lparr>ab_table = channel_table, ab_channels = [13 \<mapsto> \<lparr>ac_name = ''news'', ac_proxies = [7]\<rparr>],
     ab_proxies = [7 \<mapsto> \<lparr>ax_id = 1, ax_active = True, ax_msgs = [hello]\<rparr>], ab_held = Map.empty,
     ab_subscriptions = [1 \<mapsto> sample_subscription], ab_tasks = (case p of None \<Rightarrow> [] | Some p \<Rightarrow> [p]), ab_off = False,
     ab_next_subscriber = 2, ab_next_message = 8\<rparr>"

section \<open>They represent what one expects\<close>

lemma one_ll_rep:
  fixes h :: "('d, 'w, 'z) llh"
  assumes "nodes h = one_nodes d" and "lists h = one_list f c" and "iters h = Map.empty" and "20 \<le> ticks (arena h)"
  shows "ll_rep h [2 \<mapsto> \<lparr>al_items = [Some d], al_free = f, al_copy = c\<rparr>] Map.empty"
proof -
  let ?P = "[2 \<mapsto> Shape 3 [(5, Some d)] 4]"
  have "ll_inv (nodes h) (lists h) (iters h) (ticks (arena h)) ?P"
    using assms by (auto 0 3 simp: ll_inv_def list_ok_def one_nodes_def one_list_def block_limit_def split: if_splits)
  moreover have "ll_abs (lists h) ?P = [2 \<mapsto> \<lparr>al_items = [Some d], al_free = f, al_copy = c\<rparr>]"
    by (auto simp: ll_abs_def assms one_list_def fun_eq_iff)
  ultimately show ?thesis unfolding ll_rep_def by (intro exI [of _ ?P]) (simp add: iters_ok_def assms)
qed

lemma sample_inboxes_rep: "qs_rep sample_inboxes [9 \<mapsto> inbox_list [6]]"
proof -
  have "ll_rep sample_inboxes [2 \<mapsto> inbox_list [6]] Map.empty"
    using one_ll_rep [of sample_inboxes 6 "Some message_free_wrapper" NULL] by (simp add: sample_inboxes_def inbox_list_def)
  moreover have "q_link (queues sample_inboxes) [2 \<mapsto> inbox_list [6]] [8 \<mapsto> inbox_list [6]]"
    by (auto simp: q_link_def owns_def sample_inboxes_def inbox_list_def split: if_splits)
  ultimately have "q_rep sample_inboxes [8 \<mapsto> inbox_list [6]]"
    unfolding q_rep_def by (auto simp: sample_inboxes_def block_limit_def)
  moreover have "owns (map_option qs_queue \<circ> syns sample_inboxes) [8 \<mapsto> inbox_list [6]] [9 \<mapsto> inbox_list [6]]"
    by (auto simp: owns_def sample_inboxes_def split: if_splits)
  ultimately show ?thesis unfolding qs_rep_def by (auto simp: sample_inboxes_def block_limit_def)
qed

lemma sample_proxies_rep: "px_rep sample_proxies [7 \<mapsto> \<lparr>ax_id = 1, ax_active = True, ax_msgs = [hello]\<rparr>] Map.empty"
proof (rule px_repI)
  show "qs_rep (inboxes sample_proxies) [9 \<mapsto> inbox_list [6]]" by (simp add: sample_proxies_def sample_inboxes_rep)
  show "owns (map_option px_inbox \<circ> proxies sample_proxies) [9 \<mapsto> inbox_list [6]] (map_option inbox_list \<circ> [7 \<mapsto> [6]])"
    by (auto simp: owns_def sample_proxies_def split: if_splits)
  show "px_inv (messages (message_heap sample_proxies)) (proxies sample_proxies) [7 \<mapsto> [6]] Map.empty"
    by (rule px_invI) (auto simp: sample_proxies_def sample_inboxes_def split: if_splits)
  show "[7 \<mapsto> \<lparr>ax_id = 1, ax_active = True, ax_msgs = [hello]\<rparr>] = px_abs (messages (message_heap sample_proxies)) (proxies sample_proxies) [7 \<mapsto> [6]]"
    by (auto simp: px_abs_def sample_proxies_def sample_inboxes_def fun_eq_iff)
qed (auto simp: sample_proxies_def sample_inboxes_def)

lemma sample_channels_rep:
  "ch_rep sample_channels [13 \<mapsto> \<lparr>ac_name = ''news'', ac_proxies = [7]\<rparr>] [7 \<mapsto> \<lparr>ax_id = 1, ax_active = True, ax_msgs = [hello]\<rparr>] Map.empty"
proof (rule ch_repI)
  show "ll_rep (subscribers sample_channels) [2 \<mapsto> proxy_list [7]] Map.empty"
    using one_ll_rep [of "subscribers sample_channels" 7 "Some subscriber_proxy_free_wrapper" "Some subscriber_proxy_copy"]
    by (simp add: sample_channels_def proxy_list_def)
  show "owns (map_option ch_subscriber_proxies \<circ> channels sample_channels) [2 \<mapsto> proxy_list [7]]
      (map_option (\<lambda>A. proxy_list (ac_proxies A)) \<circ> [13 \<mapsto> \<lparr>ac_name = ''news'', ac_proxies = [7]\<rparr>])"
    by (auto simp: owns_def sample_channels_def split: if_splits)
  show "ch_inv (channels sample_channels) [13 \<mapsto> \<lparr>ac_name = ''news'', ac_proxies = [7]\<rparr>] [7 \<mapsto> \<lparr>ax_id = 1, ax_active = True, ax_msgs = [hello]\<rparr>]"
    by (rule ch_invI) (auto simp: sample_channels_def split: if_splits)
qed (auto simp: sample_channels_def sample_proxies_rep)

lemma channel_table_rep:
  assumes "20 \<le> ticks A"
  shows "ht_rep (channel_table_heap A) [11 \<mapsto> channel_table]"
proof -
  let ?G = "[11 \<mapsto> Layout [2] [[6]]]" and ?h = "channel_table_heap A"
  let ?M = "[2 \<mapsto> \<lparr>al_items = [Some 6], al_free = NULL, al_copy = NULL\<rparr>] :: addr \<rightharpoonup> (addr, channel_store) alist"
  have "ll_rep ?h ?M Map.empty" by (rule one_ll_rep) (use assms in \<open>simp_all add: channel_table_heap_def\<close>)
  moreover have "ht_inv ?M (kvs ?h) (tables ?h) (ticks (arena ?h)) ?G [11 \<mapsto> channel_table]"
    using assms by (auto simp: ht_inv_def table_ok_def bucket_ok_def channel_table_heap_def channel_table_def ht_count_def block_limit_def
      split: if_splits)
  ultimately show ?thesis unfolding ht_rep_def by (auto simp: channel_table_heap_def)
qed

lemma find_news:
  "find_channel channel_table ''news'' = Some 13" "find_channel channel_table ''sport'' = NULL"
  by (simp_all add: find_channel_def ht_stack_def ht_bucket_def ht_index_def channel_table_def string_compare_def)

lemma sample_broker_rep [simp]:
  assumes "20 \<le> ticks A" and "20 \<le> ticks A'"
  shows "br_rep (sample_broker A' A p) 14 (sample_abroker p)"
proof (rule br_repI [where q = 15 and t = 11 and as = "case p of None \<Rightarrow> [] | Some _ \<Rightarrow> [16]"])
  have "tb_rep (channel_table_heap A) 11 channel_table [13 \<mapsto> \<lparr>ac_name = ''news'', ac_proxies = [7]\<rparr>]
      [7 \<mapsto> \<lparr>ax_id = 1, ax_active = True, ax_msgs = [hello]\<rparr>] Map.empty"
    unfolding tb_rep_def
    using channel_table_rep [OF assms(1)] sample_channels_rep
    by (auto simp: channel_table_heap_def broker_callbacks_def channel_table_def pairs_def stored_def c_str_def)
  then show "tb_rep (table_heap (sample_broker A' A p)) 11 (ab_table (sample_abroker p)) (ab_channels (sample_abroker p))
      (ab_proxies (sample_abroker p)) (ab_held (sample_abroker p))"
    by (simp add: sample_broker_def sample_abroker_def)
  show "br_inv 14 (sample_abroker p)"
    by (rule br_invI) (auto simp: sample_abroker_def members_of_def find_news split: if_splits)
qed (use assms(2) in \<open>auto simp: sample_broker_def sample_abroker_def split: option.splits if_splits\<close>)

lemma sample_broker_simps [simp]:
  "br_arena (sample_broker A' A p) = A'" "arena (table_heap (sample_broker A' A p)) = A"
  "ch_arena (channel_heap (sample_broker A' A p)) = sample_alloc" "arena (subscribers (channel_heap (sample_broker A' A p))) = sample_alloc"
  by (simp_all add: sample_broker_def channel_table_heap_def sample_channels_def)

lemma sample_broker_plenty [simp]: "n \<le> 1000 \<Longrightarrow> plenty n (sample_broker sample_alloc sample_alloc p)"
  by (simp add: plenty_def sample_broker_def channel_table_heap_def sample_channels_def sample_proxies_def sample_inboxes_def)

lemma sample_abroker_simps [simp]:
  "ab_table (sample_abroker p) = channel_table" "ab_tasks (sample_abroker p) = (case p of None \<Rightarrow> [] | Some p \<Rightarrow> [p])"
  "ab_proxies (sample_abroker p) = [7 \<mapsto> \<lparr>ax_id = 1, ax_active = True, ax_msgs = [hello]\<rparr>]" "ab_held (sample_abroker p) = Map.empty"
  "ab_subscriptions (sample_abroker p) = [1 \<mapsto> sample_subscription]" "\<not> ab_off (sample_abroker p)" "ab_next_subscriber (sample_abroker p) = 2"
  "ab_next_message (sample_abroker p) = 8" "members_of channel_table (ab_channels (sample_abroker p)) ''news'' = [7]"
  "members_of channel_table (ab_channels (sample_abroker p)) ''sport'' = []"
  by (simp_all add: sample_abroker_def members_of_def find_news)

text \<open>An allocator that refuses the next request only.\<close>

definition failing_once :: allocator where
  "failing_once = \<lparr>ticks = 20, outcome = (\<lambda>i. if i = 20 then 12 else 0)\<rparr>"

lemma failing_simps [simp]:
  "\<not> refused (tick (failing_from 2))" "\<not> refused (failing_from 2)" "refused (tick (tick (failing_from 2)))"
  "refused failing_once" "grants 2 (tick failing_once)" "ticks failing_once = 20" "\<not> grants 5 (failing_from 0)"
  by (auto simp: failing_from_def failing_once_def refused_def grants_def block_limit_def intro: exI [of _ 0])

section \<open>The broker after its message has been received\<close>

definition empty_abroker :: "addr \<Rightarrow> abroker" where
  "empty_abroker m = (sample_abroker None)\<lparr>ab_proxies := [7 \<mapsto> \<lparr>ax_id = 1, ax_active = True, ax_msgs = []\<rparr>], ab_held := [m \<mapsto> hello]\<rparr>"

lemma empty_abroker_simps [simp]:
  "ab_tasks (empty_abroker m) = []" "ab_proxies (empty_abroker m) = [7 \<mapsto> \<lparr>ax_id = 1, ax_active = True, ax_msgs = []\<rparr>]"
  "ab_subscriptions (empty_abroker m) = [1 \<mapsto> sample_subscription]" "\<not> ab_off (empty_abroker m)" "ab_next_message (empty_abroker m) = 8"
  "ab_table (empty_abroker m) = channel_table"
  "members_of channel_table (ab_channels (empty_abroker m)) ''news'' = [7]"
  by (simp_all add: empty_abroker_def)

lemma sample_received:
  obtains m b where "subscription_receive (Some 1) (Some NULL) (sample_broker sample_alloc sample_alloc None) = Some (0, Some (Some m), b)"
    and "br_rep b 14 (empty_abroker m)" and "plenty 100 b"
  using receive_spec [of "sample_broker sample_alloc sample_alloc None" 14 "sample_abroker None" 1 sample_subscription 7
      "\<lparr>ax_id = 1, ax_active = True, ax_msgs = [hello]\<rparr>" hello "[]" NULL] that
  by (auto simp: empty_abroker_def)

end
