(* ===== verification/Lifecycle_Samples.thy ===== *)
theory Lifecycle_Samples
  imports Broker_Lifecycle Broker_Samples
begin

text \<open>
  Stores on which the theorems about the creation and the release of a broker are applied: one in which there is nothing yet, and the broker of
  \<^verbatim>\<open>Broker_Samples\<close> together with its pool, whose queue holds the task of the waiting publication.
\<close>

definition no_proxies :: proxy_store where
  "no_proxies = \<lparr>proxies = Map.empty, px_arena = sample_alloc, inboxes = \<lparr>nodes = Map.empty, lists = Map.empty, iters = Map.empty, arena = sample_alloc,
     world = \<lparr>messages = Map.empty, msg_arena = sample_alloc\<rparr>, queues = Map.empty, syns = Map.empty\<rparr>\<rparr>"

definition no_channels :: channel_store where
  "no_channels = \<lparr>channels = Map.empty, ch_arena = sample_alloc,
     subscribers = \<lparr>nodes = Map.empty, lists = Map.empty, iters = Map.empty, arena = sample_alloc, world = no_proxies\<rparr>\<rparr>"

definition no_broker :: broker_store where
  "no_broker = \<lparr>brokers = Map.empty, subscriptions = Map.empty, task_args = Map.empty, pools = Map.empty, br_arena = sample_alloc,
     table_heap = \<lparr>nodes = Map.empty, lists = Map.empty, iters = Map.empty, arena = sample_alloc, world = no_channels, kvs = Map.empty, tables = Map.empty\<rparr>\<rparr>"

definition idle_world :: broker_world where
  "idle_world = \<lparr>bw_store = no_broker, bw_pool = sample_pool\<rparr>"

lemma empty_ll_rep:
  assumes "nodes h = Map.empty" and "lists h = Map.empty" and "iters h = Map.empty"
  shows "ll_rep h Map.empty Map.empty"
  unfolding ll_rep_def using assms by (intro exI [of _ Map.empty]) (auto simp: ll_inv_def iters_ok_def ll_abs_def fun_eq_iff)

lemma no_proxies_rep: "px_rep no_proxies Map.empty Map.empty"
proof (rule px_repI)
  have "ll_rep (inboxes no_proxies) Map.empty Map.empty" by (rule empty_ll_rep) (simp_all add: no_proxies_def)
  then have "q_rep (inboxes no_proxies) Map.empty"
    unfolding q_rep_def by (auto simp: no_proxies_def q_link_def owns_def)
  then show "qs_rep (inboxes no_proxies) Map.empty" unfolding qs_rep_def by (auto simp: no_proxies_def owns_def)
  show "px_inv (messages (message_heap no_proxies)) (proxies no_proxies) Map.empty Map.empty" by (rule px_invI) (simp_all add: no_proxies_def)
qed (auto simp: no_proxies_def owns_def px_abs_def fun_eq_iff)

lemma no_broker_idle: "idle_store no_broker Map.empty"
proof -
  have "ch_rep no_channels Map.empty Map.empty Map.empty"
  proof (rule ch_repI)
    show "ll_rep (subscribers no_channels) Map.empty Map.empty" by (rule empty_ll_rep) (simp_all add: no_channels_def)
    show "ch_inv (channels no_channels) Map.empty Map.empty" by (rule ch_invI) simp_all
  qed (auto simp: no_channels_def owns_def no_proxies_rep)
  moreover have "ht_rep (table_heap no_broker) Map.empty"
  proof -
    have "ll_rep (table_heap no_broker) Map.empty Map.empty" by (rule empty_ll_rep) (simp_all add: no_broker_def)
    moreover have "ht_inv Map.empty (kvs (table_heap no_broker)) (tables (table_heap no_broker)) (ticks (arena (table_heap no_broker))) Map.empty Map.empty"
      by (simp add: ht_inv_def no_broker_def)
    ultimately show ?thesis unfolding ht_rep_def by (auto simp: no_broker_def)
  qed
  ultimately show ?thesis by (simp add: idle_store_def no_broker_def)
qed

definition broker_with_pool :: "publication \<Rightarrow> broker_world" where
  "broker_with_pool p = \<lparr>bw_store = sample_broker sample_alloc sample_alloc (Some p),
     bw_pool = sample_pool\<lparr>pool_structs := [15 \<mapsto> sample_pool_struct], dispatchers := [\<lparr>dp_pool = 15, dp_state = Running\<rparr>, \<lparr>dp_pool = 15, dp_state = Running\<rparr>],
       pool_tasks := [17 \<mapsto> \<lparr>pt_function = Some 18, pt_arg = Some 16\<rparr>]\<rparr>\<rparr>"

lemma broker_with_pool_ok: "pool_ok (bw_pool (broker_with_pool p)) [9 \<mapsto> no_tasks\<lparr>al_items := [Some 17]\<rparr>] 15 sample_pool_struct 9 13 14 15 16 [17]"
proof -
  have "crew_ok (bw_pool (broker_with_pool p)) 15 sample_pool_struct 16"
    unfolding crew_ok_def by (intro exI [of _ "[0, 1]"]) (auto simp: broker_with_pool_def sample_pool_def sample_pool_struct_def nth_Cons split: nat.splits)
  with sample_tasks_rep show ?thesis by (auto simp: pool_ok_def broker_with_pool_def sample_pool_def sample_pool_struct_def)
qed

end
