(* ===== verification/Protocol.thy ===== *)
theory Protocol
  imports Broker_Strings
begin

text \<open>
  The C library functions on strings that \<^verbatim>\<open>src/network_server.c\<close> uses to read commands and to
  write replies: \<open>sscanf\<close> with the format \<open>"%31s %255s %zu"\<close>, \<open>strtoull\<close> in base 10, and \<open>snprintf\<close> with
  \<open>%lu\<close>, \<open>%zu\<close> and \<open>%s\<close>.  Where the C standard leaves the result of \<open>%zu\<close> open, for a number that does not fit, the
  definition follows glibc, which saturates as \<open>strtoull\<close> does.
\<close>

section \<open>Definitions\<close>

text \<open>\<open>isspace\<close> and \<open>isdigit\<close> in the C locale.\<close>

definition isspace :: "char \<Rightarrow> bool" where
  "isspace c \<longleftrightarrow> c = CHR '' '' \<or> (9 \<le> (of_char c :: nat) \<and> (of_char c :: nat) \<le> 13)"

definition isdigit :: "char \<Rightarrow> bool" where
  "isdigit c \<longleftrightarrow> 48 \<le> (of_char c :: nat) \<and> (of_char c :: nat) \<le> 57"

text \<open>The value of a sequence of decimal digits.\<close>

definition digits_value :: "string \<Rightarrow> nat" where
  "digits_value = foldl (\<lambda>n c. 10 * n + (of_char c - 48)) 0"

text \<open>The conversion of \<open>strtoull\<close> and of \<open>%zu\<close> on a string without leading space: a sign, then digits.\<close>

definition saturate :: "bool \<Rightarrow> nat \<Rightarrow> uint64_t" where
  "saturate neg n = (if n < 2 ^ 64 then (if neg then - of_nat n else of_nat n) else - 1)"

definition scan_number :: "string \<Rightarrow> uint64_t option" where
  "scan_number s = (let (neg, t) = (case s of [] \<Rightarrow> (False, s)
       | c # t \<Rightarrow> if c = CHR ''-'' then (True, t) else if c = CHR ''+'' then (False, t) else (False, s));
     ds = takeWhile isdigit t
     in if ds = [] then None else Some (saturate neg (digits_value ds)))"

definition strtoull :: "string \<Rightarrow> uint64_t" where
  "strtoull s = (case scan_number (dropWhile isspace (c_str s)) of None \<Rightarrow> 0 | Some n \<Rightarrow> n)"

text \<open>The conversion \<open>%ws\<close> on a string without leading space.\<close>

definition scan_word :: "nat \<Rightarrow> string \<Rightarrow> string \<times> string" where
  "scan_word w s = (let t = take w (takeWhile (\<lambda>c. \<not> isspace c) s) in (t, drop (length t) s))"

text \<open>
  \<open>sscanf (buffer, "%31s %255s %zu", command, channel, &content_len)\<close>: the number of conversions, or \<open>EOF\<close>, and the three
  variables, which start out empty.
\<close>

definition sscanf_command :: "string \<Rightarrow> int \<times> string \<times> string \<times> size_t" where
  "sscanf_command buffer = (let s = dropWhile isspace (c_str buffer) in
     if s = [] then (-1, [], [], 0)
     else let (command, s) = scan_word 31 s; s = dropWhile isspace s in
       if s = [] then (1, command, [], 0)
       else let (channel, s) = scan_word 255 s in
         (case scan_number (dropWhile isspace s) of
            None \<Rightarrow> (2, command, channel, 0)
          | Some n \<Rightarrow> (3, command, channel, n)))"

text \<open>\<open>%lu\<close> and \<open>%zu\<close>.\<close>

fun decimal :: "nat \<Rightarrow> string" where
  "decimal n = (if n < 10 then [char_of (48 + n)] else decimal (n div 10) @ [char_of (48 + n mod 10)])"

declare decimal.simps [simp del]

definition print_u64 :: "uint64_t \<Rightarrow> string" where
  "print_u64 n = decimal (unat n)"

text \<open>
  An array of bytes, those that were never written being \<open>NULL\<close>.  A store outside of the array has no result; reading a string has no result when it comes to a byte that was
  never written, or to the end of the array before a terminator.
\<close>

type_synonym buffer = "char ptr list"

definition store_byte :: "buffer \<Rightarrow> nat \<Rightarrow> char \<Rightarrow> buffer option" where
  "store_byte b i c = (if i < length b then Some (b[i := Some c]) else None)"

fun store_bytes :: "buffer \<Rightarrow> nat \<Rightarrow> string \<Rightarrow> buffer option" where
  "store_bytes b i [] = Some b"
| "store_bytes b i (c # cs) = do {
     b \<leftarrow> store_byte b i c;
     store_bytes b (Suc i) cs }"

fun string_at :: "buffer \<Rightarrow> string option" where
  "string_at [] = None"
| "string_at (NULL # b) = None"
| "string_at (Some c # b) = (if c = CHR 0x00 then Some [] else map_option ((#) c) (string_at b))"

section \<open>Lemmas\<close>

lemma store_byte_length: "store_byte b i c = Some b' \<Longrightarrow> length b' = length b"
  by (auto simp: store_byte_def split: if_splits)

lemma store_byte_at [simp]: "store_byte (xs @ y # ys) (length xs) c = Some (xs @ Some c # ys)"
  by (simp add: store_byte_def)

lemma store_bytes_at: "length ys = length cs \<Longrightarrow> store_bytes (xs @ ys @ zs) (length xs) cs = Some (xs @ map Some cs @ zs)"
proof (induction cs arbitrary: xs ys)
  case (Cons c cs)
  obtain y ys' where y: "ys = y # ys'" "length ys' = length cs" using Cons.prems by (cases ys) auto
  then show ?case using Cons.IH [of ys' "xs @ [Some c]"] by simp
qed simp

lemma string_at_terminated: "string_at (map Some t @ Some (CHR 0x00) # r) = Some (c_str t)"
  by (induction t) (simp_all add: c_str_def)

lemma isdigit_char_of [simp]: "d < 10 \<Longrightarrow> isdigit (char_of (48 + d :: nat))"
  by (simp add: isdigit_def)

lemma of_char_digit [simp]: "d < 10 \<Longrightarrow> of_char (char_of (48 + d :: nat)) - (48::nat) = d"
  by simp

lemma isdigit_not_special:
  assumes "isdigit c"
  shows "\<not> isspace c" "c \<noteq> CHR ''-''" "c \<noteq> CHR ''+''" "c \<noteq> CHR 0x00"
  using assms by (auto simp: isdigit_def isspace_def)

lemma decimal_digits: "\<forall>c \<in> set (decimal n). isdigit c"
  by (induction n rule: decimal.induct) (subst decimal.simps, auto)

lemma decimal_not_Nil [simp]: "decimal n \<noteq> []"
  by (subst decimal.simps) simp

lemma digits_value_snoc: "digits_value (s @ [c]) = 10 * digits_value s + (of_char c - 48)"
  by (simp add: digits_value_def)

lemma digits_value_decimal: "digits_value (decimal n) = n"
proof (induction n rule: decimal.induct)
  case (1 n)
  then show ?case
    by (subst decimal.simps) (auto simp: digits_value_snoc, simp add: digits_value_def)
qed

text \<open>The length of a number of 64 bits.\<close>

lemma decimal_length: "n < 10 ^ k \<Longrightarrow> 0 < k \<Longrightarrow> length (decimal n) \<le> k"
proof (induction k arbitrary: n)
  case (Suc k)
  show ?case
  proof (cases "n < 10")
    case False
    with Suc.prems have "0 < k" by (cases k) auto
    moreover have "n div 10 < 10 ^ k" using Suc.prems(1) by auto
    ultimately have "length (decimal (n div 10)) \<le> k" using Suc.IH by blast
    with False show ?thesis by (subst decimal.simps) simp
  qed (subst decimal.simps, simp)
qed simp

lemma print_u64_length: "length (print_u64 n) \<le> 20"
proof -
  have "unat n < 2 ^ LENGTH(64)" by (rule unsigned_less)
  then have "unat n < 10 ^ 20" by simp
  then show ?thesis unfolding print_u64_def by (intro decimal_length) simp_all
qed

lemma takeWhile_digits: "\<forall>c \<in> set ds. isdigit c \<Longrightarrow> takeWhile isdigit (ds @ t) = ds @ takeWhile isdigit t"
  by (induction ds) auto

text \<open>What is printed as a number is read as that number, whatever follows it.\<close>

lemma scan_number_print: "r = [] \<or> \<not> isdigit (hd r) \<Longrightarrow> scan_number (print_u64 n @ r) = Some n"
proof -
  assume r: "r = [] \<or> \<not> isdigit (hd r)"
  have t: "takeWhile isdigit (print_u64 n @ r) = print_u64 n"
    using takeWhile_digits [OF decimal_digits, of "unat n" r] r by (cases r) (auto simp: print_u64_def)
  obtain c s where c: "print_u64 n = c # s" using decimal_not_Nil [of "unat n"] by (cases "print_u64 n") (auto simp: print_u64_def)
  then have "isdigit c" using decimal_digits [of "unat n"] by (simp add: print_u64_def)
  with isdigit_not_special [OF this] c t
  have "scan_number (print_u64 n @ r) = Some (saturate False (digits_value (print_u64 n)))"
    by (simp add: scan_number_def)
  moreover have "unat n < 2 ^ LENGTH(64)" by (rule unsigned_less)
  ultimately show ?thesis by (simp add: saturate_def print_u64_def digits_value_decimal)
qed

lemma c_str_word: "\<forall>c \<in> set s. c \<noteq> CHR 0x00 \<Longrightarrow> c_str s = s"
  by (simp add: c_str_def)

lemma print_u64_chars: "c \<in> set (print_u64 n) \<Longrightarrow> \<not> isspace c \<and> c \<noteq> CHR 0x00"
  using decimal_digits isdigit_not_special by (auto simp: print_u64_def)

lemma dropWhile_nonspace: "s \<noteq> [] \<Longrightarrow> \<not> isspace (hd s) \<Longrightarrow> dropWhile isspace s = s"
  by (cases s) auto

lemma print_u64_start [simp]: "print_u64 n \<noteq> []" "\<not> isspace (hd (print_u64 n))" "c_str (print_u64 n) = print_u64 n"
proof -
  show ne: "print_u64 n \<noteq> []" by (simp add: print_u64_def)
  from print_u64_chars [OF hd_in_set [OF ne]] show "\<not> isspace (hd (print_u64 n))" by blast
  show "c_str (print_u64 n) = print_u64 n" using print_u64_chars by (intro c_str_word) blast
qed

lemma strtoull_print: "strtoull (print_u64 n) = n"
  using scan_number_print [of "[]" n] by (simp add: strtoull_def dropWhile_nonspace)

subsection \<open>Commands\<close>

lemma scan_word_bound: "scan_word w s = (t, r) \<Longrightarrow> length t \<le> w \<and> (\<forall>c \<in> set t. \<not> isspace c) \<and> s = t @ r"
proof -
  let ?u = "takeWhile (\<lambda>c. \<not> isspace c) s"
  assume "scan_word w s = (t, r)"
  then have t: "t = take w ?u" "r = drop (length t) s" by (auto simp: scan_word_def Let_def)
  have "take (length t) (?u @ v) = t" for v unfolding t(1) by (simp add: min_def)
  from this [of "dropWhile (\<lambda>c. \<not> isspace c) s"] have "take (length t) s = t" by simp
  with t(2) have "s = t @ r" by (metis append_take_drop_id)
  moreover have "\<forall>c \<in> set t. \<not> isspace c" using t(1) by (auto dest: in_set_takeD set_takeWhileD)
  moreover have "length t \<le> w" unfolding t(1) by simp
  ultimately show ?thesis by blast
qed

lemma c_str_chars: "c \<in> set (c_str s) \<Longrightarrow> c \<noteq> CHR 0x00"
  unfolding c_str_def by (blast dest: set_takeWhileD)

text \<open>The words fit into the arrays that receive them, terminator included.\<close>

lemma sscanf_bounds:
  assumes "sscanf_command buffer = (n, command, channel, len)"
  shows "length command \<le> 31" "\<forall>c \<in> set command. c \<noteq> CHR 0x00" "length channel \<le> 255" "\<forall>c \<in> set channel. \<not> isspace c \<and> c \<noteq> CHR 0x00" "2 \<le> n \<Longrightarrow> command \<noteq> [] \<and> channel \<noteq> []"
proof -
  define s where "s = dropWhile isspace (c_str buffer)"
  have sz: "c \<noteq> CHR 0x00" if "c \<in> set s" for c using c_str_chars [OF set_dropWhileD [OF that [unfolded s_def]]] .
  obtain cmd r where w: "scan_word 31 s = (cmd, r)" by (cases "scan_word 31 s")
  define s' where "s' = dropWhile isspace r"
  obtain ch r' where w': "scan_word 255 s' = (ch, r')" by (cases "scan_word 255 s'")
  note b = scan_word_bound [OF w] scan_word_bound [OF w']
  have ne: "t \<noteq> []" if st: "scan_word k u = (t, q)" "0 < k" "u \<noteq> []" "\<not> isspace (hd u)" for k u t q
  proof -
    obtain c u' where "u = c # u'" using st(3) by (cases u) auto
    with st(1,2,4) show ?thesis by (cases k) (auto simp: scan_word_def Let_def)
  qed
  have hds: "s \<noteq> [] \<Longrightarrow> \<not> isspace (hd s)" "s' \<noteq> [] \<Longrightarrow> \<not> isspace (hd s')"
    unfolding s_def s'_def by (rule hd_dropWhile, assumption)+
  have sz': "c \<noteq> CHR 0x00" if "c \<in> set ch" for c
  proof -
    have "c \<in> set s'" using that b(2) by simp
    then have "c \<in> set r" unfolding s'_def by (rule set_dropWhileD)
    with b(1) sz show ?thesis by simp
  qed
  have "(s = [] \<and> n = -1 \<and> command = [] \<and> channel = []) \<or> (s' = [] \<and> n = 1 \<and> command = cmd \<and> channel = [])
    \<or> (s \<noteq> [] \<and> s' \<noteq> [] \<and> command = cmd \<and> channel = ch)"
    using assms w w' unfolding sscanf_command_def s_def [symmetric]
    by (auto simp: Let_def s'_def split: if_splits option.splits)
  then consider "n = -1" "command = []" "channel = []" | "n = 1" "command = cmd" "channel = []"
    | "s \<noteq> []" "s' \<noteq> []" "command = cmd" "channel = ch" by blast
  then have "length command \<le> 31 \<and> (\<forall>c \<in> set command. c \<noteq> CHR 0x00) \<and> length channel \<le> 255 \<and> (\<forall>c \<in> set channel. \<not> isspace c \<and> c \<noteq> CHR 0x00)
    \<and> (2 \<le> n \<longrightarrow> command \<noteq> [] \<and> channel \<noteq> [])"
  proof cases
    case 3
    with b sz sz' ne [OF w] ne [OF w'] hds show ?thesis by simp
  qed (use b sz in auto)
  then show "length command \<le> 31" "\<forall>c \<in> set command. c \<noteq> CHR 0x00" "length channel \<le> 255" "\<forall>c \<in> set channel. \<not> isspace c \<and> c \<noteq> CHR 0x00"
    "2 \<le> n \<Longrightarrow> command \<noteq> [] \<and> channel \<noteq> []" by blast+
qed

text \<open>A command line as a client writes it.\<close>

lemma scan_word_exact:
  assumes "length t \<le> w" and "\<forall>c \<in> set t. \<not> isspace c" and "r = [] \<or> isspace (hd r)"
  shows "scan_word w (t @ r) = (t, r)"
proof -
  have "takeWhile (\<lambda>c. \<not> isspace c) (t @ r) = t" using assms(2,3) by (cases r) (auto simp: takeWhile_append)
  then show ?thesis using assms(1) by (simp add: scan_word_def Let_def)
qed

definition is_word :: "nat \<Rightarrow> string \<Rightarrow> bool" where
  "is_word w t \<longleftrightarrow> t \<noteq> [] \<and> length t \<le> w \<and> (\<forall>c \<in> set t. \<not> isspace c \<and> c \<noteq> CHR 0x00)"

lemma is_word_start: "is_word w t \<Longrightarrow> dropWhile isspace (t @ r) = t @ r"
  by (cases t) (auto simp: is_word_def)

lemma is_wordD: "is_word w t \<Longrightarrow> t \<noteq> [] \<and> (\<exists>x \<in> set t. \<not> isspace x)"
  by (cases t) (auto simp: is_word_def)

lemma isspace_blank [simp]: "isspace (CHR '' '')"
  by (simp add: isspace_def)

lemma is_word_scan: "is_word w t \<Longrightarrow> r = [] \<or> isspace (hd r) \<Longrightarrow> scan_word w (t @ r) = (t, r)"
  by (rule scan_word_exact) (auto simp: is_word_def)

lemma is_word_print: "is_word 255 (print_u64 n)"
  using print_u64_length [of n] print_u64_chars [of _ n] by (auto simp: is_word_def)

text \<open>What a client writes as a command is what the server reads.\<close>

lemma sscanf_two_words:
  assumes c: "is_word 31 command" and h: "is_word 255 channel"
  shows "sscanf_command (command @ '' '' @ channel) = (2, command, channel, 0)"
proof -
  have "c_str (command @ '' '' @ channel) = command @ '' '' @ channel" using c h by (intro c_str_word) (auto simp: is_word_def)
  moreover have "dropWhile isspace ('' '' @ channel) = channel" using is_word_start [OF h, of "[]"] by simp
  moreover have "scan_word 31 (command @ '' '' @ channel) = (command, '' '' @ channel)" by (rule is_word_scan [OF c]) simp
  moreover have "scan_word 255 channel = (channel, [])" using is_word_scan [OF h, of "[]"] by simp
  moreover have "command \<noteq> []" "channel \<noteq> []" "\<exists>x \<in> set channel. \<not> isspace x" using is_wordD [OF c] is_wordD [OF h] by simp_all
  ultimately show ?thesis using is_word_start [OF c, of "'' '' @ channel"]
    by (simp add: sscanf_command_def Let_def scan_number_def)
qed

lemma sscanf_three_words:
  assumes c: "is_word 31 command" and h: "is_word 255 channel"
  shows "sscanf_command (command @ '' '' @ channel @ '' '' @ print_u64 n) = (3, command, channel, n)"
proof -
  let ?r = "'' '' @ print_u64 n"
  have "c_str (command @ '' '' @ channel @ ?r) = command @ '' '' @ channel @ ?r"
    using c h print_u64_chars [of _ n] by (intro c_str_word) (auto simp: is_word_def)
  moreover have "dropWhile isspace ('' '' @ channel @ ?r) = channel @ ?r" using is_word_start [OF h, of ?r] by simp
  moreover have "scan_word 31 (command @ '' '' @ channel @ ?r) = (command, '' '' @ channel @ ?r)" by (rule is_word_scan [OF c]) simp
  moreover have "scan_word 255 (channel @ ?r) = (channel, ?r)" by (rule is_word_scan [OF h]) simp
  moreover have "dropWhile isspace ?r = print_u64 n" using is_word_start [OF is_word_print, of n "[]"] by simp
  moreover have "command \<noteq> []" "channel \<noteq> []" "\<exists>x \<in> set channel. \<not> isspace x" using is_wordD [OF c] is_wordD [OF h] by simp_all
  moreover have "scan_number (print_u64 n) = Some n" using scan_number_print [of "[]" n] by simp
  ultimately show ?thesis using is_word_start [OF c, of "'' '' @ channel @ ?r"] by (simp add: sscanf_command_def Let_def bex_Un)
qed

end
