(* ===== verification/Network_Server.thy ===== *)
theory Network_Server
  imports Protocol Broker_Specs
begin

text \<open>
  \<^verbatim>\<open>src/network_server.c\<close>: the command protocol on top of the broker, the sessions of the clients, and the list of subscriptions that
  were detached from a session and may be attached to another one.

  OpenSSL and the sockets are not part of the program.  A connection has a state of an arbitrary type \<open>'c\<close>;
  what \<open>SSL_read\<close> and \<open>SSL_write\<close> do to it is a parameter.  \<open>SSL_read\<close> gives back the bytes it has read, whose number is its result, or
  the result of a call that failed.  The sockets calls of the life cycle of the server are seen through their results.

  A call runs alone.  The receiver thread of a session is represented by whether it exists; one turn of its loop is
  \<open>receiver_turn\<close>.  Creating a thread is a request to the system; joining a thread that was never created or was joined
  before is undefined and has no result.
\<close>

section \<open>Structures\<close>

record 'c ssl_api =
  SSL_read :: "'c \<Rightarrow> nat \<Rightarrow> (int + string) \<times> 'c"
  SSL_write :: "'c \<Rightarrow> string \<Rightarrow> int \<times> 'c"

record detached_subscription_t =
  ds_id :: uint64_t
  ds_subscription :: "addr ptr"
  ds_next :: "addr ptr"

datatype thread_state = No_Thread | Started

record network_server_t =
  ns_broker :: "addr ptr"
  ns_server_fd :: int
  ns_port :: int
  ns_running :: bool
  ns_max_clients :: size_t
  ns_detached_subscriptions :: "addr ptr"
  ns_detached_mutex :: pthread_mutex_t
  ns_api_key :: "addr ptr"
  ns_accept_thread :: thread_state

record 'c client_context_t =
  cc_server :: "addr ptr"
  cc_ssl :: 'c
  cc_subscription :: "addr ptr"
  cc_receiver_thread :: thread_state
  cc_active :: bool
  cc_detached :: bool
  cc_authenticated :: bool

text \<open>The API key is a block of its own.\<close>

record 'c server_store =
  servers :: "addr \<rightharpoonup> network_server_t"
  clients :: "addr \<rightharpoonup> 'c client_context_t"
  detached_nodes :: "addr \<rightharpoonup> detached_subscription_t"
  api_keys :: "addr \<rightharpoonup> string"
  sv_arena :: allocator
  broker_heap :: broker_store

section \<open>Accesses\<close>

definition server_at :: "'c server_store \<Rightarrow> addr ptr \<Rightarrow> network_server_t option" where
  "server_at s p = Option.bind p (servers s)"

definition modify_server :: "addr ptr \<Rightarrow> (network_server_t \<Rightarrow> network_server_t) \<Rightarrow> 'c server_store \<Rightarrow> 'c server_store option" where
  "modify_server p f s = do {
     a \<leftarrow> p;
     r \<leftarrow> servers s a;
     Some (s\<lparr>servers := (servers s)(a \<mapsto> f r)\<rparr>) }"

definition client_at :: "'c server_store \<Rightarrow> addr ptr \<Rightarrow> 'c client_context_t option" where
  "client_at s p = Option.bind p (clients s)"

definition modify_client :: "addr ptr \<Rightarrow> ('c client_context_t \<Rightarrow> 'c client_context_t) \<Rightarrow> 'c server_store \<Rightarrow> 'c server_store option" where
  "modify_client p f s = do {
     a \<leftarrow> p;
     r \<leftarrow> clients s a;
     Some (s\<lparr>clients := (clients s)(a \<mapsto> f r)\<rparr>) }"

definition free_client :: "addr ptr \<Rightarrow> 'c server_store \<Rightarrow> 'c server_store option" where
  "free_client p s = do {
     a \<leftarrow> p;
     _ \<leftarrow> clients s a;
     Some (s\<lparr>clients := (clients s)(a := None)\<rparr>) }"

definition node_of :: "'c server_store \<Rightarrow> addr ptr \<Rightarrow> detached_subscription_t option" where
  "node_of s p = Option.bind p (detached_nodes s)"

definition modify_detached ::
  "addr ptr \<Rightarrow> (detached_subscription_t \<Rightarrow> detached_subscription_t) \<Rightarrow> 'c server_store \<Rightarrow> 'c server_store option" where
  "modify_detached p f s = do {
     a \<leftarrow> p;
     r \<leftarrow> detached_nodes s a;
     Some (s\<lparr>detached_nodes := (detached_nodes s)(a \<mapsto> f r)\<rparr>) }"

definition free_detached :: "addr ptr \<Rightarrow> 'c server_store \<Rightarrow> 'c server_store option" where
  "free_detached p s = do {
     a \<leftarrow> p;
     _ \<leftarrow> detached_nodes s a;
     Some (s\<lparr>detached_nodes := (detached_nodes s)(a := None)\<rparr>) }"

definition malloc_detached :: "'c server_store \<Rightarrow> addr ptr \<times> 'c server_store" where
  "malloc_detached s = (case malloc (sv_arena s) of
     (NULL, A) \<Rightarrow> (NULL, s\<lparr>sv_arena := A\<rparr>)
   | (Some a, A) \<Rightarrow> (Some a, s\<lparr>sv_arena := A, detached_nodes := (detached_nodes s)(a \<mapsto>
       \<lparr>ds_id = 0, ds_subscription = NULL, ds_next = NULL\<rparr>)\<rparr>))"

definition lock_detached :: "addr ptr \<Rightarrow> 'c server_store \<Rightarrow> 'c server_store option" where
  "lock_detached p s = do {
     r \<leftarrow> server_at s p;
     m \<leftarrow> pthread_mutex_lock (ns_detached_mutex r);
     modify_server p (\<lambda>r. r\<lparr>ns_detached_mutex := m\<rparr>) s }"

definition unlock_detached :: "addr ptr \<Rightarrow> 'c server_store \<Rightarrow> 'c server_store option" where
  "unlock_detached p s = do {
     r \<leftarrow> server_at s p;
     m \<leftarrow> pthread_mutex_unlock (ns_detached_mutex r);
     modify_server p (\<lambda>r. r\<lparr>ns_detached_mutex := m\<rparr>) s }"

text \<open>\<open>pthread_create\<close>, whose result the handlers ignore, and \<open>pthread_join\<close> of the receiver of a session.\<close>

definition create_receiver :: "addr ptr \<Rightarrow> 'c server_store \<Rightarrow> 'c server_store option" where
  "create_receiver ctx s = (case sys_init (sv_arena s) of (r, A) \<Rightarrow>
     modify_client ctx (\<lambda>c. if r = 0 then c\<lparr>cc_receiver_thread := Started\<rparr> else c) (s\<lparr>sv_arena := A\<rparr>))"

definition join_receiver :: "addr ptr \<Rightarrow> 'c server_store \<Rightarrow> 'c server_store option" where
  "join_receiver ctx s = do {
     c \<leftarrow> client_at s ctx;
     if cc_receiver_thread c = No_Thread then None
     else modify_client ctx (\<lambda>c. c\<lparr>cc_receiver_thread := No_Thread\<rparr>) s }"

section \<open>Detached subscriptions\<close>

text \<open>The pointer \<open>pp\<close> of the search points to the head of the list or to the link of a node.\<close>

datatype link = Head | Next "addr ptr"

definition read_link :: "addr ptr \<Rightarrow> link \<Rightarrow> 'c server_store \<Rightarrow> addr ptr option" where
  "read_link server pp s = (case pp of
     Head \<Rightarrow> map_option ns_detached_subscriptions (server_at s server)
   | Next p \<Rightarrow> map_option ds_next (node_of s p))"

definition write_link :: "addr ptr \<Rightarrow> link \<Rightarrow> addr ptr \<Rightarrow> 'c server_store \<Rightarrow> 'c server_store option" where
  "write_link server pp v s = (case pp of
     Head \<Rightarrow> modify_server server (\<lambda>r. r\<lparr>ns_detached_subscriptions := v\<rparr>) s
   | Next p \<Rightarrow> modify_detached p (\<lambda>n. n\<lparr>ds_next := v\<rparr>) s)"

partial_function (option) find_detached_loop ::
  "addr ptr \<Rightarrow> uint64_t \<Rightarrow> link \<Rightarrow> 'c server_store \<Rightarrow> (addr ptr \<times> 'c server_store) option" where
  "find_detached_loop server i pp s = do {
     p \<leftarrow> read_link server pp s;
     if p = NULL then do {
       s \<leftarrow> unlock_detached server s;
       Some (NULL, s) }
     else do {
       n \<leftarrow> node_of s p;
       if ds_id n = i then do {
         s \<leftarrow> write_link server pp (ds_next n) s;
         s \<leftarrow> free_detached p s;
         s \<leftarrow> unlock_detached server s;
         Some (ds_subscription n, s) }
       else find_detached_loop server i (Next p) s } }"

definition find_and_remove_detached :: "addr ptr \<Rightarrow> uint64_t \<Rightarrow> 'c server_store \<Rightarrow> (addr ptr \<times> 'c server_store) option" where
  "find_and_remove_detached server i s = do {
     s \<leftarrow> lock_detached server s;
     find_detached_loop server i Head s }"

definition add_detached :: "addr ptr \<Rightarrow> addr ptr \<Rightarrow> 'c server_store \<Rightarrow> (exit_code, 'c server_store) res" where
  "add_detached server sub s = do {
     (_, field) \<leftarrow> subscription_get_id sub (Some 0) (broker_heap s);
     i \<leftarrow> field;
     let (node, s) = malloc_detached s;
     if node = NULL then Some (-1, s)
     else do {
       s \<leftarrow> modify_detached node (\<lambda>n. n\<lparr>ds_id := i, ds_subscription := sub\<rparr>) s;
       s \<leftarrow> lock_detached server s;
       r \<leftarrow> server_at s server;
       s \<leftarrow> modify_detached node (\<lambda>n. n\<lparr>ds_next := ns_detached_subscriptions r\<rparr>) s;
       s \<leftarrow> modify_server server (\<lambda>r. r\<lparr>ns_detached_subscriptions := node\<rparr>) s;
       s \<leftarrow> unlock_detached server s;
       Some (0, s) } }"

section \<open>Handlers\<close>

definition send_response :: "'c ssl_api \<Rightarrow> addr ptr \<Rightarrow> string \<Rightarrow> 'c server_store \<Rightarrow> (exit_code, 'c server_store) res" where
  "send_response ssl ctx response s = do {
     c \<leftarrow> client_at s ctx;
     let (written, conn) = SSL_write ssl (cc_ssl c) response;
     s \<leftarrow> modify_client ctx (\<lambda>c. c\<lparr>cc_ssl := conn\<rparr>) s;
     Some (if written \<le> 0 then -1 else 0, s) }"

abbreviation newline :: char where
  "newline \<equiv> CHR 0x0A"

text \<open>A reply is a line.\<close>

definition reply :: "'c ssl_api \<Rightarrow> addr ptr \<Rightarrow> string \<Rightarrow> exit_code \<Rightarrow> 'c server_store \<Rightarrow> (exit_code, 'c server_store) res" where
  "reply ssl ctx text r s = do {
     (_, s) \<leftarrow> send_response ssl ctx (text @ [newline]) s;
     Some (r, s) }"

definition handle_subscribe :: "'c ssl_api \<Rightarrow> addr ptr \<Rightarrow> string \<Rightarrow> 'c server_store \<Rightarrow> (exit_code, 'c server_store) res" where
  "handle_subscribe ssl ctx channel_name s = do {
     c \<leftarrow> client_at s ctx;
     if cc_subscription c \<noteq> NULL then reply ssl ctx ''ERR Already subscribed'' (-1) s
     else do {
       r \<leftarrow> server_at s (cc_server c);
       (result, field, b) \<leftarrow> message_broker_subscribe (ns_broker r) (Some channel_name) (Some (cc_subscription c)) (broker_heap s);
       sub \<leftarrow> field;
       s \<leftarrow> modify_client ctx (\<lambda>c. c\<lparr>cc_subscription := sub\<rparr>) (s\<lparr>broker_heap := b\<rparr>);
       if result \<noteq> 0 then reply ssl ctx ''ERR Failed to subscribe'' (-1) s
       else do {
         s \<leftarrow> modify_client ctx (\<lambda>c. c\<lparr>cc_detached := False, cc_active := True\<rparr>) s;
         s \<leftarrow> create_receiver ctx s;
         (_, field) \<leftarrow> subscription_get_id sub (Some 0) (broker_heap s);
         sub_id \<leftarrow> field;
         reply ssl ctx (''OK '' @ print_u64 sub_id) 0 s } } }"

definition handle_attach :: "'c ssl_api \<Rightarrow> addr ptr \<Rightarrow> uint64_t \<Rightarrow> 'c server_store \<Rightarrow> (exit_code, 'c server_store) res" where
  "handle_attach ssl ctx subscription_id s = do {
     c \<leftarrow> client_at s ctx;
     if cc_subscription c \<noteq> NULL then reply ssl ctx ''ERR Already subscribed'' (-1) s
     else do {
       (sub, s) \<leftarrow> find_and_remove_detached (cc_server c) subscription_id s;
       if sub = NULL then reply ssl ctx ''ERR Subscription not found'' (-1) s
       else do {
         s \<leftarrow> modify_client ctx (\<lambda>c. c\<lparr>cc_subscription := sub, cc_detached := False, cc_active := True\<rparr>) s;
         s \<leftarrow> create_receiver ctx s;
         (_, field, b) \<leftarrow> subscription_get_pending_count sub (Some 0) (broker_heap s);
         pending \<leftarrow> field;
         reply ssl ctx (''OK '' @ print_u64 pending) 0 (s\<lparr>broker_heap := b\<rparr>) } } }"

definition handle_detach :: "'c ssl_api \<Rightarrow> addr ptr \<Rightarrow> 'c server_store \<Rightarrow> (exit_code, 'c server_store) res" where
  "handle_detach ssl ctx s = do {
     c \<leftarrow> client_at s ctx;
     if cc_subscription c = NULL then reply ssl ctx ''ERR Not subscribed'' (-1) s
     else do {
       s \<leftarrow> modify_client ctx (\<lambda>c. c\<lparr>cc_active := False\<rparr>) s;
       s \<leftarrow> join_receiver ctx s;
       (result, s) \<leftarrow> add_detached (cc_server c) (cc_subscription c) s;
       if result \<noteq> 0 then reply ssl ctx ''ERR Failed to detach'' (-1) s
       else do {
         (_, field) \<leftarrow> subscription_get_id (cc_subscription c) (Some 0) (broker_heap s);
         sub_id \<leftarrow> field;
         s \<leftarrow> modify_client ctx (\<lambda>c. c\<lparr>cc_detached := True, cc_subscription := NULL\<rparr>) s;
         reply ssl ctx (''OK '' @ print_u64 sub_id) 0 s } } }"

definition MAX_CONTENT_SIZE :: size_t where
  "MAX_CONTENT_SIZE = 65536"

text \<open>
  \<open>malloc (content_len + 1)\<close> is a block of that many bytes, none of them written.  \<open>SSL_read\<close> stores what it has read at the beginning, at most the
  number of bytes it was asked for.
\<close>

definition handle_publish :: "'c ssl_api \<Rightarrow> addr ptr \<Rightarrow> string \<Rightarrow> size_t \<Rightarrow> 'c server_store \<Rightarrow> (exit_code, 'c server_store) res" where
  "handle_publish ssl ctx channel_name content_len s =
     (if MAX_CONTENT_SIZE < content_len then reply ssl ctx ''ERR Content too large'' (-1) s
      else case malloc (sv_arena s) of
        (NULL, A) \<Rightarrow> reply ssl ctx ''ERR Out of memory'' (-1) (s\<lparr>sv_arena := A\<rparr>)
      | (Some _, A) \<Rightarrow> do {
          let content = replicate (unat (content_len + 1)) NULL;
          c \<leftarrow> client_at s ctx;
          let (bytes_read, conn) = SSL_read ssl (cc_ssl c) (unat content_len);
          s \<leftarrow> modify_client ctx (\<lambda>c. c\<lparr>cc_ssl := conn\<rparr>) (s\<lparr>sv_arena := A\<rparr>);
          (case bytes_read of
             Inl _ \<Rightarrow> reply ssl ctx ''ERR Failed to read content'' (-1) s
           | Inr bytes \<Rightarrow> do {
               content \<leftarrow> store_bytes content 0 (take (unat content_len) bytes);
               if length bytes \<noteq> unat content_len then reply ssl ctx ''ERR Failed to read content'' (-1) s
               else do {
                 content \<leftarrow> store_byte content (unat content_len) (CHR 0x00);
                 let (_, conn) = SSL_read ssl conn 1;
                 s \<leftarrow> modify_client ctx (\<lambda>c. c\<lparr>cc_ssl := conn\<rparr>) s;
                 r \<leftarrow> server_at s (cc_server c);
                 content \<leftarrow> string_at content;
                 (result, b) \<leftarrow> message_broker_publish (ns_broker r) (Some channel_name) (Some content) (broker_heap s);
                 let s = s\<lparr>broker_heap := b\<rparr>;
                 if result \<noteq> 0 then reply ssl ctx ''ERR Failed to publish'' (-1) s
                 else reply ssl ctx ''OK'' 0 s } }) })"

definition handle_auth :: "'c ssl_api \<Rightarrow> addr ptr \<Rightarrow> string \<Rightarrow> 'c server_store \<Rightarrow> (exit_code, 'c server_store) res" where
  "handle_auth ssl ctx api_key s = do {
     c \<leftarrow> client_at s ctx;
     if cc_authenticated c then reply ssl ctx ''ERR Already authenticated'' (-1) s
     else do {
       r \<leftarrow> server_at s (cc_server c);
       if ns_api_key r = NULL then do {
         s \<leftarrow> modify_client ctx (\<lambda>c. c\<lparr>cc_authenticated := True\<rparr>) s;
         reply ssl ctx ''OK'' 0 s }
       else do {
         a \<leftarrow> ns_api_key r;
         key \<leftarrow> api_keys s a;
         if strcmp api_key key = 0 then do {
           s \<leftarrow> modify_client ctx (\<lambda>c. c\<lparr>cc_authenticated := True\<rparr>) s;
           reply ssl ctx ''OK'' 0 s }
         else reply ssl ctx ''ERR Invalid API key'' (-1) s } } }"

section \<open>The session of a client\<close>

definition BUFFER_SIZE :: nat where
  "BUFFER_SIZE = 4096"

definition MAX_CHANNEL_NAME :: nat where
  "MAX_CHANNEL_NAME = 256"

text \<open>
  The loop that reads a line byte by byte into the buffer: whether the connection is still up, the position behind the last byte of the line, and the buffer.
\<close>

function read_line :: "'c ssl_api \<Rightarrow> buffer \<Rightarrow> nat \<Rightarrow> 'c \<Rightarrow> (bool \<times> nat \<times> buffer \<times> 'c) option" where
  "read_line ssl buffer line_pos conn =
     (if line_pos < length buffer - 1 then
        case SSL_read ssl conn 1 of
          (Inr (c # _), conn) \<Rightarrow> do {
            buffer \<leftarrow> store_byte buffer line_pos c;
            if c = newline then do {
              buffer \<leftarrow> store_byte buffer line_pos (CHR 0x00);
              Some (True, line_pos, buffer, conn) }
            else read_line ssl buffer (Suc line_pos) conn }
        | (_, conn) \<Rightarrow> Some (False, line_pos, buffer, conn)
      else Some (True, line_pos, buffer, conn))"
  by pat_completeness auto

termination
  by (relation "measure (\<lambda>(ssl, buffer, line_pos, conn). length buffer - line_pos)") (auto dest!: store_byte_length)

declare read_line.simps [simp del]

text \<open>
  The command in the buffer; the result says whether the session goes on.  A word that does not fit into its array, \<open>command[32]\<close> or \<open>channel[MAX_CHANNEL_NAME]\<close>, with its
  terminator has no result.
\<close>

definition client_command :: "'c ssl_api \<Rightarrow> addr ptr \<Rightarrow> string \<Rightarrow> 'c server_store \<Rightarrow> (bool \<times> 'c server_store) option" where
  "client_command ssl ctx buffer s = do {
     c \<leftarrow> client_at s ctx;
     let (n, command, channel, content_len) = sscanf_command buffer;
     if 32 \<le> length command \<or> MAX_CHANNEL_NAME \<le> length channel then None
     else if 2 \<le> n then
       if strcmp command ''AUTH'' = 0 then do {
         (_, s) \<leftarrow> handle_auth ssl ctx channel s;
         Some (True, s) }
       else if \<not> cc_authenticated c then do {
         (_, s) \<leftarrow> reply ssl ctx ''ERR Authentication required'' 0 s;
         Some (True, s) }
       else if strcmp command ''SUBSCRIBE'' = 0 then do {
         (_, s) \<leftarrow> handle_subscribe ssl ctx channel s;
         Some (True, s) }
       else if strcmp command ''PUBLISH'' = 0 \<and> 0 < content_len then do {
         (_, s) \<leftarrow> handle_publish ssl ctx channel content_len s;
         Some (True, s) }
       else if strcmp command ''ATTACH'' = 0 then do {
         (_, s) \<leftarrow> handle_attach ssl ctx (strtoull channel) s;
         Some (True, s) }
       else if strcmp command ''QUIT'' = 0 then do {
         (_, s) \<leftarrow> reply ssl ctx ''BYE'' 0 s;
         Some (False, s) }
       else do {
         (_, s) \<leftarrow> reply ssl ctx ''ERR Unknown command'' 0 s;
         Some (True, s) }
     else if strcmp buffer ''DETACH'' = 0 then
       if \<not> cc_authenticated c then do {
         (_, s) \<leftarrow> reply ssl ctx ''ERR Authentication required'' 0 s;
         Some (True, s) }
       else do {
         (_, s) \<leftarrow> handle_detach ssl ctx s;
         Some (True, s) }
     else if strcmp buffer ''QUIT'' = 0 then do {
       (_, s) \<leftarrow> reply ssl ctx ''BYE'' 0 s;
       Some (False, s) }
     else do {
       (_, s) \<leftarrow> reply ssl ctx ''ERR Invalid command format'' 0 s;
       Some (True, s) } }"

text \<open>One turn of the loop of \<open>_client_handler\<close>: a line is read and its command carried out.\<close>

definition client_turn :: "'c ssl_api \<Rightarrow> addr ptr \<Rightarrow> 'c server_store \<Rightarrow> (bool \<times> 'c server_store) option" where
  "client_turn ssl ctx s = do {
     c \<leftarrow> client_at s ctx;
     r \<leftarrow> server_at s (cc_server c);
     if \<not> ns_running r then Some (False, s)
     else do {
       (running, line_pos, buffer, conn) \<leftarrow> read_line ssl (replicate BUFFER_SIZE (Some (CHR 0x00))) 0 (cc_ssl c);
       s \<leftarrow> modify_client ctx (\<lambda>c. c\<lparr>cc_ssl := conn\<rparr>) s;
       if \<not> running \<or> line_pos = 0 then Some (False, s)
       else do {
         line \<leftarrow> string_at buffer;
         client_command ssl ctx line s } } }"

partial_function (option) client_loop :: "'c ssl_api \<Rightarrow> addr ptr \<Rightarrow> 'c server_store \<Rightarrow> 'c server_store option" where
  "client_loop ssl ctx s = do {
     (running, s) \<leftarrow> client_turn ssl ctx s;
     if running then client_loop ssl ctx s else Some s }"

text \<open>What follows the loop.\<close>

definition client_cleanup :: "addr ptr \<Rightarrow> 'c server_store \<Rightarrow> 'c server_store option" where
  "client_cleanup ctx s = do {
     s \<leftarrow> modify_client ctx (\<lambda>c. c\<lparr>cc_active := False\<rparr>) s;
     c \<leftarrow> client_at s ctx;
     s \<leftarrow> (if cc_subscription c \<noteq> NULL \<and> \<not> cc_detached c then do {
            s \<leftarrow> join_receiver ctx s;
            (_, b) \<leftarrow> subscription_unsubscribe (cc_subscription c) (broker_heap s);
            (_, b) \<leftarrow> subscription_free (cc_subscription c) b;
            Some (s\<lparr>broker_heap := b\<rparr>) }
          else Some s);
     free_client ctx s }"

definition client_handler :: "'c ssl_api \<Rightarrow> addr ptr \<Rightarrow> 'c server_store \<Rightarrow> 'c server_store option" where
  "client_handler ssl ctx s = do {
     s \<leftarrow> client_loop ssl ctx s;
     client_cleanup ctx s }"

text \<open>The context that \<open>_accept_thread\<close> creates for a connection, and the start of its handler.\<close>

definition accept_client :: "addr ptr \<Rightarrow> 'c \<Rightarrow> 'c server_store \<Rightarrow> addr ptr \<times> 'c server_store" where
  "accept_client self conn s = (case malloc (sv_arena s) of
     (NULL, A) \<Rightarrow> (NULL, s\<lparr>sv_arena := A\<rparr>)
   | (Some ctx, A) \<Rightarrow> (case sys_init A of (r, A) \<Rightarrow>
       if r \<noteq> 0 then (NULL, s\<lparr>sv_arena := A\<rparr>)
       else (Some ctx, s\<lparr>sv_arena := A, clients := (clients s)(ctx \<mapsto> \<lparr>cc_server = self, cc_ssl = conn, cc_subscription = NULL,
         cc_receiver_thread = No_Thread, cc_active = False, cc_detached = False, cc_authenticated = False\<rparr>)\<rparr>)))"

text \<open>
  One turn of the loop of \<open>_accept_thread\<close>, with the results of \<open>accept\<close> and \<open>SSL_accept\<close>; the result says whether the loop goes on.
\<close>

definition accept_turn :: "int \<Rightarrow> int \<Rightarrow> 'c \<Rightarrow> addr ptr \<Rightarrow> 'c server_store \<Rightarrow> (bool \<times> 'c server_store) option" where
  "accept_turn client_fd handshake conn self s = do {
     r \<leftarrow> server_at s self;
     if \<not> ns_running r then Some (False, s)
     else if client_fd < 0 then Some (True, s)
     else if handshake \<le> 0 then Some (True, s)
     else Some (True, snd (accept_client self conn s)) }"

section \<open>The receiver thread\<close>

text \<open>\<open>snprintf\<close> with the format \<open>"MSG %lu %s %zu\n"\<close>, before it is cut to the size of the block.\<close>

definition frame_header :: "uint64_t \<Rightarrow> string \<Rightarrow> size_t \<Rightarrow> string" where
  "frame_header i channel len = ''MSG '' @ print_u64 i @ '' '' @ channel @ '' '' @ print_u64 len @ [newline]"

text \<open>
  The block for a message: \<open>memcpy\<close> writes the content behind the header wherever that ends, and the last byte follows; outside of the
  block there is no result.
\<close>

definition write_frame :: "uint64_t \<Rightarrow> string \<Rightarrow> string \<Rightarrow> string option" where
  "write_frame i channel content = (let content_len = length content; total_len = 512 + content_len + 1;
     header = frame_header i channel (of_nat content_len) in
     if length header + content_len < total_len then Some (header @ content @ [newline]) else None)"

text \<open>One turn of the loop of \<open>_subscriber_receiver_thread\<close>; the result says whether the loop goes on.\<close>

definition receiver_turn :: "'c ssl_api \<Rightarrow> addr ptr \<Rightarrow> 'c server_store \<Rightarrow> (bool \<times> 'c server_store) option" where
  "receiver_turn ssl ctx s = do {
     c \<leftarrow> client_at s ctx;
     if \<not> cc_active c then Some (False, s)
     else do {
       (result, field, b) \<leftarrow> subscription_try_receive (cc_subscription c) (Some NULL) (broker_heap s);
       msg \<leftarrow> field;
       let s = s\<lparr>broker_heap := b\<rparr>;
       if result = 0 \<and> msg \<noteq> NULL then do {
         let mw = message_heap (broker_proxies b);
         (_, field) \<leftarrow> message_get_id msg (Some 0) mw;
         i \<leftarrow> field;
         (_, field) \<leftarrow> message_get_channel msg (Some NULL) mw;
         channel \<leftarrow> Option.bind field (\<lambda>p. p);
         (_, field) \<leftarrow> message_get_content msg (Some NULL) mw;
         content \<leftarrow> Option.bind field (\<lambda>p. p);
         let (full_message, A) = malloc (sv_arena s);
         let s = s\<lparr>sv_arena := A\<rparr>;
         s \<leftarrow> (if full_message = NULL then Some s else do {
                frame \<leftarrow> write_frame i (c_str channel) (c_str content);
                let (_, conn) = SSL_write ssl (cc_ssl c) frame;
                modify_client ctx (\<lambda>c. c\<lparr>cc_ssl := conn\<rparr>) s });
         (_, mw) \<leftarrow> message_free msg (message_heap (broker_proxies (broker_heap s)));
         Some (True, s\<lparr>broker_heap := set_broker_proxies (set_message_heap mw (broker_proxies (broker_heap s))) (broker_heap s)\<rparr>) }
       else Some (True, s) } }"

section \<open>The life cycle of the server\<close>

text \<open>The configuration, and the results of the calls to OpenSSL and to the socket interface.\<close>

record network_server_configuration_t =
  cf_port :: int
  cf_cert_file :: "string ptr"
  cf_key_file :: "string ptr"
  cf_api_key :: "string ptr"
  cf_broker :: "addr ptr"
  cf_max_clients :: size_t

record server_calls =
  sc_ctx_new :: bool
  sc_use_certificate :: int
  sc_use_private_key :: int
  sc_check_private_key :: bool
  sc_socket :: int
  sc_bind :: int
  sc_port :: "int option"

text \<open>\<open>_create_ssl_context\<close>: whether it gives a context.\<close>

definition create_ssl_context :: "server_calls \<Rightarrow> bool" where
  "create_ssl_context calls =
     (if \<not> sc_ctx_new calls then False
      else if sc_use_certificate calls \<le> 0 then False
      else if sc_use_private_key calls \<le> 0 then False
      else if \<not> sc_check_private_key calls then False
      else True)"

definition malloc_server :: "network_server_t \<Rightarrow> 'c server_store \<Rightarrow> addr ptr \<times> 'c server_store" where
  "malloc_server r s = (case malloc (sv_arena s) of
     (NULL, A) \<Rightarrow> (NULL, s\<lparr>sv_arena := A\<rparr>)
   | (Some a, A) \<Rightarrow> (Some a, s\<lparr>sv_arena := A, servers := (servers s)(a \<mapsto> r)\<rparr>))"

definition free_server :: "addr ptr \<Rightarrow> 'c server_store \<Rightarrow> 'c server_store option" where
  "free_server p s = do {
     a \<leftarrow> p;
     _ \<leftarrow> servers s a;
     Some (s\<lparr>servers := (servers s)(a := None)\<rparr>) }"

definition malloc_key :: "string \<Rightarrow> 'c server_store \<Rightarrow> addr ptr \<times> 'c server_store" where
  "malloc_key k s = (case malloc (sv_arena s) of
     (NULL, A) \<Rightarrow> (NULL, s\<lparr>sv_arena := A\<rparr>)
   | (Some a, A) \<Rightarrow> (Some a, s\<lparr>sv_arena := A, api_keys := (api_keys s)(a \<mapsto> c_str k)\<rparr>))"

definition free_key :: "addr ptr \<Rightarrow> 'c server_store \<Rightarrow> 'c server_store option" where
  "free_key p s = (case p of NULL \<Rightarrow> Some s
     | Some a \<Rightarrow> if api_keys s a = None then None else Some (s\<lparr>api_keys := (api_keys s)(a := None)\<rparr>))"

definition network_server_new ::
  "server_calls \<Rightarrow> network_server_configuration_t option \<Rightarrow> addr ptr out \<Rightarrow> 'c server_store
     \<Rightarrow> (exit_code \<times> addr ptr out \<times> 'c server_store) option" where
  "network_server_new calls config out_self s =
     (if config = None \<or> out_self = NULL then Some (1, out_self, s)
      else do {
        cf \<leftarrow> config;
        if cf_broker cf = NULL \<or> cf_cert_file cf = NULL \<or> cf_key_file cf = NULL then Some (1, out_self, s)
        else do {
          let (self, s) = malloc_server \<lparr>ns_broker = cf_broker cf, ns_server_fd = -1, ns_port = cf_port cf, ns_running = False,
            ns_max_clients = (if 0 < cf_max_clients cf then cf_max_clients cf else 10), ns_detached_subscriptions = NULL,
            ns_detached_mutex = Unlocked, ns_api_key = NULL, ns_accept_thread = No_Thread\<rparr> s;
          if self = NULL then Some (-1, out_self, s)
          else do {
            let (key, s) = (case cf_api_key cf of NULL \<Rightarrow> (NULL, s) | Some k \<Rightarrow> malloc_key k s);
            if cf_api_key cf \<noteq> NULL \<and> key = NULL then do {
              s \<leftarrow> free_server self s;
              Some (-1, out_self, s) }
            else do {
              s \<leftarrow> modify_server self (\<lambda>r. r\<lparr>ns_api_key := key\<rparr>) s;
              let (r, A) = sys_init (sv_arena s);
              let s = s\<lparr>sv_arena := A\<rparr>;
              if r \<noteq> 0 then do {
                s \<leftarrow> free_key key s;
                s \<leftarrow> free_server self s;
                Some (-1, out_self, s) }
              else if \<not> create_ssl_context calls then do {
                s \<leftarrow> free_server self s;
                Some (-1, out_self, s) }
              else if sc_socket calls < 0 then do {
                s \<leftarrow> free_server self s;
                Some (-1, out_self, s) }
              else do {
                s \<leftarrow> modify_server self (\<lambda>r. r\<lparr>ns_server_fd := sc_socket calls\<rparr>) s;
                if sc_bind calls < 0 then do {
                  s \<leftarrow> free_server self s;
                  Some (-1, out_self, s) }
                else do {
                  s \<leftarrow> (case sc_port calls of None \<Rightarrow> Some s
                        | Some p \<Rightarrow> modify_server self (\<lambda>r. r\<lparr>ns_port := p\<rparr>) s);
                  Some (0, Some self, s) } } } } } })"

definition network_server_start :: "int \<Rightarrow> addr ptr \<Rightarrow> 'c server_store \<Rightarrow> (exit_code, 'c server_store) res" where
  "network_server_start listen_result self s =
     (if self = NULL then Some (1, s)
      else if listen_result < 0 then Some (-1, s)
      else do {
        s \<leftarrow> modify_server self (\<lambda>r. r\<lparr>ns_running := True\<rparr>) s;
        let (r, A) = sys_init (sv_arena s);
        let s = s\<lparr>sv_arena := A\<rparr>;
        if r \<noteq> 0 then do {
          s \<leftarrow> modify_server self (\<lambda>r. r\<lparr>ns_running := False\<rparr>) s;
          Some (-1, s) }
        else do {
          s \<leftarrow> modify_server self (\<lambda>r. r\<lparr>ns_accept_thread := Started\<rparr>) s;
          Some (0, s) } })"

definition network_server_stop :: "addr ptr \<Rightarrow> 'c server_store \<Rightarrow> (exit_code, 'c server_store) res" where
  "network_server_stop self s =
     (if self = NULL then Some (1, s)
      else do {
        r \<leftarrow> server_at s self;
        if \<not> ns_running r then Some (0, s)
        else do {
          s \<leftarrow> modify_server self (\<lambda>r. r\<lparr>ns_running := False, ns_server_fd := -1\<rparr>) s;
          if ns_accept_thread r = No_Thread then None
          else do {
            s \<leftarrow> modify_server self (\<lambda>r. r\<lparr>ns_accept_thread := No_Thread\<rparr>) s;
            Some (0, s) } } })"

partial_function (option) free_detached_loop :: "addr ptr \<Rightarrow> 'c server_store \<Rightarrow> 'c server_store option" where
  "free_detached_loop node s =
     (if node = NULL then Some s
      else do {
        n \<leftarrow> node_of s node;
        (_, b) \<leftarrow> subscription_unsubscribe (ds_subscription n) (broker_heap s);
        (_, b) \<leftarrow> subscription_free (ds_subscription n) b;
        s \<leftarrow> free_detached node (s\<lparr>broker_heap := b\<rparr>);
        free_detached_loop (ds_next n) s })"

definition network_server_free :: "addr ptr \<Rightarrow> 'c server_store \<Rightarrow> (exit_code, 'c server_store) res" where
  "network_server_free self s =
     (if self = NULL then Some (1, s)
      else do {
        r \<leftarrow> server_at s self;
        s \<leftarrow> (if ns_running r then do { (_, s) \<leftarrow> network_server_stop self s; Some s } else Some s);
        r \<leftarrow> server_at s self;
        s \<leftarrow> free_detached_loop (ns_detached_subscriptions r) s;
        _ \<leftarrow> pthread_mutex_destroy (ns_detached_mutex r);
        s \<leftarrow> free_key (ns_api_key r) s;
        s \<leftarrow> free_server self s;
        Some (0, s) })"

definition network_server_get_port :: "addr ptr \<Rightarrow> int out \<Rightarrow> 'c server_store \<Rightarrow> (exit_code \<times> int out) option" where
  "network_server_get_port self out_port s =
     (if self = NULL then Some (1, out_port)
      else if out_port = NULL then Some (1, out_port)
      else do {
        r \<leftarrow> server_at s self;
        Some (0, Some (ns_port r)) })"

section \<open>Representation\<close>

text \<open>The list of detached subscriptions: the nodes, and for each the identity and the subscription.\<close>

fun chain :: "(addr \<rightharpoonup> detached_subscription_t) \<Rightarrow> addr ptr \<Rightarrow> addr list \<Rightarrow> (uint64_t \<times> addr) list \<Rightarrow> bool" where
  "chain N p [] [] \<longleftrightarrow> p = NULL"
| "chain N p (a # as) ((i, u) # ds) \<longleftrightarrow> p = Some a \<and> (\<exists>q. N a = Some \<lparr>ds_id = i, ds_subscription = Some u, ds_next = q\<rparr> \<and> chain N q as ds)"
| "chain N p _ _ \<longleftrightarrow> False"

text \<open>
  Every subscription is held by one session or is in the list of detached ones.  A session that holds one has a receiver, and only such a
  session has one.
\<close>

definition sessions_ok :: "addr \<Rightarrow> (addr \<rightharpoonup> 'c client_context_t) \<Rightarrow> (uint64_t \<times> addr) list \<Rightarrow> abroker \<Rightarrow> bool" where
  "sessions_ok sv K ds B \<longleftrightarrow>
     (\<forall>i u. (i, u) \<in> set ds \<longrightarrow> (\<exists>r. ab_subscriptions B u = Some r \<and> sub_active r \<and> sub_id r = i)) \<and> distinct (map snd ds)
     \<and> (\<forall>x c. K x = Some c \<longrightarrow> cc_server c = Some sv \<and> (cc_receiver_thread c = Started \<longleftrightarrow> cc_subscription c \<noteq> NULL))
     \<and> (\<forall>x c u. K x = Some c \<longrightarrow> cc_subscription c = Some u \<longrightarrow>
          \<not> cc_detached c \<and> u \<notin> snd ` set ds \<and> (\<exists>r. ab_subscriptions B u = Some r \<and> sub_active r))
     \<and> (\<forall>x y c d u. K x = Some c \<longrightarrow> K y = Some d \<longrightarrow> cc_subscription c = Some u \<longrightarrow> cc_subscription d = Some u \<longrightarrow> x = y)"

definition sv_rep :: "'c server_store \<Rightarrow> addr \<Rightarrow> addr \<Rightarrow> (uint64_t \<times> addr) list \<Rightarrow> abroker \<Rightarrow> bool" where
  "sv_rep s sv bk ds B \<longleftrightarrow>
     (\<exists>r as. servers s sv = Some r \<and> ns_broker r = Some bk \<and> ns_detached_mutex r = Unlocked
        \<and> (\<forall>k. ns_api_key r = Some k \<longrightarrow> api_keys s k \<noteq> None)
        \<and> chain (detached_nodes s) (ns_detached_subscriptions r) as ds \<and> distinct as \<and> dom (detached_nodes s) = set as)
     \<and> dom (detached_nodes s) \<subseteq> {..ticks (sv_arena s)} \<and> br_rep (broker_heap s) bk B \<and> sessions_ok sv (clients s) ds B"

end
