(* ===== verification/Server_Specs.thy ===== *)
theory Server_Specs
  imports Network_Server
begin

text \<open>
  What the handlers of the commands do to the state of the server: to the sessions, to the list of detached subscriptions and
  to the broker.  \<open>sv_rep\<close> relates the store to these; every handler keeps it, whatever the client sends.
\<close>

section \<open>Accesses and replies\<close>

lemmas server_accesses [simp] = server_at_def modify_server_def client_at_def modify_client_def free_client_def node_of_def
  modify_detached_def free_detached_def malloc_detached_def lock_detached_def unlock_detached_def create_receiver_def join_receiver_def

lemma create_thread: "\<not> refused A \<Longrightarrow> sys_init A = (0, tick A)" "refused A \<Longrightarrow> \<exists>e. sys_init A = (e, tick A) \<and> e \<noteq> 0"
  by (auto simp: sys_init_def refused_def)

text \<open>A reply changes the connection only.\<close>

definition on_conn :: "addr \<Rightarrow> 'c \<Rightarrow> 'c server_store \<Rightarrow> 'c server_store" where
  "on_conn x conn s = s\<lparr>clients := (clients s)(x := map_option (\<lambda>c. c\<lparr>cc_ssl := conn\<rparr>) (clients s x))\<rparr>"

lemma on_conn_simps [simp]:
  "servers (on_conn x conn s) = servers s" "detached_nodes (on_conn x conn s) = detached_nodes s" "api_keys (on_conn x conn s) = api_keys s"
  "sv_arena (on_conn x conn s) = sv_arena s" "broker_heap (on_conn x conn s) = broker_heap s"
  "clients (on_conn x conn s) y = (if y = x then map_option (\<lambda>c. c\<lparr>cc_ssl := conn\<rparr>) (clients s x) else clients s y)"
  by (simp_all add: on_conn_def)

lemma reply_conn: "clients s x \<noteq> None \<Longrightarrow> \<exists>conn. reply ssl (Some x) t r s = Some (r, on_conn x conn s)"
  by (auto simp: reply_def send_response_def on_conn_def split: prod.split)

section \<open>Authentication\<close>

lemma auth_spec:
  assumes c: "clients s x = Some c" "cc_server c = Some sv" and srv: "servers s sv = Some r"
    and key: "\<And>a. ns_api_key r = Some a \<Longrightarrow> \<exists>key. api_keys s a = Some key"
  shows "\<exists>e s' conn. handle_auth ssl (Some x) k s = Some (e, s')
    \<and> s' = on_conn x conn (s\<lparr>clients := (clients s)(x \<mapsto> c\<lparr>cc_authenticated := cc_authenticated c \<or> ns_api_key r = NULL
        \<or> (\<exists>key. Option.bind (ns_api_key r) (api_keys s) = Some key \<and> strcmp k key = 0)\<rparr>)\<rparr>)"
proof -
  let ?s = "\<lambda>b. s\<lparr>clients := (clients s)(x \<mapsto> c\<lparr>cc_authenticated := b\<rparr>)\<rparr>"
  have keep: "?s (cc_authenticated c) = s" using c(1) by (simp add: fun_upd_idem)
  have r: "\<exists>conn. reply ssl (Some x) t e (?s b) = Some (e, on_conn x conn (?s b))" for t e b by (rule reply_conn) simp
  have r0: "\<exists>conn. reply ssl (Some x) t e s = Some (e, on_conn x conn (?s (cc_authenticated c)))" for t e
    using r [of t e "cc_authenticated c"] unfolding keep .
  show ?thesis
  proof (cases "cc_authenticated c")
    case True
    with r0 [of "''ERR Already authenticated''" "-1"] c(1) show ?thesis by (auto simp: handle_auth_def)
  next
    case un: False
    show ?thesis
    proof (cases "ns_api_key r")
      case None
      with un c srv r [of "''OK''" 0 True] show ?thesis by (auto simp: handle_auth_def)
    next
      case (Some a)
      then obtain key' where k: "api_keys s a = Some key'" using key by blast
      show ?thesis
      proof (cases "strcmp k key' = 0")
        case True
        with un Some k c srv r [of "''OK''" 0 True] show ?thesis by (auto simp: handle_auth_def)
      next
        case False
        with un Some k c srv r0 [of "''ERR Invalid API key''" "-1"] show ?thesis by (auto simp: handle_auth_def)
      qed
    qed
  qed
qed

text \<open>The words of a command fit into their arrays.\<close>

lemma sscanf_fits:
  assumes "sscanf_command buffer = (n, command, channel, len)"
  shows "\<not> (32 \<le> length command \<or> MAX_CHANNEL_NAME \<le> length channel)"
  using sscanf_bounds(1,3) [OF assms] by (simp add: MAX_CHANNEL_NAME_def)

text \<open>Without the key, a client changes nothing but its own connection, whatever it sends.\<close>

lemma unauthenticated_command:
  assumes c: "clients s x = Some c" "cc_server c = Some sv" "\<not> cc_authenticated c" and srv: "servers s sv = Some r"
    and key: "ns_api_key r = Some a" "api_keys s a = Some key"
    and wrong: "\<forall>n channel len. sscanf_command line = (n, ''AUTH'', channel, len) \<longrightarrow> c_str channel \<noteq> c_str key"
  shows "\<exists>run conn. client_command ssl (Some x) line s = Some (run, on_conn x conn s)"
proof -
  obtain n command channel len where sc: "sscanf_command line = (n, command, channel, len)" by (cases "sscanf_command line")
  have x: "clients s x \<noteq> None" using c(1) by simp
  have r: "\<exists>conn. reply ssl (Some x) t e s = Some (e, on_conn x conn s)" for t e by (rule reply_conn [OF x])
  have keep: "s\<lparr>clients := (clients s)(x \<mapsto> c\<lparr>cc_authenticated := False\<rparr>)\<rparr> = s" using c(1,3) by (simp add: fun_upd_idem)
  show ?thesis
  proof (cases "2 \<le> n \<and> strcmp command ''AUTH'' = 0")
    case True
    have "command = ''AUTH''"
    proof -
      have "c_str command = ''AUTH''" using True by (simp add: strcmp_eq_0) (simp add: c_str_def)
      moreover have "c_str command = command" using sscanf_bounds(2) [OF sc] by (rule c_str_word)
      ultimately show ?thesis by simp
    qed
    then have "strcmp channel key \<noteq> 0" using wrong sc by (simp add: strcmp_eq_0)
    then have "\<exists>e conn. handle_auth ssl (Some x) channel s = Some (e, on_conn x conn s)"
      using auth_spec [OF c(1,2) srv, of ssl channel] key c(3) keep by auto
    with True sc sscanf_fits [OF sc] c(1) show ?thesis by (auto simp: client_command_def)
  next
    case False
    with sc sscanf_fits [OF sc] c(1,3) r [of "''ERR Authentication required''" 0] r [of "''BYE''" 0] r [of "''ERR Invalid command format''" 0]
    show ?thesis by (auto simp: client_command_def split: if_splits)
  qed
qed

section \<open>The list of detached subscriptions\<close>

lemma chain_length: "chain N p as ds \<Longrightarrow> length as = length ds"
  by (induction N p as ds rule: chain.induct) auto

lemma chain_cong: "chain N p as ds \<Longrightarrow> (\<And>a. a \<in> set as \<Longrightarrow> N' a = N a) \<Longrightarrow> chain N' p as ds"
  by (induction N p as ds rule: chain.induct) auto

lemma chain_Some: "chain N (Some a) as ds \<Longrightarrow> \<exists>as' i u ds' q. as = a # as' \<and> ds = (i, u) # ds'
    \<and> N a = Some \<lparr>ds_id = i, ds_subscription = Some u, ds_next = q\<rparr> \<and> chain N q as' ds'"
  by (cases "(N, Some a, as, ds)" rule: chain.cases) auto

lemma chain_NULL: "chain N NULL as ds \<longleftrightarrow> as = [] \<and> ds = []"
  by (cases "(N, NULL :: addr ptr, as, ds)" rule: chain.cases) auto

text \<open>What the search for an identity finds, and what it leaves.\<close>

fun take_out :: "uint64_t \<Rightarrow> (uint64_t \<times> addr) list \<Rightarrow> addr ptr \<times> (uint64_t \<times> addr) list" where
  "take_out i [] = (NULL, [])"
| "take_out i ((j, u) # ds) = (if j = i then (Some u, ds) else (case take_out i ds of (p, ds) \<Rightarrow> (p, (j, u) # ds)))"

lemma take_out_None: "fst (take_out i ds) = NULL \<Longrightarrow> snd (take_out i ds) = ds \<and> i \<notin> fst ` set ds"
  by (induction i ds rule: take_out.induct) (auto split: prod.splits if_splits)

lemma take_out_Some:
  "fst (take_out i ds) = Some u \<Longrightarrow> \<exists>pre post. ds = pre @ (i, u) # post \<and> snd (take_out i ds) = pre @ post \<and> pre = takeWhile (\<lambda>d. fst d \<noteq> i) ds"
proof (induction i ds rule: take_out.induct)
  case (2 i j v ds)
  show ?case
  proof (cases "j = i")
    case True
    with 2(2) show ?thesis by (intro exI [of _ "[]"] exI [of _ ds]) simp
  next
    case False
    then have "fst (take_out i ds) = Some u" using 2(2) by (simp split: prod.splits)
    from 2(1) [OF False this] obtain pre post where "ds = pre @ (i, u) # post" "snd (take_out i ds) = pre @ post" "pre = takeWhile (\<lambda>d. fst d \<noteq> i) ds" by blast
    with False show ?thesis by (intro exI [of _ "(j, v) # pre"] exI [of _ post]) (auto split: prod.splits)
  qed
qed simp

text \<open>
  The loop of the search from a link on: \<open>pre\<close> are the nodes before it.  The server is locked, as the loop leaves the function with an
  unlock.
\<close>

definition link_ok :: "network_server_t \<Rightarrow> (addr \<rightharpoonup> detached_subscription_t) \<Rightarrow> link \<Rightarrow> addr ptr \<Rightarrow> bool" where
  "link_ok r N pp p \<longleftrightarrow> (case pp of Head \<Rightarrow> ns_detached_subscriptions r = p
     | Next q \<Rightarrow> (\<exists>a n. q = Some a \<and> N a = Some n \<and> ds_next n = p))"

definition relink :: "link \<Rightarrow> addr ptr \<Rightarrow> (addr \<rightharpoonup> detached_subscription_t) \<Rightarrow> addr \<rightharpoonup> detached_subscription_t" where
  "relink pp p N = (case pp of Next (Some a) \<Rightarrow> N(a := map_option (\<lambda>n. n\<lparr>ds_next := p\<rparr>) (N a)) | _ \<Rightarrow> N)"

definition rehead :: "link \<Rightarrow> addr ptr \<Rightarrow> network_server_t \<Rightarrow> network_server_t" where
  "rehead pp p r = (case pp of Head \<Rightarrow> r\<lparr>ns_detached_subscriptions := p\<rparr> | _ \<Rightarrow> r)"

text \<open>The node of the first entry with the identity is unlinked and freed, and the mutex released.\<close>

definition unlinked ::
  "addr \<Rightarrow> network_server_t \<Rightarrow> link \<Rightarrow> addr list \<Rightarrow> nat \<Rightarrow> 'c server_store \<Rightarrow> 'c server_store \<Rightarrow> bool" where
  "unlinked sv r pp as k s s' \<longleftrightarrow> k < length as \<and> (\<exists>pp' n. pp' = (if k = 0 then pp else Next (Some (as ! (k - 1)))) \<and> detached_nodes s (as ! k) = Some n
     \<and> s' = s\<lparr>servers := (servers s)(sv \<mapsto> (rehead pp' (ds_next n) r)\<lparr>ns_detached_mutex := Unlocked\<rparr>),
         detached_nodes := (relink pp' (ds_next n) (detached_nodes s))(as ! k := None)\<rparr>)"

lemma unlinked_Cons: "unlinked sv r (Next (Some a)) as k s s' \<Longrightarrow> unlinked sv r pp (a # as) (Suc k) s s'"
  unfolding unlinked_def by (cases k) auto

lemma find_detached_loop_spec:
  assumes "servers s sv = Some r" and "ns_detached_mutex r = Locked" and "link_ok r (detached_nodes s) pp p"
    and "chain (detached_nodes s) p as ds" and "distinct as" and "\<And>a. pp = Next (Some a) \<Longrightarrow> a \<notin> set as"
  shows "\<exists>s'. find_detached_loop (Some sv) i pp s = Some (fst (take_out i ds), s')
    \<and> (if fst (take_out i ds) = NULL then s' = s\<lparr>servers := (servers s)(sv \<mapsto> r\<lparr>ns_detached_mutex := Unlocked\<rparr>)\<rparr>
       else unlinked sv r pp as (length (takeWhile (\<lambda>d. fst d \<noteq> i) ds)) s s')"
  using assms
proof (induction as arbitrary: pp p ds)
  case Nil
  then have p: "p = NULL" "ds = []" by (cases ds; auto)+
  have "read_link (Some sv) pp s = Some NULL" using Nil(1,3) p(1) by (auto simp: read_link_def link_ok_def split: link.splits)
  with Nil p show ?case by (subst find_detached_loop.simps) simp
next
  case (Cons a as)
  obtain j u ds' q where d: "ds = (j, u) # ds'" "p = Some a" "detached_nodes s a = Some \<lparr>ds_id = j, ds_subscription = Some u, ds_next = q\<rparr>"
    "chain (detached_nodes s) q as ds'"
    using Cons.prems(4) by (cases ds) auto
  have rd: "read_link (Some sv) pp s = Some (Some a)"
    using Cons.prems(1,3) d(2) by (auto simp: read_link_def link_ok_def split: link.splits)
  show ?case
  proof (cases "j = i")
    case True
    have wr: "write_link (Some sv) pp q s = Some (s\<lparr>servers := (servers s)(sv \<mapsto> rehead pp q r), detached_nodes := relink pp q (detached_nodes s)\<rparr>)"
      using Cons.prems(1,3) by (auto simp: write_link_def link_ok_def rehead_def relink_def fun_upd_idem split: link.splits)
    have na: "relink pp q (detached_nodes s) a = detached_nodes s a"
      using Cons.prems(6) by (auto simp: relink_def split: link.splits option.splits)
    have mu: "ns_detached_mutex (rehead pp q r) = Locked" using Cons.prems(2) by (auto simp: rehead_def split: link.splits)
    define s' where "s' = s\<lparr>servers := (servers s)(sv \<mapsto> (rehead pp q r)\<lparr>ns_detached_mutex := Unlocked\<rparr>),
        detached_nodes := (relink pp q (detached_nodes s))(a := None)\<rparr>"
    have "find_detached_loop (Some sv) i pp s = Some (Some u, s')"
      using rd wr d(3) True na mu by (subst find_detached_loop.simps) (simp add: s'_def)
    moreover have "unlinked sv r pp (a # as) 0 s s'" using d(3) by (simp add: unlinked_def s'_def)
    ultimately show ?thesis using True d(1) by simp
  next
    case False
    have step: "find_detached_loop (Some sv) i pp s = find_detached_loop (Some sv) i (Next (Some a)) s"
      using rd d(3) False by (subst find_detached_loop.simps) simp
    have "link_ok r (detached_nodes s) (Next (Some a)) q" using d(3) by (simp add: link_ok_def)
    from Cons.IH [OF Cons.prems(1,2) this d(4)] Cons.prems(5) obtain s' where
      s': "find_detached_loop (Some sv) i (Next (Some a)) s = Some (fst (take_out i ds'), s')"
      "if fst (take_out i ds') = NULL then s' = s\<lparr>servers := (servers s)(sv \<mapsto> r\<lparr>ns_detached_mutex := Unlocked\<rparr>)\<rparr>
       else unlinked sv r (Next (Some a)) as (length (takeWhile (\<lambda>d. fst d \<noteq> i) ds')) s s'"
      by auto
    have "fst (take_out i ds) = fst (take_out i ds')" using False d(1) by (simp split: prod.splits)
    with s' step False d(1) show ?thesis by (auto intro: unlinked_Cons)
  qed
qed

text \<open>Unlinking a node takes its entry out of the list.\<close>

lemma chain_remove:
  assumes "chain N p (as1 @ a # as2) (ds1 @ (i, u) # ds2)" and "length as1 = length ds1" and "distinct (as1 @ a # as2)"
    and "N a = Some n" and "as1 \<noteq> [] \<Longrightarrow> pp = Next (Some (last as1))" and "as1 = [] \<Longrightarrow> pp = Head"
  shows "chain ((relink pp (ds_next n) N)(a := None)) (if as1 = [] then ds_next n else p) (as1 @ as2) (ds1 @ ds2)"
  using assms
proof (induction as1 arbitrary: p ds1)
  case Nil
  then have "chain N (ds_next n) as2 ds2" by auto
  with Nil show ?case by (auto simp: relink_def intro: chain_cong)
next
  case (Cons b as1)
  obtain j v ds where ds1: "ds1 = (j, v) # ds" using Cons.prems(2) by (cases ds1) auto
  with Cons.prems(1) obtain q where q: "p = Some b" "N b = Some \<lparr>ds_id = j, ds_subscription = Some v, ds_next = q\<rparr>"
    "chain N q (as1 @ a # as2) (ds @ (i, u) # ds2)" by auto
  show ?case
  proof (cases "as1 = []")
    case True
    then have pp: "pp = Next (Some b)" using Cons.prems(5) by simp
    have "ds = []" using Cons.prems(2) True ds1 by simp
    with q True have "chain N (ds_next n) as2 ds2" using Cons.prems(4) by auto
    moreover have "b \<notin> set as2" "a \<notin> set as2" "a \<noteq> b" using Cons.prems(3) by auto
    ultimately have "chain ((relink pp (ds_next n) N)(a := None)) (ds_next n) as2 ds2"
      by (auto simp: relink_def pp intro: chain_cong)
    with True q(1,2) ds1 pp \<open>ds = []\<close> \<open>a \<noteq> b\<close> show ?thesis by (simp add: relink_def fun_upd_def)
  next
    case False
    then have pp: "pp = Next (Some (last as1))" using Cons.prems(5) by simp
    have "chain ((relink pp (ds_next n) N)(a := None)) q (as1 @ as2) (ds @ ds2)"
      using Cons.IH [OF q(3)] Cons.prems(2-4) ds1 False pp by (simp add: fun_upd_def)
    moreover have "b \<noteq> last as1" "b \<noteq> a" using Cons.prems(3) False by auto
    ultimately show ?thesis using q(1,2) ds1 pp by (simp add: relink_def fun_upd_def)
  qed
qed

lemma chain_nth:
  assumes "chain N p (as1 @ a # as2) (ds1 @ (i, u) # ds2)" and "length as1 = length ds1"
  shows "\<exists>n. N a = Some n \<and> ds_id n = i \<and> ds_subscription n = Some u"
  using assms
proof (induction as1 arbitrary: p ds1)
  case (Cons b as1)
  then obtain j v ds' q where "ds1 = (j, v) # ds'" "chain N q (as1 @ a # as2) (ds' @ (i, u) # ds2)" by (cases ds1) auto
  with Cons show ?case by auto
qed auto


section \<open>Representation\<close>

lemma sv_repE:
  assumes "sv_rep s sv bk ds B"
  obtains r as where "servers s sv = Some r" and "ns_broker r = Some bk" and "ns_detached_mutex r = Unlocked"
    and "\<forall>k. ns_api_key r = Some k \<longrightarrow> api_keys s k \<noteq> None" and "chain (detached_nodes s) (ns_detached_subscriptions r) as ds"
    and "distinct as" and "dom (detached_nodes s) = set as" and "dom (detached_nodes s) \<subseteq> {..ticks (sv_arena s)}"
    and "br_rep (broker_heap s) bk B" and "sessions_ok sv (clients s) ds B"
  using assms unfolding sv_rep_def by blast

lemma sv_repI:
  assumes "servers s sv = Some r" and "ns_broker r = Some bk" and "ns_detached_mutex r = Unlocked"
    and "\<forall>k. ns_api_key r = Some k \<longrightarrow> api_keys s k \<noteq> None" and "chain (detached_nodes s) (ns_detached_subscriptions r) as ds"
    and "distinct as" and "dom (detached_nodes s) = set as" and "dom (detached_nodes s) \<subseteq> {..ticks (sv_arena s)}"
    and "br_rep (broker_heap s) bk B" and "sessions_ok sv (clients s) ds B"
  shows "sv_rep s sv bk ds B"
  using assms unfolding sv_rep_def by blast

lemma sessions_okD:
  assumes "sessions_ok sv K ds B"
  shows "(i, u) \<in> set ds \<Longrightarrow> \<exists>r. ab_subscriptions B u = Some r \<and> sub_active r \<and> sub_id r = i" and "distinct (map snd ds)"
    and "K x = Some c \<Longrightarrow> cc_server c = Some sv" and "K x = Some c \<Longrightarrow> cc_receiver_thread c = Started \<longleftrightarrow> cc_subscription c \<noteq> NULL"
    and "K x = Some c \<Longrightarrow> cc_subscription c = Some u \<Longrightarrow> \<not> cc_detached c"
    and "K x = Some c \<Longrightarrow> cc_subscription c = Some u \<Longrightarrow> u \<notin> snd ` set ds"
    and "K x = Some c \<Longrightarrow> cc_subscription c = Some u \<Longrightarrow> \<exists>r. ab_subscriptions B u = Some r \<and> sub_active r"
    and "K x = Some c \<Longrightarrow> K y = Some d \<Longrightarrow> cc_subscription c = Some u \<Longrightarrow> cc_subscription d = Some u \<Longrightarrow> x = y"
proof -
  have H: "\<forall>i u. (i, u) \<in> set ds \<longrightarrow> (\<exists>r. ab_subscriptions B u = Some r \<and> sub_active r \<and> sub_id r = i)" "distinct (map snd ds)"
    "\<forall>x c. K x = Some c \<longrightarrow> cc_server c = Some sv \<and> (cc_receiver_thread c = Started \<longleftrightarrow> cc_subscription c \<noteq> NULL)"
    "\<forall>x c u. K x = Some c \<longrightarrow> cc_subscription c = Some u \<longrightarrow>
          \<not> cc_detached c \<and> u \<notin> snd ` set ds \<and> (\<exists>r. ab_subscriptions B u = Some r \<and> sub_active r)"
    "\<forall>x y c d u. K x = Some c \<longrightarrow> K y = Some d \<longrightarrow> cc_subscription c = Some u \<longrightarrow> cc_subscription d = Some u \<longrightarrow> x = y"
    using assms [unfolded sessions_ok_def] by - (elim conjE, assumption)+
  show "(i, u) \<in> set ds \<Longrightarrow> \<exists>r. ab_subscriptions B u = Some r \<and> sub_active r \<and> sub_id r = i" using H(1) by blast
  show "distinct (map snd ds)" by (rule H(2))
  show "K x = Some c \<Longrightarrow> cc_server c = Some sv" "K x = Some c \<Longrightarrow> cc_receiver_thread c = Started \<longleftrightarrow> cc_subscription c \<noteq> NULL" using H(3) by blast+
  show "K x = Some c \<Longrightarrow> cc_subscription c = Some u \<Longrightarrow> \<not> cc_detached c" "K x = Some c \<Longrightarrow> cc_subscription c = Some u \<Longrightarrow> u \<notin> snd ` set ds"
    "K x = Some c \<Longrightarrow> cc_subscription c = Some u \<Longrightarrow> \<exists>r. ab_subscriptions B u = Some r \<and> sub_active r" using H(4) by blast+
  show "K x = Some c \<Longrightarrow> K y = Some d \<Longrightarrow> cc_subscription c = Some u \<Longrightarrow> cc_subscription d = Some u \<Longrightarrow> x = y" using H(5) by blast
qed

lemma sessions_okI:
  assumes "\<And>i u. (i, u) \<in> set ds \<Longrightarrow> \<exists>r. ab_subscriptions B u = Some r \<and> sub_active r \<and> sub_id r = i" and "distinct (map snd ds)"
    and "\<And>x c. K x = Some c \<Longrightarrow> cc_server c = Some sv" and "\<And>x c. K x = Some c \<Longrightarrow> cc_receiver_thread c = Started \<longleftrightarrow> cc_subscription c \<noteq> NULL"
    and "\<And>x c u. K x = Some c \<Longrightarrow> cc_subscription c = Some u \<Longrightarrow> \<not> cc_detached c \<and> u \<notin> snd ` set ds \<and> (\<exists>r. ab_subscriptions B u = Some r \<and> sub_active r)"
    and "\<And>x y c d u. K x = Some c \<Longrightarrow> K y = Some d \<Longrightarrow> cc_subscription c = Some u \<Longrightarrow> cc_subscription d = Some u \<Longrightarrow> x = y"
  shows "sessions_ok sv K ds B"
  unfolding sessions_ok_def using assms(2) by (intro conjI allI impI) (use assms(1,3-6) in blast)+

text \<open>What the relation takes note of in a session.\<close>

definition session :: "'c client_context_t \<Rightarrow> addr ptr \<times> addr ptr \<times> thread_state \<times> bool" where
  "session c = (cc_server c, cc_subscription c, cc_receiver_thread c, cc_detached c)"

lemma sessions_ok_cong:
  assumes "sessions_ok sv K ds B" and same: "\<And>x. map_option session (K' x) = map_option session (K x)"
    and "ab_subscriptions B' = ab_subscriptions B"
  shows "sessions_ok sv K' ds B'"
proof -
  have old: "\<exists>d. K x = Some d \<and> session d = session c" if "K' x = Some c" for x c
    using same [of x] that by (cases "K x") auto
  note D = sessions_okD [OF assms(1)]
  show ?thesis
  proof (rule sessions_okI)
    show "cc_server c = Some sv" "cc_receiver_thread c = Started \<longleftrightarrow> cc_subscription c \<noteq> NULL" if "K' x = Some c" for x c
      using old [OF that] D(3,4) [of x] by (auto simp: session_def)
    show "\<not> cc_detached c \<and> u \<notin> snd ` set ds \<and> (\<exists>r. ab_subscriptions B' u = Some r \<and> sub_active r)" if "K' x = Some c" "cc_subscription c = Some u" for x c u
      using old [OF that(1)] that(2) D(5-7) [of x _ u] assms(3) by (auto simp: session_def)
    show "x = y" if "K' x = Some c" "K' y = Some d" "cc_subscription c = Some u" "cc_subscription d = Some u" for x y c d u
      using old [OF that(1)] old [OF that(2)] that(3,4) D(8) [of x _ y _ u] by (auto simp: session_def)
  qed (use D(1,2) assms(3) in auto)
qed

lemma sv_rep_conn:
  assumes "sv_rep s sv bk ds B"
  shows "sv_rep (on_conn x conn s) sv bk ds B"
proof -
  obtain r as where R: "servers s sv = Some r" "ns_broker r = Some bk" "ns_detached_mutex r = Unlocked"
    "\<forall>k. ns_api_key r = Some k \<longrightarrow> api_keys s k \<noteq> None" "chain (detached_nodes s) (ns_detached_subscriptions r) as ds"
    "distinct as" "dom (detached_nodes s) = set as" "dom (detached_nodes s) \<subseteq> {..ticks (sv_arena s)}"
    "br_rep (broker_heap s) bk B" "sessions_ok sv (clients s) ds B" by (rule sv_repE [OF assms])
  have "sessions_ok sv (clients (on_conn x conn s)) ds B"
  proof (rule sessions_ok_cong [OF R(10)])
    show "map_option session (clients (on_conn x conn s) y) = map_option session (clients s y)" for y
      by (cases "clients s y") (auto simp: session_def)
  qed simp
  with R show ?thesis by (intro sv_repI [of _ _ r _ as]) simp_all
qed

text \<open>Taking an entry out of the list of detached subscriptions, and adding one.\<close>

lemma find_and_remove_spec:
  assumes rep: "sv_rep s sv bk ds B"
  shows "\<exists>s'. find_and_remove_detached (Some sv) i s = Some (fst (take_out i ds), s')
    \<and> clients s' = clients s \<and> broker_heap s' = broker_heap s \<and> sv_arena s' = sv_arena s \<and> api_keys s' = api_keys s
    \<and> (\<forall>B' K. br_rep (broker_heap s) bk B' \<longrightarrow> sessions_ok sv K (snd (take_out i ds)) B'
         \<longrightarrow> sv_rep (s'\<lparr>clients := K\<rparr>) sv bk (snd (take_out i ds)) B')"
proof -
  obtain r as where R: "servers s sv = Some r" "ns_broker r = Some bk" "ns_detached_mutex r = Unlocked"
    "\<forall>k. ns_api_key r = Some k \<longrightarrow> api_keys s k \<noteq> None" "chain (detached_nodes s) (ns_detached_subscriptions r) as ds"
    "distinct as" "dom (detached_nodes s) = set as" "dom (detached_nodes s) \<subseteq> {..ticks (sv_arena s)}"
    "br_rep (broker_heap s) bk B" "sessions_ok sv (clients s) ds B" by (rule sv_repE [OF rep])
  let ?r = "r\<lparr>ns_detached_mutex := Locked\<rparr>"
  define s1 where "s1 = s\<lparr>servers := (servers s)(sv \<mapsto> ?r)\<rparr>"
  have r1: "?r\<lparr>ns_detached_mutex := Unlocked\<rparr> = r" using R(3) by simp
  obtain s' where s': "find_detached_loop (Some sv) i Head s1 = Some (fst (take_out i ds), s')"
    "if fst (take_out i ds) = NULL then s' = s1\<lparr>servers := (servers s1)(sv \<mapsto> ?r\<lparr>ns_detached_mutex := Unlocked\<rparr>)\<rparr>
       else unlinked sv ?r Head as (length (takeWhile (\<lambda>d. fst d \<noteq> i) ds)) s1 s'"
    using find_detached_loop_spec [of s1 sv ?r Head "ns_detached_subscriptions r" as ds i] R(5,6) by (auto simp: s1_def link_ok_def)
  have run: "find_and_remove_detached (Some sv) i s = Some (fst (take_out i ds), s')"
    using R(1,3) s'(1) by (simp add: find_and_remove_detached_def s1_def)
  show ?thesis
  proof (cases "fst (take_out i ds)")
    case None
    then have "s' = s" using s'(2) R(1) r1 by (simp add: s1_def fun_upd_idem)
    moreover have "sv_rep (s\<lparr>clients := K\<rparr>) sv bk ds B'" if "br_rep (broker_heap s) bk B'" "sessions_ok sv K ds B'" for B' K
      by (rule sv_repI [of _ _ r _ as]) (use R that in simp_all)
    ultimately show ?thesis using None run take_out_None [OF None] by auto
  next
    case (Some u)
    obtain pre post where ds: "ds = pre @ (i, u) # post" "snd (take_out i ds) = pre @ post" "pre = takeWhile (\<lambda>d. fst d \<noteq> i) ds"
      using take_out_Some [OF Some] by blast
    let ?k = "length pre"
    from s'(2) Some ds(3) have un: "unlinked sv ?r Head as ?k s1 s'" by simp
    then obtain n where n: "detached_nodes s (as ! ?k) = Some n" "?k < length as"
      "s' = s1\<lparr>servers := (servers s1)(sv \<mapsto> (rehead (if ?k = 0 then Head else Next (Some (as ! (?k - 1)))) (ds_next n) ?r)\<lparr>ns_detached_mutex := Unlocked\<rparr>),
         detached_nodes := (relink (if ?k = 0 then Head else Next (Some (as ! (?k - 1)))) (ds_next n) (detached_nodes s1))(as ! ?k := None)\<rparr>"
      unfolding unlinked_def by (auto simp: s1_def)
    define as1 a as2 where as: "as1 = take ?k as" "a = as ! ?k" "as2 = drop (Suc ?k) as"
    define pp where "pp = (if ?k = 0 then Head else Next (Some (as ! (?k - 1))))"
    have split: "as = as1 @ a # as2" unfolding as by (rule id_take_nth_drop [OF n(2)])
    have len: "length as1 = length pre" using n(2) by (simp add: as)
    have last: "as1 \<noteq> [] \<Longrightarrow> pp = Next (Some (last as1))" "as1 = [] \<Longrightarrow> pp = Head"
      using n(2) by (auto simp: as pp_def last_conv_nth)
    have ch: "chain ((relink pp (ds_next n) (detached_nodes s))(a := None)) (if as1 = [] then ds_next n else ns_detached_subscriptions r) (as1 @ as2) (pre @ post)"
    proof (rule chain_remove [where i = i and u = u])
      show "chain (detached_nodes s) (ns_detached_subscriptions r) (as1 @ a # as2) (pre @ (i, u) # post)" using R(5) split ds(1) by simp
      show "distinct (as1 @ a # as2)" using R(6) split by simp
      show "detached_nodes s a = Some n" using n(1) as(2) by simp
    qed (use len last in simp_all)
    let ?r' = "(rehead pp (ds_next n) ?r)\<lparr>ns_detached_mutex := Unlocked\<rparr>"
    have s'_eq: "s' = s\<lparr>servers := (servers s)(sv \<mapsto> ?r'), detached_nodes := (relink pp (ds_next n) (detached_nodes s))(a := None)\<rparr>"
      using n(3) by (simp add: s1_def pp_def as(2))
    have head: "ns_detached_subscriptions ?r' = (if as1 = [] then ds_next n else ns_detached_subscriptions r)" "ns_broker ?r' = ns_broker r" "ns_api_key ?r' = ns_api_key r"
      using last by (auto simp: rehead_def split: link.splits)
    have dom: "dom ((relink pp (ds_next n) (detached_nodes s))(a := None)) = set (as1 @ as2)"
    proof -
      have "dom (relink pp (ds_next n) (detached_nodes s)) = dom (detached_nodes s)"
        by (auto simp: relink_def split: link.splits option.splits if_splits)
      with R(6,7) split show ?thesis by auto
    qed
    have "sv_rep (s'\<lparr>clients := K\<rparr>) sv bk (pre @ post) B'" if "br_rep (broker_heap s) bk B'" "sessions_ok sv K (pre @ post) B'" for B' K
    proof (rule sv_repI [of _ _ ?r' _ "as1 @ as2"])
      show "chain (detached_nodes (s'\<lparr>clients := K\<rparr>)) (ns_detached_subscriptions ?r') (as1 @ as2) (pre @ post)" using ch head(1) by (simp add: s'_eq)
      show "dom (detached_nodes (s'\<lparr>clients := K\<rparr>)) \<subseteq> {..ticks (sv_arena (s'\<lparr>clients := K\<rparr>))}" using dom R(7,8) split by (auto simp: s'_eq)
    qed (use R split dom head that in \<open>simp_all add: s'_eq\<close>)
    with run Some ds(2) show ?thesis by (auto simp: s'_eq)
  qed
qed

lemma add_detached_spec:
  assumes rep: "sv_rep (s\<lparr>clients := K0\<rparr>) sv bk ds B" and sub: "ab_subscriptions B u = Some w" and g: "\<not> refused (sv_arena s)"
  shows "\<exists>s'. add_detached (Some sv) (Some u) s = Some (0, s')
    \<and> clients s' = clients s \<and> broker_heap s' = broker_heap s \<and> sv_arena s' = tick (sv_arena s) \<and> api_keys s' = api_keys s
    \<and> (\<forall>K. sessions_ok sv K ((sub_id w, u) # ds) B \<longrightarrow> sv_rep (s'\<lparr>clients := K\<rparr>) sv bk ((sub_id w, u) # ds) B)"
proof -
  obtain r as where R: "servers s sv = Some r" "ns_broker r = Some bk" "ns_detached_mutex r = Unlocked"
    "\<forall>k. ns_api_key r = Some k \<longrightarrow> api_keys s k \<noteq> None" "chain (detached_nodes s) (ns_detached_subscriptions r) as ds"
    "distinct as" "dom (detached_nodes s) = set as" "dom (detached_nodes s) \<subseteq> {..ticks (sv_arena s)}"
    "br_rep (broker_heap s) bk B"
    by (rule sv_repE [OF rep]) simp
  let ?a = "Suc (ticks (sv_arena s))" and ?r = "r\<lparr>ns_detached_subscriptions := Some (Suc (ticks (sv_arena s))), ns_detached_mutex := Unlocked\<rparr>"
  let ?N = "(detached_nodes s)(?a \<mapsto> \<lparr>ds_id = sub_id w, ds_subscription = Some u, ds_next = ns_detached_subscriptions r\<rparr>)"
  have new: "?a \<notin> set as" using R(7,8) by auto
  define s' where "s' = s\<lparr>sv_arena := tick (sv_arena s), detached_nodes := ?N, servers := (servers s)(sv \<mapsto> ?r)\<rparr>"
  have "add_detached (Some sv) (Some u) s = Some (0, s')"
    using R(1,3) g sub br_rep_px(2) [OF R(9)] by (simp add: add_detached_def subscription_get_id_def s'_def)
  moreover have "sv_rep (s'\<lparr>clients := K\<rparr>) sv bk ((sub_id w, u) # ds) B" if "sessions_ok sv K ((sub_id w, u) # ds) B" for K
  proof (rule sv_repI [of _ _ ?r _ "?a # as"])
    have "chain ?N (ns_detached_subscriptions r) as ds" by (rule chain_cong [OF R(5)]) (use new in auto)
    then show "chain (detached_nodes (s'\<lparr>clients := K\<rparr>)) (ns_detached_subscriptions ?r) (?a # as) ((sub_id w, u) # ds)"
      by (simp add: s'_def)
    show "dom (detached_nodes (s'\<lparr>clients := K\<rparr>)) \<subseteq> {..ticks (sv_arena (s'\<lparr>clients := K\<rparr>))}" using R(8) by (auto simp: s'_def)
  qed (use R new that in \<open>simp_all add: s'_def\<close>)
  ultimately show ?thesis by (auto simp: s'_def)
qed

section \<open>Handlers\<close>

text \<open>A session that held nothing takes a subscription that nobody holds.\<close>

lemma sessions_hold:
  assumes ok: "sessions_ok sv K ds B" and c: "K x = Some c" "cc_subscription c = NULL"
    and ds': "set ds' \<subseteq> set ds" "distinct (map snd ds')"
    and keep: "\<And>v r. v \<noteq> u \<Longrightarrow> ab_subscriptions B v = Some r \<Longrightarrow> ab_subscriptions B' v = Some r"
    and u: "ab_subscriptions B' u = Some w" "sub_active w" "u \<notin> snd ` set ds'" "\<And>y d. K y = Some d \<Longrightarrow> cc_subscription d \<noteq> Some u"
    and c': "session c' = (Some sv, Some u, Started, False)"
  shows "sessions_ok sv (K(x \<mapsto> c')) ds' B'"
proof -
  note D = sessions_okD [OF ok]
  have cs: "cc_server c' = Some sv" "cc_subscription c' = Some u" "cc_receiver_thread c' = Started" "\<not> cc_detached c'"
    using c' by (simp_all add: session_def)
  show ?thesis
  proof (rule sessions_okI)
    show "\<exists>r. ab_subscriptions B' v = Some r \<and> sub_active r \<and> sub_id r = i" if "(i, v) \<in> set ds'" for i v
    proof -
      have "v \<noteq> u" using that u(3) by force
      with D(1) [of i v] ds'(1) that keep show ?thesis by blast
    qed
    show "cc_server d = Some sv" "cc_receiver_thread d = Started \<longleftrightarrow> cc_subscription d \<noteq> NULL" if "(K(x \<mapsto> c')) y = Some d" for y d
      using that D(3,4) [of y d] cs by (auto split: if_splits)
    show "\<not> cc_detached d \<and> v \<notin> snd ` set ds' \<and> (\<exists>r. ab_subscriptions B' v = Some r \<and> sub_active r)"
      if d: "(K(x \<mapsto> c')) y = Some d" "cc_subscription d = Some v" for y d v
    proof (cases "y = x")
      case True
      with d cs u show ?thesis by auto
    next
      case False
      with d have y: "K y = Some d" by simp
      have "v \<noteq> u" using u(4) [OF y] d(2) by auto
      with y show ?thesis using D(5,6,7) [of y d v] d(2) keep ds'(1) by blast
    qed
    show "y = z" if "(K(x \<mapsto> c')) y = Some d" "(K(x \<mapsto> c')) z = Some e" "cc_subscription d = Some v" "cc_subscription e = Some v" for y z d e v
      using that D(8) [of y d z e v] u(4) [of y d] u(4) [of z e] cs(2) by (auto split: if_splits)
  qed (rule ds'(2))
qed

lemma subscribe_handler_spec:
  assumes rep: "sv_rep s sv bk ds B" and c: "clients s x = Some c"
    and g: "plenty 10 (broker_heap s)" "ab_next_subscriber B \<noteq> - 1" "\<not> refused (sv_arena s)"
  shows "\<exists>e s' B'. handle_subscribe ssl (Some x) channel s = Some (e, s') \<and> sv_rep s' sv bk ds B' \<and> (if cc_subscription c \<noteq> NULL then e = -1 \<and> B' = B
    else e = 0 \<and> (\<exists>u p. map_option cc_subscription (clients s' x) = Some (Some u) \<and> ab_subscriptions B u = None \<and> ab_proxies B p = None
      \<and> ab_subscriptions B' = (ab_subscriptions B)(u \<mapsto> \<lparr>sub_id = ab_next_subscriber B, sub_channel_name = Some (c_str channel),
           sub_broker = Some bk, sub_proxy = Some p, sub_active = True\<rparr>)
      \<and> ab_proxies B' = (ab_proxies B)(p \<mapsto> \<lparr>ax_id = ab_next_subscriber B, ax_active = True, ax_msgs = []\<rparr>) \<and> ab_tasks B' = ab_tasks B
      \<and> (\<forall>n. members B' n = members B n @ (if c_str n = c_str channel then [p] else []))))"
proof -
  obtain r as where R: "servers s sv = Some r" "ns_broker r = Some bk" "ns_detached_mutex r = Unlocked"
    "\<forall>k. ns_api_key r = Some k \<longrightarrow> api_keys s k \<noteq> None" "chain (detached_nodes s) (ns_detached_subscriptions r) as ds"
    "distinct as" "dom (detached_nodes s) = set as" "dom (detached_nodes s) \<subseteq> {..ticks (sv_arena s)}"
    "br_rep (broker_heap s) bk B" "sessions_ok sv (clients s) ds B" by (rule sv_repE [OF rep])
  note D = sessions_okD [OF R(10)]
  have srv: "cc_server c = Some sv" by (rule D(3) [OF c])
  show ?thesis
  proof (cases "cc_subscription c")
    case (Some u)
    obtain conn where "reply ssl (Some x) ''ERR Already subscribed'' (- 1) s = Some (-1, on_conn x conn s)"
      using reply_conn [of s x ssl "''ERR Already subscribed''" "-1"] c by auto
    then have "handle_subscribe ssl (Some x) channel s = Some (-1, on_conn x conn s)" using c Some by (simp add: handle_subscribe_def)
    with sv_rep_conn [OF rep] Some show ?thesis by auto
  next
    case None
    obtain u p b' B' where S: "message_broker_subscribe (Some bk) (Some channel) (Some NULL) (broker_heap s) = Some (0, Some (Some u), b')" "br_rep b' bk B'"
      "ab_subscriptions B u = None" "ab_proxies B p = None"
      "ab_subscriptions B' = (ab_subscriptions B)(u \<mapsto> \<lparr>sub_id = ab_next_subscriber B, sub_channel_name = Some (c_str channel),
           sub_broker = Some bk, sub_proxy = Some p, sub_active = True\<rparr>)"
      "ab_proxies B' = (ab_proxies B)(p \<mapsto> \<lparr>ax_id = ab_next_subscriber B, ax_active = True, ax_msgs = []\<rparr>)" "ab_tasks B' = ab_tasks B"
      "\<forall>n. members B' n = members B n @ (if c_str n = c_str channel then [p] else [])"
      using subscribe_spec [OF R(9) g(1,2), of channel NULL] by blast
    let ?c = "c\<lparr>cc_subscription := Some u, cc_detached := False, cc_active := True, cc_receiver_thread := Started\<rparr>"
    define s1 where "s1 = s\<lparr>broker_heap := b', sv_arena := tick (sv_arena s), clients := (clients s)(x \<mapsto> ?c)\<rparr>"
    have fresh: "u \<notin> snd ` set ds" "cc_subscription d \<noteq> Some u" if "clients s y = Some d" for y d
      using D(1) D(7) [OF that] S(3) by force+
    have new: "u \<notin> snd ` set ds" using fresh(1) [OF c] .
    have "sessions_ok sv (clients s1) ds B'"
      unfolding s1_def by simp (rule sessions_hold [OF R(10) c None subset_refl D(2)], use S(3,5) new fresh(2) srv in \<open>auto simp: session_def\<close>)
    then have rep1: "sv_rep s1 sv bk ds B'" using R S(2) by (intro sv_repI [of _ _ r _ as]) (auto simp: s1_def)
    have gid: "subscription_get_id (Some u) (Some 0) b' = Some (0, Some (ab_next_subscriber B))"
      using br_rep_px(2) [OF S(2)] S(5) by (simp add: subscription_get_id_def)
    obtain conn where "reply ssl (Some x) (''OK '' @ print_u64 (ab_next_subscriber B)) 0 s1 = Some (0, on_conn x conn s1)"
      using reply_conn [of s1 x ssl "''OK '' @ print_u64 (ab_next_subscriber B)" 0] by (auto simp: s1_def)
    then have "handle_subscribe ssl (Some x) channel s = Some (0, on_conn x conn s1)"
      using c None srv R(1,2) S(1) g(3) gid by (simp add: handle_subscribe_def s1_def create_thread)
    moreover have "map_option cc_subscription (clients (on_conn x conn s1) x) = Some (Some u)" by (simp add: s1_def)
    ultimately show ?thesis using sv_rep_conn [OF rep1] None S(3-8) by (intro exI [of _ 0] exI [of _ "on_conn x conn s1"] exI [of _ B']) auto
  qed
qed

text \<open>A session gives up its subscription, or ends.\<close>

lemma sessions_release:
  assumes ok: "sessions_ok sv K ds B" and c: "K x = Some c"
    and k: "\<forall>d. k = Some d \<longrightarrow> cc_server d = Some sv \<and> cc_subscription d = NULL \<and> cc_receiver_thread d = No_Thread"
    and ds': "\<forall>i v. (i, v) \<in> set ds' \<longrightarrow> (\<exists>r. ab_subscriptions B' v = Some r \<and> sub_active r \<and> sub_id r = i)" "distinct (map snd ds')"
      "\<forall>v. v \<in> snd ` set ds' \<longrightarrow> v \<in> snd ` set ds \<or> cc_subscription c = Some v"
    and keep: "\<forall>v r. cc_subscription c \<noteq> Some v \<longrightarrow> ab_subscriptions B v = Some r \<longrightarrow> ab_subscriptions B' v = Some r"
  shows "sessions_ok sv (K(x := k)) ds' B'"
proof -
  note D = sessions_okD [OF ok]
  show ?thesis
  proof (rule sessions_okI)
    show "cc_server d = Some sv" "cc_receiver_thread d = Started \<longleftrightarrow> cc_subscription d \<noteq> NULL" if "(K(x := k)) y = Some d" for y d
      using that D(3,4) [of y d] k by (auto split: if_splits)
    show "\<not> cc_detached d \<and> v \<notin> snd ` set ds' \<and> (\<exists>r. ab_subscriptions B' v = Some r \<and> sub_active r)"
      if d: "(K(x := k)) y = Some d" "cc_subscription d = Some v" for y d v
    proof -
      have y: "y \<noteq> x" "K y = Some d" using d k by (auto split: if_splits)
      then have "cc_subscription c \<noteq> Some v" using D(8) [OF y(2) c d(2)] by blast
      with D(5,6,7) [OF y(2) d(2)] ds'(3) keep show ?thesis by blast
    qed
    show "y = z" if "(K(x := k)) y = Some d" "(K(x := k)) z = Some e" "cc_subscription d = Some v" "cc_subscription e = Some v" for y z d e v
      using that D(8) [of y d z e v] k by (auto split: if_splits)
  qed (use ds' in blast)+
qed

lemma detach_handler_spec:
  assumes rep: "sv_rep s sv bk ds B" and c: "clients s x = Some c" and g: "\<not> refused (sv_arena s)"
  shows "\<exists>e s'. handle_detach ssl (Some x) s = Some (e, s') \<and> broker_heap s' = broker_heap s
    \<and> (case cc_subscription c of None \<Rightarrow> e = -1 \<and> sv_rep s' sv bk ds B
       | Some u \<Rightarrow> e = 0 \<and> (\<exists>w. ab_subscriptions B u = Some w \<and> sub_active w \<and> sv_rep s' sv bk ((sub_id w, u) # ds) B)
           \<and> (\<exists>c'. clients s' x = Some c' \<and> cc_subscription c' = NULL \<and> cc_authenticated c' = cc_authenticated c)
           \<and> (\<forall>z. z \<noteq> x \<longrightarrow> clients s' z = clients s z) \<and> sv_arena s' = tick (sv_arena s))"
proof -
  obtain r as where R: "servers s sv = Some r" "ns_broker r = Some bk" "ns_detached_mutex r = Unlocked"
    "\<forall>k. ns_api_key r = Some k \<longrightarrow> api_keys s k \<noteq> None" "chain (detached_nodes s) (ns_detached_subscriptions r) as ds"
    "distinct as" "dom (detached_nodes s) = set as" "dom (detached_nodes s) \<subseteq> {..ticks (sv_arena s)}"
    "br_rep (broker_heap s) bk B" "sessions_ok sv (clients s) ds B" by (rule sv_repE [OF rep])
  note D = sessions_okD [OF R(10)]
  have srv: "cc_server c = Some sv" by (rule D(3) [OF c])
  show ?thesis
  proof (cases "cc_subscription c")
    case None
    obtain conn where "reply ssl (Some x) ''ERR Not subscribed'' (- 1) s = Some (-1, on_conn x conn s)"
      using reply_conn [of s x ssl "''ERR Not subscribed''" "-1"] c by auto
    then have "handle_detach ssl (Some x) s = Some (-1, on_conn x conn s)" using c None by (simp add: handle_detach_def)
    with sv_rep_conn [OF rep] None show ?thesis by auto
  next
    case (Some u)
    have st: "cc_receiver_thread c = Started" using D(4) [OF c] Some by simp
    obtain w where w: "ab_subscriptions B u = Some w" "sub_active w" using D(7) [OF c Some] by blast
    let ?c = "c\<lparr>cc_active := False, cc_receiver_thread := No_Thread\<rparr>"
    define s1 where "s1 = s\<lparr>clients := (clients s)(x \<mapsto> ?c)\<rparr>"
    let ?d = "?c\<lparr>cc_detached := True, cc_subscription := NULL\<rparr>"
    have ok: "sessions_ok sv ((clients s)(x \<mapsto> ?d)) ((sub_id w, u) # ds) B"
    proof (rule sessions_release [OF R(10) c])
      show "distinct (map snd ((sub_id w, u) # ds))" using D(2) D(6) [OF c Some] by simp
      show "\<forall>i v. (i, v) \<in> set ((sub_id w, u) # ds) \<longrightarrow> (\<exists>r. ab_subscriptions B v = Some r \<and> sub_active r \<and> sub_id r = i)"
        using D(1) w by auto
    qed (use srv Some in auto)
    obtain s2 where s2: "add_detached (Some sv) (Some u) s1 = Some (0, s2)" "clients s2 = clients s1" "broker_heap s2 = broker_heap s1"
      "sv_arena s2 = tick (sv_arena s1)"
      "\<forall>K. sessions_ok sv K ((sub_id w, u) # ds) B \<longrightarrow> sv_rep (s2\<lparr>clients := K\<rparr>) sv bk ((sub_id w, u) # ds) B"
      using add_detached_spec [where s = s1 and ?K0.0 = "clients s" and sv = sv and bk = bk and ds = ds and B = B and u = u and w = w] rep w(1) g by (auto simp: s1_def)
    define s3 where "s3 = s2\<lparr>clients := (clients s)(x \<mapsto> ?d)\<rparr>"
    have s3: "s3 = s2\<lparr>clients := (clients s2)(x \<mapsto> ?d)\<rparr>" using s2(2) by (simp add: s3_def s1_def)
    have rep3: "sv_rep s3 sv bk ((sub_id w, u) # ds) B" using s2(5) ok by (simp add: s3_def)
    have gid: "subscription_get_id (Some u) (Some 0) (broker_heap s) = Some (0, Some (sub_id w))"
      using br_rep_px(2) [OF R(9)] w by (simp add: subscription_get_id_def)
    obtain conn where "reply ssl (Some x) (''OK '' @ print_u64 (sub_id w)) 0 s3 = Some (0, on_conn x conn s3)"
      using reply_conn [of s3 x ssl "''OK '' @ print_u64 (sub_id w)" 0] by (auto simp: s3_def)
    then have "handle_detach ssl (Some x) s = Some (0, on_conn x conn s3)"
      using c Some srv st s2(1-3) gid by (simp add: handle_detach_def s3 s1_def)
    moreover have "\<exists>c'. clients (on_conn x conn s3) x = Some c' \<and> cc_subscription c' = NULL \<and> cc_authenticated c' = cc_authenticated c"
      by (simp add: s3_def)
    moreover have "\<forall>z. z \<noteq> x \<longrightarrow> clients (on_conn x conn s3) z = clients s z" by (simp add: s3_def)
    moreover have "broker_heap (on_conn x conn s3) = broker_heap s" "sv_arena (on_conn x conn s3) = tick (sv_arena s)"
      using s2(3,4) by (simp_all add: s3_def s1_def)
    ultimately show ?thesis using sv_rep_conn [OF rep3] Some w by auto
  qed
qed

lemma sv_rep_broker:
  assumes "sv_rep s sv bk ds B" and "br_rep b bk B'" and "ab_subscriptions B' = ab_subscriptions B" and "ticks (sv_arena s) \<le> ticks A"
  shows "sv_rep (s\<lparr>sv_arena := A, broker_heap := b\<rparr>) sv bk ds B'"
proof -
  obtain r as where R: "servers s sv = Some r" "ns_broker r = Some bk" "ns_detached_mutex r = Unlocked"
    "\<forall>k. ns_api_key r = Some k \<longrightarrow> api_keys s k \<noteq> None" "chain (detached_nodes s) (ns_detached_subscriptions r) as ds"
    "distinct as" "dom (detached_nodes s) = set as" "dom (detached_nodes s) \<subseteq> {..ticks (sv_arena s)}"
    "br_rep (broker_heap s) bk B" "sessions_ok sv (clients s) ds B" by (rule sv_repE [OF assms(1)])
  have "sessions_ok sv (clients s) ds B'" by (rule sessions_ok_cong [OF R(10)]) (use assms(3) in simp_all)
  with R assms(2,4) show ?thesis by (intro sv_repI [of _ _ r _ as]) (auto simp: subset_iff)
qed

lemma clients_first: "s\<lparr>sv_arena := A, clients := K\<rparr> = s\<lparr>clients := K, sv_arena := A\<rparr>"
    "s\<lparr>broker_heap := b, clients := K\<rparr> = s\<lparr>clients := K, broker_heap := b\<rparr>"
  by (cases s; simp)+

text \<open>An active subscription has a proxy, and its inbox can be counted.\<close>

lemma pending_active:
  assumes rep: "br_rep b bk B" and w: "ab_subscriptions B u = Some w" "sub_active w"
  shows "\<exists>b' n. subscription_get_pending_count (Some u) (Some v) b = Some (0, Some n, b') \<and> br_rep b' bk B"
proof -
  obtain t q as where inv: "br_inv bk B" by (rule br_repE [OF rep])
  obtain p Y where "sub_proxy w = Some p" "ab_proxies B p = Some Y" using br_invD(3) [OF inv w] by blast
  with pending_spec(1) [OF rep w(1)] show ?thesis by blast
qed

lemma take_out_notin: "i \<notin> fst ` set ds \<Longrightarrow> take_out i ds = (NULL, ds)"
  by (induction i ds rule: take_out.induct) auto

lemma take_out_in: "i \<in> fst ` set ds \<Longrightarrow> \<exists>u ds'. take_out i ds = (Some u, ds') \<and> (i, u) \<in> set ds \<and> set ds' \<subseteq> set ds
    \<and> (distinct (map snd ds) \<longrightarrow> distinct (map snd ds') \<and> u \<notin> snd ` set ds')"
proof -
  assume i: "i \<in> fst ` set ds"
  obtain u where u: "fst (take_out i ds) = Some u" using take_out_None [of i ds] i by (cases "fst (take_out i ds)") auto
  from take_out_Some [OF this] obtain pre post where "ds = pre @ (i, u) # post" "snd (take_out i ds) = pre @ post" by blast
  with u show ?thesis by (intro exI [of _ u] exI [of _ "pre @ post"]) (auto simp: prod_eq_iff)
qed

lemma attach_handler_spec:
  assumes rep: "sv_rep s sv bk ds B" and c: "clients s x = Some c" and g: "\<not> refused (sv_arena s)"
  shows "\<exists>e s'. handle_attach ssl (Some x) i s = Some (e, s')
    \<and> (if cc_subscription c \<noteq> NULL \<or> i \<notin> fst ` set ds then e = -1 \<and> sv_rep s' sv bk ds B
       else e = 0 \<and> (\<exists>u w ds'. take_out i ds = (Some u, ds') \<and> sv_rep s' sv bk ds' B \<and> ab_subscriptions B u = Some w \<and> sub_active w \<and> sub_id w = i
         \<and> (\<exists>c'. clients s' x = Some c' \<and> cc_subscription c' = Some u \<and> cc_active c' \<and> cc_receiver_thread c' = Started)))"
proof -
  obtain r as where R: "br_rep (broker_heap s) bk B" "sessions_ok sv (clients s) ds B" by (rule sv_repE [OF rep])
  note D = sessions_okD [OF R(2)]
  have srv: "cc_server c = Some sv" by (rule D(3) [OF c])
  have fail: "\<exists>conn. reply ssl (Some x) t (- 1) s = Some (-1, on_conn x conn s)" for t
    using reply_conn [of s x ssl t "-1"] c by auto
  show ?thesis
  proof (cases "cc_subscription c \<noteq> NULL")
    case True
    with fail [of "''ERR Already subscribed''"] c sv_rep_conn [OF rep] show ?thesis by (auto simp: handle_attach_def)
  next
    case False
    obtain s1 where s1: "find_and_remove_detached (Some sv) i s = Some (fst (take_out i ds), s1)" "clients s1 = clients s" "broker_heap s1 = broker_heap s"
      "sv_arena s1 = sv_arena s" "\<forall>B' K. br_rep (broker_heap s) bk B' \<longrightarrow> sessions_ok sv K (snd (take_out i ds)) B'
         \<longrightarrow> sv_rep (s1\<lparr>clients := K\<rparr>) sv bk (snd (take_out i ds)) B'"
      using find_and_remove_spec [OF rep, of i] by blast
    show ?thesis
    proof (cases "i \<in> fst ` set ds")
      case no: False
      then have t: "take_out i ds = (NULL, ds)" by (rule take_out_notin)
      have "sv_rep (s1\<lparr>clients := clients s1\<rparr>) sv bk ds B" using s1(2,5) t R by simp
      then have rep1: "sv_rep s1 sv bk ds B" by simp
      obtain conn where "reply ssl (Some x) ''ERR Subscription not found'' (- 1) s1 = Some (-1, on_conn x conn s1)"
        using reply_conn [of s1 x ssl "''ERR Subscription not found''" "-1"] c s1(2) by auto
      then have "handle_attach ssl (Some x) i s = Some (-1, on_conn x conn s1)" using c False srv s1(1) t by (simp add: handle_attach_def)
      with sv_rep_conn [OF rep1] no show ?thesis by auto
    next
      case True
      then obtain u ds' where t: "take_out i ds = (Some u, ds')" "(i, u) \<in> set ds" "set ds' \<subseteq> set ds" "distinct (map snd ds')" "u \<notin> snd ` set ds'"
        using take_out_in [OF True] D(2) by blast
      obtain w where w: "ab_subscriptions B u = Some w" "sub_active w" "sub_id w = i" using D(1) [OF t(2)] by blast
      obtain b n where pd: "subscription_get_pending_count (Some u) (Some 0) (broker_heap s) = Some (0, Some n, b)" "br_rep b bk B"
        using pending_active [OF R(1) w(1,2)] by blast
      let ?c = "c\<lparr>cc_subscription := Some u, cc_detached := False, cc_active := True, cc_receiver_thread := Started\<rparr>"
      have ok: "sessions_ok sv ((clients s)(x \<mapsto> ?c)) ds' B"
      proof (rule sessions_hold [OF R(2) c])
        show "cc_subscription d \<noteq> Some u" if "clients s y = Some d" for y d
          using D(6) [OF that, of u] t(2) by (force simp: image_iff)
      qed (use False t(3-5) w srv in \<open>auto simp: session_def\<close>)
      define s2 where "s2 = s1\<lparr>clients := (clients s)(x \<mapsto> ?c)\<rparr>"
      have "sv_rep s2 sv bk ds' B" using s1(5) R(1) ok t(1) by (simp add: s2_def)
      then have rep3: "sv_rep (s2\<lparr>sv_arena := tick (sv_arena s), broker_heap := b\<rparr>) sv bk ds' B" (is "sv_rep ?s3 _ _ _ _")
        by (rule sv_rep_broker) (use pd(2) s1(4) in \<open>simp_all add: s2_def\<close>)
      obtain conn where "reply ssl (Some x) (''OK '' @ print_u64 n) 0 ?s3 = Some (0, on_conn x conn ?s3)"
        using reply_conn [of ?s3 x ssl "''OK '' @ print_u64 n" 0] by (auto simp: s2_def)
      then have "handle_attach ssl (Some x) i s = Some (0, on_conn x conn ?s3)"
        using c False srv s1(1-4) t(1) g pd(1) by (simp add: handle_attach_def create_thread s2_def clients_first)
      moreover have "\<exists>c'. clients (on_conn x conn ?s3) x = Some c' \<and> cc_subscription c' = Some u \<and> cc_active c' \<and> cc_receiver_thread c' = Started"
        by (simp add: s2_def)
      ultimately show ?thesis using sv_rep_conn [OF rep3] False True t(1) w
        by (intro exI [of _ 0] exI [of _ "on_conn x conn ?s3"]) auto
    qed
  qed
qed

lemma on_conn_two: "on_conn x k (on_conn x l s) = on_conn x k s"
  by (auto simp: on_conn_def option.map_comp comp_def cong: option.map_cong)

text \<open>The publication is accepted when its content arrives with one read, and the broker has a place for it.\<close>

definition publish_accepted :: "'c ssl_api \<Rightarrow> 'c client_context_t \<Rightarrow> size_t \<Rightarrow> 'c server_store \<Rightarrow> abroker \<Rightarrow> string option" where
  "publish_accepted ssl c len s B =
     (if len \<le> MAX_CONTENT_SIZE \<and> \<not> refused (sv_arena s) \<and> \<not> ab_off B \<and> grants 5 (br_arena (broker_heap s)) then
        (case fst (SSL_read ssl (cc_ssl c) (unat len)) of
           Inl _ \<Rightarrow> None
         | Inr content \<Rightarrow> if length content = unat len then Some content else None)
      else None)"

text \<open>The block of a publication has room for the content and its terminator.\<close>

lemma content_stored:
  assumes "len \<le> MAX_CONTENT_SIZE"
  shows "store_bytes (replicate (unat (len + 1)) NULL) 0 (take (unat len) bytes)
    = Some (map Some (take (unat len) bytes) @ replicate (Suc (unat len) - length (take (unat len) bytes)) NULL)"
proof -
  let ?t = "take (unat len) bytes"
  have "unat len \<le> 65536" using assms by (simp add: MAX_CONTENT_SIZE_def word_le_nat_alt)
  then have "unat (len + 1) = length ?t + (Suc (unat len) - length ?t)" by (simp add: unat_word_ariths)
  then have "replicate (unat (len + 1)) NULL = [] @ replicate (length ?t) (NULL :: char ptr) @ replicate (Suc (unat len) - length ?t) NULL"
    by (simp only: replicate_add append_Nil)
  with store_bytes_at [of "replicate (length ?t) NULL" ?t "[]"] show ?thesis by simp
qed

lemma content_terminated:
  assumes "length bytes = n"
  shows "store_byte (map Some bytes @ [NULL]) n c = Some (map Some bytes @ [Some c])"
  using store_byte_at [of "map Some bytes" NULL "[]" c] assms by simp

lemma publish_handler_spec:
  assumes rep: "sv_rep s sv bk ds B" and c: "clients s x = Some c"
  shows "\<exists>e s' B'. handle_publish ssl (Some x) channel len s = Some (e, s') \<and> sv_rep s' sv bk ds B'
    \<and> (case publish_accepted ssl c len s B of
         None \<Rightarrow> e = -1 \<and> (\<exists>n. B' = B\<lparr>ab_next_message := n\<rparr>)
       | Some content \<Rightarrow> e = 0
           \<and> B' = B\<lparr>ab_tasks := ab_tasks B @ [\<lparr>pub_id = ab_next_message B, pub_channel = c_str channel, pub_content = c_str content\<rparr>],
               ab_next_message := ab_next_message B + 1\<rparr>)"
proof -
  obtain r as where R: "servers s sv = Some r" "ns_broker r = Some bk" "br_rep (broker_heap s) bk B" "sessions_ok sv (clients s) ds B"
    by (rule sv_repE [OF rep])
  have srv: "cc_server c = Some sv" by (rule sessions_okD(3) [OF R(4) c])
  let ?s = "\<lambda>k A b. on_conn x k (s\<lparr>sv_arena := A, broker_heap := b\<rparr>)"
  have ans: "\<exists>l. reply ssl (Some x) t e (?s k A b) = Some (e, ?s l A b)" for t e k A b
    using reply_conn [of "?s k A b" x ssl t e] c by (auto simp: on_conn_two)
  have rp: "sv_rep (?s k A b) sv bk ds B'" if "br_rep b bk B'" "ab_subscriptions B' = ab_subscriptions B" "ticks (sv_arena s) \<le> ticks A" for k A b B'
    by (rule sv_rep_conn [OF sv_rep_broker [OF rep that]])
  have failed: ?thesis
    if "handle_publish ssl (Some x) channel len s = Some (- 1, ?s l A b)" "publish_accepted ssl c len s B = None"
      "br_rep b bk (B\<lparr>ab_next_message := n\<rparr>)" "ticks (sv_arena s) \<le> ticks A" for l A b n
  proof -
    have "sv_rep (?s l A b) sv bk ds (B\<lparr>ab_next_message := n\<rparr>)" by (rule rp [OF that(3) _ that(4)]) simp
    with that(1,2) show ?thesis by (intro exI [of _ "- 1"] exI [of _ "?s l A b"] exI [of _ "B\<lparr>ab_next_message := n\<rparr>"]) auto
  qed
  have keep: "br_rep (broker_heap s) bk (B\<lparr>ab_next_message := ab_next_message B\<rparr>)" using R(3) by simp
  show ?thesis
  proof (cases "MAX_CONTENT_SIZE < len")
    case True
    obtain l where "reply ssl (Some x) ''ERR Content too large'' (- 1) s = Some (- 1, ?s l (sv_arena s) (broker_heap s))"
      using reply_conn [of s x ssl "''ERR Content too large''" "-1"] c by auto
    with True have run: "handle_publish ssl (Some x) channel len s = Some (- 1, ?s l (sv_arena s) (broker_heap s))" by (simp add: handle_publish_def)
    from True show ?thesis by (intro failed [OF run _ keep]) (auto simp: publish_accepted_def)
  next
    case le: False
    show ?thesis
    proof (cases "refused (sv_arena s)")
      case True
      obtain l where "reply ssl (Some x) ''ERR Out of memory'' (- 1) (s\<lparr>sv_arena := tick (sv_arena s)\<rparr>) = Some (- 1, ?s l (tick (sv_arena s)) (broker_heap s))"
        using reply_conn [of "s\<lparr>sv_arena := tick (sv_arena s)\<rparr>" x ssl "''ERR Out of memory''" "-1"] c by auto
      with True le have run: "handle_publish ssl (Some x) channel len s = Some (- 1, ?s l (tick (sv_arena s)) (broker_heap s))"
        by (simp add: handle_publish_def)
      from True show ?thesis by (intro failed [OF run _ keep]) (simp_all add: publish_accepted_def)
    next
      case gr: False
      obtain res k where rd: "SSL_read ssl (cc_ssl c) (unat len) = (res, k)" by (cases "SSL_read ssl (cc_ssl c) (unat len)")
      have "len \<le> MAX_CONTENT_SIZE" using le by simp
      note stored = content_stored [OF this]
      define A where "A = tick (sv_arena s)"
      have A: "ticks (sv_arena s) \<le> ticks A" by (simp add: A_def)
      have upd: "s\<lparr>sv_arena := A, clients := (clients s)(x \<mapsto> c\<lparr>cc_ssl := k\<rparr>)\<rparr> = ?s k A (broker_heap s)" for k
        using c by (simp add: on_conn_def)
      show ?thesis
      proof (cases "\<exists>content. res = Inr content \<and> length content = unat len")
        case False
        obtain l where "reply ssl (Some x) ''ERR Failed to read content'' (- 1) (?s k A (broker_heap s)) = Some (- 1, ?s l A (broker_heap s))"
          using ans by blast
        then have "handle_publish ssl (Some x) channel len s = Some (- 1, ?s l A (broker_heap s))"
          using le gr rd c False upd stored by (auto simp: handle_publish_def A_def split: sum.splits)
        moreover have "publish_accepted ssl c len s B = None" using rd False by (auto simp: publish_accepted_def split: sum.splits)
        ultimately show ?thesis by (rule failed [OF _ _ keep A])
      next
        case True
        then obtain content where ct: "res = Inr content" "length content = unat len" by blast
        obtain res' k' where rd': "SSL_read ssl k 1 = (res', k')" by (cases "SSL_read ssl k 1")
        have two: "(?s k A (broker_heap s))\<lparr>clients := (clients (?s k A (broker_heap s)))(x \<mapsto> c\<lparr>cc_ssl := k'\<rparr>), broker_heap := b\<rparr> = ?s k' A b" for b
          using c by (simp add: on_conn_def)
        have run: "handle_publish ssl (Some x) channel len s = (if e \<noteq> 0 then reply ssl (Some x) ''ERR Failed to publish'' (- 1) (?s k' A b)
              else reply ssl (Some x) ''OK'' 0 (?s k' A b))"
          if "message_broker_publish (Some bk) (Some channel) (Some (c_str content)) (broker_heap s) = Some (e, b)" for e b
          using le gr rd c ct upd [of k'] rd' srv R(1,2) that stored [of content] content_terminated [OF ct(2)]
          by (simp add: handle_publish_def A_def on_conn_def clients_first string_at_terminated)
        have acc: "publish_accepted ssl c len s B = (if \<not> ab_off B \<and> grants 5 (br_arena (broker_heap s)) then Some content else None)"
          using le gr rd ct by (simp add: publish_accepted_def not_less)
        show ?thesis
        proof (cases "\<not> ab_off B \<and> grants 5 (br_arena (broker_heap s))")
          case True
          let ?B = "B\<lparr>ab_tasks := ab_tasks B @ [\<lparr>pub_id = ab_next_message B, pub_channel = c_str channel, pub_content = c_str content\<rparr>],
               ab_next_message := ab_next_message B + 1\<rparr>"
          obtain b where b: "message_broker_publish (Some bk) (Some channel) (Some (c_str content)) (broker_heap s) = Some (0, b)" "br_rep b bk ?B"
            using publish_spec [OF R(3), of channel "c_str content"] True by auto
          obtain l where "reply ssl (Some x) ''OK'' 0 (?s k' A b) = Some (0, ?s l A b)" using ans by blast
          with run [OF b(1)] have "handle_publish ssl (Some x) channel len s = Some (0, ?s l A b)" by simp
          with rp [OF b(2) _ A, of l] acc True show ?thesis by simp
        next
          case False
          obtain e b n where b: "message_broker_publish (Some bk) (Some channel) (Some (c_str content)) (broker_heap s) = Some (e, b)" "e \<noteq> 0"
            "br_rep b bk (B\<lparr>ab_next_message := n\<rparr>)"
            using publish_refused [OF R(3), of channel "c_str content"] False by blast
          obtain l where "reply ssl (Some x) ''ERR Failed to publish'' (- 1) (?s k' A b) = Some (- 1, ?s l A b)" using ans by blast
          with run [OF b(1)] b(2) have "handle_publish ssl (Some x) channel len s = Some (- 1, ?s l A b)" by simp
          then show ?thesis by (rule failed [OF _ _ b(3) A]) (use acc False in auto)
        qed
      qed
    qed
  qed
qed

section \<open>Messages that can be sent\<close>

text \<open>
  The names of channels that come from a command are short.  What was published through the server can be sent by a receiver: the header and the content
  fit into the block.
\<close>

definition sendable :: "message_t \<Rightarrow> bool" where
  "sendable a \<longleftrightarrow> (\<exists>n t. msg_channel_name a = Some n \<and> length (c_str n) \<le> 255 \<and> msg_content a = Some t)"

definition all_sendable :: "abroker \<Rightarrow> bool" where
  "all_sendable B \<longleftrightarrow> (\<forall>p Y a. ab_proxies B p = Some Y \<longrightarrow> a \<in> set (ax_msgs Y) \<longrightarrow> sendable a)
     \<and> (\<forall>q. q \<in> set (ab_tasks B) \<longrightarrow> length (c_str (pub_channel q)) \<le> 255)"

lemma frame_header_length: "length channel \<le> 255 \<Longrightarrow> length (frame_header i channel n) \<le> 302"
  using print_u64_length [of i] print_u64_length [of n] by (simp add: frame_header_def)

lemma write_frame_fits:
  assumes "length channel \<le> 255"
  shows "write_frame i channel content = Some (frame_header i channel (of_nat (length content)) @ content @ [newline])"
    and "length (the (write_frame i channel content)) < 512 + length content + 1"
proof -
  let ?h = "frame_header i channel (of_nat (length content))"
  have "length ?h \<le> 302" using assms by (rule frame_header_length)
  then show "write_frame i channel content = Some (?h @ content @ [newline])" by (simp add: write_frame_def Let_def)
  then show "length (the (write_frame i channel content)) < 512 + length content + 1" using \<open>length ?h \<le> 302\<close> by simp
qed

lemma all_sendable_proxies:
  assumes "all_sendable B" and "ab_tasks B' = ab_tasks B"
    and "\<forall>p Z. ab_proxies B' p = Some Z \<longrightarrow> ax_msgs Z = [] \<or> (\<exists>Y. ab_proxies B p = Some Y \<and> set (ax_msgs Z) \<subseteq> set (ax_msgs Y))"
  shows "all_sendable B'"
  unfolding all_sendable_def
proof (intro conjI allI impI)
  show "sendable a" if "ab_proxies B' p = Some Z" "a \<in> set (ax_msgs Z)" for p Z a
  proof -
    from assms(3) that(1) have "ax_msgs Z = [] \<or> (\<exists>Y. ab_proxies B p = Some Y \<and> set (ax_msgs Z) \<subseteq> set (ax_msgs Y))" by blast
    with that(2) obtain Y where "ab_proxies B p = Some Y" "a \<in> set (ax_msgs Y)" by auto
    with assms(1) show ?thesis unfolding all_sendable_def by blast
  qed
  show "length (c_str (pub_channel q)) \<le> 255" if "q \<in> set (ab_tasks B')" for q
    using assms(1,2) that unfolding all_sendable_def by simp
qed

lemma delivered_msgs: "delivered a P X p = Some Z \<Longrightarrow> \<exists>Y. X p = Some Y \<and> set (ax_msgs Z) \<subseteq> insert a (set (ax_msgs Y))"
  by (auto simp: delivered_def split: if_splits)

lemma all_sendable_delivered:
  assumes "all_sendable B" and "ab_tasks B = q # qs" and "ab_tasks B' = qs"
    and "ab_proxies B' = delivered (new_message (pub_id q) (pub_channel q) (pub_content q)) P (ab_proxies B)"
  shows "all_sendable B'"
  unfolding all_sendable_def
proof (intro conjI allI impI)
  have q: "length (c_str (pub_channel q)) \<le> 255" using assms(1,2) unfolding all_sendable_def by simp
  show "sendable a" if Z: "ab_proxies B' p = Some Z" "a \<in> set (ax_msgs Z)" for p Z a
  proof -
    obtain Y where Y: "ab_proxies B p = Some Y" "a \<in> set (ax_msgs Y) \<or> a = new_message (pub_id q) (pub_channel q) (pub_content q)"
      using delivered_msgs [OF Z(1) [unfolded assms(4)]] Z(2) by auto
    show ?thesis
    proof (cases "a \<in> set (ax_msgs Y)")
      case True
      with Y(1) assms(1) show ?thesis unfolding all_sendable_def by blast
    next
      case False
      with Y(2) q show ?thesis by (simp add: sendable_def)
    qed
  qed
  show "length (c_str (pub_channel r)) \<le> 255" if "r \<in> set (ab_tasks B')" for r
    using assms(1-3) that unfolding all_sendable_def by simp
qed

section \<open>Commands\<close>

text \<open>Whatever line a client sends, the server answers and its state stays consistent, as long as there is memory.\<close>

definition sv_memory :: "'c server_store \<Rightarrow> abroker \<Rightarrow> bool" where
  "sv_memory s B \<longleftrightarrow> \<not> refused (sv_arena s) \<and> plenty 10 (broker_heap s) \<and> ab_next_subscriber B \<noteq> - 1"

definition sv_good :: "'c server_store \<Rightarrow> addr \<Rightarrow> addr \<Rightarrow> (uint64_t \<times> addr) list \<Rightarrow> abroker \<Rightarrow> bool" where
  "sv_good s sv bk ds B \<longleftrightarrow> sv_rep s sv bk ds B \<and> all_sendable B"

lemma auth_handler_spec:
  assumes rep: "sv_rep s sv bk ds B" and c: "clients s x = Some c"
  shows "\<exists>e s'. handle_auth ssl (Some x) k s = Some (e, s') \<and> sv_rep s' sv bk ds B"
proof -
  obtain r as where R: "servers s sv = Some r" "ns_broker r = Some bk" "ns_detached_mutex r = Unlocked"
    "\<forall>k. ns_api_key r = Some k \<longrightarrow> api_keys s k \<noteq> None" "chain (detached_nodes s) (ns_detached_subscriptions r) as ds"
    "distinct as" "dom (detached_nodes s) = set as" "dom (detached_nodes s) \<subseteq> {..ticks (sv_arena s)}"
    "br_rep (broker_heap s) bk B" "sessions_ok sv (clients s) ds B" by (rule sv_repE [OF rep])
  have srv: "cc_server c = Some sv" by (rule sessions_okD(3) [OF R(10) c])
  have rp: "sv_rep (s\<lparr>clients := (clients s)(x \<mapsto> c\<lparr>cc_authenticated := b\<rparr>)\<rparr>) sv bk ds B" for b
  proof -
    have "sessions_ok sv ((clients s)(x \<mapsto> c\<lparr>cc_authenticated := b\<rparr>)) ds B"
      by (rule sessions_ok_cong [OF R(10)]) (use c in \<open>auto simp: session_def\<close>)
    with R show ?thesis by (intro sv_repI [of _ _ r _ as]) simp_all
  qed
  show ?thesis using auth_spec [OF c srv R(1), of ssl k] R(4) sv_rep_conn [OF rp] by blast
qed

lemma subscribe_sendable:
  assumes rep: "sv_rep s sv bk ds B" and c: "clients s x = Some c"
    and g: "plenty 10 (broker_heap s)" "ab_next_subscriber B \<noteq> - 1" "\<not> refused (sv_arena s)" and all: "all_sendable B"
  shows "\<exists>e s' B'. handle_subscribe ssl (Some x) channel s = Some (e, s') \<and> sv_rep s' sv bk ds B' \<and> all_sendable B'"
proof (cases "cc_subscription c = NULL")
  case False
  with subscribe_handler_spec [OF rep c g, of ssl channel] all show ?thesis by auto
next
  case True
  then obtain e s' B' p where B: "handle_subscribe ssl (Some x) channel s = Some (e, s')" "sv_rep s' sv bk ds B'" "ab_tasks B' = ab_tasks B"
    "ab_proxies B' = (ab_proxies B)(p \<mapsto> \<lparr>ax_id = ab_next_subscriber B, ax_active = True, ax_msgs = []\<rparr>)"
    using subscribe_handler_spec [OF rep c g, of ssl channel] by auto
  have "all_sendable B'" by (rule all_sendable_proxies [OF all B(3)]) (auto simp: B(4) split: if_splits)
  with B(1,2) show ?thesis by blast
qed

lemma publish_sendable:
  assumes rep: "sv_rep s sv bk ds B" and c: "clients s x = Some c" and all: "all_sendable B" and short: "length (c_str channel) \<le> 255"
  shows "\<exists>e s' B'. handle_publish ssl (Some x) channel len s = Some (e, s') \<and> sv_rep s' sv bk ds B' \<and> all_sendable B'"
proof -
  have "all_sendable (B\<lparr>ab_next_message := n\<rparr>)" for n using all by (simp add: all_sendable_def)
  moreover have "all_sendable (B\<lparr>ab_tasks := ab_tasks B @ [\<lparr>pub_id = i, pub_channel = c_str channel, pub_content = t\<rparr>], ab_next_message := n\<rparr>)" for i t n
    using all short by (auto simp: all_sendable_def)
  ultimately show ?thesis using publish_handler_spec [OF rep c, of ssl channel len] by (fastforce split: option.splits)
qed

lemma command_spec:
  assumes good: "sv_good s sv bk ds B" and c: "clients s x = Some c" and g: "sv_memory s B"
  shows "\<exists>run s' ds' B'. client_command ssl (Some x) line s = Some (run, s') \<and> sv_good s' sv bk ds' B'"
proof -
  have rep: "sv_rep s sv bk ds B" and all: "all_sendable B" using good by (simp_all add: sv_good_def)
  have mem: "\<not> refused (sv_arena s)" "plenty 10 (broker_heap s)" "ab_next_subscriber B \<noteq> - 1" using g by (simp_all add: sv_memory_def)
  obtain n command channel len where sc: "sscanf_command line = (n, command, channel, len)" by (cases "sscanf_command line")
  have short: "length (c_str channel) \<le> 255" using sscanf_bounds(3,4) [OF sc] by (simp add: c_str_word)
  have answer: "\<exists>s'. reply ssl (Some x) t e s = Some (e, s') \<and> sv_good s' sv bk ds B" for t e
    using reply_conn [of s x ssl t e] c sv_rep_conn [OF rep] all by (auto simp: sv_good_def)
  have auth: "\<exists>e s'. handle_auth ssl (Some x) channel s = Some (e, s') \<and> sv_good s' sv bk ds B"
    using auth_handler_spec [OF rep c, of ssl channel] all by (auto simp: sv_good_def)
  have sub: "\<exists>e s' B'. handle_subscribe ssl (Some x) channel s = Some (e, s') \<and> sv_good s' sv bk ds B'"
    using subscribe_sendable [OF rep c mem(2,3,1) all] by (simp add: sv_good_def)
  have det: "\<exists>e s' ds'. handle_detach ssl (Some x) s = Some (e, s') \<and> sv_good s' sv bk ds' B"
    using detach_handler_spec [OF rep c mem(1), of ssl] all by (auto simp: sv_good_def split: option.splits)
  have att: "\<exists>e s' ds'. handle_attach ssl (Some x) i s = Some (e, s') \<and> sv_good s' sv bk ds' B" for i
    using attach_handler_spec [OF rep c mem(1), of ssl i] all by (auto simp: sv_good_def split: if_splits)
  have pub: "\<exists>e s' B'. handle_publish ssl (Some x) channel len s = Some (e, s') \<and> sv_good s' sv bk ds B'"
    using publish_sendable [OF rep c all short] by (simp add: sv_good_def)
  obtain a1 a2 a3 a4 where a: "reply ssl (Some x) ''ERR Authentication required'' 0 s = Some (0, a1)" "sv_good a1 sv bk ds B"
    "reply ssl (Some x) ''BYE'' 0 s = Some (0, a2)" "sv_good a2 sv bk ds B" "reply ssl (Some x) ''ERR Unknown command'' 0 s = Some (0, a3)" "sv_good a3 sv bk ds B"
    "reply ssl (Some x) ''ERR Invalid command format'' 0 s = Some (0, a4)" "sv_good a4 sv bk ds B"
    using answer by meson
  obtain e1 s1 e2 s2 B2 e3 s3 ds3 e4 s4 ds4 e5 s5 B5 where h: "handle_auth ssl (Some x) channel s = Some (e1, s1)" "sv_good s1 sv bk ds B"
    "handle_subscribe ssl (Some x) channel s = Some (e2, s2)" "sv_good s2 sv bk ds B2"
    "handle_detach ssl (Some x) s = Some (e3, s3)" "sv_good s3 sv bk ds3 B"
    "handle_attach ssl (Some x) (strtoull channel) s = Some (e4, s4)" "sv_good s4 sv bk ds4 B"
    "handle_publish ssl (Some x) channel len s = Some (e5, s5)" "sv_good s5 sv bk ds B5"
    using auth sub det att [of "strtoull channel"] pub by blast
  show ?thesis
  proof (cases "2 \<le> n")
    case True
    with sc sscanf_fits [OF sc] c a(1,3,5) h(1,3,7,9) a(2,4,6) h(2,4,8,10) show ?thesis by (auto simp: client_command_def)
  next
    case False
    with sc sscanf_fits [OF sc] c a(1,3,7) h(5) a(2,4,8) h(6) show ?thesis by (auto simp: client_command_def)
  qed
qed

end
