(* ===== verification/Server_Runs.thy ===== *)
theory Server_Runs
  imports Server_Specs Transitions
begin

text \<open>
  The threads of the server and its life cycle: the receiver, the end of a session, the runs in which the threads take turns, detaching and
  attaching as a client sees them, and the creation and the release of a server.
\<close>

section \<open>The receiver\<close>

text \<open>With an empty inbox a turn changes nothing.\<close>

lemma receiver_idle:
  assumes rep: "sv_rep s sv bk ds B" and c: "clients s x = Some c" "cc_active c" "cc_subscription c = Some u"
    and w: "ab_subscriptions B u = Some w" "sub_active w" "sub_proxy w = Some p" and p: "ab_proxies B p = Some Y" "ax_msgs Y = []"
  shows "\<exists>b. receiver_turn ssl (Some x) s = Some (True, s\<lparr>broker_heap := b\<rparr>) \<and> br_rep b bk B"
proof -
  obtain r as where R: "br_rep (broker_heap s) bk B" by (rule sv_repE [OF rep])
  have act: "ax_active Y" using br_invD(3) [OF br_rep_px(3) [OF R] w(1,2)] w(3) p(1) by auto
  obtain b where "subscription_try_receive (Some u) (Some NULL) (broker_heap s) = Some (1, Some NULL, b)" "br_rep b bk B"
    using receive_empty(1) [OF R w p(1) act p(2)] by blast
  with c show ?thesis by (auto simp: receiver_turn_def)
qed

text \<open>Otherwise the oldest message leaves the inbox and is written to the connection.\<close>

lemma receiver_delivers:
  assumes rep: "sv_rep s sv bk ds B" and c: "clients s x = Some c" "cc_active c" "cc_subscription c = Some u"
    and w: "ab_subscriptions B u = Some w" "sub_active w" "sub_proxy w = Some p" and p: "ab_proxies B p = Some Y" "ax_msgs Y = a # as"
    and a: "msg_channel_name a = Some n" "length (c_str n) \<le> 255" "msg_content a = Some t"
  shows "\<exists>b. receiver_turn ssl (Some x) s = Some (True, s\<lparr>sv_arena := tick (sv_arena s), broker_heap := b,
        clients := (clients s)(x \<mapsto> (if refused (sv_arena s) then c else c\<lparr>cc_ssl := snd (SSL_write ssl (cc_ssl c)
          (frame_header (msg_id a) (c_str n) (of_nat (length (c_str t))) @ c_str t @ [newline]))\<rparr>))\<rparr>)
    \<and> br_rep b bk (B\<lparr>ab_proxies := (ab_proxies B)(p \<mapsto> Y\<lparr>ax_msgs := as\<rparr>)\<rparr>)"
proof -
  obtain r as' where R: "br_rep (broker_heap s) bk B" by (rule sv_repE [OF rep])
  have act: "ax_active Y" using br_invD(3) [OF br_rep_px(3) [OF R] w(1,2)] w(3) p(1) by auto
  obtain m b where b: "subscription_try_receive (Some u) (Some NULL) (broker_heap s) = Some (0, Some (Some m), b)" "ab_held B m = None"
    "br_rep b bk (B\<lparr>ab_proxies := (ab_proxies B)(p \<mapsto> Y\<lparr>ax_msgs := as\<rparr>), ab_held := (ab_held B)(m \<mapsto> a)\<rparr>)"
    using receive_spec [OF R w p(1) act p(2)] by blast
  have "px_rep (broker_proxies b) ((ab_proxies B)(p \<mapsto> Y\<lparr>ax_msgs := as\<rparr>)) ((ab_held B)(m \<mapsto> a))" using br_rep_px(1) [OF b(3)] by simp
  note get = message_getters_spec [OF this, of m a]
  obtain mw where mw: "message_free (Some m) (message_heap (broker_proxies b)) = Some (0, mw)"
    "br_rep (set_broker_proxies (set_message_heap mw (broker_proxies b)) b) bk (B\<lparr>ab_proxies := (ab_proxies B)(p \<mapsto> Y\<lparr>ax_msgs := as\<rparr>)\<rparr>)"
    using held_free [OF b(3,2)] by auto
  show ?thesis
  proof (cases "refused (sv_arena s)")
    case True
    with c b(1) get a mw show ?thesis
      by (intro exI [of _ "set_broker_proxies (set_message_heap mw (broker_proxies b)) b"]) (auto simp: receiver_turn_def fun_upd_idem)
  next
    case False
    with c b(1) get a(1,3) mw write_frame_fits(1) [OF a(2), of "msg_id a" "c_str t"] show ?thesis
      by (intro exI [of _ "set_broker_proxies (set_message_heap mw (broker_proxies b)) b"])
        (auto simp: receiver_turn_def clients_first split: prod.splits)
  qed
qed

section \<open>The end of a session\<close>

lemma all_sendable_unsubscribed:
  assumes "all_sendable B" and "ab_tasks B' = ab_tasks B"
    and "ab_proxies B p = Some Y" and "ab_proxies B' = (ab_proxies B)(p \<mapsto> Y\<lparr>ax_active := False\<rparr>) \<or> ab_proxies B' = (ab_proxies B)(p := None)"
  shows "all_sendable B'"
  by (rule all_sendable_proxies [OF assms(1,2)]) (use assms(3,4) in \<open>auto split: if_splits\<close>)

text \<open>A subscription is given back to the broker.\<close>

lemma release_spec:
  assumes rep: "br_rep b bk B" and w: "ab_subscriptions B u = Some w" "sub_active w"
  shows "\<exists>b1 b2 B'. subscription_unsubscribe (Some u) b = Some (0, b1) \<and> subscription_free (Some u) b1 = Some (0, b2) \<and> br_rep b2 bk B'
    \<and> ab_subscriptions B' = (ab_subscriptions B)(u := None) \<and> (all_sendable B \<longrightarrow> all_sendable B')
    \<and> (\<not> refused (arena (table_heap b)) \<longrightarrow> \<not> refused (arena (subscribers (channel_heap b))) \<longrightarrow>
         (\<exists>p. sub_proxy w = Some p \<and> ab_proxies B' = (ab_proxies B)(p := None) \<and> (\<forall>n. members B' n = removeAll p (members B n))))"
proof -
  obtain b1 B1 p Y where b1: "subscription_unsubscribe (Some u) b = Some (0, b1)" "br_rep b1 bk B1" "sub_proxy w = Some p" "ab_proxies B p = Some Y"
    "ab_subscriptions B1 = (ab_subscriptions B)(u \<mapsto> w\<lparr>sub_active := False, sub_proxy := NULL\<rparr>)" "ab_tasks B1 = ab_tasks B"
    "if refused (arena (table_heap b)) \<or> refused (arena (subscribers (channel_heap b)))
       then ab_proxies B1 = (ab_proxies B)(p \<mapsto> Y\<lparr>ax_active := False\<rparr>) \<and> (\<forall>n. members B1 n = members B n)
       else ab_proxies B1 = (ab_proxies B)(p := None) \<and> (\<forall>n. members B1 n = removeAll p (members B n))"
    using unsubscribe_spec [OF rep w] by blast
  let ?B = "B1\<lparr>ab_subscriptions := (ab_subscriptions B1)(u := None)\<rparr>"
  obtain b2 where b2: "subscription_free (Some u) b1 = Some (0, b2)" "br_rep b2 bk ?B"
    using subscription_free_spec [OF b1(2), of u "w\<lparr>sub_active := False, sub_proxy := NULL\<rparr>"] b1(5) by auto
  have "all_sendable ?B" if "all_sendable B"
    by (rule all_sendable_unsubscribed [OF that _ b1(4)]) (use b1(6,7) in \<open>auto split: if_splits\<close>)
  moreover have "ab_subscriptions ?B = (ab_subscriptions B)(u := None)" using b1(5) by simp
  ultimately show ?thesis using b1(1,3,7) b2 by (intro exI [of _ b1] exI [of _ b2] exI [of _ ?B]) auto
qed

lemma cleanup_spec:
  assumes rep: "sv_rep s sv bk ds B" and c: "clients s x = Some c"
  shows "\<exists>b B'. client_cleanup (Some x) s = Some (s\<lparr>clients := (clients s)(x := None), broker_heap := b\<rparr>)
    \<and> sv_rep (s\<lparr>clients := (clients s)(x := None), broker_heap := b\<rparr>) sv bk ds B' \<and> (all_sendable B \<longrightarrow> all_sendable B')
    \<and> ab_subscriptions B' = (case cc_subscription c of None \<Rightarrow> ab_subscriptions B | Some u \<Rightarrow> (ab_subscriptions B)(u := None))"
proof -
  obtain r as where R: "servers s sv = Some r" "ns_broker r = Some bk" "ns_detached_mutex r = Unlocked"
    "\<forall>k. ns_api_key r = Some k \<longrightarrow> api_keys s k \<noteq> None" "chain (detached_nodes s) (ns_detached_subscriptions r) as ds"
    "distinct as" "dom (detached_nodes s) = set as" "dom (detached_nodes s) \<subseteq> {..ticks (sv_arena s)}"
    "br_rep (broker_heap s) bk B" "sessions_ok sv (clients s) ds B" by (rule sv_repE [OF rep])
  note D = sessions_okD [OF R(10)]
  have ended: ?thesis if run: "client_cleanup (Some x) s = Some (s\<lparr>clients := (clients s)(x := None), broker_heap := b\<rparr>)" and "br_rep b bk B'"
    and "all_sendable B \<longrightarrow> all_sendable B'"
    and subs: "ab_subscriptions B' = (case cc_subscription c of None \<Rightarrow> ab_subscriptions B | Some u \<Rightarrow> (ab_subscriptions B)(u := None))" for b B'
  proof -
    have "sessions_ok sv ((clients s)(x := None)) ds B'"
    proof (rule sessions_release [OF R(10) c])
      show "\<forall>i v. (i, v) \<in> set ds \<longrightarrow> (\<exists>r. ab_subscriptions B' v = Some r \<and> sub_active r \<and> sub_id r = i)"
        using D(1) D(6) [OF c] subs by (cases "cc_subscription c") force+
    qed (use D(2) subs in \<open>auto split: option.splits\<close>)
    with R that(2) have "sv_rep (s\<lparr>clients := (clients s)(x := None), broker_heap := b\<rparr>) sv bk ds B'"
      by (intro sv_repI [of _ _ r _ as]) simp_all
    with that show ?thesis by blast
  qed
  show ?thesis
  proof (cases "cc_subscription c")
    case None
    with c have "client_cleanup (Some x) s = Some (s\<lparr>clients := (clients s)(x := None), broker_heap := broker_heap s\<rparr>)"
      by (simp add: client_cleanup_def)
    then show ?thesis by (rule ended [OF _ R(9)]) (simp_all add: None)
  next
    case (Some u)
    obtain w where w: "ab_subscriptions B u = Some w" "sub_active w" using D(7) [OF c Some] by blast
    obtain b1 b2 B' where b: "subscription_unsubscribe (Some u) (broker_heap s) = Some (0, b1)" "subscription_free (Some u) b1 = Some (0, b2)"
      "br_rep b2 bk B'" "ab_subscriptions B' = (ab_subscriptions B)(u := None)" "all_sendable B \<longrightarrow> all_sendable B'"
      using release_spec [OF R(9) w] by blast
    have "client_cleanup (Some x) s = Some (s\<lparr>clients := (clients s)(x := None), broker_heap := b2\<rparr>)"
      using c Some D(4) [OF c] D(5) [OF c Some] b(1,2) by (simp add: client_cleanup_def clients_first)
    then show ?thesis by (rule ended [OF _ b(3,5)]) (simp add: b(4) Some)
  qed
qed

section \<open>Turns of the threads\<close>

lemma sessions_new:
  assumes ok: "sessions_ok sv K ds B" and c: "cc_server c = Some sv" "cc_subscription c = NULL" "cc_receiver_thread c = No_Thread"
  shows "sessions_ok sv (K(x \<mapsto> c)) ds B"
proof (rule sessions_okI)
  note D = sessions_okD [OF ok]
  show "cc_server d = Some sv" "cc_receiver_thread d = Started \<longleftrightarrow> cc_subscription d \<noteq> NULL" if "(K(x \<mapsto> c)) y = Some d" for y d
    using that D(3,4) [of y d] c by (auto split: if_splits)
  show "\<not> cc_detached d \<and> v \<notin> snd ` set ds \<and> (\<exists>r. ab_subscriptions B v = Some r \<and> sub_active r)"
    if "(K(x \<mapsto> c)) y = Some d" "cc_subscription d = Some v" for y d v
    using that D(5-7) [of y d v] c by (auto split: if_splits)
  show "y = z" if "(K(x \<mapsto> c)) y = Some d" "(K(x \<mapsto> c)) z = Some e" "cc_subscription d = Some v" "cc_subscription e = Some v" for y z d e v
    using that D(8) [of y d z e v] c by (auto split: if_splits)
qed (use sessions_okD(1,2) [OF ok] in blast)+

lemma sv_good_store:
  assumes good: "sv_good s sv bk ds B" and "sessions_ok sv K ds B" and "ticks (sv_arena s) \<le> ticks A"
  shows "sv_good (s\<lparr>sv_arena := A, clients := K\<rparr>) sv bk ds B"
proof -
  obtain r as where R: "servers s sv = Some r" "ns_broker r = Some bk" "ns_detached_mutex r = Unlocked"
    "\<forall>k. ns_api_key r = Some k \<longrightarrow> api_keys s k \<noteq> None" "chain (detached_nodes s) (ns_detached_subscriptions r) as ds"
    "distinct as" "dom (detached_nodes s) = set as" "dom (detached_nodes s) \<subseteq> {..ticks (sv_arena s)}"
    "br_rep (broker_heap s) bk B" "sessions_ok sv (clients s) ds B" using good unfolding sv_good_def by (auto elim: sv_repE)
  then have "sv_rep (s\<lparr>sv_arena := A, clients := K\<rparr>) sv bk ds B"
    using assms(2,3) by (intro sv_repI [of _ _ r _ as]) (auto simp: subset_iff)
  with good show ?thesis by (simp add: sv_good_def)
qed

lemma sv_goodE:
  assumes "sv_good s sv bk ds B"
  obtains r where "servers s sv = Some r" and "br_rep (broker_heap s) bk B" and "sessions_ok sv (clients s) ds B" and "sv_rep s sv bk ds B"
    and "all_sendable B"
  using assms unfolding sv_good_def by (auto elim: sv_repE)

lemma accept_turn_good:
  assumes good: "sv_good s sv bk ds B"
  shows "\<exists>go s'. accept_turn fd hs conn (Some sv) s = Some (go, s') \<and> sv_good s' sv bk ds B"
proof -
  obtain r where R: "servers s sv = Some r" "sessions_ok sv (clients s) ds B" by (rule sv_goodE [OF good])
  let ?c = "\<lparr>cc_server = Some sv, cc_ssl = conn, cc_subscription = NULL, cc_receiver_thread = No_Thread, cc_active = False, cc_detached = False,
    cc_authenticated = False\<rparr>"
  have tick: "sv_good (s\<lparr>sv_arena := A\<rparr>) sv bk ds B" if "ticks (sv_arena s) \<le> ticks A" for A
    using sv_good_store [OF good R(2) that] by simp
  have new: "sv_good (s\<lparr>sv_arena := A, clients := (clients s)(x \<mapsto> ?c)\<rparr>) sv bk ds B" if "ticks (sv_arena s) \<le> ticks A" for x A
    using that by (intro sv_good_store [OF good] sessions_new [OF R(2)]) simp_all
  have "sv_good (snd (accept_client (Some sv) conn s)) sv bk ds B"
    unfolding accept_client_def by (auto simp: malloc_def sys_init_def intro!: tick new split: prod.splits option.splits if_splits)
  with good R(1) show ?thesis by (auto simp: accept_turn_def)
qed

text \<open>
  Reading a line, without the buffer: at most \<open>n\<close> bytes, whether the connection is still up, and the bytes before the end of the line.
\<close>

fun take_line :: "'c ssl_api \<Rightarrow> nat \<Rightarrow> 'c \<Rightarrow> bool \<times> string \<times> 'c" where
  "take_line ssl 0 conn = (True, [], conn)"
| "take_line ssl (Suc n) conn = (case SSL_read ssl conn 1 of
     (Inr (b # _), conn) \<Rightarrow> if b = newline then (True, [], conn)
       else (case take_line ssl n conn of (running, line, conn) \<Rightarrow> (running, b # line, conn))
   | (_, conn) \<Rightarrow> (False, [], conn))"

lemma take_line_length: "take_line ssl n conn = (running, line, conn') \<Longrightarrow> length line \<le> n \<and> newline \<notin> set line"
  by (induction ssl n conn arbitrary: running line conn' rule: take_line.induct) (fastforce split: prod.splits sum.splits list.splits if_splits)+

text \<open>The loop stays within the buffer, whose last byte remains a terminator.\<close>

abbreviation terminators :: "nat \<Rightarrow> buffer" where
  "terminators n \<equiv> replicate n (Some (CHR 0x00))"

lemma read_line_take_line:
  assumes "take_line ssl n conn = (running, line, conn')"
  shows "read_line ssl (map Some t @ terminators (Suc n)) (length t) conn
    = Some (running, length t + length line, map Some (t @ line) @ terminators (Suc n - length line), conn')"
  using assms
proof (induction ssl n conn arbitrary: t running line conn' rule: take_line.induct)
  case (1 ssl conn)
  then show ?case by (subst read_line.simps) simp
next
  case (2 ssl n conn)
  obtain res k where rd: "SSL_read ssl conn 1 = (res, k)" by (cases "SSL_read ssl conn 1")
  let ?z = "Some (CHR 0x00) :: char ptr"
  have store: "store_byte (map Some t @ ?z # ?z # terminators n) (length t) c = Some (map Some t @ Some c # ?z # terminators n)"
    "store_byte (map Some t @ Some c # ?z # terminators n) (length t) d = Some (map Some t @ Some d # ?z # terminators n)" for c d
    using store_byte_at [of "map Some t" _ "?z # terminators n"] by simp_all
  show ?case
  proof (cases "\<exists>c cs. res = Inr (c # cs)")
    case False
    then have "running = False" "line = []" "conn' = k" using 2(2) rd by (auto split: sum.splits list.splits)
    with False rd show ?thesis by (subst read_line.simps) (auto split: sum.splits list.splits)
  next
    case True
    then obtain c cs where c: "res = Inr (c # cs)" by blast
    show ?thesis
    proof (cases "c = newline")
      case True
      then have "running" "line = []" "conn' = k" using 2(2) rd c by auto
      with True rd c store show ?thesis by (subst read_line.simps) simp
    next
      case False
      then obtain l where l: "take_line ssl n k = (running, l, conn')" "line = c # l" using 2(2) rd c by (auto split: prod.splits)
      have "read_line ssl (map Some t @ terminators (Suc (Suc n))) (length t) conn = read_line ssl (map Some (t @ [c]) @ terminators (Suc n)) (length (t @ [c])) k"
        using False rd c store(1) by (subst read_line.simps) simp
      also have "\<dots> = Some (running, length (t @ [c]) + length l, map Some ((t @ [c]) @ l) @ terminators (Suc n - length l), conn')"
        by (rule 2(1) [OF rd [symmetric] c refl False l(1)])
      finally show ?thesis using l(2) by simp
    qed
  qed
qed

lemma read_line_fits:
  assumes "take_line ssl (BUFFER_SIZE - 1) conn = (running, line, conn')"
  shows "\<exists>buffer. read_line ssl (terminators BUFFER_SIZE) 0 conn = Some (running, length line, buffer, conn') \<and> length buffer = BUFFER_SIZE
    \<and> string_at buffer = Some (c_str line) \<and> length line < BUFFER_SIZE"
proof -
  let ?b = "map Some line @ terminators (BUFFER_SIZE - length line)"
  have len: "length line < BUFFER_SIZE" using take_line_length [OF assms] by (simp add: BUFFER_SIZE_def)
  have "Suc (BUFFER_SIZE - 1) = BUFFER_SIZE" by (simp add: BUFFER_SIZE_def)
  then have "read_line ssl (terminators BUFFER_SIZE) 0 conn = Some (running, length line, ?b, conn')"
    using read_line_take_line [OF assms, of "[]"] by simp
  moreover have "BUFFER_SIZE - length line = Suc (BUFFER_SIZE - length line - 1)" using len by simp
  then have "string_at ?b = Some (c_str line)" using string_at_terminated [of line] by (metis replicate_Suc)
  ultimately show ?thesis using len by (intro exI [of _ ?b]) simp
qed

lemma client_turn_good:
  assumes good: "sv_good s sv bk ds B" and c: "clients s x = Some c" and g: "sv_memory s B"
  shows "\<exists>run s' ds' B'. client_turn ssl (Some x) s = Some (run, s') \<and> sv_good s' sv bk ds' B'"
proof -
  obtain r where R: "servers s sv = Some r" "sessions_ok sv (clients s) ds B" "sv_rep s sv bk ds B" "all_sendable B" by (rule sv_goodE [OF good])
  have srv: "cc_server c = Some sv" by (rule sessions_okD(3) [OF R(2) c])
  obtain running line conn where "take_line ssl (BUFFER_SIZE - 1) (cc_ssl c) = (running, line, conn)"
    by (cases "take_line ssl (BUFFER_SIZE - 1) (cc_ssl c)")
  from read_line_fits [OF this] obtain buffer where rd: "read_line ssl (terminators BUFFER_SIZE) 0 (cc_ssl c) = Some (running, length line, buffer, conn)"
    "string_at buffer = Some (c_str line)" by blast
  have upd: "s\<lparr>clients := (clients s)(x \<mapsto> c\<lparr>cc_ssl := conn\<rparr>)\<rparr> = on_conn x conn s" using c by (simp add: on_conn_def)
  have good': "sv_good (on_conn x conn s) sv bk ds B" using sv_rep_conn [OF R(3)] R(4) by (simp add: sv_good_def)
  have mem: "sv_memory (on_conn x conn s) B" using g by (simp add: sv_memory_def)
  obtain run s' ds' B' where "client_command ssl (Some x) (c_str line) (on_conn x conn s) = Some (run, s')" "sv_good s' sv bk ds' B'"
    using command_spec [OF good' _ mem, of x "c\<lparr>cc_ssl := conn\<rparr>" ssl "c_str line"] c by auto
  with good good' rd upd c srv R(1) show ?thesis by (auto simp: client_turn_def)
qed

lemma cleanup_good:
  assumes good: "sv_good s sv bk ds B" and c: "clients s x = Some c"
  shows "\<exists>s' B'. client_cleanup (Some x) s = Some s' \<and> sv_good s' sv bk ds B'"
proof -
  obtain r where R: "sv_rep s sv bk ds B" "all_sendable B" by (rule sv_goodE [OF good])
  with cleanup_spec [OF R(1) c] show ?thesis by (auto simp: sv_good_def)
qed

lemma receiver_turn_good:
  assumes good: "sv_good s sv bk ds B" and c: "clients s x = Some c" "cc_receiver_thread c = Started"
  shows "\<exists>go s' B'. receiver_turn ssl (Some x) s = Some (go, s') \<and> sv_good s' sv bk ds B'"
proof -
  obtain r where R: "br_rep (broker_heap s) bk B" "sessions_ok sv (clients s) ds B" "sv_rep s sv bk ds B" "all_sendable B" by (rule sv_goodE [OF good])
  note D = sessions_okD [OF R(2)]
  obtain u where u: "cc_subscription c = Some u" using D(4) [OF c(1)] c(2) by auto
  obtain w where w: "ab_subscriptions B u = Some w" "sub_active w" using D(7) [OF c(1) u] by blast
  obtain p Y where p: "sub_proxy w = Some p" "ab_proxies B p = Some Y" using br_invD(3) [OF br_rep_px(3) [OF R(1)] w] by blast
  show ?thesis
  proof (cases "cc_active c")
    case False
    with c(1) good show ?thesis by (auto simp: receiver_turn_def)
  next
    case act: True
    show ?thesis
    proof (cases "ax_msgs Y")
      case Nil
      obtain b where "receiver_turn ssl (Some x) s = Some (True, s\<lparr>broker_heap := b\<rparr>)" "br_rep b bk B"
        using receiver_idle [OF R(3) c(1) act u w p Nil, of ssl] by blast
      with sv_rep_broker [OF R(3), of b B "sv_arena s"] R(4) show ?thesis by (auto simp: sv_good_def)
    next
      case (Cons a as)
      have "sendable a" using R(4) p(2) Cons unfolding all_sendable_def by (metis list.set_intros(1))
      then obtain n t where a: "msg_channel_name a = Some n" "length (c_str n) \<le> 255" "msg_content a = Some t" unfolding sendable_def by blast
      let ?B = "B\<lparr>ab_proxies := (ab_proxies B)(p \<mapsto> Y\<lparr>ax_msgs := as\<rparr>)\<rparr>"
      define k where "k = (if refused (sv_arena s) then cc_ssl c else snd (SSL_write ssl (cc_ssl c)
          (frame_header (msg_id a) (c_str n) (of_nat (length (c_str t))) @ c_str t @ [newline])))"
      then have k: "(if refused (sv_arena s) then c else c\<lparr>cc_ssl := snd (SSL_write ssl (cc_ssl c)
          (frame_header (msg_id a) (c_str n) (of_nat (length (c_str t))) @ c_str t @ [newline]))\<rparr>) = c\<lparr>cc_ssl := k\<rparr>" by simp
      obtain b where run: "receiver_turn ssl (Some x) s = Some (True, s\<lparr>sv_arena := tick (sv_arena s), broker_heap := b,
          clients := (clients s)(x \<mapsto> c\<lparr>cc_ssl := k\<rparr>)\<rparr>)" (is "_ = Some (True, ?s)") "br_rep b bk ?B"
        using receiver_delivers [OF R(3) c(1) act u w p Cons a, of ssl] unfolding k by blast
      have "sv_rep (s\<lparr>sv_arena := tick (sv_arena s), broker_heap := b\<rparr>) sv bk ds ?B" by (rule sv_rep_broker [OF R(3) run(2)]) simp_all
      from sv_rep_conn [OF this, of x k] have "sv_rep ?s sv bk ds ?B" using c(1) by (simp add: on_conn_def)
      moreover have "all_sendable ?B" by (rule all_sendable_proxies [OF R(4)]) (use p(2) Cons in \<open>auto split: if_splits\<close>)
      ultimately show ?thesis using run(1) by (auto simp: sv_good_def)
    qed
  qed
qed

section \<open>Runs of the server\<close>

text \<open>
  The threads of the server take turns: the thread that accepts connections, a thread that serves a client, a receiver, and the pool that
  carries out a publication.  A session may end between any two turns.
\<close>

inductive server_step :: "'c ssl_api \<Rightarrow> addr \<Rightarrow> addr \<Rightarrow> 'c server_store \<Rightarrow> 'c server_store \<Rightarrow> bool"
  for ssl :: "'c ssl_api" and sv bk :: addr where
  accept: "accept_turn fd hs conn (Some sv) s = Some (go, s') \<Longrightarrow> server_step ssl sv bk s s'"
| command: "client_turn ssl (Some x) s = Some (run, s') \<Longrightarrow> server_step ssl sv bk s s'"
| cleanup: "client_cleanup (Some x) s = Some s' \<Longrightarrow> server_step ssl sv bk s s'"
| receive: "clients s x = Some c \<Longrightarrow> cc_receiver_thread c = Started \<Longrightarrow> receiver_turn ssl (Some x) s = Some (go, s')
    \<Longrightarrow> server_step ssl sv bk s s'"
| publish: "dispatch (Some bk) (broker_heap s) = Some b \<Longrightarrow> server_step ssl sv bk s (s\<lparr>broker_heap := b\<rparr>)"

text \<open>There is memory for the next turn, whichever it is: a delivery takes three blocks for each subscriber.\<close>

definition ample :: "addr \<Rightarrow> 'c server_store \<Rightarrow> bool" where
  "ample bk s \<longleftrightarrow> \<not> refused (sv_arena s) \<and> plenty (10 + 3 * card (dom (proxies (broker_proxies (broker_heap s))))) (broker_heap s)
     \<and> (\<forall>r. brokers (broker_heap s) bk = Some r \<longrightarrow> mb_next_subscriber_id r \<noteq> - 1)"

text \<open>A run from \<open>s0\<close>, with the states in which its turns began.\<close>

inductive server_reach :: "'c ssl_api \<Rightarrow> addr \<Rightarrow> addr \<Rightarrow> 'c server_store \<Rightarrow> 'c server_store list \<Rightarrow> 'c server_store \<Rightarrow> bool"
  for ssl :: "'c ssl_api" and sv bk :: addr and s0 :: "'c server_store" where
  start: "server_reach ssl sv bk s0 [] s0"
| turn: "server_reach ssl sv bk s0 ss s \<Longrightarrow> server_step ssl sv bk s s' \<Longrightarrow> server_reach ssl sv bk s0 (ss @ [s]) s'"

lemma ample_memory:
  assumes "ample bk s" and "br_rep (broker_heap s) bk B"
  shows "sv_memory s B" and "plenty (4 + 3 * length (members B n)) (broker_heap s)"
proof -
  obtain t q as where "brokers (broker_heap s) bk = Some \<lparr>mb_publisher_pool = Some q, mb_channels = Some t, mb_channels_mutex = Unlocked,
         mb_next_subscriber_id = ab_next_subscriber B, mb_next_message_id = ab_next_message B\<rparr>" by (rule br_repE [OF assms(2)])
  with assms(1) plenty_mono show "sv_memory s B" unfolding ample_def sv_memory_def by fastforce
  show "plenty (4 + 3 * length (members B n)) (broker_heap s)"
    using assms(1) members_card [OF assms(2), of n] unfolding ample_def by (auto elim: plenty_mono)
qed

lemma dispatch_good:
  assumes good: "sv_good s sv bk ds B" and mem: "ample bk s"
  shows "\<exists>b B'. dispatch (Some bk) (broker_heap s) = Some b \<and> sv_good (s\<lparr>broker_heap := b\<rparr>) sv bk ds B'"
proof -
  obtain r where R: "br_rep (broker_heap s) bk B" "sv_rep s sv bk ds B" "all_sendable B" by (rule sv_goodE [OF good])
  show ?thesis
  proof (cases "ab_tasks B")
    case Nil
    obtain t q as where "brokers (broker_heap s) bk = Some \<lparr>mb_publisher_pool = Some q, mb_channels = Some t, mb_channels_mutex = Unlocked,
         mb_next_subscriber_id = ab_next_subscriber B, mb_next_message_id = ab_next_message B\<rparr>"
      "pools (broker_heap s) q = Some \<lparr>po_off = ab_off B, po_tasks = map Some as\<rparr>"
      "map (task_args (broker_heap s)) as = map (\<lambda>p. Some (task_of t bk p)) (ab_tasks B)" by (rule br_repE [OF R(1)])
    with Nil have "dispatch (Some bk) (broker_heap s) = Some (broker_heap s)" by (simp add: dispatch_def)
    with good show ?thesis by (intro exI [of _ "broker_heap s"] exI [of _ B]) simp
  next
    case (Cons q qs)
    obtain b B' where b: "dispatch (Some bk) (broker_heap s) = Some b" "br_rep b bk B'" "ab_subscriptions B' = ab_subscriptions B" "ab_tasks B' = qs"
      "ab_proxies B' = delivered (new_message (pub_id q) (pub_channel q) (pub_content q)) (set (members B (pub_channel q))) (ab_proxies B)"
      using dispatch_spec [OF R(1) Cons ample_memory(2) [OF mem R(1)]] by blast
    have "all_sendable B'" by (rule all_sendable_delivered [OF R(3) Cons b(4,5)])
    moreover have "sv_rep (s\<lparr>broker_heap := b\<rparr>) sv bk ds B'" using sv_rep_broker [OF R(2) b(2,3), of "sv_arena s"] by simp
    ultimately show ?thesis using b(1) by (auto simp: sv_good_def)
  qed
qed

text \<open>No turn has undefined behaviour, and each of them keeps the state consistent.\<close>

lemma turns_defined:
  assumes good: "sv_good s sv bk ds B" and mem: "ample bk s"
  shows "accept_turn fd hs conn (Some sv) s \<noteq> None" and "dispatch (Some bk) (broker_heap s) \<noteq> None"
    and "clients s x = Some c \<Longrightarrow> client_turn ssl (Some x) s \<noteq> None" and "clients s x = Some c \<Longrightarrow> client_cleanup (Some x) s \<noteq> None"
    and "clients s x = Some c \<Longrightarrow> cc_receiver_thread c = Started \<Longrightarrow> receiver_turn ssl (Some x) s \<noteq> None"
proof -
  obtain r where R: "br_rep (broker_heap s) bk B" by (rule sv_goodE [OF good])
  note m = ample_memory(1) [OF mem R]
  show "accept_turn fd hs conn (Some sv) s \<noteq> None" using accept_turn_good [OF good, of fd hs conn] by auto
  show "dispatch (Some bk) (broker_heap s) \<noteq> None" using dispatch_good [OF good mem] by auto
  show "clients s x = Some c \<Longrightarrow> client_turn ssl (Some x) s \<noteq> None" using client_turn_good [OF good _ m, of x c ssl] by auto
  show "clients s x = Some c \<Longrightarrow> client_cleanup (Some x) s \<noteq> None" using cleanup_good [OF good, of x c] by auto
  show "clients s x = Some c \<Longrightarrow> cc_receiver_thread c = Started \<Longrightarrow> receiver_turn ssl (Some x) s \<noteq> None"
    using receiver_turn_good [OF good, of x c ssl] by auto
qed

lemma step_good:
  assumes step: "server_step ssl sv bk s s'" and good: "sv_good s sv bk ds B" and mem: "ample bk s"
  shows "\<exists>ds' B'. sv_good s' sv bk ds' B'"
proof -
  obtain r where R: "br_rep (broker_heap s) bk B" by (rule sv_goodE [OF good])
  note m = ample_memory(1) [OF mem R]
  from step show ?thesis
  proof cases
    case (accept fd hs conn go)
    with accept_turn_good [OF good, of fd hs conn] show ?thesis by auto
  next
    case (command x run)
    then obtain c where "clients s x = Some c" by (auto simp: client_turn_def bind_eq_Some_conv)
    with client_turn_good [OF good _ m, of x c ssl] command show ?thesis by auto
  next
    case (cleanup x)
    then obtain c where "clients s x = Some c" by (auto simp: client_cleanup_def bind_eq_Some_conv)
    with cleanup_good [OF good, of x c] cleanup show ?thesis by auto
  next
    case (receive x c go)
    with receiver_turn_good [OF good, of x c ssl] show ?thesis by auto
  next
    case (publish b)
    with dispatch_good [OF good mem] show ?thesis by auto
  qed
qed

interpretation server: runs "\<lambda>s s'. ample bk s \<and> server_step ssl sv bk s s'" "\<lambda>s. \<exists>ds B. sv_good s sv bk ds B" for ssl sv bk
  by unfold_locales (blast dest: step_good)

lemma server_reach_run: "server_reach ssl sv bk s0 ss s \<Longrightarrow> \<forall>t \<in> set ss. ample bk t \<Longrightarrow> (\<lambda>s s'. ample bk s \<and> server_step ssl sv bk s s')\<^sup>*\<^sup>* s0 s"
  by (induction rule: server_reach.induct) (auto intro: rtranclp.rtrancl_into_rtrancl)

lemma reach_good:
  assumes "server_reach ssl sv bk s0 ss s" and "\<forall>t \<in> set ss. ample bk t" and "sv_good s0 sv bk ds B"
  shows "\<exists>ds' B'. sv_good s sv bk ds' B'"
  using server.run_keeps [OF server_reach_run [OF assms(1,2)]] assms(3) by blast

section \<open>Detaching and attaching\<close>

text \<open>The commands as lines.\<close>

lemma command_attach:
  assumes c: "clients s x = Some c" "cc_authenticated c"
  shows "client_command ssl (Some x) (''ATTACH '' @ print_u64 i) s
    = Option.bind (handle_attach ssl (Some x) i s) (\<lambda>(_, s). Some (True, s))"
proof -
  have "is_word 31 ''ATTACH''" by (simp add: is_word_def isspace_def)
  from sscanf_two_words [OF this is_word_print, of i] have "sscanf_command (''ATTACH '' @ print_u64 i) = (2, ''ATTACH'', print_u64 i, 0)" by simp
  with c sscanf_fits [OF this] show ?thesis by (simp add: client_command_def strcmp_eq_0 strtoull_print c_str_def)
qed

lemma command_detach:
  assumes c: "clients s x = Some c" "cc_authenticated c"
  shows "client_command ssl (Some x) ''DETACH'' s = Option.bind (handle_detach ssl (Some x) s) (\<lambda>(_, s). Some (True, s))"
proof -
  have "sscanf_command ''DETACH'' = (1, ''DETACH'', [], 0)" by (simp add: sscanf_command_def c_str_def isspace_def scan_word_def)
  with c show ?thesis by (simp add: client_command_def strcmp_eq_0 c_str_def MAX_CHANNEL_NAME_def)
qed

text \<open>A subscription that one session detaches can be attached by another one, with its messages.\<close>

lemma detach_attach:
  assumes rep: "sv_rep s sv bk ds B" and x: "clients s x = Some c" "cc_authenticated c" "cc_subscription c = Some u"
    and y: "clients s y = Some d" "cc_authenticated d" "y \<noteq> x \<Longrightarrow> cc_subscription d = NULL"
    and g: "grants 2 (sv_arena s)" and w: "ab_subscriptions B u = Some w"
  shows "\<exists>s1 s2 d'. client_command ssl (Some x) ''DETACH'' s = Some (True, s1) \<and> sv_rep s1 sv bk ((sub_id w, u) # ds) B
    \<and> map_option cc_subscription (clients s1 x) = Some NULL
    \<and> client_command ssl (Some y) (''ATTACH '' @ print_u64 (sub_id w)) s1 = Some (True, s2)
    \<and> sv_rep s2 sv bk ds B \<and> clients s2 y = Some d' \<and> cc_subscription d' = Some u \<and> cc_active d' \<and> cc_receiver_thread d' = Started"
proof -
  have g1: "\<not> refused (sv_arena s)" "\<not> refused (tick (sv_arena s))" using g by (simp_all add: numeral_2_eq_2 grants_Suc)
  obtain s1 c1 where d: "handle_detach ssl (Some x) s = Some (0, s1)" "sv_rep s1 sv bk ((sub_id w, u) # ds) B" "clients s1 x = Some c1"
    "cc_subscription c1 = NULL" "cc_authenticated c1 = cc_authenticated c" "sv_arena s1 = tick (sv_arena s)" "\<forall>z. z \<noteq> x \<longrightarrow> clients s1 z = clients s z"
    using detach_handler_spec [OF rep x(1) g1(1), of ssl] x(3) w by auto
  obtain d1 where d1: "clients s1 y = Some d1" "cc_authenticated d1" "cc_subscription d1 = NULL"
    using d(3-5,7) x y by (cases "y = x") auto
  have t: "take_out (sub_id w) ((sub_id w, u) # ds) = (Some u, ds)" by simp
  have "\<not> refused (sv_arena s1)" using d(6) g1(2) by simp
  from attach_handler_spec [OF d(2) d1(1) this, of ssl "sub_id w"] d1(3) t obtain s2 d' where a: "handle_attach ssl (Some y) (sub_id w) s1 = Some (0, s2)"
    "sv_rep s2 sv bk ds B" "clients s2 y = Some d'" "cc_subscription d' = Some u" "cc_active d'" "cc_receiver_thread d' = Started" by auto
  show ?thesis using command_detach [OF x(1,2), of ssl] command_attach [OF d1(1,2), of ssl "sub_id w"] d(1-4) a by auto
qed

text \<open>
  When there is no memory for the node, the session keeps its subscription, but its receiver is gone: another \<open>DETACH\<close> and the end of the
  session join the receiver again.
\<close>

lemma detach_refused:
  assumes rep: "sv_rep s sv bk ds B" and c: "clients s x = Some c" "cc_subscription c = Some u" and g: "refused (sv_arena s)"
  shows "\<exists>s'. handle_detach ssl (Some x) s = Some (-1, s') \<and> handle_detach ssl (Some x) s' = None \<and> client_cleanup (Some x) s' = None"
proof -
  obtain r as where R: "servers s sv = Some r" "br_rep (broker_heap s) bk B" "sessions_ok sv (clients s) ds B" by (rule sv_repE [OF rep])
  note D = sessions_okD [OF R(3)]
  obtain w where w: "ab_subscriptions B u = Some w" using D(7) [OF c] by blast
  let ?c = "c\<lparr>cc_active := False, cc_receiver_thread := No_Thread\<rparr>"
  let ?s = "s\<lparr>clients := (clients s)(x \<mapsto> ?c), sv_arena := tick (sv_arena s)\<rparr>"
  obtain conn where "reply ssl (Some x) ''ERR Failed to detach'' (- 1) ?s = Some (- 1, on_conn x conn ?s)"
    using reply_conn [of ?s x ssl "''ERR Failed to detach''" "-1"] by auto
  then have run: "handle_detach ssl (Some x) s = Some (- 1, on_conn x conn ?s)"
    using c D(3) [OF c(1)] D(4) [OF c(1)] w g br_rep_px(2) [OF R(2)] by (simp add: handle_detach_def add_detached_def subscription_get_id_def)
  have "handle_detach ssl (Some x) (on_conn x conn ?s) = None" using c by (simp add: handle_detach_def)
  moreover have "client_cleanup (Some x) (on_conn x conn ?s) = None" using c D(5) [OF c] by (simp add: client_cleanup_def)
  ultimately show ?thesis using run by blast
qed

section \<open>Content that does not come with one read\<close>

text \<open>\<open>SSL_read\<close> gives at most one record of the protocol, at most 16384 bytes: longer contents are refused.\<close>

lemma publish_long:
  assumes c: "clients s x = Some c" and rec: "\<And>conn n content conn'. SSL_read ssl conn n = (Inr content, conn') \<Longrightarrow> length content \<le> 16384"
    and len: "16384 < len" "len \<le> MAX_CONTENT_SIZE" and g: "\<not> refused (sv_arena s)"
  shows "\<exists>s' conn. handle_publish ssl (Some x) channel len s = Some (-1, s') \<and> broker_heap s' = broker_heap s"
proof -
  obtain res k where rd: "SSL_read ssl (cc_ssl c) (unat len) = (res, k)" by (cases "SSL_read ssl (cc_ssl c) (unat len)")
  have "16384 < unat len" using len(1) by (simp add: word_less_nat_alt)
  then have no: "length content \<noteq> unat len" if "res = Inr content" for content
    using rec [of "cc_ssl c" "unat len" content k] rd that by auto
  let ?s = "s\<lparr>sv_arena := tick (sv_arena s), clients := (clients s)(x \<mapsto> c\<lparr>cc_ssl := k\<rparr>)\<rparr>"
  obtain conn where "reply ssl (Some x) ''ERR Failed to read content'' (- 1) ?s = Some (- 1, on_conn x conn ?s)"
    using reply_conn [of ?s x ssl "''ERR Failed to read content''" "-1"] by auto
  then have "handle_publish ssl (Some x) channel len s = Some (- 1, on_conn x conn ?s)"
    using len(2) g rd c no content_stored [OF len(2)] by (auto simp: handle_publish_def not_less [symmetric] split: sum.splits)
  then show ?thesis by auto
qed

section \<open>The life cycle of the server\<close>

text \<open>Every step of the creation has succeeded.\<close>

definition created :: "server_calls \<Rightarrow> network_server_configuration_t \<Rightarrow> 'c server_store \<Rightarrow> bool" where
  "created calls cf s \<longleftrightarrow> grants (if cf_api_key cf = NULL then 2 else 3) (sv_arena s) \<and> create_ssl_context calls \<and> 0 \<le> sc_socket calls \<and> 0 \<le> sc_bind calls"

text \<open>The copy of the key is lost: the creation fails after the mutex was made.\<close>

definition key_lost :: "network_server_configuration_t \<Rightarrow> 'c server_store \<Rightarrow> bool" where
  "key_lost cf s \<longleftrightarrow> cf_api_key cf \<noteq> NULL \<and> grants 3 (sv_arena s)"

lemma grants_2: "grants 2 A \<longleftrightarrow> \<not> refused A \<and> \<not> refused (tick A)"
  by (simp add: numeral_2_eq_2 grants_Suc [of "Suc 0"])

lemma grants_3: "grants 3 A \<longleftrightarrow> \<not> refused A \<and> \<not> refused (tick A) \<and> \<not> refused (tick (tick A))"
  using not_grants_3 [of A] by auto

lemma server_new_spec:
  assumes cf: "cf_broker cf = Some bk" "cf_cert_file cf \<noteq> NULL" "cf_key_file cf \<noteq> NULL"
    and fresh: "dom (servers s) \<subseteq> {..ticks (sv_arena s)}" "dom (api_keys s) \<subseteq> {..ticks (sv_arena s)}"
    and empty: "detached_nodes s = Map.empty" "clients s = Map.empty" and rep: "br_rep (broker_heap s) bk B" "all_sendable B"
  shows "\<exists>e out s'. network_server_new calls (Some cf) (Some v) s = Some (e, Some out, s')
    \<and> (if created calls cf s then e = 0 \<and> (\<exists>sv r. out = Some sv \<and> sv_good s' sv bk [] B \<and> servers s' sv = Some r \<and> \<not> ns_running r
           \<and> ns_port r = (case sc_port calls of None \<Rightarrow> cf_port cf | Some p \<Rightarrow> p) \<and> 0 < ns_max_clients r
           \<and> Option.bind (ns_api_key r) (api_keys s') = map_option c_str (cf_api_key cf))
       else e = -1 \<and> out = v \<and> servers s' = servers s \<and> clients s' = clients s \<and> broker_heap s' = broker_heap s
           \<and> (api_keys s' = api_keys s \<longleftrightarrow> \<not> key_lost cf s))"
proof -
  let ?A = "sv_arena s"
  let ?r = "\<lambda>key fd port. \<lparr>ns_broker = cf_broker cf, ns_server_fd = fd, ns_port = port, ns_running = False,
            ns_max_clients = (if 0 < cf_max_clients cf then cf_max_clients cf else 10), ns_detached_subscriptions = NULL,
            ns_detached_mutex = Unlocked, ns_api_key = key, ns_accept_thread = No_Thread\<rparr>"
  have f: "servers s (Suc (ticks ?A)) = None" "api_keys s (Suc (Suc (ticks ?A))) = None" using fresh by (auto simp: subset_iff domIff)
  have port: "0 < (if 0 < cf_max_clients cf then cf_max_clients cf else 10)" by simp
  have ok: "sessions_ok sv Map.empty [] B" for sv by (simp add: sessions_ok_def)
  have drop: "(servers s)(Suc (ticks ?A) := None) = servers s" "(api_keys s)(Suc (Suc (ticks ?A)) := None) = api_keys s"
    using f by (simp_all add: fun_upd_idem)
  have thread: "refused A \<Longrightarrow> \<exists>e. sys_init A = (e, tick A) \<and> e \<noteq> 0" for A by (rule create_thread(2))
  note defs = network_server_new_def malloc_server_def malloc_key_def free_server_def free_key_def created_def key_lost_def Let_def
  show ?thesis
  proof (cases "cf_api_key cf")
    case None
    show ?thesis
    proof (cases "created calls cf s")
      case True
      let ?s' = "s\<lparr>sv_arena := tick (tick ?A), servers := (servers s)(Suc (ticks ?A) \<mapsto>
          ?r NULL (sc_socket calls) (case sc_port calls of None \<Rightarrow> cf_port cf | Some p \<Rightarrow> p))\<rparr>"
      have "network_server_new calls (Some cf) (Some v) s = Some (0, Some (Some (Suc (ticks ?A))), ?s')"
        using True None cf by (auto simp: defs grants_2 split: option.splits)
      moreover have "sv_good ?s' (Suc (ticks ?A)) bk [] B"
        unfolding sv_good_def by (intro conjI sv_repI [where as = "[]"]) (use cf rep empty ok in auto)
      ultimately show ?thesis using True None port by auto
    next
      case False
      have "network_server_new calls (Some cf) (Some v) s = Some (- 1, Some v, s\<lparr>sv_arena := if refused ?A then tick ?A else tick (tick ?A)\<rparr>)"
        using False None cf drop thread [of "tick ?A"]
        by (cases "refused ?A"; cases "refused (tick ?A)"; cases "create_ssl_context calls"; cases "sc_socket calls < 0"; cases "sc_bind calls < 0")
          (auto simp: defs grants_2)
      with False None show ?thesis by (auto simp: key_lost_def)
    qed
  next
    case (Some k)
    show ?thesis
    proof (cases "created calls cf s")
      case True
      let ?s' = "s\<lparr>sv_arena := tick (tick (tick ?A)), servers := (servers s)(Suc (ticks ?A) \<mapsto>
          ?r (Some (Suc (Suc (ticks ?A)))) (sc_socket calls) (case sc_port calls of None \<Rightarrow> cf_port cf | Some p \<Rightarrow> p)),
          api_keys := (api_keys s)(Suc (Suc (ticks ?A)) \<mapsto> c_str k)\<rparr>"
      have "network_server_new calls (Some cf) (Some v) s = Some (0, Some (Some (Suc (ticks ?A))), ?s')"
        using True Some cf by (auto simp: defs grants_3 split: option.splits)
      moreover have "sv_good ?s' (Suc (ticks ?A)) bk [] B"
        unfolding sv_good_def by (intro conjI sv_repI [where as = "[]"]) (use cf rep empty ok in auto)
      ultimately show ?thesis using True Some port by auto
    next
      case False
      have "network_server_new calls (Some cf) (Some v) s = Some (- 1, Some v, s\<lparr>
          sv_arena := if refused ?A then tick ?A else if refused (tick ?A) then tick (tick ?A) else tick (tick (tick ?A)),
          api_keys := (if key_lost cf s then (api_keys s)(Suc (Suc (ticks ?A)) \<mapsto> c_str k) else api_keys s)\<rparr>)"
        using False Some cf drop thread [of "tick (tick ?A)"]
        by (cases "refused ?A"; cases "refused (tick ?A)"; cases "refused (tick (tick ?A))"; cases "create_ssl_context calls"; cases "sc_socket calls < 0"; cases "sc_bind calls < 0")
          (auto simp: defs grants_3)
      moreover have "(api_keys s)(Suc (Suc (ticks ?A)) \<mapsto> c_str k) \<noteq> api_keys s" using f(2) by (metis fun_upd_same option.distinct(1))
      ultimately show ?thesis using False Some by auto
    qed
  qed
qed

text \<open>Freeing the list of detached subscriptions gives each of them back to the broker.\<close>

lemma free_detached_loop_spec:
  assumes "chain (detached_nodes s) p as ds" and "distinct as" and "distinct (map snd ds)" and "br_rep (broker_heap s) bk B"
    and "\<forall>i u. (i, u) \<in> set ds \<longrightarrow> (\<exists>r. ab_subscriptions B u = Some r \<and> sub_active r \<and> sub_id r = i)"
  shows "\<exists>b' B'. free_detached_loop p s = Some (s\<lparr>broker_heap := b', detached_nodes := (detached_nodes s) |` (- set as)\<rparr>)
    \<and> br_rep b' bk B' \<and> ab_subscriptions B' = (ab_subscriptions B) |` (- snd ` set ds)"
  using assms
proof (induction as arbitrary: p ds s B)
  case Nil
  then have p: "p = NULL" "ds = []" by (cases ds; auto)+
  with Nil show ?case
    by (intro exI [of _ "broker_heap s"] exI [of _ B]) (subst free_detached_loop.simps, auto simp: restrict_map_def)
next
  case (Cons a as)
  obtain i u ds' q where d: "ds = (i, u) # ds'" "p = Some a" "detached_nodes s a = Some \<lparr>ds_id = i, ds_subscription = Some u, ds_next = q\<rparr>"
    "chain (detached_nodes s) q as ds'"
    using Cons.prems(1) by (cases ds) auto
  obtain w where w: "ab_subscriptions B u = Some w" "sub_active w" using Cons.prems(5) d(1) by (meson list.set_intros(1))
  obtain b1 b2 B1 where b: "subscription_unsubscribe (Some u) (broker_heap s) = Some (0, b1)" "subscription_free (Some u) b1 = Some (0, b2)"
    "br_rep b2 bk B1" "ab_subscriptions B1 = (ab_subscriptions B)(u := None)"
    using release_spec [OF Cons.prems(4) w] by blast
  define s1 where "s1 = s\<lparr>broker_heap := b2, detached_nodes := (detached_nodes s)(a := None)\<rparr>"
  have ch: "chain (detached_nodes s1) q as ds'" by (rule chain_cong [OF d(4)]) (use Cons.prems(2) in \<open>auto simp: s1_def\<close>)
  have u: "u \<notin> snd ` set ds'" "distinct (map snd ds')" using Cons.prems(3) d(1) by auto
  have subs: "\<exists>r. ab_subscriptions B1 v = Some r \<and> sub_active r \<and> sub_id r = j" if "(j, v) \<in> set ds'" for j v
  proof -
    have "v \<noteq> u" using u(1) that by force
    moreover have "\<exists>r. ab_subscriptions B v = Some r \<and> sub_active r \<and> sub_id r = j" using Cons.prems(5) d(1) that by (meson list.set_intros(2))
    ultimately show ?thesis using b(4) by auto
  qed
  have b1: "br_rep (broker_heap s1) bk B1" and as: "distinct as" using b(3) Cons.prems(2) by (simp_all add: s1_def)
  obtain b' B' where r: "free_detached_loop q s1 = Some (s1\<lparr>broker_heap := b', detached_nodes := (detached_nodes s1) |` (- set as)\<rparr>)"
    "br_rep b' bk B'" "ab_subscriptions B' = (ab_subscriptions B1) |` (- snd ` set ds')"
    using Cons.IH [OF ch as u(2) b1] subs by blast
  have "free_detached_loop p s = free_detached_loop q s1"
    using d(2,3) b(1,2) by (subst free_detached_loop.simps) (simp add: s1_def)
  moreover have "(detached_nodes s1) |` (- set as) = (detached_nodes s) |` (- set (a # as))"
    by (auto simp: s1_def restrict_map_def fun_eq_iff)
  moreover have "ab_subscriptions B' = (ab_subscriptions B) |` (- snd ` set ds)"
    using r(3) b(4) d(1) by (auto simp: restrict_map_def fun_eq_iff)
  ultimately show ?case using r(1,2) by (auto simp: s1_def)
qed

text \<open>Starting and stopping.\<close>

lemma start_spec:
  assumes "servers s sv = Some r" and "0 \<le> listen_result"
  shows "\<exists>e s'. network_server_start listen_result (Some sv) s = Some (e, s') \<and> (if refused (sv_arena s) then e = -1 \<and>
        servers s' = (servers s)(sv \<mapsto> r\<lparr>ns_running := False\<rparr>)
      else e = 0 \<and> servers s' = (servers s)(sv \<mapsto> r\<lparr>ns_running := True, ns_accept_thread := Started\<rparr>))"
  using assms create_thread [of "sv_arena s"] by (cases "refused (sv_arena s)") (auto simp: network_server_start_def)

lemma stop_spec:
  assumes "servers s sv = Some r" and "ns_running r \<longrightarrow> ns_accept_thread r = Started"
  shows "network_server_stop (Some sv) s = Some (0, s\<lparr>servers := (servers s)(sv \<mapsto> (if ns_running r
    then r\<lparr>ns_running := False, ns_server_fd := -1, ns_accept_thread := No_Thread\<rparr> else r))\<rparr>)"
  using assms by (auto simp: network_server_stop_def fun_upd_idem)

text \<open>The server is freed with its key and its detached subscriptions.  The sessions remain, and use what was freed.\<close>

lemma server_free_spec:
  assumes rep: "sv_rep s sv bk ds B" and srv: "servers s sv = Some r" "ns_running r \<longrightarrow> ns_accept_thread r = Started"
  shows "\<exists>s' B'. network_server_free (Some sv) s = Some (0, s') \<and> servers s' = (servers s)(sv := None) \<and> detached_nodes s' = Map.empty
    \<and> api_keys s' = (case ns_api_key r of None \<Rightarrow> api_keys s | Some k \<Rightarrow> (api_keys s)(k := None)) \<and> clients s' = clients s
    \<and> br_rep (broker_heap s') bk B' \<and> ab_subscriptions B' = (ab_subscriptions B) |` (- snd ` set ds)"
proof -
  obtain r' as where R: "servers s sv = Some r'" "ns_broker r' = Some bk" "ns_detached_mutex r' = Unlocked"
    "\<forall>k. ns_api_key r' = Some k \<longrightarrow> api_keys s k \<noteq> None" "chain (detached_nodes s) (ns_detached_subscriptions r') as ds"
    "distinct as" "dom (detached_nodes s) = set as"
    "br_rep (broker_heap s) bk B" "sessions_ok sv (clients s) ds B" by (rule sv_repE [OF rep])
  have r: "r' = r" using R(1) srv(1) by simp
  note D = sessions_okD [OF R(9)]
  define r1 where "r1 = (if ns_running r then r\<lparr>ns_running := False, ns_server_fd := -1, ns_accept_thread := No_Thread\<rparr> else r)"
  define s1 where "s1 = s\<lparr>servers := (servers s)(sv \<mapsto> r1)\<rparr>"
  have r1: "ns_detached_subscriptions r1 = ns_detached_subscriptions r" "ns_detached_mutex r1 = Unlocked" "ns_api_key r1 = ns_api_key r"
    using R(3) r by (simp_all add: r1_def)
  have same: "s\<lparr>servers := (servers s)(sv \<mapsto> r)\<rparr> = s" using srv(1) by (simp add: fun_upd_idem)
  have stop: "(if ns_running r then Option.bind (network_server_stop (Some sv) s) (\<lambda>(_, s). Some s) else Some s) = Some s1"
    using stop_spec [OF srv] same by (auto simp: s1_def r1_def)
  obtain b' B' where l: "free_detached_loop (ns_detached_subscriptions r) s1 = Some (s1\<lparr>broker_heap := b', detached_nodes := (detached_nodes s1) |` (- set as)\<rparr>)"
    "br_rep b' bk B'" "ab_subscriptions B' = (ab_subscriptions B) |` (- snd ` set ds)"
    using free_detached_loop_spec [of s1 "ns_detached_subscriptions r" as ds bk B] R(5,6,8) D(1,2) r by (auto simp: s1_def)
  have nodes: "(detached_nodes s1) |` (- set as) = Map.empty" using R(7) by (auto simp: s1_def restrict_map_def fun_eq_iff domIff)
  let ?s2 = "s1\<lparr>broker_heap := b', detached_nodes := Map.empty\<rparr>"
  let ?keys = "case ns_api_key r of None \<Rightarrow> api_keys s | Some k \<Rightarrow> (api_keys s)(k := None)"
  have key: "free_key (ns_api_key r) ?s2 = Some (?s2\<lparr>api_keys := ?keys\<rparr>)"
    using R(4) r by (auto simp: free_key_def s1_def split: option.splits)
  have "network_server_free (Some sv) s = Some (0, ?s2\<lparr>api_keys := ?keys, servers := (servers s)(sv := None)\<rparr>)"
    using srv(1) stop l(1) nodes r1 key by (simp add: network_server_free_def s1_def free_server_def)
  with l(2,3) show ?thesis by (auto simp: s1_def)
qed

text \<open>Taking an entry out is what \<open>take_out\<close> does to the list.\<close>

lemma sessions_fewer:
  assumes ok: "sessions_ok sv K ds B" and sub: "set ds' \<subseteq> set ds" and dist: "distinct (map snd ds')"
  shows "sessions_ok sv K ds' B"
proof (rule sessions_okI)
  note D = sessions_okD [OF ok]
  show "\<exists>r. ab_subscriptions B u = Some r \<and> sub_active r \<and> sub_id r = i" if "(i, u) \<in> set ds'" for i u using D(1) sub that by blast
  show "cc_server c = Some sv" "cc_receiver_thread c = Started \<longleftrightarrow> cc_subscription c \<noteq> NULL" if "K x = Some c" for x c
    using D(3,4) [OF that] by blast+
  show "\<not> cc_detached c \<and> u \<notin> snd ` set ds' \<and> (\<exists>r. ab_subscriptions B u = Some r \<and> sub_active r)" if "K x = Some c" "cc_subscription c = Some u" for x c u
    using D(5-7) [OF that] sub by blast
  show "x = y" if "K x = Some c" "K y = Some d" "cc_subscription c = Some u" "cc_subscription d = Some u" for x y c d u using D(8) [OF that] .
qed (rule dist)

lemma find_and_remove_take_out:
  assumes rep: "sv_rep s sv bk ds B"
  shows "\<exists>s'. find_and_remove_detached (Some sv) i s = Some (fst (take_out i ds), s') \<and> sv_rep s' sv bk (snd (take_out i ds)) B
    \<and> clients s' = clients s \<and> broker_heap s' = broker_heap s"
proof -
  obtain r as where R: "br_rep (broker_heap s) bk B" "sessions_ok sv (clients s) ds B" by (rule sv_repE [OF rep])
  obtain s' where s': "find_and_remove_detached (Some sv) i s = Some (fst (take_out i ds), s')" "clients s' = clients s" "broker_heap s' = broker_heap s"
    "\<forall>B' K. br_rep (broker_heap s) bk B' \<longrightarrow> sessions_ok sv K (snd (take_out i ds)) B' \<longrightarrow> sv_rep (s'\<lparr>clients := K\<rparr>) sv bk (snd (take_out i ds)) B'"
    using find_and_remove_spec [OF rep, of i] by blast
  have "set (snd (take_out i ds)) \<subseteq> set ds \<and> distinct (map snd (snd (take_out i ds)))"
    using take_out_in [of i ds] take_out_notin [of i ds] sessions_okD(2) [OF R(2)] by (cases "i \<in> fst ` set ds") auto
  then have "sessions_ok sv (clients s') (snd (take_out i ds)) B" using sessions_fewer [OF R(2)] s'(2) by simp
  with s'(4) R(1) have "sv_rep (s'\<lparr>clients := clients s'\<rparr>) sv bk (snd (take_out i ds)) B" by blast
  then have "sv_rep s' sv bk (snd (take_out i ds)) B" by simp
  with s'(1-3) show ?thesis by simp
qed

lemma dangling_session:
  assumes "clients s x = Some c" and "cc_server c = Some sv" and "servers s sv = None"
  shows "client_turn ssl (Some x) s = None"
  using assms by (simp add: client_turn_def)

end
