(* ===== verification/Server_Samples.thy ===== *)
theory Server_Samples
  imports Broker_Samples Server_Runs
begin

text \<open>
  A concrete server on which the theorems are applied.  Its connections are pairs of the bytes that wait to be read and the bytes
  that were written.  Its broker is the sample broker, whose one subscription is held by client 5, or is in the list of
  detached ones.
\<close>

definition wire :: "(string \<times> string) ssl_api" where
  "wire = \<lparr>SSL_read = (\<lambda>(i, out) n. if i = [] then (Inl 0, (i, out)) else (Inr (take (min n 16384) i), (drop (min n 16384) i, out))),
     SSL_write = (\<lambda>(i, out) t. (int (length t), (i, out @ t)))\<rparr>"

lemma wire_line: "length t < n \<Longrightarrow> newline \<notin> set t \<Longrightarrow> take_line wire n (t @ newline # r, out) = (True, t, (r, out))"
proof (induction t arbitrary: n)
  case Nil
  then show ?case by (cases n) (simp_all add: wire_def)
next
  case (Cons c t)
  then show ?case by (cases n) (auto simp: wire_def)
qed

definition sample_client :: "bool \<Rightarrow> string \<Rightarrow> bool \<Rightarrow> (string \<times> string) client_context_t" where
  "sample_client subscribed input auth = \<lparr>cc_server = Some 1, cc_ssl = (input, []), cc_subscription = (if subscribed then Some 1 else NULL),
     cc_receiver_thread = (if subscribed then Started else No_Thread), cc_active = subscribed, cc_detached = False, cc_authenticated = auth\<rparr>"

definition sample_server :: "allocator \<Rightarrow> bool \<Rightarrow> string \<Rightarrow> bool \<Rightarrow> (string \<times> string) server_store" where
  "sample_server A subscribed input auth = \<lparr>
     servers = [1 \<mapsto> \<lparr>ns_broker = Some 14, ns_server_fd = 3, ns_port = 9000, ns_running = True, ns_max_clients = 10,
       ns_detached_subscriptions = (if subscribed then NULL else Some 4), ns_detached_mutex = Unlocked, ns_api_key = Some 2, ns_accept_thread = Started\<rparr>],
     clients = [5 \<mapsto> sample_client subscribed input auth, 6 \<mapsto> sample_client False input auth],
     detached_nodes = (if subscribed then Map.empty else [4 \<mapsto> \<lparr>ds_id = 1, ds_subscription = Some 1, ds_next = NULL\<rparr>]),
     api_keys = [2 \<mapsto> ''secret''], sv_arena = A, broker_heap = sample_broker sample_alloc sample_alloc None\<rparr>"

lemma sample_client_simps [simp]:
  "cc_server (sample_client h i a) = Some 1" "cc_ssl (sample_client h i a) = (i, [])"
  "cc_subscription (sample_client h i a) = (if h then Some 1 else NULL)" "cc_receiver_thread (sample_client h i a) = (if h then Started else No_Thread)"
  "cc_active (sample_client h i a) = h" "\<not> cc_detached (sample_client h i a)" "cc_authenticated (sample_client h i a) = a"
  by (simp_all add: sample_client_def)

lemma sample_server_simps [simp]:
  "clients (sample_server A h i a) = [5 \<mapsto> sample_client h i a, 6 \<mapsto> sample_client False i a]" "sv_arena (sample_server A h i a) = A"
  "broker_heap (sample_server A h i a) = sample_broker sample_alloc sample_alloc None" "api_keys (sample_server A h i a) = [2 \<mapsto> ''secret'']"
  by (simp_all add: sample_server_def)

lemma sample_server_rep [simp]:
  assumes "20 \<le> ticks A"
  shows "sv_rep (sample_server A h i a) 1 14 (if h then [] else [(1, 1)]) (sample_abroker None)"
proof (rule sv_repI [where as = "if h then [] else [4]"])
  show "sessions_ok 1 (clients (sample_server A h i a)) (if h then [] else [(1, 1)]) (sample_abroker None)"
    by (rule sessions_okI) (auto split: if_splits)
qed (use assms in \<open>auto simp: sample_server_def\<close>)

lemma sample_abroker_sendable [simp]: "all_sendable (sample_abroker None)"
  by (auto simp: all_sendable_def sendable_def c_str_def split: if_splits)

lemma sample_server_good [simp]:
  assumes "20 \<le> ticks A"
  shows "sv_good (sample_server A h i a) 1 14 (if h then [] else [(1, 1)]) (sample_abroker None)"
  using sample_server_rep [OF assms] by (simp add: sv_good_def)

lemma sample_ample [simp]: "ample 14 (sample_server sample_alloc h i a)"
proof -
  have "dom (proxies (broker_proxies (sample_broker sample_alloc sample_alloc None))) = {7}"
    by (simp add: sample_broker_def channel_table_heap_def sample_channels_def sample_proxies_def)
  then have "plenty (10 + 3 * card (dom (proxies (broker_proxies (sample_broker sample_alloc sample_alloc None))))) (sample_broker sample_alloc sample_alloc None)"
    by simp
  then show ?thesis by (auto simp: ample_def sample_broker_def split: if_splits)
qed

text \<open>A store without a server.\<close>

definition empty_server :: "(string \<times> string) server_store" where
  "empty_server = \<lparr>servers = Map.empty, clients = Map.empty, detached_nodes = Map.empty, api_keys = Map.empty, sv_arena = sample_alloc,
     broker_heap = sample_broker sample_alloc sample_alloc None\<rparr>"

lemma empty_server_simps [simp]:
  "servers empty_server = Map.empty" "clients empty_server = Map.empty" "detached_nodes empty_server = Map.empty" "api_keys empty_server = Map.empty"
  "sv_arena empty_server = sample_alloc" "broker_heap empty_server = sample_broker sample_alloc sample_alloc None"
  by (simp_all add: empty_server_def)

end
