(* ===== verification/Spec2Isabelle.thy ===== *)
theory Spec2Isabelle
  imports Thread_Pool Broker_Runs Lifecycle_Samples Server_Samples
begin

text \<open>
  A verification development for \<^verbatim>\<open>miez\<close>, an in-memory publish/subscribe message broker written in C.

  \<^bold>\<open>The program.\<close>  The repository builds a message broker on four generic containers:
  \<^item> \<^verbatim>\<open>src/generic_linked_list.c\<close>: a doubly linked list between two guard nodes, with optional
    copy and free callbacks, and iterators on it;
  \<^item> \<^verbatim>\<open>src/generic_queue.c\<close>: a FIFO queue that owns one list, and \<^verbatim>\<open>src/generic_queue_syn.c\<close>, the
    same behind one mutex;
  \<^item> \<^verbatim>\<open>src/generic_hash_table.c\<close>: a table of chained buckets, each a linked list of key/value
    blocks, each with its own mutex;
  \<^item> \<^verbatim>\<open>src/thread_pool.c\<close>: workers that take tasks from a synchronised queue;
  \<^item> \<^verbatim>\<open>src/message_broker.c\<close>: channels in a hash table keyed by name, subscribers of a channel in a
    list, one queue of messages per subscriber; publishing is a task of the pool;
  \<^item> \<^verbatim>\<open>src/network_server.c\<close>: a text protocol on TLS connections, with one session per client, and subscriptions that a
    session can detach and another attach;
  \<^item> \<^verbatim>\<open>src/main.c\<close>, \<^verbatim>\<open>src/network_server_main.c\<close>: programs that start them.

  \<^bold>\<open>The model.\<close>  Theory \<^verbatim>\<open>Prelude\<close> has the machine types, pointers as options, an allocator that may
  refuse any request, and mutexes.  The store is a record of maps from addresses to the
  structs of the program; each component extends the record of the component it calls, so
  that a list operation is the same definition in every component.  A call returns
  \<open>Some (result, heap')\<close>, or \<open>None\<close> if it dereferences a null or dangling pointer, frees twice,
  unlocks a free mutex, stores outside of a buffer, joins a thread twice, destroys what a thread still uses, or does not return.  Callbacks are parameters: functions on the
  client's own state \<open>world\<close>.  Loops are \<open>partial_function (option)\<close>; there is no fuel, and
  that the loops end is part of each theorem whose conclusion is \<open>Some\<close>.

  \<^item> \<^verbatim>\<open>Linked_List\<close>, \<^verbatim>\<open>List_Iterator\<close> model \<^verbatim>\<open>generic_linked_list.c\<close> function by function.  The
    representation relation \<open>ll_rep h M I\<close> says that the heap holds exactly the lists \<open>M\<close>, each a
    well-formed chain between its guards with the size it reports, nothing shared and nothing leaked, and
    that the iterators stand at the positions \<open>I\<close>.
  \<^item> \<^verbatim>\<open>Fifo\<close> is the interface of a queue as a locale, and the abstract queue that a sequence of calls
    refines.  \<^verbatim>\<open>Queue\<close> and \<^verbatim>\<open>Queue_Syn\<close> model \<^verbatim>\<open>generic_queue.c\<close> and \<^verbatim>\<open>generic_queue_syn.c\<close> and
    interpret it.
  \<^item> \<^verbatim>\<open>Dictionary\<close> is the interface of a dictionary as a locale, with the laws the key callbacks must
    satisfy.  \<^verbatim>\<open>Hash_Table\<close> models \<^verbatim>\<open>generic_hash_table.c\<close> and interprets it; inserting a key
    twice shadows the older pair, so that the abstract content of a key is a stack of values.
    \<^verbatim>\<open>Table_Lifecycle\<close> has the constructor and the destructor: what they build and release on
    every outcome of the system calls.
  \<^item> \<^verbatim>\<open>Transitions\<close> is what step relations have in common, as two locales: invariants of runs, and goals that a run can always come closer to.
    The thread pool and the server interpret them.
  \<^item> \<^verbatim>\<open>Thread_Pool\<close> models \<^verbatim>\<open>thread_pool.c\<close> as a step relation: dispatchers and any number of client
    threads, interleaved one access to shared state at a time.  The invariant of its reachable states is
    mutual exclusion, the balance of tasks, the flags and the absence of lost wake-ups; a shutdown can always come to its end, each dispatcher joined once.  \<^verbatim>\<open>Pool_Lifecycle\<close> has the creation and
    the release of a pool over the blocks it owns and the dispatchers it creates, which run until they are told to leave and are joined, and \<^verbatim>\<open>Pool_Specs\<close> what they do on every outcome of the system calls.
  \<^item> \<^verbatim>\<open>Broker_Strings\<close> models the key and value callbacks of the broker's channel table.
  \<^item> \<^verbatim>\<open>Subscriber\<close>, \<^verbatim>\<open>Channel\<close> and \<^verbatim>\<open>Broker\<close> model \<^verbatim>\<open>message_broker.c\<close> from the inside out: messages and the proxies
    whose inboxes are synchronised queues of messages; channels with their lists of proxies, the delivery of a
    publication and the removal of a subscriber; the broker with its table of channels and its interface.  The state is layered
    as the ownership is, each store being the \<open>world\<close> on which the callbacks of the container around it act.
    \<open>br_rep b bk B\<close> says that the store holds the broker \<open>B\<close>: who is a member of which channel, what is in which inbox,
    which publications wait.  \<^verbatim>\<open>Broker_Specs\<close> shows what each function does to it.
    \<^verbatim>\<open>Broker_Runs\<close> has the runs in which the calls of publishers and subscribers and the deliveries of the pool follow each other, a subscriber receiving as the threads of
    \<^verbatim>\<open>main.c\<close> do, and shows that every subscriber gets every message exactly once and in order.
    \<^verbatim>\<open>Broker_Lifecycle\<close> has the creation of a broker from a pool and a table, its release, and waiting.
  \<^item> \<^verbatim>\<open>Protocol\<close> models the functions of the C library with which the server reads a command and writes a number;
    \<^verbatim>\<open>Network_Server\<close> models \<^verbatim>\<open>network_server.c\<close> on top of the broker: the list of detached subscriptions, the
    handlers of the commands, one turn of each of its threads, and the life cycle.  A connection has a state of an arbitrary type, and
    \<open>SSL_read\<close> and \<open>SSL_write\<close> are parameters that act on it.  \<open>sv_rep s sv bk ds B\<close> says that the store holds the server \<open>sv\<close> with the detached
    subscriptions \<open>ds\<close>, consistent sessions, and the broker \<open>B\<close>.  \<^verbatim>\<open>Server_Specs\<close> shows what each handler does;
    \<^verbatim>\<open>Server_Runs\<close> has the step relation in which the threads take turns, its invariant, and the life cycle.  The buffers into which the server reads are
    arrays of bytes.
  \<^item> \<^verbatim>\<open>Samples\<close>, \<^verbatim>\<open>Broker_Samples\<close>, \<^verbatim>\<open>Lifecycle_Samples\<close> and \<^verbatim>\<open>Server_Samples\<close> have the concrete heaps on which the theorems are applied.

  \<^bold>\<open>What is shown.\<close>  The properties below are numbered by their claim id.  They state, for every
  heap that satisfies the representation relation, the result of each operation on every branch (success,
  empty container, refused allocation, failing callback), the content afterwards, and that the
  relation holds again: pointers stay well-formed, counters do not wrap, no block is
  leaked or freed twice, every mutex is given back.  The exception is an insertion into a hash table for
  which the list node cannot be allocated: the code returns with the bucket locked, and in the broker with the
  channel freed that its caller frees again.

  For the server they state that every state its threads can reach is consistent and that no turn from it has undefined behaviour, whatever the clients
  send, as long as each turn finds the memory it asks for and identities do not run out; that nothing but a connection changes before authentication; that what is detached can be attached; and
  where the code falls short: an exhausted memory during \<^verbatim>\<open>DETACH\<close>, a failed creation, and a release with clients connected.

  \<^bold>\<open>Bounds.\<close>  \<open>size_t\<close> is a 64-bit word.  At most \<open>2 ^ 64 - 1\<close> blocks exist (\<open>block_limit\<close>), which is why the
  counters of elements do not wrap; the allocator refuses any request beyond.

  \<^bold>\<open>What is not modelled.\<close>  Printing and debug logging, which changes no state, wherever it is compiled in; freeing of uninitialised
  pointers is excluded by construction, as a fresh block is filled with null fields and no
  function of the modelled files reads a field before writing it.  Each call runs alone: the heap is
  passed from call to call, and blocking on a held mutex is the result \<open>None\<close>.  The interleaving of threads is modelled where the code
  is about it: inside the thread pool, access by access, and in the runs of the broker and of the server, turn by turn.  But for the receiving loop of \<^verbatim>\<open>main.c\<close>, the programs \<^verbatim>\<open>main.c\<close> and \<^verbatim>\<open>network_server_main.c\<close>
  are command-line entry points with printing and signal handlers; the headers only declare what the modelled files define.
\<close>

section \<open>The containers as their interfaces promise\<close>

text \<open>C1: for every sequence of enqueues and dequeues, the queue on the heap returns the values that
  an abstract FIFO queue returns, and ends with its content, as long as the requests for nodes are granted.\<close>

theorem queue_ops_refine_fifo:
  assumes "q_rep h Q" and "Q q = Some L" and "al_copy L = NULL" and "grants (enqueues ops) (arena h)"
  shows "\<exists>h'. run_ops generic_queue_enqueue generic_queue_dequeue (Some q) ops h
      = Some (fst (spec_ops ops (al_items L)), h')
    \<and> q_rep h' (Q(q \<mapsto> L\<lparr>al_items := snd (spec_ops ops (al_items L))\<rparr>)) \<and> world h' = world h"
  using assms by (rule gq.run_ops_refines)

theorem queue_ops_refine_fifo_witness:
  "\<exists>h'. run_ops generic_queue_enqueue generic_queue_dequeue (Some 8) [Deq, Enq (Some 30), Deq, Deq, Deq] (sample_queue sample_alloc)
    = Some ([Some 10, Some 20, Some 30, NULL], h')"
  using queue_ops_refine_fifo [of "sample_queue sample_alloc" "[8 \<mapsto> sample_content]" 8 sample_content
      "[Deq, Enq (Some 30), Deq, Deq, Deq]"]
  by auto



text \<open>C3: a lookup after an insertion returns the value just stored if the keys compare equal, and
  what it would have returned before otherwise.\<close>

theorem table_lookup_after_insert:
  assumes "ht_rep h T" and "T t = Some A" and "at_lawful A" and "key \<noteq> NULL" and "key' \<noteq> NULL"
    and "grants 3 (arena h)" and "at_copies A key val (world h) = Some (v', w)"
  shows "\<exists>h1 h2. generic_hash_table_insert (Some t) key val h = Some (0, h1)
    \<and> generic_hash_table_get (Some t) key' (Some x) h1
      = Some (if at_compare A key' key = 0 then (0, Some v', h2)
              else case ht_stack A key' of [] \<Rightarrow> (1, Some NULL, h2) | u # _ \<Rightarrow> (0, Some u, h2))"
  using ht.lookup_insert [OF assms, of x] by (simp add: at_same_def)

theorem table_lookup_after_insert_witness:
  "\<exists>h1 h2. generic_hash_table_insert (Some 11) (Some ''sport'') (Some 7) (sample_table sample_alloc) = Some (0, h1)
    \<and> generic_hash_table_get (Some 11) (Some ''news'') (Some NULL) h1 = Some (0, Some (Some 42), h2)"
proof -
  have "at_copies sample_atable (Some ''sport'') (Some 7) sample_alloc = Some (Some 7, tick sample_alloc)"
    by (simp add: at_copies_def string_copy_def channel_copy_def)
  moreover have "at_compare sample_atable (Some ''news'') (Some ''sport'') \<noteq> 0"
    by (simp add: string_compare_def)
  ultimately show ?thesis
    using table_lookup_after_insert [of "sample_table sample_alloc" "[11 \<mapsto> sample_atable]" 11 sample_atable
      "Some ''sport''" "Some ''news''" "Some 7" "Some 7" "tick sample_alloc" NULL]
    by simp
qed

text \<open>C4: deleting a key right after it was inserted restores the result of every lookup.\<close>

theorem table_delete_undoes_insert:
  assumes "ht_rep h T" and "T t = Some A" and "at_lawful A" and "key \<noteq> NULL" and "key' \<noteq> NULL"
    and "grants 4 (arena h)" and "at_copies A key val (world h) = Some (v', w)"
  shows "\<exists>h1 h2 h3. generic_hash_table_insert (Some t) key val h = Some (0, h1)
    \<and> generic_hash_table_delete (Some t) key h1 = Some (0, h2)
    \<and> generic_hash_table_get (Some t) key' (Some x) h2
      = Some (case ht_stack A key' of [] \<Rightarrow> (1, Some NULL, h3) | u # _ \<Rightarrow> (0, Some u, h3))"
  using assms by (rule ht.delete_insert)

theorem table_delete_undoes_insert_witness:
  "\<exists>h1 h2 h3. generic_hash_table_insert (Some 11) (Some ''news'') (Some 7) (sample_table sample_alloc) = Some (0, h1)
    \<and> generic_hash_table_delete (Some 11) (Some ''news'') h1 = Some (0, h2)
    \<and> generic_hash_table_get (Some 11) (Some ''news'') (Some NULL) h2 = Some (0, Some (Some 42), h3)"
proof -
  have "at_copies sample_atable (Some ''news'') (Some 7) sample_alloc = Some (Some 7, tick sample_alloc)"
    by (simp add: at_copies_def string_copy_def channel_copy_def)
  then show ?thesis
    using table_delete_undoes_insert [of "sample_table sample_alloc" "[11 \<mapsto> sample_atable]" 11 sample_atable
      "Some ''news''" "Some ''news''" "Some 7" "Some 7" "tick sample_alloc" NULL]
    by simp
qed

text \<open>C5: an insertion for which the list node cannot be allocated returns -1 with the mutex of the
  bucket still locked: from then on no lookup, membership test or deletion of a key of that
  bucket returns.\<close>

theorem table_insert_oom_deadlock:
  assumes "ht_rep h T" and "T t = Some A" and "\<not> refused (arena h)" and "refused (tick (arena h))"
    and "key \<noteq> NULL" and "at_copy_key A key (world h) = Some (0, k', w1)"
    and "at_copy_value A val w1 = Some (0, v', w2)"
    and "at_free_value A v' w2 = Some w3" and "at_free_key A k' w3 = Some w4"
    and "key' \<noteq> NULL" and "ht_index A key' = ht_index A key"
  shows "\<exists>h'. generic_hash_table_insert (Some t) key val h = Some (-1, h')
    \<and> generic_hash_table_get (Some t) key' (Some x) h' = None
    \<and> generic_hash_table_contains (Some t) key' h' = None
    \<and> generic_hash_table_delete (Some t) key' h' = None"
  using assms by (rule ht_insert_keeps_lock)

theorem table_insert_oom_deadlock_witness:
  "\<exists>h'. generic_hash_table_insert (Some 11) (Some ''sport'') (Some 7) (sample_table (failing_from 1)) = Some (-1, h')
    \<and> generic_hash_table_get (Some 11) (Some ''news'') (Some NULL) h' = None
    \<and> generic_hash_table_contains (Some 11) (Some ''news'') h' = None
    \<and> generic_hash_table_delete (Some 11) (Some ''news'') h' = None"
  by (rule table_insert_oom_deadlock [of _ "[11 \<mapsto> sample_atable]" 11 sample_atable "Some ''sport''" "Some ''sport''"
        "tick sample_alloc" "Some 7" "Some 7" "tick sample_alloc" "tick sample_alloc" "tick sample_alloc"])
    (simp_all add: string_copy_def channel_copy_def string_free_def ht_index_def c_str_def)

section \<open>Runs of the broker\<close>



section \<open>The message broker\<close>

text \<open>C7: what is published on a channel is what a subscriber of the channel receives: with no other publication pending and an
  empty inbox, publishing, the run of the publication by the pool and a receive all succeed, and the message received has the
  identity that the broker drew, the name of the channel and the content, each up to its terminator.\<close>

theorem broker_publish_receive_roundtrip:
  assumes "br_rep b bk B" and "ab_subscriptions B u = Some s" and "sub_active s" and "sub_proxy s = Some p"
    and "sub_channel_name s = Some name" and "c_str channel = c_str name" and "ab_proxies B p = Some Y" and "ax_msgs Y = []"
    and "ab_tasks B = []" and "\<not> ab_off B" and "plenty (9 + 3 * length (members B channel)) b"
  shows "\<exists>b1 b2 b3 m. message_broker_publish (Some bk) (Some channel) (Some content) b = Some (0, b1)
    \<and> dispatch (Some bk) b1 = Some b2 \<and> subscription_receive (Some u) (Some v) b2 = Some (0, Some (Some m), b3)
    \<and> message_get_id (Some m) (Some i) (message_heap (broker_proxies b3)) = Some (0, Some (ab_next_message B))
    \<and> message_get_channel (Some m) (Some c) (message_heap (broker_proxies b3)) = Some (0, Some (Some (c_str channel)))
    \<and> message_get_content (Some m) (Some d) (message_heap (broker_proxies b3)) = Some (0, Some (Some (c_str content)))"
  using assms by (rule publish_receive)

theorem broker_publish_receive_roundtrip_witness:
  "\<exists>b b1 b2 b3 m0 m. subscription_receive (Some 1) (Some NULL) (sample_broker sample_alloc sample_alloc None) = Some (0, Some (Some m0), b)
    \<and> message_broker_publish (Some 14) (Some ''news'') (Some ''rain'') b = Some (0, b1)
    \<and> dispatch (Some 14) b1 = Some b2 \<and> subscription_receive (Some 1) (Some NULL) b2 = Some (0, Some (Some m), b3)
    \<and> message_get_content (Some m) (Some NULL) (message_heap (broker_proxies b3)) = Some (0, Some (Some ''rain''))"
proof -
  obtain m0 b where b: "subscription_receive (Some 1) (Some NULL) (sample_broker sample_alloc sample_alloc None) = Some (0, Some (Some m0), b)"
    "br_rep b 14 (empty_abroker m0)" "plenty 100 b" by (rule sample_received)
  have "plenty (9 + 3 * length (members (empty_abroker m0) ''news'')) b" by (rule plenty_mono [OF b(3)]) simp
  from broker_publish_receive_roundtrip [OF b(2) _ _ _ _ _ _ _ _ _ this, of 1 sample_subscription 7 "''news''" _ "''rain''" NULL 0 NULL NULL]
  show ?thesis using b(1) by (auto simp: c_str_def)
qed

text \<open>C8: a publication is queued behind those already pending, with the next message identity, or it is refused, because the
  pool is off or an allocation fails; then the call reports an error and nothing is left behind but an identity that was skipped.\<close>

theorem broker_publish_queued_or_refused:
  assumes "br_rep b bk B"
  shows "\<exists>e b' n. message_broker_publish (Some bk) (Some c) (Some s) b = Some (e, b') \<and> table_heap b' = table_heap b
    \<and> (if \<not> ab_off B \<and> grants 5 (br_arena b)
       then e = 0 \<and> br_rep b' bk (B\<lparr>ab_tasks := ab_tasks B @ [\<lparr>pub_id = ab_next_message B, pub_channel = c_str c, pub_content = c_str s\<rparr>],
          ab_next_message := ab_next_message B + 1\<rparr>)
       else e \<noteq> 0 \<and> br_rep b' bk (B\<lparr>ab_next_message := n\<rparr>))"
proof (cases "\<not> ab_off B \<and> grants 5 (br_arena b)")
  case True
  then show ?thesis using publish_spec [OF assms, of c s] by auto
next
  case False
  then show ?thesis using publish_refused [OF assms, of c s] by auto
qed

theorem broker_publish_queued_or_refused_witness:
  "\<exists>b' n. message_broker_publish (Some 14) (Some ''news'') (Some ''rain'') (sample_broker (failing_from 0) sample_alloc None) = Some (-1, b')
    \<and> br_rep b' 14 ((sample_abroker None)\<lparr>ab_next_message := n\<rparr>)"
  using broker_publish_queued_or_refused [of "sample_broker (failing_from 0) sample_alloc None" 14 "sample_abroker None" "''news''" "''rain''"]
  by (auto simp: message_broker_publish_def)

text \<open>C9: when the pool runs the oldest publication, every active subscriber of its channel finds one copy of the message at the end
  of its inbox; no other inbox changes, the membership of every channel stays as it was, and the publication is gone from the
  pool.  Afterwards the channel of that name is in the table: the one that was there, or, if there was none, a new one of that name without members; every
  other channel is found as before.\<close>

theorem broker_dispatch_delivers:
  assumes "br_rep b bk B" and "ab_tasks B = p # ps" and "plenty (4 + 3 * length (members B (pub_channel p))) b"
  shows "\<exists>b' B'. dispatch (Some bk) b = Some b' \<and> br_rep b' bk B' \<and> (\<forall>n. members B' n = members B n)
    \<and> (\<forall>q. ab_proxies B' q = map_option (\<lambda>Y. if q \<in> set (members B (pub_channel p)) \<and> ax_active Y
         then Y\<lparr>ax_msgs := ax_msgs Y @ [\<lparr>msg_id = pub_id p, msg_channel_name = Some (c_str (pub_channel p)), msg_content = Some (c_str (pub_content p))\<rparr>]\<rparr>
         else Y) (ab_proxies B q))
    \<and> ab_held B' = ab_held B \<and> ab_subscriptions B' = ab_subscriptions B \<and> ab_tasks B' = ps
    \<and> (\<exists>c. (\<forall>n. find_channel (ab_table B') n = (if c_str n = c_str (pub_channel p) then Some c else find_channel (ab_table B) n))
         \<and> (case find_channel (ab_table B) (pub_channel p) of
              NULL \<Rightarrow> ab_channels B c = None \<and> ab_channels B' = (ab_channels B)(c \<mapsto> \<lparr>ac_name = c_str (pub_channel p), ac_proxies = []\<rparr>)
            | Some d \<Rightarrow> d = c \<and> ab_channels B' = ab_channels B))"
proof -
  let ?m = "new_message (pub_id p) (pub_channel p) (pub_content p)"
  obtain b' B' where D: "dispatch (Some bk) b = Some b'" "br_rep b' bk B'" "\<forall>n. members B' n = members B n"
    "ab_proxies B' = delivered ?m (set (members B (pub_channel p))) (ab_proxies B)"
    "ab_held B' = ab_held B" "ab_subscriptions B' = ab_subscriptions B" "ab_tasks B' = ps"
    "channel_opened (ab_table B) (ab_channels B) (pub_channel p) (ab_table B') (ab_channels B')"
    using dispatch_spec [OF assms] by blast
  have "ab_proxies B' q = map_option (\<lambda>Y. if q \<in> set (members B (pub_channel p)) \<and> ax_active Y then Y\<lparr>ax_msgs := ax_msgs Y @ [?m]\<rparr> else Y)
      (ab_proxies B q)" for q
    unfolding D(4) by (cases "ab_proxies B q") (simp_all add: delivered_def)
  with D show ?thesis unfolding channel_opened_def by blast
qed

theorem broker_dispatch_delivers_witness:
  "\<exists>b' B'. dispatch (Some 14) (sample_broker sample_alloc sample_alloc (Some \<lparr>pub_id = 8, pub_channel = ''news'', pub_content = ''rain''\<rparr>)) = Some b'
    \<and> br_rep b' 14 B' \<and> ab_proxies B' 7 = Some \<lparr>ax_id = 1, ax_active = True,
      ax_msgs = [hello, \<lparr>msg_id = 8, msg_channel_name = Some ''news'', msg_content = Some ''rain''\<rparr>]\<rparr>"
  using broker_dispatch_delivers [of "sample_broker sample_alloc sample_alloc (Some \<lparr>pub_id = 8, pub_channel = ''news'', pub_content = ''rain''\<rparr>)" 14
      "sample_abroker (Some \<lparr>pub_id = 8, pub_channel = ''news'', pub_content = ''rain''\<rparr>)"]
  by (auto simp: c_str_def dest!: spec [of _ 7])

text \<open>C10: a subscription returns a new handle whose proxy is new, active, with an empty inbox and an identity that no other proxy has, and
  is the last member of the channel of that name, which is created if need be; everybody else's membership and inbox are as
  before.\<close>

theorem broker_subscribe_correct:
  assumes "br_rep b bk B" and "plenty 10 b" and "ab_next_subscriber B \<noteq> - 1"
  shows "\<exists>u p b' B'. message_broker_subscribe (Some bk) (Some name) (Some v) b = Some (0, Some (Some u), b') \<and> br_rep b' bk B'
    \<and> ab_subscriptions B u = None \<and> ab_proxies B p = None
    \<and> ab_subscriptions B' = (ab_subscriptions B)(u \<mapsto> \<lparr>sub_id = ab_next_subscriber B, sub_channel_name = Some (c_str name),
         sub_broker = Some bk, sub_proxy = Some p, sub_active = True\<rparr>)
    \<and> ab_proxies B' = (ab_proxies B)(p \<mapsto> \<lparr>ax_id = ab_next_subscriber B, ax_active = True, ax_msgs = []\<rparr>)
    \<and> (\<forall>n. members B' n = members B n @ (if c_str n = c_str name then [p] else []))
    \<and> (\<forall>q Z. ab_proxies B q = Some Z \<longrightarrow> ax_id Z \<noteq> ab_next_subscriber B)
    \<and> ab_held B' = ab_held B \<and> ab_tasks B' = ab_tasks B \<and> ab_next_subscriber B' = ab_next_subscriber B + 1"
proof -
  have "\<forall>q Z. ab_proxies B q = Some Z \<longrightarrow> ax_id Z \<noteq> ab_next_subscriber B"
    using br_invD(1) [OF br_rep_px(3) [OF assms(1)]] by fastforce
  with subscribe_spec [OF assms, of name v] show ?thesis by blast
qed

theorem broker_subscribe_correct_witness:
  "\<exists>u p b' B'. message_broker_subscribe (Some 14) (Some ''news'') (Some NULL) (sample_broker sample_alloc sample_alloc None) = Some (0, Some (Some u), b')
    \<and> br_rep b' 14 B' \<and> members B' ''news'' = [7, p] \<and> p \<noteq> 7"
  using broker_subscribe_correct [of "sample_broker sample_alloc sample_alloc None" 14 "sample_abroker None" "''news''" NULL]
  by (auto split: if_splits dest!: spec [of _ "''news''"]) blast

text \<open>C11: an active subscription receives the messages of its inbox in the order of their delivery: both receive functions hand over the
  oldest one, which then belongs to the caller, and leave the rest.  With an empty inbox \<open>subscription_try_receive\<close> returns 1 and no
  message, while \<open>subscription_receive\<close> waits.\<close>

theorem broker_receive_fifo:
  assumes "br_rep b bk B" and "ab_subscriptions B u = Some s" and "sub_active s" and "sub_proxy s = Some p" and "ab_proxies B p = Some Y"
  shows "\<exists>m b'. (case ax_msgs Y of
      [] \<Rightarrow> subscription_try_receive (Some u) (Some v) b = Some (1, Some NULL, b') \<and> subscription_receive (Some u) (Some v) b = None \<and> br_rep b' bk B
    | a # as \<Rightarrow> subscription_try_receive (Some u) (Some v) b = Some (0, Some (Some m), b')
        \<and> subscription_receive (Some u) (Some v) b = Some (0, Some (Some m), b') \<and> ab_held B m = None
        \<and> br_rep b' bk (B\<lparr>ab_proxies := (ab_proxies B)(p \<mapsto> Y\<lparr>ax_msgs := as\<rparr>), ab_held := (ab_held B)(m \<mapsto> a)\<rparr>))"
proof -
  have act: "ax_active Y" using br_invD(3) [OF br_rep_px(3) [OF assms(1)] assms(2,3)] assms(4,5) by auto
  show ?thesis
  proof (cases "ax_msgs Y")
    case Nil
    with receive_empty [OF assms act Nil, of v] show ?thesis by simp
  next
    case (Cons a as)
    from receive_spec [OF assms act Cons, of v] show ?thesis unfolding Cons list.case by blast
  qed
qed

theorem broker_receive_fifo_witness:
  "\<exists>m b'. subscription_try_receive (Some 1) (Some NULL) (sample_broker sample_alloc sample_alloc None) = Some (0, Some (Some m), b')
    \<and> br_rep b' 14 ((sample_abroker None)\<lparr>ab_proxies := [7 \<mapsto> \<lparr>ax_id = 1, ax_active = True, ax_msgs = []\<rparr>], ab_held := [m \<mapsto> hello]\<rparr>)"
  using broker_receive_fifo [of "sample_broker sample_alloc sample_alloc None" 14 "sample_abroker None" 1 sample_subscription 7
      "\<lparr>ax_id = 1, ax_active = True, ax_msgs = [hello]\<rparr>" NULL]
  by auto

text \<open>C12: after \<open>subscription_unsubscribe\<close> the subscription is inactive, a second call is refused, and its proxy has been taken out of
  its channel and freed with what was in its inbox; all other subscribers stay.  When the memory for the lookup or for the walk over
  the subscribers is refused, the proxy stays in the channel but is inactive, so that nothing is delivered to it.\<close>

theorem broker_unsubscribe_correct:
  assumes "br_rep b bk B" and "ab_subscriptions B u = Some s" and "sub_active s"
  shows "\<exists>b' B' p Y. subscription_unsubscribe (Some u) b = Some (0, b') \<and> br_rep b' bk B' \<and> subscription_unsubscribe (Some u) b' = Some (1, b')
    \<and> sub_proxy s = Some p \<and> ab_proxies B p = Some Y
    \<and> ab_subscriptions B' = (ab_subscriptions B)(u \<mapsto> s\<lparr>sub_active := False, sub_proxy := NULL\<rparr>)
    \<and> (if refused (arena (table_heap b)) \<or> refused (arena (subscribers (channel_heap b)))
       then ab_proxies B' = (ab_proxies B)(p \<mapsto> Y\<lparr>ax_active := False\<rparr>) \<and> (\<forall>n. members B' n = members B n)
       else ab_proxies B' = (ab_proxies B)(p := None) \<and> (\<forall>n. members B' n = removeAll p (members B n)))
    \<and> ab_held B' = ab_held B \<and> ab_tasks B' = ab_tasks B"
proof -
  obtain b' B' p Y where U: "subscription_unsubscribe (Some u) b = Some (0, b')" "br_rep b' bk B'" "sub_proxy s = Some p" "ab_proxies B p = Some Y"
    "ab_subscriptions B' = (ab_subscriptions B)(u \<mapsto> s\<lparr>sub_active := False, sub_proxy := NULL\<rparr>)"
    "if refused (arena (table_heap b)) \<or> refused (arena (subscribers (channel_heap b)))
       then ab_proxies B' = (ab_proxies B)(p \<mapsto> Y\<lparr>ax_active := False\<rparr>) \<and> (\<forall>n. members B' n = members B n)
       else ab_proxies B' = (ab_proxies B)(p := None) \<and> (\<forall>n. members B' n = removeAll p (members B n))"
    "ab_held B' = ab_held B" "ab_tasks B' = ab_tasks B"
    using unsubscribe_spec [OF assms] by blast
  have "subscription_unsubscribe (Some u) b' = Some (1, b')"
    using br_rep_px(2) [OF U(2)] U(5) by (simp add: subscription_unsubscribe_def)
  with U show ?thesis by blast
qed

theorem broker_unsubscribe_correct_witness:
  "\<exists>b' B'. subscription_unsubscribe (Some 1) (sample_broker sample_alloc sample_alloc None) = Some (0, b') \<and> br_rep b' 14 B'
    \<and> ab_proxies B' = Map.empty \<and> members B' ''news'' = []"
  using broker_unsubscribe_correct [of "sample_broker sample_alloc sample_alloc None" 14 "sample_abroker None" 1 sample_subscription]
  by (auto dest!: spec [of _ "''news''"])

text \<open>C13: when a channel has to be created and the table gets no memory for its node, the table has freed the channel before it reports
  the error, and the caller, \<open>message_broker_subscribe\<close> or the task of a publication, frees it again: neither has a result.\<close>

theorem broker_oom_double_free:
  assumes "br_rep b bk B" and "find_channel (ab_table B) name = NULL"
    and "\<not> refused (arena (table_heap b))" and "\<not> refused (tick (arena (table_heap b)))" and "refused (tick (tick (arena (table_heap b))))"
    and "grants 4 (ch_arena (channel_heap b))" and "grants 3 (arena (subscribers (channel_heap b)))"
  shows "message_broker_subscribe (Some bk) (Some name) (Some v) b = None
    \<and> (\<forall>p ps. ab_tasks B = p # ps \<and> pub_channel p = name \<longrightarrow> dispatch (Some bk) b = None)"
  using subscribe_double_free [OF assms] publish_double_free [OF assms(1) _ _ assms(3-7)] assms(2) by auto

theorem broker_oom_double_free_witness:
  "message_broker_subscribe (Some 14) (Some ''sport'') (Some NULL) (sample_broker sample_alloc (failing_from 2)
      (Some \<lparr>pub_id = 8, pub_channel = ''sport'', pub_content = ''goal''\<rparr>)) = None
    \<and> dispatch (Some 14) (sample_broker sample_alloc (failing_from 2) (Some \<lparr>pub_id = 8, pub_channel = ''sport'', pub_content = ''goal''\<rparr>)) = None"
  using broker_oom_double_free [of "sample_broker sample_alloc (failing_from 2) (Some \<lparr>pub_id = 8, pub_channel = ''sport'', pub_content = ''goal''\<rparr>)" 14
      "sample_abroker (Some \<lparr>pub_id = 8, pub_channel = ''sport'', pub_content = ''goal''\<rparr>)" "''sport''" NULL]
  by (simp add: find_news)

text \<open>C14: when the lookup of the channel of a publication gets no memory, the failure is taken for the absence of the channel: the
  publication reaches nobody, and a lookup of the name then finds a new channel without members, whatever subscribers the old one has.\<close>

theorem broker_oom_hides_channel:
  assumes "br_rep b bk B" and "ab_tasks B = p # ps"
    and "refused (arena (table_heap b))" and "grants 2 (tick (arena (table_heap b)))" and "grants 4 (ch_arena (channel_heap b))"
    and "grants 3 (arena (subscribers (channel_heap b)))"
  shows "\<exists>b' t A C. dispatch (Some bk) b = Some b' \<and> tb_rep (table_heap b') t A C (ab_proxies B) (ab_held B)
    \<and> members_of A C (pub_channel p) = []"
  using assms by (rule publish_shadows)

theorem broker_oom_hides_channel_witness:
  "\<exists>b' t A C. dispatch (Some 14) (sample_broker sample_alloc failing_once (Some \<lparr>pub_id = 8, pub_channel = ''news'', pub_content = ''rain''\<rparr>)) = Some b'
    \<and> tb_rep (table_heap b') t A C [7 \<mapsto> \<lparr>ax_id = 1, ax_active = True, ax_msgs = [hello]\<rparr>] Map.empty \<and> members_of A C ''news'' = []"
  using broker_oom_hides_channel [of "sample_broker sample_alloc failing_once (Some \<lparr>pub_id = 8, pub_channel = ''news'', pub_content = ''rain''\<rparr>)" 14
      "sample_abroker (Some \<lparr>pub_id = 8, pub_channel = ''news'', pub_content = ''rain''\<rparr>)" "\<lparr>pub_id = 8, pub_channel = ''news'', pub_content = ''rain''\<rparr>"]
  by simp

section \<open>Creation and release of the broker\<close>





section \<open>The network server\<close>

text \<open>C17: whatever the clients send, and in whatever order the thread that accepts connections, the threads of the clients, the receivers and the
  pool take their turns, as long as each turn began with memory for what it asks for and with a subscriber identity left, the state the server has reached is
  consistent: each active subscription that a session holds belongs to that session alone, a receiver
  runs for exactly the sessions that hold a subscription, the detached ones form a proper list, and the mutex is free.
  In such a state, with memory for one more turn, no turn has undefined behaviour: no dangling pointer, no second join of a thread, no store outside of a buffer, no
  message that does not fit its block.\<close>

theorem server_runs_safe:
  assumes "sv_good s0 sv bk ds0 B0" and "server_reach ssl sv bk s0 ss s" and "\<forall>t \<in> set ss. ample bk t"
  shows "(\<exists>ds B. sv_rep s sv bk ds B \<and> all_sendable B)
    \<and> (ample bk s \<longrightarrow> accept_turn fd hs conn (Some sv) s \<noteq> None \<and> dispatch (Some bk) (broker_heap s) \<noteq> None
        \<and> (\<forall>x c. clients s x = Some c \<longrightarrow> client_turn ssl (Some x) s \<noteq> None \<and> client_cleanup (Some x) s \<noteq> None
             \<and> (cc_receiver_thread c = Started \<longrightarrow> receiver_turn ssl (Some x) s \<noteq> None)))"
proof -
  obtain ds B where good: "sv_good s sv bk ds B" using reach_good [OF assms(2,3,1)] by blast
  then show ?thesis using turns_defined [OF good] by (auto simp: sv_good_def)
qed

theorem server_runs_safe_witness:
  "\<exists>run s'. client_turn wire (Some 5) (sample_server sample_alloc True (''DETACH'' @ [newline]) True) = Some (run, s')
    \<and> server_reach wire 1 14 (sample_server sample_alloc True (''DETACH'' @ [newline]) True) [sample_server sample_alloc True (''DETACH'' @ [newline]) True] s'
    \<and> (\<exists>ds B. sv_rep s' 1 14 ds B)"
proof -
  let ?s = "sample_server sample_alloc True (''DETACH'' @ [newline]) True"
  have good: "sv_good ?s 1 14 [] (sample_abroker None)" using sample_server_good [of sample_alloc True] by simp
  have r0: "server_reach wire 1 14 ?s [] ?s" by (rule server_reach.start)
  have "client_turn wire (Some 5) ?s \<noteq> None"
    using server_runs_safe [OF good r0, of 0 0 "([], [])"] by (auto dest!: spec [of _ 5])
  then obtain run s' where s': "client_turn wire (Some 5) ?s = Some (run, s')" by auto
  have r1: "server_reach wire 1 14 ?s [?s] s'" using server_reach.turn [OF r0 server_step.command [OF s']] by simp
  moreover have "\<forall>t \<in> set [?s]. ample 14 t" using sample_ample by simp
  from server_runs_safe [OF good r1 this, of 0 0 "([], [])"] have "\<exists>ds B. sv_rep s' 1 14 ds B" by blast
  ultimately show ?thesis using s' by blast
qed

text \<open>C18: a client that has not authenticated and does not send the key changes nothing but its own connection: no line it sends touches the broker,
  the sessions, the detached subscriptions or the allocator.\<close>

theorem server_auth_required:
  assumes "clients s x = Some c" and "cc_server c = Some sv" and "\<not> cc_authenticated c" and "servers s sv = Some r"
    and "ns_api_key r = Some a" and "api_keys s a = Some key"
    and "\<forall>n channel len. sscanf_command line = (n, ''AUTH'', channel, len) \<longrightarrow> c_str channel \<noteq> c_str key"
  shows "\<exists>run conn. client_command ssl (Some x) line s = Some (run, on_conn x conn s)"
  using assms by (rule unauthenticated_command)

theorem server_auth_required_witness:
  "\<exists>run conn. client_command wire (Some 6) ''SUBSCRIBE news'' (sample_server sample_alloc True [] False)
     = Some (run, on_conn 6 conn (sample_server sample_alloc True [] False))"
proof -
  have "is_word 31 ''SUBSCRIBE''" "is_word 255 ''news''" by (simp_all add: is_word_def isspace_def)
  from sscanf_two_words [OF this] have sc: "sscanf_command ''SUBSCRIBE news'' = (2, ''SUBSCRIBE'', ''news'', 0)" by simp
  let ?s = "sample_server sample_alloc True [] False"
  obtain r where r: "servers ?s 1 = Some r" "ns_api_key r = Some 2" by (simp add: sample_server_def)
  from server_auth_required [OF _ _ _ r, of 6 "sample_client False [] False" "''secret''" "''SUBSCRIBE news''" wire] sc show ?thesis by simp
qed

text \<open>C19: a subscription survives its session: after \<^verbatim>\<open>DETACH\<close>, the command \<^verbatim>\<open>ATTACH\<close> with the identity the server has printed, from the same or another session, gives that
  session the subscription, with its inbox as it was and a running receiver, and the list of detached subscriptions is as before.\<close>

theorem server_detach_attach_roundtrip:
  assumes "sv_rep s sv bk ds B" and "clients s x = Some c" and "cc_authenticated c" and "cc_subscription c = Some u"
    and "clients s y = Some d" and "cc_authenticated d" and "y \<noteq> x \<Longrightarrow> cc_subscription d = NULL"
    and "grants 2 (sv_arena s)" and "ab_subscriptions B u = Some w"
  shows "\<exists>s1 s2 d'. client_command ssl (Some x) ''DETACH'' s = Some (True, s1) \<and> sv_rep s1 sv bk ((sub_id w, u) # ds) B
    \<and> map_option cc_subscription (clients s1 x) = Some NULL
    \<and> client_command ssl (Some y) (''ATTACH '' @ print_u64 (sub_id w)) s1 = Some (True, s2)
    \<and> sv_rep s2 sv bk ds B \<and> clients s2 y = Some d' \<and> cc_subscription d' = Some u \<and> cc_active d' \<and> cc_receiver_thread d' = Started"
  using assms by (rule detach_attach)

theorem server_detach_attach_roundtrip_witness:
  "\<exists>s1 s2 d'. client_command wire (Some 5) ''DETACH'' (sample_server sample_alloc True [] True) = Some (True, s1)
    \<and> client_command wire (Some 6) (''ATTACH '' @ print_u64 1) s1 = Some (True, s2) \<and> sv_rep s2 1 14 [] (sample_abroker None)
    \<and> clients s2 6 = Some d' \<and> cc_subscription d' = Some 1 \<and> cc_receiver_thread d' = Started"
proof -
  have rep: "sv_rep (sample_server sample_alloc True [] True) 1 14 [] (sample_abroker None)" using sample_server_rep [of sample_alloc True] by simp
  from server_detach_attach_roundtrip [OF rep, of 5 "sample_client True [] True" 1 6 "sample_client False [] True" sample_subscription wire]
  show ?thesis by auto
qed

text \<open>C20: the search for a detached subscription, which walks the links of the list and unlinks a node in place, is the removal of the first entry with the
  identity from the list as a sequence; nothing else changes.\<close>

theorem find_detached_equiv_take_out:
  assumes "sv_rep s sv bk ds B"
  shows "\<exists>s'. find_and_remove_detached (Some sv) i s = Some (fst (take_out i ds), s') \<and> sv_rep s' sv bk (snd (take_out i ds)) B
    \<and> clients s' = clients s \<and> broker_heap s' = broker_heap s"
  using assms by (rule find_and_remove_take_out)

theorem find_detached_equiv_take_out_witness:
  "\<exists>s'. find_and_remove_detached (Some 1) 1 (sample_server sample_alloc False [] True) = Some (Some 1, s') \<and> sv_rep s' 1 14 [] (sample_abroker None)"
  using find_detached_equiv_take_out [OF sample_server_rep [of sample_alloc False "[]" True], of 1] by auto

text \<open>C21: a command as a client writes it, two words and possibly the length of the content, is read back as its words and that length.\<close>

theorem command_parse_roundtrip:
  assumes "is_word 31 command" and "is_word 255 channel"
  shows "sscanf_command (command @ '' '' @ channel) = (2, command, channel, 0)
    \<and> sscanf_command (command @ '' '' @ channel @ '' '' @ print_u64 n) = (3, command, channel, n) \<and> strtoull (print_u64 n) = n"
  using sscanf_two_words [OF assms] sscanf_three_words [OF assms] strtoull_print by simp

theorem command_parse_roundtrip_witness:
  "sscanf_command (''PUBLISH'' @ '' '' @ ''news'' @ '' '' @ print_u64 42) = (3, ''PUBLISH'', ''news'', 42)"
  using command_parse_roundtrip [of "''PUBLISH''" "''news''" 42] by (simp add: is_word_def isspace_def)

text \<open>C22: nothing a client sends leaves its buffer.  Whatever arrives, reading a line ends within the buffer of 4096 bytes, which then holds a terminated string; the words of
  the command fit into their arrays of 32 and 256 bytes with their terminators; \<^verbatim>\<open>PUBLISH\<close> with any channel and any length, as parsed, stores the content and its terminator within its block
  and publishes a terminated string; and the header and the content of a message for a channel with such a name fit into the block of the receiver.\<close>

theorem protocol_buffers_suffice:
  assumes "sv_rep s sv bk ds B" and "clients s x = Some c"
  shows "\<exists>running line_pos buffer conn line n command channel len.
    read_line ssl (replicate BUFFER_SIZE (Some (CHR 0x00))) 0 (cc_ssl c) = Some (running, line_pos, buffer, conn) \<and> length buffer = BUFFER_SIZE
    \<and> string_at buffer = Some line \<and> sscanf_command line = (n, command, channel, len) \<and> length command < 32 \<and> length channel < MAX_CHANNEL_NAME
    \<and> handle_publish ssl (Some x) channel len (s\<lparr>clients := (clients s)(x \<mapsto> c\<lparr>cc_ssl := conn\<rparr>)\<rparr>) \<noteq> None
    \<and> (\<exists>frame. write_frame i channel content = Some frame \<and> length frame < 512 + length content + 1)"
proof -
  obtain running l conn where "take_line ssl (BUFFER_SIZE - 1) (cc_ssl c) = (running, l, conn)" by (cases "take_line ssl (BUFFER_SIZE - 1) (cc_ssl c)")
  from read_line_fits [OF this] obtain buffer where rd: "read_line ssl (replicate BUFFER_SIZE (Some (CHR 0x00))) 0 (cc_ssl c) = Some (running, length l, buffer, conn)"
    "length buffer = BUFFER_SIZE" "string_at buffer = Some (c_str l)" by blast
  obtain n command channel len where sc: "sscanf_command (c_str l) = (n, command, channel, len)" by (cases "sscanf_command (c_str l)")
  let ?s = "s\<lparr>clients := (clients s)(x \<mapsto> c\<lparr>cc_ssl := conn\<rparr>)\<rparr>"
  have "sv_rep ?s sv bk ds B" using sv_rep_conn [OF assms(1), of x conn] assms(2) by (simp add: on_conn_def)
  from publish_handler_spec [OF this, of x "c\<lparr>cc_ssl := conn\<rparr>" ssl channel len] have "handle_publish ssl (Some x) channel len ?s \<noteq> None" by auto
  moreover have "\<exists>frame. write_frame i channel content = Some frame \<and> length frame < 512 + length content + 1"
    using write_frame_fits [of channel i content] sscanf_bounds(3) [OF sc] by auto
  moreover have "length command < 32" "length channel < MAX_CHANNEL_NAME" using sscanf_fits [OF sc] by simp_all
  ultimately show ?thesis using rd sc by blast
qed

theorem protocol_buffers_suffice_witness:
  "\<exists>running line_pos buffer conn line. read_line wire (replicate BUFFER_SIZE (Some (CHR 0x00))) 0 (''PUBLISH news 4'' @ [newline] @ ''rain'' @ [newline], []) = Some (running, line_pos, buffer, conn)
    \<and> string_at buffer = Some line"
proof -
  let ?i = "''PUBLISH news 4'' @ [newline] @ ''rain'' @ [newline]"
  have "sv_rep (sample_server sample_alloc True ?i True) 1 14 [] (sample_abroker None)" using sample_server_rep [of sample_alloc True] by simp
  from protocol_buffers_suffice [OF this, of 6 "sample_client False ?i True" wire 1 "''rain''"] show ?thesis by auto
qed

text \<open>C23: \<^verbatim>\<open>PUBLISH\<close> queues the content for the channel exactly when the announced length is allowed, the block is granted, one read gives all of the
  content and the broker takes the publication; otherwise it reports an error and publishes nothing.\<close>

theorem server_publish_correct:
  assumes "sv_rep s sv bk ds B" and "clients s x = Some c"
  shows "\<exists>e s' B'. handle_publish ssl (Some x) channel len s = Some (e, s') \<and> sv_rep s' sv bk ds B'
    \<and> (case publish_accepted ssl c len s B of
         None \<Rightarrow> e = -1 \<and> (\<exists>n. B' = B\<lparr>ab_next_message := n\<rparr>)
       | Some content \<Rightarrow> e = 0
           \<and> B' = B\<lparr>ab_tasks := ab_tasks B @ [\<lparr>pub_id = ab_next_message B, pub_channel = c_str channel, pub_content = c_str content\<rparr>],
               ab_next_message := ab_next_message B + 1\<rparr>)"
  using assms by (rule publish_handler_spec)

theorem server_publish_correct_witness:
  "\<exists>s' B'. handle_publish wire (Some 6) ''news'' 4 (sample_server sample_alloc True ''rain'' True) = Some (0, s') \<and> sv_rep s' 1 14 [] B'
    \<and> ab_tasks B' = [\<lparr>pub_id = 8, pub_channel = ''news'', pub_content = ''rain''\<rparr>]"
proof -
  let ?s = "sample_server sample_alloc True ''rain'' True"
  have rep: "sv_rep ?s 1 14 [] (sample_abroker None)" using sample_server_rep [of sample_alloc True] by simp
  have "publish_accepted wire (sample_client False ''rain'' True) 4 ?s (sample_abroker None) = Some ''rain''"
    by (simp add: publish_accepted_def wire_def MAX_CONTENT_SIZE_def)
  with server_publish_correct [OF rep, of 6 "sample_client False ''rain'' True" wire "''news''" 4] obtain s' B' where
    "handle_publish wire (Some 6) ''news'' 4 ?s = Some (0, s')" "sv_rep s' 1 14 [] B'"
    "ab_tasks B' = [\<lparr>pub_id = 8, pub_channel = ''news'', pub_content = ''rain''\<rparr>]" by (auto simp: c_str_def)
  then show ?thesis by blast
qed

text \<open>C24: a turn of the receiver takes the oldest message of the inbox and writes it to the connection as one frame, its header with the identity, the channel and the
  length, then the content and a newline; the message is freed.  Without memory for the frame the message is lost.\<close>

theorem receiver_sends_oldest:
  assumes "sv_rep s sv bk ds B" and "clients s x = Some c" and "cc_active c" and "cc_subscription c = Some u"
    and "ab_subscriptions B u = Some w" and "sub_active w" and "sub_proxy w = Some p" and "ab_proxies B p = Some Y" and "ax_msgs Y = a # as"
    and "msg_channel_name a = Some n" and "length (c_str n) \<le> 255" and "msg_content a = Some t"
  shows "\<exists>b. receiver_turn ssl (Some x) s = Some (True, s\<lparr>sv_arena := tick (sv_arena s), broker_heap := b,
        clients := (clients s)(x \<mapsto> (if refused (sv_arena s) then c else c\<lparr>cc_ssl := snd (SSL_write ssl (cc_ssl c)
          (frame_header (msg_id a) (c_str n) (of_nat (length (c_str t))) @ c_str t @ [newline]))\<rparr>))\<rparr>)
    \<and> br_rep b bk (B\<lparr>ab_proxies := (ab_proxies B)(p \<mapsto> Y\<lparr>ax_msgs := as\<rparr>)\<rparr>)"
  using assms by (rule receiver_delivers)

theorem receiver_sends_oldest_witness:
  "\<exists>s'. receiver_turn wire (Some 5) (sample_server sample_alloc True [] True) = Some (True, s')
    \<and> map_option cc_ssl (clients s' 5) = Some ([], ''MSG 7 news 5'' @ [newline] @ ''hello'' @ [newline])"
proof -
  let ?s = "sample_server sample_alloc True [] True"
  have rep: "sv_rep ?s 1 14 [] (sample_abroker None)" using sample_server_rep [of sample_alloc True] by simp
  have "print_u64 7 = ''7''" "print_u64 5 = ''5''" by code_simp+
  then have "frame_header 7 ''news'' 5 = ''MSG 7 news 5'' @ [newline]" by (simp add: frame_header_def)
  with receiver_sends_oldest [OF rep, of 5 "sample_client True [] True" 1 sample_subscription 7 "\<lparr>ax_id = 1, ax_active = True, ax_msgs = [hello]\<rparr>"
      hello "[]" "''news''" "''hello''" wire]
  show ?thesis by (auto simp: c_str_def wire_def)
qed

text \<open>C25: when no memory is left for the entry, \<^verbatim>\<open>DETACH\<close> reports an error and the session keeps its subscription, but its receiver has been joined:
  another \<^verbatim>\<open>DETACH\<close>, or the end of the session, joins it a second time, which is undefined.\<close>

theorem server_detach_oom_double_join:
  assumes "sv_rep s sv bk ds B" and "clients s x = Some c" and "cc_subscription c = Some u" and "refused (sv_arena s)"
  shows "\<exists>s'. handle_detach ssl (Some x) s = Some (-1, s') \<and> handle_detach ssl (Some x) s' = None \<and> client_cleanup (Some x) s' = None"
  using assms by (rule detach_refused)

theorem server_detach_oom_double_join_witness:
  "\<exists>s'. handle_detach wire (Some 5) (sample_server failing_once True [] True) = Some (-1, s') \<and> client_cleanup (Some 5) s' = None"
proof -
  have rep: "sv_rep (sample_server failing_once True [] True) 1 14 [] (sample_abroker None)" using sample_server_rep [of failing_once True] by simp
  from server_detach_oom_double_join [OF rep, of 5 "sample_client True [] True" 1 wire] show ?thesis by auto
qed

text \<open>C26: a server is created completely, consistent, stopped and without sessions, or not at all; but when a step after the mutex fails, the copy of the API key is
  not freed.\<close>

theorem server_new_or_key_lost:
  assumes "cf_broker cf = Some bk" and "cf_cert_file cf \<noteq> NULL" and "cf_key_file cf \<noteq> NULL"
    and "dom (servers s) \<subseteq> {..ticks (sv_arena s)}" and "dom (api_keys s) \<subseteq> {..ticks (sv_arena s)}"
    and "detached_nodes s = Map.empty" and "clients s = Map.empty" and "br_rep (broker_heap s) bk B" and "all_sendable B"
  shows "\<exists>e out s'. network_server_new calls (Some cf) (Some v) s = Some (e, Some out, s')
    \<and> (if created calls cf s then e = 0 \<and> (\<exists>sv r. out = Some sv \<and> sv_good s' sv bk [] B \<and> servers s' sv = Some r \<and> \<not> ns_running r
           \<and> ns_port r = (case sc_port calls of None \<Rightarrow> cf_port cf | Some p \<Rightarrow> p) \<and> 0 < ns_max_clients r
           \<and> Option.bind (ns_api_key r) (api_keys s') = map_option c_str (cf_api_key cf))
       else e = -1 \<and> out = v \<and> servers s' = servers s \<and> clients s' = clients s \<and> broker_heap s' = broker_heap s
           \<and> (api_keys s' = api_keys s \<longleftrightarrow> \<not> key_lost cf s))"
  using assms by (rule server_new_spec)

theorem server_new_or_key_lost_witness:
  "\<exists>s'. network_server_new \<lparr>sc_ctx_new = True, sc_use_certificate = 1, sc_use_private_key = 1, sc_check_private_key = True, sc_socket = 3, sc_bind = -1, sc_port = None\<rparr>
       (Some \<lparr>cf_port = 9000, cf_cert_file = Some ''cert'', cf_key_file = Some ''key'', cf_api_key = Some ''secret'', cf_broker = Some 14, cf_max_clients = 0\<rparr>)
       (Some NULL) empty_server = Some (-1, Some NULL, s') \<and> api_keys s' \<noteq> Map.empty"
  using server_new_or_key_lost [of "\<lparr>cf_port = 9000, cf_cert_file = Some ''cert'', cf_key_file = Some ''key'', cf_api_key = Some ''secret'',
      cf_broker = Some 14, cf_max_clients = 0\<rparr>" 14 empty_server "sample_abroker None"
      "\<lparr>sc_ctx_new = True, sc_use_certificate = 1, sc_use_private_key = 1, sc_check_private_key = True, sc_socket = 3, sc_bind = -1, sc_port = None\<rparr>" NULL]
  by (auto simp: created_def key_lost_def)

text \<open>C27: freeing a server gives every detached subscription back to the broker and frees its list, its key and itself; the loop ends.  The threads of
  connected clients are neither stopped nor waited for, and the next turn of any of them reads the freed server.\<close>

theorem server_free_strands_sessions:
  assumes "sv_rep s sv bk ds B" and "servers s sv = Some r" and "ns_running r \<longrightarrow> ns_accept_thread r = Started"
  shows "\<exists>s' B'. network_server_free (Some sv) s = Some (0, s') \<and> servers s' = (servers s)(sv := None) \<and> detached_nodes s' = Map.empty
    \<and> api_keys s' = (case ns_api_key r of None \<Rightarrow> api_keys s | Some k \<Rightarrow> (api_keys s)(k := None))
    \<and> br_rep (broker_heap s') bk B' \<and> ab_subscriptions B' = (ab_subscriptions B) |` (- snd ` set ds)
    \<and> clients s' = clients s \<and> (\<forall>x. clients s x \<noteq> None \<longrightarrow> client_turn ssl (Some x) s' = None)"
proof -
  obtain s' B' where f: "network_server_free (Some sv) s = Some (0, s')" "servers s' = (servers s)(sv := None)" "detached_nodes s' = Map.empty"
    "api_keys s' = (case ns_api_key r of None \<Rightarrow> api_keys s | Some k \<Rightarrow> (api_keys s)(k := None))" "clients s' = clients s"
    "br_rep (broker_heap s') bk B'" "ab_subscriptions B' = (ab_subscriptions B) |` (- snd ` set ds)"
    using server_free_spec [OF assms] by blast
  obtain r' as where "sessions_ok sv (clients s) ds B" by (rule sv_repE [OF assms(1)])
  then have "client_turn ssl (Some x) s' = None" if "clients s x \<noteq> None" for x
    using sessions_okD(3) that f(2,5) by (metis dangling_session fun_upd_same not_Some_eq)
  with f show ?thesis by blast
qed

theorem server_free_strands_sessions_witness:
  "\<exists>s' B'. network_server_free (Some 1) (sample_server sample_alloc False [] True) = Some (0, s') \<and> br_rep (broker_heap s') 14 B'
    \<and> ab_subscriptions B' 1 = None \<and> client_turn wire (Some 6) s' = None"
proof -
  obtain r where r: "servers (sample_server sample_alloc False [] True) 1 = Some r" "ns_running r \<longrightarrow> ns_accept_thread r = Started"
    by (simp add: sample_server_def)
  from server_free_strands_sessions [OF sample_server_rep r, of wire] obtain s' B' where
    "network_server_free (Some 1) (sample_server sample_alloc False [] True) = Some (0, s')" "br_rep (broker_heap s') 14 B'"
    "ab_subscriptions B' = (ab_subscriptions (sample_abroker None)) |` (- {1})" "client_turn wire (Some 6) s' = None" by (auto dest!: spec [of _ 6])
  then show ?thesis by (intro exI [of _ s'] exI [of _ B']) simp
qed

section \<open>The linked list\<close>

text \<open>C28: an insertion puts what the copy callback made of the pointer, or the pointer itself, at the
  chosen end, keeps the representation invariant and every other list, and uses one request.\<close>

theorem list_insert_correct:
  assumes "ll_rep h M I" and "M l = Some L" and "\<not> refused (arena h)"
    and "al_store L d (world h) = Some (0, d', w)"
  shows "\<exists>h1 h2. generic_linked_list_insert_first (Some l) d h = Some (0, h1)
    \<and> ll_rep h1 (M(l \<mapsto> L\<lparr>al_items := d' # al_items L\<rparr>)) (drop_iters l I) \<and> world h1 = w \<and> arena h1 = tick (arena h)
    \<and> generic_linked_list_insert_last (Some l) d h = Some (0, h2)
    \<and> ll_rep h2 (M(l \<mapsto> L\<lparr>al_items := al_items L @ [d']\<rparr>)) (drop_iters l I) \<and> world h2 = w \<and> arena h2 = tick (arena h)"
  using insert_first_spec [OF assms] insert_last_spec [OF assms] by blast

theorem list_insert_correct_witness:
  "\<exists>h1 h2. generic_linked_list_insert_first (Some 11) (Some 5) (sample_list sample_alloc) = Some (0, h1)
    \<and> ll_rep h1 [11 \<mapsto> sample_content\<lparr>al_items := [Some 5, Some 10, Some 20]\<rparr>] (drop_iters 11 [6 \<mapsto> (11, 1), 7 \<mapsto> (11, 3)])
    \<and> generic_linked_list_insert_last (Some 11) (Some 5) (sample_list sample_alloc) = Some (0, h2)
    \<and> ll_rep h2 [11 \<mapsto> sample_content\<lparr>al_items := [Some 10, Some 20, Some 5]\<rparr>] (drop_iters 11 [6 \<mapsto> (11, 1), 7 \<mapsto> (11, 3)])"
  using list_insert_correct [of "sample_list sample_alloc" "[11 \<mapsto> sample_content]" "[6 \<mapsto> (11, 1), 7 \<mapsto> (11, 3)]"
      11 sample_content "Some 5" "Some 5" "[]"] sample_list_rep [of sample_alloc]
  by (auto simp: al_store_def)

text \<open>C29: a removal takes the element at the chosen end and hands it to the caller's variable, or to the
  free callback when the caller passes none.\<close>

theorem list_remove_correct:
  assumes "ll_rep h M I" and "M l = Some L" and "al_items L \<noteq> []" and "out \<noteq> NULL \<or> al_free L \<noteq> NULL"
    and "al_give L (hd (al_items L)) out (world h) = Some (o1, w1)"
    and "al_give L (last (al_items L)) out (world h) = Some (o2, w2)"
  shows "\<exists>h1 h2. generic_linked_list_remove_first (Some l) out h = Some (0, o1, h1)
    \<and> ll_rep h1 (M(l \<mapsto> L\<lparr>al_items := tl (al_items L)\<rparr>)) (drop_iters l I) \<and> world h1 = w1
    \<and> generic_linked_list_remove_last (Some l) out h = Some (0, o2, h2)
    \<and> ll_rep h2 (M(l \<mapsto> L\<lparr>al_items := butlast (al_items L)\<rparr>)) (drop_iters l I) \<and> world h2 = w2"
proof -
  from assms(3) have "al_items L = hd (al_items L) # tl (al_items L)"
    and "al_items L = butlast (al_items L) @ [last (al_items L)]" by simp_all
  from remove_first_spec [OF assms(1,2) this(1) assms(4,5)] remove_last_spec [OF assms(1,2) this(2) assms(4,6)]
  show ?thesis by blast
qed

theorem list_remove_correct_witness:
  "\<exists>h1 h2. generic_linked_list_remove_first (Some 11) NULL (sample_list sample_alloc) = Some (0, NULL, h1) \<and> world h1 = [10]
    \<and> generic_linked_list_remove_last (Some 11) NULL (sample_list sample_alloc) = Some (0, NULL, h2) \<and> world h2 = [20]"
  using list_remove_correct [of "sample_list sample_alloc" "[11 \<mapsto> sample_content]" "[6 \<mapsto> (11, 1), 7 \<mapsto> (11, 3)]"
      11 sample_content NULL NULL "[10]" NULL "[20]"] sample_list_rep [of sample_alloc]
  by (auto simp: al_give_def log_free_def)

text \<open>An insertion that fails, because the node is refused or because the copy callback fails, returns
  the error and leaves every list and iterator as it was; no node is leaked.\<close>

theorem list_insert_failure_atomic:
  assumes "ll_rep h M I" and "M l = Some L"
    and "refused (arena h) \<and> c = -1 \<and> w = world h
      \<or> \<not> refused (arena h) \<and> al_store L d (world h) = Some (c, d', w) \<and> c \<noteq> 0"
  shows "\<exists>h'. generic_linked_list_insert_first (Some l) d h = Some (c, h')
    \<and> generic_linked_list_insert_last (Some l) d h = Some (c, h')
    \<and> ll_rep h' M I \<and> world h' = w \<and> iters h' = iters h"
  using assms(3)
proof
  assume "refused (arena h) \<and> c = -1 \<and> w = world h"
  with insert_refused [OF assms(1), of l d] show ?thesis by auto
next
  assume "\<not> refused (arena h) \<and> al_store L d (world h) = Some (c, d', w) \<and> c \<noteq> 0"
  with insert_copy_fails [OF assms(1,2), of d c d' w] show ?thesis by auto
qed

theorem list_insert_failure_atomic_witness:
  "\<exists>h'. generic_linked_list_insert_first (Some 11) (Some 5) (sample_list (failing_from 0)) = Some (-1, h')
    \<and> ll_rep h' [11 \<mapsto> sample_content] [6 \<mapsto> (11, 1), 7 \<mapsto> (11, 3)]"
  using list_insert_failure_atomic [of "sample_list (failing_from 0)" "[11 \<mapsto> sample_content]"
      "[6 \<mapsto> (11, 1), 7 \<mapsto> (11, 3)]" 11 sample_content "-1" "[]" "Some 5"] sample_list_rep [of "failing_from 0"]
  by auto

text \<open>Destroying a list ends, passes every stored pointer to the free callback in list order, and
  leaves no node behind: if it was the only list, the heap has no node and no list any more.\<close>

theorem list_free_complete:
  assumes "ll_rep h M I" and "M l = Some L" and "free_all (al_free L) (al_items L) (world h) = Some w"
  shows "\<exists>h'. generic_linked_list_free (Some l) h = Some (0, h') \<and> ll_rep h' (M(l := None)) (drop_iters l I)
    \<and> world h' = w \<and> (dom M = {l} \<longrightarrow> nodes h' = Map.empty \<and> lists h' = Map.empty)"
proof -
  obtain h' where h': "generic_linked_list_free (Some l) h = Some (0, h')"
    "ll_rep h' (M(l := None)) (drop_iters l I)" "world h' = w"
    using free_spec [OF assms] by blast
  have "nodes h' = Map.empty \<and> lists h' = Map.empty" if "dom M = {l}"
  proof -
    from that have "M(l := None) = Map.empty" by (auto simp: fun_eq_iff)
    with h'(2) show ?thesis using ll_rep_empty [of h'] by simp
  qed
  with h' show ?thesis by blast
qed

theorem list_free_complete_witness:
  "\<exists>h'. generic_linked_list_free (Some 11) (sample_list sample_alloc) = Some (0, h') \<and> world h' = [10, 20]
    \<and> nodes h' = Map.empty \<and> lists h' = Map.empty"
  using list_free_complete [of "sample_list sample_alloc" "[11 \<mapsto> sample_content]" "[6 \<mapsto> (11, 1), 7 \<mapsto> (11, 3)]"
      11 sample_content "[10, 20]"] sample_list_rep [of sample_alloc]
  by (auto simp: log_free_def)

text \<open>Creating a list yields an empty list without callbacks at an address that no list had; if one of
  the three requests is refused the function returns -1, stores \<open>NULL\<close>, and has freed what it had got.\<close>

theorem list_new_all_or_nothing:
  assumes "ll_rep h M I"
  shows "\<exists>h'. if grants 3 (arena h)
    then \<exists>l. generic_linked_list_new (Some v) h = Some (0, Some (Some l), h') \<and> M l = None
       \<and> ll_rep h' (M(l \<mapsto> \<lparr>al_items = [], al_free = NULL, al_copy = NULL\<rparr>)) I
    else generic_linked_list_new (Some v) h = Some (-1, Some NULL, h') \<and> ll_rep h' M I
       \<and> nodes h' = nodes h \<and> lists h' = lists h"
proof (cases "grants 3 (arena h)")
  case True
  with new_spec [OF assms, of v] show ?thesis by auto
next
  case False
  with new_refused [OF assms, of v] show ?thesis by (auto simp: not_grants_3)
qed

theorem list_new_all_or_nothing_witness:
  "\<exists>h'. generic_linked_list_new (Some NULL) (sample_list (failing_from 2)) = Some (-1, Some NULL, h')
    \<and> nodes h' = nodes (sample_list (failing_from 2)) \<and> lists h' = lists (sample_list (failing_from 2))"
  using list_new_all_or_nothing [OF sample_list_rep [of "failing_from 2"], of NULL]
  by auto

text \<open>The size that is reported is the number of elements; the 64-bit counter never wraps.\<close>

theorem list_size_exact:
  assumes "ll_rep h M I" and "M l = Some L"
  shows "\<exists>n. generic_linked_list_size (Some l) (Some v) h = Some (0, Some n) \<and> unat n = length (al_items L)
    \<and> generic_linked_list_is_empty (Some l) h = Some (if al_items L = [] then 1 else 0)"
  using size_spec(1) [OF assms, of v] is_empty_spec [OF assms] size_spec(2) [OF assms]
    unat_of_nat_size_t [of "length (al_items L)"] by simp

theorem list_size_exact_witness:
  "\<exists>n. generic_linked_list_size (Some 11) (Some 0) (sample_list sample_alloc) = Some (0, Some n) \<and> unat n = 2
    \<and> generic_linked_list_is_empty (Some 11) (sample_list sample_alloc) = Some 0"
  using list_size_exact [OF sample_list_rep [of sample_alloc], of 11 sample_content 0] by (simp add: numeral_2_eq_2)

section \<open>Iterators\<close>

text \<open>A fresh iterator advanced by \<open>n\<close> stands on element \<open>n\<close>, counted from 0, or on the end guard; the
  reads report accordingly.\<close>

theorem iterator_walk:
  assumes "ll_rep h M I" and "M l = Some L" and "\<not> refused (arena h)"
  shows "\<exists>h1 h2 i. generic_linked_list_iterator_begin (Some l) (Some NULL) h = Some (0, Some (Some i), h1)
    \<and> generic_linked_list_iterator_advance (Some i) n h1 = Some (0, h2)
    \<and> generic_linked_list_iterator_get (Some i) (Some v) h2
       = Some (if unat n < length (al_items L) then (0, Some (al_items L ! unat n)) else (1, Some NULL))
    \<and> generic_linked_list_iterator_is_valid (Some i) h2 = Some (if unat n < length (al_items L) then 0 else 1)
    \<and> ll_rep h2 M (I(i \<mapsto> (l, Suc (min (unat n) (length (al_items L))))))"
proof -
  obtain h1 i where h1: "generic_linked_list_iterator_begin (Some l) (Some NULL) h = Some (0, Some (Some i), h1)"
    "ll_rep h1 M (I(i \<mapsto> (l, 1)))"
    using begin_spec [OF assms, of NULL] by blast
  let ?k = "Suc (min (unat n) (length (al_items L)))"
  obtain h2 where h2: "generic_linked_list_iterator_advance (Some i) n h1 = Some (0, h2)"
    "ll_rep h2 M (I(i \<mapsto> (l, ?k)))"
    using advance_spec [OF h1(2) _ assms(2), of i 1 n] by auto
  have "generic_linked_list_iterator_get (Some i) (Some v) h2
       = Some (if unat n < length (al_items L) then (0, Some (al_items L ! unat n)) else (1, Some NULL))"
    using get_spec [OF h2(2) _ assms(2), of i ?k v] by (auto simp: min_def)
  moreover have "generic_linked_list_iterator_is_valid (Some i) h2 = Some (if unat n < length (al_items L) then 0 else 1)"
    using is_end_spec(3) [OF h2(2) _ assms(2), of i ?k] by (auto simp: min_def)
  ultimately show ?thesis using h1(1) h2 by blast
qed

theorem iterator_walk_witness:
  "\<exists>h1 h2 i. generic_linked_list_iterator_begin (Some 11) (Some NULL) (sample_list sample_alloc) = Some (0, Some (Some i), h1)
    \<and> generic_linked_list_iterator_advance (Some i) 1 h1 = Some (0, h2)
    \<and> generic_linked_list_iterator_get (Some i) (Some NULL) h2 = Some (0, Some (Some 20))"
  using iterator_walk [OF sample_list_rep [of sample_alloc], of 11 sample_content 1 NULL] by auto

text \<open>C30: removing at an iterator takes out exactly the element it stands on, the iterator moves to the
  next one; at a guard, or with nobody to take the element, the call is refused and changes nothing.\<close>

theorem iterator_remove_correct:
  assumes "ll_rep h M I" and "I i = Some (l, k)" and "M l = Some L"
    and "k = 0 \<or> k = Suc (length (al_items L)) \<or> al_give L (al_items L ! (k - 1)) out (world h) = Some (out', w)"
  shows "\<exists>h'. if k = 0 \<or> k = Suc (length (al_items L)) \<or> out = NULL \<and> al_free L = NULL
    then generic_linked_list_iterator_remove (Some i) out h = Some (1, out, h)
    else generic_linked_list_iterator_remove (Some i) out h = Some (0, out', h')
      \<and> ll_rep h' (M(l \<mapsto> L\<lparr>al_items := take (k - 1) (al_items L) @ drop k (al_items L)\<rparr>)) ((drop_iters l I)(i \<mapsto> (l, k)))
      \<and> world h' = w"
proof (cases "k = 0 \<or> k = Suc (length (al_items L)) \<or> out = NULL \<and> al_free L = NULL")
  case True
  with iterator_remove_fails [OF assms(1-3)] show ?thesis by auto
next
  case False
  have "k \<le> Suc (length (al_items L))" by (rule is_end_spec(4) [OF assms(1-3)])
  with False have "0 < k" "k \<le> length (al_items L)" by auto
  with False iterator_remove_spec [OF assms(1-3), of out out' w] assms(4) show ?thesis by auto
qed

theorem iterator_remove_correct_witness:
  "\<exists>h'. generic_linked_list_iterator_remove (Some 6) (Some NULL) (sample_list sample_alloc) = Some (0, Some (Some 10), h')
    \<and> ll_rep h' [11 \<mapsto> sample_content\<lparr>al_items := [Some 20]\<rparr>] ((drop_iters 11 [6 \<mapsto> (11, 1), 7 \<mapsto> (11, 3)])(6 \<mapsto> (11, 1)))"
  using iterator_remove_correct [OF sample_list_rep [of sample_alloc], of 6 11 1 sample_content "Some NULL" "Some (Some 10)" "[]"]
  by (auto simp: al_give_def)

text \<open>The search returns an iterator on the first element of the range that the callback finds equal, or on
  the end of the range.\<close>

theorem iterator_find_first:
  assumes "ll_rep h M I" and "I b = Some (l, k)" and "I e = Some (l, m)" and "M l = Some L" and "1 \<le> k" and "k \<le> m"
    and "\<not> refused (arena h)"
  shows "\<exists>h' i j. generic_linked_list_iterator_find (Some b) (Some e) target (Some cmp) (Some v) h = Some (0, Some (Some i), h')
    \<and> ll_rep h' M (I(i \<mapsto> (l, j))) \<and> k \<le> j \<and> j \<le> m
    \<and> (\<forall>j'. k \<le> j' \<and> j' < j \<longrightarrow> cmp (al_items L ! (j' - 1)) target \<noteq> 0)
    \<and> (j < m \<longrightarrow> cmp (al_items L ! (j - 1)) target = 0)"
proof -
  let ?j = "case first_match cmp target (al_items L) k m of None \<Rightarrow> m | Some j \<Rightarrow> j"
  obtain h' i where "generic_linked_list_iterator_find (Some b) (Some e) target (Some cmp) (Some v) h = Some (0, Some (Some i), h')"
    "ll_rep h' M (I(i \<mapsto> (l, ?j)))"
    using find_spec [OF assms(1-4,7), of target cmp v] by blast
  then show ?thesis using first_match_range [OF assms(5,6), of cmp target "al_items L"] by blast
qed

theorem iterator_find_first_witness:
  "\<exists>h' i j. generic_linked_list_iterator_find (Some 6) (Some 7) (Some 20) (Some (\<lambda>a b. if a = b then 0 else 1)) (Some NULL)
      (sample_list sample_alloc) = Some (0, Some (Some i), h') \<and> (j < 3 \<longrightarrow> [Some 10, Some 20] ! (j - 1) = Some (20::nat)) \<and> 1 \<le> j"
  using iterator_find_first [OF sample_list_rep [of sample_alloc], of 6 11 1 7 3 sample_content "Some 20" "\<lambda>a b. if a = b then 0 else 1" NULL]
  by (auto split: if_splits)

text \<open>A traversal ends and calls the function on exactly the elements of the range, in their order,
  and on nothing else; the list is unchanged.\<close>

theorem iterator_for_each_in_order:
  assumes "ll_rep h M I" and "I b = Some (l, k)" and "I e = Some (l, m)" and "M l = Some L" and "1 \<le> k" and "k \<le> m"
    and "visit_all f (take (m - k) (drop (k - 1) (al_items L))) (world h) = Some w"
  shows "\<exists>h'. generic_linked_list_iterator_for_each (Some b) (Some e) (Some f) h = Some (0, h')
    \<and> ll_rep h' M I \<and> world h' = w"
proof -
  have "m \<le> Suc (length (al_items L))" by (rule is_end_spec(4) [OF assms(1,3,4)])
  with assms(5,6) have "range_items (al_items L) k m = take (m - k) (drop (k - 1) (al_items L))"
    by (intro nth_equalityI) (auto simp: range_items_def nth_Cons')
  with for_each_spec(1) [OF assms(1-4), of f] for_each_spec(2) [OF assms(1-4), of w] assms(7) show ?thesis by auto
qed

theorem iterator_for_each_in_order_witness:
  "\<exists>h'. generic_linked_list_iterator_for_each (Some 6) (Some 7) (Some log_free) (sample_list sample_alloc) = Some (0, h')
    \<and> world h' = [10, 20]"
  using iterator_for_each_in_order [OF sample_list_rep [of sample_alloc], of 6 11 1 7 3 sample_content log_free "[10, 20]"]
  by (auto simp: log_free_def numeral_2_eq_2)

section \<open>The queue\<close>

text \<open>Clearing a queue with a free callback ends with the queue empty and has freed every element in order;
  without a callback a non-empty queue is left alone and the error is reported.\<close>

theorem queue_clear_correct:
  assumes "q_rep h Q" and "Q q = Some L" and "free_all (al_free L) (al_items L) (world h) = Some w"
  shows "\<exists>h'. if al_free L = NULL
    then generic_queue_clear (Some q) h = Some (if al_items L = [] then 0 else 1, h)
    else generic_queue_clear (Some q) h = Some (0, h') \<and> q_rep h' (Q(q \<mapsto> L\<lparr>al_items := []\<rparr>)) \<and> world h' = w"
  using queue_clear_spec [OF assms(1,2) _ assms(3)] queue_clear_nobody [OF assms(1,2)] by (cases "al_free L") auto

theorem queue_clear_correct_witness:
  "\<exists>h'. generic_queue_clear (Some 8) (sample_queue sample_alloc) = Some (0, h') \<and> world h' = [10, 20]
    \<and> q_rep h' [8 \<mapsto> sample_content\<lparr>al_items := []\<rparr>]"
  using queue_clear_correct [of "sample_queue sample_alloc" "[8 \<mapsto> sample_content]" 8 sample_content "[10, 20]"]
  by (auto simp: log_free_def)

text \<open>Creating a queue yields an empty queue or, if one of its four requests is refused, returns -1 and leaves
  the heap as it was: the list record, its guards and the queue record are all freed again.\<close>

theorem queue_new_all_or_nothing:
  assumes "q_rep h Q"
  shows "\<exists>h' q out. if grants 4 (arena h)
    then generic_queue_new (Some v) h = Some (0, Some (Some q), h') \<and> Q q = None
      \<and> q_rep h' (Q(q \<mapsto> \<lparr>al_items = [], al_free = NULL, al_copy = NULL\<rparr>)) \<and> world h' = world h
    else generic_queue_new (Some v) h = Some (-1, Some out, h') \<and> out \<in> {v, NULL} \<and> q_rep h' Q \<and> world h' = world h"
proof (cases "grants 4 (arena h)")
  case True
  with queue_new_spec [OF assms True, of v] show ?thesis by auto
next
  case False
  with queue_new_refused [OF assms False, of v] show ?thesis by auto
qed

theorem queue_new_all_or_nothing_witness:
  "\<exists>h' q. generic_queue_new (Some NULL) (sample_queue sample_alloc) = Some (0, Some (Some q), h')
    \<and> q_rep h' [8 \<mapsto> sample_content, q \<mapsto> \<lparr>al_items = [], al_free = NULL, al_copy = NULL\<rparr>]"
  using queue_new_all_or_nothing [OF sample_queue_rep [of sample_alloc], of NULL] by auto

text \<open>Destroying a queue ends, hands every element to the free callback in order, and leaves no list
  and no node behind when it was the only queue.\<close>

theorem queue_free_complete:
  assumes "q_rep h Q" and "Q q = Some L" and "free_all (al_free L) (al_items L) (world h) = Some w"
  shows "\<exists>h'. generic_queue_free (Some q) h = Some (0, h') \<and> q_rep h' (Q(q := None)) \<and> world h' = w
    \<and> (dom Q = {q} \<longrightarrow> queues h' = Map.empty \<and> lists h' = Map.empty \<and> nodes h' = Map.empty)"
proof -
  obtain h' where h': "generic_queue_free (Some q) h = Some (0, h')" "q_rep h' (Q(q := None))" "world h' = w"
    using queue_free_spec [OF assms] by blast
  have "queues h' = Map.empty \<and> lists h' = Map.empty \<and> nodes h' = Map.empty" if "dom Q = {q}"
    using q_rep_empty [of h'] h'(2) fun_upd_None_single [OF that] by simp
  with h' show ?thesis by blast
qed

theorem queue_free_complete_witness:
  "\<exists>h'. generic_queue_free (Some 8) (sample_queue sample_alloc) = Some (0, h') \<and> world h' = [10, 20]
    \<and> queues h' = Map.empty \<and> lists h' = Map.empty \<and> nodes h' = Map.empty"
  using queue_free_complete [of "sample_queue sample_alloc" "[8 \<mapsto> sample_content]" 8 sample_content "[10, 20]"]
  by (auto simp: log_free_def)

section \<open>The synchronised queue\<close>

text \<open>A synchronised queue can be created and destroyed again; the destruction takes the mutex, frees every
  element and the queue, and destroys the mutex unlocked.\<close>

theorem syn_lifecycle:
  assumes "qs_rep h S" and "grants 6 (arena h)" and "S s = Some L"
    and "free_all (al_free L) (al_items L) (world h) = Some w"
  shows "\<exists>h1 h2 s'. generic_queue_syn_new (Some v) h = Some (0, Some (Some s'), h1) \<and> S s' = None
    \<and> qs_rep h1 (S(s' \<mapsto> \<lparr>al_items = [], al_free = NULL, al_copy = NULL\<rparr>)) \<and> world h1 = world h
    \<and> generic_queue_syn_free (Some s) h = Some (0, h2) \<and> qs_rep h2 (S(s := None)) \<and> world h2 = w"
  using syn_new_spec [OF assms(1,2), of v] syn_free_spec [OF assms(1,3,4)] by blast

theorem syn_lifecycle_witness:
  "\<exists>h1 h2 s'. generic_queue_syn_new (Some NULL) (sample_syn sample_alloc) = Some (0, Some (Some s'), h1)
    \<and> generic_queue_syn_free (Some 9) (sample_syn sample_alloc) = Some (0, h2) \<and> world h2 = [10, 20] \<and> qs_rep h2 Map.empty"
  using syn_lifecycle [of "sample_syn sample_alloc" "[9 \<mapsto> sample_content]" 9 sample_content "[10, 20]" NULL]
  by (auto simp: log_free_def)

section \<open>The hash table\<close>

text \<open>C31: an insertion puts the copied pair in front of the bucket of its key, leaves every other bucket and table
  alone, and adds one to the size.\<close>

theorem table_insert_correct:
  assumes "ht_rep h T" and "T t = Some A" and "grants 2 (arena h)" and "key \<noteq> NULL"
    and "at_copy_key A key (world h) = Some (0, k', w1)" and "at_copy_value A val w1 = Some (0, v', w2)"
  shows "\<exists>h'. generic_hash_table_insert (Some t) key val h = Some (0, h')
    \<and> ht_rep h' (T(t \<mapsto> with_bucket A key ((k', v') # ht_bucket A key))) \<and> world h' = w2
    \<and> generic_hash_table_get_size (Some t) (Some x) h' = Some (0, Some (of_nat (Suc (ht_count A))))"
proof -
  let ?A = "with_bucket A key ((k', v') # ht_bucket A key)"
  obtain h' where h': "generic_hash_table_insert (Some t) key val h = Some (0, h')" "ht_rep h' (T(t \<mapsto> ?A))" "world h' = w2"
    using ht_insert_spec [OF assms] by blast
  moreover have "ht_count ?A = Suc (ht_count A)"
    using ht_count_update [OF ht_rep_index [OF assms(1,2), of key], of "(k', v') # ht_bucket A key"]
    by (simp add: with_bucket_def ht_bucket_def)
  ultimately show ?thesis using ht_size_spec [OF h'(2), of t ?A x] by auto
qed

theorem table_insert_correct_witness:
  "\<exists>h'. generic_hash_table_insert (Some 11) (Some ''sport'') (Some 7) (sample_table sample_alloc) = Some (0, h')
    \<and> generic_hash_table_get_size (Some 11) (Some 0) h' = Some (0, Some 2)"
  using table_insert_correct [of "sample_table sample_alloc" "[11 \<mapsto> sample_atable]" 11 sample_atable "Some ''sport''"
      "Some ''sport''" "tick sample_alloc" "Some 7" "Some 7" "tick sample_alloc" 0]
  by (auto simp: string_copy_def channel_copy_def c_str_def ht_count_def)

text \<open>A lookup reports the most recent value bound to the key, the membership test agrees with it, and neither
  changes any table.\<close>

theorem table_lookup_correct:
  assumes "ht_rep h T" and "T t = Some A" and "\<not> refused (arena h)" and "key \<noteq> NULL"
  shows "\<exists>h1 h2. generic_hash_table_get (Some t) key (Some x) h
      = Some (case ht_stack A key of [] \<Rightarrow> (1, Some NULL, h1) | u # _ \<Rightarrow> (0, Some u, h1)) \<and> ht_rep h1 T \<and> world h1 = world h
    \<and> generic_hash_table_contains (Some t) key h = Some (if ht_stack A key = [] then 1 else 0, h2) \<and> ht_rep h2 T \<and> world h2 = world h"
  using ht_get_spec [OF assms, of x] ht_contains_spec [OF assms] by blast

theorem table_lookup_correct_witness:
  "\<exists>h1 h2. generic_hash_table_get (Some 11) (Some ''news'') (Some NULL) (sample_table sample_alloc) = Some (0, Some (Some 42), h1)
    \<and> generic_hash_table_contains (Some 11) (Some ''news'') (sample_table sample_alloc) = Some (0, h2)"
  using table_lookup_correct [of "sample_table sample_alloc" "[11 \<mapsto> sample_atable]" 11 sample_atable "Some ''news''" NULL]
  by auto

text \<open>A deletion takes out the first pair of the bucket whose key compares equal, frees its key and then its
  value, and lowers the size by one; if there is none it returns 1 and changes nothing.\<close>

theorem table_delete_correct:
  assumes "ht_rep h T" and "T t = Some A" and "\<not> refused (arena h)" and "key \<noteq> NULL"
    and "pos = ht_pos (at_compare A) key (ht_bucket A key)"
    and "pos < length (ht_bucket A key) \<longrightarrow> at_release A key (world h) = Some w"
  shows "\<exists>h'. if pos < length (ht_bucket A key)
    then generic_hash_table_delete (Some t) key h = Some (0, h')
      \<and> ht_rep h' (T(t \<mapsto> with_bucket A key (take pos (ht_bucket A key) @ drop (Suc pos) (ht_bucket A key)))) \<and> world h' = w
      \<and> generic_hash_table_get_size (Some t) (Some x) h' = Some (0, Some (of_nat (ht_count A - 1)))
    else generic_hash_table_delete (Some t) key h = Some (1, h') \<and> ht_rep h' T \<and> world h' = world h"
proof (cases "pos < length (ht_bucket A key)")
  case True
  let ?kv = "take pos (ht_bucket A key) @ drop (Suc pos) (ht_bucket A key)" and ?A = "with_bucket A key (take pos (ht_bucket A key) @ drop (Suc pos) (ht_bucket A key))"
  obtain k u where ku: "ht_bucket A key ! pos = (k, u)" by fastforce
  with True assms(5,6) obtain w1 where w: "at_free_key A k (world h) = Some w1" "at_free_value A u w1 = Some w"
    by (auto simp: at_release_def Let_def bind_eq_Some_conv)
  obtain h' where h': "generic_hash_table_delete (Some t) key h = Some (0, h')" "ht_rep h' (T(t \<mapsto> ?A))" "world h' = w"
    using ht_delete_spec [OF assms(1-5) True ku w] by blast
  have "ht_count ?A = ht_count A - 1"
    using ht_count_update [OF ht_rep_index [OF assms(1,2), of key], of ?kv] True
    by (simp add: with_bucket_def ht_bucket_def)
  with h' True ht_size_spec [OF h'(2), of t ?A x] show ?thesis by auto
next
  case False
  with assms(5) ht_pos_le [of "at_compare A" key "ht_bucket A key"] have "ht_stack A key = []"
    using ht_stack_pos(1) [OF assms(5)] by simp
  with False ht_delete_missing [OF assms(1-4)] show ?thesis by auto
qed

theorem table_delete_correct_witness:
  "\<exists>h'. generic_hash_table_delete (Some 11) (Some ''news'') (sample_table sample_alloc) = Some (0, h')
    \<and> generic_hash_table_get_size (Some 11) (Some 0) h' = Some (0, Some 0)"
proof -
  have "ht_bucket sample_atable (Some ''news'') = [(Some ''news'', Some 42)]" by (simp add: ht_bucket_def ht_index_def)
  moreover have "ht_pos (at_compare sample_atable) (Some ''news'') [(Some ''news'', Some 42)] = 0"
    by (simp add: ht_pos_def string_compare_def)
  ultimately show ?thesis
    using table_delete_correct [of "sample_table sample_alloc" "[11 \<mapsto> sample_atable]" 11 sample_atable "Some ''news''" 0
      sample_alloc 0]
    by (auto simp: at_release_def string_free_def ht_count_def Let_def)
qed

text \<open>An operation for which memory cannot be obtained returns -1 and leaves every table as it was; the same
  holds of an insertion whose copy callbacks fail, which returns their code and frees a key that was copied.\<close>

theorem table_failures_atomic:
  assumes "ht_rep h T" and "T t = Some A" and "key \<noteq> NULL"
    and "\<not> refused (arena h) \<longrightarrow> at_copy_key A key (world h) = Some (c, k', w) \<and> c \<noteq> 0
      \<or> at_copy_key A key (world h) = Some (0, k', w1) \<and> at_copy_value A val w1 = Some (c, v', w2) \<and> c \<noteq> 0
         \<and> at_free_key A k' w2 = Some w"
  shows "\<exists>h'. ht_rep h' T \<and> (if refused (arena h)
    then generic_hash_table_get (Some t) key (Some x) h = Some (-1, Some x, h')
      \<and> generic_hash_table_contains (Some t) key h = Some (-1, h')
      \<and> generic_hash_table_delete (Some t) key h = Some (-1, h')
      \<and> (\<exists>h''. generic_hash_table_insert (Some t) key val h = Some (-1, h'') \<and> ht_rep h'' T \<and> world h'' = world h)
      \<and> world h' = world h
    else generic_hash_table_insert (Some t) key val h = Some (c, h') \<and> world h' = w)"
proof (cases "refused (arena h)")
  case True
  with ht_lookup_refused [OF assms(1,2) True assms(3), of x] ht_insert_refused [OF assms(1,2) True assms(3), of val]
  show ?thesis by auto
next
  case False
  with ht_insert_copy_fails [OF assms(1,2) False assms(3), of c k' w w1 val v' w2] assms(4) show ?thesis by auto
qed

theorem table_failures_atomic_witness:
  "\<exists>h'. generic_hash_table_get (Some 11) (Some ''news'') (Some NULL) (sample_table (failing_from 0)) = Some (-1, Some NULL, h')
    \<and> ht_rep h' [11 \<mapsto> sample_atable]"
  using table_failures_atomic [of "sample_table (failing_from 0)" "[11 \<mapsto> sample_atable]" 11 sample_atable "Some ''news''"
     0 NULL sample_alloc sample_alloc NULL NULL sample_alloc NULL]
  by auto

text \<open>C32: the broker's callbacks are fit for the table: two keys compare equal exactly when they are the same C
  string, equal keys have the same hash, and a copied key compares equal to its original.\<close>

theorem string_keys_lawful:
  shows "(string_compare (Some s) (Some t) = 0 \<longleftrightarrow> c_str s = c_str t)
    \<and> (c_str s = c_str t \<longrightarrow> string_hash (Some s) = string_hash (Some t))
    \<and> (if refused w then string_copy (Some s) w = Some (-1, NULL, tick w)
       else \<exists>k. string_copy (Some s) w = Some (0, Some k, tick w) \<and> string_compare (Some s) (Some k) = 0)"
  using broker_keys.hash_compat [of "Some s" "Some t"] string_copy_same [of "Some s" w]
  by (auto simp: string_compare_eq_0 string_copy_def)

theorem string_keys_lawful_witness:
  "string_hash (Some [CHR ''a'', CHR 0x00, CHR ''b'']) = string_hash (Some ''a'')"
  using string_keys_lawful [of "[CHR ''a'', CHR 0x00, CHR ''b'']" "''a''" sample_alloc] by (simp add: c_str_def)

text \<open>Creating a table yields an empty table of the requested capacity at an address that no table had; if a
  bucket or its mutex cannot be obtained the function returns -1, leaves the caller's variable alone, and has
  released every bucket it had built.\<close>

theorem table_new_all_or_nothing:
  assumes "ht_rep h T" and "grants 3 (arena h)" and "capacity \<noteq> 0" and "40 * unat capacity < 2 ^ 64"
  shows "\<exists>h' t. world h' = world h \<and> (if grants (3 + 4 * unat capacity) (arena h)
    then generic_hash_table_new capacity (Some hash) (Some fv) (Some cv) (Some fk) (Some ck) (Some cmp) (Some v) h
        = Some (0, Some (Some t), h') \<and> T t = None \<and> ht_rep h' (T(t \<mapsto> fresh_table capacity hash fv cv fk ck cmp))
    else generic_hash_table_new capacity (Some hash) (Some fv) (Some cv) (Some fk) (Some ck) (Some cmp) (Some v) h
        = Some (-1, Some v, h') \<and> ht_rep h' T)"
  using table_new_spec [OF assms, of hash fv cv fk ck cmp v] by (auto split: if_splits)

theorem table_new_all_or_nothing_witness:
  "\<exists>h' t. generic_hash_table_new 16 (Some string_hash) (Some (\<lambda>v w. Some w)) (Some channel_copy) (Some string_free)
      (Some string_copy) (Some string_compare) (Some NULL) (sample_table sample_alloc) = Some (0, Some (Some t), h')
    \<and> ht_rep h' [11 \<mapsto> sample_atable, t \<mapsto> fresh_table 16 string_hash (\<lambda>v w. Some w) channel_copy string_free string_copy string_compare]"
  using table_new_all_or_nothing [of "sample_table sample_alloc" "[11 \<mapsto> sample_atable]" 16 string_hash "\<lambda>v w. Some w"
      channel_copy string_free string_copy string_compare NULL]
  by auto

text \<open>C33: destroying a table ends, frees the key and then the value of every pair, bucket by bucket, and leaves
  every other table as it was.\<close>

theorem table_free_complete:
  assumes "ht_rep h T" and "T t = Some A" and "grants (length (at_buckets A)) (arena h)"
    and "release_all A (concat (at_buckets A)) (world h) = Some w"
  shows "\<exists>h'. generic_hash_table_free (Some t) h = Some (0, h') \<and> ht_rep h' (T(t := None)) \<and> world h' = w"
  using table_free_spec [OF assms] by blast

theorem table_free_complete_witness:
  "\<exists>h'. generic_hash_table_free (Some 11) (sample_table sample_alloc) = Some (0, h') \<and> ht_rep h' Map.empty \<and> world h' = sample_alloc"
  using table_free_complete [of "sample_table sample_alloc" "[11 \<mapsto> sample_atable]" 11 sample_atable sample_alloc]
  by (simp add: string_free_def)

section \<open>The thread pool\<close>

text \<open>C34: in every reachable state of the pool, whatever the threads have done and in whatever order, at most
  one thread is between taking and giving back the mutex of the pool, and it is the one that holds it.\<close>

theorem pool_mutual_exclusion:
  assumes "pool_reachable n s" and "0 < n" and "critical (tp_threads s i)"
  shows "tp_mutex s = Some i \<and> (\<forall>j. critical (tp_threads s j) \<longrightarrow> j = i)"
  using pool_reachable_inv [OF assms(1,2)] assms(3) unfolding pool_inv_def mutex_ok_def by auto

theorem pool_mutual_exclusion_witness:
  "\<exists>s :: (nat, nat) task_t thread_pool_t. run_schedule [(0, Proceed)] (new_pool 2) = Some s
    \<and> tp_mutex s = Some 0 \<and> \<not> critical (tp_threads s 1)"
proof -
  obtain s :: "(nat, nat) task_t thread_pool_t" where s: "run_schedule [(0, Proceed)] (new_pool 2) = Some s" "critical (tp_threads s 0)"
    by (simp add: step_defs new_pool_def)
  have "pool_reachable 2 s" by (rule run_schedule_reachable [OF pool_reachable.init s(1)])
  from pool_mutual_exclusion [OF this _ s(2)] s(1) show ?thesis by fastforce
qed

text \<open>C35: tasks are taken in the order in which they were accepted, none is lost and none runs twice: the tasks
  accepted are those taken followed by those still queued, and those taken are those that have run and those a
  dispatcher holds; the counter of tasks in flight counts the dispatchers that are running one.\<close>

theorem pool_tasks_exactly_once:
  assumes "pool_reachable n s" and "0 < n"
  shows "tp_accepted s = tp_taken s @ tp_queue_syn s
    \<and> mset (tp_taken s) = mset (tp_done s) + (\<Sum>i < n. tp_held (tp_threads s i))
    \<and> tp_in_flight s = of_nat (\<Sum>i < n. tp_counted (tp_threads s i))"
  using pool_reachable_inv [OF assms] by (auto simp: pool_inv_def tasks_ok_def tp_total_def)

theorem pool_tasks_exactly_once_witness:
  "\<exists>s :: (nat, nat) task_t thread_pool_t. pool_reachable 1 s \<and> tp_accepted s = [\<lparr>task_function = 3, task_arg = NULL\<rparr>]
    \<and> tp_accepted s = tp_taken s @ tp_queue_syn s"
proof -
  obtain s :: "(nat, nat) task_t thread_pool_t" where s: "pool_reachable 1 s" "tp_accepted s = [\<lparr>task_function = 3, task_arg = NULL\<rparr>]"
    by (rule sample_submitted)
  from pool_tasks_exactly_once [OF s(1)] s show ?thesis by auto
qed

text \<open>C36: no wake-up is lost: while the pool is on and a task is queued, some dispatcher is on its way to the
  queue, or a submitter is about to signal one.\<close>

theorem pool_no_lost_wakeup:
  assumes "pool_reachable n s" and "0 < n" and "tp_on s" and "tp_queue_syn s \<noteq> []"
  shows "(\<exists>i < n. awake (tp_threads s i)) \<or> (\<exists>i. tp_threads s i \<in> {Submit S_Lock, Submit S_Signal})"
proof -
  have inv: "wakeup_ok s" "roles (tp_threads s) n" using pool_reachable_inv [OF assms(1,2)] by (auto simp: pool_inv_def)
  then have "\<not> nobody awake (tp_threads s) \<or> signal_pending (tp_threads s)" using assms(3,4) unfolding wakeup_ok_def by blast
  moreover have "i < n" if "awake (tp_threads s i)" for i
    using inv(2) that unfolding roles_def by (metis awake.elims(2) is_dispatcher.simps(1))
  ultimately show ?thesis unfolding nobody_def signal_pending_def by auto
qed

theorem pool_no_lost_wakeup_witness:
  "\<exists>s :: (nat, nat) task_t thread_pool_t. pool_reachable 1 s \<and> tp_queue_syn s \<noteq> []
    \<and> ((\<exists>i < 1. awake (tp_threads s i)) \<or> (\<exists>i. tp_threads s i \<in> {Submit S_Lock, Submit S_Signal}))"
proof -
  obtain s :: "(nat, nat) task_t thread_pool_t" where s: "pool_reachable 1 s" "tp_on s" "tp_queue_syn s \<noteq> []"
    by (rule sample_submitted)
  have "(\<exists>i < 1. awake (tp_threads s i)) \<or> (\<exists>i. tp_threads s i \<in> {Submit S_Lock, Submit S_Signal})"
    by (rule pool_no_lost_wakeup [OF s(1) zero_less_one s(2,3)])
  with s(1,3) show ?thesis by (intro exI [of _ s]) simp
qed



text \<open>C38: \<open>thread_pool_wait\<close> may return although a task that was accepted before the call has not run: between
  taking a task and counting it as in flight a dispatcher leaves the queue empty and the counter zero.\<close>

theorem pool_wait_returns_early:
  "\<exists>s0 s1 s2. run_schedule submit_schedule (goto 1 (thread_pool_submit True (Some f) a) (new_pool 1)) = Some s0
    \<and> tp_threads s0 1 = Returned 0 \<and> tp_accepted s0 = [\<lparr>task_function = f, task_arg = a\<rparr>]
    \<and> run_schedule take_schedule s0 = Some s1
    \<and> run_schedule wait_schedule (goto 1 (thread_pool_wait True) s1) = Some s2
    \<and> tp_threads s2 1 = Returned 0 \<and> tp_done s2 = []"
  using wait_race [of f a] by blast

section \<open>Creation and release of the thread pool\<close>





end
